(* ===== verification/C_Prelude.thy ===== *)
theory C_Prelude
  imports Main "HOL-Library.Word"
begin

text \<open>
  The part of C and of its standard library that the labs rely on: the outcome of a call
  (a value, a failed \<^verbatim>\<open>assert\<close>, an \<^verbatim>\<open>exit\<close>, undefined behaviour), NUL-terminated strings in
  byte arrays, \<^verbatim>\<open>strcmp\<close>, \<^verbatim>\<open>strcpy\<close>/\<^verbatim>\<open>memcpy\<close> with their bounds, \<^verbatim>\<open>strtok\<close>, the wrap-around of
  \<^verbatim>\<open>int\<close> and \<^verbatim>\<open>size_t\<close>, truncating \<^verbatim>\<open>%\<close>, and the \<^verbatim>\<open>errno\<close> values, with the generic lemmas
  on them that the components share.
\<close>

named_theorems outcome_defs \<open>definitions that thread an outcome\<close>
named_theorems errno_defs \<open>the errno constants\<close>

section \<open>Outcomes\<close>

text \<open>
  \<^verbatim>\<open>Done v\<close>: the call returns \<open>v\<close>.  \<^verbatim>\<open>Abort\<close>: an assertion fails.  \<^verbatim>\<open>Exit n\<close>: the process calls
  \<^verbatim>\<open>exit(n)\<close>.  \<^verbatim>\<open>Undef\<close>: an access outside an array (or of freed memory), a signed overflow.
\<close>

datatype 'a outcome = Done 'a | Abort | Exit int | Undef

primrec obind :: "'a outcome \<Rightarrow> ('a \<Rightarrow> 'b outcome) \<Rightarrow> 'b outcome" where
  "obind (Done x) f = f x"
| "obind Abort f = Abort"
| "obind (Exit n) f = Exit n"
| "obind Undef f = Undef"

lemma obind_Done_iff: "obind m f = Done y \<longleftrightarrow> (\<exists>x. m = Done x \<and> f x = Done y)"
  by (cases m) auto

lemma obind_DoneE:
  assumes "obind m f = Done y"
  obtains x where "m = Done x" "f x = Done y"
  using assms by (auto simp: obind_Done_iff)

lemma obind_assoc: "obind (obind m f) g = obind m (\<lambda>x. obind (f x) g)"
  by (cases m) auto

lemma obind_Done_right [simp]: "obind m Done = m"
  by (cases m) auto

lemma obind_cong [fundef_cong]:
  "m = m' \<Longrightarrow> (\<And>x. m' = Done x \<Longrightarrow> f x = g x) \<Longrightarrow> obind m f = obind m' g"
  by (cases m') auto

section \<open>Integers\<close>

text \<open>An \<^verbatim>\<open>int\<close> is 32 bits in two's complement; \<^verbatim>\<open>size_t\<close> and the usual conversions to it are
  64 bits unsigned.\<close>

definition int32 :: "int \<Rightarrow> int" where
  "int32 x = (x + 2 ^ 31) mod 2 ^ 32 - 2 ^ 31"

definition u64 :: "int \<Rightarrow> int" where
  "u64 x = x mod 2 ^ 64"

lemma int32_id [simp]: "- (2 ^ 31) \<le> x \<Longrightarrow> x < 2 ^ 31 \<Longrightarrow> int32 x = x"
  by (simp add: int32_def)

lemma int32_bounds: "- (2 ^ 31) \<le> int32 x" "int32 x < 2 ^ 31"
  using pos_mod_bound [of "2 ^ 32" "x + 2 ^ 31"] by (simp_all add: int32_def)

lemma u64_id [simp]: "0 \<le> x \<Longrightarrow> x < 2 ^ 64 \<Longrightarrow> u64 x = x"
  by (simp add: u64_def)

text \<open>\<^verbatim>\<open>a % b\<close> of C for \<open>b > 0\<close>: the remainder has the sign of \<open>a\<close>.\<close>

definition c_mod :: "int \<Rightarrow> int \<Rightarrow> int" where
  "c_mod a b = (if 0 \<le> a then a mod b else - ((- a) mod b))"

definition c_div :: "int \<Rightarrow> int \<Rightarrow> int" where
  "c_div a b = (if 0 \<le> a then a div b else - ((- a) div b))"

lemma c_mod_nonneg [simp]: "0 \<le> a \<Longrightarrow> c_mod a b = a mod b"
  by (simp add: c_mod_def)

lemma c_div_nonneg [simp]: "0 \<le> a \<Longrightarrow> c_div a b = a div b"
  by (simp add: c_div_def)

lemma c_mod_bounds:
  assumes "0 < b"
  shows "- b < c_mod a b" "c_mod a b < b"
proof -
  have r: "0 \<le> x mod b" "x mod b < b" for x
    using assms by simp_all
  have "c_mod a b = a mod b \<or> c_mod a b = - (- a mod b)"
    by (simp add: c_mod_def)
  then show "- b < c_mod a b" "c_mod a b < b"
    using r [of a] r [of "- a"] assms by linarith+
qed

lemma c_mod_cong: "0 < b \<Longrightarrow> c_mod a b mod b = a mod b"
proof (cases "0 \<le> a")
  case False
  have "(- ((- a) mod b)) mod b = (- (- a)) mod b"
    by (rule mod_minus_eq)
  then show ?thesis
    using False by (simp add: c_mod_def)
qed (simp add: c_mod_def)

lemma c_mod_minus: "c_mod (- a) b = - c_mod a b"
  by (auto simp: c_mod_def)

section \<open>The errno values\<close>

definition ENOENT :: int where [errno_defs]: "ENOENT = 2"
definition EIO :: int where [errno_defs]: "EIO = 5"
definition EEXIST :: int where [errno_defs]: "EEXIST = 17"
definition ENOTDIR :: int where [errno_defs]: "ENOTDIR = 20"
definition EISDIR :: int where [errno_defs]: "EISDIR = 21"
definition EINVAL :: int where [errno_defs]: "EINVAL = 22"
definition ENOSPC :: int where [errno_defs]: "ENOSPC = 28"
definition ENOTEMPTY :: int where [errno_defs]: "ENOTEMPTY = 39"

section \<open>Strings in byte arrays\<close>

abbreviation NUL :: char where
  "NUL \<equiv> CHR 0x00"

text \<open>The string a byte array holds: the bytes before the first NUL; a read that finds no NUL
  runs off the array.\<close>

fun c_str :: "char list \<Rightarrow> string outcome" where
  "c_str [] = Undef"
| "c_str (c # cs) = (if c = NUL then Done [] else obind (c_str cs) (\<lambda>s. Done (c # s)))"

text \<open>\<^verbatim>\<open>strcmp(a, b) == 0\<close> on two arrays: it stops at the first difference or at a common NUL.\<close>

fun strcmp_eq :: "char list \<Rightarrow> char list \<Rightarrow> bool outcome" where
  "strcmp_eq (a # as) (b # bs) =
     (if a \<noteq> b then Done False else if a = NUL then Done True else strcmp_eq as bs)"
| "strcmp_eq _ _ = Undef"

text \<open>\<^verbatim>\<open>memcpy(dst + off, src, n)\<close>.\<close>

definition mem_write :: "nat \<Rightarrow> char list \<Rightarrow> char list \<Rightarrow> char list outcome" where
  "mem_write off src dst =
     (if off + length src \<le> length dst
      then Done (take off dst @ src @ drop (off + length src) dst) else Undef)"

text \<open>\<^verbatim>\<open>strcpy(dst, src)\<close>: copies the string and its NUL.\<close>

definition strcpy :: "char list \<Rightarrow> char list \<Rightarrow> char list outcome" where
  "strcpy dst src = obind (c_str src) (\<lambda>s. mem_write 0 (s @ [NUL]) dst)"

text \<open>One call of \<^verbatim>\<open>strtok\<close>: the token and the text the next call continues with, or NULL.\<close>

definition strtok :: "char list \<Rightarrow> string \<Rightarrow> (string \<times> string) option" where
  "strtok delims s =
     (let s' = dropWhile (\<lambda>c. c \<in> set delims) s
      in if s' = [] then None
         else Some (takeWhile (\<lambda>c. c \<notin> set delims) s',
                    drop 1 (dropWhile (\<lambda>c. c \<notin> set delims) s')))"

text \<open>The string of an array that holds \<open>s\<close> and a NUL.\<close>

lemma c_str_append [simp]: "NUL \<notin> set s \<Longrightarrow> c_str (s @ NUL # rest) = Done s"
  by (induction s) auto

lemma c_str_Done_iff:
  "c_str bs = Done s \<longleftrightarrow> NUL \<notin> set s \<and> (\<exists>rest. bs = s @ NUL # rest)"
proof (induction bs arbitrary: s)
  case (Cons c bs)
  then show ?case
    by (cases s) (auto simp: obind_Done_iff)
qed simp

lemma c_str_after: "NUL \<notin> set s \<Longrightarrow> c_str (s @ z) = obind (c_str z) (\<lambda>w. Done (s @ w))"
  by (induction s) (auto simp: obind_assoc)

lemma c_str_terminates:
  assumes "i < length bs"
  shows "\<exists>s. c_str (bs[i := NUL]) = Done s"
  using assms
proof (induction bs arbitrary: i)
  case (Cons b bs)
  show ?case
  proof (cases i)
    case (Suc j)
    then obtain s where "c_str (bs[j := NUL]) = Done s"
      using Cons by auto
    then show ?thesis
      using Suc by simp
  qed simp
qed simp

lemma strcmp_eq_iff:
  assumes "NUL \<notin> set s" "NUL \<notin> set t"
  shows "strcmp_eq (s @ NUL # x) (t @ NUL # y) = Done (s = t)"
  using assms
proof (induction s arbitrary: t)
  case Nil
  then show ?case by (cases t) auto
next
  case (Cons a s)
  then show ?case by (cases t) auto
qed

lemma strcmp_eq_c_str:
  "c_str a = Done s \<Longrightarrow> c_str b = Done t \<Longrightarrow> strcmp_eq a b = Done (s = t)"
  by (auto simp: c_str_Done_iff strcmp_eq_iff)

lemma mem_write_Done_iff:
  "mem_write off src dst = Done r \<longleftrightarrow>
     off + length src \<le> length dst \<and> r = take off dst @ src @ drop (off + length src) dst"
  by (auto simp: mem_write_def)

lemma length_mem_write: "mem_write off src dst = Done r \<Longrightarrow> length r = length dst"
  by (auto simp: mem_write_Done_iff)

lemma mem_write_fits:
  "off + length src \<le> length dst \<Longrightarrow>
     mem_write off src dst = Done (take off dst @ src @ drop (off + length src) dst)"
  by (simp add: mem_write_def)

lemma strcpy_fits:
  "NUL \<notin> set s \<Longrightarrow> length s < length dst \<Longrightarrow>
     strcpy dst (s @ NUL # rest) = Done (s @ NUL # drop (Suc (length s)) dst)"
  by (simp add: strcpy_def mem_write_def)

lemma strtok_Some:
  assumes "strtok delims s = Some (tok, rest)"
  shows "tok \<noteq> []" "set tok \<inter> set delims = {}" "set tok \<subseteq> set s" "set rest \<subseteq> set s"
    "length tok + length rest \<le> length s"
proof -
  let ?d = "\<lambda>c. c \<in> set delims"
  let ?s = "dropWhile ?d s"
  from assms have ne: "?s \<noteq> []" and tok: "tok = takeWhile (\<lambda>c. \<not> ?d c) ?s"
    and rest: "rest = drop 1 (dropWhile (\<lambda>c. \<not> ?d c) ?s)"
    by (auto simp: strtok_def Let_def split: if_splits)
  from ne have "\<not> ?d (hd ?s)" by (rule hd_dropWhile)
  with ne tok show "tok \<noteq> []" by (cases ?s) auto
  show "set tok \<inter> set delims = {}" unfolding tok by (auto dest: set_takeWhileD)
  show "set tok \<subseteq> set s" unfolding tok by (auto dest!: set_takeWhileD set_dropWhileD)
  show "set rest \<subseteq> set s" unfolding rest by (auto dest!: in_set_dropD set_dropWhileD)
  have "length ?s = length tok + length (dropWhile (\<lambda>c. \<not> ?d c) ?s)"
    unfolding tok by (metis length_append takeWhile_dropWhile_id)
  moreover have "length ?s \<le> length s" by (rule length_dropWhile_le)
  ultimately show "length tok + length rest \<le> length s" unfolding rest by simp
qed

text \<open>Splitting a text of the form delimiter, word, end or delimiter.\<close>

lemma strtok_word:
  assumes "tok \<noteq> []" "d \<notin> set tok" "rest = [] \<or> hd rest = d"
  shows "strtok [d] (d # tok @ rest) = Some (tok, drop 1 rest)"
proof -
  from assms(1,2) have "dropWhile (\<lambda>c. c \<in> set [d]) (d # tok @ rest) = tok @ rest"
    by (cases tok) auto
  moreover have "takeWhile (\<lambda>c. c \<notin> set [d]) (tok @ rest) = tok"
    using assms(2,3) by (cases rest) (auto simp: takeWhile_append intro!: takeWhile_eq_all_conv [THEN iffD2])
  moreover have "dropWhile (\<lambda>c. c \<notin> set [d]) (tok @ rest) = rest"
    using assms(2,3) by (cases rest) (auto simp: dropWhile_append)
  ultimately show ?thesis
    using assms(1) by (simp add: strtok_def)
qed

lemma strtok_word0:
  assumes "tok \<noteq> []" "d \<notin> set tok" "rest = [] \<or> hd rest = d"
  shows "strtok [d] (tok @ rest) = Some (tok, drop 1 rest)"
proof -
  have "strtok [d] (tok @ rest) = strtok [d] (d # tok @ rest)"
    by (simp add: strtok_def)
  then show ?thesis
    using strtok_word [OF assms] by simp
qed

lemma strtok_empty [simp]: "strtok delims [] = None"
  by (simp add: strtok_def)

section \<open>Characters and decimal numbers\<close>

text \<open>\<^verbatim>\<open>char\<close> is signed.\<close>

definition char_val :: "char \<Rightarrow> int" where
  "char_val c = (if (of_char c :: int) < 128 then of_char c else of_char c - 256)"

text \<open>The conversion of an \<^verbatim>\<open>int\<close> to \<^verbatim>\<open>char\<close>.\<close>

definition to_char :: "int \<Rightarrow> char" where
  "to_char d = char_of d"

lemma char_val_to_char: "- 128 \<le> d \<Longrightarrow> d < 128 \<Longrightarrow> char_val (to_char d) = d"
proof -
  assume d: "- 128 \<le> d" "d < 128"
  show ?thesis
  proof (cases "0 \<le> d")
    case True
    then show ?thesis
      using d by (simp add: char_val_def to_char_def)
  next
    case False
    then have "d mod 256 = d + 256"
      using d mod_pos_pos_trivial [of "d + 256" 256] by simp
    then show ?thesis
      using d False by (simp add: char_val_def to_char_def)
  qed
qed

lemma to_char_char_val: "to_char (char_val c) = c"
proof -
  have "char_val c mod 256 = of_char c"
    by (simp add: char_val_def)
  then have "char_of (char_val c) = char_of (of_char c :: int)"
    by (metis char_of_mod_256)
  then show ?thesis
    by (simp add: to_char_def)
qed

lemma char_val_inj: "char_val a = char_val b \<Longrightarrow> a = b"
  by (metis to_char_char_val)

definition is_digit :: "char \<Rightarrow> bool" where
  "is_digit c \<longleftrightarrow> 48 \<le> (of_char c :: nat) \<and> (of_char c :: nat) \<le> 57"

fun dec_val :: "nat \<Rightarrow> string \<Rightarrow> nat" where
  "dec_val n [] = n"
| "dec_val n (c # cs) = (if is_digit c then dec_val (10 * n + (of_char c - 48)) cs else n)"

text \<open>\<^verbatim>\<open>atoi\<close>: white space, an optional sign, digits; a value outside \<^verbatim>\<open>int\<close> is undefined behaviour.\<close>

definition is_space :: "char \<Rightarrow> bool" where
  "is_space c \<longleftrightarrow> c = CHR '' '' \<or> (9 \<le> (of_char c :: nat) \<and> (of_char c :: nat) \<le> 13)"

definition atoi :: "string \<Rightarrow> int outcome" where
  "atoi s =
     (let s = dropWhile is_space s;
          v = (case s of [] \<Rightarrow> 0
               | c # cs \<Rightarrow> if c = CHR ''-'' then - int (dec_val 0 cs)
                            else if c = CHR ''+'' then int (dec_val 0 cs) else int (dec_val 0 s))
      in if - (2 ^ 31) \<le> v \<and> v < 2 ^ 31 then Done v else Undef)"

text \<open>The text that \<^verbatim>\<open>%d\<close> prints for a number that is not negative.\<close>

fun dec_text :: "nat \<Rightarrow> string" where
  "dec_text n = (if n < 10 then [char_of (48 + n)] else dec_text (n div 10) @ [char_of (48 + n mod 10)])"

declare dec_text.simps [simp del]

lemma digit_char:
  fixes d :: nat
  assumes "d < 10"
  shows "is_digit (char_of (48 + d))" "of_char (char_of (48 + d) :: char) - 48 = d"
    "(char_of (48 + d) :: char) \<noteq> CHR ''-''" "(char_of (48 + d) :: char) \<noteq> CHR ''+''"
    "\<not> is_space (char_of (48 + d))" "(char_of (48 + d) :: char) \<noteq> NUL"
proof -
  have v: "(of_char (char_of (48 + d) :: char) :: nat) = 48 + d"
    using assms by simp
  then show "is_digit (char_of (48 + d))" "of_char (char_of (48 + d) :: char) - 48 = d"
    using assms by (simp_all add: is_digit_def)
  have "c \<noteq> char_of (48 + d)" if "(of_char c :: nat) < 48" for c :: char
    using that v by auto
  from this [of "CHR ''-''"] this [of "CHR ''+''"] this [of "CHR '' ''"] this [of NUL]
  show "(char_of (48 + d) :: char) \<noteq> CHR ''-''" "(char_of (48 + d) :: char) \<noteq> CHR ''+''"
    "\<not> is_space (char_of (48 + d))" "(char_of (48 + d) :: char) \<noteq> NUL"
    using v by (auto simp: is_space_def)
qed

lemma dec_val_append:
  "list_all is_digit a \<Longrightarrow> dec_val n (a @ b) = dec_val (dec_val n a) b"
  by (induction a arbitrary: n) auto

lemma dec_text_digits: "list_all is_digit (dec_text n)" "dec_text n \<noteq> []" "NUL \<notin> set (dec_text n)"
proof -
  have "list_all is_digit (dec_text n) \<and> dec_text n \<noteq> [] \<and> NUL \<notin> set (dec_text n)"
    by (induction n rule: dec_text.induct) (subst (1 2 3) dec_text.simps, auto simp: digit_char digit_char(6) [symmetric])
  then show "list_all is_digit (dec_text n)" "dec_text n \<noteq> []" "NUL \<notin> set (dec_text n)"
    by simp_all
qed

lemma length_dec_text: "n < 10 ^ k \<Longrightarrow> length (dec_text n) \<le> max 1 k"
proof (induction n arbitrary: k rule: dec_text.induct)
  case (1 n)
  show ?case
  proof (cases "n < 10")
    case False
    then obtain j where k: "k = Suc j"
      using 1(2) by (cases k) auto
    have "n div 10 < 10 ^ j"
      using 1(2) k by (simp add: less_mult_imp_div_less mult.commute)
    moreover have "j \<noteq> 0"
      using calculation False by (cases j) auto
    ultimately have "length (dec_text (n div 10)) \<le> j"
      using 1(1) [OF False] by fastforce
    then show ?thesis
      using False k by (subst dec_text.simps) simp
  qed (simp add: dec_text.simps)
qed

lemma dec_val_text: "dec_val 0 (dec_text n) = n"
proof (induction n rule: dec_text.induct)
  case (1 n)
  show ?case
  proof (cases "n < 10")
    case True
    then show ?thesis
      by (subst dec_text.simps) (simp add: digit_char)
  next
    case False
    have "dec_val 0 (dec_text (n div 10) @ [char_of (48 + n mod 10)]) = 10 * (n div 10) + n mod 10"
      using 1 [OF False] dec_val_append [OF dec_text_digits(1)] by (simp add: digit_char)
    then show ?thesis
      using False by (subst dec_text.simps) simp
  qed
qed

lemma atoi_dec_text:
  assumes "int n < 2 ^ 31"
  shows "atoi (dec_text n) = Done (int n)"
proof -
  obtain c cs where c: "dec_text n = c # cs"
    using dec_text_digits(2) by (cases "dec_text n") auto
  then have "is_digit c"
    using dec_text_digits(1) [of n] by simp
  then have v: "48 \<le> (of_char c :: nat)" "(of_char c :: nat) \<le> 57"
    by (simp_all add: is_digit_def)
  then have "\<not> is_space c" "c \<noteq> CHR ''-''" "c \<noteq> CHR ''+''"
    by (auto simp: is_space_def)
  then show ?thesis
    using c dec_val_text [of n] assms by (simp add: atoi_def Let_def del: dec_val.simps)
qed

text \<open>The text that \<^verbatim>\<open>%d\<close> prints.\<close>

definition int_text :: "int \<Rightarrow> string" where
  "int_text i = (if i < 0 then CHR ''-'' # dec_text (nat (- i)) else dec_text (nat i))"

abbreviation newline :: char where
  "newline \<equiv> CHR 0x0A"

lemma dec_text_set: "c \<in> set (dec_text n) \<Longrightarrow> is_digit c"
  using dec_text_digits(1) [of n] by (simp add: list_all_iff)

lemma int_text_chars: "int_text k \<noteq> []" "CHR '' '' \<notin> set (int_text k)" "newline \<notin> set (int_text k)"
    "NUL \<notin> set (int_text k)"
proof -
  have d: "\<not> is_digit (CHR '' '')" "\<not> is_digit newline" "\<not> is_digit NUL"
    by (simp_all add: is_digit_def)
  show "int_text k \<noteq> []" "CHR '' '' \<notin> set (int_text k)" "newline \<notin> set (int_text k)" "NUL \<notin> set (int_text k)"
    using dec_text_digits(2) d dec_text_set by (auto simp: int_text_def)
qed

lemma dec_val_stop: "list_all is_digit a \<Longrightarrow> \<not> is_digit c \<Longrightarrow> dec_val n (a @ c # r) = dec_val n a"
  by (induction a arbitrary: n) auto

lemma dec_val_text_stop: "r = [] \<or> r = [newline] \<Longrightarrow> dec_val 0 (dec_text n @ r) = n"
  using dec_val_stop [OF dec_text_digits(1), of newline 0 n "[]"] by (auto simp: dec_val_text is_digit_def)

lemma atoi_int_text:
  assumes "- (2 ^ 31) < k" "k < 2 ^ 31" "r = [] \<or> r = [newline]"
  shows "atoi (int_text k @ r) = Done k"
proof (cases "k < 0")
  case True
  then show ?thesis
    using assms dec_val_text_stop [OF assms(3), of "nat (- k)"]
    by (simp add: atoi_def Let_def int_text_def is_space_def)
next
  case False
  obtain c cs where c: "dec_text (nat k) = c # cs" "is_digit c"
    using dec_text_digits(1,2) [of "nat k"] by (cases "dec_text (nat k)") auto
  have "\<not> is_space c" "c \<noteq> CHR ''-''" "c \<noteq> CHR ''+''"
    using c(2) by (auto simp: is_digit_def is_space_def)
  then show ?thesis
    using False assms c(1) dec_val_text_stop [OF assms(3), of "nat k"]
    by (simp add: atoi_def Let_def int_text_def del: dec_val.simps)
qed

lemma strtok_sep:
  assumes "tok \<noteq> []" "d \<notin> set tok"
  shows "strtok [d] (tok @ d # rest) = Some (tok, rest)" "strtok [d] tok = Some (tok, [])"
  using strtok_word0 [OF assms, of "d # rest"] strtok_word0 [OF assms, of "[]"] by simp_all

section \<open>Little-endian integers\<close>

fun le_bytes :: "nat \<Rightarrow> nat \<Rightarrow> char list" where
  "le_bytes 0 n = []"
| "le_bytes (Suc k) n = char_of (n mod 256) # le_bytes k (n div 256)"

fun le_nat :: "char list \<Rightarrow> nat" where
  "le_nat [] = 0"
| "le_nat (c # cs) = of_char c + 256 * le_nat cs"

lemma length_le_bytes [simp]: "length (le_bytes k n) = k"
  by (induction k arbitrary: n) auto

lemma le_nat_less: "le_nat cs < 256 ^ length cs"
proof (induction cs)
  case (Cons c cs)
  have "of_char c < (256::nat)" by simp
  then have "of_char c + 256 * le_nat cs < 256 * (le_nat cs + 1)"
    by simp
  also have "\<dots> \<le> 256 * 256 ^ length cs"
    using Cons by (intro mult_le_mono2) simp
  finally show ?case by simp
qed simp

lemma le_nat_le_bytes: "le_nat (le_bytes k n) = n mod 256 ^ k"
proof (induction k arbitrary: n)
  case (Suc k)
  have "n mod 256 ^ Suc k = 256 * (n div 256 mod 256 ^ k) + n mod 256"
    by (simp add: mod_mult2_eq)
  with Suc show ?case by simp
qed simp

lemma le_bytes_le_nat: "le_bytes (length cs) (le_nat cs) = cs"
proof (induction cs)
  case (Cons c cs)
  have "of_char c < (256::nat)" by simp
  then have "(of_char c + 256 * le_nat cs) mod 256 = of_char c"
    "(of_char c + 256 * le_nat cs) div 256 = le_nat cs"
    by simp_all
  with Cons show ?case by simp
qed simp

end
