(* ===== verification/Fs_Layout.thy ===== *)
theory Fs_Layout
  imports C_Prelude
begin

text \<open>
  The on-disk structures of Lab 5 (\<^verbatim>\<open>lab5-TheCarton-main/fs5600.h\<close>): superblock, inode and
  directory entry, each a record, with the byte layout that the compiler gives them (little
  endian, the one-bit \<^verbatim>\<open>valid\<close> field in the low bit).  Reading a block into a struct is \<^verbatim>\<open>decode\<close>,
  writing it is \<^verbatim>\<open>encode\<close>.  The locale \<open>codec\<close> states what such a pair promises; it is
  interpreted for 16- and 32-bit words, directory entries, directory blocks, inodes and the
  superblock.
\<close>

unbundle bit_operations_syntax

named_theorems layout_simps \<open>sizes and round trips of the on-disk structures\<close>

section \<open>The interface of a fixed-size encoding\<close>

fun unpack :: "nat \<Rightarrow> (char list \<Rightarrow> 'a) \<Rightarrow> nat \<Rightarrow> char list \<Rightarrow> 'a list" where
  "unpack w dec 0 bs = []"
| "unpack w dec (Suc n) bs = dec (take w bs) # unpack w dec n (drop w bs)"

definition pack :: "('a \<Rightarrow> char list) \<Rightarrow> 'a list \<Rightarrow> char list" where
  "pack enc xs = concat (map enc xs)"

lemma pack_Nil [simp]: "pack enc [] = []"
  by (simp add: pack_def)

lemma pack_Cons [simp]: "pack enc (x # xs) = enc x @ pack enc xs"
  by (simp add: pack_def)

lemma length_unpack [simp]: "length (unpack w dec n bs) = n"
  by (induction n arbitrary: bs) auto

locale codec =
  fixes enc :: "'a \<Rightarrow> char list"
    and dec :: "char list \<Rightarrow> 'a"
    and w :: nat
    and ok :: "'a \<Rightarrow> bool"
  assumes enc_length: "ok x \<Longrightarrow> length (enc x) = w"
    and dec_enc: "ok x \<Longrightarrow> dec (enc x) = x"
    and dec_ok: "length bs = w \<Longrightarrow> ok (dec bs)"
    and enc_dec: "length bs = w \<Longrightarrow> enc (dec bs) = bs"
begin

lemma enc_inj: "ok x \<Longrightarrow> ok y \<Longrightarrow> enc x = enc y \<longleftrightarrow> x = y"
  by (metis dec_enc)

lemma dec_inj: "length a = w \<Longrightarrow> length b = w \<Longrightarrow> dec a = dec b \<longleftrightarrow> a = b"
  by (metis enc_dec)

lemma pack_length: "list_all ok xs \<Longrightarrow> length (pack enc xs) = length xs * w"
  by (induction xs) (auto simp: enc_length)

lemma unpack_pack: "list_all ok xs \<Longrightarrow> unpack w dec (length xs) (pack enc xs) = xs"
  by (induction xs) (auto simp: enc_length dec_enc)

lemma unpack_ok: "length bs = n * w \<Longrightarrow> list_all ok (unpack w dec n bs)"
  by (induction n arbitrary: bs) (auto intro: dec_ok)

lemma pack_unpack: "length bs = n * w \<Longrightarrow> pack enc (unpack w dec n bs) = bs"
  by (induction n arbitrary: bs) (auto simp: enc_dec)

text \<open>An array of \<open>n\<close> encoded elements is again a fixed-size encoding.\<close>

lemma array_codec:
  "codec (pack enc) (unpack w dec n) (n * w) (\<lambda>xs. length xs = n \<and> list_all ok xs)"
  by unfold_locales (auto simp: pack_length unpack_pack pack_unpack intro: unpack_ok)

end

section \<open>Words\<close>

definition word_enc :: "nat \<Rightarrow> 'a::len word \<Rightarrow> char list" where
  "word_enc k x = le_bytes k (unat x)"

definition word_dec :: "char list \<Rightarrow> 'a::len word" where
  "word_dec bs = of_nat (le_nat bs)"

lemma length_word_enc [simp, layout_simps]: "length (word_enc k x) = k"
  by (simp add: word_enc_def)

lemma word_codec:
  assumes "LENGTH('a::len) = 8 * k"
  shows "codec (word_enc k :: 'a word \<Rightarrow> char list) word_dec k (\<lambda>_. True)"
proof -
  have pow: "(256::nat) ^ k = 2 ^ LENGTH('a)"
    using assms by (simp add: power_mult)
  show ?thesis
  proof unfold_locales
    fix x :: "'a word"
    show "word_dec (word_enc k x) = x"
      using unsigned_less [of x, where ?'a = nat]
      by (simp add: word_dec_def word_enc_def le_nat_le_bytes pow)
  next
    fix bs :: "char list"
    assume len: "length bs = k"
    then have "le_nat bs < 2 ^ LENGTH('a)"
      using le_nat_less [of bs] pow by simp
    then have "unat (word_dec bs :: 'a word) = le_nat bs"
      by (simp add: word_dec_def unat_of_nat)
    then show "word_enc k (word_dec bs :: 'a word) = bs"
      using le_bytes_le_nat [of bs] len by (simp add: word_enc_def)
  qed simp_all
qed

interpretation u16: codec "word_enc 2 :: 16 word \<Rightarrow> char list" word_dec 2 "\<lambda>_. True"
  by (rule word_codec) simp

interpretation u32: codec "word_enc 4 :: 32 word \<Rightarrow> char list" word_dec 4 "\<lambda>_. True"
  by (rule word_codec) simp

interpretation u32s: codec "pack (word_enc 4 :: 32 word \<Rightarrow> char list)" "unpack 4 word_dec 1019"
    "1019 * 4" "\<lambda>xs. length xs = 1019 \<and> list_all (\<lambda>_. True) xs"
  by (rule u32.array_codec)

section \<open>The constants and structs of fs5600.h\<close>

abbreviation FS_BLOCK_SIZE :: nat where "FS_BLOCK_SIZE \<equiv> 4096"
abbreviation FS_MAGIC :: "32 word" where "FS_MAGIC \<equiv> 0x30303635"

text \<open>\<^verbatim>\<open>FS_BLOCK_SIZE/4 - 5\<close> and \<^verbatim>\<open>FS_BLOCK_SIZE / sizeof(struct fs_dirent)\<close>.\<close>

abbreviation NUM_PTRS_INODE :: nat where "NUM_PTRS_INODE \<equiv> 1019"
abbreviation NUM_DIRENT_BLOCK :: nat where "NUM_DIRENT_BLOCK \<equiv> 128"

definition DIV_ROUND_UP :: "int \<Rightarrow> int \<Rightarrow> int" where
  "DIV_ROUND_UP N M = c_div (int32 (N + M - 1)) M"

record fs_super =
  magic :: "32 word"
  disk_size :: "32 word"
  pad :: "char list"

record fs_inode =
  i_uid :: "16 word"
  i_gid :: "16 word"
  i_mode :: "32 word"
  i_ctime :: "32 word"
  i_mtime :: "32 word"
  i_size :: "32 word"
  i_ptrs :: "32 word list"

record fs_dirent =
  d_valid :: bool
  d_inode :: "31 word"
  d_name :: "char list"

definition super_ok :: "fs_super \<Rightarrow> bool" where
  "super_ok sb \<longleftrightarrow> length (pad sb) = 4088"

definition inode_ok :: "fs_inode \<Rightarrow> bool" where
  "inode_ok i \<longleftrightarrow> length (i_ptrs i) = NUM_PTRS_INODE"

definition dirent_ok :: "fs_dirent \<Rightarrow> bool" where
  "dirent_ok e \<longleftrightarrow> length (d_name e) = 28"

definition encode_super :: "fs_super \<Rightarrow> char list" where
  "encode_super sb = word_enc 4 (magic sb) @ word_enc 4 (disk_size sb) @ pad sb"

definition decode_super :: "char list \<Rightarrow> fs_super" where
  "decode_super bs = \<lparr>magic = word_dec (take 4 bs), disk_size = word_dec (take 4 (drop 4 bs)),
     pad = drop 8 bs\<rparr>"

definition encode_inode :: "fs_inode \<Rightarrow> char list" where
  "encode_inode i = word_enc 2 (i_uid i) @ word_enc 2 (i_gid i) @ word_enc 4 (i_mode i) @
     word_enc 4 (i_ctime i) @ word_enc 4 (i_mtime i) @ word_enc 4 (i_size i) @
     pack (word_enc 4) (i_ptrs i)"

definition decode_inode :: "char list \<Rightarrow> fs_inode" where
  "decode_inode bs =
    \<lparr>i_uid = word_dec (take 2 bs), i_gid = word_dec (take 2 (drop 2 bs)),
     i_mode = word_dec (take 4 (drop 4 bs)), i_ctime = word_dec (take 4 (drop 8 bs)),
     i_mtime = word_dec (take 4 (drop 12 bs)), i_size = word_dec (take 4 (drop 16 bs)),
     i_ptrs = unpack 4 word_dec NUM_PTRS_INODE (drop 20 bs)\<rparr>"

definition encode_dirent :: "fs_dirent \<Rightarrow> char list" where
  "encode_dirent e = le_bytes 4 (of_bool (d_valid e) + 2 * unat (d_inode e)) @ d_name e"

definition decode_dirent :: "char list \<Rightarrow> fs_dirent" where
  "decode_dirent bs =
    \<lparr>d_valid = odd (le_nat (take 4 bs)), d_inode = of_nat (le_nat (take 4 bs) div 2),
     d_name = drop 4 bs\<rparr>"

definition encode_dirents :: "fs_dirent list \<Rightarrow> char list" where
  "encode_dirents = pack encode_dirent"

definition decode_dirents :: "char list \<Rightarrow> fs_dirent list" where
  "decode_dirents = unpack 32 decode_dirent NUM_DIRENT_BLOCK"

definition dirents_ok :: "fs_dirent list \<Rightarrow> bool" where
  "dirents_ok es \<longleftrightarrow> length es = NUM_DIRENT_BLOCK \<and> list_all dirent_ok es"

section \<open>File types\<close>

abbreviation S_IFMT :: "32 word" where "S_IFMT \<equiv> 0xF000"
abbreviation S_IFREG :: "32 word" where "S_IFREG \<equiv> 0x8000"
abbreviation S_IFDIR :: "32 word" where "S_IFDIR \<equiv> 0x4000"

definition S_ISDIR :: "32 word \<Rightarrow> bool" where
  "S_ISDIR m \<longleftrightarrow> m AND S_IFMT = S_IFDIR"

definition S_ISREG :: "32 word \<Rightarrow> bool" where
  "S_ISREG m \<longleftrightarrow> m AND S_IFMT = S_IFREG"

section \<open>Round trips\<close>

text \<open>Concatenating consecutive slices.\<close>

lemma slices_append_assoc: "take a bs @ take b (drop a bs) @ xs = take (a + b) bs @ xs"
  by (simp add: take_add)

interpretation super: codec encode_super decode_super 4096 super_ok
proof unfold_locales
  fix sb
  assume "super_ok sb"
  then show "length (encode_super sb) = 4096" "decode_super (encode_super sb) = sb"
    by (simp_all add: encode_super_def decode_super_def super_ok_def u32.dec_enc)
next
  fix bs :: "char list"
  assume len: "length bs = 4096"
  then show "super_ok (decode_super bs)"
    by (simp add: decode_super_def super_ok_def)
  have "encode_super (decode_super bs) = take 4 bs @ take 4 (drop 4 bs) @ drop 8 bs"
    using len by (simp add: encode_super_def decode_super_def u32.enc_dec)
  also have "\<dots> = bs"
    by (simp add: slices_append_assoc)
  finally show "encode_super (decode_super bs) = bs" .
qed

interpretation inode: codec encode_inode decode_inode 4096 inode_ok
proof unfold_locales
  fix i
  assume ok: "inode_ok i"
  have "length (pack (word_enc 4) (i_ptrs i)) = 4076"
    using ok u32s.enc_length [of "i_ptrs i"] by (simp add: inode_ok_def list_all_iff)
  then show "length (encode_inode i) = 4096"
    by (simp add: encode_inode_def)
  have "unpack 4 word_dec 1019 (pack (word_enc 4) (i_ptrs i)) = i_ptrs i"
    using ok u32s.dec_enc [of "i_ptrs i"] by (simp add: inode_ok_def list_all_iff)
  then show "decode_inode (encode_inode i) = i"
    by (simp add: encode_inode_def decode_inode_def u16.dec_enc u32.dec_enc)
next
  fix bs :: "char list"
  assume len: "length bs = 4096"
  then show "inode_ok (decode_inode bs)"
    by (simp add: decode_inode_def inode_ok_def)
  have "encode_inode (decode_inode bs) = take 2 bs @ take 2 (drop 2 bs) @ take 4 (drop 4 bs) @
      take 4 (drop 8 bs) @ take 4 (drop 12 bs) @ take 4 (drop 16 bs) @ drop 20 bs"
    using len u32s.enc_dec [of "drop 20 bs"]
    by (simp add: encode_inode_def decode_inode_def u16.enc_dec u32.enc_dec)
  also have "\<dots> = bs"
    by (simp add: slices_append_assoc)
  finally show "encode_inode (decode_inode bs) = bs" .
qed

interpretation dirent: codec encode_dirent decode_dirent 32 dirent_ok
proof unfold_locales
  fix e
  assume ok: "dirent_ok e"
  then show "length (encode_dirent e) = 32"
    by (simp add: encode_dirent_def dirent_ok_def)
  let ?n = "of_bool (d_valid e) + 2 * unat (d_inode e)"
  have "unat (d_inode e) < 2 ^ 31"
    using unsigned_less [of "d_inode e", where ?'a = nat] by simp
  then have "?n < 256 ^ 4"
    by (simp add: of_bool_def)
  then have "le_nat (le_bytes 4 ?n) = ?n"
    by (simp add: le_nat_le_bytes)
  then show "decode_dirent (encode_dirent e) = e"
    using ok by (simp add: encode_dirent_def decode_dirent_def)
next
  fix bs :: "char list"
  assume len: "length bs = 32"
  then show "dirent_ok (decode_dirent bs)"
    by (simp add: decode_dirent_def dirent_ok_def)
  let ?n = "le_nat (take 4 bs)"
  have "?n < 256 ^ 4"
    using le_nat_less [of "take 4 bs"] len by simp
  then have "unat (of_nat (?n div 2) :: 31 word) = ?n div 2"
    by (simp add: unat_of_nat)
  moreover have "of_bool (odd ?n) + 2 * (?n div 2) = ?n"
    by simp
  ultimately have "encode_dirent (decode_dirent bs) = le_bytes 4 ?n @ drop 4 bs"
    by (simp add: encode_dirent_def decode_dirent_def)
  then show "encode_dirent (decode_dirent bs) = bs"
    using le_bytes_le_nat [of "take 4 bs"] len by simp
qed

interpretation dirents: codec encode_dirents decode_dirents 4096 dirents_ok
  using dirent.array_codec [of 128]
  by (simp add: encode_dirents_def decode_dirents_def dirents_ok_def [abs_def])

lemmas [layout_simps, simp] =
  inode.enc_length inode.dec_enc inode.dec_ok inode.enc_dec
  dirents.enc_length dirents.dec_enc dirents.dec_ok dirents.enc_dec
  super.enc_length super.dec_enc super.dec_ok super.enc_dec

end
