(* ===== verification/Interfaces.thy ===== *)
theory Interfaces
  imports Main
begin

text \<open>
  The contracts that several components share, as locales.  \<open>store\<close>: an indexed store whose cells
  are updated one at a time (the disk image of Lab 5 by block number, its allocation bitmap by
  block number).  \<open>dictionary\<close>: a finite map with insertion and deletion (the key-value store of
  Lab 3).  \<open>fifo\<close>: a queue (the linked queues of Lab 1 and of Lab 3).  \<open>page_map\<close>: an
  address space whose pages are mapped one at a time (the page tables of Lab 4).  Each is interpreted on the model in the theory of the component that provides it.
\<close>

section \<open>Indexed stores\<close>

locale store =
  fixes get :: "'s \<Rightarrow> 'k \<Rightarrow> 'v"
    and put :: "'s \<Rightarrow> 'k \<Rightarrow> 'v \<Rightarrow> 's"
    and has :: "'s \<Rightarrow> 'k \<Rightarrow> bool"
  assumes get_put_same: "has s k \<Longrightarrow> get (put s k v) k = v"
    and get_put_other: "has s k \<Longrightarrow> has s j \<Longrightarrow> j \<noteq> k \<Longrightarrow> get (put s k v) j = get s j"
    and has_put: "has s k \<Longrightarrow> has (put s k v) j = has s j"
begin

lemma get_put: "has s k \<Longrightarrow> has s j \<Longrightarrow> get (put s k v) j = (if j = k then v else get s j)"
  by (simp add: get_put_same get_put_other)

lemma has_puts:
  "\<forall>k\<in>set ks. has s k \<Longrightarrow> has (foldl (\<lambda>s k. put s k v) s ks) j = has s j"
  by (induction ks arbitrary: s) (auto simp: has_put)

text \<open>A loop that stores the same value in a list of cells changes these cells and no other.\<close>

lemma get_puts:
  "\<forall>k\<in>set ks. has s k \<Longrightarrow> has s j \<Longrightarrow>
     get (foldl (\<lambda>s k. put s k v) s ks) j = (if j \<in> set ks then v else get s j)"
  by (induction ks arbitrary: s) (auto simp: has_put get_put)

text \<open>Two writes to different cells commute, as far as any read can tell.\<close>

lemma get_put_commute:
  "has s k \<Longrightarrow> has s l \<Longrightarrow> k \<noteq> l \<Longrightarrow> has s j \<Longrightarrow>
     get (put (put s k v) l u) j = get (put (put s l u) k v) j"
  by (simp add: get_put has_put)

end

section \<open>Dictionaries\<close>

datatype ('k, 'v) dict_op = Put 'k 'v | Del 'k

fun abs_op :: "('k \<rightharpoonup> 'v) \<Rightarrow> ('k, 'v) dict_op \<Rightarrow> ('k \<rightharpoonup> 'v)" where
  "abs_op m (Put k v) = m(k \<mapsto> v)"
| "abs_op m (Del k) = m(k := None)"

fun dict_step :: "('s \<Rightarrow> 'k \<Rightarrow> 'v \<Rightarrow> 's) \<Rightarrow> ('s \<Rightarrow> 'k \<Rightarrow> 's) \<Rightarrow> 's \<Rightarrow> ('k, 'v) dict_op \<Rightarrow> 's" where
  "dict_step ins del s (Put k v) = ins s k v"
| "dict_step ins del s (Del k) = del s k"

fun op_allowed :: "('k \<Rightarrow> bool) \<Rightarrow> ('s \<Rightarrow> 'k \<Rightarrow> bool) \<Rightarrow> 's \<Rightarrow> ('k, 'v) dict_op \<Rightarrow> bool" where
  "op_allowed key room s (Put k v) \<longleftrightarrow> key k \<and> room s k"
| "op_allowed key room s (Del k) \<longleftrightarrow> key k"

fun ops_allowed :: "('s \<Rightarrow> ('k, 'v) dict_op \<Rightarrow> 's) \<Rightarrow> ('s \<Rightarrow> ('k, 'v) dict_op \<Rightarrow> bool) \<Rightarrow> 's
    \<Rightarrow> ('k, 'v) dict_op list \<Rightarrow> bool" where
  "ops_allowed step allowed s [] \<longleftrightarrow> True"
| "ops_allowed step allowed s (x # xs) \<longleftrightarrow> allowed s x \<and> ops_allowed step allowed (step s x) xs"

locale dictionary =
  fixes look :: "'s \<Rightarrow> 'k \<Rightarrow> 'v option"
    and ins :: "'s \<Rightarrow> 'k \<Rightarrow> 'v \<Rightarrow> 's"
    and del :: "'s \<Rightarrow> 'k \<Rightarrow> 's"
    and ok :: "'s \<Rightarrow> bool"
    and key :: "'k \<Rightarrow> bool"
    and room :: "'s \<Rightarrow> 'k \<Rightarrow> bool"
  assumes ins_ok: "ok s \<Longrightarrow> key k \<Longrightarrow> room s k \<Longrightarrow> ok (ins s k v)"
    and del_ok: "ok s \<Longrightarrow> key k \<Longrightarrow> ok (del s k)"
    and look_ins: "ok s \<Longrightarrow> key k \<Longrightarrow> room s k \<Longrightarrow> key j \<Longrightarrow>
      look (ins s k v) j = (if j = k then Some v else look s j)"
    and look_del: "ok s \<Longrightarrow> key k \<Longrightarrow> key j \<Longrightarrow> look (del s k) j = (if j = k then None else look s j)"
begin

lemma step_ok: "ok s \<Longrightarrow> op_allowed key room s x \<Longrightarrow> ok (dict_step ins del s x)"
  by (cases x) (auto intro: ins_ok del_ok)

lemma step_look:
  "ok s \<Longrightarrow> op_allowed key room s x \<Longrightarrow> key j \<Longrightarrow>
     look (dict_step ins del s x) j = abs_op (look s) x j"
  by (cases x) (auto simp: look_ins look_del)

lemma abs_ops_cong:
  "m j = m' j \<Longrightarrow> foldl abs_op m xs j = foldl abs_op m' xs j"
proof (induction xs arbitrary: m m')
  case (Cons x xs)
  have "abs_op m x j = abs_op m' x j"
    using Cons.prems by (cases x) auto
  then show ?case
    using Cons.IH [of "abs_op m x" "abs_op m' x"] by simp
qed simp

text \<open>A sequence of operations refines the same sequence on maps.\<close>

lemma run_ok:
  "ok s \<Longrightarrow> ops_allowed (dict_step ins del) (op_allowed key room) s xs \<Longrightarrow>
     ok (foldl (dict_step ins del) s xs)"
  by (induction xs arbitrary: s) (auto intro: step_ok)

lemma run_look:
  "ok s \<Longrightarrow> ops_allowed (dict_step ins del) (op_allowed key room) s xs \<Longrightarrow> key j \<Longrightarrow>
     look (foldl (dict_step ins del) s xs) j = foldl abs_op (look s) xs j"
proof (induction xs arbitrary: s)
  case (Cons x xs)
  then have "look (foldl (dict_step ins del) s (x # xs)) j = foldl abs_op (look (dict_step ins del s x)) xs j"
    using Cons.IH [of "dict_step ins del s x"] step_ok by simp
  also have "\<dots> = foldl abs_op (abs_op (look s) x) xs j"
    using Cons.prems step_look by (intro abs_ops_cong) simp
  finally show ?case by simp
qed simp

end

section \<open>Queues\<close>

datatype 'a queue_op = Push 'a | Pop

text \<open>A run of queue operations: the final state and what the \<open>Pop\<close>s of non-empty queues returned.\<close>

fun queue_run :: "('s \<Rightarrow> 'a \<Rightarrow> 's) \<Rightarrow> ('s \<Rightarrow> ('a \<times> 's) option) \<Rightarrow> 's \<Rightarrow> 'a queue_op list \<Rightarrow> 'a list \<times> 's" where
  "queue_run push pop s [] = ([], s)"
| "queue_run push pop s (Push x # xs) = queue_run push pop (push s x) xs"
| "queue_run push pop s (Pop # xs) =
     (case pop s of None \<Rightarrow> queue_run push pop s xs
      | Some (y, s') \<Rightarrow> let (ys, t) = queue_run push pop s' xs in (y # ys, t))"

definition pushed :: "'a queue_op list \<Rightarrow> 'a list" where
  "pushed xs = concat (map (\<lambda>x. case x of Push y \<Rightarrow> [y] | Pop \<Rightarrow> []) xs)"

lemma pushed_simps [simp]:
  "pushed [] = []" "pushed (Push y # xs) = y # pushed xs" "pushed (Pop # xs) = pushed xs"
  by (simp_all add: pushed_def)

locale fifo =
  fixes items :: "'s \<Rightarrow> 'a list"
    and push :: "'s \<Rightarrow> 'a \<Rightarrow> 's"
    and pop :: "'s \<Rightarrow> ('a \<times> 's) option"
    and ok :: "'s \<Rightarrow> bool"
  assumes push_ok: "ok s \<Longrightarrow> ok (push s x)"
    and push_items: "ok s \<Longrightarrow> items (push s x) = items s @ [x]"
    and pop_None: "ok s \<Longrightarrow> pop s = None \<longleftrightarrow> items s = []"
    and pop_Some: "ok s \<Longrightarrow> pop s = Some (y, s') \<Longrightarrow> ok s' \<and> items s = y # items s'"
begin

text \<open>What was popped, followed by what is left, is what was there followed by what was pushed.\<close>

lemma run_order:
  assumes "ok s" "queue_run push pop s xs = (ys, t)"
  shows "ok t \<and> ys @ items t = items s @ pushed xs"
  using assms
proof (induction xs arbitrary: s ys t)
  case (Cons x xs)
  show ?case
  proof (cases x)
    case (Push y)
    then show ?thesis
      using Cons.IH [of "push s y" ys t] Cons.prems push_ok push_items by simp
  next
    case Pop
    show ?thesis
    proof (cases "pop s")
      case None
      then show ?thesis
        using Cons.IH [of s ys t] Cons.prems Pop by simp
    next
      case (Some p)
      obtain y s' where p: "p = (y, s')" by (cases p)
      obtain zs u where r: "queue_run push pop s' xs = (zs, u)"
        by (cases "queue_run push pop s' xs")
      have s': "ok s'" "items s = y # items s'"
        using pop_Some [OF Cons.prems(1)] Some p by blast+
      then show ?thesis
        using Cons.IH [OF s'(1) r] Cons.prems(2) Some p Pop r by auto
    qed
  qed
qed simp

end

section \<open>Address spaces\<close>

text \<open>A loop that maps a range of pages: the pages left, the number of the page.\<close>

fun put_range :: "('s \<Rightarrow> nat \<Rightarrow> 'e \<Rightarrow> 's option) \<Rightarrow> (nat \<Rightarrow> 'e) \<Rightarrow> nat \<Rightarrow> nat \<Rightarrow> 's \<Rightarrow> 's option" where
  "put_range put f 0 a s = Some s"
| "put_range put f (Suc n) a s = (case put s a (f a) of None \<Rightarrow> None | Some s' \<Rightarrow> put_range put f n (Suc a) s')"

locale page_map =
  fixes ok :: "'s \<Rightarrow> bool"
    and page :: "nat \<Rightarrow> bool"
    and look :: "'s \<Rightarrow> nat \<Rightarrow> 'v"
    and legal :: "'e \<Rightarrow> bool"
    and entry :: "'e \<Rightarrow> 'v"
    and put :: "'s \<Rightarrow> nat \<Rightarrow> 'e \<Rightarrow> 's option"
  assumes put_look: "ok s \<Longrightarrow> page n \<Longrightarrow> legal e \<Longrightarrow>
    \<exists>s'. put s n e = Some s' \<and> ok s' \<and> (\<forall>m. page m \<longrightarrow> look s' m = (if m = n then entry e else look s m))"
begin

lemma put_range_look:
  assumes "ok s" "\<forall>m. a \<le> m \<and> m < a + n \<longrightarrow> page m \<and> legal (f m)"
  shows "\<exists>s'. put_range put f n a s = Some s' \<and> ok s' \<and>
    (\<forall>m. page m \<longrightarrow> look s' m = (if a \<le> m \<and> m < a + n then entry (f m) else look s m))"
  using assms
proof (induction n arbitrary: a s)
  case (Suc n)
  then obtain s1 where s1: "put s a (f a) = Some s1" "ok s1"
    "\<forall>m. page m \<longrightarrow> look s1 m = (if m = a then entry (f a) else look s m)"
    using put_look [of s a "f a"] by auto
  obtain s' where "put_range put f n (Suc a) s1 = Some s'" "ok s'"
    "\<forall>m. page m \<longrightarrow> look s' m = (if Suc a \<le> m \<and> m < Suc a + n then entry (f m) else look s1 m)"
    using Suc.IH [OF s1(2), of "Suc a"] Suc.prems(2) by auto
  then show ?case
    using s1(1,3) by auto
qed auto

end

end
