(* ===== verification/Fs_Block.thy ===== *)
theory Fs_Block
  imports Fs_Layout Interfaces
begin

text \<open>
  Block access and block allocation of Lab 5.  \<^verbatim>\<open>block_read\<close> and \<^verbatim>\<open>block_write\<close>
  (\<^verbatim>\<open>lab5-TheCarton-main/misc.c\<close>) on an image file that is a list of 4096-byte blocks; the bitmap
  functions, \<^verbatim>\<open>alloc_blk\<close> and \<^verbatim>\<open>free_blk\<close> of \<^verbatim>\<open>fs5600.c\<close> on the cached bitmap.  Every call in
  \<^verbatim>\<open>fs5600.c\<close> passes \<^verbatim>\<open>nblks = 1\<close>, which is the case modelled.
\<close>

section \<open>State\<close>

type_synonym block = "char list"
type_synonym disk = "block list"

text \<open>The image behind \<^verbatim>\<open>disk_fd\<close> and the two globals of \<^verbatim>\<open>fs5600.c\<close>.\<close>

record fs_state =
  disk :: disk
  num_blocks :: "32 word"
  block_bitmap :: "8 word list"

section \<open>misc.c: reading and writing a block\<close>

text \<open>
  \<^verbatim>\<open>start = lba * FS_BLOCK_SIZE\<close> is an \<^verbatim>\<open>int\<close> product, which wraps.  A negative offset makes
  \<^verbatim>\<open>lseek\<close> fail; a read past the end of the image is short and leaves the buffer as it was.
\<close>

definition block_read :: "disk \<Rightarrow> block \<Rightarrow> int \<Rightarrow> int \<times> block" where
  "block_read d buf lba =
     (let start = int32 (lba * 4096)
      in if start < 0 then (- EIO, buf)
         else if nat (start div 4096) < length d then (0, d ! nat (start div 4096))
         else (- EIO, buf))"

text \<open>
  \<^verbatim>\<open>lseek\<close> past the end of a file succeeds and \<^verbatim>\<open>write\<close> then extends the file, the gap reading as
  zeros: writing a block past the image makes the image longer.
\<close>

definition put_block :: "disk \<Rightarrow> nat \<Rightarrow> block \<Rightarrow> disk" where
  "put_block d k buf =
     (if k < length d then d[k := buf]
      else d @ replicate (k - length d) (replicate 4096 NUL) @ [buf])"

definition block_write :: "disk \<Rightarrow> block \<Rightarrow> int \<Rightarrow> (int \<times> disk) outcome" where
  "block_write d buf lba =
     (if \<not> 0 < lba then Abort
      else let start = int32 (lba * 4096)
           in if int32 (start + 4096) < 0 then Done (- EIO, d)
              else if start < 0 then Done (- EIO, d)
              else Done (0, put_block d (nat (start div 4096)) buf))"

text \<open>
  \<^verbatim>\<open>block_init\<close> with the image files of the host given by \<open>open_rdwr\<close>, which has \<open>None\<close> where \<^verbatim>\<open>open\<close> fails;
  \<open>None\<close> is \<^verbatim>\<open>exit(1)\<close>.
\<close>

definition block_init :: "(string \<Rightarrow> disk option) \<Rightarrow> string \<Rightarrow> disk option" where
  "block_init open_rdwr file =
     (if length file < 4 \<or> drop (length file - 4) file \<noteq> ''.img'' then None
      else case open_rdwr file of None \<Rightarrow> None | Some d \<Rightarrow> Some d)"

section \<open>fs5600.c: the block bitmap\<close>

definition bit_set :: "8 word list \<Rightarrow> int \<Rightarrow> 8 word list outcome" where
  "bit_set bmp i =
     (if 0 \<le> i \<and> nat (i div 8) < length bmp
      then Done (bmp[nat (i div 8) := (bmp ! nat (i div 8)) OR push_bit (nat (i mod 8)) 1])
      else Undef)"

definition bit_clear :: "8 word list \<Rightarrow> int \<Rightarrow> 8 word list outcome" where
  "bit_clear bmp i =
     (if 0 \<le> i \<and> nat (i div 8) < length bmp
      then Done (bmp[nat (i div 8) := (bmp ! nat (i div 8)) AND NOT (push_bit (nat (i mod 8)) 1)])
      else Undef)"

definition bit_test :: "8 word list \<Rightarrow> int \<Rightarrow> int outcome" where
  "bit_test bmp i =
     (if 0 \<le> i \<and> nat (i div 8) < length bmp
      then Done (uint ((bmp ! nat (i div 8)) AND push_bit (nat (i mod 8)) 1))
      else Undef)"

text \<open>The loop of \<^verbatim>\<open>alloc_blk\<close> from \<open>i\<close>, with \<open>n\<close> iterations left.\<close>

fun alloc_from :: "nat \<Rightarrow> nat \<Rightarrow> 8 word list \<Rightarrow> (int \<times> 8 word list) outcome" where
  "alloc_from 0 i bmp = Done (- ENOSPC, bmp)"
| "alloc_from (Suc n) i bmp =
     obind (bit_test bmp (int i)) (\<lambda>t.
       if t = 0 then obind (bit_set bmp (int i)) (\<lambda>bmp'. Done (int i, bmp'))
       else alloc_from n (Suc i) bmp)"

definition alloc_blk :: "fs_state \<Rightarrow> (int \<times> fs_state) outcome" where
  "alloc_blk s =
     obind (alloc_from (FS_BLOCK_SIZE * 8) 0 (block_bitmap s))
       (\<lambda>(i, bmp). Done (i, s\<lparr>block_bitmap := bmp\<rparr>))"

definition free_blk :: "fs_state \<Rightarrow> int \<Rightarrow> fs_state outcome" where
  "free_blk s i = obind (bit_clear (block_bitmap s) i) (\<lambda>bmp. Done (s\<lparr>block_bitmap := bmp\<rparr>))"

section \<open>The image as a store of blocks\<close>

text \<open>Block numbers whose byte offset is an \<^verbatim>\<open>int\<close> and that lie on the image.\<close>

definition on_disk :: "disk \<Rightarrow> nat \<Rightarrow> bool" where
  "on_disk d k \<longleftrightarrow> 0 < k \<and> k < length d \<and> k < 2 ^ 19 - 1"

definition wf_disk :: "disk \<Rightarrow> bool" where
  "wf_disk d \<longleftrightarrow> (\<forall>b\<in>set d. length b = 4096)"

lemma block_init_Some: "block_init open_rdwr file = Some d \<longleftrightarrow> (\<exists>base. file = base @ ''.img'') \<and> open_rdwr file = Some d"
proof -
  have "(\<not> length file < 4 \<and> drop (length file - 4) file = ''.img'') \<longleftrightarrow> (\<exists>base. file = base @ ''.img'')"
    by (auto intro!: exI [of _ "take (length file - 4) file"]) (metis append_take_drop_id)
  then show ?thesis
    unfolding block_init_def by (auto split: option.split)
qed

lemma int32_offset: "k < 2 ^ 19 \<Longrightarrow> int32 (int k * 4096) = int k * 4096"
  by simp

lemma block_read_on_disk:
  "k < length d \<Longrightarrow> k < 2 ^ 19 \<Longrightarrow> block_read d buf (int k) = (0, d ! k)"
  by (simp add: block_read_def int32_offset)

lemma block_read_fails:
  "length d \<le> k \<Longrightarrow> k < 2 ^ 19 \<Longrightarrow> block_read d buf (int k) = (- EIO, buf)"
  by (simp add: block_read_def int32_offset)

lemma block_read_negative:
  "- (2 ^ 19) \<le> lba \<Longrightarrow> lba < 0 \<Longrightarrow> block_read d buf lba = (- EIO, buf)"
  by (simp add: block_read_def)

lemma block_write_put:
  "0 < k \<Longrightarrow> k < 2 ^ 19 - 1 \<Longrightarrow> block_write d buf (int k) = Done (0, put_block d k buf)"
  by (simp add: block_write_def int32_offset)

lemma block_write_on_disk:
  "on_disk d k \<Longrightarrow> block_write d buf (int k) = Done (0, d[k := buf])"
  by (simp add: on_disk_def block_write_put put_block_def)

lemma block_write_nonpos: "lba \<le> 0 \<Longrightarrow> block_write d buf lba = Abort"
  by (simp add: block_write_def)

lemma length_put_block: "length (put_block d k buf) = max (length d) (Suc k)"
  by (simp add: put_block_def)

lemma nth_put_block:
  "j < length d \<or> j = k \<Longrightarrow> put_block d k buf ! j = (if j = k then buf else d ! j)"
  by (auto simp: put_block_def nth_append nth_list_update)

lemma wf_put_block: "wf_disk d \<Longrightarrow> length buf = 4096 \<Longrightarrow> wf_disk (put_block d k buf)"
  by (auto simp: wf_disk_def put_block_def dest!: set_update_subset_insert [THEN subsetD])

lemma wf_disk_nth [simp]: "wf_disk d \<Longrightarrow> k < length d \<Longrightarrow> length (d ! k) = 4096"
  by (simp add: wf_disk_def)

text \<open>\<^verbatim>\<open>block_read\<close> and \<^verbatim>\<open>block_write\<close> as the two operations of a store.\<close>

definition read_blk :: "disk \<Rightarrow> nat \<Rightarrow> block" where
  "read_blk d k = snd (block_read d [] (int k))"

definition write_blk :: "disk \<Rightarrow> nat \<Rightarrow> block \<Rightarrow> disk" where
  "write_blk d k buf = (case block_write d buf (int k) of Done (_, d') \<Rightarrow> d' | _ \<Rightarrow> d)"

interpretation dsk: store read_blk write_blk on_disk
  by unfold_locales
    (auto simp: read_blk_def write_blk_def block_write_on_disk,
     auto simp: on_disk_def block_read_on_disk)

section \<open>The bitmap as a store of bits\<close>

text \<open>Bit \<open>n\<close> of the bitmap: block \<open>n\<close> is in use.\<close>

definition used :: "8 word list \<Rightarrow> nat \<Rightarrow> bool" where
  "used bmp n = bit (bmp ! (n div 8)) (n mod 8)"

definition in_map :: "8 word list \<Rightarrow> nat \<Rightarrow> bool" where
  "in_map bmp n \<longleftrightarrow> n div 8 < length bmp"

definition mark :: "8 word list \<Rightarrow> nat \<Rightarrow> bool \<Rightarrow> 8 word list" where
  "mark bmp n v =
     (case (if v then bit_set bmp (int n) else bit_clear bmp (int n)) of
        Done bmp' \<Rightarrow> bmp' | _ \<Rightarrow> bmp)"

lemma nat_div_mod8 [simp]: "nat (int n div 8) = n div 8" "nat (int n mod 8) = n mod 8"
  by (simp_all add: nat_div_distrib nat_mod_distrib)

lemma bit_set_Done: "in_map bmp n \<Longrightarrow> bit_set bmp (int n) = Done (mark bmp n True)"
  by (simp add: bit_set_def mark_def in_map_def)

lemma bit_clear_Done: "in_map bmp n \<Longrightarrow> bit_clear bmp (int n) = Done (mark bmp n False)"
  by (simp add: bit_clear_def mark_def in_map_def)

lemma bit_test_Done:
  assumes "in_map bmp n"
  obtains t where "bit_test bmp (int n) = Done t" "t \<noteq> 0 \<longleftrightarrow> used bmp n"
proof -
  let ?b = "(bmp ! (n div 8)) AND push_bit (n mod 8) 1"
  have "?b = 0 \<longleftrightarrow> \<not> bit (bmp ! (n div 8)) (n mod 8)"
    by (subst bit_eq_iff) (auto simp: bit_simps dest: spec [of _ "n mod 8"])
  then have "uint ?b \<noteq> 0 \<longleftrightarrow> used bmp n"
    by (simp add: used_def uint_0_iff)
  then show ?thesis
    using that [of "uint ?b"] assms by (simp add: bit_test_def in_map_def)
qed

lemma div_mod8_eq: "m div 8 = n div 8 \<Longrightarrow> m mod 8 = n mod 8 \<Longrightarrow> m = (n::nat)"
  by (metis div_mult_mod_eq)

lemma used_mark:
  assumes "in_map bmp n"
  shows "used (mark bmp n v) m = (if m = n then v else used bmp m)"
proof (cases "m div 8 = n div 8")
  case True
  have "bit (mark bmp n v ! (n div 8)) (m mod 8) =
      (if m mod 8 = n mod 8 then v else bit (bmp ! (n div 8)) (m mod 8))"
    using assms
    by (auto simp: mark_def bit_set_def bit_clear_def in_map_def bit_simps)
  then show ?thesis
    using True div_mod8_eq [of m n] by (auto simp: used_def)
next
  case False
  then show ?thesis
    using assms by (auto simp: used_def mark_def bit_set_def bit_clear_def in_map_def)
qed

lemma length_mark [simp]: "length (mark bmp n v) = length bmp"
  by (simp add: mark_def bit_set_def bit_clear_def)

lemma in_map_mark [simp]: "in_map (mark bmp n v) m = in_map bmp m"
  by (simp add: in_map_def)

interpretation bm: store used mark in_map
  by unfold_locales (simp_all add: used_mark)

section \<open>Allocation\<close>

text \<open>The loop finds the first free block at or after \<open>i\<close>.\<close>

lemma alloc_from_finds:
  assumes "i \<le> k" "k < i + n" "\<forall>m. i \<le> m \<and> m \<le> k \<longrightarrow> in_map bmp m"
    "\<not> used bmp k" "\<forall>m. i \<le> m \<and> m < k \<longrightarrow> used bmp m"
  shows "alloc_from n i bmp = Done (int k, mark bmp k True)"
  using assms
proof (induction n arbitrary: i)
  case (Suc n)
  from Suc.prems have "in_map bmp i"
    by simp
  then obtain t where t: "bit_test bmp (int i) = Done t" "t \<noteq> 0 \<longleftrightarrow> used bmp i"
    by (rule bit_test_Done)
  show ?case
  proof (cases "i = k")
    case True
    then show ?thesis
      using t Suc.prems \<open>in_map bmp i\<close> by (simp add: bit_set_Done)
  next
    case False
    then have "used bmp i" "Suc i \<le> k"
      using Suc.prems by auto
    then show ?thesis
      using t Suc.IH [of "Suc i"] Suc.prems by simp
  qed
qed simp

lemma alloc_from_full:
  assumes "\<forall>m. i \<le> m \<and> m < i + n \<longrightarrow> in_map bmp m \<and> used bmp m"
  shows "alloc_from n i bmp = Done (- ENOSPC, bmp)"
  using assms
proof (induction n arbitrary: i)
  case (Suc n)
  from Suc.prems have "in_map bmp i" "used bmp i"
    by simp_all
  from this(1) obtain t where "bit_test bmp (int i) = Done t" "t \<noteq> 0 \<longleftrightarrow> used bmp i"
    by (rule bit_test_Done)
  then show ?case
    using \<open>used bmp i\<close> Suc.IH [of "Suc i"] Suc.prems by simp
qed simp

definition bitmap_ok :: "fs_state \<Rightarrow> bool" where
  "bitmap_ok s \<longleftrightarrow> length (block_bitmap s) = FS_BLOCK_SIZE"

lemma in_map_bitmap_ok: "bitmap_ok s \<Longrightarrow> in_map (block_bitmap s) n \<longleftrightarrow> n < 32768"
  by (auto simp: bitmap_ok_def in_map_def less_mult_imp_div_less)

lemma alloc_blk_finds:
  assumes "bitmap_ok s" "k < 32768" "\<not> used (block_bitmap s) k"
    "\<forall>m<k. used (block_bitmap s) m"
  shows "alloc_blk s = Done (int k, s\<lparr>block_bitmap := mark (block_bitmap s) k True\<rparr>)"
  using alloc_from_finds [of 0 k "32768" "block_bitmap s"] assms
  by (simp add: alloc_blk_def in_map_bitmap_ok)

lemma alloc_blk_full:
  assumes "bitmap_ok s" "\<forall>m<32768. used (block_bitmap s) m"
  shows "alloc_blk s = Done (- ENOSPC, s)"
  using alloc_from_full [of 0 "32768" "block_bitmap s"] assms
  by (simp add: alloc_blk_def in_map_bitmap_ok)

lemma alloc_blk_cases:
  assumes "bitmap_ok s"
  obtains (free) k where "k < 32768" "\<not> used (block_bitmap s) k" "\<forall>m<k. used (block_bitmap s) m"
      "alloc_blk s = Done (int k, s\<lparr>block_bitmap := mark (block_bitmap s) k True\<rparr>)"
  | (full) "\<forall>m<32768. used (block_bitmap s) m" "alloc_blk s = Done (- ENOSPC, s)"
proof (cases "\<forall>m<32768. used (block_bitmap s) m")
  case True
  then show ?thesis
    using full alloc_blk_full [OF assms] by blast
next
  case False
  then obtain m where m: "m < 32768" "\<not> used (block_bitmap s) m"
    by blast
  define k where "k = (LEAST m. \<not> used (block_bitmap s) m)"
  from m(2) have k: "\<not> used (block_bitmap s) k" "k \<le> m" "\<forall>m<k. used (block_bitmap s) m"
    unfolding k_def
    by (rule LeastI [where P = "\<lambda>m. \<not> used (block_bitmap s) m"], rule Least_le)
      (auto dest: not_less_Least)
  then show ?thesis
    using free [of k] alloc_blk_finds [OF assms, of k] m by auto
qed

lemma free_blk_Done:
  "bitmap_ok s \<Longrightarrow> k < 32768 \<Longrightarrow>
     free_blk s (int k) = Done (s\<lparr>block_bitmap := mark (block_bitmap s) k False\<rparr>)"
  by (simp add: free_blk_def bit_clear_Done in_map_bitmap_ok)

lemma bitmap_ok_mark [simp]:
  "bitmap_ok (s\<lparr>block_bitmap := mark bmp n v\<rparr>) \<longleftrightarrow> length bmp = FS_BLOCK_SIZE"
  by (simp add: bitmap_ok_def)

end
