(* ===== verification/Fs_Path.thy ===== *)
theory Fs_Path
  imports Fs_Block
begin

text \<open>
  Path translation of Lab 5 (\<^verbatim>\<open>lab5-TheCarton-main/fs5600.c\<close>): \<^verbatim>\<open>path_to_inum\<close>,
  \<^verbatim>\<open>get_dirent_index\<close>, \<^verbatim>\<open>get_last_filename\<close>, \<^verbatim>\<open>get_parent_path\<close>, on the bytes of the image and of
  the local arrays.  A local array that is not initialised holds bytes that the environment
  chooses.  The abstract specification is \<open>resolve\<close>, a walk over directories seen as maps from
  names to inode numbers; \<open>path_to_inum_resolve\<close> is the refinement.
\<close>

section \<open>The environment of a call\<close>

text \<open>
  What a handler takes from outside: \<^verbatim>\<open>time(NULL)\<close>, the \<^verbatim>\<open>uid\<close>/\<^verbatim>\<open>gid\<close> of \<^verbatim>\<open>fuse_get_context()\<close>, and the
  bytes a local variable holds before anything is stored in it.
\<close>

record fs_env =
  env_time :: int
  env_uid :: int
  env_gid :: int
  env_stack :: "string \<Rightarrow> nat \<Rightarrow> char"

definition uninit :: "fs_env \<Rightarrow> string \<Rightarrow> nat \<Rightarrow> char list" where
  "uninit env v n = map (env_stack env v) [0..<n]"

lemma length_uninit [simp]: "length (uninit env v n) = n"
  by (simp add: uninit_def)

definition uninit_inode :: "fs_env \<Rightarrow> string \<Rightarrow> fs_inode" where
  "uninit_inode env v = decode_inode (uninit env v 4096)"

definition uninit_dirents :: "fs_env \<Rightarrow> string \<Rightarrow> fs_dirent list" where
  "uninit_dirents env v = decode_dirents (uninit env v 4096)"

text \<open>\<^verbatim>\<open>block_read(&inode, lba, 1)\<close> and \<^verbatim>\<open>block_read(entries, lba, 1)\<close>: the struct after the call, with
  the return code ignored as the callers ignore it.\<close>

definition read_inode :: "disk \<Rightarrow> fs_inode \<Rightarrow> int \<Rightarrow> fs_inode" where
  "read_inode d old lba = decode_inode (snd (block_read d (encode_inode old) lba))"

definition read_dirents :: "disk \<Rightarrow> fs_dirent list \<Rightarrow> int \<Rightarrow> fs_dirent list" where
  "read_dirents d old lba = decode_dirents (snd (block_read d (encode_dirents old) lba))"

section \<open>get\_dirent\_index\<close>

fun dirent_index_from :: "nat \<Rightarrow> fs_dirent list \<Rightarrow> char list \<Rightarrow> int outcome" where
  "dirent_index_from i [] filename = Done (- ENOENT)"
| "dirent_index_from i (e # es) filename =
     (if d_valid e
      then obind (strcmp_eq (d_name e) filename)
             (\<lambda>eq. if eq then Done (int i) else dirent_index_from (Suc i) es filename)
      else dirent_index_from (Suc i) es filename)"

definition get_dirent_index :: "fs_dirent list \<Rightarrow> char list \<Rightarrow> int outcome" where
  "get_dirent_index entries filename = dirent_index_from 0 entries filename"

section \<open>path\_to\_inum\<close>

text \<open>
  The token loop: \<open>k\<close> iterations left, \<open>i\<close> the next row of \<^verbatim>\<open>char filenames[10][27]\<close>.  The rows are
  consecutive in memory, so \<^verbatim>\<open>strcpy(filenames[i], token)\<close> of a long token runs into the next row;
  past the last row it leaves the array.
\<close>

fun copy_tokens :: "nat \<Rightarrow> nat \<Rightarrow> (string \<times> string) option \<Rightarrow> char list
    \<Rightarrow> (nat \<times> char list) outcome" where
  "copy_tokens 0 i tok filenames = Done (i, filenames)"
| "copy_tokens (Suc k) i None filenames = Done (i, filenames)"
| "copy_tokens (Suc k) i (Some (token, rest)) filenames =
     obind (mem_write (27 * i) (token @ [NUL]) filenames)
       (copy_tokens k (Suc i) (strtok ''/'' rest))"

text \<open>The walk: \<open>n\<close> components left, \<open>i\<close> the row of the next one.\<close>

fun walk_path :: "disk \<Rightarrow> char list \<Rightarrow> nat \<Rightarrow> nat \<Rightarrow> fs_inode \<Rightarrow> 32 word \<Rightarrow> fs_dirent list
    \<Rightarrow> int outcome" where
  "walk_path d filenames 0 i inode block_inum dir_entries = Done (sint block_inum)"
| "walk_path d filenames (Suc n) i inode block_inum dir_entries =
     (if \<not> S_ISDIR (i_mode inode) then Done (- ENOTDIR)
      else let dir_entries = read_dirents d dir_entries (sint (i_ptrs inode ! 0))
           in obind (get_dirent_index dir_entries (drop (27 * i) filenames)) (\<lambda>dirent_index.
                if dirent_index < 0 then Done dirent_index
                else let block_inum = ucast (d_inode (dir_entries ! nat dirent_index))
                     in walk_path d filenames n (Suc i) (read_inode d inode (sint block_inum))
                          block_inum dir_entries))"

definition path_to_inum :: "fs_env \<Rightarrow> fs_state \<Rightarrow> string \<Rightarrow> int outcome" where
  "path_to_inum env s path =
     (if path = ''/'' then Done 2
      else obind (copy_tokens 10 0 (strtok ''/'' path) (uninit env ''filenames'' 270))
        (\<lambda>(pathc, filenames).
          let root = read_inode (disk s) (uninit_inode env ''root'') 2
          in if \<not> S_ISDIR (i_mode root) then Abort
             else walk_path (disk s) filenames pathc 0 root (i_ptrs root ! 0)
                    (uninit_dirents env ''dir_entries'')))"

section \<open>get\_last\_filename and get\_parent\_path\<close>

fun copy_tokens_chk :: "nat \<Rightarrow> nat \<Rightarrow> (string \<times> string) option \<Rightarrow> char list
    \<Rightarrow> (int + nat \<times> char list) outcome" where
  "copy_tokens_chk 0 i tok filenames = Done (Inr (i, filenames))"
| "copy_tokens_chk (Suc k) i None filenames = Done (Inr (i, filenames))"
| "copy_tokens_chk (Suc k) i (Some (token, rest)) filenames =
     (if 27 < length token then Done (Inl (- EINVAL))
      else obind (mem_write (27 * i) (token @ [NUL]) filenames)
             (copy_tokens_chk k (Suc i) (strtok ''/'' rest)))"

definition get_last_filename :: "fs_env \<Rightarrow> string \<Rightarrow> char list \<Rightarrow> (int \<times> char list) outcome" where
  "get_last_filename env path buf =
     obind (copy_tokens_chk 10 0 (strtok ''/'' path) (uninit env ''filenames'' 270)) (\<lambda>r.
       case r of
         Inl err \<Rightarrow> Done (err, buf)
       | Inr (pathc, filenames) \<Rightarrow>
           if pathc = 0 then Undef
           else obind (strcpy (uninit env ''last_filename'' 28) (drop (27 * (pathc - 1)) filenames))
             (\<lambda>last_filename.
               obind (mem_write 0 (take 27 (last_filename[27 := NUL])) buf) (\<lambda>buf. Done (0, buf))))"

text \<open>The loop of \<^verbatim>\<open>get_parent_path\<close>, downwards from the terminating NUL.\<close>

fun strip_last :: "nat \<Rightarrow> char list \<Rightarrow> char list" where
  "strip_last 0 p = p"
| "strip_last (Suc i) p =
     (if p ! Suc i = CHR ''/'' then p[Suc i := NUL] else strip_last i (p[Suc i := NUL]))"

definition get_parent_path :: "string \<Rightarrow> char list \<Rightarrow> char list outcome" where
  "get_parent_path path buf =
     obind (c_str (strip_last (length path) (path @ [NUL]))) (\<lambda>p. mem_write 0 (p @ [NUL]) buf)"

section \<open>The abstract walk\<close>

definition inode_at :: "disk \<Rightarrow> nat \<Rightarrow> fs_inode" where
  "inode_at d k = decode_inode (d ! k)"

definition is_dir :: "disk \<Rightarrow> nat \<Rightarrow> bool" where
  "is_dir d k \<longleftrightarrow> S_ISDIR (i_mode (inode_at d k))"

text \<open>The block that holds the entries of directory \<open>k\<close>, and these entries.\<close>

definition dir_blk :: "disk \<Rightarrow> nat \<Rightarrow> nat" where
  "dir_blk d k = unat (i_ptrs (inode_at d k) ! 0)"

definition dir_at :: "disk \<Rightarrow> nat \<Rightarrow> fs_dirent list" where
  "dir_at d k = decode_dirents (d ! dir_blk d k)"

definition entry_named :: "string \<Rightarrow> fs_dirent \<Rightarrow> bool" where
  "entry_named name e \<longleftrightarrow> d_valid e \<and> c_str (d_name e) = Done name"

definition lookup_dirent :: "fs_dirent list \<Rightarrow> string \<Rightarrow> nat option" where
  "lookup_dirent es name = map_option (\<lambda>e. unat (d_inode e)) (find (entry_named name) es)"

fun resolve :: "disk \<Rightarrow> nat \<Rightarrow> string list \<Rightarrow> int" where
  "resolve d k [] = int k"
| "resolve d k (c # cs) =
     (if \<not> is_dir d k then - ENOTDIR
      else case lookup_dirent (dir_at d k) c of None \<Rightarrow> - ENOENT | Some j \<Rightarrow> resolve d j cs)"

text \<open>The text of a path, and the paths whose components fit the rows of \<^verbatim>\<open>filenames\<close>.\<close>

definition join_path :: "string list \<Rightarrow> string" where
  "join_path cs = concat (map (Cons CHR ''/'') cs)"

definition path_of :: "string list \<Rightarrow> string" where
  "path_of cs = (if cs = [] then ''/'' else join_path cs)"

definition comp_ok :: "string \<Rightarrow> bool" where
  "comp_ok c \<longleftrightarrow> c \<noteq> [] \<and> CHR ''/'' \<notin> set c \<and> NUL \<notin> set c"

fun fits :: "nat \<Rightarrow> string list \<Rightarrow> bool" where
  "fits i [] = True"
| "fits i [c] = (27 * i + length c < 270)"
| "fits i (c # d # cs) = (length c \<le> 26 \<and> fits (Suc i) (d # cs))"

text \<open>
  A well-formed image: every block is whole, the root is a directory, and every inode that can
  be reached from the root is on the image, has its entry block on the image when it is a
  directory, and the names of its valid entries are terminated.
\<close>

inductive reach :: "disk \<Rightarrow> nat \<Rightarrow> bool" for d where
  reach_root: "reach d 2"
| reach_entry: "reach d k \<Longrightarrow> is_dir d k \<Longrightarrow> e \<in> set (dir_at d k) \<Longrightarrow> d_valid e \<Longrightarrow>
     reach d (unat (d_inode e))"

definition names_ok :: "fs_dirent list \<Rightarrow> bool" where
  "names_ok es \<longleftrightarrow> (\<forall>e\<in>set es. d_valid e \<longrightarrow> (\<exists>s. c_str (d_name e) = Done s))"

definition node_ok :: "disk \<Rightarrow> nat \<Rightarrow> bool" where
  "node_ok d k \<longleftrightarrow>
     on_disk d k \<and> (is_dir d k \<longrightarrow> on_disk d (dir_blk d k) \<and> names_ok (dir_at d k))"

definition wf_fs :: "disk \<Rightarrow> bool" where
  "wf_fs d \<longleftrightarrow> wf_disk d \<and> is_dir d 2 \<and> (\<forall>k. reach d k \<longrightarrow> node_ok d k)"

section \<open>Typed reads on a well-formed image\<close>

lemma sint_unat32:
  assumes "unat (x :: 32 word) < 2 ^ 31"
  shows "sint x = int (unat x)"
proof -
  have "int (unat x) < int (2 ^ 31)"
    using assms by (simp only: of_nat_less_iff)
  then show ?thesis
    unfolding sint_uint by (simp add: signed_take_bit_int_eq_self order_trans [OF _ uint_ge_0])
qed

lemma on_disk_sint: "on_disk d (unat (x :: 32 word)) \<Longrightarrow> sint x = int (unat x)"
  by (rule sint_unat32) (simp add: on_disk_def)

lemma read_inode_at: "k < length d \<Longrightarrow> k < 2 ^ 19 \<Longrightarrow> read_inode d old (int k) = inode_at d k"
  by (simp add: read_inode_def inode_at_def block_read_on_disk)

lemma read_inode_on_disk: "on_disk d k \<Longrightarrow> read_inode d old (int k) = inode_at d k"
  by (simp add: on_disk_def read_inode_at)

lemma read_dirents_on_disk:
  "on_disk d k \<Longrightarrow> read_dirents d old (int k) = decode_dirents (d ! k)"
  by (simp add: read_dirents_def on_disk_def block_read_on_disk)

lemma read_dir_on_disk:
  "on_disk d (dir_blk d k) \<Longrightarrow>
     read_dirents d old (sint (i_ptrs (inode_at d k) ! 0)) = dir_at d k"
  using on_disk_sint [of d "i_ptrs (inode_at d k) ! 0"]
  by (simp add: dir_blk_def dir_at_def read_dirents_on_disk del: of_nat_unat)

lemma inode_at_ok [simp]: "wf_disk d \<Longrightarrow> k < length d \<Longrightarrow> inode_ok (inode_at d k)"
  by (simp add: inode_at_def)

lemma dir_at_ok: "wf_disk d \<Longrightarrow> dir_blk d k < length d \<Longrightarrow> dirents_ok (dir_at d k)"
  by (simp add: dir_at_def)

lemma sint_ucast31: "sint (ucast (x :: 31 word) :: 32 word) = int (unat x)"
proof -
  have "unat x < 2 ^ 31"
    using unsigned_less [of x, where ?'a = nat] by simp
  moreover have "unat (ucast x :: 32 word) = unat x"
    by (simp add: unsigned_ucast_eq take_bit_nat_eq_self_iff) (use calculation in simp)
  ultimately show ?thesis
    using sint_unat32 [of "ucast x"] by simp
qed

section \<open>get\_dirent\_index finds the first valid entry with the name\<close>

lemma strcmp_entry:
  "c_str fn = Done t \<Longrightarrow> d_valid e \<Longrightarrow> \<exists>s. c_str (d_name e) = Done s \<Longrightarrow>
     strcmp_eq (d_name e) fn = Done (entry_named t e)"
  by (auto simp: entry_named_def strcmp_eq_c_str)

lemma dirent_index_from_None:
  assumes "names_ok es" "c_str fn = Done t" "find (entry_named t) es = None"
  shows "dirent_index_from i es fn = Done (- ENOENT)"
  using assms
proof (induction es arbitrary: i)
  case (Cons e es)
  then show ?case
    by (auto simp: names_ok_def strcmp_entry find_None_iff entry_named_def split: if_splits)
qed simp

lemma dirent_index_from_Some:
  assumes "names_ok es" "c_str fn = Done t" "j < length es" "entry_named t (es ! j)"
    "\<forall>m<j. \<not> entry_named t (es ! m)"
  shows "dirent_index_from i es fn = Done (int (i + j))"
  using assms
proof (induction es arbitrary: i j)
  case (Cons e es)
  show ?case
  proof (cases j)
    case 0
    then show ?thesis
      using Cons.prems strcmp_entry [of fn t e] by (auto simp: names_ok_def entry_named_def)
  next
    case (Suc m)
    then have "\<not> entry_named t e" "\<forall>l<m. \<not> entry_named t (es ! l)"
      using Cons.prems(5) by auto
    moreover have "dirent_index_from (Suc i) es fn = Done (int (Suc i + m))"
      using Cons.IH [of m "Suc i"] Cons.prems Suc calculation by (simp add: names_ok_def)
    ultimately show ?thesis
      using Cons.prems Suc strcmp_entry [of fn t e] by (auto simp: names_ok_def)
  qed
qed simp

lemma get_dirent_index_None:
  "names_ok es \<Longrightarrow> c_str fn = Done t \<Longrightarrow> lookup_dirent es t = None \<Longrightarrow>
     get_dirent_index es fn = Done (- ENOENT)"
  by (simp add: get_dirent_index_def lookup_dirent_def dirent_index_from_None)

lemma get_dirent_index_Some:
  assumes "names_ok es" "c_str fn = Done t" "lookup_dirent es t = Some k"
  obtains j where "get_dirent_index es fn = Done (int j)" "j < length es"
    "entry_named t (es ! j)" "\<forall>m<j. \<not> entry_named t (es ! m)" "unat (d_inode (es ! j)) = k"
proof -
  from assms(3) obtain e where e: "find (entry_named t) es = Some e" "unat (d_inode e) = k"
    by (auto simp: lookup_dirent_def)
  then obtain j where j: "j < length es" "entry_named t (es ! j)" "e = es ! j"
      "\<forall>m<j. \<not> entry_named t (es ! m)"
    by (auto simp: find_Some_iff)
  then have "get_dirent_index es fn = Done (int j)"
    using dirent_index_from_Some [OF assms(1,2) j(1,2,4), of 0] by (simp add: get_dirent_index_def)
  with that j e show ?thesis by blast
qed

end
