(* ===== verification/Fs_Resolve.thy ===== *)
theory Fs_Resolve
  imports Fs_Path
begin

text \<open>
  Path translation of Lab 5 computes the abstract walk: the rows of \<^verbatim>\<open>filenames\<close> after the token
  loop, the walk over the directories, and what happens when a component does not fit its row.
\<close>

section \<open>Paths and their tokens\<close>

lemma join_path_simps [simp]:
  "join_path [] = []" "join_path (c # cs) = CHR ''/'' # c @ join_path cs"
  by (simp_all add: join_path_def)

lemma join_path_append: "join_path (cs @ ds) = join_path cs @ join_path ds"
  by (simp add: join_path_def)

lemma join_path_hd: "join_path cs = [] \<or> hd (join_path cs) = CHR ''/''"
  by (cases cs) simp_all

lemma join_path_not_root: "list_all comp_ok cs \<Longrightarrow> cs \<noteq> [] \<Longrightarrow> join_path cs \<noteq> ''/''"
  by (cases cs) (auto simp: comp_ok_def)

lemma NUL_join_path: "list_all comp_ok cs \<Longrightarrow> NUL \<notin> set (join_path cs)"
  by (induction cs) (auto simp: comp_ok_def)

lemma strtok_join:
  "comp_ok c \<Longrightarrow> strtok ''/'' (join_path (c # cs)) = Some (c, drop 1 (join_path cs))"
  using strtok_word [of c "CHR ''/''" "join_path cs"] join_path_hd [of cs]
  by (simp add: comp_ok_def)

lemma strtok_join_tail:
  "list_all comp_ok cs \<Longrightarrow> strtok ''/'' (drop 1 (join_path cs)) = strtok ''/'' (join_path cs)"
  using strtok_word0 [of "hd cs" "CHR ''/''" "join_path (tl cs)"] strtok_join [of "hd cs" "tl cs"]
    join_path_hd [of "tl cs"]
  by (cases cs) (simp_all add: comp_ok_def)

section \<open>The rows of filenames\<close>

lemma c_str_prefix: "c_str (take n bs) = Done s \<Longrightarrow> c_str bs = Done s"
  by (metis append.assoc append_Cons append_take_drop_id c_str_Done_iff)

lemma take_eq_mono: "take n xs = take n ys \<Longrightarrow> m \<le> n \<Longrightarrow> take m xs = take m ys"
  by (metis min.absorb1 take_take)

lemma fits_length: "fits i cs \<Longrightarrow> cs \<noteq> [] \<Longrightarrow> i + length cs \<le> 10"
  by (induction i cs rule: fits.induct) auto

lemma fits_Cons:
  assumes "fits i (c # cs)"
  shows "27 * i + length c < 270" "cs \<noteq> [] \<Longrightarrow> length c \<le> 26" "fits (Suc i) cs"
  using assms fits_length [OF assms] by (cases cs; simp)+

text \<open>Writing a component into row \<open>i\<close>.\<close>

lemma row_written:
  assumes "27 * i + length c < length fn" "NUL \<notin> set c"
  obtains fn' where "mem_write (27 * i) (c @ [NUL]) fn = Done fn'" "length fn' = length fn"
    "take (27 * i) fn' = take (27 * i) fn" "c_str (take (Suc (length c)) (drop (27 * i) fn')) = Done c"
proof (rule that)
  show "mem_write (27 * i) (c @ [NUL]) fn =
      Done (take (27 * i) fn @ (c @ [NUL]) @ drop (27 * i + length (c @ [NUL])) fn)"
    using assms(1) by (intro mem_write_fits) simp
qed (use assms in simp_all)

text \<open>A row that is written before the others keeps its string when it ends in its own row.\<close>

lemma row_kept:
  assumes "c_str (take (Suc (length c)) (drop (27 * i) fn)) = Done c"
    "take (27 * Suc i) fn' = take (27 * Suc i) fn" "length c \<le> 26"
  shows "c_str (drop (27 * i) fn') = Done c"
proof -
  have "take (Suc (length c)) (drop (27 * i) fn') = take (Suc (length c)) (drop (27 * i) fn)"
    using take_eq_mono [OF assms(2), of "Suc (length c) + 27 * i"] assms(3)
    by (simp add: take_drop)
  then show ?thesis
    using assms(1) by (metis c_str_prefix)
qed

lemma copy_tokens_None: "copy_tokens k i None fn = Done (i, fn)"
  by (cases k) simp_all

lemma copy_tokens_rows:
  assumes "list_all comp_ok cs" "fits i cs" "length fn = 270"
  shows "\<exists>fn'. copy_tokens (10 - i) i (strtok ''/'' (join_path cs)) fn = Done (i + length cs, fn')
    \<and> length fn' = 270 \<and> take (27 * i) fn' = take (27 * i) fn
    \<and> (\<forall>j<length cs. c_str (drop (27 * (i + j)) fn') = Done (cs ! j))"
  using assms
proof (induction cs arbitrary: i fn)
  case Nil
  then show ?case by (simp add: copy_tokens_None)
next
  case (Cons c cs)
  from Cons.prems(1) have "comp_ok c" and cs: "list_all comp_ok cs"
    by simp_all
  then have c: "comp_ok c" "NUL \<notin> set c"
    by (simp_all add: comp_ok_def)
  from fits_length [OF Cons.prems(2)] obtain k where k: "10 - i = Suc k" "k = 10 - Suc i"
    by (cases "10 - i") auto
  obtain fn1 where fn1: "mem_write (27 * i) (c @ [NUL]) fn = Done fn1" "length fn1 = 270"
      "take (27 * i) fn1 = take (27 * i) fn"
      "c_str (take (Suc (length c)) (drop (27 * i) fn1)) = Done c"
    using row_written [of i c fn] fits_Cons(1) [OF Cons.prems(2)] c Cons.prems(3) by metis
  have step: "copy_tokens (10 - i) i (strtok ''/'' (join_path (c # cs))) fn =
      copy_tokens k (Suc i) (strtok ''/'' (join_path cs)) fn1"
    using strtok_join [OF c(1), of cs] strtok_join_tail [OF cs] fn1(1) k(1)
    by (simp del: join_path_simps(2))
  show ?case
  proof (cases "cs = []")
    case True
    then show ?thesis
      using step fn1 by (simp add: copy_tokens_None c_str_prefix [OF fn1(4)])
  next
    case False
    obtain fn' where fn': "copy_tokens k (Suc i) (strtok ''/'' (join_path cs)) fn1 =
          Done (Suc i + length cs, fn')" "length fn' = 270"
        "take (27 * Suc i) fn' = take (27 * Suc i) fn1"
        "\<forall>j<length cs. c_str (drop (27 * (Suc i + j)) fn') = Done (cs ! j)"
      using Cons.IH [OF cs fits_Cons(3) [OF Cons.prems(2)] fn1(2)] k(2) by metis
    have "c_str (drop (27 * (i + j)) fn') = Done ((c # cs) ! j)" if "j < length (c # cs)" for j
      using that fn'(4) row_kept [OF fn1(4) fn'(3) fits_Cons(2) [OF Cons.prems(2) False]]
      by (cases j) (simp_all add: algebra_simps)
    moreover have "take (27 * i) fn' = take (27 * i) fn"
      using take_eq_mono [OF fn'(3), of "27 * i"] fn1(3) by simp
    ultimately show ?thesis
      using step fn' by (intro exI [of _ fn']) (simp del: join_path_simps(2))
  qed
qed

section \<open>The walk\<close>

lemma wf_fs_reach: "wf_fs d \<Longrightarrow> reach d k \<Longrightarrow> node_ok d k"
  by (simp add: wf_fs_def)

lemma lookup_dirent_SomeD:
  assumes "lookup_dirent es c = Some k"
  obtains e where "e \<in> set es" "d_valid e" "c_str (d_name e) = Done c" "unat (d_inode e) = k"
  using assms by (auto simp: lookup_dirent_def find_Some_iff entry_named_def in_set_conv_nth)

lemma reach_lookup:
  "reach d k \<Longrightarrow> is_dir d k \<Longrightarrow> lookup_dirent (dir_at d k) c = Some j \<Longrightarrow> reach d j"
  by (erule lookup_dirent_SomeD) (auto intro: reach_entry)

lemma walk_path_resolve:
  assumes "wf_fs d" "reach d k" "\<forall>j<length cs. c_str (drop (27 * (i + j)) fn) = Done (cs ! j)"
    "cs = [] \<longrightarrow> sint b = int k"
  shows "walk_path d fn (length cs) i (inode_at d k) b des = Done (resolve d k cs)"
  using assms
proof (induction cs arbitrary: k i b des)
  case (Cons c cs)
  note node = wf_fs_reach [OF Cons.prems(1,2)]
  from Cons.prems(3) have c: "c_str (drop (27 * i) fn) = Done c"
    by force
  have cs: "\<forall>j<length cs. c_str (drop (27 * (Suc i + j)) fn) = Done (cs ! j)"
    using Cons.prems(3) by (force simp: algebra_simps)
  show ?case
  proof (cases "is_dir d k")
    case dir: True
    then have rd: "read_dirents d des (sint (i_ptrs (inode_at d k) ! 0)) = dir_at d k"
      and names: "names_ok (dir_at d k)"
      using node by (simp_all add: node_ok_def read_dir_on_disk)
    show ?thesis
    proof (cases "lookup_dirent (dir_at d k) c")
      case None
      then show ?thesis
        using dir rd get_dirent_index_None [OF names c] by (simp add: is_dir_def errno_defs)
    next
      case (Some m)
      obtain j where j: "get_dirent_index (dir_at d k) (drop (27 * i) fn) = Done (int j)"
          "unat (d_inode (dir_at d k ! j)) = m"
        using get_dirent_index_Some [OF names c Some] by metis
      have reach: "reach d m"
        by (rule reach_lookup [OF Cons.prems(2) dir Some])
      let ?b = "ucast (d_inode (dir_at d k ! j)) :: 32 word"
      have b: "sint ?b = int m"
        using j(2) sint_ucast31 [of "d_inode (dir_at d k ! j)"] by simp
      then have "read_inode d (inode_at d k) (sint ?b) = inode_at d m"
        using wf_fs_reach [OF Cons.prems(1) reach] by (simp add: node_ok_def read_inode_on_disk)
      then show ?thesis
        using dir rd j Some Cons.IH [OF Cons.prems(1) reach cs, of ?b] b
        by (simp add: is_dir_def)
    qed
  qed (simp add: is_dir_def)
qed simp

lemma root_on_disk:
  assumes "wf_fs d"
  shows "on_disk d 2" "read_inode d old 2 = inode_at d 2" "S_ISDIR (i_mode (inode_at d 2))"
proof -
  show "on_disk d 2"
    using wf_fs_reach [OF assms reach_root] by (simp add: node_ok_def)
  then show "read_inode d old 2 = inode_at d 2"
    using read_inode_on_disk [of d 2] by simp
  show "S_ISDIR (i_mode (inode_at d 2))"
    using assms by (simp add: wf_fs_def is_dir_def)
qed

lemma path_to_inum_path_of:
  assumes "wf_fs (disk s)" "list_all comp_ok cs" "fits 0 cs"
  shows "path_to_inum env s (path_of cs) = Done (resolve (disk s) 2 cs)"
proof (cases "cs = []")
  case False
  obtain fn where fn: "copy_tokens 10 0 (strtok ''/'' (join_path cs)) (uninit env ''filenames'' 270)
        = Done (length cs, fn)" "\<forall>j<length cs. c_str (drop (27 * j) fn) = Done (cs ! j)"
    using copy_tokens_rows [OF assms(2,3), of "uninit env ''filenames'' 270"] by auto
  then show ?thesis
    using False join_path_not_root [OF assms(2) False] root_on_disk [OF assms(1)]
      walk_path_resolve [OF assms(1) reach_root, of cs 0 fn]
    by (simp add: path_to_inum_def path_of_def)
qed (simp add: path_to_inum_def path_of_def)

section \<open>A component that overflows its row\<close>

text \<open>
  A 27-letter component fills its row; its NUL is the first byte of the next row, where the next
  component is then stored.  The two are read back as one name.
\<close>

lemma overflow_rows:
  assumes "comp_ok a" "comp_ok b" "length a = 27" "length b < 243" "length fn = 270"
  obtains fn' where "copy_tokens 10 0 (strtok ''/'' (join_path [a, b])) fn = Done (2, fn')"
    "c_str fn' = Done (a @ b)"
proof -
  have nul: "NUL \<notin> set a" "NUL \<notin> set b" and b: "list_all comp_ok [b]"
    using assms(1,2) by (simp_all add: comp_ok_def)
  obtain fn1 where fn1: "mem_write 0 (a @ [NUL]) fn = Done fn1" "length fn1 = 270" "take 27 fn1 = a"
    using assms(3,5) by (auto simp: mem_write_def)
  obtain fn2 where fn2: "mem_write 27 (b @ [NUL]) fn1 = Done fn2"
      "fn2 = a @ b @ NUL # drop (28 + length b) fn1"
    using fn1(2,3) assms(4) by (auto simp: mem_write_def)
  have "copy_tokens 10 0 (strtok ''/'' (join_path [a, b])) fn = Done (2, fn2)"
    using strtok_join [OF assms(1), of "[b]"] strtok_join [OF assms(2), of "[]"]
      strtok_join_tail [OF b] fn1(1) fn2(1)
    by (simp add: numeral_eq_Suc copy_tokens_None del: join_path_simps(2))
  moreover have "c_str fn2 = Done (a @ b)"
    using fn2(2) nul c_str_append [of "a @ b"] by simp
  ultimately show ?thesis
    by (rule that)
qed

lemma entry_name_short:
  "dirents_ok es \<Longrightarrow> e \<in> set es \<Longrightarrow> c_str (d_name e) = Done s \<Longrightarrow> length s \<le> 27"
  by (auto simp: dirents_ok_def list_all_iff dirent_ok_def c_str_Done_iff dest!: bspec)

lemma lookup_long_name:
  assumes "dirents_ok es" "27 < length c"
  shows "lookup_dirent es c = None"
  using entry_name_short [OF assms(1)] assms(2)
  by (fastforce simp: lookup_dirent_def find_None_iff entry_named_def)

lemma path_to_inum_overflow:
  assumes "wf_fs (disk s)" "comp_ok a" "comp_ok b" "length a = 27" "length b < 243"
  shows "path_to_inum env s (path_of [a, b]) = Done (- ENOENT)"
proof -
  let ?d = "disk s"
  obtain fn where fn: "copy_tokens 10 0 (strtok ''/'' (join_path [a, b]))
      (uninit env ''filenames'' 270) = Done (2, fn)" "c_str fn = Done (a @ b)"
    using overflow_rows [OF assms(2-5)] by (metis length_uninit)
  note root = root_on_disk [OF assms(1)]
  have node: "on_disk ?d (dir_blk ?d 2)" "names_ok (dir_at ?d 2)" "dirents_ok (dir_at ?d 2)"
    using wf_fs_reach [OF assms(1) reach_root] assms(1)
    by (auto simp: node_ok_def wf_fs_def on_disk_def dir_at_ok)
  have "lookup_dirent (dir_at ?d 2) (a @ b) = None"
    using lookup_long_name [OF node(3)] assms(3,4) by (simp add: comp_ok_def)
  then have "get_dirent_index (dir_at ?d 2) fn = Done (- ENOENT)"
    by (rule get_dirent_index_None [OF node(2) fn(2)])
  moreover have "path_of [a, b] = join_path [a, b]" "join_path [a, b] \<noteq> ''/''"
    using assms(2) by (simp_all add: path_of_def comp_ok_def)
  ultimately show ?thesis
    using fn(1) root read_dir_on_disk [OF node(1)]
    by (simp add: path_to_inum_def numeral_2_eq_2 errno_defs del: join_path_simps(2))
qed

section \<open>The directory and the last name of a path\<close>

lemma strip_last_suffix:
  "CHR ''/'' \<notin> set v \<Longrightarrow> u \<noteq> [] \<Longrightarrow>
     strip_last (length u - 1 + length v) (u @ v @ w) =
     strip_last (length u - 1) (u @ replicate (length v) NUL @ w)"
proof (induction v arbitrary: w rule: rev_induct)
  case (snoc x v)
  have "strip_last (Suc (length u - 1 + length v)) (u @ v @ x # w) =
      strip_last (length u - 1 + length v) (u @ v @ NUL # w)"
    using snoc.prems by (cases u) (auto simp: nth_append list_update_append)
  also have "\<dots> = strip_last (length u - 1) (u @ replicate (length v) NUL @ NUL # w)"
    using snoc by simp
  finally show ?case
    by (simp add: replicate_append_same [symmetric] flip: replicate_app_Cons_same)
qed simp

lemma strip_last_path:
  assumes "list_all comp_ok (cs @ [c])"
  shows "c_str (strip_last (length (path_of (cs @ [c]))) (path_of (cs @ [c]) @ [NUL])) =
    Done (path_of cs)"
proof -
  let ?u = "join_path cs @ ''/''"
  have c: "CHR ''/'' \<notin> set (c @ [NUL])" and cs: "NUL \<notin> set (join_path cs)"
    using assms by (simp_all add: comp_ok_def NUL_join_path)
  have path: "path_of (cs @ [c]) = ?u @ c"
    by (simp add: path_of_def join_path_append)
  have "strip_last (length (path_of (cs @ [c]))) (path_of (cs @ [c]) @ [NUL]) =
      strip_last (length (join_path cs)) (?u @ replicate (Suc (length c)) NUL)"
    using strip_last_suffix [OF c, of ?u "[]"] path by simp
  moreover have "c_str (strip_last (length (join_path cs)) (?u @ replicate (Suc (length c)) NUL)) =
      Done (path_of cs)"
  proof (cases "length (join_path cs)")
    case 0
    then have "cs = []" by (cases cs) simp_all
    then show ?thesis by (simp add: path_of_def)
  next
    case (Suc m)
    then have "cs \<noteq> []" by auto
    have "strip_last (Suc m) (?u @ replicate (Suc (length c)) NUL) =
        join_path cs @ NUL # replicate (Suc (length c)) NUL"
      using Suc by (auto simp: nth_append list_update_append)
    then show ?thesis
      using Suc cs \<open>cs \<noteq> []\<close> by (simp add: path_of_def)
  qed
  ultimately show ?thesis
    by simp
qed

lemma get_parent_path_of:
  assumes "list_all comp_ok (cs @ [c])" "length (path_of cs) < length buf"
  shows "get_parent_path (path_of (cs @ [c])) buf =
    Done (path_of cs @ NUL # drop (Suc (length (path_of cs))) buf)"
  using strip_last_path [OF assms(1)] assms(2) by (simp add: get_parent_path_def mem_write_def)

lemma copy_tokens_chk_eq:
  assumes "list_all comp_ok cs" "\<forall>c\<in>set cs. length c \<le> 27"
  shows "copy_tokens_chk k i (strtok ''/'' (join_path cs)) fn =
    obind (copy_tokens k i (strtok ''/'' (join_path cs)) fn) (\<lambda>r. Done (Inr r))"
  using assms
proof (induction cs arbitrary: k i fn)
  case Nil
  then show ?case by (cases k) simp_all
next
  case (Cons c cs)
  then have c: "comp_ok c" "length c \<le> 27" and cs: "list_all comp_ok cs" "\<forall>c\<in>set cs. length c \<le> 27"
    by simp_all
  have IH: "copy_tokens_chk m j (strtok ''/'' (join_path cs)) fn =
    obind (copy_tokens m j (strtok ''/'' (join_path cs)) fn) (\<lambda>r. Done (Inr r))" for m j fn
    by (rule Cons.IH [OF cs])
  show ?case
    using strtok_join [OF c(1), of cs] strtok_join_tail [OF cs(1)] c(2)
    by (cases k) (simp_all add: IH [abs_def] obind_assoc del: join_path_simps(2))
qed

lemma copy_tokens_chk_long:
  assumes "list_all comp_ok (cs @ [c])" "\<forall>c\<in>set cs. length c \<le> 26" "27 < length c"
    "i + length cs < 10" "length fn = 270"
  shows "copy_tokens_chk (10 - i) i (strtok ''/'' (join_path (cs @ [c]))) fn =
    Done (Inl (- EINVAL))"
  using assms
proof (induction cs arbitrary: i fn)
  case Nil
  then show ?case
    using strtok_join [of c "[]"] by (cases "10 - i") simp_all
next
  case (Cons b cs)
  then have b: "comp_ok b" and bs: "list_all comp_ok (cs @ [c])"
    by simp_all
  from Cons.prems obtain k where k: "10 - i = Suc k" "k = 10 - Suc i"
    by (cases "10 - i") auto
  obtain fn1 where fn1: "mem_write (27 * i) (b @ [NUL]) fn = Done fn1" "length fn1 = 270"
    using row_written [of i b fn] Cons.prems b by (auto simp: comp_ok_def)
  then show ?case
    using strtok_join [OF b, of "cs @ [c]"] strtok_join_tail [OF bs] k Cons.IH [OF bs, of "Suc i" fn1]
      Cons.prems
    by (simp del: join_path_simps(2))
qed

text \<open>
  A component of at most 26 letters is stored terminated; for one of 27 letters the 27 bytes are
  copied and the NUL is not.
\<close>

lemma get_last_filename_of:
  assumes "list_all comp_ok (cs @ [c])" "fits 0 (cs @ [c])" "length c \<le> 27" "27 \<le> length buf"
  obtains buf' where "get_last_filename env (path_of (cs @ [c])) buf = Done (0, buf')"
    "length buf' = length buf" "length c \<le> 26 \<Longrightarrow> c_str buf' = Done c"
    "length c = 27 \<Longrightarrow> buf' = c @ drop 27 buf"
proof -
  let ?p = "cs @ [c]"
  have short: "\<forall>d\<in>set cs. length d \<le> 26" if "fits i (cs @ [c])" for i
    using that by (induction cs arbitrary: i) (auto dest: fits_Cons)
  obtain fn where fn: "copy_tokens 10 0 (strtok ''/'' (join_path ?p)) (uninit env ''filenames'' 270)
        = Done (length ?p, fn)" "\<forall>j<length ?p. c_str (drop (27 * j) fn) = Done (?p ! j)"
    using copy_tokens_rows [OF assms(1,2), of "uninit env ''filenames'' 270"] by auto
  have chk: "copy_tokens_chk 10 0 (strtok ''/'' (join_path ?p)) (uninit env ''filenames'' 270) =
      Done (Inr (length ?p, fn))"
    using copy_tokens_chk_eq [OF assms(1)] short [OF assms(2)] assms(3) fn(1) by force
  have nul: "NUL \<notin> set c"
    using assms(1) by (simp add: comp_ok_def)
  let ?last = "c @ NUL # drop (Suc (length c)) (uninit env ''last_filename'' 28)"
  have cp: "strcpy (uninit env ''last_filename'' 28) (drop (27 * (length ?p - 1)) fn) = Done ?last"
    using fn(2) assms(3) by (simp add: strcpy_def mem_write_def)
  let ?buf = "take 27 (?last[27 := NUL]) @ drop 27 buf"
  have "get_last_filename env (path_of ?p) buf = Done (0, ?buf)"
    using chk cp assms(3,4) by (simp add: get_last_filename_def path_of_def mem_write_def)
  moreover have "c_str ?buf = Done c" if "length c \<le> 26"
    using that nul by (cases "27 - length c") (simp_all add: list_update_append)
  moreover have "?buf = c @ drop 27 buf" if "length c = 27"
    using that by simp
  ultimately show ?thesis
    using that [of ?buf] assms(3,4) by simp
qed

lemma get_last_filename_long:
  assumes "list_all comp_ok (cs @ [c])" "\<forall>c\<in>set cs. length c \<le> 26" "27 < length c" "length cs < 10"
  shows "get_last_filename env (path_of (cs @ [c])) buf = Done (- EINVAL, buf)"
  using copy_tokens_chk_long [OF assms(1-3), of 0 "uninit env ''filenames'' 270"] assms(4)
  by (simp add: get_last_filename_def path_of_def)

end
