(* ===== verification/Fs_Ops.thy ===== *)
theory Fs_Ops
  imports Fs_Resolve
begin

text \<open>
  The FUSE handlers of Lab 5 (\<^verbatim>\<open>lab5-TheCarton-main/fs5600.c\<close>, the \<^verbatim>\<open>fs_ops\<close> vector), one
  definition per handler, in the order of the source.  A handler takes the environment of the
  call, the state and its arguments, and returns the C return value and the new state.  Return
  codes that the source ignores are ignored here.
\<close>

section \<open>Writing structs\<close>

definition write_block :: "fs_state \<Rightarrow> block \<Rightarrow> int \<Rightarrow> fs_state outcome" where
  "write_block s b lba = obind (block_write (disk s) b lba) (\<lambda>(_, d). Done (s\<lparr>disk := d\<rparr>))"

definition write_inode :: "fs_state \<Rightarrow> fs_inode \<Rightarrow> int \<Rightarrow> fs_state outcome" where
  "write_inode s inode lba = write_block s (encode_inode inode) lba"

definition write_dirents :: "fs_state \<Rightarrow> fs_dirent list \<Rightarrow> int \<Rightarrow> fs_state outcome" where
  "write_dirents s entries lba = write_block s (encode_dirents entries) lba"

section \<open>inode\_to\_stat, fs\_init, fs\_statfs\<close>

record stat =
  st_ino :: int
  st_mode :: "32 word"
  st_nlink :: int
  st_uid :: int
  st_gid :: int
  st_size :: int
  st_blksize :: int
  st_blocks :: int
  st_atim :: int
  st_mtim :: int
  st_ctim :: int

definition inode_to_stat :: "fs_inode \<Rightarrow> int \<Rightarrow> stat" where
  "inode_to_stat i inode_num =
    \<lparr>st_ino = inode_num, st_mode = i_mode i, st_nlink = 1, st_uid = uint (i_uid i),
     st_gid = uint (i_gid i), st_size = sint (i_size i),
     st_blksize = DIV_ROUND_UP (sint (i_size i)) 4096, st_blocks = 0,
     st_atim = uint (i_mtime i), st_mtim = uint (i_mtime i), st_ctim = uint (i_ctime i)\<rparr>"

definition bytes_of_block :: "block \<Rightarrow> 8 word list" where
  "bytes_of_block b = map (\<lambda>c. of_nat (of_char c)) b"

definition fs_init :: "fs_env \<Rightarrow> fs_state \<Rightarrow> fs_state outcome" where
  "fs_init env s =
     (let (r, b) = block_read (disk s) (uninit env ''sb'' 4096) 0; sb = decode_super b
      in if r < 0 then Exit 1
         else if magic sb \<noteq> FS_MAGIC then Exit 1
         else let (r, m) = block_read (disk s) [] 1
              in if r < 0 then Exit 1
                 else Done (s\<lparr>num_blocks := disk_size sb, block_bitmap := bytes_of_block m\<rparr>))"

record statvfs =
  f_bsize :: int
  f_namemax :: int
  f_blocks :: int
  f_bfree :: int
  f_bavail :: int

text \<open>The counting loop of \<^verbatim>\<open>fs_statfs\<close> from bit \<open>i\<close>, with \<open>n\<close> iterations left.\<close>

fun count_used :: "nat \<Rightarrow> nat \<Rightarrow> 8 word list \<Rightarrow> 16 word \<Rightarrow> 16 word outcome" where
  "count_used 0 i m blocks_used = Done blocks_used"
| "count_used (Suc n) i m blocks_used =
     obind (bit_test m (int i))
       (\<lambda>test. count_used n (Suc i) m (if test \<noteq> 0 then blocks_used + 1 else blocks_used))"

definition fs_statfs :: "fs_state \<Rightarrow> (int \<times> statvfs) outcome" where
  "fs_statfs s =
     obind (count_used FS_BLOCK_SIZE 0 (block_bitmap s) 0) (\<lambda>blocks_used.
       let blocks = uint (num_blocks s); bfree = u64 (blocks - uint blocks_used)
       in Done (0, \<lparr>f_bsize = 4096, f_namemax = 27, f_blocks = blocks, f_bfree = bfree,
                    f_bavail = bfree\<rparr>))"

section \<open>fs\_getattr, fs\_readdir\<close>

definition fs_getattr :: "fs_env \<Rightarrow> fs_state \<Rightarrow> string \<Rightarrow> (int \<times> stat option) outcome" where
  "fs_getattr env s path =
     obind (path_to_inum env s path) (\<lambda>inode_num.
       if inode_num < 0 then Done (inode_num, None)
       else let inode = read_inode (disk s) (uninit_inode env ''inode'') inode_num
            in Done (0, Some (inode_to_stat inode inode_num)))"

text \<open>The calls of \<^verbatim>\<open>filler\<close>, in order: the name array and the stat of each valid entry.\<close>

fun readdir_loop :: "fs_env \<Rightarrow> disk \<Rightarrow> fs_dirent list \<Rightarrow> (char list \<times> stat) list" where
  "readdir_loop env d [] = []"
| "readdir_loop env d (e # es) =
     (if \<not> d_valid e then readdir_loop env d es
      else let inum_entry = int (unat (d_inode e));
               inode_entry = read_inode d (uninit_inode env ''inode_entry'') inum_entry
           in (d_name e, inode_to_stat inode_entry inum_entry) # readdir_loop env d es)"

definition fs_readdir :: "fs_env \<Rightarrow> fs_state \<Rightarrow> string \<Rightarrow> (int \<times> (char list \<times> stat) list) outcome" where
  "fs_readdir env s path =
     obind (path_to_inum env s path) (\<lambda>inum.
       if inum < 0 then Done (inum, [])
       else let dir = read_inode (disk s) (uninit_inode env ''dir'') inum
            in if \<not> S_ISDIR (i_mode dir) then Done (- ENOTDIR, [])
               else Done (0, readdir_loop env (disk s)
                      (read_dirents (disk s) (uninit_dirents env ''dirent_array'')
                        (sint (i_ptrs dir ! 0)))))"

section \<open>fs\_read\<close>

text \<open>
  The slice of the current block that an iteration transfers: \<^verbatim>\<open>norm_offset\<close> and \<^verbatim>\<open>norm_len\<close>, with
  the \<^verbatim>\<open>size_t\<close> sums wrapped.  \<^verbatim>\<open>fs_read\<close> and \<^verbatim>\<open>fs_write\<close> compute them with the same expressions.
\<close>

definition norm_off :: "int \<Rightarrow> int" where
  "norm_off offset = c_mod offset 4096"

definition norm_len :: "nat \<Rightarrow> int \<Rightarrow> nat \<Rightarrow> nat" where
  "norm_len len offset dn =
     (let n = (if 4096 < u64 (norm_off offset + int len) then nat (u64 (4096 - norm_off offset)) else len)
      in if int len < u64 (int dn + int n) then len - dn else n)"

definition blk_index :: "int \<Rightarrow> nat" where
  "blk_index offset = nat (c_div offset 4096 mod 2 ^ 32)"

lemma norm_len_pos: "dn < len \<Longrightarrow> 0 < norm_len len offset dn"
proof -
  assume "dn < len"
  moreover have "0 < nat (u64 (4096 - norm_off offset))"
    using c_mod_bounds [of 4096 offset] by (simp add: norm_off_def)
  ultimately show ?thesis
    by (simp add: norm_len_def Let_def)
qed

lemma norm_len_decreases:
  "dn \<noteq> len \<Longrightarrow> \<not> len < dn \<Longrightarrow> len - (dn + norm_len len offset dn) < len - dn"
  using norm_len_pos [of dn len offset] by simp

text \<open>
  The loop \<^verbatim>\<open>while (total_read != len)\<close>.  \<open>out\<close> is what has been copied to \<^verbatim>\<open>buf\<close> so far.  Were
  \<^verbatim>\<open>total_read\<close> to pass \<^verbatim>\<open>len\<close>, the loop would not stop; \<^verbatim>\<open>norm_len\<close> is cut so that it never does.
\<close>

function read_loop :: "disk \<Rightarrow> fs_inode \<Rightarrow> nat \<Rightarrow> block \<Rightarrow> int \<Rightarrow> nat \<Rightarrow> char list
    \<Rightarrow> char list outcome" where
  "read_loop d inode len data_block offset total_read out =
     (if total_read = len then Done out
      else if len < total_read then Undef
      else if NUM_PTRS_INODE \<le> blk_index offset then Undef
      else let data_block = snd (block_read d data_block (sint (i_ptrs inode ! blk_index offset)));
               n = norm_len len offset total_read
           in if norm_off offset < 0 \<or> 4096 < norm_off offset + int n then Undef
              else read_loop d inode len data_block (offset + int n) (total_read + n)
                     (out @ take n (drop (nat (norm_off offset)) data_block)))"
  by pat_completeness auto
termination
  by (relation "measure (\<lambda>(d, inode, len, db, offset, total_read, out). len - total_read)")
    (auto intro: norm_len_decreases)

declare read_loop.simps [simp del]

definition fs_read :: "fs_env \<Rightarrow> fs_state \<Rightarrow> string \<Rightarrow> nat \<Rightarrow> int \<Rightarrow> (int \<times> char list) outcome" where
  "fs_read env s path len offset =
     obind (path_to_inum env s path) (\<lambda>inum.
       if inum < 0 then Done (inum, [])
       else let inode = read_inode (disk s) (uninit_inode env ''inode'') inum
            in if S_ISDIR (i_mode inode) then Done (- EISDIR, [])
               else let sb = inode_to_stat inode inum
                    in if st_size sb \<le> offset then Done (0, [])
                       else let len = (if u64 (st_size sb) < u64 (offset + int len)
                                       then nat (u64 (st_size sb - offset)) else len)
                            in obind (read_loop (disk s) inode len (uninit env ''data_block'' 4096)
                                        offset 0 [])
                                 (\<lambda>out. Done (int32 (int len), out)))"

section \<open>fs\_rename, fs\_chmod\<close>

text \<open>The loop renames the first entry whose name matches; it does not look at \<^verbatim>\<open>valid\<close>.\<close>

fun rename_entry :: "fs_dirent list \<Rightarrow> char list \<Rightarrow> char list \<Rightarrow> fs_dirent list outcome" where
  "rename_entry [] src dst = Done []"
| "rename_entry (e # es) src dst =
     obind (strcmp_eq (d_name e) src) (\<lambda>eq.
       if eq then obind (strcpy (d_name e) dst) (\<lambda>n. Done (e\<lparr>d_name := n\<rparr> # es))
       else obind (rename_entry es src dst) (\<lambda>es. Done (e # es)))"

definition fs_rename :: "fs_env \<Rightarrow> fs_state \<Rightarrow> string \<Rightarrow> string \<Rightarrow> (int \<times> fs_state) outcome" where
  "fs_rename env s src_path dst_path =
     obind (path_to_inum env s src_path) (\<lambda>src_inum.
     if src_inum < 0 then Done (- ENOENT, s)
     else obind (get_last_filename env src_path (uninit env ''src_last_filename'' 28))
       (\<lambda>(_, src_last_filename).
     obind (get_parent_path src_path (uninit env ''src_dir_path'' 280)) (\<lambda>src_dir_path.
     obind (path_to_inum env s dst_path) (\<lambda>dst_inum.
     if 0 < dst_inum then Done (- EEXIST, s)
     else obind (get_last_filename env dst_path (uninit env ''dst_last_filename'' 28))
       (\<lambda>(_, dst_last_filename).
     obind (get_parent_path dst_path (uninit env ''dst_dir_path'' 280)) (\<lambda>dst_dir_path.
     obind (strcmp_eq src_dir_path dst_dir_path) (\<lambda>same_dir.
     if \<not> same_dir then Done (- EINVAL, s)
     else obind (c_str src_dir_path) (\<lambda>dir_path.
     obind (path_to_inum env s dir_path) (\<lambda>dir_inum.
     let dir_inode = read_inode (disk s) (uninit_inode env ''dir_inode'') dir_inum
     in if \<not> S_ISDIR (i_mode dir_inode) then Abort
        else let dir_entries = read_dirents (disk s) (uninit_dirents env ''dir_entries'')
                                 (sint (i_ptrs dir_inode ! 0))
             in obind (rename_entry dir_entries src_last_filename dst_last_filename) (\<lambda>dir_entries.
                obind (write_dirents s dir_entries (sint (i_ptrs dir_inode ! 0))) (\<lambda>s.
                Done (0, s))))))))))))"

definition fs_chmod :: "fs_env \<Rightarrow> fs_state \<Rightarrow> string \<Rightarrow> 32 word \<Rightarrow> (int \<times> fs_state) outcome" where
  "fs_chmod env s path mode =
     obind (path_to_inum env s path) (\<lambda>inum.
       if inum < 0 then Done (inum, s)
       else let inode = read_inode (disk s) (uninit_inode env ''inode'') inum;
                inode = inode\<lparr>i_mode := mode OR (i_mode inode AND S_IFMT)\<rparr>
            in obind (write_inode s inode inum) (\<lambda>s. Done (0, s)))"

section \<open>add\_dirent, fs\_create, fs\_mkdir\<close>

text \<open>The loop of \<^verbatim>\<open>add_dirent\<close>: the entries with the first free one filled, or none free.\<close>

fun fill_entry :: "fs_dirent list \<Rightarrow> 32 word \<Rightarrow> char list \<Rightarrow> fs_dirent list option outcome" where
  "fill_entry [] entry_inum entry_name = Done None"
| "fill_entry (e # es) entry_inum entry_name =
     (if \<not> d_valid e
      then obind (strcpy (d_name e) entry_name) (\<lambda>n.
             Done (Some (\<lparr>d_valid = True, d_inode = ucast entry_inum, d_name = n\<rparr> # es)))
      else obind (fill_entry es entry_inum entry_name) (\<lambda>r. Done (map_option (Cons e) r)))"

definition add_dirent :: "fs_state \<Rightarrow> fs_dirent list \<Rightarrow> int \<Rightarrow> 32 word \<Rightarrow> char list
    \<Rightarrow> (int \<times> fs_state) outcome" where
  "add_dirent s dir_entries dir_inum entry_inum entry_name =
     obind (fill_entry dir_entries entry_inum entry_name) (\<lambda>r.
       case r of
         None \<Rightarrow> Done (- ENOSPC, s)
       | Some dir_entries \<Rightarrow>
           obind (write_dirents s dir_entries dir_inum) (\<lambda>s. Done (0, s)))"

text \<open>
  The part that \<^verbatim>\<open>fs_create\<close> and \<^verbatim>\<open>fs_mkdir\<close> have in common, statement by statement: the checks,
  then the inode of the containing directory and the new name, or an error code.
\<close>

definition locate_new :: "fs_env \<Rightarrow> fs_state \<Rightarrow> string \<Rightarrow> (int + fs_inode \<times> char list) outcome" where
  "locate_new env s path =
     obind (path_to_inum env s path) (\<lambda>n.
     if 0 < n then Done (Inl (- EEXIST))
     else obind (get_parent_path path (uninit env ''src_dir_path'' 280)) (\<lambda>src_dir_path.
     obind (c_str src_dir_path) (\<lambda>dir_path.
     obind (path_to_inum env s dir_path) (\<lambda>dir_inum.
     if dir_inum < 0 then Done (Inl (- ENOENT))
     else let dir_inode = read_inode (disk s) (uninit_inode env ''dir_inode'') dir_inum
          in if \<not> S_ISDIR (i_mode dir_inode) then Done (Inl (- ENOTDIR))
             else obind (get_last_filename env path (uninit env ''filename'' 28)) (\<lambda>(r, filename).
                  if r < 0 then Done (Inl r) else Done (Inr (dir_inode, filename)))))))"

definition new_inode :: "fs_env \<Rightarrow> 32 word \<Rightarrow> 32 word \<Rightarrow> fs_inode" where
  "new_inode env mode ptr0 =
    \<lparr>i_uid = of_int (env_uid env), i_gid = of_int (env_gid env), i_mode = mode,
     i_ctime = of_int (env_time env), i_mtime = of_int (env_time env), i_size = 0,
     i_ptrs = ptr0 # replicate (NUM_PTRS_INODE - 1) 0\<rparr>"

definition fs_create :: "fs_env \<Rightarrow> fs_state \<Rightarrow> string \<Rightarrow> 32 word \<Rightarrow> (int \<times> fs_state) outcome" where
  "fs_create env s path mode =
     obind (locate_new env s path) (\<lambda>loc. case loc of Inl err \<Rightarrow> Done (err, s)
     | Inr (dir_inode, filename) \<Rightarrow>
     obind (alloc_blk s) (\<lambda>(new_file_inum, s).
     obind (write_inode s (new_inode env (mode OR S_IFREG) 0) new_file_inum) (\<lambda>s.
     let dir_entries = read_dirents (disk s) (uninit_dirents env ''dir_entries'')
                         (sint (i_ptrs dir_inode ! 0))
     in obind (add_dirent s dir_entries (sint (i_ptrs dir_inode ! 0)) (of_int new_file_inum) filename)
          (\<lambda>(_, s). Done (0, s)))))"

definition fs_mkdir :: "fs_env \<Rightarrow> fs_state \<Rightarrow> string \<Rightarrow> 32 word \<Rightarrow> (int \<times> fs_state) outcome" where
  "fs_mkdir env s path mode =
     obind (locate_new env s path) (\<lambda>loc. case loc of Inl err \<Rightarrow> Done (err, s)
     | Inr (dir_inode, filename) \<Rightarrow>
     obind (alloc_blk s) (\<lambda>(new_file_inum, s).
     obind (alloc_blk s) (\<lambda>(new_dir_entries_inum, s).
     obind (write_inode s (new_inode env (mode OR S_IFDIR) (of_int new_dir_entries_inum)) new_file_inum)
       (\<lambda>s.
     let dir_entries = read_dirents (disk s) (uninit_dirents env ''dir_entries'')
                         (sint (i_ptrs dir_inode ! 0))
     in obind (add_dirent s dir_entries (sint (i_ptrs dir_inode ! 0)) (of_int new_file_inum) filename)
          (\<lambda>(_, s).
        let new_dir_entries = map (\<lambda>e. e\<lparr>d_valid := False\<rparr>) (uninit_dirents env ''new_dir_entries'')
        in obind (write_dirents s new_dir_entries new_dir_entries_inum) (\<lambda>s. Done (0, s)))))))"

section \<open>fs\_unlink, fs\_rmdir\<close>

text \<open>The loop that frees the blocks of the pointers that are not 0.\<close>

fun free_ptrs :: "32 word list \<Rightarrow> fs_state \<Rightarrow> fs_state outcome" where
  "free_ptrs [] s = Done s"
| "free_ptrs (p # ps) s = (if p \<noteq> 0 then obind (free_blk s (sint p)) (free_ptrs ps) else free_ptrs ps s)"

text \<open>\<^verbatim>\<open>entries[entry_index].valid = 0\<close>.\<close>

definition clear_entry :: "fs_dirent list \<Rightarrow> int \<Rightarrow> fs_dirent list outcome" where
  "clear_entry entries i =
     (if 0 \<le> i \<and> nat i < length entries
      then Done (entries[nat i := (entries ! nat i)\<lparr>d_valid := False\<rparr>]) else Undef)"

definition fs_unlink :: "fs_env \<Rightarrow> fs_state \<Rightarrow> string \<Rightarrow> (int \<times> fs_state) outcome" where
  "fs_unlink env s path =
     obind (path_to_inum env s path) (\<lambda>file_inum.
     if file_inum < 0 then Done (file_inum, s)
     else let file_inode = read_inode (disk s) (uninit_inode env ''file_inode'') file_inum
     in if S_ISDIR (i_mode file_inode) then Done (- EISDIR, s)
     else obind (free_blk s file_inum) (\<lambda>s.
     obind (free_ptrs (i_ptrs file_inode) s) (\<lambda>s.
     obind (get_parent_path path (uninit env ''parent_dir_path'' 270)) (\<lambda>parent_dir_path.
     obind (get_last_filename env path (uninit env ''filename'' 27)) (\<lambda>(_, filename).
     obind (c_str parent_dir_path) (\<lambda>dir_path.
     obind (path_to_inum env s dir_path) (\<lambda>parent_inum.
     let parent_inode = read_inode (disk s) (uninit_inode env ''parent_inode'') parent_inum;
         parent_inode = parent_inode\<lparr>i_mtime := of_int (env_time env)\<rparr>
     in obind (write_inode s parent_inode parent_inum) (\<lambda>s.
     let entries = read_dirents (disk s) (uninit_dirents env ''entries'') (sint (i_ptrs parent_inode ! 0))
     in obind (get_dirent_index entries filename) (\<lambda>entry_index.
     obind (clear_entry entries entry_index) (\<lambda>entries.
     obind (write_dirents s entries (sint (i_ptrs parent_inode ! 0))) (\<lambda>s.
     Done (0, s))))))))))))"

definition fs_rmdir :: "fs_env \<Rightarrow> fs_state \<Rightarrow> string \<Rightarrow> (int \<times> fs_state) outcome" where
  "fs_rmdir env s path =
     obind (path_to_inum env s path) (\<lambda>file_inum.
     if file_inum < 0 then Done (file_inum, s)
     else let file_inode = read_inode (disk s) (uninit_inode env ''file_inode'') file_inum
     in if \<not> S_ISDIR (i_mode file_inode) then Done (- ENOTDIR, s)
     else let entries = read_dirents (disk s) (uninit_dirents env ''entries'') (sint (i_ptrs file_inode ! 0))
     in if list_ex d_valid entries then Done (- ENOTEMPTY, s)
     else obind (free_blk s file_inum) (\<lambda>s.
     obind (free_blk s (sint (i_ptrs file_inode ! 0))) (\<lambda>s.
     obind (get_parent_path path (uninit env ''parent_dir_path'' 270)) (\<lambda>parent_dir_path.
     obind (get_last_filename env path (uninit env ''filename'' 27)) (\<lambda>(_, filename).
     obind (c_str parent_dir_path) (\<lambda>dir_path.
     obind (path_to_inum env s dir_path) (\<lambda>parent_inum.
     let parent_inode = read_inode (disk s) (uninit_inode env ''parent_inode'') parent_inum;
         parent_inode = parent_inode\<lparr>i_mtime := of_int (env_time env)\<rparr>;
         parent_entries = read_dirents (disk s) (uninit_dirents env ''parent_entries'')
                            (sint (i_ptrs parent_inode ! 0))
     in obind (get_dirent_index parent_entries filename) (\<lambda>entry_index.
     obind (clear_entry parent_entries entry_index) (\<lambda>parent_entries.
     obind (write_dirents s parent_entries (sint (i_ptrs parent_inode ! 0))) (\<lambda>s.
     obind (write_inode s parent_inode parent_inum) (\<lambda>s.
     Done (0, s))))))))))))"

section \<open>fs\_write\<close>

text \<open>A missing block is allocated and the inode written back before the data.\<close>

definition ensure_block :: "fs_state \<Rightarrow> fs_inode \<Rightarrow> int \<Rightarrow> nat \<Rightarrow> (fs_inode \<times> fs_state) outcome" where
  "ensure_block s inode inum index =
     (if i_ptrs inode ! index = 0
      then obind (alloc_blk s) (\<lambda>(new_blk, s).
             let inode = inode\<lparr>i_ptrs := (i_ptrs inode)[index := of_int new_blk]\<rparr>
             in obind (write_inode s inode inum) (\<lambda>s. Done (inode, s)))
      else Done (inode, s))"

function write_loop :: "fs_env \<Rightarrow> int \<Rightarrow> char list \<Rightarrow> nat \<Rightarrow> fs_inode \<Rightarrow> fs_state \<Rightarrow> int \<Rightarrow> nat
    \<Rightarrow> fs_state outcome" where
  "write_loop env inum buf len inode s offset wrote_len =
     (if wrote_len = len then Done s
      else if len < wrote_len then Undef
      else let n = norm_len len offset wrote_len; index = blk_index offset
           in if NUM_PTRS_INODE \<le> index \<or> norm_off offset < 0 \<or> length buf < wrote_len + n then Undef
              else obind (ensure_block s inode inum index) (\<lambda>(inode, s).
                let lba = sint (i_ptrs inode ! index);
                    data_block = snd (block_read (disk s) (uninit env ''data_block'' 4096) lba)
                in obind (mem_write (nat (norm_off offset)) (take n (drop wrote_len buf)) data_block)
                     (\<lambda>data_block.
                   obind (write_block s data_block lba) (\<lambda>s.
                   write_loop env inum buf len inode s (offset + int n) (wrote_len + n)))))"
  by pat_completeness auto
termination
  by (relation "measure (\<lambda>(env, inum, buf, len, inode, s, offset, wrote_len). len - wrote_len)")
    (auto intro: norm_len_decreases)

declare write_loop.simps [simp del]

definition write_size :: "fs_inode \<Rightarrow> nat \<Rightarrow> int \<Rightarrow> 32 word" where
  "write_size inode len offset =
     (let size = sint (i_size inode)
      in if offset = size then of_int (size + int len)
         else if u64 size < u64 (offset + int len) \<and> offset < size
              then of_int (size + (int len - (size - offset)))
         else i_size inode)"

definition fs_write :: "fs_env \<Rightarrow> fs_state \<Rightarrow> string \<Rightarrow> char list \<Rightarrow> nat \<Rightarrow> int
    \<Rightarrow> (int \<times> fs_state) outcome" where
  "fs_write env s path buf len offset =
     obind (path_to_inum env s path) (\<lambda>inum.
     if inum < 0 then Done (inum, s)
     else let inode = read_inode (disk s) (uninit_inode env ''inode'') inum
     in if S_ISDIR (i_mode inode) then Done (- EISDIR, s)
     else if sint (i_size inode) < offset then Done (- EINVAL, s)
     else if int (NUM_PTRS_INODE * 4096) < u64 (sint (i_size inode) + int len) then Done (- ENOSPC, s)
     else let inode = inode\<lparr>i_size := write_size inode len offset, i_mtime := of_int (env_time env)\<rparr>
     in obind (write_inode s inode inum) (\<lambda>s.
        obind (write_loop env inum buf len inode s offset 0) (\<lambda>s.
        Done (int32 (int len), s))))"

section \<open>fs\_truncate, fs\_utime\<close>

definition fs_truncate :: "fs_env \<Rightarrow> fs_state \<Rightarrow> string \<Rightarrow> int \<Rightarrow> (int \<times> fs_state) outcome" where
  "fs_truncate env s path len =
     (if len \<noteq> 0 then Done (- EINVAL, s)
      else obind (path_to_inum env s path) (\<lambda>inum.
        if inum < 0 then Done (inum, s)
        else let inode = read_inode (disk s) (uninit_inode env ''inode'') inum
        in if S_ISDIR (i_mode inode) then Done (- EISDIR, s)
        else obind (free_ptrs (i_ptrs inode) s) (\<lambda>s.
          let inode = inode\<lparr>i_size := 0, i_mtime := of_int (env_time env),
                            i_ptrs := map (\<lambda>_. 0) (i_ptrs inode)\<rparr>
          in obind (write_inode s inode inum) (\<lambda>s. Done (0, s)))))"

definition fs_utime :: "fs_env \<Rightarrow> fs_state \<Rightarrow> string \<Rightarrow> int option \<Rightarrow> (int \<times> fs_state) outcome" where
  "fs_utime env s path ut =
     obind (path_to_inum env s path) (\<lambda>inum.
       if inum < 0 then Done (inum, s)
       else let inode = read_inode (disk s) (uninit_inode env ''inode'') inum;
                inode = inode\<lparr>i_mtime := (case ut of None \<Rightarrow> of_int (env_time env)
                                          | Some modtime \<Rightarrow> of_int modtime)\<rparr>
            in obind (write_inode s inode inum) (\<lambda>s. Done (0, s)))"

end
