(* ===== verification/Fs_Inv.thy ===== *)
theory Fs_Inv
  imports Fs_Ops
begin

text \<open>
  The consistency of an image of Lab 5 and its frame rules.  \<open>disk_inv\<close>: besides being well formed,
  no block is owned by two inodes, the blocks of a file or directory are not inodes, and every
  owned block is on the image.  \<open>fs_inv\<close> adds the cached bitmap: every owned block is marked in
  use.  Operations that change neither the type of an inode nor any directory keep the name space
  (\<open>same_names\<close>).
\<close>

named_theorems frame_rules \<open>rules for images with the same name space\<close>

section \<open>Ownership of blocks\<close>

definition inode_blocks :: "fs_inode \<Rightarrow> nat list" where
  "inode_blocks i =
     (if S_ISDIR (i_mode i) then [unat (i_ptrs i ! 0)]
      else map unat (filter (\<lambda>p. p \<noteq> 0) (i_ptrs i)))"

definition blocks_of :: "disk \<Rightarrow> nat \<Rightarrow> nat list" where
  "blocks_of d k = inode_blocks (inode_at d k)"

definition owns_ok :: "disk \<Rightarrow> nat \<Rightarrow> bool" where
  "owns_ok d k \<longleftrightarrow>
     2 \<le> k \<and> distinct (blocks_of d k) \<and>
     (\<forall>b\<in>set (blocks_of d k). on_disk d b \<and> 2 \<le> b \<and> \<not> reach d b)"

definition disk_inv :: "disk \<Rightarrow> bool" where
  "disk_inv d \<longleftrightarrow> wf_fs d \<and> (\<forall>k. reach d k \<longrightarrow> owns_ok d k) \<and>
     (\<forall>j k. reach d j \<longrightarrow> reach d k \<longrightarrow> j \<noteq> k \<longrightarrow> set (blocks_of d j) \<inter> set (blocks_of d k) = {})"

definition marked :: "fs_state \<Rightarrow> bool" where
  "marked s \<longleftrightarrow> used (block_bitmap s) 0 \<and> used (block_bitmap s) 1 \<and>
     (\<forall>k. reach (disk s) k \<longrightarrow>
        k < 32768 \<and> used (block_bitmap s) k \<and>
        (\<forall>b\<in>set (blocks_of (disk s) k). b < 32768 \<and> used (block_bitmap s) b))"

text \<open>
  The directories form a tree: a node has one link, the root has none, and the names of a
  directory are distinct.  A link is a directory and the slot of a valid entry.
\<close>

definition links :: "disk \<Rightarrow> (nat \<times> nat) set" where
  "links d = {(j, i). reach d j \<and> is_dir d j \<and> i < length (dir_at d j) \<and> d_valid (dir_at d j ! i)}"

definition target :: "disk \<Rightarrow> nat \<times> nat \<Rightarrow> nat" where
  "target d = (\<lambda>(j, i). unat (d_inode (dir_at d j ! i)))"

definition names_unique :: "fs_dirent list \<Rightarrow> bool" where
  "names_unique es \<longleftrightarrow> (\<forall>i<length es. \<forall>j<length es. \<forall>n.
     entry_named n (es ! i) \<longrightarrow> entry_named n (es ! j) \<longrightarrow> i = j)"

definition tree_ok :: "disk \<Rightarrow> bool" where
  "tree_ok d \<longleftrightarrow> inj_on (target d) (links d) \<and> 2 \<notin> target d ` links d \<and>
     (\<forall>k. reach d k \<longrightarrow> is_dir d k \<longrightarrow> names_unique (dir_at d k))"

definition fs_inv :: "fs_state \<Rightarrow> bool" where
  "fs_inv s \<longleftrightarrow> disk_inv (disk s) \<and> tree_ok (disk s) \<and> bitmap_ok s \<and> marked s"

lemma disk_invD:
  assumes "disk_inv d"
  shows "wf_fs d" "wf_disk d" "reach d k \<Longrightarrow> node_ok d k" "reach d k \<Longrightarrow> owns_ok d k"
    "reach d k \<Longrightarrow> on_disk d k"
    "reach d j \<Longrightarrow> reach d k \<Longrightarrow> j \<noteq> k \<Longrightarrow> set (blocks_of d j) \<inter> set (blocks_of d k) = {}"
  using assms by (auto simp: disk_inv_def wf_fs_def node_ok_def)

lemma dir_blk_owned: "is_dir d k \<Longrightarrow> dir_blk d k \<in> set (blocks_of d k)"
  by (simp add: blocks_of_def inode_blocks_def is_dir_def dir_blk_def)

text \<open>An inode block is never the entry block of a directory.\<close>

lemma dir_blk_not_inode:
  "disk_inv d \<Longrightarrow> reach d j \<Longrightarrow> is_dir d j \<Longrightarrow> reach d k \<Longrightarrow> dir_blk d j \<noteq> k"
  using disk_invD(4) [of d j] dir_blk_owned [of d j] by (auto simp: owns_ok_def)

section \<open>Images with the same name space\<close>

definition same_names :: "disk \<Rightarrow> disk \<Rightarrow> bool" where
  "same_names d d' \<longleftrightarrow>
     (\<forall>k. reach d k \<longrightarrow> is_dir d' k = is_dir d k \<and> (is_dir d k \<longrightarrow> dir_at d' k = dir_at d k))"

lemma same_names_reach:
  assumes "same_names d d'"
  shows "reach d' k = reach d k"
proof
  assume "reach d' k"
  then show "reach d k"
  proof induction
    case (reach_entry k e)
    then show ?case
      using assms by (auto simp: same_names_def intro: reach.reach_entry)
  qed (rule reach_root)
next
  assume "reach d k"
  then show "reach d' k"
  proof induction
    case (reach_entry k e)
    then have "is_dir d' k" "e \<in> set (dir_at d' k)"
      using assms by (auto simp: same_names_def)
    then show ?case
      using reach_entry by (auto intro: reach.reach_entry)
  qed (rule reach_root)
qed

lemma same_names_resolve:
  assumes "same_names d d'" "reach d k"
  shows "resolve d' k cs = resolve d k cs"
  using assms(2)
proof (induction cs arbitrary: k)
  case (Cons c cs)
  have "is_dir d' k = is_dir d k" "is_dir d k \<Longrightarrow> dir_at d' k = dir_at d k"
    using assms(1) Cons.prems by (auto simp: same_names_def)
  then show ?case
    using Cons.IH reach_lookup [OF Cons.prems] by (auto split: option.splits)
qed simp

lemma same_names_tree_ok:
  assumes "same_names d d'" "tree_ok d"
  shows "tree_ok d'"
proof -
  have links: "links d' = links d"
    using assms(1) by (auto simp: links_def same_names_reach [OF assms(1)]) (auto simp: same_names_def)
  moreover have "target d' l = target d l" if "l \<in> links d" for l
    using assms(1) that by (auto simp: links_def target_def same_names_def)
  moreover have "names_unique (dir_at d' k)" if "reach d k" "is_dir d' k" for k
    using assms that by (auto simp: tree_ok_def same_names_def)
  ultimately show ?thesis
    using assms(2) by (auto simp: tree_ok_def inj_on_def same_names_reach [OF assms(1)])
qed

lemmas [frame_rules] = same_names_reach same_names_resolve same_names_tree_ok

section \<open>Rewriting an inode in place\<close>

text \<open>
  The inode \<open>i\<close> may replace the inode of \<open>k\<close>: same type, a directory keeps its entry block, and the
  blocks of \<open>i\<close> belong to nobody else.
\<close>

definition inode_update :: "disk \<Rightarrow> nat \<Rightarrow> fs_inode \<Rightarrow> bool" where
  "inode_update d k i \<longleftrightarrow>
     disk_inv d \<and> reach d k \<and> inode_ok i \<and> S_ISDIR (i_mode i) = is_dir d k \<and>
     (is_dir d k \<longrightarrow> i_ptrs i ! 0 = i_ptrs (inode_at d k) ! 0) \<and> distinct (inode_blocks i) \<and>
     (\<forall>b\<in>set (inode_blocks i). on_disk d b \<and> 2 \<le> b \<and> \<not> reach d b \<and>
        (\<forall>j. reach d j \<longrightarrow> j \<noteq> k \<longrightarrow> b \<notin> set (blocks_of d j)))"

lemma inode_updateD:
  assumes "inode_update d k i"
  shows "disk_inv d" "reach d k" "inode_ok i" "S_ISDIR (i_mode i) = is_dir d k"
    "is_dir d k \<Longrightarrow> i_ptrs i ! 0 = i_ptrs (inode_at d k) ! 0" "on_disk d k" "k < length d"
  using assms disk_invD(5) [of d k] by (auto simp: inode_update_def on_disk_def)

text \<open>Fewer blocks of the same inode, or the same.\<close>

lemma inode_update_subset:
  assumes "disk_inv d" "reach d k" "inode_ok i" "S_ISDIR (i_mode i) = is_dir d k"
    "is_dir d k \<Longrightarrow> i_ptrs i ! 0 = i_ptrs (inode_at d k) ! 0" "distinct (inode_blocks i)"
    "set (inode_blocks i) \<subseteq> set (blocks_of d k)"
  shows "inode_update d k i"
  using assms disk_invD(4) [OF assms(1,2)] disk_invD(6) [OF assms(1,2)]
  by (auto simp: inode_update_def owns_ok_def)

lemma inode_update_attr:
  assumes "disk_inv d" "reach d k" "S_ISDIR (i_mode i) = is_dir d k"
    "i_ptrs i = i_ptrs (inode_at d k)"
  shows "inode_update d k i"
proof -
  have eq: "inode_blocks i = blocks_of d k"
    using assms(3,4) by (simp add: blocks_of_def inode_blocks_def is_dir_def)
  have "inode_ok i"
    using inode_at_ok [of d k] disk_invD(2,5) [OF assms(1)] assms(2,4)
    by (auto simp: inode_ok_def on_disk_def)
  moreover have "distinct (blocks_of d k)"
    using disk_invD(4) [OF assms(1,2)] by (simp add: owns_ok_def)
  ultimately show ?thesis
    using inode_update_subset [OF assms(1,2) _ assms(3)] assms(4) eq by simp
qed

lemma inode_at_update:
  "k < length d \<Longrightarrow> inode_ok i \<Longrightarrow>
     inode_at (d[k := encode_inode i]) j = (if j = k then i else inode_at d j)"
  by (auto simp: inode_at_def)

lemma inode_update_shape:
  assumes "inode_update d k i"
  defines "d' \<equiv> d[k := encode_inode i]"
  shows "inode_at d' j = (if j = k then i else inode_at d j)" "is_dir d' j = is_dir d j"
    "is_dir d j \<Longrightarrow> dir_blk d' j = dir_blk d j"
    "blocks_of d' j = (if j = k then inode_blocks i else blocks_of d j)"
    "on_disk d' j = on_disk d j" "b \<noteq> k \<Longrightarrow> d' ! b = d ! b"
proof -
  note u = inode_updateD [OF assms(1)]
  show at: "inode_at d' j = (if j = k then i else inode_at d j)"
    using u by (simp add: d'_def inode_at_update)
  show "is_dir d' j = is_dir d j"
    using u by (simp add: is_dir_def at)
  show "is_dir d j \<Longrightarrow> dir_blk d' j = dir_blk d j"
    using u by (auto simp: dir_blk_def at)
  show "blocks_of d' j = (if j = k then inode_blocks i else blocks_of d j)"
    using u by (simp add: blocks_of_def at)
qed (simp_all add: d'_def on_disk_def)

lemma inode_update_same_names:
  assumes "inode_update d k i"
  shows "same_names d (d[k := encode_inode i])"
  unfolding same_names_def
  using dir_blk_not_inode [OF inode_updateD(1) [OF assms] _ _ inode_updateD(2) [OF assms]]
  by (auto simp: inode_update_shape [OF assms] dir_at_def)

lemma inode_update_reach:
  "inode_update d k i \<Longrightarrow> reach (d[k := encode_inode i]) j = reach d j"
  by (rule same_names_reach [OF inode_update_same_names])

lemma inode_update_disk_inv:
  assumes "inode_update d k i"
  shows "disk_inv (d[k := encode_inode i])"
proof -
  let ?d = "d[k := encode_inode i]"
  note u = inode_updateD [OF assms] and sh = inode_update_shape [OF assms]
    and rc = inode_update_reach [OF assms]
  have "wf_disk ?d"
    using disk_invD(2) [OF u(1)] wf_put_block [of d "encode_inode i" k] u(3,7)
    by (simp add: put_block_def)
  moreover have "node_ok ?d j" if "reach d j" for j
    using disk_invD(3) [OF u(1) that] inode_update_same_names [OF assms] that
    by (auto simp: node_ok_def sh same_names_def)
  moreover have "owns_ok ?d j" if "reach d j" for j
    using disk_invD(4) [OF u(1) that] assms by (auto simp: owns_ok_def sh rc inode_update_def)
  moreover have "set (blocks_of ?d j) \<inter> set (blocks_of ?d l) = {}"
    if "reach d j" "reach d l" "j \<noteq> l" for j l
    using disk_invD(6) [OF u(1) that] that assms by (auto simp: sh inode_update_def)
  ultimately show ?thesis
    using disk_invD(1) [OF u(1)] by (auto simp: disk_inv_def wf_fs_def sh rc)
qed

lemma inode_update_fs_inv:
  assumes "fs_inv s" "inode_update (disk s) k i" "length m = FS_BLOCK_SIZE"
    "used m 0" "used m 1" "\<forall>j. reach (disk s) j \<longrightarrow> used m j"
    "\<forall>b\<in>set (inode_blocks i). b < 32768 \<and> used m b"
    "\<forall>j b. reach (disk s) j \<longrightarrow> j \<noteq> k \<longrightarrow> b \<in> set (blocks_of (disk s) j) \<longrightarrow> used m b"
  shows "fs_inv (s\<lparr>disk := (disk s)[k := encode_inode i], block_bitmap := m\<rparr>)"
  using assms inode_update_disk_inv [OF assms(2)] same_names_tree_ok [OF inode_update_same_names [OF assms(2)]]
  by (auto simp: fs_inv_def bitmap_ok_def marked_def inode_update_reach [OF assms(2)]
      inode_update_shape [OF assms(2)])

lemma inode_update_fs_inv_attr:
  assumes "fs_inv s" "inode_update (disk s) k i" "inode_blocks i = blocks_of (disk s) k"
  shows "fs_inv (s\<lparr>disk := (disk s)[k := encode_inode i]\<rparr>)"
  using inode_update_fs_inv [OF assms(1,2), of "block_bitmap s"] assms inode_updateD(2) [OF assms(2)]
  by (simp add: fs_inv_def marked_def bitmap_ok_def)

lemma write_inode_on_disk:
  "on_disk (disk s) k \<Longrightarrow>
     write_inode s i (int k) = Done (s\<lparr>disk := (disk s)[k := encode_inode i]\<rparr>)"
  by (simp add: write_inode_def write_block_def block_write_on_disk)

section \<open>Reading the inode of a path\<close>

lemma resolve_reach:
  "reach d k \<Longrightarrow> resolve d k cs = int j \<Longrightarrow> reach d j"
proof (induction cs arbitrary: k)
  case (Cons c cs)
  show ?case
  proof (cases "is_dir d k")
    case True
    then show ?thesis
      using Cons reach_lookup [OF Cons.prems(1) True]
      by (cases "lookup_dirent (dir_at d k) c") (auto simp: errno_defs)
  qed (use Cons in \<open>simp add: errno_defs\<close>)
qed simp

text \<open>\<open>resolve\<close> answers with a node that is reachable, or with one of the two error codes.\<close>

lemma resolve_total:
  "(\<exists>j. resolve d k cs = int j) \<or> resolve d k cs = - ENOENT \<or> resolve d k cs = - ENOTDIR"
  by (induction cs arbitrary: k) (auto split: option.splits)

text \<open>A path that \<open>path_to_inum\<close> can translate.\<close>

definition good_path :: "string list \<Rightarrow> bool" where
  "good_path cs \<longleftrightarrow> list_all comp_ok cs \<and> fits 0 cs"

lemma path_to_inum_good:
  "disk_inv (disk s) \<Longrightarrow> good_path cs \<Longrightarrow>
     path_to_inum env s (path_of cs) = Done (resolve (disk s) 2 cs)"
  by (simp add: good_path_def path_to_inum_path_of disk_invD(1))

lemma read_inode_reach:
  "disk_inv d \<Longrightarrow> reach d k \<Longrightarrow> read_inode d old (int k) = inode_at d k"
  by (simp add: read_inode_on_disk disk_invD(5))

end
