(* ===== verification/Fs_Attr.thy ===== *)
theory Fs_Attr
  imports Fs_Inv
begin

text \<open>
  Attributes and block release in Lab 5: \<^verbatim>\<open>fs_getattr\<close>, \<^verbatim>\<open>fs_readdir\<close>, \<^verbatim>\<open>fs_chmod\<close>, \<^verbatim>\<open>fs_utime\<close>,
  \<^verbatim>\<open>fs_truncate\<close>, \<^verbatim>\<open>fs_statfs\<close>, \<^verbatim>\<open>fs_init\<close>; each on the inode that the path resolves to.
\<close>

section \<open>Entering a handler\<close>

text \<open>What a handler has after its first statements when the path resolves to node \<open>k\<close>.\<close>

lemma handler_entry:
  assumes "disk_inv (disk s)" "good_path cs" "resolve (disk s) 2 cs = int k"
  shows "path_to_inum env s (path_of cs) = Done (int k)" "reach (disk s) k" "on_disk (disk s) k"
    "read_inode (disk s) old (int k) = inode_at (disk s) k"
proof -
  show "path_to_inum env s (path_of cs) = Done (int k)"
    using path_to_inum_good [OF assms(1,2)] assms(3) by simp
  show k: "reach (disk s) k"
    by (rule resolve_reach [OF reach_root assms(3)])
  show "on_disk (disk s) k" "read_inode (disk s) old (int k) = inode_at (disk s) k"
    using disk_invD(5) [OF assms(1) k] read_inode_reach [OF assms(1) k] by simp_all
qed

section \<open>fs\_chmod, fs\_utime\<close>

lemma chmod_type: "mode AND S_IFMT = 0 \<Longrightarrow> (mode OR (old AND S_IFMT)) AND S_IFMT = old AND S_IFMT"
  by (simp add: bit.conj_disj_distrib2 and.assoc)

lemma or_masked_perm:
  fixes m :: "'a::len word"
  assumes "mode AND m = 0"
  shows "(mode OR (old AND m)) AND NOT m = mode"
proof (rule bit_word_eqI)
  fix n
  assume "n < LENGTH('a)"
  moreover have "\<not> (bit mode n \<and> bit m n)"
    using assms by (metis bit_0_eq bit_and_iff bot_apply bot_bool_def)
  ultimately show "bit ((mode OR (old AND m)) AND NOT m) n = bit mode n"
    by (auto simp: bit_and_iff bit_or_iff bit_not_iff)
qed

lemma fs_chmod_node:
  assumes "fs_inv s" "good_path cs" "resolve (disk s) 2 cs = int k" "mode AND S_IFMT = 0"
  defines "i \<equiv> (inode_at (disk s) k)\<lparr>i_mode := mode OR (i_mode (inode_at (disk s) k) AND S_IFMT)\<rparr>"
  shows "fs_chmod env s (path_of cs) mode = Done (0, s\<lparr>disk := (disk s)[k := encode_inode i]\<rparr>)"
    "inode_update (disk s) k i" "fs_inv (s\<lparr>disk := (disk s)[k := encode_inode i]\<rparr>)"
proof -
  have inv: "disk_inv (disk s)"
    using assms(1) by (simp add: fs_inv_def)
  note h = handler_entry [OF inv assms(2,3)]
  show "fs_chmod env s (path_of cs) mode = Done (0, s\<lparr>disk := (disk s)[k := encode_inode i]\<rparr>)"
    using h by (simp add: fs_chmod_def write_inode_on_disk i_def Let_def)
  have type: "S_ISDIR (i_mode i) = is_dir (disk s) k" and ptrs: "i_ptrs i = i_ptrs (inode_at (disk s) k)"
    using chmod_type [OF assms(4)] by (simp_all add: i_def S_ISDIR_def is_dir_def)
  then show u: "inode_update (disk s) k i"
    by (rule inode_update_attr [OF inv h(2)])
  have "inode_blocks i = blocks_of (disk s) k"
    using type ptrs by (simp add: inode_blocks_def blocks_of_def is_dir_def)
  then show "fs_inv (s\<lparr>disk := (disk s)[k := encode_inode i]\<rparr>)"
    by (rule inode_update_fs_inv_attr [OF assms(1) u])
qed

lemma fs_utime_node:
  fixes env :: fs_env and ut :: "int option"
  assumes "fs_inv s" "good_path cs" "resolve (disk s) 2 cs = int k"
  defines "i \<equiv> (inode_at (disk s) k)\<lparr>i_mtime :=
      (case ut of None \<Rightarrow> of_int (env_time env) | Some t \<Rightarrow> of_int t)\<rparr>"
  shows "fs_utime env s (path_of cs) ut = Done (0, s\<lparr>disk := (disk s)[k := encode_inode i]\<rparr>)"
    "inode_update (disk s) k i" "fs_inv (s\<lparr>disk := (disk s)[k := encode_inode i]\<rparr>)"
proof -
  have inv: "disk_inv (disk s)"
    using assms(1) by (simp add: fs_inv_def)
  note h = handler_entry [OF inv assms(2,3)]
  show "fs_utime env s (path_of cs) ut = Done (0, s\<lparr>disk := (disk s)[k := encode_inode i]\<rparr>)"
    using h by (simp add: fs_utime_def write_inode_on_disk i_def Let_def)
  show u: "inode_update (disk s) k i"
    by (rule inode_update_attr [OF inv h(2)]) (simp_all add: i_def is_dir_def)
  have "inode_blocks i = blocks_of (disk s) k"
    by (simp add: i_def inode_blocks_def blocks_of_def)
  then show "fs_inv (s\<lparr>disk := (disk s)[k := encode_inode i]\<rparr>)"
    by (rule inode_update_fs_inv_attr [OF assms(1) u])
qed

section \<open>Releasing blocks\<close>

abbreviation unmark :: "8 word list \<Rightarrow> nat list \<Rightarrow> 8 word list" where
  "unmark m bs \<equiv> foldl (\<lambda>m k. mark m k False) m bs"

lemma length_unmark [simp]: "length (unmark m bs) = length m"
  by (induction bs arbitrary: m) simp_all

lemma free_ptrs_Done:
  assumes "bitmap_ok s" "\<forall>p\<in>set ps. p \<noteq> 0 \<longrightarrow> unat p < 32768"
  shows "free_ptrs ps s =
    Done (s\<lparr>block_bitmap := unmark (block_bitmap s) (map unat (filter (\<lambda>p. p \<noteq> 0) ps))\<rparr>)"
  using assms
proof (induction ps arbitrary: s)
  case (Cons p ps)
  show ?case
  proof (cases "p = 0")
    case False
    then have "free_blk s (sint p) = Done (s\<lparr>block_bitmap := mark (block_bitmap s) (unat p) False\<rparr>)"
      using Cons.prems free_blk_Done [OF Cons.prems(1), of "unat p"] sint_unat32 [of p] by simp
    then show ?thesis
      using False Cons.IH [of "s\<lparr>block_bitmap := mark (block_bitmap s) (unat p) False\<rparr>"] Cons.prems
      by (simp add: bitmap_ok_def)
  qed (use Cons in simp)
qed simp

lemma used_unmark:
  assumes "bitmap_ok s" "\<forall>b\<in>set bs. b < 32768" "k < 32768"
  shows "used (unmark (block_bitmap s) bs) k \<longleftrightarrow> used (block_bitmap s) k \<and> k \<notin> set bs"
  using bm.get_puts [of bs "block_bitmap s" k False] assms by (simp add: in_map_bitmap_ok)

lemma fs_truncate_file:
  fixes env :: fs_env
  assumes "fs_inv s" "good_path cs" "resolve (disk s) 2 cs = int k" "\<not> is_dir (disk s) k"
  defines "i \<equiv> (inode_at (disk s) k)\<lparr>i_size := 0, i_mtime := of_int (env_time env),
      i_ptrs := replicate NUM_PTRS_INODE 0\<rparr>"
    and "m \<equiv> unmark (block_bitmap s) (blocks_of (disk s) k)"
  shows "fs_truncate env s (path_of cs) 0 =
      Done (0, s\<lparr>disk := (disk s)[k := encode_inode i], block_bitmap := m\<rparr>)"
    "inode_update (disk s) k i"
    "fs_inv (s\<lparr>disk := (disk s)[k := encode_inode i], block_bitmap := m\<rparr>)"
proof -
  have inv: "disk_inv (disk s)" and bm: "bitmap_ok s" and mk: "marked s"
    using assms(1) by (simp_all add: fs_inv_def)
  note h = handler_entry [OF inv assms(2,3)]
  have ok: "inode_ok (inode_at (disk s) k)"
    using inode_at_ok [OF disk_invD(2) [OF inv]] h(3) by (simp add: on_disk_def)
  have blk: "blocks_of (disk s) k = map unat (filter (\<lambda>p. p \<noteq> 0) (i_ptrs (inode_at (disk s) k)))"
    using assms(4) by (simp add: blocks_of_def inode_blocks_def is_dir_def)
  have small: "\<forall>b\<in>set (blocks_of (disk s) k). b < 32768"
    using mk h(2) by (simp add: marked_def)
  have "free_ptrs (i_ptrs (inode_at (disk s) k)) s = Done (s\<lparr>block_bitmap := m\<rparr>)"
    using free_ptrs_Done [OF bm, of "i_ptrs (inode_at (disk s) k)"] small by (auto simp: m_def blk)
  moreover have "map (\<lambda>_. 0 :: 32 word) (i_ptrs (inode_at (disk s) k)) = replicate NUM_PTRS_INODE 0"
    using ok by (simp add: inode_ok_def map_replicate_const)
  ultimately show "fs_truncate env s (path_of cs) 0 =
      Done (0, s\<lparr>disk := (disk s)[k := encode_inode i], block_bitmap := m\<rparr>)"
    using h assms(4) write_inode_on_disk [of "s\<lparr>block_bitmap := m\<rparr>" k i]
    by (simp add: fs_truncate_def is_dir_def i_def Let_def)
  have type: "S_ISDIR (i_mode i) = is_dir (disk s) k" and none: "inode_blocks i = []"
    using assms(4) by (simp_all add: i_def is_dir_def inode_blocks_def)
  show u: "inode_update (disk s) k i"
    using none assms(4) by (intro inode_update_subset [OF inv h(2) _ type]) (simp_all add: i_def inode_ok_def)
  have keep: "used m b" if "b < 32768" "used (block_bitmap s) b" "b \<notin> set (blocks_of (disk s) k)" for b
    using used_unmark [OF bm small that(1)] that by (simp add: m_def)
  have own: "owns_ok (disk s) k"
    by (rule disk_invD(4) [OF inv h(2)])
  show "fs_inv (s\<lparr>disk := (disk s)[k := encode_inode i], block_bitmap := m\<rparr>)"
  proof (rule inode_update_fs_inv [OF assms(1) u])
    show "length m = FS_BLOCK_SIZE"
      using bm by (simp add: m_def bitmap_ok_def)
    show "used m 0" "used m 1"
      using mk own by (auto intro!: keep simp: marked_def owns_ok_def)
    show "\<forall>j. reach (disk s) j \<longrightarrow> used m j"
      using mk own by (auto intro!: keep simp: marked_def owns_ok_def)
    show "\<forall>j b. reach (disk s) j \<longrightarrow> j \<noteq> k \<longrightarrow> b \<in> set (blocks_of (disk s) j) \<longrightarrow> used m b"
      using mk disk_invD(6) [OF inv _ h(2)] by (fastforce intro!: keep simp: marked_def)
  qed (simp add: none)
qed

end
