(* ===== verification/Fs_Tree.thy ===== *)
theory Fs_Tree
  imports Fs_Attr
begin

text \<open>
  The name space of Lab 5 as a tree of directories: adding an entry for a fresh node and removing
  the entry of a childless node, each as one update of an entry block, with its effect on
  reachability, on the lookups and on the invariants.
\<close>

section \<open>Paths\<close>

lemma resolve_append:
  "resolve d k cs = int j \<Longrightarrow> resolve d k (cs @ ds) = resolve d j ds"
  by (induction cs arbitrary: k) (auto simp: errno_defs split: if_splits option.splits)

lemma resolve_snoc:
  "resolve d k cs = int j \<Longrightarrow> is_dir d j \<Longrightarrow>
     resolve d k (cs @ [c]) = (case lookup_dirent (dir_at d j) c of None \<Rightarrow> - ENOENT | Some m \<Rightarrow> int m)"
  by (simp add: resolve_append split: option.split)

text \<open>A walk that succeeds keeps its result when lookups are only added.\<close>

lemma resolve_mono:
  assumes "\<And>j n m. reach d j \<Longrightarrow> is_dir d j \<Longrightarrow> lookup_dirent (dir_at d j) n = Some m \<Longrightarrow>
      lookup_dirent (dir_at d' j) n = Some m" "\<And>j. reach d j \<Longrightarrow> is_dir d' j = is_dir d j"
    "reach d k" "resolve d k cs = int j"
  shows "resolve d' k cs = int j"
  using assms(3,4)
proof (induction cs arbitrary: k)
  case (Cons c cs)
  then obtain m where m: "is_dir d k" "lookup_dirent (dir_at d k) c = Some m" "resolve d m cs = int j"
    by (auto simp: errno_defs split: if_splits option.splits)
  then show ?case
    using Cons.IH reach_lookup [OF Cons.prems(1) m(1,2)] assms(1) [OF Cons.prems(1) m(1,2)]
      assms(2) [OF Cons.prems(1)] by simp
qed simp

section \<open>Lookups in an entry block\<close>

lemma lookup_None_iff: "lookup_dirent es n = None \<longleftrightarrow> (\<forall>e\<in>set es. \<not> entry_named n e)"
  by (auto simp: lookup_dirent_def find_None_iff)

lemma lookup_unique:
  assumes "names_unique es" "i < length es" "entry_named n (es ! i)"
  shows "lookup_dirent es n = Some (unat (d_inode (es ! i)))"
proof -
  obtain e where e: "find (entry_named n) es = Some e"
    using assms(2,3) by (cases "find (entry_named n) es") (auto simp: find_None_iff)
  then obtain j where "j < length es" "entry_named n (es ! j)" "e = es ! j"
    by (auto simp: find_Some_iff)
  with assms have "e = es ! i"
    by (auto simp: names_unique_def)
  with e show ?thesis by (simp add: lookup_dirent_def)
qed

lemma lookup_Some_iff:
  assumes "names_unique es"
  shows "lookup_dirent es n = Some m \<longleftrightarrow>
    (\<exists>i<length es. entry_named n (es ! i) \<and> unat (d_inode (es ! i)) = m)"
proof
  assume "lookup_dirent es n = Some m"
  then show "\<exists>i<length es. entry_named n (es ! i) \<and> unat (d_inode (es ! i)) = m"
    by (auto simp: lookup_dirent_def find_Some_iff)
next
  assume "\<exists>i<length es. entry_named n (es ! i) \<and> unat (d_inode (es ! i)) = m"
  then show "lookup_dirent es n = Some m"
    using lookup_unique [OF assms] by blast
qed

text \<open>Filling a free slot with a name that is not there, and clearing a slot.\<close>

lemma names_unique_update:
  assumes "names_unique es" "i < length es"
    "\<And>j n. j < length es \<Longrightarrow> j \<noteq> i \<Longrightarrow> entry_named n e \<Longrightarrow> \<not> entry_named n (es ! j)"
  shows "names_unique (es[i := e])"
  unfolding names_unique_def
proof (intro allI impI)
  fix a b n
  assume a: "a < length (es[i := e])" "entry_named n (es[i := e] ! a)"
    and b: "b < length (es[i := e])" "entry_named n (es[i := e] ! b)"
  have at: "es[i := e] ! j = (if j = i then e else es ! j)" for j
    using assms(2) by simp
  show "a = b"
  proof (cases "a = i \<or> b = i")
    case True
    then show ?thesis
      using a b assms(3) [of a n] assms(3) [of b n] at by (metis length_list_update)
  next
    case False
    then show ?thesis
      using a b assms(1) at unfolding names_unique_def by (metis length_list_update)
  qed
qed

lemma names_unique_fill:
  "names_unique es \<Longrightarrow> i < length es \<Longrightarrow> lookup_dirent es c = None \<Longrightarrow> entry_named c e \<Longrightarrow>
     names_unique (es[i := e])"
  by (rule names_unique_update) (auto simp: lookup_None_iff entry_named_def)

lemma lookup_fill:
  assumes "names_unique es" "i < length es" "\<not> d_valid (es ! i)" "lookup_dirent es c = None"
    "entry_named c e"
  shows "lookup_dirent (es[i := e]) n =
    (if n = c then Some (unat (d_inode e)) else lookup_dirent es n)"
proof (cases "n = c")
  case True
  then show ?thesis
    using lookup_unique [OF names_unique_fill [OF assms(1,2,4,5)], of i] assms(2,5) by simp
next
  case False
  have "find (entry_named n) (es[i := e]) = find (entry_named n) es"
  proof -
    have "\<not> entry_named n (es ! i)" "\<not> entry_named n e"
      using assms(3,5) False by (auto simp: entry_named_def)
    then show ?thesis
      using assms(2) by (induction es arbitrary: i) (auto split: nat.splits)
  qed
  then show ?thesis
    using False by (simp add: lookup_dirent_def)
qed

lemma names_unique_clear:
  "names_unique es \<Longrightarrow> i < length es \<Longrightarrow> \<not> d_valid e \<Longrightarrow> names_unique (es[i := e])"
  by (rule names_unique_update) (auto simp: entry_named_def)

lemma lookup_clear:
  assumes "names_unique es" "i < length es" "entry_named c (es ! i)" "\<not> d_valid e"
  shows "lookup_dirent (es[i := e]) n = (if n = c then None else lookup_dirent es n)"
proof (cases "n = c")
  case True
  have "\<not> entry_named c x" if "x \<in> set (es[i := e])" for x
  proof -
    from that obtain j where j: "j < length es" "x = es[i := e] ! j"
      by (auto simp: in_set_conv_nth)
    then show ?thesis
      using assms by (cases "j = i") (auto simp: names_unique_def entry_named_def)
  qed
  then show ?thesis
    using True by (simp add: lookup_None_iff)
next
  case False
  have "find (entry_named n) (es[i := e]) = find (entry_named n) es"
  proof -
    have "\<not> entry_named n (es ! i)" "\<not> entry_named n e"
      using assms(3,4) False by (auto simp: entry_named_def)
    then show ?thesis
      using assms(2) by (induction es arbitrary: i) (auto split: nat.splits)
  qed
  then show ?thesis
    using False by (simp add: lookup_dirent_def)
qed

section \<open>Blocks that nobody owns\<close>

definition unowned :: "disk \<Rightarrow> nat \<Rightarrow> bool" where
  "unowned d b \<longleftrightarrow> \<not> reach d b \<and> (\<forall>j. reach d j \<longrightarrow> b \<notin> set (blocks_of d j))"

text \<open>Blocks that hold neither a node nor the entries of a directory: writing one keeps the name space.\<close>

definition not_meta :: "disk \<Rightarrow> nat \<Rightarrow> bool" where
  "not_meta d b \<longleftrightarrow> \<not> reach d b \<and> (\<forall>j. reach d j \<longrightarrow> is_dir d j \<longrightarrow> b \<notin> set (blocks_of d j))"

lemma unowned_not_meta: "unowned d b \<Longrightarrow> not_meta d b"
  by (simp add: unowned_def not_meta_def)

lemma put_block_keeps: "j < length d \<Longrightarrow> j \<noteq> k \<Longrightarrow> put_block d k b ! j = d ! j"
  by (simp add: nth_put_block)

lemma on_disk_put: "on_disk d j \<Longrightarrow> on_disk (put_block d k b) j"
  by (auto simp: on_disk_def length_put_block)

lemma put_data:
  assumes "disk_inv d" "not_meta d k" "length b = 4096"
  shows "same_names d (put_block d k b)" "disk_inv (put_block d k b)"
    "reach d j \<Longrightarrow> inode_at (put_block d k b) j = inode_at d j"
    "reach d j \<Longrightarrow> blocks_of (put_block d k b) j = blocks_of d j"
proof -
  let ?d = "put_block d k b"
  have at: "inode_at ?d j = inode_at d j" if "reach d j" for j
  proof -
    have "j < length d" "j \<noteq> k"
      using disk_invD(5) [OF assms(1) that] assms(2) that by (auto simp: on_disk_def not_meta_def)
    then show ?thesis by (simp add: inode_at_def put_block_keeps)
  qed
  then show "reach d j \<Longrightarrow> inode_at ?d j = inode_at d j" .
  show blk: "reach d j \<Longrightarrow> blocks_of ?d j = blocks_of d j" for j
    by (simp add: blocks_of_def at)
  have dir: "is_dir ?d j = is_dir d j" "dir_blk ?d j = dir_blk d j" if "reach d j" for j
    using at [OF that] by (simp_all add: is_dir_def dir_blk_def)
  have ent: "dir_at ?d j = dir_at d j" if "reach d j" "is_dir d j" for j
  proof -
    have "dir_blk d j < length d" "dir_blk d j \<noteq> k"
      using disk_invD(4) [OF assms(1) that(1)] dir_blk_owned [OF that(2)] assms(2) that
      by (auto simp: owns_ok_def on_disk_def not_meta_def)
    then show ?thesis
      using dir [OF that(1)] by (simp add: dir_at_def put_block_keeps)
  qed
  show same: "same_names d ?d"
    using dir ent by (simp add: same_names_def)
  note rc = same_names_reach [OF same]
  have "wf_disk ?d"
    using wf_put_block [OF disk_invD(2) [OF assms(1)] assms(3)] .
  moreover have "node_ok ?d j" if "reach d j" for j
    using disk_invD(3) [OF assms(1) that] dir [OF that] ent [OF that] on_disk_put
    by (auto simp: node_ok_def)
  moreover have "owns_ok ?d j" if "reach d j" for j
    using disk_invD(4) [OF assms(1) that] blk [OF that] on_disk_put by (auto simp: owns_ok_def rc)
  ultimately show "disk_inv ?d"
    using disk_invD(1,6) [OF assms(1)] dir [OF reach_root] by (auto simp: disk_inv_def wf_fs_def rc blk)
qed

lemmas put_unowned = put_data [OF _ unowned_not_meta]

lemma unowned_put:
  assumes "disk_inv d" "unowned d k" "length b = 4096"
  shows "unowned (put_block d k b) j \<longleftrightarrow> unowned d j"
  using same_names_reach [OF put_unowned(1) [OF assms]] put_unowned(4) [OF assms]
  by (auto simp: unowned_def)

section \<open>Replacing the entry block of a directory\<close>

text \<open>Writing the entry block of \<open>p\<close> changes no inode and no other directory.\<close>

lemma write_entries:
  assumes "disk_inv d" "reach d p" "is_dir d p" "dirents_ok es"
  defines "d' \<equiv> d[dir_blk d p := encode_dirents es]"
  shows "b \<noteq> dir_blk d p \<Longrightarrow> d' ! b = d ! b"
    "j \<noteq> dir_blk d p \<Longrightarrow> inode_at d' j = inode_at d j"
    "dir_at d' p = es"
    "j \<noteq> dir_blk d p \<Longrightarrow> dir_blk d j \<noteq> dir_blk d p \<Longrightarrow> dir_at d' j = dir_at d j"
    "on_disk d' b = on_disk d b" "wf_disk d'"
proof -
  have B: "dir_blk d p < length d" "p \<noteq> dir_blk d p"
    using disk_invD(4) [OF assms(1,2)] dir_blk_owned [OF assms(3)] assms(2)
    by (auto simp: owns_ok_def on_disk_def)
  show blk: "b \<noteq> dir_blk d p \<Longrightarrow> d' ! b = d ! b" for b
    by (simp add: d'_def)
  then show at: "j \<noteq> dir_blk d p \<Longrightarrow> inode_at d' j = inode_at d j" for j
    by (simp add: inode_at_def)
  show "dir_at d' p = es"
    using B assms(4) at [OF B(2)] by (simp add: dir_at_def dir_blk_def d'_def)
  show "j \<noteq> dir_blk d p \<Longrightarrow> dir_blk d j \<noteq> dir_blk d p \<Longrightarrow> dir_at d' j = dir_at d j" for j
    using at [of j] by (simp add: dir_at_def dir_blk_def blk)
  show "on_disk d' b = on_disk d b"
    by (simp add: d'_def on_disk_def)
  show "wf_disk d'"
    using wf_put_block [OF disk_invD(2) [OF assms(1)], of "encode_dirents es" "dir_blk d p"] B(1) assms(4)
    by (simp add: d'_def put_block_def)
qed

text \<open>The entry block of a directory is no other node's block.\<close>

lemma dir_blk_apart:
  assumes "disk_inv d" "reach d p" "is_dir d p"
  shows "\<not> reach d (dir_blk d p)" "\<not> unowned d (dir_blk d p)"
    "reach d j \<Longrightarrow> is_dir d j \<Longrightarrow> j \<noteq> p \<Longrightarrow> dir_blk d j \<noteq> dir_blk d p"
  using disk_invD(4) [OF assms(1,2)] dir_blk_owned [OF assms(3)] disk_invD(6) [OF assms(1), of j p]
    dir_blk_owned [of d j] assms(2)
  by (auto simp: owns_ok_def unowned_def)

text \<open>The shape that adding and removing an entry share: the nodes in \<open>N\<close> keep their inode and,
  but for \<open>p\<close>, their entries.\<close>

lemma entries_kept:
  assumes "disk_inv d" "reach d p" "is_dir d p" "dirents_ok es"
    "\<And>b. b \<in> N \<Longrightarrow> reach d b \<or> unowned d b \<and> (is_dir d b \<longrightarrow> unowned d (dir_blk d b))"
    "j \<in> N"
  defines "d' \<equiv> d[dir_blk d p := encode_dirents es]"
  shows "inode_at d' j = inode_at d j" "is_dir d' j = is_dir d j" "dir_blk d' j = dir_blk d j"
    "blocks_of d' j = blocks_of d j" "is_dir d j \<Longrightarrow> dir_at d' j = (if j = p then es else dir_at d j)"
proof -
  note w = write_entries [OF assms(1-4), folded d'_def]
  note ap = dir_blk_apart [OF assms(1-3)]
  have ne: "j \<noteq> dir_blk d p"
    using assms(5) [OF assms(6)] ap by auto
  then show at: "inode_at d' j = inode_at d j"
    by (rule w(2))
  then show "is_dir d' j = is_dir d j" "dir_blk d' j = dir_blk d j" "blocks_of d' j = blocks_of d j"
    by (simp_all add: is_dir_def dir_blk_def blocks_of_def)
  show "dir_at d' j = (if j = p then es else dir_at d j)" if "is_dir d j"
  proof (cases "j = p")
    case False
    then have "dir_blk d j \<noteq> dir_blk d p"
      using assms(5) [OF assms(6)] ap that by (metis (no_types))
    then show ?thesis
      using False w(4) [OF ne] by simp
  qed (simp add: w(3))
qed

section \<open>Adding an entry for a fresh node\<close>

text \<open>
  The node \<open>k\<close> is on the image, belongs to nobody, has its own fresh blocks, and, if it is a
  directory, no valid entries.
\<close>

definition fresh_node :: "disk \<Rightarrow> nat \<Rightarrow> bool" where
  "fresh_node d k \<longleftrightarrow> unowned d k \<and> on_disk d k \<and> 2 \<le> k \<and> distinct (blocks_of d k) \<and>
     (\<forall>b\<in>set (blocks_of d k). unowned d b \<and> on_disk d b \<and> 2 \<le> b \<and> b \<noteq> k) \<and>
     (is_dir d k \<longrightarrow> (\<forall>e\<in>set (dir_at d k). \<not> d_valid e))"

definition add_link :: "disk \<Rightarrow> nat \<Rightarrow> nat \<Rightarrow> fs_dirent \<Rightarrow> disk" where
  "add_link d p i e = d[dir_blk d p := encode_dirents ((dir_at d p)[i := e])]"

definition can_add :: "disk \<Rightarrow> nat \<Rightarrow> nat \<Rightarrow> fs_dirent \<Rightarrow> string \<Rightarrow> nat \<Rightarrow> bool" where
  "can_add d p i e c k \<longleftrightarrow> disk_inv d \<and> tree_ok d \<and> reach d p \<and> is_dir d p \<and>
     i < length (dir_at d p) \<and> \<not> d_valid (dir_at d p ! i) \<and> dirent_ok e \<and> entry_named c e \<and>
     lookup_dirent (dir_at d p) c = None \<and> unat (d_inode e) = k \<and> fresh_node d k"

lemma dirents_ok_update: "dirents_ok es \<Longrightarrow> dirent_ok e \<Longrightarrow> dirents_ok (es[i := e])"
  by (auto simp: dirents_ok_def list_all_iff dest!: set_update_subset_insert [THEN subsetD])

lemma can_addD:
  assumes "can_add d p i e c k"
  shows "disk_inv d" "tree_ok d" "reach d p" "is_dir d p" "i < length (dir_at d p)"
    "\<not> d_valid (dir_at d p ! i)" "entry_named c e" "lookup_dirent (dir_at d p) c = None"
    "unat (d_inode e) = k" "fresh_node d k" "dirents_ok ((dir_at d p)[i := e])" "d_valid e"
    "k \<noteq> p" "\<not> reach d k" "names_unique (dir_at d p)"
proof -
  show inv: "disk_inv d" and "tree_ok d" and p: "reach d p" and dir: "is_dir d p"
    and "i < length (dir_at d p)" "\<not> d_valid (dir_at d p ! i)" "entry_named c e"
      "lookup_dirent (dir_at d p) c = None" "unat (d_inode e) = k" "fresh_node d k"
    using assms by (simp_all add: can_add_def)
  then show "d_valid e" "k \<noteq> p" "\<not> reach d k" "names_unique (dir_at d p)"
    by (auto simp: entry_named_def fresh_node_def unowned_def tree_ok_def)
  have "dirents_ok (dir_at d p)"
    using disk_invD(2,3) [OF inv] p dir by (auto intro!: dir_at_ok simp: node_ok_def on_disk_def)
  then show "dirents_ok ((dir_at d p)[i := e])"
    using assms by (simp add: dirents_ok_update can_add_def)
qed

lemma add_link_kept:
  assumes "can_add d p i e c k" "reach d j \<or> j = k"
  shows "inode_at (add_link d p i e) j = inode_at d j" "is_dir (add_link d p i e) j = is_dir d j"
    "dir_blk (add_link d p i e) j = dir_blk d j" "blocks_of (add_link d p i e) j = blocks_of d j"
    "is_dir d j \<Longrightarrow> dir_at (add_link d p i e) j = (if j = p then (dir_at d p)[i := e] else dir_at d j)"
proof -
  note a = can_addD [OF assms(1)]
  have N: "reach d b \<or> unowned d b \<and> (is_dir d b \<longrightarrow> unowned d (dir_blk d b))"
    if "b \<in> {b. reach d b} \<union> {k}" for b
    using that a(10) dir_blk_owned [of d b] by (auto simp: fresh_node_def)
  have "j \<in> {b. reach d b} \<union> {k}"
    using assms(2) by auto
  note kept = entries_kept [OF a(1,3,4,11) N this, folded add_link_def]
  show "inode_at (add_link d p i e) j = inode_at d j" "is_dir (add_link d p i e) j = is_dir d j"
    "dir_blk (add_link d p i e) j = dir_blk d j" "blocks_of (add_link d p i e) j = blocks_of d j"
    "is_dir d j \<Longrightarrow> dir_at (add_link d p i e) j = (if j = p then (dir_at d p)[i := e] else dir_at d j)"
    using kept by blast+
qed

lemma add_link_entries:
  assumes "can_add d p i e c k" "reach d j" "is_dir d j" "x \<in> set (dir_at d j)" "d_valid x"
  shows "x \<in> set (dir_at (add_link d p i e) j)"
proof -
  note a = can_addD [OF assms(1)]
  obtain l where l: "l < length (dir_at d j)" "x = dir_at d j ! l"
    using assms(4) by (auto simp: in_set_conv_nth)
  have "x \<in> set ((dir_at d p)[i := e])" if "j = p"
  proof -
    have "l \<noteq> i" using that l assms(5) a(6) by auto
    then show ?thesis
      using l that by (metis length_list_update nth_list_update_neq nth_mem)
  qed
  then show ?thesis
    using add_link_kept(5) [OF assms(1) disjI1 [OF assms(2)] assms(3)] assms(4) by simp
qed

lemma add_link_reach:
  assumes "can_add d p i e c k"
  shows "reach (add_link d p i e) j \<longleftrightarrow> reach d j \<or> j = k"
proof
  note a = can_addD [OF assms] and kept = add_link_kept [OF assms]
  assume "reach (add_link d p i e) j"
  then show "reach d j \<or> j = k"
  proof induction
    case (reach_entry j x)
    then have dir: "is_dir d j" and at: "dir_at (add_link d p i e) j =
        (if j = p then (dir_at d p)[i := e] else dir_at d j)"
      using kept [of j] by auto
    have x: "x = e \<or> x \<in> set (dir_at d j)"
      using reach_entry at set_update_subset_insert [of "dir_at d p" i e] by (auto split: if_splits)
    have "j \<noteq> k"
      using reach_entry at a(10,13) dir by (auto simp: fresh_node_def)
    then have "reach d j" using reach_entry by blast
    then show ?case
      using x a(9) dir reach_entry.hyps reach.reach_entry [of d j x] by auto
  qed (simp add: reach_root)
next
  note a = can_addD [OF assms] and kept = add_link_kept [OF assms]
  have old: "reach d j \<Longrightarrow> reach (add_link d p i e) j" for j
  proof (induction rule: reach.induct)
    case (reach_entry j x)
    then show ?case
      using kept(2) [of j] add_link_entries [OF assms] by (auto intro: reach.reach_entry)
  qed (rule reach_root)
  have "e \<in> set (dir_at (add_link d p i e) p)"
    using kept(5) [of p] a(3-5) by (simp add: set_update_memI)
  then have "reach (add_link d p i e) (unat (d_inode e))"
    using a(3,4,12) kept(2) [of p] by (auto intro: reach.reach_entry old)
  then show "reach d j \<or> j = k \<Longrightarrow> reach (add_link d p i e) j"
    using a(9) old by auto
qed

lemma on_disk_add_link: "on_disk (add_link d p i e) b = on_disk d b"
  by (simp add: add_link_def on_disk_def)

lemma add_link_lookup:
  assumes "can_add d p i e c k" "reach d j" "is_dir d j"
  shows "lookup_dirent (dir_at (add_link d p i e) j) n =
    (if j = p \<and> n = c then Some k else lookup_dirent (dir_at d j) n)"
  using add_link_kept(5) [OF assms(1) disjI1 [OF assms(2)] assms(3)] can_addD [OF assms(1)]
    lookup_fill [of "dir_at d p" i c e n] by auto

lemma add_link_disk_inv:
  assumes "can_add d p i e c k"
  shows "disk_inv (add_link d p i e)"
proof -
  let ?d = "add_link d p i e"
  note a = can_addD [OF assms] and kept = add_link_kept [OF assms] and rc = add_link_reach [OF assms]
  have "wf_disk ?d"
    using write_entries(6) [OF a(1,3,4,11)] by (simp add: add_link_def)
  moreover have "is_dir ?d 2"
    using kept(2) [of 2] disk_invD(1) [OF a(1)] reach_root by (auto simp: wf_fs_def)
  moreover have names: "names_ok ((dir_at d p)[i := e])"
  proof -
    have "names_ok (dir_at d p)"
      using disk_invD(3) [OF a(1,3)] a(4) by (simp add: node_ok_def)
    then show ?thesis
      using a(7) set_update_subset_insert [of "dir_at d p" i e]
      by (auto simp: names_ok_def entry_named_def)
  qed
  moreover have "node_ok ?d j" if "reach d j \<or> j = k" for j
  proof (cases "reach d j")
    case True
    then show ?thesis
      using disk_invD(3) [OF a(1) True] kept [OF that] names
      by (auto simp: node_ok_def on_disk_add_link)
  next
    case False
    then have "j = k" using that by simp
    then show ?thesis
      using a(10,13) kept [OF that] dir_blk_owned [of d k]
      by (auto simp: node_ok_def on_disk_add_link fresh_node_def names_ok_def)
  qed
  moreover have "owns_ok ?d j" if "reach d j \<or> j = k" for j
  proof (cases "reach d j")
    case True
    have "k \<notin> set (blocks_of d j)"
      using True a(10) by (simp add: fresh_node_def unowned_def)
    then show ?thesis
      using disk_invD(4) [OF a(1) True] unfolding owns_ok_def kept(4) [OF that] on_disk_add_link rc
      by blast
  next
    case False
    then have "j = k" using that by simp
    then show ?thesis
      using a(10) unfolding owns_ok_def kept(4) [OF that] on_disk_add_link rc fresh_node_def unowned_def
      by blast
  qed
  moreover have "set (blocks_of ?d j) \<inter> set (blocks_of ?d l) = {}"
    if "reach d j \<or> j = k" "reach d l \<or> l = k" "j \<noteq> l" for j l
  proof -
    have fresh: "set (blocks_of d k) \<inter> set (blocks_of d m) = {}" if "reach d m" for m
      using a(10) that by (auto simp: fresh_node_def unowned_def)
    have "set (blocks_of d j) \<inter> set (blocks_of d l) = {}"
      using that fresh [of j] fresh [of l] disk_invD(6) [OF a(1), of j l] by (metis inf_commute)
    then show ?thesis
      by (simp only: kept(4) [OF that(1)] kept(4) [OF that(2)])
  qed
  ultimately show ?thesis
    by (simp add: disk_inv_def wf_fs_def rc)
qed

lemma target_reach: "l \<in> links d \<Longrightarrow> reach d (target d l)"
  by (auto simp: links_def target_def intro: reach_entry)

lemma add_link_tree:
  assumes "can_add d p i e c k"
  shows "tree_ok (add_link d p i e)"
proof -
  let ?d = "add_link d p i e"
  note a = can_addD [OF assms] and kept = add_link_kept [OF assms] and rc = add_link_reach [OF assms]
  have links: "links ?d = insert (p, i) (links d)"
  proof -
    have k: "(k, l) \<notin> links ?d" "(k, l) \<notin> links d" for l
      using kept(2,5) [of k] a(10,13,14) by (auto simp: links_def fresh_node_def)
    have other: "(j, l) \<in> links ?d \<longleftrightarrow> (j, l) \<in> links d" if "j \<noteq> k" "j \<noteq> p" for j l
      using kept(2,5) [of j] that by (auto simp: links_def rc)
    have p: "(p, l) \<in> links ?d \<longleftrightarrow> l = i \<or> (p, l) \<in> links d" for l
      using kept(2,5) [of p] a(3-6,12) by (cases "l = i") (simp_all add: links_def rc)
    have "(j, l) \<in> links ?d \<longleftrightarrow> (j, l) \<in> insert (p, i) (links d)" for j l
      using k [of l] other [of j l] p [of l] a(13) by (cases "j = k"; cases "j = p") simp_all
    then show ?thesis by auto
  qed
  have tgt: "target ?d l = target d l" if "l \<in> links d" for l
  proof -
    obtain j y where l: "l = (j, y)"
      by (cases l)
    with that have j: "reach d j" "is_dir d j" "d_valid (dir_at d j ! y)"
      by (auto simp: links_def)
    then have "j = p \<Longrightarrow> y \<noteq> i"
      using a(6) by auto
    then show ?thesis
      using kept(5) [of j] j by (auto simp: target_def l)
  qed
  have new: "target ?d (p, i) = k"
    using kept(5) [of p] a(3-5,9) by (simp add: target_def)
  have "(p, i) \<notin> links d"
    using a(6) by (simp add: links_def)
  have notin: "k \<notin> target d ` links d"
    using target_reach a(14) by auto
  have img: "target ?d ` links ?d = insert k (target d ` links d)"
    using links new tgt by (auto simp: image_iff)
  have "inj_on (target ?d) (links ?d)"
    unfolding links
    using a(2) tgt new notin \<open>(p, i) \<notin> links d\<close> by (auto simp: tree_ok_def inj_on_def image_iff)
  moreover have "2 \<notin> target ?d ` links ?d"
    using img a(2,14) reach_root by (auto simp: tree_ok_def)
  moreover have "names_unique (dir_at ?d j)" if j: "reach d j \<or> j = k" "is_dir ?d j" for j
  proof (cases "j = k")
    case True
    then show ?thesis
      using kept(2,5) [of k] j a(10,13)
      by (auto simp: fresh_node_def names_unique_def entry_named_def)
  next
    case False
    then show ?thesis
      using kept(2,5) [OF j(1)] j a(2) names_unique_fill [OF a(15,5,8,7)] by (auto simp: tree_ok_def)
  qed
  ultimately show ?thesis
    by (simp add: tree_ok_def rc)
qed

section \<open>Removing the entry of a childless node\<close>

definition rm_link :: "disk \<Rightarrow> nat \<Rightarrow> nat \<Rightarrow> disk" where
  "rm_link d p i =
     d[dir_blk d p := encode_dirents ((dir_at d p)[i := (dir_at d p ! i)\<lparr>d_valid := False\<rparr>])]"

definition can_rm :: "disk \<Rightarrow> nat \<Rightarrow> nat \<Rightarrow> string \<Rightarrow> nat \<Rightarrow> bool" where
  "can_rm d p i c k \<longleftrightarrow> disk_inv d \<and> tree_ok d \<and> reach d p \<and> is_dir d p \<and>
     i < length (dir_at d p) \<and> entry_named c (dir_at d p ! i) \<and>
     unat (d_inode (dir_at d p ! i)) = k \<and>
     (is_dir d k \<longrightarrow> (\<forall>e\<in>set (dir_at d k). \<not> d_valid e))"

lemma can_rmD:
  assumes "can_rm d p i c k"
  shows "disk_inv d" "tree_ok d" "reach d p" "is_dir d p" "i < length (dir_at d p)"
    "entry_named c (dir_at d p ! i)" "unat (d_inode (dir_at d p ! i)) = k"
    "dirents_ok ((dir_at d p)[i := (dir_at d p ! i)\<lparr>d_valid := False\<rparr>])"
    "(p, i) \<in> links d" "target d (p, i) = k" "reach d k" "k \<noteq> 2" "k \<noteq> p"
    "names_unique (dir_at d p)" "\<And>l. (k, l) \<notin> links d"
proof -
  show inv: "disk_inv d" and tree: "tree_ok d" and p: "reach d p" and dir: "is_dir d p"
    and i: "i < length (dir_at d p)" and e: "entry_named c (dir_at d p ! i)"
    and k: "unat (d_inode (dir_at d p ! i)) = k"
    using assms by (simp_all add: can_rm_def)
  have ok: "dirents_ok (dir_at d p)"
    using disk_invD(2,3) [OF inv] p dir by (auto intro!: dir_at_ok simp: node_ok_def on_disk_def)
  then have "dirent_ok (dir_at d p ! i)"
    using i by (simp add: dirents_ok_def list_all_iff)
  then show "dirents_ok ((dir_at d p)[i := (dir_at d p ! i)\<lparr>d_valid := False\<rparr>])"
    using ok by (intro dirents_ok_update) (simp_all add: dirent_ok_def)
  show l: "(p, i) \<in> links d" and t: "target d (p, i) = k"
    using p dir i e k by (simp_all add: links_def target_def entry_named_def)
  show "reach d k"
    using target_reach [OF l] t by simp
  show "k \<noteq> 2" "names_unique (dir_at d p)"
    using tree l t p dir by (auto simp: tree_ok_def image_iff)
  show no: "(k, l) \<notin> links d" for l
    using assms by (auto simp: can_rm_def links_def)
  then show "k \<noteq> p"
    using l by blast
qed

lemma rm_link_kept:
  assumes "can_rm d p i c k" "reach d j"
  shows "inode_at (rm_link d p i) j = inode_at d j" "is_dir (rm_link d p i) j = is_dir d j"
    "dir_blk (rm_link d p i) j = dir_blk d j" "blocks_of (rm_link d p i) j = blocks_of d j"
    "is_dir d j \<Longrightarrow> dir_at (rm_link d p i) j =
       (if j = p then (dir_at d p)[i := (dir_at d p ! i)\<lparr>d_valid := False\<rparr>] else dir_at d j)"
  using entries_kept [OF can_rmD(1,3,4,8) [OF assms(1)], of "{b. reach d b}" j] assms(2)
  by (simp_all add: rm_link_def)

lemma rm_link_slot:
  assumes "can_rm d p i c k" "reach d j" "is_dir d j"
  shows "length (dir_at (rm_link d p i) j) = length (dir_at d j)"
    "(j, l) \<noteq> (p, i) \<Longrightarrow> dir_at (rm_link d p i) j ! l = dir_at d j ! l"
    "\<not> d_valid (dir_at (rm_link d p i) p ! i)"
  using rm_link_kept(5) [OF assms] rm_link_kept(5) [OF assms(1), of p] can_rmD [OF assms(1)]
  by auto

lemma rm_link_reach:
  assumes "can_rm d p i c k"
  shows "reach (rm_link d p i) j \<longleftrightarrow> reach d j \<and> j \<noteq> k"
proof
  note r = can_rmD [OF assms]
  assume "reach (rm_link d p i) j"
  then show "reach d j \<and> j \<noteq> k"
  proof induction
    case (reach_entry j x)
    then have j: "reach d j" "is_dir d j"
      using rm_link_kept(2) [OF assms] by auto
    note sl = rm_link_slot [OF assms j]
    obtain l where l: "l < length (dir_at d j)" "x = dir_at (rm_link d p i) j ! l"
      using reach_entry.hyps(3) sl(1) by (auto simp: in_set_conv_nth)
    then have ne: "(j, l) \<noteq> (p, i)"
      using sl(3) reach_entry.hyps(4) by auto
    then have x: "x = dir_at d j ! l" and lk: "(j, l) \<in> links d"
      using sl(2) [of l] l j reach_entry.hyps(4) by (auto simp: links_def)
    then have "unat (d_inode x) = target d (j, l)"
      by (simp add: target_def)
    then show ?case
      using target_reach [OF lk] r(2,9,10) lk ne unfolding tree_ok_def inj_on_def by metis
  qed (use r in \<open>auto simp: reach_root\<close>)
next
  note r = can_rmD [OF assms]
  assume "reach d j \<and> j \<noteq> k"
  then have "reach d j" "j \<noteq> k" by auto
  then show "reach (rm_link d p i) j"
  proof induction
    case (reach_entry j x)
    note j = reach_entry.hyps(1,2)
    obtain l where l: "l < length (dir_at d j)" "x = dir_at d j ! l"
      using reach_entry.hyps(3) by (auto simp: in_set_conv_nth)
    then have "(j, l) \<in> links d"
      using j reach_entry.hyps(4) by (simp add: links_def)
    then have "j \<noteq> k" using r(15) by blast
    moreover have "(j, l) \<noteq> (p, i)"
      using l reach_entry.prems r(7) by auto
    then have "x \<in> set (dir_at (rm_link d p i) j)"
      using rm_link_slot(1,2) [OF assms j] l by (metis nth_mem)
    ultimately show ?case
      using reach_entry.IH j reach_entry.hyps(4) rm_link_kept(2) [OF assms j(1)]
      by (auto intro: reach.reach_entry)
  qed (rule reach_root)
qed

lemma rm_link_lookup:
  assumes "can_rm d p i c k" "reach d j" "is_dir d j"
  shows "lookup_dirent (dir_at (rm_link d p i) j) n =
    (if j = p \<and> n = c then None else lookup_dirent (dir_at d j) n)"
  using rm_link_kept(5) [OF assms] can_rmD [OF assms(1)] lookup_clear [of "dir_at d p" i c _ n] by auto

lemma rm_link_disk_inv:
  assumes "can_rm d p i c k"
  shows "disk_inv (rm_link d p i)"
proof -
  let ?d = "rm_link d p i"
  note r = can_rmD [OF assms] and kept = rm_link_kept [OF assms] and rc = rm_link_reach [OF assms]
  have od: "on_disk ?d b = on_disk d b" for b
    by (simp add: rm_link_def on_disk_def)
  have "wf_disk ?d"
    using write_entries(6) [OF r(1,3,4,8)] by (simp add: rm_link_def)
  moreover have "is_dir ?d 2"
    using kept(2) [OF reach_root] disk_invD(1) [OF r(1)] by (simp add: wf_fs_def)
  moreover have "node_ok ?d j" if "reach d j" for j
  proof -
    have "names_ok ((dir_at d p)[i := (dir_at d p ! i)\<lparr>d_valid := False\<rparr>])" if "names_ok (dir_at d p)"
      using that by (auto simp: names_ok_def dest!: set_update_subset_insert [THEN subsetD])
    then show ?thesis
      using disk_invD(3) [OF r(1) that] kept [OF that] by (auto simp: node_ok_def od)
  qed
  moreover have "owns_ok ?d j" if "reach d j" for j
    using disk_invD(4) [OF r(1) that] kept(4) [OF that] by (auto simp: owns_ok_def od rc)
  moreover have "set (blocks_of ?d j) \<inter> set (blocks_of ?d l) = {}"
    if "reach d j" "reach d l" "j \<noteq> l" for j l
    using disk_invD(6) [OF r(1) that] kept(4) [OF that(1)] kept(4) [OF that(2)] by simp
  ultimately show ?thesis
    by (simp add: disk_inv_def wf_fs_def rc)
qed

lemma rm_link_tree:
  assumes "can_rm d p i c k"
  shows "tree_ok (rm_link d p i)"
proof -
  let ?d = "rm_link d p i"
  note r = can_rmD [OF assms] and kept = rm_link_kept [OF assms] and rc = rm_link_reach [OF assms]
  have sub: "l \<in> links d" "target ?d l = target d l" if "l \<in> links ?d" for l
  proof -
    obtain j y where l: "l = (j, y)" by (cases l)
    with that have j: "reach d j" "is_dir d j" and y: "y < length (dir_at ?d j)" "d_valid (dir_at ?d j ! y)"
      using kept(2) by (auto simp: links_def rc)
    have "(j, y) \<noteq> (p, i)"
      using y(2) rm_link_slot(3) [OF assms j] by auto
    then show "l \<in> links d" "target ?d l = target d l"
      using rm_link_slot(1) [OF assms j] rm_link_slot(2) [OF assms j, of y] j y by (auto simp: l links_def target_def)
  qed
  have "inj_on (target ?d) (links ?d)"
    using sub r(2) unfolding tree_ok_def inj_on_def by metis
  moreover have "2 \<notin> target ?d ` links ?d"
    using sub r(2) by (auto simp: tree_ok_def image_iff)
  moreover have "names_unique (dir_at ?d j)" if "reach d j" "is_dir ?d j" for j
    using kept(2,5) [OF that(1)] that r(2) names_unique_clear [OF r(14,5)] by (auto simp: tree_ok_def)
  ultimately show ?thesis
    by (simp add: tree_ok_def rc)
qed

end
