(* ===== verification/Fs_Data.thy ===== *)
theory Fs_Data
  imports Fs_Inv
begin

text \<open>
  The handlers of Lab 5 that keep the name space: attributes (\<^verbatim>\<open>fs_getattr\<close>, \<^verbatim>\<open>fs_chmod\<close>,
  \<^verbatim>\<open>fs_utime\<close>) and file contents (\<^verbatim>\<open>fs_read\<close>).  The contents of a file are specified byte by byte
  (\<open>file_bytes\<close>); \<^verbatim>\<open>fs_read\<close> returns a slice of them.
\<close>

section \<open>Contents of a file\<close>

definition fsize :: "fs_inode \<Rightarrow> nat" where
  "fsize i = nat (sint (i_size i))"

definition file_byte :: "disk \<Rightarrow> fs_inode \<Rightarrow> nat \<Rightarrow> char" where
  "file_byte d i x = (d ! unat (i_ptrs i ! (x div 4096))) ! (x mod 4096)"

definition file_bytes :: "disk \<Rightarrow> nat \<Rightarrow> char list" where
  "file_bytes d k = map (file_byte d (inode_at d k)) [0..<fsize (inode_at d k)]"

text \<open>The size is not negative and within the maximum, and every block below it is present.\<close>

definition file_ok :: "fs_inode \<Rightarrow> bool" where
  "file_ok i \<longleftrightarrow> 0 \<le> sint (i_size i) \<and> fsize i \<le> NUM_PTRS_INODE * 4096 \<and>
     (\<forall>x<fsize i. i_ptrs i ! (x div 4096) \<noteq> 0)"

lemma length_file_bytes [simp]: "length (file_bytes d k) = fsize (inode_at d k)"
  by (simp add: file_bytes_def)

lemma slice_file_bytes:
  "take n (drop x (file_bytes d k)) =
     map (file_byte d (inode_at d k)) [x..<min (x + n) (fsize (inode_at d k))]"
proof (cases "x + n \<le> fsize (inode_at d k)")
  case True
  then show ?thesis
    by (simp add: file_bytes_def take_map drop_map)
next
  case False
  then have "take n [x..<fsize (inode_at d k)] = [x..<fsize (inode_at d k)]"
    by (intro take_all) simp
  with False show ?thesis
    by (simp add: file_bytes_def take_map drop_map min_def)
qed

section \<open>One transfer of the loops\<close>

lemma norm_off_nat [simp]: "norm_off (int x) = int (x mod 4096)"
  by (simp add: norm_off_def zmod_int)

lemma blk_index_nat: "x < 2 ^ 43 \<Longrightarrow> blk_index (int x) = x div 4096"
  by (simp add: blk_index_def nat_div_distrib flip: zdiv_int)

lemma norm_len_min:
  assumes "dn < len" "len < 2 ^ 63"
  shows "norm_len len (int x) dn = min (4096 - x mod 4096) (len - dn)"
proof -
  let ?m = "x mod 4096"
  have m: "?m < 4096" by simp
  have sums: "u64 (int ?m + int len) = int (?m + len)" "u64 (4096 - int ?m) = 4096 - int ?m"
      "u64 (int dn + int len) = int (dn + len)" "u64 (int dn + (4096 - int ?m)) = int dn + (4096 - int ?m)"
    using assms m by simp_all
  show ?thesis
  proof (cases "4096 < ?m + len")
    case True
    then show ?thesis
      using assms m sums by (auto simp: norm_len_def Let_def)
  next
    case False
    then show ?thesis
      using assms m sums by (auto simp: norm_len_def Let_def)
  qed
qed

lemma div_in_block:
  assumes "x mod 4096 + n \<le> 4096" "x \<le> y" "y < x + (n::nat)"
  shows "y div 4096 = x div 4096" "y mod 4096 = x mod 4096 + (y - x)"
proof -
  have "y = 4096 * (x div 4096) + (x mod 4096 + (y - x))"
    using assms(2) by simp
  moreover have "x mod 4096 + (y - x) < 4096"
    using assms by linarith
  ultimately show "y div 4096 = x div 4096" "y mod 4096 = x mod 4096 + (y - x)"
    by (metis div_mult_self4 div_less add_cancel_left_right zero_neq_numeral, metis mod_mult_self4 mod_less)
qed

lemma slice_of_block:
  assumes "x mod 4096 + n \<le> 4096" "length (d ! unat (i_ptrs i ! (x div 4096))) = 4096"
  shows "take n (drop (x mod 4096) (d ! unat (i_ptrs i ! (x div 4096)))) =
    map (file_byte d i) [x..<x + n]"
proof (rule nth_equalityI)
  show "length (take n (drop (x mod 4096) (d ! unat (i_ptrs i ! (x div 4096))))) =
      length (map (file_byte d i) [x..<x + n])"
    using assms by simp
next
  fix j
  assume "j < length (take n (drop (x mod 4096) (d ! unat (i_ptrs i ! (x div 4096)))))"
  then have j: "j < n" by simp
  then have "file_byte d i (x + j) = d ! unat (i_ptrs i ! (x div 4096)) ! (x mod 4096 + j)"
    using div_in_block [OF assms(1), of "x + j"] by (simp add: file_byte_def)
  then show "take n (drop (x mod 4096) (d ! unat (i_ptrs i ! (x div 4096)))) ! j =
      map (file_byte d i) [x..<x + n] ! j"
    using j assms by simp
qed

section \<open>fs\_read\<close>

definition readable :: "disk \<Rightarrow> fs_inode \<Rightarrow> nat \<Rightarrow> bool" where
  "readable d i x \<longleftrightarrow> x div 4096 < NUM_PTRS_INODE \<and> on_disk d (unat (i_ptrs i ! (x div 4096)))"

lemma read_loop_bytes:
  assumes "wf_disk d" "len < 2 ^ 63" "tot \<le> len"
    "\<forall>y. x \<le> y \<and> y < x + (len - tot) \<longrightarrow> readable d i y"
  shows "read_loop d i len db (int x) tot out =
    Done (out @ map (file_byte d i) [x..<x + (len - tot)])"
  using assms(3,4)
proof (induction "len - tot" arbitrary: tot x out db rule: less_induct)
  case less
  show ?case
  proof (cases "tot = len")
    case True
    then show ?thesis by (simp add: read_loop.simps)
  next
    case False
    with less.prems have lt: "tot < len" by simp
    define n where "n = norm_len len (int x) tot"
    have n: "0 < n" "n \<le> len - tot" "x mod 4096 + n \<le> 4096"
      using norm_len_pos [OF lt, of "int x"] norm_len_min [OF lt assms(2), of x] by (auto simp: n_def)
    from less.prems(2) lt have rd: "readable d i x" by simp
    let ?p = "i_ptrs i ! (x div 4096)"
    have on: "on_disk d (unat ?p)" "x div 4096 < NUM_PTRS_INODE" and x: "x < 2 ^ 43"
      using rd by (auto simp: readable_def)
    have blk: "snd (block_read d db (sint ?p)) = d ! unat ?p"
      using on_disk_sint [OF on(1)] on(1)
      by (simp add: on_disk_def block_read_on_disk del: of_nat_unat)
    have len: "length (d ! unat ?p) = 4096"
      using assms(1) on(1) by (simp add: on_disk_def)
    have "read_loop d i len db (int x) tot out =
        read_loop d i len (d ! unat ?p) (int (x + n)) (tot + n)
          (out @ take n (drop (x mod 4096) (d ! unat ?p)))"
      using False lt on(2) n(3)
      by (subst read_loop.simps) (simp add: blk_index_nat [OF x] blk Let_def flip: n_def)
    also have "\<dots> = Done ((out @ take n (drop (x mod 4096) (d ! unat ?p))) @
        map (file_byte d i) [x + n..<x + n + (len - (tot + n))])"
      using less.hyps [of "tot + n" "x + n"] less.prems n lt by (auto simp del: append_assoc)
    also have "\<dots> = Done (out @ map (file_byte d i) [x..<x + (len - tot)])"
    proof -
      have "x + (len - tot) = x + n + (len - (tot + n))"
        using n(2) by simp
      then have "[x..<x + (len - tot)] = [x..<x + n] @ [x + n..<x + n + (len - (tot + n))]"
        using upt_add_eq_append [of x "x + n" "len - (tot + n)"] by (simp only: le_add1)
      then show ?thesis
        using slice_of_block [OF n(3) len] by simp
    qed
    finally show ?thesis .
  qed
qed

lemma file_readable:
  assumes "disk_inv d" "reach d k" "\<not> is_dir d k" "file_ok (inode_at d k)" "x < fsize (inode_at d k)"
  shows "readable d (inode_at d k) x"
proof -
  let ?i = "inode_at d k"
  have "x div 4096 < NUM_PTRS_INODE"
    using assms(4,5) by (auto simp: file_ok_def less_mult_imp_div_less)
  moreover have "length (i_ptrs ?i) = NUM_PTRS_INODE"
    using inode_at_ok [of d k] disk_invD(2,5) [OF assms(1)] assms(2)
    by (auto simp: inode_ok_def on_disk_def)
  ultimately have "unat (i_ptrs ?i ! (x div 4096)) \<in> set (blocks_of d k)"
    using assms(3-5) by (auto simp: blocks_of_def inode_blocks_def is_dir_def file_ok_def)
  then show ?thesis
    using disk_invD(4) [OF assms(1,2)] \<open>x div 4096 < NUM_PTRS_INODE\<close>
    by (auto simp: owns_ok_def readable_def)
qed

lemma fs_read_file:
  assumes "disk_inv (disk s)" "good_path cs" "resolve (disk s) 2 cs = int k" "\<not> is_dir (disk s) k"
    "file_ok (inode_at (disk s) k)" "len < 2 ^ 62" "x < 2 ^ 62"
  shows "fs_read env s (path_of cs) len (int x) =
    Done (int (length (take len (drop x (file_bytes (disk s) k)))),
          take len (drop x (file_bytes (disk s) k)))"
proof -
  let ?d = "disk s" and ?i = "inode_at (disk s) k"
  have reach: "reach ?d k"
    using resolve_reach [OF reach_root assms(3)] .
  have size: "sint (i_size ?i) = int (fsize ?i)" "fsize ?i \<le> 4173824"
    using assms(5) by (simp_all add: file_ok_def fsize_def)
  have start: "path_to_inum env s (path_of cs) = Done (int k)"
      "read_inode ?d (uninit_inode env ''inode'') (int k) = ?i" "\<not> S_ISDIR (i_mode ?i)"
    using path_to_inum_good [OF assms(1,2)] assms(3,4) read_inode_reach [OF assms(1) reach]
    by (simp_all add: is_dir_def)
  show ?thesis
  proof (cases "fsize ?i \<le> x")
    case True
    then show ?thesis
      using start size by (simp add: fs_read_def inode_to_stat_def)
  next
    case False
    define n where "n = (if fsize ?i < x + len then fsize ?i - x else len)"
    have n: "x + n \<le> fsize ?i" "n < 2 ^ 31" "n = length (take len (drop x (file_bytes ?d k)))"
        "min (x + len) (fsize ?i) = x + n"
      using False size(2) by (auto simp: n_def min_def)
    have "u64 (int (fsize ?i)) = int (fsize ?i)" "u64 (int x + int len) = int (x + len)"
        "nat (u64 (int (fsize ?i) - int x)) = fsize ?i - x"
      using size(2) assms(6,7) False by (simp_all add: nat_diff_distrib)
    then have cut: "(if u64 (int (fsize ?i)) < u64 (int x + int len) then nat (u64 (int (fsize ?i) - int x))
        else len) = n"
      by (simp add: n_def)
    have loop: "read_loop ?d ?i n (uninit env ''data_block'' 4096) (int x) 0 [] =
        Done (map (file_byte ?d ?i) [x..<x + n])"
      using read_loop_bytes [OF disk_invD(2) [OF assms(1)], of n 0 x ?i] n(1,2)
        file_readable [OF assms(1) reach assms(4,5)] by simp
    have "fs_read env s (path_of cs) len (int x) = Done (int32 (int n), map (file_byte ?d ?i) [x..<x + n])"
      unfolding fs_read_def start(1) obind.simps inode_to_stat_def stat.simps Let_def start(2) size(1)
        cut loop using start(3) False by simp
    then show ?thesis
      unfolding n(3) [symmetric] unfolding slice_file_bytes n(4) using n(2) by simp
  qed
qed

end
