(* ===== verification/Fs_Names.thy ===== *)
theory Fs_Names
  imports Fs_Tree Fs_Data
begin

text \<open>
  The handlers of Lab 5 that change the name space: \<^verbatim>\<open>fs_create\<close> and \<^verbatim>\<open>fs_mkdir\<close> (a fresh node, then
  one entry), \<^verbatim>\<open>fs_unlink\<close> and \<^verbatim>\<open>fs_rmdir\<close> (the blocks released, then one entry cleared), each
  reduced to \<open>add_link\<close> or \<open>rm_link\<close> of the tree.
\<close>

section \<open>Paths and their parents\<close>

lemma fits_prefix: "fits i (cs @ [c]) \<Longrightarrow> fits i cs"
proof (induction i cs rule: fits.induct)
  case (2 i a)
  then show ?case by auto
qed auto

lemma good_path_parent:
  assumes "good_path (cs @ [c])"
  shows "good_path cs" "comp_ok c" "length cs < 10" "\<forall>a\<in>set cs. length a \<le> 26"
proof -
  have "fits i (cs @ [c]) \<Longrightarrow> \<forall>a\<in>set cs. length a \<le> 26" for i
  proof (induction cs arbitrary: i)
    case (Cons a cs)
    then show ?case by (cases cs) auto
  qed simp
  then show "good_path cs" "comp_ok c" "length cs < 10" "\<forall>a\<in>set cs. length a \<le> 26"
    using assms fits_prefix [of 0 cs c] fits_length [of 0 "cs @ [c]"] by (auto simp: good_path_def)
qed

lemma length_path_of: "\<forall>a\<in>set cs. length a \<le> 26 \<Longrightarrow> length (path_of cs) \<le> 27 * length cs + 1"
proof -
  assume "\<forall>a\<in>set cs. length a \<le> 26"
  then have "length (join_path cs) \<le> 27 * length cs"
    by (induction cs) auto
  then show ?thesis by (simp add: path_of_def)
qed

lemma NUL_path_of: "list_all comp_ok cs \<Longrightarrow> NUL \<notin> set (path_of cs)"
  by (simp add: path_of_def NUL_join_path)

text \<open>The directory part and the last component that the handlers compute.\<close>

lemma parent_of:
  assumes "good_path (cs @ [c])" "250 \<le> length pbuf"
  obtains pb where "get_parent_path (path_of (cs @ [c])) pbuf = Done pb" "c_str pb = Done (path_of cs)"
proof -
  have ok: "list_all comp_ok (cs @ [c])"
    using assms(1) by (simp add: good_path_def)
  note g = good_path_parent [OF assms(1)]
  have "length (path_of cs) < length pbuf"
    using length_path_of [OF g(4)] g(3) assms(2) by linarith
  then show ?thesis
    using that get_parent_path_of [OF ok] NUL_path_of [of cs] ok by simp
qed

lemma name_of:
  assumes "good_path (cs @ [c])" "27 \<le> length fbuf" "length c \<le> 26"
  obtains fb where "get_last_filename env (path_of (cs @ [c])) fbuf = Done (0, fb)" "c_str fb = Done c"
  using get_last_filename_of [of cs c fbuf env] assms by (auto simp: good_path_def)

section \<open>locate\_new: the checks of fs\_create and fs\_mkdir\<close>

lemma locate_new_ok:
  assumes "disk_inv (disk s)" "good_path (cs @ [c])" "length c \<le> 26" "resolve (disk s) 2 cs = int p"
    "is_dir (disk s) p" "lookup_dirent (dir_at (disk s) p) c = None"
  obtains fn where "locate_new env s (path_of (cs @ [c])) = Done (Inr (inode_at (disk s) p, fn))"
    "c_str fn = Done c"
proof -
  note g = good_path_parent [OF assms(2)]
  obtain pb where pb: "get_parent_path (path_of (cs @ [c])) (uninit env ''src_dir_path'' 280) = Done pb"
      "c_str pb = Done (path_of cs)"
    by (rule parent_of [OF assms(2), of "uninit env ''src_dir_path'' 280"]) simp
  obtain fb where fb: "get_last_filename env (path_of (cs @ [c])) (uninit env ''filename'' 28) = Done (0, fb)"
      "c_str fb = Done c"
    by (rule name_of [OF assms(2) _ assms(3), of "uninit env ''filename'' 28" env]) simp
  have "path_to_inum env s (path_of (cs @ [c])) = Done (- ENOENT)"
    using path_to_inum_good [OF assms(1,2)] resolve_snoc [OF assms(4,5)] assms(6) by simp
  moreover note h = handler_entry [OF assms(1) g(1) assms(4)]
  ultimately have "locate_new env s (path_of (cs @ [c])) = Done (Inr (inode_at (disk s) p, fb))"
    using pb fb assms(5) by (simp add: locate_new_def is_dir_def errno_defs)
  with fb that show ?thesis by blast
qed

lemma locate_new_exists:
  assumes "disk_inv (disk s)" "good_path cs" "resolve (disk s) 2 cs = int k"
  shows "locate_new env s (path_of cs) = Done (Inl (- EEXIST))"
  using handler_entry [OF assms] by (simp add: locate_new_def on_disk_def)

lemma locate_new_parent:
  assumes "disk_inv (disk s)" "good_path (cs @ [c])"
  shows "resolve (disk s) 2 cs < 0 \<Longrightarrow>
      locate_new env s (path_of (cs @ [c])) = Done (Inl (- ENOENT))"
    "resolve (disk s) 2 cs = int p \<Longrightarrow> \<not> is_dir (disk s) p \<Longrightarrow>
      locate_new env s (path_of (cs @ [c])) = Done (Inl (- ENOTDIR))"
proof -
  note g = good_path_parent [OF assms(2)]
  obtain pb where pb: "get_parent_path (path_of (cs @ [c])) (uninit env ''src_dir_path'' 280) = Done pb"
      "c_str pb = Done (path_of cs)"
    by (rule parent_of [OF assms(2), of "uninit env ''src_dir_path'' 280"]) simp
  have neg: "resolve (disk s) 2 (cs @ [c]) < 0" if "\<not> (\<exists>p. resolve (disk s) 2 cs = int p \<and> is_dir (disk s) p)"
  proof -
    have "resolve d k cs = int p \<and> \<not> is_dir d p \<or> resolve d k cs < 0 \<Longrightarrow> resolve d k (cs @ [c]) < 0"
      for d k p
      by (induction cs arbitrary: k) (auto simp: errno_defs split: if_splits option.splits)
    then show ?thesis
      using that resolve_total [of "disk s" 2 cs] by (auto simp: errno_defs)
  qed
  show "locate_new env s (path_of (cs @ [c])) = Done (Inl (- ENOENT))" if "resolve (disk s) 2 cs < 0"
    using neg that path_to_inum_good [OF assms] path_to_inum_good [OF assms(1) g(1)] pb
    by (auto simp: locate_new_def)
  show "locate_new env s (path_of (cs @ [c])) = Done (Inl (- ENOTDIR))"
    if "resolve (disk s) 2 cs = int p" "\<not> is_dir (disk s) p"
    using neg that path_to_inum_good [OF assms] handler_entry [OF assms(1) g(1) that(1)] pb
    by (auto simp: locate_new_def is_dir_def)
qed

lemma locate_new_long:
  assumes "disk_inv (disk s)" "good_path (cs @ [c])" "27 < length c" "resolve (disk s) 2 cs = int p"
    "is_dir (disk s) p"
  shows "locate_new env s (path_of (cs @ [c])) = Done (Inl (- EINVAL))"
proof -
  note g = good_path_parent [OF assms(2)]
  note h = handler_entry [OF assms(1) g(1) assms(4)]
  have ok: "list_all comp_ok (cs @ [c])"
    using assms(2) by (simp add: good_path_def)
  obtain pb where pb: "get_parent_path (path_of (cs @ [c])) (uninit env ''src_dir_path'' 280) = Done pb"
      "c_str pb = Done (path_of cs)"
    by (rule parent_of [OF assms(2), of "uninit env ''src_dir_path'' 280"]) simp
  have "dirents_ok (dir_at (disk s) p)"
    using disk_invD(2,3) [OF assms(1)] h(2) assms(5) by (auto intro!: dir_at_ok simp: node_ok_def on_disk_def)
  then have "resolve (disk s) 2 (cs @ [c]) = - ENOENT"
    using lookup_long_name [OF _ assms(3)] resolve_snoc [OF assms(4,5)] by simp
  then show ?thesis
    using path_to_inum_good [OF assms(1,2)] h pb assms(5) get_last_filename_long [OF ok g(4) assms(3) g(3)]
    by (simp add: locate_new_def is_dir_def errno_defs)
qed

section \<open>add\_dirent\<close>

definition free_slot :: "fs_dirent list \<Rightarrow> nat \<Rightarrow> bool" where
  "free_slot es i \<longleftrightarrow> i < length es \<and> \<not> d_valid (es ! i) \<and> (\<forall>j<i. d_valid (es ! j))"

lemma free_slot_ex:
  assumes "\<exists>e\<in>set es. \<not> d_valid e"
  obtains i where "free_slot es i"
proof -
  obtain j where "j < length es \<and> \<not> d_valid (es ! j)"
    using assms by (auto simp: in_set_conv_nth)
  then have "free_slot es (LEAST j. j < length es \<and> \<not> d_valid (es ! j))"
    unfolding free_slot_def by (smt (verit) LeastI_ex dual_order.strict_trans not_less_Least)
  then show ?thesis by (rule that)
qed

lemma fill_entry_full: "\<forall>e\<in>set es. d_valid e \<Longrightarrow> fill_entry es n fn = Done None"
  by (induction es) simp_all

definition filled :: "fs_dirent \<Rightarrow> 32 word \<Rightarrow> string \<Rightarrow> fs_dirent" where
  "filled e n c =
     \<lparr>d_valid = True, d_inode = ucast n, d_name = c @ NUL # drop (Suc (length c)) (d_name e)\<rparr>"

lemma fill_entry_slot:
  assumes "list_all dirent_ok es" "free_slot es i" "c_str fn = Done c" "length c \<le> 26"
  shows "fill_entry es n fn = Done (Some (es[i := filled (es ! i) n c]))"
  using assms(1,2)
proof (induction es arbitrary: i)
  case (Cons e es)
  obtain rest where fn: "fn = c @ NUL # rest" "NUL \<notin> set c"
    using assms(3) by (auto simp: c_str_Done_iff)
  show ?case
  proof (cases i)
    case 0
    then show ?thesis
      using Cons.prems assms(4) strcpy_fits [OF fn(2), of "d_name e" rest]
      by (simp add: free_slot_def filled_def dirent_ok_def fn(1))
  next
    case (Suc j)
    then have "d_valid e" "free_slot es j"
      using Cons.prems(2) by (auto simp: free_slot_def)
    then show ?thesis
      using Cons Suc by simp
  qed
qed (simp add: free_slot_def)

lemma filled_ok:
  assumes "dirent_ok e" "length c \<le> 26" "NUL \<notin> set c" "k < 32768"
  shows "dirent_ok (filled e (of_int (int k)) c)" "entry_named c (filled e (of_int (int k)) c)"
    "unat (d_inode (filled e (of_int (int k)) c)) = k"
proof -
  have "unat (of_nat k :: 32 word) = k"
    using assms(4) by (simp add: unat_of_nat)
  then show "unat (d_inode (filled e (of_int (int k)) c)) = k"
    using assms(4) by (simp add: filled_def unsigned_ucast_eq take_bit_nat_eq_self_iff)
qed (use assms in \<open>simp_all add: filled_def dirent_ok_def entry_named_def\<close>)

text \<open>On the image, \<open>add_dirent\<close> on the entries of directory \<open>p\<close> is \<open>add_link\<close>.\<close>

lemma add_dirent_link:
  assumes "disk_inv (disk s)" "reach (disk s) p" "is_dir (disk s) p" "free_slot (dir_at (disk s) p) i"
    "c_str fn = Done c" "length c \<le> 26"
  shows "add_dirent s (dir_at (disk s) p) (sint (i_ptrs (inode_at (disk s) p) ! 0)) n fn =
    Done (0, s\<lparr>disk := add_link (disk s) p i (filled (dir_at (disk s) p ! i) n c)\<rparr>)"
proof -
  let ?b = "i_ptrs (inode_at (disk s) p) ! 0"
  have node: "node_ok (disk s) p"
    by (rule disk_invD(3) [OF assms(1,2)])
  then have on: "on_disk (disk s) (dir_blk (disk s) p)" and b: "sint ?b = int (dir_blk (disk s) p)"
    using assms(3) on_disk_sint [of "disk s" ?b] by (simp_all add: node_ok_def dir_blk_def)
  have "list_all dirent_ok (dir_at (disk s) p)"
    using dir_at_ok [OF disk_invD(2) [OF assms(1)]] on by (auto simp: on_disk_def dirents_ok_def)
  then show ?thesis
    unfolding b using fill_entry_slot [OF _ assms(4-6), of n] on
    by (simp add: add_dirent_def write_dirents_def write_block_def block_write_on_disk add_link_def)
qed

lemma read_dir_reach:
  assumes "disk_inv d" "reach d p" "is_dir d p"
  shows "read_dirents d old (sint (i_ptrs (inode_at d p) ! 0)) = dir_at d p"
  using disk_invD(3) [OF assms(1,2)] assms(3) by (auto intro: read_dir_on_disk simp: node_ok_def)

section \<open>A new node under a fresh block\<close>

lemma unused_unowned:
  "fs_inv s \<Longrightarrow> k < 32768 \<Longrightarrow> \<not> used (block_bitmap s) k \<Longrightarrow> unowned (disk s) k \<and> 2 \<le> k"
  by (auto simp: fs_inv_def marked_def unowned_def numeral_2_eq_2 Suc_le_eq intro!: Suc_leI)
    (metis One_nat_def Suc_lessI gr0I)

text \<open>
  \<open>extends d d1\<close>: \<open>d1\<close> is \<open>d\<close> with blocks written that nobody owns.
\<close>

definition extends :: "disk \<Rightarrow> disk \<Rightarrow> bool" where
  "extends d d1 \<longleftrightarrow> disk_inv d1 \<and> tree_ok d1 \<and> same_names d d1 \<and> (\<forall>b. unowned d1 b = unowned d b) \<and>
     (\<forall>j. reach d j \<longrightarrow> inode_at d1 j = inode_at d j \<and> (\<forall>b\<in>set (blocks_of d j). d1 ! b = d ! b))"

lemma extends_put:
  assumes "disk_inv d" "tree_ok d" "unowned d k" "length b = 4096"
  shows "extends d (put_block d k b)"
proof -
  note p = put_unowned [OF assms(1,3,4)]
  have "put_block d k b ! x = d ! x" if "reach d j" "x \<in> set (blocks_of d j)" for j x
    using assms(3) that disk_invD(4) [OF assms(1) that(1)] put_block_keeps [of x d k]
    by (auto simp: unowned_def owns_ok_def on_disk_def)
  then show ?thesis
    using p unowned_put [OF assms(1,3,4)] same_names_tree_ok [OF p(1) assms(2)] by (simp add: extends_def)
qed

lemma extendsD:
  assumes "extends d d1"
  shows "disk_inv d1" "tree_ok d1" "same_names d d1" "unowned d1 b = unowned d b"
    "reach d j \<Longrightarrow> inode_at d1 j = inode_at d j" "reach d j \<Longrightarrow> b \<in> set (blocks_of d j) \<Longrightarrow> d1 ! b = d ! b"
    "reach d1 j = reach d j" "reach d j \<Longrightarrow> is_dir d1 j = is_dir d j"
    "reach d j \<Longrightarrow> is_dir d j \<Longrightarrow> dir_at d1 j = dir_at d j" "reach d j \<Longrightarrow> blocks_of d1 j = blocks_of d j"
  using assms same_names_reach [of d d1] by (auto simp: extends_def same_names_def blocks_of_def)

lemma extends_trans:
  assumes "extends d d1" "extends d1 d2"
  shows "extends d d2"
proof -
  note a = extendsD [OF assms(1)] and b = extendsD [OF assms(2)]
  have "same_names d d2"
    using a(7-9) b(7-9) by (simp add: same_names_def)
  then show ?thesis
    using a b by (simp add: extends_def)
qed

lemma bitmap_disk_swap: "s\<lparr>disk := d, block_bitmap := m\<rparr> = s\<lparr>block_bitmap := m, disk := d\<rparr>"
  by (cases s) simp

lemma add_link_fs_inv:
  assumes "can_add d p i e c k" "length m = FS_BLOCK_SIZE" "used m 0" "used m 1"
    "\<And>j. reach d j \<or> j = k \<Longrightarrow>
      j < 32768 \<and> used m j \<and> (\<forall>b\<in>set (blocks_of d j). b < 32768 \<and> used m b)"
  shows "fs_inv (s\<lparr>disk := add_link d p i e, block_bitmap := m\<rparr>)"
  using add_link_disk_inv [OF assms(1)] add_link_tree [OF assms(1)] add_link_reach [OF assms(1)]
    add_link_kept(4) [OF assms(1)] assms(2-5)
  by (simp add: fs_inv_def bitmap_ok_def marked_def)

section \<open>The name space after a node was added\<close>

text \<open>
  \<open>grown d d' p c k\<close>: directory \<open>p\<close> has the new entry \<open>c\<close> for the new node \<open>k\<close>; every node that was
  there keeps its inode, every other lookup its answer, every file its blocks.
\<close>

definition grown :: "disk \<Rightarrow> disk \<Rightarrow> nat \<Rightarrow> string \<Rightarrow> nat \<Rightarrow> bool" where
  "grown d d' p c k \<longleftrightarrow>
     \<not> reach d k \<and> (\<forall>j. reach d' j \<longleftrightarrow> reach d j \<or> j = k) \<and>
     (\<forall>j. reach d j \<longrightarrow> inode_at d' j = inode_at d j) \<and>
     (\<forall>j n. reach d j \<longrightarrow> is_dir d j \<longrightarrow> lookup_dirent (dir_at d' j) n =
        (if j = p \<and> n = c then Some k else lookup_dirent (dir_at d j) n)) \<and>
     (\<forall>j b. reach d j \<longrightarrow> \<not> is_dir d j \<longrightarrow> b \<in> set (blocks_of d j) \<longrightarrow> d' ! b = d ! b)"

lemma grown_is_dir: "grown d d' p c k \<Longrightarrow> reach d j \<Longrightarrow> is_dir d' j = is_dir d j"
  by (simp add: grown_def is_dir_def)

lemma grown_resolve_old:
  assumes "grown d d' p c k" "lookup_dirent (dir_at d p) c = None" "resolve d 2 ds = int j"
  shows "resolve d' 2 ds = int j"
proof (rule resolve_mono [OF _ _ reach_root assms(3)])
  show "lookup_dirent (dir_at d' j) n = Some m"
    if "reach d j" "is_dir d j" "lookup_dirent (dir_at d j) n = Some m" for j n m
    using assms(1,2) that by (auto simp: grown_def)
qed (rule grown_is_dir [OF assms(1)])

lemma grown_resolve_new:
  assumes "grown d d' p c k" "lookup_dirent (dir_at d p) c = None" "resolve d 2 cs = int p" "is_dir d p"
  shows "resolve d' 2 (cs @ [c]) = int k"
proof -
  have p: "reach d p"
    by (rule resolve_reach [OF reach_root assms(3)])
  show ?thesis
    using resolve_snoc [OF grown_resolve_old [OF assms(1,2,3)]] grown_is_dir [OF assms(1) p] assms(1,4) p
    by (simp add: grown_def)
qed

lemma file_block_apart:
  assumes "disk_inv d" "reach d p" "is_dir d p" "reach d j" "\<not> is_dir d j" "b \<in> set (blocks_of d j)"
  shows "b \<noteq> dir_blk d p"
  using disk_invD(6) [OF assms(1,2,4)] dir_blk_owned [OF assms(3)] assms(3,5,6) by auto

lemma add_link_grown:
  assumes "can_add d1 p i e c k" "extends d d1"
  shows "grown d (add_link d1 p i e) p c k"
proof -
  note a = can_addD [OF assms(1)] and x = extendsD [OF assms(2)]
  have "add_link d1 p i e ! b = d ! b"
    if "reach d j" "\<not> is_dir d j" "b \<in> set (blocks_of d j)" for j b
  proof -
    have "b \<noteq> dir_blk d1 p"
      using file_block_apart [OF a(1,3,4), of j b] that x(7,8,10) by simp
    then show ?thesis
      using x(6) [OF that(1,3)] by (simp add: add_link_def)
  qed
  then show ?thesis
    using a(14) add_link_reach [OF assms(1)] add_link_kept(1) [OF assms(1)] add_link_lookup [OF assms(1)]
      x(5,7-9)
    by (auto simp: grown_def)
qed

text \<open>The entry that the handlers write for the fresh node \<open>k\<close> may be added.\<close>

lemma can_add_filled:
  assumes "extends d d1" "disk_inv d" "reach d p" "is_dir d p" "free_slot (dir_at d p) i"
    "lookup_dirent (dir_at d p) c = None" "comp_ok c" "length c \<le> 26" "k < 32768" "fresh_node d1 k"
  shows "can_add d1 p i (filled (dir_at d p ! i) (of_int (int k)) c) c k"
proof -
  note x = extendsD [OF assms(1)]
  have "dirent_ok (dir_at d p ! i)"
    using dir_at_ok [OF disk_invD(2) [OF assms(2)], of p] disk_invD(3) [OF assms(2,3)] assms(4,5)
    by (auto simp: node_ok_def on_disk_def dirents_ok_def list_all_iff free_slot_def)
  from filled_ok [OF this assms(8) _ assms(9)] show ?thesis
    using assms x(1,2,7-9) by (simp add: can_add_def free_slot_def comp_ok_def)
qed

section \<open>fs\_create\<close>

lemma reg_not_dir: "\<not> S_ISDIR (mode OR S_IFREG)"
proof
  assume "S_ISDIR (mode OR S_IFREG)"
  then have "bit ((mode OR S_IFREG) AND S_IFMT) 15 = bit S_IFDIR 15"
    by (simp add: S_ISDIR_def)
  then show False
    by (simp add: bit_and_iff bit_or_iff)
qed

lemma new_inode_ok [simp]: "inode_ok (new_inode env mode b)"
  by (simp add: new_inode_def inode_ok_def)

lemma new_inode_simps [simp]:
  "i_mode (new_inode env mode b) = mode" "i_ptrs (new_inode env mode b) = b # replicate 1018 0"
  "i_size (new_inode env mode b) = 0"
  by (simp_all add: new_inode_def)

lemma fs_create_ok:
  fixes env :: fs_env
  assumes "fs_inv s" "good_path (cs @ [c])" "length c \<le> 26" "resolve (disk s) 2 cs = int p"
    "is_dir (disk s) p" "lookup_dirent (dir_at (disk s) p) c = None" "\<exists>e\<in>set (dir_at (disk s) p). \<not> d_valid e"
    "k < 32768" "\<not> used (block_bitmap s) k" "\<forall>m<k. used (block_bitmap s) m"
  obtains s' where "fs_create env s (path_of (cs @ [c])) mode = Done (0, s')" "fs_inv s'"
    "grown (disk s) (disk s') p c k" "inode_at (disk s') k = new_inode env (mode OR S_IFREG) 0"
    "block_bitmap s' = mark (block_bitmap s) k True" "\<forall>b<2. disk s' ! b = disk s ! b"
proof -
  let ?d = "disk s" and ?m = "mark (block_bitmap s) k True" and ?i = "new_inode env (mode OR S_IFREG) 0"
  let ?d1 = "put_block (disk s) k (encode_inode ?i)"
  let ?s1 = "s\<lparr>block_bitmap := ?m, disk := ?d1\<rparr>"
  have inv: "disk_inv ?d" "tree_ok ?d" "bitmap_ok s" "marked s"
    using assms(1) by (simp_all add: fs_inv_def)
  have k: "unowned ?d k" "2 \<le> k"
    using unused_unowned [OF assms(1,8,9)] by simp_all
  have ext: "extends ?d ?d1"
    by (rule extends_put [OF inv(1,2) k(1)]) simp
  note x = extendsD [OF ext]
  have p: "reach ?d p"
    by (rule resolve_reach [OF reach_root assms(4)])
  have p1: "reach ?d1 p" "is_dir ?d1 p" "dir_at ?d1 p = dir_at ?d p" "inode_at ?d1 p = inode_at ?d p"
    using x(5,7-9) p assms(5) by auto
  obtain i where i: "free_slot (dir_at ?d p) i"
    by (rule free_slot_ex [OF assms(7)])
  obtain fn where fn: "locate_new env s (path_of (cs @ [c])) = Done (Inr (inode_at ?d p, fn))" "c_str fn = Done c"
    by (rule locate_new_ok [OF inv(1) assms(2-6)])
  let ?e = "filled (dir_at ?d p ! i) (of_int (int k)) c"
  have w: "write_inode (s\<lparr>block_bitmap := ?m\<rparr>) ?i (int k) = Done ?s1"
    using block_write_put [of k ?d "encode_inode ?i"] k(2) assms(8)
    by (simp add: write_inode_def write_block_def)
  have run: "fs_create env s (path_of (cs @ [c])) mode = Done (0, ?s1\<lparr>disk := add_link ?d1 p i ?e\<rparr>)"
    using add_dirent_link [of ?s1, simplified, OF x(1) p1(1,2) _ fn(2) assms(3)] i
      read_dir_reach [OF x(1) p1(1,2)] alloc_blk_finds [OF inv(3) assms(8-10)]
    by (simp add: fs_create_def fn(1) w p1(3,4) Let_def)
  have at: "inode_at ?d1 k = ?i"
    by (simp add: inode_at_def nth_put_block)
  then have no_blocks: "blocks_of ?d1 k = []"
    using reg_not_dir [of mode] by (simp add: blocks_of_def inode_blocks_def)
  then have "fresh_node ?d1 k"
    using x(4) k assms(8) reg_not_dir [of mode] at
    by (simp add: fresh_node_def is_dir_def on_disk_def length_put_block)
  note add = can_add_filled [OF ext inv(1) p assms(5) i assms(6) good_path_parent(2) [OF assms(2)] assms(3,8) this]
  have used: "used ?m x = (x = k \<or> used (block_bitmap s) x)" for x
    using used_mark [of "block_bitmap s" k True x] in_map_bitmap_ok [OF inv(3)] assms(8) by simp
  have "fs_inv (s\<lparr>disk := add_link ?d1 p i ?e, block_bitmap := ?m\<rparr>)"
    using inv(3,4) assms(8) x(7,10) no_blocks
    by (intro add_link_fs_inv [OF add]) (auto simp: bitmap_ok_def marked_def used)
  then have "fs_inv (?s1\<lparr>disk := add_link ?d1 p i ?e\<rparr>)"
    by (simp add: bitmap_disk_swap)
  moreover have "add_link ?d1 p i ?e ! b = ?d ! b" if "b < 2" for b
  proof -
    have "2 \<le> dir_blk ?d1 p"
      using disk_invD(4) [OF x(1) p1(1)] dir_blk_owned [OF p1(2)] by (auto simp: owns_ok_def)
    moreover have "b < length ?d"
      using disk_invD(5) [OF inv(1) reach_root] that by (simp add: on_disk_def)
    ultimately show ?thesis
      using that k(2) by (simp add: add_link_def put_block_keeps)
  qed
  ultimately show ?thesis
    using run that [of "?s1\<lparr>disk := add_link ?d1 p i ?e\<rparr>"] at add_link_grown [OF add ext]
      add_link_kept(1) [OF add, of k] by simp
qed

section \<open>fs\_mkdir\<close>

text \<open>The new directory block is written after the entry; the two writes commute.\<close>

lemma add_link_put_block:
  assumes "dir_blk d p < length d" "p < length d" "p \<noteq> b" "dir_blk d p \<noteq> b"
  shows "put_block (add_link d p i e) b x = add_link (put_block d b x) p i e"
proof -
  have "inode_at (put_block d b x) p = inode_at d p"
    using assms by (simp add: inode_at_def put_block_keeps)
  then have "dir_blk (put_block d b x) p = dir_blk d p" "dir_at (put_block d b x) p = dir_at d p"
    using assms by (simp_all add: dir_blk_def dir_at_def put_block_keeps)
  then show ?thesis
    using assms by (simp add: add_link_def put_block_def list_update_swap list_update_append)
qed

lemma blank_entries:
  "dirents_ok (map (\<lambda>e. e\<lparr>d_valid := False\<rparr>) (uninit_dirents env v))"
  "\<forall>e\<in>set (map (\<lambda>e. e\<lparr>d_valid := False\<rparr>) (uninit_dirents env v)). \<not> d_valid e"
proof -
  have "dirents_ok (uninit_dirents env v)"
    by (simp add: uninit_dirents_def)
  then show "dirents_ok (map (\<lambda>e. e\<lparr>d_valid := False\<rparr>) (uninit_dirents env v))"
    by (auto simp: dirents_ok_def list_all_iff dirent_ok_def)
qed simp

text \<open>A directory inode on block \<open>k\<close> with blank entries on block \<open>b\<close>, both fresh.\<close>

lemma fresh_dir:
  assumes "disk_inv d" "tree_ok d" "unowned d k" "unowned d b" "k \<noteq> b" "2 \<le> k" "2 \<le> b" "k < 32768"
    "b < 32768" "inode_ok i" "S_ISDIR (i_mode i)" "i_ptrs i ! 0 = of_nat b" "dirents_ok es"
    "\<forall>e\<in>set es. \<not> d_valid e"
  defines "d2 \<equiv> put_block (put_block d k (encode_inode i)) b (encode_dirents es)"
  shows "extends d d2" "fresh_node d2 k" "inode_at d2 k = i" "blocks_of d2 k = [b]" "dir_at d2 k = es"
proof -
  let ?d1 = "put_block d k (encode_inode i)"
  have e1: "extends d ?d1"
    using extends_put [OF assms(1-3)] assms(10) by simp
  have "extends ?d1 d2"
    using extends_put [OF extendsD(1,2) [OF e1]] extendsD(4) [OF e1] assms(4,13) by (simp add: d2_def)
  with e1 show ext: "extends d d2"
    by (rule extends_trans)
  have "unat (of_nat b :: 32 word) = b"
    using assms(9) by (simp add: unat_of_nat)
  moreover have k: "d2 ! k = encode_inode i"
    using assms(5) by (simp add: d2_def nth_put_block length_put_block)
  ultimately show at: "inode_at d2 k = i" and bl: "blocks_of d2 k = [b]" and "dir_at d2 k = es"
    using assms(10-13)
    by (simp_all add: inode_at_def blocks_of_def inode_blocks_def dir_at_def dir_blk_def d2_def nth_put_block)
  then show "fresh_node d2 k"
    using extendsD(4) [OF ext] assms
    by (auto simp: fresh_node_def on_disk_def d2_def length_put_block)
qed

definition two_free :: "8 word list \<Rightarrow> nat \<Rightarrow> nat \<Rightarrow> bool" where
  "two_free m k b \<longleftrightarrow> k < b \<and> b < 32768 \<and> \<not> used m k \<and> \<not> used m b \<and> (\<forall>x<b. x \<noteq> k \<longrightarrow> used m x)"

lemma alloc_two:
  assumes "bitmap_ok s" "two_free (block_bitmap s) k b"
  defines "m \<equiv> mark (block_bitmap s) k True"
  shows "alloc_blk s = Done (int k, s\<lparr>block_bitmap := m\<rparr>)"
    "alloc_blk (s\<lparr>block_bitmap := m\<rparr>) = Done (int b, s\<lparr>block_bitmap := mark m b True\<rparr>)"
    "used (mark m b True) x = (x = b \<or> x = k \<or> used (block_bitmap s) x)"
proof -
  have kb: "k < b" "b < 32768" "k < 32768" "\<not> used (block_bitmap s) k" "\<not> used (block_bitmap s) b"
      "\<forall>x<k. used (block_bitmap s) x" "\<forall>x<b. x \<noteq> k \<longrightarrow> used (block_bitmap s) x"
    using assms(2) by (auto simp: two_free_def)
  note in_map = in_map_bitmap_ok [OF assms(1)]
  have used1: "used m x = (x = k \<or> used (block_bitmap s) x)" for x
    using used_mark [of "block_bitmap s" k True x] in_map kb(3) by (simp add: m_def)
  show "used (mark m b True) x = (x = b \<or> x = k \<or> used (block_bitmap s) x)"
    using used_mark [of m b True x] in_map kb(2) used1 by (simp add: m_def)
  show "alloc_blk s = Done (int k, s\<lparr>block_bitmap := m\<rparr>)"
    unfolding m_def by (rule alloc_blk_finds [OF assms(1) kb(3,4,6)])
  have "bitmap_ok (s\<lparr>block_bitmap := m\<rparr>)"
    using assms(1) by (simp add: bitmap_ok_def m_def)
  then show "alloc_blk (s\<lparr>block_bitmap := m\<rparr>) = Done (int b, s\<lparr>block_bitmap := mark m b True\<rparr>)"
    using alloc_blk_finds [of "s\<lparr>block_bitmap := m\<rparr>" b] kb used1 by auto
qed

lemma fs_mkdir_ok:
  fixes env :: fs_env
  assumes "fs_inv s" "good_path (cs @ [c])" "length c \<le> 26" "resolve (disk s) 2 cs = int p"
    "is_dir (disk s) p" "lookup_dirent (dir_at (disk s) p) c = None" "\<exists>e\<in>set (dir_at (disk s) p). \<not> d_valid e"
    "two_free (block_bitmap s) k b" "S_ISDIR (mode OR S_IFDIR)"
  obtains s' where "fs_mkdir env s (path_of (cs @ [c])) mode = Done (0, s')" "fs_inv s'"
    "grown (disk s) (disk s') p c k" "inode_at (disk s') k = new_inode env (mode OR S_IFDIR) (of_nat b)"
    "\<forall>e\<in>set (dir_at (disk s') k). \<not> d_valid e"
    "block_bitmap s' = mark (mark (block_bitmap s) k True) b True"
proof -
  let ?d = "disk s" and ?m = "mark (mark (block_bitmap s) k True) b True"
    and ?i = "new_inode env (mode OR S_IFDIR) (of_nat b)"
    and ?es = "map (\<lambda>e. e\<lparr>d_valid := False\<rparr>) (uninit_dirents env ''new_dir_entries'')"
  let ?d1 = "put_block ?d k (encode_inode ?i)"
  let ?d2 = "put_block ?d1 b (encode_dirents ?es)"
  let ?s1 = "s\<lparr>block_bitmap := ?m, disk := ?d1\<rparr>"
  have inv: "disk_inv ?d" "tree_ok ?d" "bitmap_ok s" "marked s"
    using assms(1) by (simp_all add: fs_inv_def)
  have kb: "k < b" "b < 32768" "k < 32768" "\<not> used (block_bitmap s) k" "\<not> used (block_bitmap s) b"
      "\<forall>x<k. used (block_bitmap s) x" "\<forall>x<b. x \<noteq> k \<longrightarrow> used (block_bitmap s) x"
    using assms(8) by (auto simp: two_free_def)
  have un: "unowned ?d k" "2 \<le> k" "unowned ?d b" "2 \<le> b"
    using unused_unowned [OF assms(1)] kb by auto
  note alloc = alloc_two(1,2) [OF inv(3) assms(8)] and used = alloc_two(3) [OF inv(3) assms(8)]
  have e1: "extends ?d ?d1"
    by (rule extends_put [OF inv(1,2) un(1)]) simp
  note x1 = extendsD [OF e1]
  have p: "reach ?d p"
    by (rule resolve_reach [OF reach_root assms(4)])
  have p1: "reach ?d1 p" "is_dir ?d1 p" "dir_at ?d1 p = dir_at ?d p" "inode_at ?d1 p = inode_at ?d p"
    using x1(5,7-9) p assms(5) by auto
  obtain i where i: "free_slot (dir_at ?d p) i"
    by (rule free_slot_ex [OF assms(7)])
  obtain fn where fn: "locate_new env s (path_of (cs @ [c])) = Done (Inr (inode_at ?d p, fn))" "c_str fn = Done c"
    by (rule locate_new_ok [OF inv(1) assms(2-6)])
  let ?e = "filled (dir_at ?d p ! i) (of_int (int k)) c"
  have w: "write_inode (s\<lparr>block_bitmap := ?m\<rparr>) ?i (int k) = Done ?s1"
    using block_write_put [of k ?d "encode_inode ?i"] un(2) kb(3)
    by (simp add: write_inode_def write_block_def)
  have w2: "write_dirents (?s1\<lparr>disk := add_link ?d1 p i ?e\<rparr>) ?es (int b) =
      Done (?s1\<lparr>disk := put_block (add_link ?d1 p i ?e) b (encode_dirents ?es)\<rparr>)"
    using block_write_put [of b] un(4) kb(2) by (simp add: write_dirents_def write_block_def)
  have sw: "put_block (add_link ?d1 p i ?e) b (encode_dirents ?es) = add_link ?d2 p i ?e"
  proof (rule add_link_put_block)
    show "dir_blk ?d1 p < length ?d1" "p < length ?d1"
      using disk_invD(3) [OF x1(1) p1(1)] p1(2) by (auto simp: node_ok_def on_disk_def)
    show "p \<noteq> b"
      using un(3) p by (auto simp: unowned_def)
    show "dir_blk ?d1 p \<noteq> b"
      using un(3) dir_blk_apart(2) [OF x1(1) p1(1,2)] x1(4) by metis
  qed
  have run: "fs_mkdir env s (path_of (cs @ [c])) mode = Done (0, ?s1\<lparr>disk := add_link ?d2 p i ?e\<rparr>)"
    using add_dirent_link [of ?s1, simplified, OF x1(1) p1(1,2) _ fn(2) assms(3)] i
      read_dir_reach [OF x1(1) p1(1,2)] alloc w w2 sw
    by (simp add: fs_mkdir_def fn(1) p1(3,4) Let_def)
  have "k \<noteq> b" using kb(1) by simp
  note f = fresh_dir [where i = ?i and es = ?es, OF inv(1,2) un(1,3) this un(2,4) kb(3,2) new_inode_ok _ _
      blank_entries, simplified new_inode_simps, OF assms(9) nth_Cons_0]
  note add = can_add_filled [OF f(1) inv(1) p assms(5) i assms(6) good_path_parent(2) [OF assms(2)]
      assms(3) kb(3) f(2)]
  note x = extendsD [OF f(1)]
  have "fs_inv (s\<lparr>disk := add_link ?d2 p i ?e, block_bitmap := ?m\<rparr>)"
    using inv(3,4) kb x(7,10) f(4)
    by (intro add_link_fs_inv [OF add]) (auto simp: bitmap_ok_def marked_def used)
  then have inv': "fs_inv (?s1\<lparr>disk := add_link ?d2 p i ?e\<rparr>)"
    by (simp add: bitmap_disk_swap)
  have at: "inode_at (add_link ?d2 p i ?e) k = ?i" "dir_at (add_link ?d2 p i ?e) k = ?es"
    using add_link_kept(1,5) [OF add, of k] f(3,5) assms(9) can_addD(13) [OF add]
    by (simp_all only: is_dir_def new_inode_simps simp_thms if_False)
  have blank: "\<forall>e\<in>set (dir_at (add_link ?d2 p i ?e) k). \<not> d_valid e"
    unfolding at(2) by (rule blank_entries(2))
  define d' m where "d' = add_link ?d2 p i ?e" and "m = ?m"
  show ?thesis
    using that [of "?s1\<lparr>disk := d'\<rparr>"] run inv' at(1) blank add_link_grown [OF add f(1)]
    unfolding d'_def [symmetric] m_def [symmetric] by simp
qed

end
