(* ===== verification/Fs_Remove.thy ===== *)
theory Fs_Remove
  imports Fs_Names
begin

text \<open>
  \<^verbatim>\<open>fs_unlink\<close> and \<^verbatim>\<open>fs_rmdir\<close> of Lab 5: the blocks of the node are released in the cached bitmap, the
  modification time of the parent is set, and the entry is cleared, which is \<open>rm_link\<close> of the tree.
\<close>

section \<open>The name space after a node was removed\<close>

text \<open>
  \<open>shrunk d d' p c k\<close>: directory \<open>p\<close> has lost the entry \<open>c\<close> of node \<open>k\<close>; every other node keeps its
  inode (the parent but for its modification time), every other lookup its answer, every file its
  blocks.
\<close>

definition touched :: "fs_env \<Rightarrow> fs_inode \<Rightarrow> fs_inode" where
  "touched env i = i\<lparr>i_mtime := of_int (env_time env)\<rparr>"

definition shrunk :: "fs_env \<Rightarrow> disk \<Rightarrow> disk \<Rightarrow> nat \<Rightarrow> string \<Rightarrow> nat \<Rightarrow> bool" where
  "shrunk env d d' p c k \<longleftrightarrow>
     (\<forall>j. reach d' j \<longleftrightarrow> reach d j \<and> j \<noteq> k) \<and>
     (\<forall>j. reach d j \<longrightarrow> inode_at d' j = (if j = p then touched env (inode_at d p) else inode_at d j)) \<and>
     (\<forall>j n. reach d j \<longrightarrow> is_dir d j \<longrightarrow> lookup_dirent (dir_at d' j) n =
        (if j = p \<and> n = c then None else lookup_dirent (dir_at d j) n)) \<and>
     (\<forall>j b. reach d j \<longrightarrow> \<not> is_dir d j \<longrightarrow> b \<in> set (blocks_of d j) \<longrightarrow> d' ! b = d ! b)"

lemma resolve_snocD:
  assumes "resolve d a (cs @ [c]) = int k"
  obtains p where "resolve d a cs = int p" "is_dir d p" "lookup_dirent (dir_at d p) c = Some k"
  using assms
proof (induction cs arbitrary: a)
  case Nil
  then show ?case by (auto simp: errno_defs split: if_splits option.splits)
next
  case (Cons x cs)
  then show ?case by (auto simp: errno_defs split: if_splits option.splits)
qed

section \<open>Touching the parent and clearing its entry\<close>

definition touch :: "fs_env \<Rightarrow> disk \<Rightarrow> nat \<Rightarrow> disk" where
  "touch env d p = d[p := encode_inode (touched env (inode_at d p))]"

lemma touch_update:
  assumes "disk_inv d" "reach d p"
  shows "inode_update d p (touched env (inode_at d p))"
  by (rule inode_update_attr [OF assms]) (simp_all add: touched_def is_dir_def)

lemma touch_shape:
  assumes "disk_inv d" "reach d p" "reach d j"
  shows "inode_at (touch env d p) j = (if j = p then touched env (inode_at d p) else inode_at d j)"
    "is_dir (touch env d p) j = is_dir d j" "blocks_of (touch env d p) j = blocks_of d j"
    "is_dir d j \<Longrightarrow> dir_blk (touch env d p) j = dir_blk d j" "is_dir d j \<Longrightarrow> dir_at (touch env d p) j = dir_at d j"
proof -
  note u = touch_update [OF assms(1,2), of env]
  note sh = inode_update_shape [OF u, folded touch_def]
  show "inode_at (touch env d p) j = (if j = p then touched env (inode_at d p) else inode_at d j)"
    "is_dir (touch env d p) j = is_dir d j" "is_dir d j \<Longrightarrow> dir_blk (touch env d p) j = dir_blk d j"
    by (fact sh)+
  show "is_dir d j \<Longrightarrow> dir_at (touch env d p) j = dir_at d j"
    using inode_update_same_names [OF u] assms(3) by (simp add: same_names_def touch_def)
  show "blocks_of (touch env d p) j = blocks_of d j"
    by (auto simp: sh blocks_of_def inode_blocks_def touched_def)
qed

lemma can_rm_touched:
  assumes "disk_inv d" "tree_ok d" "reach d p" "is_dir d p" "i < length (dir_at d p)"
    "entry_named c (dir_at d p ! i)" "unat (d_inode (dir_at d p ! i)) = k"
    "is_dir d k \<Longrightarrow> \<forall>e\<in>set (dir_at d k). \<not> d_valid e"
  shows "can_rm (touch env d p) p i c k"
proof -
  note u = touch_update [OF assms(1,3), of env]
  have "reach d k"
    using reach_entry [OF assms(3,4) nth_mem [OF assms(5)]] assms(6,7) by (auto simp: entry_named_def)
  then show ?thesis
    using assms(3-8) touch_shape [OF assms(1,3), of p env] touch_shape [OF assms(1,3), of k env]
      inode_update_disk_inv [OF u, folded touch_def]
      same_names_tree_ok [OF inode_update_same_names [OF u, folded touch_def] assms(2)]
      inode_update_reach [OF u, folded touch_def]
    by (simp add: can_rm_def)
qed

lemma rm_link_shrunk:
  assumes "disk_inv d" "reach d p" "can_rm (touch env d p) p i c k"
  shows "shrunk env d (rm_link (touch env d p) p i) p c k"
proof -
  let ?d1 = "touch env d p"
  note r = can_rmD [OF assms(3)] and kept = rm_link_kept [OF assms(3)]
    and sh = touch_shape [OF assms(1,2), of _ env]
  have rc: "reach ?d1 j = reach d j" for j
    unfolding touch_def by (rule inode_update_reach [OF touch_update [OF assms(1,2)]])
  have "rm_link ?d1 p i ! b = d ! b" if "reach d j" "\<not> is_dir d j" "b \<in> set (blocks_of d j)" for j b
  proof -
    have "b \<noteq> dir_blk ?d1 p"
      using file_block_apart [OF r(1,3,4), of j b] that sh [OF that(1)] by (simp add: rc)
    moreover have "b \<noteq> p"
      using disk_invD(4) [OF assms(1) that(1)] that(3) assms(2) by (auto simp: owns_ok_def)
    ultimately show ?thesis
      by (simp add: rm_link_def) (simp add: touch_def)
  qed
  then show ?thesis
    using rm_link_reach [OF assms(3)] kept(1) rm_link_lookup [OF assms(3)] sh
    by (auto simp: shrunk_def rc)
qed

lemma rm_link_fs_inv:
  assumes "can_rm d p i c k" "length m = FS_BLOCK_SIZE" "used m 0" "used m 1"
    "\<And>j. reach d j \<Longrightarrow> j \<noteq> k \<Longrightarrow>
      j < 32768 \<and> used m j \<and> (\<forall>b\<in>set (blocks_of d j). b < 32768 \<and> used m b)"
  shows "fs_inv (s\<lparr>disk := rm_link d p i, block_bitmap := m\<rparr>)"
  using rm_link_disk_inv [OF assms(1)] rm_link_tree [OF assms(1)] rm_link_reach [OF assms(1)]
    rm_link_kept(4) [OF assms(1)] assms(2-5)
  by (auto simp: fs_inv_def bitmap_ok_def marked_def)

text \<open>Releasing the node and its blocks leaves every other node marked.\<close>

lemma removed_fs_inv:
  assumes "fs_inv s" "reach (disk s) p" "can_rm (touch env (disk s) p) p i c k"
  shows "fs_inv (s\<lparr>disk := rm_link (touch env (disk s) p) p i,
    block_bitmap := unmark (block_bitmap s) (k # blocks_of (disk s) k)\<rparr>)"
proof -
  let ?d = "disk s" and ?d1 = "touch env (disk s) p"
  define m where "m = unmark (block_bitmap s) (k # blocks_of (disk s) k)"
  have inv: "disk_inv ?d" and bm: "bitmap_ok s" and mk: "marked s"
    using assms(1) by (simp_all add: fs_inv_def)
  note sh = touch_shape [OF inv assms(2), of _ env] and r = can_rmD [OF assms(3)]
  have rc: "reach ?d1 j = reach ?d j" for j
    unfolding touch_def by (rule inode_update_reach [OF touch_update [OF inv assms(2)]])
  have k: "reach ?d k" using r(11) rc by simp
  then have small: "\<forall>b\<in>set (k # blocks_of ?d k). b < 32768"
    using mk by (auto simp: marked_def)
  have used: "used m b" if "b < 32768" "used (block_bitmap s) b" "b \<noteq> k" "b \<notin> set (blocks_of ?d k)" for b
    using used_unmark [OF bm small that(1)] that by (simp add: m_def)
  note own = disk_invD(4) [OF inv]
  have "used m 0" "used m 1"
    using mk own [OF k] by (auto intro!: used simp: marked_def owns_ok_def)
  moreover have "j < 32768 \<and> used m j \<and> (\<forall>b\<in>set (blocks_of ?d1 j). b < 32768 \<and> used m b)"
    if "reach ?d1 j" "j \<noteq> k" for j
  proof -
    have j: "reach ?d j" using that rc by simp
    have "j \<notin> set (blocks_of ?d k)" "k \<notin> set (blocks_of ?d j)" "set (blocks_of ?d j) \<inter> set (blocks_of ?d k) = {}"
      using own [OF k] own [OF j] j k disk_invD(6) [OF inv j k that(2)] by (auto simp: owns_ok_def)
    moreover have "j < 32768" "used (block_bitmap s) j"
        "\<forall>b\<in>set (blocks_of ?d j). b < 32768 \<and> used (block_bitmap s) b"
      using mk j by (simp_all add: marked_def)
    ultimately show ?thesis
      using used that(2) unfolding sh(3) [OF j] by blast
  qed
  ultimately show ?thesis
    unfolding m_def [symmetric]
    using bm by (intro rm_link_fs_inv [OF assms(3)]) (auto simp: bitmap_ok_def m_def)
qed

section \<open>fs\_unlink\<close>

lemma clear_named:
  assumes "disk_inv d" "reach d p" "is_dir d p" "lookup_dirent (dir_at d p) c = Some k" "c_str fb = Done c"
  obtains i where "get_dirent_index (dir_at d p) fb = Done (int i)" "i < length (dir_at d p)"
    "entry_named c (dir_at d p ! i)" "unat (d_inode (dir_at d p ! i)) = k"
    "clear_entry (dir_at d p) (int i) = Done ((dir_at d p)[i := (dir_at d p ! i)\<lparr>d_valid := False\<rparr>])"
proof -
  have "names_ok (dir_at d p)"
    using disk_invD(3) [OF assms(1,2)] assms(3) by (simp add: node_ok_def)
  from get_dirent_index_Some [OF this assms(5,4)] show ?thesis
    using that by (auto simp: clear_entry_def)
qed

lemma write_rm_link:
  assumes "disk_inv (disk s)" "reach (disk s) p" "is_dir (disk s) p" "sint b = int (dir_blk (disk s) p)"
  shows "write_dirents s ((dir_at (disk s) p)[i := (dir_at (disk s) p ! i)\<lparr>d_valid := False\<rparr>]) (sint b) =
    Done (s\<lparr>disk := rm_link (disk s) p i\<rparr>)"
  using disk_invD(3) [OF assms(1,2)] assms(3,4)
  by (simp add: write_dirents_def write_block_def block_write_on_disk node_ok_def rm_link_def)

lemma dir_ptr:
  "disk_inv d \<Longrightarrow> reach d p \<Longrightarrow> is_dir d p \<Longrightarrow> sint (i_ptrs (inode_at d p) ! 0) = int (dir_blk d p)"
  using disk_invD(3) [of d p] on_disk_sint [of d "i_ptrs (inode_at d p) ! 0"]
  by (simp add: node_ok_def dir_blk_def)

lemma write_touched:
  assumes "disk_inv (disk s)" "reach (disk s) p"
  shows "write_inode s ((inode_at (disk s) p)\<lparr>i_mtime := of_int (env_time env)\<rparr>) (int p) =
    Done (s\<lparr>disk := touch env (disk s) p\<rparr>)"
  using write_inode_on_disk [OF disk_invD(5) [OF assms]] by (simp add: touch_def touched_def)

lemma free_ptrs_node:
  assumes "fs_inv s" "reach (disk s) k" "\<not> is_dir (disk s) k"
  shows "free_blk s (int k) = Done (s\<lparr>block_bitmap := mark (block_bitmap s) k False\<rparr>)"
    "free_ptrs (i_ptrs (inode_at (disk s) k)) (s\<lparr>block_bitmap := mark (block_bitmap s) k False\<rparr>) =
      Done (s\<lparr>block_bitmap := unmark (block_bitmap s) (k # blocks_of (disk s) k)\<rparr>)"
proof -
  have bm: "bitmap_ok s" and mk: "marked s"
    using assms(1) by (simp_all add: fs_inv_def)
  have bl: "blocks_of (disk s) k = map unat (filter (\<lambda>p. p \<noteq> 0) (i_ptrs (inode_at (disk s) k)))"
    using assms(3) by (simp add: blocks_of_def inode_blocks_def is_dir_def)
  have small: "k < 32768" "\<forall>b\<in>set (blocks_of (disk s) k). b < 32768"
    using mk assms(2) by (simp_all add: marked_def)
  then show "free_blk s (int k) = Done (s\<lparr>block_bitmap := mark (block_bitmap s) k False\<rparr>)"
    using free_blk_Done [OF bm] by simp
  show "free_ptrs (i_ptrs (inode_at (disk s) k)) (s\<lparr>block_bitmap := mark (block_bitmap s) k False\<rparr>) =
      Done (s\<lparr>block_bitmap := unmark (block_bitmap s) (k # blocks_of (disk s) k)\<rparr>)"
    using free_ptrs_Done [of "s\<lparr>block_bitmap := mark (block_bitmap s) k False\<rparr>"
        "i_ptrs (inode_at (disk s) k)"] bm small(2)
    by (auto simp: bl bitmap_ok_def)
qed

text \<open>What both handlers have when the path names node \<open>k\<close> in directory \<open>p\<close>.\<close>

lemma named_node:
  assumes "fs_inv s" "good_path (cs @ [c])" "length c \<le> 26" "resolve (disk s) 2 (cs @ [c]) = int k"
  obtains p i pb fb where "resolve (disk s) 2 cs = int p" "reach (disk s) p" "is_dir (disk s) p"
    "lookup_dirent (dir_at (disk s) p) c = Some k" "reach (disk s) k"
    "path_to_inum env s (path_of (cs @ [c])) = Done (int k)"
    "\<And>old. read_inode (disk s) old (int k) = inode_at (disk s) k"
    "\<And>s'. disk s' = disk s \<Longrightarrow> path_to_inum env s' (path_of cs) = Done (int p)"
    "\<And>old. read_inode (disk s) old (int p) = inode_at (disk s) p"
    "get_parent_path (path_of (cs @ [c])) (uninit env ''parent_dir_path'' 270) = Done pb"
    "c_str pb = Done (path_of cs)"
    "get_last_filename env (path_of (cs @ [c])) (uninit env ''filename'' 27) = Done (0, fb)"
    "get_dirent_index (dir_at (disk s) p) fb = Done (int i)" "i < length (dir_at (disk s) p)"
    "entry_named c (dir_at (disk s) p ! i)" "unat (d_inode (dir_at (disk s) p ! i)) = k"
    "clear_entry (dir_at (disk s) p) (int i) =
       Done ((dir_at (disk s) p)[i := (dir_at (disk s) p ! i)\<lparr>d_valid := False\<rparr>])"
proof -
  have inv: "disk_inv (disk s)"
    using assms(1) by (simp add: fs_inv_def)
  obtain p where p: "resolve (disk s) 2 cs = int p" "is_dir (disk s) p"
      "lookup_dirent (dir_at (disk s) p) c = Some k"
    by (rule resolve_snocD [OF assms(4)])
  note g = good_path_parent(1) [OF assms(2)]
  note h = handler_entry [OF inv assms(2,4)] and hp = handler_entry [OF inv g p(1)]
  have "path_to_inum env s' (path_of cs) = Done (int p)" if "disk s' = disk s" for s'
    using path_to_inum_good [OF _ g] inv p(1) that by simp
  moreover obtain pb where "get_parent_path (path_of (cs @ [c])) (uninit env ''parent_dir_path'' 270) = Done pb"
      "c_str pb = Done (path_of cs)"
    by (rule parent_of [OF assms(2), of "uninit env ''parent_dir_path'' 270"]) simp
  moreover obtain fb where "get_last_filename env (path_of (cs @ [c])) (uninit env ''filename'' 27) = Done (0, fb)"
      and fb: "c_str fb = Done c"
    by (rule name_of [OF assms(2) _ assms(3), of "uninit env ''filename'' 27" env]) simp
  moreover obtain i where "get_dirent_index (dir_at (disk s) p) fb = Done (int i)" "i < length (dir_at (disk s) p)"
      "entry_named c (dir_at (disk s) p ! i)" "unat (d_inode (dir_at (disk s) p ! i)) = k"
      "clear_entry (dir_at (disk s) p) (int i) =
         Done ((dir_at (disk s) p)[i := (dir_at (disk s) p ! i)\<lparr>d_valid := False\<rparr>])"
    by (rule clear_named [OF inv hp(2) p(2,3) fb])
  ultimately show ?thesis
    using that p h hp by blast
qed

lemma fs_unlink_ok:
  fixes env :: fs_env
  assumes "fs_inv s" "good_path (cs @ [c])" "length c \<le> 26" "resolve (disk s) 2 (cs @ [c]) = int k"
    "\<not> is_dir (disk s) k"
  obtains s' p where "resolve (disk s) 2 cs = int p" "fs_unlink env s (path_of (cs @ [c])) = Done (0, s')"
    "fs_inv s'" "shrunk env (disk s) (disk s') p c k"
    "block_bitmap s' = unmark (block_bitmap s) (k # blocks_of (disk s) k)"
proof (rule named_node [OF assms(1-4), of env])
  fix p i pb fb
  assume p: "resolve (disk s) 2 cs = int p" "reach (disk s) p" "is_dir (disk s) p"
    and k: "lookup_dirent (dir_at (disk s) p) c = Some k" "reach (disk s) k"
      "path_to_inum env s (path_of (cs @ [c])) = Done (int k)"
      "\<And>old. read_inode (disk s) old (int k) = inode_at (disk s) k"
      "\<And>s'. disk s' = disk s \<Longrightarrow> path_to_inum env s' (path_of cs) = Done (int p)"
      "\<And>old. read_inode (disk s) old (int p) = inode_at (disk s) p"
    and pb: "get_parent_path (path_of (cs @ [c])) (uninit env ''parent_dir_path'' 270) = Done pb"
      "c_str pb = Done (path_of cs)"
      "get_last_filename env (path_of (cs @ [c])) (uninit env ''filename'' 27) = Done (0, fb)"
    and i: "get_dirent_index (dir_at (disk s) p) fb = Done (int i)" "i < length (dir_at (disk s) p)"
      "entry_named c (dir_at (disk s) p ! i)" "unat (d_inode (dir_at (disk s) p ! i)) = k"
      "clear_entry (dir_at (disk s) p) (int i) =
         Done ((dir_at (disk s) p)[i := (dir_at (disk s) p ! i)\<lparr>d_valid := False\<rparr>])"
  have inv: "disk_inv (disk s)" "tree_ok (disk s)"
    using assms(1) by (simp_all add: fs_inv_def)
  let ?d1 = "touch env (disk s) p"
  have rm: "can_rm ?d1 p i c k"
    by (rule can_rm_touched [OF inv p(2,3) i(2,3,4)]) (use assms(5) in simp)
  note r = can_rmD [OF rm] and sh = touch_shape [OF inv(1) p(2,2), of env]
  define m where "m = unmark (block_bitmap s) (k # blocks_of (disk s) k)"
  note fr = free_ptrs_node [OF assms(1) k(2) assms(5), folded m_def]
  have p0: "sint (i_ptrs (inode_at (disk s) p) ! 0) = int (dir_blk ?d1 p)"
    using dir_ptr [OF inv(1) p(2,3)] sh(4) [OF p(3)] by simp
  note w = write_rm_link [of "s\<lparr>block_bitmap := m, disk := ?d1\<rparr>" p "i_ptrs (inode_at (disk s) p) ! 0" i,
      simplified, OF r(1,3,4) p0]
  have "read_dirents ?d1 old (sint (i_ptrs (inode_at (disk s) p) ! 0)) = dir_at (disk s) p" for old
    using read_dir_reach [OF r(1,3,4), of old] sh(1,5) p(3) by (simp add: touched_def)
  then have "fs_unlink env s (path_of (cs @ [c])) = Done (0, s\<lparr>block_bitmap := m, disk := rm_link ?d1 p i\<rparr>)"
    using k(3-6) assms(5) fr pb i(1,5) w p0 sh(5) [OF p(3)]
      write_touched [of "s\<lparr>block_bitmap := m\<rparr>" p env] p(2) inv(1)
    by (simp add: fs_unlink_def is_dir_def Let_def)
  then show ?thesis
    using that [OF p(1)] removed_fs_inv [OF assms(1) p(2) rm] rm_link_shrunk [OF inv(1) p(2) rm]
    unfolding m_def [symmetric] by (simp add: bitmap_disk_swap)
qed

section \<open>fs\_rmdir\<close>

text \<open>Here the entry is cleared before the inode of the parent is written; the two writes commute.\<close>

lemma rm_link_touch:
  assumes "disk_inv d" "reach d p" "is_dir d p"
  shows "(rm_link d p i)[p := encode_inode (touched env (inode_at d p))] = rm_link (touch env d p) p i"
  using touch_shape(4,5) [OF assms(1,2,2,3)] dir_blk_not_inode [OF assms(1,2,3,2)]
  by (simp add: rm_link_def) (simp add: touch_def list_update_swap)

lemma fs_rmdir_ok:
  fixes env :: fs_env
  assumes "fs_inv s" "good_path (cs @ [c])" "length c \<le> 26" "resolve (disk s) 2 (cs @ [c]) = int k"
    "is_dir (disk s) k" "\<forall>e\<in>set (dir_at (disk s) k). \<not> d_valid e"
  obtains s' p where "resolve (disk s) 2 cs = int p" "fs_rmdir env s (path_of (cs @ [c])) = Done (0, s')"
    "fs_inv s'" "shrunk env (disk s) (disk s') p c k"
    "block_bitmap s' = unmark (block_bitmap s) (k # blocks_of (disk s) k)"
proof (rule named_node [OF assms(1-4), of env])
  fix p i pb fb
  assume p: "resolve (disk s) 2 cs = int p" "reach (disk s) p" "is_dir (disk s) p"
    and k: "lookup_dirent (dir_at (disk s) p) c = Some k" "reach (disk s) k"
      "path_to_inum env s (path_of (cs @ [c])) = Done (int k)"
      "\<And>old. read_inode (disk s) old (int k) = inode_at (disk s) k"
      "\<And>s'. disk s' = disk s \<Longrightarrow> path_to_inum env s' (path_of cs) = Done (int p)"
      "\<And>old. read_inode (disk s) old (int p) = inode_at (disk s) p"
    and pb: "get_parent_path (path_of (cs @ [c])) (uninit env ''parent_dir_path'' 270) = Done pb"
      "c_str pb = Done (path_of cs)"
      "get_last_filename env (path_of (cs @ [c])) (uninit env ''filename'' 27) = Done (0, fb)"
    and i: "get_dirent_index (dir_at (disk s) p) fb = Done (int i)" "i < length (dir_at (disk s) p)"
      "entry_named c (dir_at (disk s) p ! i)" "unat (d_inode (dir_at (disk s) p ! i)) = k"
      "clear_entry (dir_at (disk s) p) (int i) =
         Done ((dir_at (disk s) p)[i := (dir_at (disk s) p ! i)\<lparr>d_valid := False\<rparr>])"
  have inv: "disk_inv (disk s)" "tree_ok (disk s)" "bitmap_ok s" "marked s"
    using assms(1) by (simp_all add: fs_inv_def)
  let ?d1 = "touch env (disk s) p"
  have rm: "can_rm ?d1 p i c k"
    by (rule can_rm_touched [OF inv(1,2) p(2,3) i(2,3,4)]) (use assms(6) in simp)
  define m where "m = unmark (block_bitmap s) (k # blocks_of (disk s) k)"
  have bl: "blocks_of (disk s) k = [dir_blk (disk s) k]"
    using assms(5) by (simp add: blocks_of_def inode_blocks_def is_dir_def dir_blk_def)
  have fr: "free_blk s (int k) = Done (s\<lparr>block_bitmap := mark (block_bitmap s) k False\<rparr>)"
    "free_blk (s\<lparr>block_bitmap := mark (block_bitmap s) k False\<rparr>) (sint (i_ptrs (inode_at (disk s) k) ! 0)) =
      Done (s\<lparr>block_bitmap := m\<rparr>)"
    using inv(3,4) k(2) bl dir_ptr [OF inv(1) k(2) assms(5)]
      free_blk_Done [of s k] free_blk_Done [of "s\<lparr>block_bitmap := mark (block_bitmap s) k False\<rparr>" "dir_blk (disk s) k"]
    by (auto simp: marked_def m_def bitmap_ok_def)
  have p0: "sint (i_ptrs (inode_at (disk s) p) ! 0) = int (dir_blk (disk s) p)"
    by (rule dir_ptr [OF inv(1) p(2,3)])
  note w = write_rm_link [of "s\<lparr>block_bitmap := m\<rparr>" p "i_ptrs (inode_at (disk s) p) ! 0" i,
      simplified, OF inv(1) p(2,3) p0]
  have "on_disk (rm_link (disk s) p i) p"
    using disk_invD(5) [OF inv(1) p(2)] by (simp add: rm_link_def on_disk_def)
  then have w2: "write_inode (s\<lparr>block_bitmap := m, disk := rm_link (disk s) p i\<rparr>)
      ((inode_at (disk s) p)\<lparr>i_mtime := of_int (env_time env)\<rparr>) (int p) =
      Done (s\<lparr>block_bitmap := m, disk := rm_link ?d1 p i\<rparr>)"
    using write_inode_on_disk [of "s\<lparr>block_bitmap := m, disk := rm_link (disk s) p i\<rparr>" p]
      rm_link_touch [OF inv(1) p(2,3), of i env] by (simp add: touched_def)
  have empty: "\<not> list_ex d_valid (dir_at (disk s) k)"
    using assms(6) by (simp add: list_ex_iff)
  have "fs_rmdir env s (path_of (cs @ [c])) = Done (0, s\<lparr>block_bitmap := m, disk := rm_link ?d1 p i\<rparr>)"
    using k(3-6) assms(5) fr pb i(1,5) w p0 w2 empty read_dir_reach [OF inv(1) k(2) assms(5)]
      read_dir_reach [OF inv(1) p(2,3)]
    by (simp add: fs_rmdir_def is_dir_def Let_def)
  then show ?thesis
    using that [OF p(1)] removed_fs_inv [OF assms(1) p(2) rm] rm_link_shrunk [OF inv(1) p(2) rm]
    unfolding m_def [symmetric] by (simp add: bitmap_disk_swap)
qed

end
