(* ===== verification/Fs_Sample.thy ===== *)
theory Fs_Sample
  imports Fs_Remove
begin

text \<open>
  A concrete image of twelve blocks that satisfies the invariant of Lab 5: a root directory with
  the file \<^verbatim>\<open>/a\<close> (five bytes) and the empty directory \<^verbatim>\<open>/d\<close>.  The properties of the handlers are
  instantiated on it.
\<close>

definition pad_name :: "string \<Rightarrow> char list" where
  "pad_name c = c @ replicate (28 - length c) NUL"

definition entry_for :: "nat \<Rightarrow> string \<Rightarrow> fs_dirent" where
  "entry_for n c = \<lparr>d_valid = True, d_inode = of_nat n, d_name = pad_name c\<rparr>"

definition blank_entry :: fs_dirent where
  "blank_entry = \<lparr>d_valid = False, d_inode = 0, d_name = replicate 28 NUL\<rparr>"

definition sample_inode :: "32 word \<Rightarrow> 32 word \<Rightarrow> 32 word \<Rightarrow> fs_inode" where
  "sample_inode mode sz ptr =
    \<lparr>i_uid = 500, i_gid = 500, i_mode = mode, i_ctime = 7, i_mtime = 7, i_size = sz,
     i_ptrs = ptr # replicate 1018 0\<rparr>"

definition root_entries :: "fs_dirent list" where
  "root_entries = entry_for 4 ''a'' # entry_for 6 ''d'' # replicate 126 blank_entry"

definition sample_disk :: disk where
  "sample_disk =
    [encode_super \<lparr>magic = FS_MAGIC, disk_size = 12, pad = replicate 4088 NUL\<rparr>,
     char_of (255 :: nat) # replicate 4095 NUL,
     encode_inode (sample_inode 0x41FF 0 3), encode_dirents root_entries,
     encode_inode (sample_inode 0x81A4 5 5), ''hello'' @ replicate 4091 NUL,
     encode_inode (sample_inode 0x41ED 0 7), encode_dirents (replicate 128 blank_entry),
     replicate 4096 NUL, replicate 4096 NUL, replicate 4096 NUL, replicate 4096 NUL]"

definition sample :: fs_state where
  "sample = \<lparr>disk = sample_disk, num_blocks = 12, block_bitmap = 255 # replicate 4095 0\<rparr>"

definition sample_env :: fs_env where
  "sample_env = \<lparr>env_time = 9, env_uid = 500, env_gid = 500, env_stack = (\<lambda>_ _. NUL)\<rparr>"

lemma sample_inode_simps [simp]:
  "inode_ok (sample_inode m z p)" "i_mode (sample_inode m z p) = m" "i_size (sample_inode m z p) = z"
  "i_ptrs (sample_inode m z p) = p # replicate 1018 0"
  by (simp_all add: sample_inode_def inode_ok_def)

lemma dirent_ok_sample [simp]: "length c \<le> 28 \<Longrightarrow> dirent_ok (entry_for n c)" "dirent_ok blank_entry"
  by (simp_all add: dirent_ok_def entry_for_def pad_name_def blank_entry_def)

lemma dirents_ok_sample [simp]: "dirents_ok root_entries" "dirents_ok (replicate 128 blank_entry)"
  by (simp_all add: dirents_ok_def root_entries_def list_all_iff)

lemma sample_inodes:
  "inode_at sample_disk 2 = sample_inode 0x41FF 0 3" "inode_at sample_disk 4 = sample_inode 0x81A4 5 5"
  "inode_at sample_disk 6 = sample_inode 0x41ED 0 7"
  by (simp_all add: inode_at_def sample_disk_def)

lemma sample_nodes:
  "is_dir sample_disk 2" "\<not> is_dir sample_disk 4" "is_dir sample_disk 6"
  "dir_blk sample_disk 2 = 3" "dir_blk sample_disk 6 = 7"
  "blocks_of sample_disk 2 = [3]" "blocks_of sample_disk 4 = [5]" "blocks_of sample_disk 6 = [7]"
  by (simp_all add: is_dir_def S_ISDIR_def dir_blk_def blocks_of_def inode_blocks_def sample_inodes)

lemma sample_dirs:
  "dir_at sample_disk 2 = root_entries" "dir_at sample_disk 6 = replicate 128 blank_entry"
  by (simp_all add: dir_at_def sample_nodes) (simp_all add: sample_disk_def)

lemma sample_entries:
  "e \<in> set root_entries \<Longrightarrow> d_valid e \<Longrightarrow> e = entry_for 4 ''a'' \<or> e = entry_for 6 ''d''"
  "unat (d_inode (entry_for 4 ''a'')) = 4" "unat (d_inode (entry_for 6 ''d'')) = 6"
  "d_valid (entry_for n c)" "\<not> d_valid blank_entry"
  by (auto simp: root_entries_def blank_entry_def entry_for_def)

lemma sample_reach: "reach sample_disk j \<longleftrightarrow> j = 2 \<or> j = 4 \<or> j = 6"
proof
  assume "reach sample_disk j"
  then show "j = 2 \<or> j = 4 \<or> j = 6"
  proof induction
    case (reach_entry k e)
    then have "k = 2 \<or> k = 6"
      using sample_nodes by auto
    then show ?case
    proof
      assume "k = 2"
      then have "e = entry_for 4 ''a'' \<or> e = entry_for 6 ''d''"
        using reach_entry by (simp add: sample_dirs sample_entries(1))
      then show ?thesis
        using sample_entries(2,3) by blast
    next
      assume "k = 6"
      then show ?thesis
        using reach_entry sample_entries(5) by (simp add: sample_dirs)
    qed
  qed simp
next
  have "reach sample_disk (unat (d_inode e))" if "e \<in> set root_entries" "d_valid e" for e
    using reach_entry [OF reach_root] that sample_nodes(1) by (simp add: sample_dirs)
  from this [of "entry_for 4 ''a''"] this [of "entry_for 6 ''d''"]
  show "j = 2 \<or> j = 4 \<or> j = 6 \<Longrightarrow> reach sample_disk j"
    using sample_entries(2-4) by (auto simp: reach_root root_entries_def)
qed

lemma c_str_pad: "NUL \<notin> set c \<Longrightarrow> length c \<le> 27 \<Longrightarrow> c_str (pad_name c) = Done c"
proof -
  assume a: "NUL \<notin> set c" "length c \<le> 27"
  then have "28 - length c = Suc (27 - length c)"
    by simp
  then show ?thesis
    using a by (simp add: pad_name_def)
qed

lemma entry_named_sample:
  "entry_named n (entry_for 4 ''a'') \<longleftrightarrow> n = ''a''" "entry_named n (entry_for 6 ''d'') \<longleftrightarrow> n = ''d''"
  "\<not> entry_named n blank_entry"
  using c_str_pad [of "''a''"] c_str_pad [of "''d''"]
  by (auto simp: entry_named_def entry_for_def blank_entry_def)

lemma sample_lookup:
  "lookup_dirent root_entries n = (if n = ''a'' then Some 4 else if n = ''d'' then Some 6 else None)"
  using sample_entries(2,3)
  by (auto simp: lookup_dirent_def root_entries_def entry_named_sample find_None_iff)

lemma sample_disk_inv: "disk_inv sample_disk"
proof -
  have len: "length sample_disk = 12"
    by (simp add: sample_disk_def)
  have "wf_disk sample_disk"
    by (simp add: wf_disk_def sample_disk_def super_ok_def)
  moreover have "names_ok root_entries" "names_ok (replicate 128 blank_entry)"
    using c_str_pad [of "''a''"] c_str_pad [of "''d''"]
    by (auto simp: names_ok_def root_entries_def blank_entry_def entry_for_def)
  ultimately show ?thesis
    using sample_nodes by (auto simp: disk_inv_def wf_fs_def node_ok_def owns_ok_def sample_reach on_disk_def
        len sample_dirs)
qed

lemma sample_tree: "tree_ok sample_disk"
proof -
  have at: "root_entries ! i = (if i = 0 then entry_for 4 ''a'' else if i = 1 then entry_for 6 ''d''
      else blank_entry)" if "i < 128" for i
    using that by (auto simp: root_entries_def nth_Cons split: nat.splits)
  have len: "length root_entries = 128"
    by (simp add: root_entries_def)
  have "names_unique root_entries" "names_unique (replicate 128 blank_entry)"
    by (auto simp: names_unique_def len at entry_named_sample)
  moreover have "links sample_disk = {(2, 0), (2, 1)}"
    using sample_nodes sample_entries(4,5)
    by (auto simp: links_def sample_reach sample_dirs len at split: if_splits)
      (simp add: root_entries_def)
  moreover have "target sample_disk (2, 0) = 4" "target sample_disk (2, Suc 0) = 6"
    using sample_entries(2,3) by (simp_all add: target_def sample_dirs at)
  ultimately show ?thesis
    using sample_nodes by (auto simp: tree_ok_def sample_reach sample_dirs)
qed

lemma sample_used: "used (block_bitmap sample) n \<longleftrightarrow> n < 8" if "n < 32768"
proof (cases "n < 8")
  case True
  then have "n \<in> {0, 1, 2, 3, 4, 5, 6, 7}" by auto
  then show ?thesis
    by (auto simp: used_def sample_def)
next
  case False
  have "n div 8 < 4096"
    using that by simp
  then obtain q where "n div 8 = Suc q" "q < 4095"
    using False by (cases "n div 8") auto
  then show ?thesis
    using False by (simp add: used_def sample_def)
qed

lemma sample_inv: "fs_inv sample"
proof -
  have [simp]: "disk sample = sample_disk"
    by (simp add: sample_def)
  have "length (block_bitmap sample) = 4096"
    by (simp add: sample_def)
  then show ?thesis
    using sample_disk_inv sample_tree sample_nodes sample_used
    by (auto simp: fs_inv_def bitmap_ok_def marked_def sample_reach)
qed

lemma sample_disk_eq [simp]: "disk sample = sample_disk"
  by (simp add: sample_def)

lemma sample_resolve:
  "resolve sample_disk 2 [] = 2" "resolve sample_disk 2 [''a''] = 4" "resolve sample_disk 2 [''d''] = 6"
  by (simp_all add: sample_nodes sample_dirs sample_lookup)

lemma sample_paths:
  "path_of [] = ''/''" "path_of [''a''] = ''/a''" "path_of [''d''] = ''/d''" "path_of [''b''] = ''/b''"
  "good_path []" "good_path [''a'']" "good_path [''d'']" "good_path [''b'']"
  by (simp_all add: path_of_def join_path_def good_path_def comp_ok_def)

lemma sample_free: "\<exists>e\<in>set root_entries. \<not> d_valid e"
  by (auto simp: root_entries_def blank_entry_def)

section \<open>An image with no free block\<close>

definition full_sample :: fs_state where
  "full_sample = sample\<lparr>block_bitmap := replicate 4096 255\<rparr>"

lemma bits255 [simp]: "bit (255 :: int) (n mod 8)"
proof -
  have "n mod 8 < 8" by simp
  then have "n mod 8 \<in> {0, 1, 2, 3, 4, 5, 6, 7}" by auto
  then show ?thesis by auto
qed

lemma full_sample_inv:
  "fs_inv full_sample" "disk full_sample = sample_disk" "\<forall>m<32768. used (block_bitmap full_sample) m"
proof -
  show full: "\<forall>m<32768. used (block_bitmap full_sample) m"
    by (simp add: used_def full_sample_def)
  show [simp]: "disk full_sample = sample_disk"
    by (simp add: full_sample_def)
  have "length (block_bitmap full_sample) = 4096"
    by (simp add: full_sample_def)
  then show "fs_inv full_sample"
    using sample_inv full by (simp add: fs_inv_def bitmap_ok_def marked_def)
qed

section \<open>An image whose root directory has no free slot\<close>

definition crowd_entry :: "nat \<Rightarrow> fs_dirent" where
  "crowd_entry i = entry_for (4 + i) [char_of (100 + i)]"

definition crowd_entries :: "fs_dirent list" where
  "crowd_entries = map crowd_entry [0..<128]"

definition crowd_disk :: disk where
  "crowd_disk = [replicate 4096 NUL, replicate 4096 NUL, encode_inode (sample_inode 0x41FF 0 3),
     encode_dirents crowd_entries] @ replicate 128 (encode_inode (sample_inode 0x81A4 0 0))"

definition crowded :: fs_state where
  "crowded = \<lparr>disk = crowd_disk, num_blocks = 200, block_bitmap = replicate 17 255 @ replicate 4079 0\<rparr>"

lemma crowd_dirents_ok [simp]: "dirents_ok crowd_entries"
  by (simp add: dirents_ok_def crowd_entries_def crowd_entry_def list_all_iff)

lemma crowd_nodes:
  "inode_at crowd_disk 2 = sample_inode 0x41FF 0 3" "is_dir crowd_disk 2" "dir_blk crowd_disk 2 = 3"
  "blocks_of crowd_disk 2 = [3]" "dir_at crowd_disk 2 = crowd_entries"
proof -
  show "inode_at crowd_disk 2 = sample_inode 0x41FF 0 3"
    by (simp add: inode_at_def crowd_disk_def)
  then show "is_dir crowd_disk 2" "dir_blk crowd_disk 2 = 3" "blocks_of crowd_disk 2 = [3]"
    by (simp_all add: is_dir_def S_ISDIR_def dir_blk_def blocks_of_def inode_blocks_def)
  then show "dir_at crowd_disk 2 = crowd_entries"
    by (simp add: dir_at_def) (simp add: crowd_disk_def)
qed

lemma crowd_files:
  assumes "4 \<le> j" "j < 132"
  shows "\<not> is_dir crowd_disk j" "blocks_of crowd_disk j = []"
proof -
  obtain i where "j = 4 + i" "i < 128"
    using assms by (intro that [of "j - 4"]) simp_all
  then have "inode_at crowd_disk j = sample_inode 0x81A4 0 0"
    by (simp add: inode_at_def crowd_disk_def)
  then show "\<not> is_dir crowd_disk j" "blocks_of crowd_disk j = []"
    by (simp_all add: is_dir_def S_ISDIR_def blocks_of_def inode_blocks_def)
qed

lemma crowd_entry_simps:
  assumes "i < 128"
  shows "d_valid (crowd_entry i)" "unat (d_inode (crowd_entry i)) = 4 + i"
    "entry_named n (crowd_entry i) \<longleftrightarrow> n = [char_of (100 + i)]"
proof -
  have "char_of (100 + i) \<noteq> NUL"
  proof
    assume "char_of (100 + i) = NUL"
    then have "(of_char (char_of (100 + i) :: char) :: nat) = of_char NUL"
      by simp
    then show False
      using assms by simp
  qed
  then show "entry_named n (crowd_entry i) \<longleftrightarrow> n = [char_of (100 + i)]"
    using c_str_pad [of "[char_of (100 + i)]"] by (auto simp: entry_named_def crowd_entry_def entry_for_def)
  have "unat (of_nat (4 + i) :: 31 word) = 4 + i"
    using assms by (simp add: unat_of_nat del: of_nat_add)
  then show "unat (d_inode (crowd_entry i)) = 4 + i"
    by (simp only: crowd_entry_def entry_for_def fs_dirent.select_convs)
qed (simp add: crowd_entry_def entry_for_def)

lemma crowd_name_inj:
  fixes i j :: nat
  assumes "i < 128" "j < 128" "(char_of (100 + i) :: char) = char_of (100 + j)"
  shows "i = j"
proof -
  have "(of_char (char_of (100 + i) :: char) :: nat) = of_char (char_of (100 + j) :: char)"
    by (simp only: assms(3))
  then show ?thesis
    using assms(1,2) by simp
qed

lemma crowd_nth: "i < 128 \<Longrightarrow> crowd_entries ! i = crowd_entry i" "length crowd_entries = 128"
  by (simp_all add: crowd_entries_def)

lemma crowd_reach: "reach crowd_disk j \<longleftrightarrow> j = 2 \<or> (4 \<le> j \<and> j < 132)"
proof
  assume "reach crowd_disk j"
  then show "j = 2 \<or> (4 \<le> j \<and> j < 132)"
  proof induction
    case (reach_entry k e)
    then have "k = 2"
      using crowd_files by auto
    then show ?case
      using reach_entry crowd_entry_simps by (auto simp: crowd_nodes crowd_entries_def)
  qed simp
next
  assume "j = 2 \<or> (4 \<le> j \<and> j < 132)"
  moreover have "reach crowd_disk j" if "4 \<le> j" "j < 132"
  proof -
    have i: "j - 4 < 128" using that by simp
    then have "crowd_entry (j - 4) \<in> set (dir_at crowd_disk 2)"
      by (simp add: crowd_nodes crowd_entries_def)
    from reach_entry [OF reach_root crowd_nodes(2) this] show ?thesis
      using crowd_entry_simps [OF i] that by simp
  qed
  ultimately show "reach crowd_disk j"
    by (auto simp: reach_root)
qed

lemma crowded_used: "n < 32768 \<Longrightarrow> used (block_bitmap crowded) n \<longleftrightarrow> n < 136"
proof -
  assume n: "n < 32768"
  then have "n div 8 < 4096" by simp
  moreover have "n div 8 < 17 \<longleftrightarrow> n < 136" by auto
  ultimately show ?thesis
    by (auto simp: used_def crowded_def nth_append)
qed

lemma crowd_disk_inv: "disk_inv crowd_disk"
proof -
  have len: "length crowd_disk = 132"
    by (simp add: crowd_disk_def)
  have "wf_disk crowd_disk"
    by (auto simp: wf_disk_def crowd_disk_def)
  moreover have "names_ok crowd_entries"
    using crowd_entry_simps(3) by (fastforce simp: names_ok_def crowd_entries_def entry_named_def)
  ultimately show ?thesis
    using crowd_nodes crowd_files
    by (auto simp: disk_inv_def wf_fs_def node_ok_def owns_ok_def crowd_reach on_disk_def len)
qed

lemma crowd_tree: "tree_ok crowd_disk"
proof -
  have "names_unique crowd_entries"
    unfolding names_unique_def crowd_nth(2)
    using crowd_nth(1) crowd_entry_simps(3) crowd_name_inj by (metis list.inject)
  moreover have links: "links crowd_disk = {(2, i) |i. i < 128}"
    using crowd_nodes crowd_files crowd_entry_simps(1)
    by (auto simp: links_def crowd_reach crowd_nth)
  moreover have "target crowd_disk (2, i) = 4 + i" if "i < 128" for i
    using crowd_entry_simps(2) [OF that] that by (simp add: target_def crowd_nodes crowd_nth)
  ultimately show ?thesis
    using crowd_nodes crowd_files by (auto simp: tree_ok_def crowd_reach inj_on_def)
qed

lemma crowded_inv: "fs_inv crowded"
proof -
  have [simp]: "disk crowded = crowd_disk"
    by (simp add: crowded_def)
  have "length (block_bitmap crowded) = 4096"
    by (simp add: crowded_def)
  then show ?thesis
    using crowd_disk_inv crowd_tree crowd_nodes crowd_files crowded_used
    by (auto simp: fs_inv_def bitmap_ok_def marked_def crowd_reach)
qed

lemma crowded_root:
  "disk crowded = crowd_disk" "is_dir crowd_disk 2" "lookup_dirent (dir_at crowd_disk 2) ''0'' = None"
  "\<forall>e\<in>set (dir_at crowd_disk 2). d_valid e"
proof -
  have "[char_of (100 + i)] \<noteq> ''0''" if "i < 128" for i :: nat
  proof
    assume "[char_of (100 + i)] = ''0''"
    then have "(of_char (char_of (100 + i) :: char) :: nat) = of_char CHR ''0''"
      by simp
    then show False
      using that by simp
  qed
  then show "lookup_dirent (dir_at crowd_disk 2) ''0'' = None"
    using crowd_entry_simps(3) by (fastforce simp: crowd_nodes lookup_None_iff crowd_entries_def)
qed (use crowd_entry_simps(1) in \<open>auto simp: crowded_def crowd_nodes crowd_entries_def\<close>)

end
