(* ===== verification/Fs_Props.thy ===== *)
theory Fs_Props
  imports Fs_Sample
begin

text \<open>
  The properties of the file system of Lab 5, each with an instance on the sample image.
\<close>

section \<open>Files and paths that an update does not touch\<close>

lemma file_bytes_frame:
  assumes "disk_inv d" "reach d j" "\<not> is_dir d j" "file_ok (inode_at d j)"
    "i_size (inode_at d' j) = i_size (inode_at d j)" "i_ptrs (inode_at d' j) = i_ptrs (inode_at d j)"
    "\<And>b. b \<in> set (blocks_of d j) \<Longrightarrow> d' ! b = d ! b"
  shows "file_bytes d' j = file_bytes d j"
proof -
  let ?i = "inode_at d j"
  have "unat (i_ptrs ?i ! (x div 4096)) \<in> set (blocks_of d j)" if "x < fsize ?i" for x
  proof -
    have "x div 4096 < NUM_PTRS_INODE"
      using file_readable [OF assms(1-4) that] by (simp add: readable_def)
    moreover have "length (i_ptrs ?i) = NUM_PTRS_INODE"
      using inode_at_ok [of d j] disk_invD(2,5) [OF assms(1)] assms(2)
      by (auto simp: inode_ok_def on_disk_def)
    ultimately show ?thesis
      using assms(3,4) that by (auto simp: blocks_of_def inode_blocks_def is_dir_def file_ok_def)
  qed
  then show ?thesis
    using assms(5-7) by (simp add: file_bytes_def file_byte_def fsize_def)
qed

lemma update_files:
  assumes "inode_update d k i" "reach d j" "\<not> is_dir d j" "file_ok (inode_at d j)"
    "j = k \<Longrightarrow> i_size i = i_size (inode_at d k) \<and> i_ptrs i = i_ptrs (inode_at d k)"
  shows "file_bytes (d[k := encode_inode i]) j = file_bytes d j"
proof -
  note u = inode_updateD [OF assms(1)] and sh = inode_update_shape [OF assms(1)]
  have "b \<noteq> k" if "b \<in> set (blocks_of d j)" for b
    using disk_invD(4) [OF u(1) assms(2)] that u(2) by (auto simp: owns_ok_def)
  then show ?thesis
    using assms(5) by (intro file_bytes_frame [OF u(1) assms(2-4)]) (auto simp: sh(1,6))
qed

lemma grown_files:
  assumes "grown d d' p c k" "disk_inv d" "reach d j" "\<not> is_dir d j" "file_ok (inode_at d j)"
  shows "file_bytes d' j = file_bytes d j"
  using assms(1,3,4) by (intro file_bytes_frame [OF assms(2-5)]) (auto simp: grown_def)

lemma grown_paths:
  assumes "grown d d' p c k" "lookup_dirent (dir_at d p) c = None" "resolve d 2 ds = int j"
  shows "resolve d' 2 ds = int j" "inode_at d' j = inode_at d j"
  using grown_resolve_old [OF assms] assms(1) resolve_reach [OF reach_root assms(3)]
  by (auto simp: grown_def)

lemma shrunk_files:
  assumes "shrunk env d d' p c k" "disk_inv d" "reach d j" "\<not> is_dir d j" "file_ok (inode_at d j)" "is_dir d p"
  shows "file_bytes d' j = file_bytes d j"
  using assms(1,3,4,6) by (intro file_bytes_frame [OF assms(2-5)]) (auto simp: shrunk_def)

lemma shrunk_is_dir: "shrunk env d d' p c k \<Longrightarrow> reach d j \<Longrightarrow> is_dir d' j = is_dir d j"
  by (auto simp: shrunk_def is_dir_def touched_def)

lemma childless_resolve:
  assumes "is_dir d k \<Longrightarrow> \<forall>e\<in>set (dir_at d k). \<not> d_valid e" "resolve d k cs = int j"
  shows "j = k"
  using assms
  by (cases cs) (auto simp: errno_defs lookup_dirent_def find_Some_iff entry_named_def split: if_splits option.splits)

lemma shrunk_paths:
  assumes "shrunk env d d' p c k" "is_dir d p" "lookup_dirent (dir_at d p) c = Some k"
    "is_dir d k \<Longrightarrow> \<forall>e\<in>set (dir_at d k). \<not> d_valid e" "resolve d a ds = int j" "reach d a" "j \<noteq> k"
  shows "resolve d' a ds = int j"
  using assms(5,6)
proof (induction ds arbitrary: a)
  case (Cons x ds)
  then obtain m where m: "is_dir d a" "lookup_dirent (dir_at d a) x = Some m" "resolve d m ds = int j"
    by (auto simp: errno_defs split: if_splits option.splits)
  have "\<not> (a = p \<and> x = c)"
    using m(2,3) assms(3,7) childless_resolve [OF assms(4), of ds j] by auto
  then show ?case
    using m Cons.IH [OF m(3)] reach_lookup [OF Cons.prems(2) m(1,2)] assms(1) Cons.prems(2)
      shrunk_is_dir [OF assms(1) Cons.prems(2)]
    by (auto simp: shrunk_def)
qed simp

lemma shrunk_gone:
  assumes "shrunk env d d' p c k" "resolve d 2 cs = int p" "is_dir d p" "lookup_dirent (dir_at d p) c = Some k"
    "is_dir d k \<Longrightarrow> \<forall>e\<in>set (dir_at d k). \<not> d_valid e" "p \<noteq> k"
  shows "resolve d' 2 (cs @ [c]) = - ENOENT"
proof -
  have p: "reach d p"
    by (rule resolve_reach [OF reach_root assms(2)])
  have "resolve d' 2 cs = int p"
    using shrunk_paths [OF assms(1,3-5,2) reach_root assms(6)] .
  from resolve_snoc [OF this] show ?thesis
    using shrunk_is_dir [OF assms(1) p] assms(1,3) p by (simp add: shrunk_def)
qed

lemma released:
  assumes "fs_inv s" "reach (disk s) k"
  shows "\<forall>b\<in>set (k # blocks_of (disk s) k).
    \<not> used (unmark (block_bitmap s) (k # blocks_of (disk s) k)) b"
proof -
  have "bitmap_ok s" "\<forall>b\<in>set (k # blocks_of (disk s) k). b < 32768"
    using assms by (auto simp: fs_inv_def marked_def)
  from used_unmark [OF this] this(2) show ?thesis
    by blast
qed

lemma released_keeps:
  assumes "fs_inv s" "reach (disk s) k" "b < 32768" "b \<notin> set (k # blocks_of (disk s) k)"
  shows "used (unmark (block_bitmap s) (k # blocks_of (disk s) k)) b = used (block_bitmap s) b"
proof -
  have "bitmap_ok s" "\<forall>b\<in>set (k # blocks_of (disk s) k). b < 32768"
    using assms(1,2) by (auto simp: fs_inv_def marked_def)
  from used_unmark [OF this assms(3)] assms(4) show ?thesis
    by blast
qed

lemma shrunk_inodes:
  assumes "shrunk env d d' p c k"
  shows "\<forall>j. reach d j \<longrightarrow>
    inode_at d' j = (if j = p then (inode_at d j)\<lparr>i_mtime := of_int (env_time env)\<rparr> else inode_at d j)"
  using assms by (simp add: shrunk_def touched_def)

section \<open>Path translation\<close>

text \<open>
  C1. \<^verbatim>\<open>path_to_inum\<close> implements the walk over directories as maps from names to inodes: for
  components that fit the rows of \<^verbatim>\<open>filenames\<close> it returns the inode number, or \<^verbatim>\<open>-ENOENT\<close>/\<^verbatim>\<open>-ENOTDIR\<close>,
  whatever the stack holds.
\<close>

theorem path_to_inum_refines_resolve:
  assumes "wf_fs (disk s)" "list_all comp_ok cs" "fits 0 cs"
  shows "path_to_inum env s (path_of cs) = Done (resolve (disk s) 2 cs)"
  by (rule path_to_inum_path_of [OF assms])

theorem path_to_inum_refines_resolve_witness:
  "path_to_inum sample_env sample ''/d'' = Done 6 \<and> path_to_inum sample_env sample ''/b'' = Done (- ENOENT)"
  using path_to_inum_refines_resolve [of sample "[''d'']" sample_env]
    path_to_inum_refines_resolve [of sample "[''b'']" sample_env] sample_disk_inv
  by (simp add: disk_inv_def sample_paths sample_nodes sample_dirs sample_lookup comp_ok_def)

text \<open>
  A directory whose name has 27 bytes is accepted by the name check, but nothing below it can be
  found: the row of \<^verbatim>\<open>filenames\<close> has no room for its NUL, and the comparison reads into the next row.
\<close>

lemma path_to_inum_long_directory:
  assumes "wf_fs (disk s)" "comp_ok a" "comp_ok b" "length a = 27" "length b < 243"
  shows "path_to_inum env s (path_of [a, b]) = Done (- ENOENT)"
  by (rule path_to_inum_overflow [OF assms])

lemma path_to_inum_long_directory_witness:
  "path_to_inum sample_env sample (path_of [replicate 27 CHR ''x'', ''a'']) = Done (- ENOENT)"
  using path_to_inum_long_directory [of sample "replicate 27 CHR ''x''" "''a''" sample_env] sample_disk_inv
  by (simp add: disk_inv_def comp_ok_def)

section \<open>Creating files and directories\<close>

text \<open>
  C2. \<^verbatim>\<open>fs_create\<close> of a new name in a directory with a free slot: it returns 0, the path resolves to the
  lowest free block, which holds an empty regular file with the caller's owner and the current time; every
  path that resolved still resolves to the same node with the same inode, every file keeps its
  contents, and the invariant of the image and of the bitmap is kept.
\<close>

theorem fs_create_links:
  assumes "fs_inv s" "good_path (cs @ [c])" "length c \<le> 26" "resolve (disk s) 2 cs = int p"
    "is_dir (disk s) p" "lookup_dirent (dir_at (disk s) p) c = None" "\<exists>e\<in>set (dir_at (disk s) p). \<not> d_valid e"
    "k < 32768" "\<not> used (block_bitmap s) k" "\<forall>m<k. used (block_bitmap s) m"
  shows "\<exists>s'. fs_create env s (path_of (cs @ [c])) mode = Done (0, s') \<and> fs_inv s' \<and>
    resolve (disk s') 2 (cs @ [c]) = int k \<and>
    inode_at (disk s') k = new_inode env (mode OR S_IFREG) 0 \<and>
    (\<forall>ds j. resolve (disk s) 2 ds = int j \<longrightarrow>
       resolve (disk s') 2 ds = int j \<and> inode_at (disk s') j = inode_at (disk s) j) \<and>
    (\<forall>j. reach (disk s) j \<and> \<not> is_dir (disk s) j \<and> file_ok (inode_at (disk s) j) \<longrightarrow>
       file_bytes (disk s') j = file_bytes (disk s) j)"
proof -
  obtain s' where s': "fs_create env s (path_of (cs @ [c])) mode = Done (0, s')" "fs_inv s'"
      "grown (disk s) (disk s') p c k" "inode_at (disk s') k = new_inode env (mode OR S_IFREG) 0"
    by (rule fs_create_ok [OF assms])
  have inv: "disk_inv (disk s)"
    using assms(1) by (simp add: fs_inv_def)
  show ?thesis
    using s'(1,2,4) grown_resolve_new [OF s'(3) assms(6,4,5)] grown_paths [OF s'(3) assms(6)]
      grown_files [OF s'(3) inv]
    by blast
qed

theorem fs_create_links_witness:
  "\<exists>s'. fs_create sample_env sample ''/b'' 0x1A4 = Done (0, s') \<and> fs_inv s' \<and>
     resolve (disk s') 2 [''b''] = 8 \<and> resolve (disk s') 2 [''a''] = 4"
proof -
  have "resolve sample_disk 2 [''a''] = int 4"
    using sample_resolve by simp
  then show ?thesis
    using fs_create_links [of sample "[]" "''b''" 2 8 sample_env "0x1A4"] sample_inv sample_used
    by (auto simp: sample_paths sample_nodes sample_dirs sample_lookup sample_free sample_resolve
        simp del: resolve.simps)
qed

text \<open>
  C3. \<^verbatim>\<open>fs_mkdir\<close> of a new name: the path resolves to a new directory with no entries on the two lowest
  free blocks, and everything else is kept as for \<^verbatim>\<open>fs_create\<close>.
\<close>

theorem fs_mkdir_links:
  assumes "fs_inv s" "good_path (cs @ [c])" "length c \<le> 26" "resolve (disk s) 2 cs = int p"
    "is_dir (disk s) p" "lookup_dirent (dir_at (disk s) p) c = None" "\<exists>e\<in>set (dir_at (disk s) p). \<not> d_valid e"
    "two_free (block_bitmap s) k b" "S_ISDIR (mode OR S_IFDIR)"
  shows "\<exists>s'. fs_mkdir env s (path_of (cs @ [c])) mode = Done (0, s') \<and> fs_inv s' \<and>
    resolve (disk s') 2 (cs @ [c]) = int k \<and> is_dir (disk s') k \<and>
    (\<forall>n. lookup_dirent (dir_at (disk s') k) n = None) \<and>
    (\<forall>ds j. resolve (disk s) 2 ds = int j \<longrightarrow>
       resolve (disk s') 2 ds = int j \<and> inode_at (disk s') j = inode_at (disk s) j) \<and>
    (\<forall>j. reach (disk s) j \<and> \<not> is_dir (disk s) j \<and> file_ok (inode_at (disk s) j) \<longrightarrow>
       file_bytes (disk s') j = file_bytes (disk s) j)"
proof -
  obtain s' where s': "fs_mkdir env s (path_of (cs @ [c])) mode = Done (0, s')" "fs_inv s'"
      "grown (disk s) (disk s') p c k" "inode_at (disk s') k = new_inode env (mode OR S_IFDIR) (of_nat b)"
      "\<forall>e\<in>set (dir_at (disk s') k). \<not> d_valid e"
    by (rule fs_mkdir_ok [OF assms])
  have inv: "disk_inv (disk s)"
    using assms(1) by (simp add: fs_inv_def)
  have "is_dir (disk s') k" "\<forall>n. lookup_dirent (dir_at (disk s') k) n = None"
    using s'(4,5) assms(9) by (auto simp: is_dir_def lookup_None_iff entry_named_def)
  then show ?thesis
    using s'(1,2) grown_resolve_new [OF s'(3) assms(6,4,5)] grown_paths [OF s'(3) assms(6)]
      grown_files [OF s'(3) inv]
    by blast
qed

theorem fs_mkdir_links_witness:
  "\<exists>s'. fs_mkdir sample_env sample ''/b'' 0x1ED = Done (0, s') \<and> fs_inv s' \<and>
     resolve (disk s') 2 [''b''] = 8 \<and> is_dir (disk s') 8"
proof -
  have "two_free (block_bitmap sample) 8 9"
    using sample_used by (auto simp: two_free_def)
  then show ?thesis
    using fs_mkdir_links [of sample "[]" "''b''" 2 8 9 "0x1ED" sample_env] sample_inv
    by (auto simp: sample_paths sample_nodes sample_dirs sample_lookup sample_free sample_resolve S_ISDIR_def
        simp del: resolve.simps)
qed

section \<open>Errors and limits of creation\<close>

text \<open>
  C10. Every error of \<^verbatim>\<open>fs_create\<close> and \<^verbatim>\<open>fs_mkdir\<close> is reported before anything is written: an existing path
  gives \<^verbatim>\<open>-EEXIST\<close>, a parent that does not resolve \<^verbatim>\<open>-ENOENT\<close>, a parent that is a file \<^verbatim>\<open>-ENOTDIR\<close>, a name
  of more than 27 bytes \<^verbatim>\<open>-EINVAL\<close>; the state is the same.  This is what the code returns: a parent does not
  resolve also when a component in front of it is a file, where the note on path translation in
  \<^verbatim>\<open>fs5600.c\<close> has \<^verbatim>\<open>-ENOTDIR\<close> and the two handlers still return \<^verbatim>\<open>-ENOENT\<close> (\<open>create_below_file\<close>).
\<close>

theorem create_errors_change_nothing:
  assumes "fs_inv s" "good_path (cs @ [c])"
    "err = (if 0 \<le> resolve (disk s) 2 (cs @ [c]) then - EEXIST
            else if resolve (disk s) 2 cs < 0 then - ENOENT
            else if \<not> is_dir (disk s) (nat (resolve (disk s) 2 cs)) then - ENOTDIR else - EINVAL)"
    "resolve (disk s) 2 (cs @ [c]) < 0 \<and> 0 \<le> resolve (disk s) 2 cs \<and>
       is_dir (disk s) (nat (resolve (disk s) 2 cs)) \<longrightarrow> 27 < length c"
  shows "fs_create env s (path_of (cs @ [c])) mode = Done (err, s) \<and>
    fs_mkdir env s (path_of (cs @ [c])) mode = Done (err, s)"
proof -
  have inv: "disk_inv (disk s)"
    using assms(1) by (simp add: fs_inv_def)
  have "locate_new env s (path_of (cs @ [c])) = Done (Inl err)"
  proof (cases "0 \<le> resolve (disk s) 2 (cs @ [c])")
    case True
    then obtain k where "resolve (disk s) 2 (cs @ [c]) = int k"
      by (rule nonneg_int_cases)
    then show ?thesis
      using locate_new_exists [OF inv assms(2)] assms(3) by simp
  next
    case False
    show ?thesis
    proof (cases "resolve (disk s) 2 cs < 0")
      case True
      then show ?thesis
        using False locate_new_parent(1) [OF inv assms(2)] assms(3) by simp
    next
      case nonneg: False
      then obtain p where p: "resolve (disk s) 2 cs = int p"
        by (metis nonneg_int_cases not_less)
      then show ?thesis
        using False nonneg locate_new_parent(2) [OF inv assms(2) p] locate_new_long [OF inv assms(2) _ p]
          assms(3,4) by auto
    qed
  qed
  then show ?thesis
    by (simp add: fs_create_def fs_mkdir_def)
qed

theorem create_errors_change_nothing_witness:
  "fs_create sample_env sample ''/a'' 0x1A4 = Done (- EEXIST, sample) \<and>
   fs_mkdir sample_env sample ''/a/b'' 0x1ED = Done (- ENOTDIR, sample) \<and>
   fs_create sample_env sample ''/b/b'' 0x1A4 = Done (- ENOENT, sample)"
proof -
  have "good_path [''a'', ''b'']" "path_of [''a'', ''b''] = ''/a/b''" "good_path [''b'', ''b'']" "path_of [''b'', ''b''] = ''/b/b''"
    by (simp_all add: good_path_def comp_ok_def path_of_def join_path_def)
  moreover have "resolve sample_disk 2 [''a'', ''b''] < 0" "resolve sample_disk 2 [''b''] < 0"
      "resolve sample_disk 2 [''b'', ''b''] < 0"
    by (simp_all add: sample_nodes sample_dirs sample_lookup errno_defs)
  ultimately show ?thesis
    using create_errors_change_nothing [of sample "[]" "''a''" "- EEXIST" sample_env "0x1A4"]
      create_errors_change_nothing [of sample "[''a'']" "''b''" "- ENOTDIR" sample_env "0x1ED"]
      create_errors_change_nothing [of sample "[''b'']" "''b''" "- ENOENT" sample_env "0x1A4"]
      sample_inv sample_resolve
    by (simp add: sample_paths sample_nodes del: resolve.simps)
qed

text \<open>
  Below a file the walk of the parent path stops with \<^verbatim>\<open>-ENOTDIR\<close>, which the note on path translation asks
  for; \<^verbatim>\<open>fs_create\<close> and \<^verbatim>\<open>fs_mkdir\<close> replace it by \<^verbatim>\<open>-ENOENT\<close>.
\<close>

lemma create_below_file:
  assumes "fs_inv s" "good_path (cs @ [x, c])" "resolve (disk s) 2 cs = int k" "\<not> is_dir (disk s) k"
  shows "resolve (disk s) 2 (cs @ [x]) = - ENOTDIR \<and>
    fs_create env s (path_of (cs @ [x, c])) mode = Done (- ENOENT, s) \<and>
    fs_mkdir env s (path_of (cs @ [x, c])) mode = Done (- ENOENT, s)"
proof -
  have "resolve d a (cs @ [x]) = - ENOTDIR" if "resolve d a cs = int k" "\<not> is_dir d k" for d a
    using that by (induction cs arbitrary: a) (auto simp: errno_defs split: if_splits option.splits)
  from this [OF assms(3,4)] show ?thesis
    using locate_new_parent(1) [of s "cs @ [x]" c env] assms(1,2)
    by (simp add: fs_create_def fs_mkdir_def fs_inv_def errno_defs)
qed

text \<open>
  When no slot of the directory is free, \<^verbatim>\<open>fs_create\<close> ignores the \<^verbatim>\<open>-ENOSPC\<close> of \<^verbatim>\<open>add_dirent\<close>: it
  returns 0, yet the path does not resolve, and the block it took stays marked in use.
\<close>

lemma fs_create_full_directory:
  assumes "fs_inv s" "good_path (cs @ [c])" "length c \<le> 26" "resolve (disk s) 2 cs = int p"
    "is_dir (disk s) p" "lookup_dirent (dir_at (disk s) p) c = None" "\<forall>e\<in>set (dir_at (disk s) p). d_valid e"
    "k < 32768" "\<not> used (block_bitmap s) k" "\<forall>m<k. used (block_bitmap s) m"
  shows "\<exists>s'. fs_create env s (path_of (cs @ [c])) mode = Done (0, s') \<and>
    resolve (disk s') 2 (cs @ [c]) = - ENOENT \<and> used (block_bitmap s') k \<and>
    (\<forall>j. reach (disk s') j \<longrightarrow> j \<noteq> k \<and> k \<notin> set (blocks_of (disk s') j))"
proof -
  let ?i = "new_inode env (mode OR S_IFREG) 0"
  let ?d1 = "put_block (disk s) k (encode_inode ?i)" and ?m = "mark (block_bitmap s) k True"
  have inv: "disk_inv (disk s)" "tree_ok (disk s)" "bitmap_ok s"
    using assms(1) by (simp_all add: fs_inv_def)
  have k: "unowned (disk s) k" "2 \<le> k"
    using unused_unowned [OF assms(1,8,9)] by simp_all
  have ext: "extends (disk s) ?d1"
    by (rule extends_put [OF inv(1,2) k(1)]) simp
  note x = extendsD [OF ext]
  have p: "reach (disk s) p"
    by (rule resolve_reach [OF reach_root assms(4)])
  obtain fn where fn: "locate_new env s (path_of (cs @ [c])) = Done (Inr (inode_at (disk s) p, fn))"
    by (rule locate_new_ok [OF inv(1) assms(2-6)])
  have w: "write_inode (s\<lparr>block_bitmap := ?m\<rparr>) ?i (int k) = Done (s\<lparr>block_bitmap := ?m, disk := ?d1\<rparr>)"
    using block_write_put [of k "disk s" "encode_inode ?i"] k(2) assms(8)
    by (simp add: write_inode_def write_block_def)
  have "read_dirents ?d1 old (sint (i_ptrs (inode_at (disk s) p) ! 0)) = dir_at (disk s) p" for old
    using read_dir_reach [OF x(1), of p old] x(5,7-9) p assms(5) by simp
  then have "fs_create env s (path_of (cs @ [c])) mode = Done (0, s\<lparr>block_bitmap := ?m, disk := ?d1\<rparr>)"
    using alloc_blk_finds [OF inv(3) assms(8-10)] w fill_entry_full [OF assms(7)]
    by (simp add: fs_create_def fn add_dirent_def Let_def)
  moreover have "resolve ?d1 2 (cs @ [c]) = - ENOENT"
    using same_names_resolve [OF x(3) reach_root] resolve_snoc [OF assms(4,5)] assms(6) by simp
  moreover have "used ?m k"
    using used_mark [of "block_bitmap s" k True k] in_map_bitmap_ok [OF inv(3)] assms(8) by simp
  moreover have "unowned ?d1 k"
    using x(4) k(1) by simp
  ultimately show ?thesis
    by (auto simp: unowned_def)
qed

lemma fs_create_full_directory_witness:
  "\<exists>s'. fs_create sample_env crowded ''/0'' 0x1A4 = Done (0, s') \<and>
     resolve (disk s') 2 [''0''] = - ENOENT \<and> used (block_bitmap s') 136"
proof -
  have "good_path [''0'']" "path_of [''0''] = ''/0''"
    by (simp_all add: good_path_def comp_ok_def path_of_def join_path_def)
  then show ?thesis
    using fs_create_full_directory [of crowded "[]" "''0''" 2 136 sample_env "0x1A4"] crowded_inv crowded_root
      crowded_used
    by (auto simp del: resolve.simps(2))
qed

text \<open>
  When every block is in use, \<^verbatim>\<open>fs_create\<close> does not report \<^verbatim>\<open>-ENOSPC\<close>: the error code of \<^verbatim>\<open>alloc_blk\<close> is
  used as a block number, and the assertion of \<^verbatim>\<open>block_write\<close> ends the process.
\<close>

lemma fs_create_full_disk:
  assumes "fs_inv s" "good_path (cs @ [c])" "length c \<le> 26" "resolve (disk s) 2 cs = int p"
    "is_dir (disk s) p" "lookup_dirent (dir_at (disk s) p) c = None"
    "\<forall>m<32768. used (block_bitmap s) m"
  shows "fs_create env s (path_of (cs @ [c])) mode = Abort"
proof -
  have inv: "disk_inv (disk s)" "bitmap_ok s"
    using assms(1) by (simp_all add: fs_inv_def)
  obtain fn where fn: "locate_new env s (path_of (cs @ [c])) = Done (Inr (inode_at (disk s) p, fn))"
    by (rule locate_new_ok [OF inv(1) assms(2-6)])
  show ?thesis
    using alloc_blk_full [OF inv(2) assms(7)] fn
    by (simp add: fs_create_def write_inode_def write_block_def block_write_nonpos errno_defs)
qed

lemma fs_create_full_disk_witness:
  "fs_create sample_env full_sample ''/b'' 0x1A4 = Abort"
  using fs_create_full_disk [of full_sample "[]" "''b''" 2 sample_env "0x1A4"] full_sample_inv
  by (simp add: sample_paths sample_nodes sample_dirs sample_lookup)

text \<open>
  The cached bitmap is never written back: an image whose stored bitmap was right is, after
  \<^verbatim>\<open>fs_create\<close> and a new \<^verbatim>\<open>fs_init\<close>, mounted with the block of the new file marked free, although the
  path resolves to it.
\<close>

lemma created_block_free_after_remount:
  assumes "fs_inv s" "good_path (cs @ [c])" "length c \<le> 26" "resolve (disk s) 2 cs = int p"
    "is_dir (disk s) p" "lookup_dirent (dir_at (disk s) p) c = None" "\<exists>e\<in>set (dir_at (disk s) p). \<not> d_valid e"
    "k < 32768" "\<not> used (block_bitmap s) k" "\<forall>m<k. used (block_bitmap s) m"
    "magic (decode_super (disk s ! 0)) = FS_MAGIC" "bytes_of_block (disk s ! 1) = block_bitmap s"
  shows "\<exists>s' s''. fs_create env s (path_of (cs @ [c])) mode = Done (0, s') \<and> fs_init env s' = Done s'' \<and>
    resolve (disk s'') 2 (cs @ [c]) = int k \<and> \<not> used (block_bitmap s'') k \<and> \<not> fs_inv s''"
proof -
  obtain s' where s': "fs_create env s (path_of (cs @ [c])) mode = Done (0, s')" "fs_inv s'"
      "grown (disk s) (disk s') p c k" "\<forall>b<2. disk s' ! b = disk s ! b"
    by (rule fs_create_ok [OF assms(1-10)])
  have "on_disk (disk s') 2"
    using disk_invD(5) [OF _ reach_root] s'(2) by (auto simp: fs_inv_def)
  then have "0 < length (disk s')" "1 < length (disk s')"
    by (auto simp: on_disk_def)
  then have "block_read (disk s') buf 0 = (0, disk s ! 0)" "block_read (disk s') buf 1 = (0, disk s ! 1)" for buf
    using s'(4) block_read_on_disk [of 0 "disk s'" buf] block_read_on_disk [of 1 "disk s'" buf]
    by simp_all
  then have "fs_init env s' = Done (s'\<lparr>num_blocks := disk_size (decode_super (disk s ! 0)),
      block_bitmap := block_bitmap s\<rparr>)"
    using assms(11,12) by (simp add: fs_init_def Let_def)
  moreover have "reach (disk s') k"
    using s'(3) by (simp add: grown_def)
  ultimately show ?thesis
    using s'(1) assms(9) grown_resolve_new [OF s'(3) assms(6,4,5)] by (auto simp: fs_inv_def marked_def)
qed

lemma created_block_free_after_remount_witness:
  "\<exists>s' s''. fs_create sample_env sample ''/b'' 0x1A4 = Done (0, s') \<and> fs_init sample_env s' = Done s'' \<and>
     resolve (disk s'') 2 [''b''] = 8 \<and> \<not> used (block_bitmap s'') 8"
proof -
  have "magic (decode_super (sample_disk ! 0)) = FS_MAGIC"
    by (simp add: sample_disk_def super_ok_def)
  moreover have "bytes_of_block (sample_disk ! 1) = block_bitmap sample"
    by (simp add: sample_disk_def bytes_of_block_def sample_def)
  ultimately show ?thesis
    using created_block_free_after_remount [of sample "[]" "''b''" 2 8 sample_env "0x1A4"] sample_inv sample_used
    by (auto simp: sample_paths sample_nodes sample_dirs sample_lookup sample_free sample_resolve
        simp del: resolve.simps)
qed

section \<open>Removing files and directories\<close>

text \<open>
  C4. \<^verbatim>\<open>fs_unlink\<close> of a file: it returns 0, the path no longer resolves, the inode block and the data blocks
  are free, every other bit of the bitmap is kept, every path that led to another node still leads to it,
  every file keeps its contents, every node its inode, except that the directory of the file gets the
  time of the call as its modification time, and the invariant is kept.
\<close>

theorem fs_unlink_removes:
  assumes "fs_inv s" "good_path (cs @ [c])" "length c \<le> 26" "resolve (disk s) 2 (cs @ [c]) = int k"
    "\<not> is_dir (disk s) k"
  shows "\<exists>s'. fs_unlink env s (path_of (cs @ [c])) = Done (0, s') \<and> fs_inv s' \<and>
    resolve (disk s') 2 (cs @ [c]) = - ENOENT \<and>
    (\<forall>b\<in>set (k # blocks_of (disk s) k). \<not> used (block_bitmap s') b) \<and>
    (\<forall>b<32768. b \<notin> set (k # blocks_of (disk s) k) \<longrightarrow> used (block_bitmap s') b = used (block_bitmap s) b) \<and>
    (\<exists>p. resolve (disk s) 2 cs = int p \<and> (\<forall>j. reach (disk s) j \<longrightarrow> inode_at (disk s') j =
       (if j = p then (inode_at (disk s) j)\<lparr>i_mtime := of_int (env_time env)\<rparr> else inode_at (disk s) j))) \<and>
    (\<forall>ds j. resolve (disk s) 2 ds = int j \<and> j \<noteq> k \<longrightarrow> resolve (disk s') 2 ds = int j) \<and>
    (\<forall>j. reach (disk s) j \<and> \<not> is_dir (disk s) j \<and> file_ok (inode_at (disk s) j) \<longrightarrow>
       file_bytes (disk s') j = file_bytes (disk s) j)"
proof -
  obtain s' p where s': "resolve (disk s) 2 cs = int p" "fs_unlink env s (path_of (cs @ [c])) = Done (0, s')"
      "fs_inv s'" "shrunk env (disk s) (disk s') p c k"
      "block_bitmap s' = unmark (block_bitmap s) (k # blocks_of (disk s) k)"
    by (rule fs_unlink_ok [OF assms])
  obtain p' where "resolve (disk s) 2 cs = int p'" "is_dir (disk s) p'"
      "lookup_dirent (dir_at (disk s) p') c = Some k"
    by (rule resolve_snocD [OF assms(4)])
  with s'(1) have p: "is_dir (disk s) p" "lookup_dirent (dir_at (disk s) p) c = Some k"
    by simp_all
  note rc = resolve_reach [OF reach_root assms(4)]
  have no: "is_dir (disk s) k \<Longrightarrow> \<forall>e\<in>set (dir_at (disk s) k). \<not> d_valid e" and ne: "p \<noteq> k"
    using assms(5) p(1) by auto
  note gone = shrunk_gone [OF s'(4,1) p no ne] and paths = shrunk_paths [OF s'(4) p no _ reach_root]
    and files = shrunk_files [OF s'(4) _ _ _ _ p(1)]
  have "\<forall>b\<in>set (k # blocks_of (disk s) k). \<not> used (block_bitmap s') b"
    using released [OF assms(1) rc] s'(5) by simp
  moreover have "\<forall>b<32768. b \<notin> set (k # blocks_of (disk s) k) \<longrightarrow> used (block_bitmap s') b = used (block_bitmap s) b"
    using released_keeps [OF assms(1) rc] s'(5) by simp
  moreover have "resolve (disk s') 2 (cs @ [c]) = - ENOENT"
    using gone assms(1) by (auto simp: fs_inv_def)
  moreover have "\<forall>ds j. resolve (disk s) 2 ds = int j \<and> j \<noteq> k \<longrightarrow> resolve (disk s') 2 ds = int j"
    using paths assms(1) by (auto simp: fs_inv_def)
  moreover have "\<forall>j. reach (disk s) j \<and> \<not> is_dir (disk s) j \<and> file_ok (inode_at (disk s) j) \<longrightarrow>
      file_bytes (disk s') j = file_bytes (disk s) j"
    using files assms(1) by (auto simp: fs_inv_def)
  ultimately show ?thesis
    using s'(1-3) shrunk_inodes [OF s'(4)] by blast
qed

theorem fs_unlink_removes_witness:
  "\<exists>s'. fs_unlink sample_env sample ''/a'' = Done (0, s') \<and> fs_inv s' \<and>
     resolve (disk s') 2 [''a''] = - ENOENT \<and> \<not> used (block_bitmap s') 4 \<and> \<not> used (block_bitmap s') 5 \<and>
     used (block_bitmap s') 6 = used (block_bitmap sample) 6 \<and> resolve (disk s') 2 [''d''] = 6"
proof -
  obtain s' where "fs_unlink sample_env sample ''/a'' = Done (0, s')" "fs_inv s'"
      "resolve (disk s') 2 [''a''] = - ENOENT" "\<not> used (block_bitmap s') 4" "\<not> used (block_bitmap s') 5"
      "used (block_bitmap s') 6 = used (block_bitmap sample) 6"
      "\<forall>ds j. resolve sample_disk 2 ds = int j \<and> j \<noteq> 4 \<longrightarrow> resolve (disk s') 2 ds = int j"
    using fs_unlink_removes [of sample "[]" "''a''" 4 sample_env] sample_inv
    by (auto simp: sample_paths sample_nodes sample_resolve simp del: resolve.simps)
  then show ?thesis
    using sample_resolve(3) by (force dest: spec [of _ "[''d'']"] spec [of _ 6] simp del: resolve.simps)
qed

text \<open>
  C5. \<^verbatim>\<open>fs_rmdir\<close> of an empty directory: it returns 0, the path no longer resolves, the inode and entry blocks are free,
  every other bit of the bitmap is kept, every path that led to another node still leads to it, every file
  keeps its contents, every node its inode, except that the parent gets the time of the call as its
  modification time, and the invariant is kept.
\<close>

theorem fs_rmdir_removes:
  assumes "fs_inv s" "good_path (cs @ [c])" "length c \<le> 26" "resolve (disk s) 2 (cs @ [c]) = int k"
    "is_dir (disk s) k" "\<forall>e\<in>set (dir_at (disk s) k). \<not> d_valid e"
  shows "\<exists>s'. fs_rmdir env s (path_of (cs @ [c])) = Done (0, s') \<and> fs_inv s' \<and>
    resolve (disk s') 2 (cs @ [c]) = - ENOENT \<and>
    \<not> used (block_bitmap s') k \<and> \<not> used (block_bitmap s') (dir_blk (disk s) k) \<and>
    (\<forall>b<32768. b \<notin> set (k # blocks_of (disk s) k) \<longrightarrow> used (block_bitmap s') b = used (block_bitmap s) b) \<and>
    (\<exists>p. resolve (disk s) 2 cs = int p \<and> (\<forall>j. reach (disk s) j \<longrightarrow> inode_at (disk s') j =
       (if j = p then (inode_at (disk s) j)\<lparr>i_mtime := of_int (env_time env)\<rparr> else inode_at (disk s) j))) \<and>
    (\<forall>ds j. resolve (disk s) 2 ds = int j \<and> j \<noteq> k \<longrightarrow> resolve (disk s') 2 ds = int j) \<and>
    (\<forall>j. reach (disk s) j \<and> \<not> is_dir (disk s) j \<and> file_ok (inode_at (disk s) j) \<longrightarrow>
       file_bytes (disk s') j = file_bytes (disk s) j)"
proof -
  obtain s' p where s': "resolve (disk s) 2 cs = int p" "fs_rmdir env s (path_of (cs @ [c])) = Done (0, s')"
      "fs_inv s'" "shrunk env (disk s) (disk s') p c k"
      "block_bitmap s' = unmark (block_bitmap s) (k # blocks_of (disk s) k)"
    by (rule fs_rmdir_ok [OF assms])
  obtain p' where "resolve (disk s) 2 cs = int p'" "is_dir (disk s) p'"
      "lookup_dirent (dir_at (disk s) p') c = Some k"
    by (rule resolve_snocD [OF assms(4)])
  with s'(1) have p: "is_dir (disk s) p" "lookup_dirent (dir_at (disk s) p) c = Some k"
    by simp_all
  note rc = resolve_reach [OF reach_root assms(4)]
  have ne: "p \<noteq> k"
    using p(2) assms(6) by (auto simp: lookup_dirent_def find_Some_iff entry_named_def)
  note gone = shrunk_gone [OF s'(4,1) p assms(6) ne] and paths = shrunk_paths [OF s'(4) p assms(6) _ reach_root]
    and files = shrunk_files [OF s'(4) _ _ _ _ p(1)]
  have "\<not> used (block_bitmap s') k" "\<not> used (block_bitmap s') (dir_blk (disk s) k)"
    using released [OF assms(1) rc] s'(5) dir_blk_owned [OF assms(5)] by auto
  moreover have "\<forall>b<32768. b \<notin> set (k # blocks_of (disk s) k) \<longrightarrow> used (block_bitmap s') b = used (block_bitmap s) b"
    using released_keeps [OF assms(1) rc] s'(5) by simp
  moreover have "resolve (disk s') 2 (cs @ [c]) = - ENOENT"
    using gone assms(1) by (auto simp: fs_inv_def)
  moreover have "\<forall>ds j. resolve (disk s) 2 ds = int j \<and> j \<noteq> k \<longrightarrow> resolve (disk s') 2 ds = int j"
    using paths assms(1) by (auto simp: fs_inv_def)
  moreover have "\<forall>j. reach (disk s) j \<and> \<not> is_dir (disk s) j \<and> file_ok (inode_at (disk s) j) \<longrightarrow>
      file_bytes (disk s') j = file_bytes (disk s) j"
    using files assms(1) by (auto simp: fs_inv_def)
  ultimately show ?thesis
    using s'(1-3) shrunk_inodes [OF s'(4)] by blast
qed

theorem fs_rmdir_removes_witness:
  "\<exists>s'. fs_rmdir sample_env sample ''/d'' = Done (0, s') \<and> fs_inv s' \<and>
     resolve (disk s') 2 [''d''] = - ENOENT \<and> \<not> used (block_bitmap s') 6 \<and> \<not> used (block_bitmap s') 7 \<and>
     resolve (disk s') 2 [''a''] = 4"
proof -
  obtain s' where "fs_rmdir sample_env sample ''/d'' = Done (0, s')" "fs_inv s'"
      "resolve (disk s') 2 [''d''] = - ENOENT" "\<not> used (block_bitmap s') 6" "\<not> used (block_bitmap s') 7"
      "\<forall>ds j. resolve sample_disk 2 ds = int j \<and> j \<noteq> 6 \<longrightarrow> resolve (disk s') 2 ds = int j"
    using fs_rmdir_removes [of sample "[]" "''d''" 6 sample_env] sample_inv sample_entries(5)
    by (auto simp: sample_paths sample_nodes sample_resolve sample_dirs simp del: resolve.simps)
  then show ?thesis
    using sample_resolve(2) by (force dest: spec [of _ "[''a'']"] spec [of _ 4] simp del: resolve.simps)
qed

text \<open>
  The errors of \<^verbatim>\<open>fs_unlink\<close> and \<^verbatim>\<open>fs_rmdir\<close> leave the state as it is: the code of a path that does not
  resolve, \<^verbatim>\<open>-EISDIR\<close> for unlinking a directory, \<^verbatim>\<open>-ENOTDIR\<close> for removing a file as a directory,
  \<^verbatim>\<open>-ENOTEMPTY\<close> for a directory with a valid entry.
\<close>

lemma remove_errors_change_nothing:
  assumes "fs_inv s" "good_path cs"
  shows "(resolve (disk s) 2 cs < 0 \<longrightarrow>
      fs_unlink env s (path_of cs) = Done (resolve (disk s) 2 cs, s) \<and>
      fs_rmdir env s (path_of cs) = Done (resolve (disk s) 2 cs, s)) \<and>
    (\<forall>k. resolve (disk s) 2 cs = int k \<longrightarrow>
      (is_dir (disk s) k \<longrightarrow> fs_unlink env s (path_of cs) = Done (- EISDIR, s)) \<and>
      (\<not> is_dir (disk s) k \<longrightarrow> fs_rmdir env s (path_of cs) = Done (- ENOTDIR, s)) \<and>
      (is_dir (disk s) k \<and> (\<exists>e\<in>set (dir_at (disk s) k). d_valid e) \<longrightarrow>
         fs_rmdir env s (path_of cs) = Done (- ENOTEMPTY, s)))"
proof (intro conjI allI impI)
  have inv: "disk_inv (disk s)"
    using assms(1) by (simp add: fs_inv_def)
  note p = path_to_inum_good [OF inv assms(2), of env]
  show "fs_unlink env s (path_of cs) = Done (resolve (disk s) 2 cs, s)"
    "fs_rmdir env s (path_of cs) = Done (resolve (disk s) 2 cs, s)" if "resolve (disk s) 2 cs < 0"
    using that p by (simp_all add: fs_unlink_def fs_rmdir_def)
  fix k
  assume "resolve (disk s) 2 cs = int k"
  note h = handler_entry [OF inv assms(2) this]
  show "fs_unlink env s (path_of cs) = Done (- EISDIR, s)" if "is_dir (disk s) k"
    using h that by (simp add: fs_unlink_def is_dir_def)
  show "fs_rmdir env s (path_of cs) = Done (- ENOTDIR, s)" if "\<not> is_dir (disk s) k"
    using h that by (simp add: fs_rmdir_def is_dir_def)
  show "fs_rmdir env s (path_of cs) = Done (- ENOTEMPTY, s)"
    if "is_dir (disk s) k \<and> (\<exists>e\<in>set (dir_at (disk s) k). d_valid e)"
    using h that read_dir_reach [OF inv h(2)] by (auto simp: fs_rmdir_def is_dir_def list_ex_iff)
qed

lemma remove_errors_change_nothing_witness:
  "fs_unlink sample_env sample ''/d'' = Done (- EISDIR, sample) \<and>
   fs_rmdir sample_env sample ''/a'' = Done (- ENOTDIR, sample) \<and>
   fs_rmdir sample_env sample ''/'' = Done (- ENOTEMPTY, sample) \<and>
   fs_unlink sample_env sample ''/b'' = Done (- ENOENT, sample)"
proof -
  note t = remove_errors_change_nothing [OF sample_inv, of _ sample_env]
  have "resolve sample_disk 2 [''b''] = - ENOENT"
    by (simp add: sample_nodes sample_dirs sample_lookup)
  then have "fs_unlink sample_env sample ''/b'' = Done (- ENOENT, sample)"
    using t [of "[''b'']"] by (simp add: sample_paths errno_defs del: resolve.simps)
  moreover have "\<exists>e\<in>set root_entries. d_valid e"
    by (simp add: root_entries_def sample_entries)
  then have "fs_rmdir sample_env sample ''/'' = Done (- ENOTEMPTY, sample)"
    using t [of "[]"] by (simp add: sample_paths sample_nodes sample_dirs)
  moreover have "fs_unlink sample_env sample ''/d'' = Done (- EISDIR, sample)"
    using t [of "[''d'']"] by (simp add: sample_paths sample_nodes sample_resolve del: resolve.simps)
  moreover have "fs_rmdir sample_env sample ''/a'' = Done (- ENOTDIR, sample)"
    using t [of "[''a'']"] by (simp add: sample_paths sample_nodes sample_resolve del: resolve.simps)
  ultimately show ?thesis by simp
qed

section \<open>Reading and attributes\<close>

text \<open>
  C6. \<^verbatim>\<open>fs_read\<close> returns the bytes of the file from the offset, cut at the requested length and at the
  end of the file, and their number; at or past the end it returns 0.
\<close>

theorem fs_read_returns_slice:
  assumes "disk_inv (disk s)" "good_path cs" "resolve (disk s) 2 cs = int k" "\<not> is_dir (disk s) k"
    "file_ok (inode_at (disk s) k)" "len < 2 ^ 62" "x < 2 ^ 62"
  shows "fs_read env s (path_of cs) len (int x) =
    Done (int (length (take len (drop x (file_bytes (disk s) k)))),
          take len (drop x (file_bytes (disk s) k)))"
  by (rule fs_read_file [OF assms])

theorem fs_read_returns_slice_witness:
  "fs_read sample_env sample ''/a'' 100 1 = Done (4, ''ello'')"
proof -
  have "file_bytes sample_disk 4 = ''hello''"
    by (simp add: file_bytes_def sample_inodes fsize_def file_byte_def upt_rec) (simp add: sample_disk_def)
  then show ?thesis
    using fs_read_returns_slice [of sample "[''a'']" 4 100 1 sample_env] sample_disk_inv
    by (simp add: sample_paths sample_resolve sample_nodes sample_inodes file_ok_def fsize_def
        del: resolve.simps)
qed

text \<open>
  C9. \<^verbatim>\<open>fs_readdir\<close> hands the caller exactly the entries of the directory: a name is listed with the
  attributes of an inode if and only if the directory looks the name up to that inode.
\<close>

theorem fs_readdir_lists_directory:
  assumes "fs_inv s" "good_path cs" "resolve (disk s) 2 cs = int k" "is_dir (disk s) k"
  shows "\<exists>l. fs_readdir env s (path_of cs) = Done (0, l) \<and>
    (\<forall>n m. lookup_dirent (dir_at (disk s) k) n = Some m \<longleftrightarrow>
      (\<exists>nm. (nm, inode_to_stat (inode_at (disk s) m) (int m)) \<in> set l \<and> c_str nm = Done n))"
proof -
  have inv: "disk_inv (disk s)" "tree_ok (disk s)"
    using assms(1) by (simp_all add: fs_inv_def)
  note h = handler_entry [OF inv(1) assms(2,3)]
  let ?es = "dir_at (disk s) k"
  let ?f = "\<lambda>e. (d_name e, inode_to_stat (inode_at (disk s) (unat (d_inode e))) (int (unat (d_inode e))))"
  have "readdir_loop env (disk s) es = map ?f (filter d_valid es)" if "set es \<subseteq> set ?es" for es
    using that
  proof (induction es)
    case (Cons e es)
    have "d_valid e \<Longrightarrow> reach (disk s) (unat (d_inode e))"
      using Cons.prems reach_entry [OF h(2) assms(4)] by simp
    then show ?case
      using Cons read_inode_reach [OF inv(1)] by (simp add: Let_def del: of_nat_unat)
  qed simp
  then have "fs_readdir env s (path_of cs) = Done (0, map ?f (filter d_valid ?es))"
    using h assms(4) read_dir_reach [OF inv(1) h(2) assms(4)]
    by (simp add: fs_readdir_def is_dir_def del: of_nat_unat)
  moreover have "names_unique ?es"
    using inv(2) h(2) assms(4) by (simp add: tree_ok_def)
  then have "lookup_dirent ?es n = Some m \<longleftrightarrow>
      (\<exists>nm. (nm, inode_to_stat (inode_at (disk s) m) (int m)) \<in> set (map ?f (filter d_valid ?es)) \<and>
         c_str nm = Done n)" for n m
    using lookup_Some_iff [of ?es n m]
    by (auto simp: inode_to_stat_def entry_named_def in_set_conv_nth image_iff Bex_def simp del: of_nat_unat)
  ultimately show ?thesis
    by blast
qed

theorem fs_readdir_lists_directory_witness:
  "\<exists>l nm. fs_readdir sample_env sample ''/'' = Done (0, l) \<and>
     (nm, inode_to_stat (inode_at sample_disk 4) 4) \<in> set l \<and> c_str nm = Done ''a''"
  using fs_readdir_lists_directory [OF sample_inv, of "[]" 2 sample_env]
  by (force simp: sample_paths sample_nodes sample_dirs sample_lookup)

text \<open>
  \<^verbatim>\<open>fs_chmod\<close> sets the permission bits and keeps the file type, for files and directories alike; every
  path resolves as before, every other inode and the contents of every file are the same, and the
  invariant is kept.
\<close>

lemma fs_chmod_sets_permissions:
  assumes "fs_inv s" "good_path cs" "resolve (disk s) 2 cs = int k" "mode AND S_IFMT = 0"
  shows "\<exists>s'. fs_chmod env s (path_of cs) mode = Done (0, s') \<and> fs_inv s' \<and>
    i_mode (inode_at (disk s') k) AND NOT S_IFMT = mode \<and>
    i_mode (inode_at (disk s') k) AND S_IFMT = i_mode (inode_at (disk s) k) AND S_IFMT \<and>
    (\<forall>ds. resolve (disk s') 2 ds = resolve (disk s) 2 ds) \<and>
    (\<forall>j. j \<noteq> k \<longrightarrow> inode_at (disk s') j = inode_at (disk s) j) \<and>
    (\<forall>j. reach (disk s) j \<and> \<not> is_dir (disk s) j \<and> file_ok (inode_at (disk s) j) \<longrightarrow>
       file_bytes (disk s') j = file_bytes (disk s) j)"
proof -
  note c = fs_chmod_node [OF assms]
  note sh = inode_update_shape [OF c(2)]
  show ?thesis
    using c(1,3) chmod_type [OF assms(4)] or_masked_perm [OF assms(4)]
      same_names_resolve [OF inode_update_same_names [OF c(2)] reach_root] update_files [OF c(2)]
    by (auto simp: sh(1))
qed

lemma fs_chmod_sets_permissions_witness:
  "\<exists>s'. fs_chmod sample_env sample ''/d'' 0x1C0 = Done (0, s') \<and> fs_inv s' \<and>
     i_mode (inode_at (disk s') 6) AND NOT S_IFMT = 0x1C0"
  using fs_chmod_sets_permissions [OF sample_inv, of "[''d'']" 6 "0x1C0" sample_env]
  by (auto simp: sample_paths sample_resolve simp del: resolve.simps)

text \<open>
  \<^verbatim>\<open>fs_truncate\<close> to length 0 of a file: the file is empty, its inode keeps owner, mode and creation time,
  its blocks are free, and paths and other files are as before.  Any other length is refused with
  \<^verbatim>\<open>-EINVAL\<close>.
\<close>

lemma fs_truncate_empties:
  assumes "fs_inv s" "good_path cs" "resolve (disk s) 2 cs = int k" "\<not> is_dir (disk s) k"
  shows "(\<forall>n. n \<noteq> 0 \<longrightarrow> fs_truncate env s (path_of cs) n = Done (- EINVAL, s)) \<and>
    (\<exists>s'. fs_truncate env s (path_of cs) 0 = Done (0, s') \<and> fs_inv s' \<and>
      file_bytes (disk s') k = [] \<and> i_mode (inode_at (disk s') k) = i_mode (inode_at (disk s) k) \<and>
      (\<forall>b\<in>set (blocks_of (disk s) k). \<not> used (block_bitmap s') b) \<and>
      (\<forall>ds. resolve (disk s') 2 ds = resolve (disk s) 2 ds) \<and>
      (\<forall>j. j \<noteq> k \<and> reach (disk s) j \<and> \<not> is_dir (disk s) j \<and> file_ok (inode_at (disk s) j) \<longrightarrow>
         file_bytes (disk s') j = file_bytes (disk s) j))"
proof -
  note t = fs_truncate_file [OF assms, of env]
  note sh = inode_update_shape [OF t(2)]
  have k: "reach (disk s) k"
    by (rule resolve_reach [OF reach_root assms(3)])
  have "bitmap_ok s" "\<forall>b\<in>set (blocks_of (disk s) k). b < 32768"
    using assms(1) k by (auto simp: fs_inv_def marked_def)
  then have "\<forall>b\<in>set (blocks_of (disk s) k). \<not> used (unmark (block_bitmap s) (blocks_of (disk s) k)) b"
    using used_unmark by blast
  moreover have "file_bytes ((disk s)[k := encode_inode ((inode_at (disk s) k)\<lparr>i_size := 0,
      i_mtime := of_int (env_time env), i_ptrs := replicate NUM_PTRS_INODE 0\<rparr>)]) k = []"
    by (simp add: file_bytes_def fsize_def sh(1))
  moreover have "\<forall>n. n \<noteq> 0 \<longrightarrow> fs_truncate env s (path_of cs) n = Done (- EINVAL, s)"
    by (simp add: fs_truncate_def)
  ultimately show ?thesis
    using t(1,3) same_names_resolve [OF inode_update_same_names [OF t(2)] reach_root] update_files [OF t(2)]
    by (auto simp: sh(1))
qed

lemma fs_truncate_empties_witness:
  "\<exists>s'. fs_truncate sample_env sample ''/a'' 0 = Done (0, s') \<and> fs_inv s' \<and>
     file_bytes (disk s') 4 = [] \<and> \<not> used (block_bitmap s') 5"
  using fs_truncate_empties [OF sample_inv, of "[''a'']" 4 sample_env]
  by (auto simp: sample_paths sample_resolve sample_nodes simp del: resolve.simps)

text \<open>
  After \<^verbatim>\<open>fs_utime\<close>, \<^verbatim>\<open>fs_getattr\<close> on the same path reports the new modification time, truncated to 32
  bits, as access and modification time, and every other attribute as before.
\<close>

lemma fs_utime_getattr:
  assumes "fs_inv s" "good_path cs" "resolve (disk s) 2 cs = int k"
  shows "\<exists>s' st. fs_utime env s (path_of cs) (Some t) = Done (0, s') \<and> fs_inv s' \<and>
    fs_getattr env s (path_of cs) = Done (0, Some st) \<and> st_ino st = int k \<and>
    fs_getattr env s' (path_of cs) = Done (0, Some (st\<lparr>st_mtim := t mod 2 ^ 32, st_atim := t mod 2 ^ 32\<rparr>))"
proof -
  have inv: "disk_inv (disk s)"
    using assms(1) by (simp add: fs_inv_def)
  note u = fs_utime_node [OF assms, of env "Some t"]
  let ?s' = "s\<lparr>disk := (disk s)[k := encode_inode ((inode_at (disk s) k)\<lparr>i_mtime := of_int t\<rparr>)]\<rparr>"
  have u': "fs_utime env s (path_of cs) (Some t) = Done (0, ?s')" "fs_inv ?s'"
      "inode_update (disk s) k ((inode_at (disk s) k)\<lparr>i_mtime := of_int t\<rparr>)"
    using u by simp_all
  have "resolve (disk ?s') 2 cs = int k"
    using same_names_resolve [OF inode_update_same_names [OF u'(3)] reach_root] assms(3) by simp
  moreover have "disk_inv (disk ?s')"
    using u'(2) by (simp add: fs_inv_def)
  ultimately have h': "path_to_inum env ?s' (path_of cs) = Done (int k)"
      "read_inode (disk ?s') old (int k) = inode_at (disk ?s') k" for old
    using handler_entry [OF _ assms(2), of ?s' k] by blast+
  have "inode_at (disk ?s') k = (inode_at (disk s) k)\<lparr>i_mtime := of_int t\<rparr>"
    using inode_update_shape(1) [OF u'(3)] by simp
  moreover have "uint (of_int t :: 32 word) = t mod 2 ^ 32"
    by (simp add: uint_word_of_int)
  ultimately show ?thesis
    using u'(1,2) handler_entry [OF inv assms(2,3)] h'
    by (auto simp: fs_getattr_def inode_to_stat_def Let_def)
qed

lemma fs_utime_getattr_witness:
  "\<exists>s' st. fs_utime sample_env sample ''/a'' (Some 77) = Done (0, s') \<and>
     fs_getattr sample_env s' ''/a'' = Done (0, Some st) \<and> st_mtim st = 77"
  using fs_utime_getattr [OF sample_inv, of "[''a'']" 4 sample_env 77]
  by (auto simp: sample_paths sample_resolve simp del: resolve.simps)

section \<open>Blocks and on-disk structures\<close>

text \<open>
  \<^verbatim>\<open>alloc_blk\<close> returns the lowest block that is not in use and marks it and no other block; when all
  32768 bits are set it returns \<^verbatim>\<open>-ENOSPC\<close> and changes nothing.
\<close>

lemma alloc_blk_lowest_free:
  assumes "bitmap_ok s"
  shows "(\<exists>k s'. alloc_blk s = Done (int k, s') \<and> k < 32768 \<and> \<not> used (block_bitmap s) k \<and>
      (\<forall>m<k. used (block_bitmap s) m) \<and> disk s' = disk s \<and> bitmap_ok s' \<and>
      (\<forall>m. used (block_bitmap s') m \<longleftrightarrow> m = k \<or> used (block_bitmap s) m)) \<or>
    ((\<forall>m<32768. used (block_bitmap s) m) \<and> alloc_blk s = Done (- ENOSPC, s))"
proof (rule alloc_blk_cases [OF assms])
  fix k
  assume k: "k < 32768" "\<not> used (block_bitmap s) k" "\<forall>m<k. used (block_bitmap s) m"
    "alloc_blk s = Done (int k, s\<lparr>block_bitmap := mark (block_bitmap s) k True\<rparr>)"
  then have "used (mark (block_bitmap s) k True) m \<longleftrightarrow> m = k \<or> used (block_bitmap s) m" for m
    using used_mark [of "block_bitmap s" k True m] in_map_bitmap_ok [OF assms] by simp
  then show ?thesis
    using k assms by (intro disjI1 exI [of _ k]) (auto simp: bitmap_ok_def)
qed simp

lemma alloc_blk_lowest_free_witness:
  "\<exists>s'. alloc_blk sample = Done (8, s') \<and> used (block_bitmap s') 8 \<and> \<not> used (block_bitmap s') 9"
proof -
  have bm: "bitmap_ok sample"
    using sample_inv by (simp add: fs_inv_def)
  have "\<not> (\<forall>m<32768. used (block_bitmap sample) m)"
    using sample_used [of 8] by (auto intro!: exI [of _ 8])
  with alloc_blk_lowest_free [OF bm] obtain k s' where k: "alloc_blk sample = Done (int k, s')" "k < 32768"
      "\<not> used (block_bitmap sample) k" "\<forall>m<k. used (block_bitmap sample) m"
      "\<forall>m. used (block_bitmap s') m \<longleftrightarrow> m = k \<or> used (block_bitmap sample) m"
    by blast
  have "8 \<le> k"
    using k(2,3) sample_used [of k] by auto
  moreover have "\<not> 8 < k"
    using k(4) [rule_format, of 8] sample_used [of 8] by auto
  ultimately have "k = 8" by simp
  then show ?thesis
    using k sample_used [of 9] by auto
qed

text \<open>
  Inodes and directory blocks survive the trip to the image: a structure with arrays of the right
  length is written as one block of 4096 bytes that reads back as the same structure, and every block
  is the image of the structure it is read as.
\<close>

lemma disk_structures_roundtrip:
  assumes "inode_ok i" "dirents_ok es" "length bs = 4096"
  shows "length (encode_inode i) = 4096 \<and> decode_inode (encode_inode i) = i \<and>
    length (encode_dirents es) = 4096 \<and> decode_dirents (encode_dirents es) = es \<and>
    inode_ok (decode_inode bs) \<and> encode_inode (decode_inode bs) = bs \<and>
    dirents_ok (decode_dirents bs) \<and> encode_dirents (decode_dirents bs) = bs"
  using assms by simp

lemma disk_structures_roundtrip_witness:
  "decode_inode (encode_inode (sample_inode 0x81A4 5 5)) = sample_inode 0x81A4 5 5 \<and>
   decode_dirents (encode_dirents root_entries) = root_entries"
  using disk_structures_roundtrip [of "sample_inode 0x81A4 5 5" root_entries "replicate 4096 NUL"] by simp

end
