(* ===== verification/Fs_Write.thy ===== *)
theory Fs_Write
  imports Fs_Props
begin

text \<open>
  \<^verbatim>\<open>fs_write\<close> of Lab 5.  One iteration of its loop puts one block of the file (\<open>block_put\<close>), which
  may be allocated first; the iterations together splice the buffer into the contents of the file
  and leave every other node as it was.
\<close>

section \<open>Blocks needed and blocks free\<close>

definition free_blocks :: "8 word list \<Rightarrow> nat" where
  "free_blocks bmp = length (filter (\<lambda>b. \<not> used bmp b) [0..<32768])"

text \<open>The blocks that a transfer of \<open>n\<close> bytes at \<open>x\<close> touches and that the file does not have.\<close>

definition missing :: "fs_inode \<Rightarrow> nat \<Rightarrow> nat \<Rightarrow> nat" where
  "missing i x n =
     length (filter (\<lambda>j. i_ptrs i ! j = 0 \<and> x < Suc j * 4096 \<and> j * 4096 < x + n) [0..<NUM_PTRS_INODE])"

lemma length_filter_upt: "length (filter P [0..<n]) = card {j. j < n \<and> P j}"
proof -
  have "length (filter P [0..<n]) = card (set (filter P [0..<n]))"
    by (rule distinct_card [symmetric]) simp
  also have "set (filter P [0..<n]) = {j. j < n \<and> P j}"
    by auto
  finally show ?thesis .
qed

lemmas count_simps = free_blocks_def missing_def length_filter_upt

lemma free_blocks_mark:
  assumes "length bmp = FS_BLOCK_SIZE" "b < 32768" "\<not> used bmp b"
  shows "Suc (free_blocks (mark bmp b True)) = free_blocks bmp"
proof -
  let ?F = "{j. j < 32768 \<and> \<not> used bmp j}"
  have "in_map bmp b"
    using assms(1,2) by (simp add: in_map_def less_mult_imp_div_less)
  then have "{j. j < 32768 \<and> \<not> used (mark bmp b True) j} = ?F - {b}"
    by (auto simp: used_mark)
  moreover have "Suc (card (?F - {b})) = card ?F"
    using assms(2,3) by (intro card_Suc_Diff1) auto
  ultimately show ?thesis
    by (simp add: count_simps)
qed

lemma free_blocks_pos:
  assumes "bitmap_ok s" "0 < free_blocks (block_bitmap s)"
  obtains b where "b < 32768" "\<not> used (block_bitmap s) b"
    "alloc_blk s = Done (int b, s\<lparr>block_bitmap := mark (block_bitmap s) b True\<rparr>)"
proof (rule alloc_blk_cases [OF assms(1)])
  assume "\<forall>m<32768. used (block_bitmap s) m"
  then have "free_blocks (block_bitmap s) = 0"
    by (simp add: free_blocks_def)
  then show ?thesis
    using assms(2) by simp
qed (rule that)

text \<open>Advancing within the transfer needs no more blocks, and one less once a block was allocated.\<close>

lemma missing_step:
  assumes "i_ptrs i' = (i_ptrs i)[idx := p]" "p \<noteq> 0" "idx = x div 4096" "idx < NUM_PTRS_INODE"
    "length (i_ptrs i) = NUM_PTRS_INODE" "m \<le> n" "0 < n"
  shows "missing i' (x + m) (n - m) \<le> (if i_ptrs i ! idx = 0 then missing i x n - 1 else missing i x n)"
proof -
  let ?A = "\<lambda>i x n. {j. j < NUM_PTRS_INODE \<and> i_ptrs i ! j = 0 \<and> x < Suc j * 4096 \<and> j * 4096 < x + n}"
  have sub: "?A i' (x + m) (n - m) \<subseteq> ?A i x n - {idx}"
    using assms by (auto simp: nth_list_update)
  have "idx \<in> ?A i x n" if "i_ptrs i ! idx = 0"
    using that assms by auto
  then have "card (?A i x n - {idx}) = (if i_ptrs i ! idx = 0 then card (?A i x n) - 1 else card (?A i x n))"
    by (cases "i_ptrs i ! idx = 0") auto
  moreover have "card (?A i' (x + m) (n - m)) \<le> card (?A i x n - {idx})"
    using sub by (intro card_mono) auto
  ultimately show ?thesis
    unfolding count_simps by (simp only:)
qed

lemma missing_pos:
  assumes "i_ptrs i ! (x div 4096) = 0" "x div 4096 < NUM_PTRS_INODE" "0 < n"
  shows "0 < missing i x n"
proof -
  have "x div 4096 \<in> {j. j < NUM_PTRS_INODE \<and> i_ptrs i ! j = 0 \<and> x < Suc j * 4096 \<and> j * 4096 < x + n}"
    using assms by auto
  then show ?thesis
    unfolding count_simps by (intro card_gt_0_iff [THEN iffD2]) auto
qed

section \<open>One block of a file\<close>

text \<open>
  \<open>stored s s' k\<close>: nothing but node \<open>k\<close>, a file, has changed.  \<open>block_put\<close>: block \<open>idx\<close> of the file has
  become \<open>data\<close>, the other blocks are as before, and a block was taken from the bitmap if it was missing.
\<close>

definition stored :: "fs_state \<Rightarrow> fs_state \<Rightarrow> nat \<Rightarrow> bool" where
  "stored s s' k \<longleftrightarrow> fs_inv s' \<and> same_names (disk s) (disk s') \<and>
     (\<forall>j. reach (disk s) j \<longrightarrow> j \<noteq> k \<longrightarrow> inode_at (disk s') j = inode_at (disk s) j \<and>
        (\<forall>b\<in>set (blocks_of (disk s) j). disk s' ! b = disk s ! b))"

definition block_put :: "fs_state \<Rightarrow> fs_state \<Rightarrow> nat \<Rightarrow> nat \<Rightarrow> block \<Rightarrow> bool" where
  "block_put s s' k idx data \<longleftrightarrow>
     (let i = inode_at (disk s) k; i' = inode_at (disk s') k; p = i_ptrs i' ! idx
      in stored s s' k \<and> i' = i\<lparr>i_ptrs := (i_ptrs i)[idx := p]\<rparr> \<and> p \<noteq> 0 \<and> disk s' ! unat p = data \<and>
         (\<forall>j<NUM_PTRS_INODE. j \<noteq> idx \<longrightarrow> i_ptrs i ! j \<noteq> 0 \<longrightarrow>
            disk s' ! unat (i_ptrs i ! j) = disk s ! unat (i_ptrs i ! j)) \<and>
         free_blocks (block_bitmap s) =
           (if i_ptrs i ! idx = 0 then Suc (free_blocks (block_bitmap s')) else free_blocks (block_bitmap s')))"

lemma block_putD:
  assumes "block_put s s' k idx data"
  defines "i \<equiv> inode_at (disk s) k" and "i' \<equiv> inode_at (disk s') k"
  shows "stored s s' k" "i_ptrs i' = (i_ptrs i)[idx := i_ptrs i' ! idx]" "i_ptrs i' ! idx \<noteq> 0"
    "free_blocks (block_bitmap s) =
       (if i_ptrs i ! idx = 0 then Suc (free_blocks (block_bitmap s')) else free_blocks (block_bitmap s'))"
proof -
  show "stored s s' k" "i_ptrs i' ! idx \<noteq> 0"
    "free_blocks (block_bitmap s) =
       (if i_ptrs i ! idx = 0 then Suc (free_blocks (block_bitmap s')) else free_blocks (block_bitmap s'))"
    using assms(1) by (simp_all add: block_put_def i_def i'_def Let_def)
  have "i' = i\<lparr>i_ptrs := (i_ptrs i)[idx := i_ptrs i' ! idx]\<rparr>"
    using assms(1) by (simp only: block_put_def i_def i'_def Let_def)
  from arg_cong [OF this, of i_ptrs] show "i_ptrs i' = (i_ptrs i)[idx := i_ptrs i' ! idx]"
    by simp
qed

lemma stored_refl: "fs_inv s \<Longrightarrow> stored s s k"
  by (simp add: stored_def same_names_def)

lemma stored_trans:
  assumes "stored s s1 k" "stored s1 s2 k"
  shows "stored s s2 k"
proof -
  have rc: "reach (disk s1) j = reach (disk s) j" for j
    using assms(1) same_names_reach by (simp add: stored_def)
  show ?thesis
    using assms unfolding stored_def same_names_def rc by (auto simp: blocks_of_def)
qed

lemma stored_file_bytes:
  assumes "stored s s' k" "disk_inv (disk s)" "reach (disk s) j" "j \<noteq> k" "\<not> is_dir (disk s) j"
    "file_ok (inode_at (disk s) j)"
  shows "file_bytes (disk s') j = file_bytes (disk s) j"
  using assms by (intro file_bytes_frame) (auto simp: stored_def)

lemma file_block:
  assumes "disk_inv d" "reach d k" "\<not> is_dir d k" "idx < NUM_PTRS_INODE" "i_ptrs (inode_at d k) ! idx \<noteq> 0"
  shows "unat (i_ptrs (inode_at d k) ! idx) \<in> set (blocks_of d k)"
    "on_disk d (unat (i_ptrs (inode_at d k) ! idx))"
    "not_meta d (unat (i_ptrs (inode_at d k) ! idx))"
proof -
  have "length (i_ptrs (inode_at d k)) = NUM_PTRS_INODE"
    using inode_at_ok [of d k] disk_invD(2,5) [OF assms(1)] assms(2)
    by (auto simp: inode_ok_def on_disk_def)
  then show own: "unat (i_ptrs (inode_at d k) ! idx) \<in> set (blocks_of d k)"
    using assms(3-5) by (auto simp: blocks_of_def inode_blocks_def is_dir_def)
  then show "on_disk d (unat (i_ptrs (inode_at d k) ! idx))"
      "not_meta d (unat (i_ptrs (inode_at d k) ! idx))"
    using disk_invD(4,6) [OF assms(1)] assms(2,3) by (auto simp: owns_ok_def not_meta_def) blast
qed

lemma distinct_filter_nth:
  "distinct (filter P xs) \<Longrightarrow> i < length xs \<Longrightarrow> j < length xs \<Longrightarrow> i \<noteq> j \<Longrightarrow> P (xs ! i) \<Longrightarrow>
     xs ! i \<noteq> xs ! j"
proof (induction xs arbitrary: i j)
  case (Cons x xs)
  then show ?case
    by (cases i; cases j) (auto split: if_splits)
qed simp

lemma file_ptrs_inj:
  assumes "disk_inv d" "reach d k" "\<not> is_dir d k" "j < NUM_PTRS_INODE" "l < NUM_PTRS_INODE" "j \<noteq> l"
    "i_ptrs (inode_at d k) ! j \<noteq> 0" "i_ptrs (inode_at d k) ! l \<noteq> 0"
  shows "i_ptrs (inode_at d k) ! j \<noteq> i_ptrs (inode_at d k) ! l"
proof
  let ?ps = "i_ptrs (inode_at d k)"
  assume eq: "?ps ! j = ?ps ! l"
  have len: "length ?ps = NUM_PTRS_INODE"
    using inode_at_ok [of d k] disk_invD(2,5) [OF assms(1)] assms(2)
    by (auto simp: inode_ok_def on_disk_def)
  have "distinct (filter (\<lambda>p. p \<noteq> 0) ?ps)"
    using disk_invD(4) [OF assms(1,2)] assms(3)
    by (auto simp: owns_ok_def blocks_of_def inode_blocks_def is_dir_def distinct_map)
  then show False
    using distinct_filter_nth [of "\<lambda>p. p \<noteq> 0" ?ps j l] assms(4-7) eq len by auto
qed

text \<open>The block is there: it is overwritten.\<close>

lemma put_present:
  assumes "fs_inv s" "reach (disk s) k" "\<not> is_dir (disk s) k" "idx < NUM_PTRS_INODE"
    "i_ptrs (inode_at (disk s) k) ! idx \<noteq> 0" "length data = 4096"
  shows "block_put s (s\<lparr>disk := (disk s)[unat (i_ptrs (inode_at (disk s) k) ! idx) := data]\<rparr>) k idx data"
proof -
  let ?i = "inode_at (disk s) k"
  define b where "b = unat (i_ptrs ?i ! idx)"
  have inv: "disk_inv (disk s)" "tree_ok (disk s)" "bitmap_ok s" "marked s"
    using assms(1) by (simp_all add: fs_inv_def)
  note blk = file_block [OF inv(1) assms(2-5), folded b_def]
  have put: "(disk s)[b := data] = put_block (disk s) b data"
    using blk(2) by (simp add: put_block_def on_disk_def)
  note p = put_data [OF inv(1) blk(3) assms(6), folded put]
  have "b \<notin> set (blocks_of (disk s) j)" if "reach (disk s) j" "j \<noteq> k" for j
    using disk_invD(6) [OF inv(1) that(1) assms(2) that(2)] blk(1) by blast
  then have "(disk s)[b := data] ! c = disk s ! c" if "reach (disk s) j" "j \<noteq> k" "c \<in> set (blocks_of (disk s) j)" for j c
    using that by (metis nth_list_update_neq)
  then have "stored s (s\<lparr>disk := (disk s)[b := data]\<rparr>) k"
    using inv same_names_tree_ok [OF p(1)] p same_names_reach [OF p(1)]
    by (simp add: stored_def fs_inv_def marked_def bitmap_ok_def)
  moreover have "unat (i_ptrs ?i ! j) \<noteq> b" if "j < NUM_PTRS_INODE" "j \<noteq> idx" "i_ptrs ?i ! j \<noteq> 0" for j
    using file_ptrs_inj [OF inv(1) assms(2,3) that(1) assms(4) that(2,3) assms(5)]
    by (simp add: b_def word_unat_eq_iff)
  ultimately show ?thesis
    using assms(5) blk(2) unfolding b_def [symmetric]
    by (auto simp: block_put_def Let_def p(3) [OF assms(2)] b_def [symmetric] on_disk_def nth_list_update)
qed

text \<open>The block is missing: a block that nobody owns becomes the block of the file.\<close>

lemma distinct_map_filter_update:
  "distinct (map f (filter P xs)) \<Longrightarrow> f v \<notin> f ` set (filter P xs) \<Longrightarrow>
     distinct (map f (filter P (xs[i := v])))"
proof (induction xs arbitrary: i)
  case (Cons x xs)
  show ?case
  proof (cases i)
    case (Suc j)
    have "set (filter P (xs[j := v])) \<subseteq> insert v (set (filter P xs))"
      using set_update_subset_insert [of xs j v] by auto
    moreover have "distinct (map f (filter P (xs[j := v])))"
      using Cons by (auto split: if_splits)
    ultimately show ?thesis
      using Suc Cons.prems by (auto split: if_splits)
  qed (use Cons.prems in \<open>auto split: if_splits\<close>)
qed simp

lemma put_fresh:
  assumes "fs_inv s" "reach (disk s) k" "\<not> is_dir (disk s) k" "idx < NUM_PTRS_INODE"
    "i_ptrs (inode_at (disk s) k) ! idx = 0" "length data = 4096" "b < 32768" "\<not> used (block_bitmap s) b"
  defines "i' \<equiv> (inode_at (disk s) k)\<lparr>i_ptrs := (i_ptrs (inode_at (disk s) k))[idx := of_nat b]\<rparr>"
  shows "block_put s (s\<lparr>disk := put_block ((disk s)[k := encode_inode i']) b data,
    block_bitmap := mark (block_bitmap s) b True\<rparr>) k idx data"
proof -
  let ?i = "inode_at (disk s) k" and ?d = "put_block (disk s) b data" and ?m = "mark (block_bitmap s) b True"
  have inv: "disk_inv (disk s)" "tree_ok (disk s)" "bitmap_ok s" "marked s"
    using assms(1) by (simp_all add: fs_inv_def)
  have un: "unowned (disk s) b" "2 \<le> b"
    using unused_unowned [OF assms(1,7,8)] by simp_all
  have k: "on_disk (disk s) k" "k \<noteq> b"
    using disk_invD(5) [OF inv(1) assms(2)] un(1) assms(2) by (auto simp: unowned_def)
  have swap: "put_block ((disk s)[k := encode_inode i']) b data = ?d[k := encode_inode i']"
    using k by (simp add: put_block_def on_disk_def list_update_swap list_update_append)
  note x = extendsD [OF extends_put [OF inv(1,2) un(1) assms(6)]]
  have p: "unat (of_nat b :: 32 word) = b" "(of_nat b :: 32 word) \<noteq> 0"
    using assms(7) un(2) by (simp_all add: unat_of_nat word_of_nat_eq_0_iff) (auto dest: nat_dvd_not_less)
  have ok: "inode_ok ?i"
    using inode_at_ok [OF disk_invD(2) [OF inv(1)]] k(1) by (simp add: on_disk_def)
  have type: "S_ISDIR (i_mode i') = is_dir (disk s) k"
    by (simp add: i'_def is_dir_def)
  have blk: "blocks_of (disk s) k = map unat (filter (\<lambda>p. p \<noteq> 0) (i_ptrs ?i))"
      "inode_blocks i' = map unat (filter (\<lambda>p. p \<noteq> 0) ((i_ptrs ?i)[idx := of_nat b]))"
    using assms(3) type by (simp_all add: blocks_of_def inode_blocks_def is_dir_def i'_def)
  have sub: "set (inode_blocks i') \<subseteq> insert b (set (blocks_of (disk s) k))"
    using set_update_subset_insert [of "i_ptrs ?i" idx "of_nat b"] p unfolding blk by auto
  have own: "owns_ok ?d k"
    using x(1,7) assms(2) disk_invD(4) by blast
  have "distinct (inode_blocks i')"
    using disk_invD(4) [OF inv(1) assms(2)] un(1) assms(2) p(1) unfolding blk(2)
    by (intro distinct_map_filter_update) (auto simp: owns_ok_def unowned_def blk(1))
  moreover have "on_disk ?d c \<and> 2 \<le> c \<and> \<not> reach ?d c" if "c \<in> set (inode_blocks i')" for c
    using that sub own un assms(7) x(7,10) assms(2)
    by (auto simp: owns_ok_def on_disk_def length_put_block unowned_def)
  moreover have "c \<notin> set (blocks_of ?d j)" if "c \<in> set (inode_blocks i')" "reach ?d j" "j \<noteq> k" for c j
    using that sub un(1) x(7,10) disk_invD(6) [OF inv(1) _ assms(2), of j] by (auto simp: unowned_def)
  ultimately have u: "inode_update ?d k i'"
    using type ok x assms(2,3) unfolding inode_update_def by (auto simp: inode_ok_def i'_def)
  note sh = inode_update_shape [OF u]
  have "in_map (block_bitmap s) b"
    using in_map_bitmap_ok [OF inv(3)] assms(7) by simp
  then have used: "used ?m c \<longleftrightarrow> c = b \<or> used (block_bitmap s) c" for c
    by (auto simp: used_mark)
  let ?s = "s\<lparr>disk := ?d[k := encode_inode i'], block_bitmap := ?m\<rparr>"
  have "fs_inv (s\<lparr>disk := ?d\<rparr>)"
    using inv x by (simp add: fs_inv_def marked_def bitmap_ok_def)
  then have "fs_inv (s\<lparr>disk := ?d\<rparr>\<lparr>disk := (disk (s\<lparr>disk := ?d\<rparr>))[k := encode_inode i'], block_bitmap := ?m\<rparr>)"
  proof (rule inode_update_fs_inv)
    show "\<forall>c\<in>set (inode_blocks i'). c < 32768 \<and> used ?m c"
      using sub inv(4) assms(2,7) by (auto simp: used marked_def)
  qed (use u inv(3,4) x(7,10) in \<open>auto simp: used marked_def bitmap_ok_def\<close>)
  then have "fs_inv ?s" by simp
  moreover have "same_names (disk s) (?d[k := encode_inode i'])"
    using x(3,7) inode_update_same_names [OF u] by (auto simp: same_names_def)
  moreover have "?d[k := encode_inode i'] ! c = disk s ! c" if "reach (disk s) j" "c \<in> set (blocks_of (disk s) j)" for j c
  proof -
    have "c \<noteq> k"
      using disk_invD(4) [OF inv(1) that(1)] that(2) assms(2) by (auto simp: owns_ok_def)
    then show ?thesis
      using x(6) [OF that] by simp
  qed
  ultimately have "stored s ?s k" and
      keep: "c \<in> set (blocks_of (disk s) k) \<Longrightarrow> ?d[k := encode_inode i'] ! c = disk s ! c" for c
    using x(5) assms(2) by (auto simp: stored_def sh(1))
  moreover have "?d[k := encode_inode i'] ! b = data"
    using k(2) by (simp add: nth_put_block)
  moreover have "i_ptrs i' ! idx = of_nat b"
    using ok assms(4) by (simp add: i'_def inode_ok_def)
  moreover have "unat (i_ptrs ?i ! j) \<in> set (blocks_of (disk s) k)" if "j < NUM_PTRS_INODE" "i_ptrs ?i ! j \<noteq> 0" for j
    using file_block(1) [OF inv(1) assms(2,3) that] .
  moreover have "Suc (free_blocks ?m) = free_blocks (block_bitmap s)"
    using free_blocks_mark [OF _ assms(7,8)] inv(3) by (simp add: bitmap_ok_def)
  ultimately show ?thesis
    using p assms(5) unfolding swap by (simp add: block_put_def sh(1) keep) (simp add: i'_def)
qed

section \<open>One iteration\<close>

lemma mem_write_nth:
  assumes "off + length bs \<le> length old"
  obtains data where "mem_write off bs old = Done data" "length data = length old"
    "\<And>y. y < length old \<Longrightarrow> data ! y = (if off \<le> y \<and> y < off + length bs then bs ! (y - off) else old ! y)"
proof (rule that)
  let ?data = "take off old @ bs @ drop (off + length bs) old"
  show "mem_write off bs old = Done ?data" "length ?data = length old"
    using assms by (simp_all add: mem_write_fits)
  show "?data ! y = (if off \<le> y \<and> y < off + length bs then bs ! (y - off) else old ! y)" if "y < length old" for y
    using assms that by (auto simp: nth_append)
qed

text \<open>
  What the iteration does with block \<open>idx\<close>: allocate, read, copy \<open>bs\<close> to \<open>off\<close>, write back.  \<open>junk\<close> is
  the buffer before the read.
\<close>

definition transfers :: "fs_state \<Rightarrow> nat \<Rightarrow> nat \<Rightarrow> nat \<Rightarrow> char list \<Rightarrow> block \<Rightarrow> fs_state \<Rightarrow> block \<Rightarrow> bool" where
  "transfers s k idx off bs junk s' data \<longleftrightarrow>
     (let i = inode_at (disk s) k; i' = inode_at (disk s') k
      in (\<exists>s1. ensure_block s i (int k) idx = Done (i', s1) \<and>
            mem_write off bs (snd (block_read (disk s1) junk (sint (i_ptrs i' ! idx)))) = Done data \<and>
            write_block s1 data (sint (i_ptrs i' ! idx)) = Done s') \<and>
         block_put s s' k idx data \<and>
         (\<forall>y<4096. off \<le> y \<and> y < off + length bs \<longrightarrow> data ! y = bs ! (y - off)) \<and>
         (\<forall>y<4096. i_ptrs i ! idx \<noteq> 0 \<and> \<not> (off \<le> y \<and> y < off + length bs) \<longrightarrow>
            data ! y = disk s ! unat (i_ptrs i ! idx) ! y))"

lemma transfers_present:
  assumes "fs_inv s" "reach (disk s) k" "\<not> is_dir (disk s) k" "idx < NUM_PTRS_INODE"
    "i_ptrs (inode_at (disk s) k) ! idx \<noteq> 0" "off + length bs \<le> 4096"
  shows "\<exists>s' data. transfers s k idx off bs junk s' data"
proof -
  let ?i = "inode_at (disk s) k" and ?p = "i_ptrs (inode_at (disk s) k) ! idx"
  have inv: "disk_inv (disk s)"
    using assms(1) by (simp add: fs_inv_def)
  note blk = file_block [OF inv assms(2-5)]
  have p: "sint ?p = int (unat ?p)"
    by (rule on_disk_sint [OF blk(2)])
  have rd: "snd (block_read (disk s) junk (sint ?p)) = disk s ! unat ?p" "length (disk s ! unat ?p) = 4096"
    using blk(2) disk_invD(2) [OF inv] unfolding p by (simp_all add: on_disk_def block_read_on_disk del: of_nat_unat)
  obtain data where data: "mem_write off bs (disk s ! unat ?p) = Done data" "length data = 4096"
      "\<And>y. y < 4096 \<Longrightarrow> data ! y = (if off \<le> y \<and> y < off + length bs then bs ! (y - off) else disk s ! unat ?p ! y)"
    using mem_write_nth [of off bs "disk s ! unat ?p"] assms(6) rd(2) by metis
  let ?s = "s\<lparr>disk := (disk s)[unat ?p := data]\<rparr>"
  have "ensure_block s ?i (int k) idx = Done (?i, s)"
    using assms(5) by (simp add: ensure_block_def)
  moreover have "inode_at (disk ?s) k = ?i"
    using put_data(3) [OF inv blk(3) data(2) assms(2)] blk(2) by (simp add: put_block_def on_disk_def)
  moreover have "write_block s data (sint ?p) = Done ?s"
    using blk(2) unfolding p by (simp add: write_block_def block_write_on_disk del: of_nat_unat)
  ultimately have "transfers s k idx off bs junk ?s data"
    using data rd(1) put_present [OF assms(1-5) data(2)] by (simp add: transfers_def)
  then show ?thesis by blast
qed

lemma transfers_fresh:
  assumes "fs_inv s" "reach (disk s) k" "\<not> is_dir (disk s) k" "idx < NUM_PTRS_INODE"
    "i_ptrs (inode_at (disk s) k) ! idx = 0" "off + length bs \<le> 4096" "length junk = 4096"
    "0 < free_blocks (block_bitmap s)"
  shows "\<exists>s' data. transfers s k idx off bs junk s' data"
proof -
  let ?i = "inode_at (disk s) k"
  have inv: "disk_inv (disk s)" "bitmap_ok s"
    using assms(1) by (simp_all add: fs_inv_def)
  have k: "on_disk (disk s) k"
    by (rule disk_invD(5) [OF inv(1) assms(2)])
  have ok: "inode_ok ?i"
    using inode_at_ok [OF disk_invD(2) [OF inv(1)]] k by (simp add: on_disk_def)
  obtain b where b: "b < 32768" "\<not> used (block_bitmap s) b"
      "alloc_blk s = Done (int b, s\<lparr>block_bitmap := mark (block_bitmap s) b True\<rparr>)"
    by (rule free_blocks_pos [OF inv(2) assms(8)])
  define i' where "i' = ?i\<lparr>i_ptrs := (i_ptrs ?i)[idx := of_nat b]\<rparr>"
  define s1 where "s1 = s\<lparr>disk := (disk s)[k := encode_inode i'], block_bitmap := mark (block_bitmap s) b True\<rparr>"
  have b2: "2 \<le> b" "b \<noteq> k" and ok': "inode_ok i'"
    using unused_unowned [OF assms(1) b(1,2)] assms(2) ok by (auto simp: unowned_def i'_def inode_ok_def)
  have p: "i_ptrs i' ! idx = of_nat b" "sint (of_nat b :: 32 word) = int b"
    using ok assms(4) b(1) by (simp_all add: i'_def inode_ok_def sint_unat32 unat_of_nat)
  define old where "old = snd (block_read (disk s1) junk (int b))"
  have "wf_disk (disk s1)"
    using wf_put_block [OF disk_invD(2) [OF inv(1)], of "encode_inode i'" k] k ok'
    by (simp add: s1_def put_block_def on_disk_def)
  then have "length old = 4096"
    using assms(7) b(1) by (cases "b < length (disk s1)") (simp_all add: old_def block_read_on_disk block_read_fails)
  then obtain data where data: "mem_write off bs old = Done data" "length data = 4096"
      "\<And>y. y < 4096 \<Longrightarrow> data ! y = (if off \<le> y \<and> y < off + length bs then bs ! (y - off) else old ! y)"
    using mem_write_nth [of off bs old] assms(6) by metis
  let ?s = "s\<lparr>disk := put_block ((disk s)[k := encode_inode i']) b data,
      block_bitmap := mark (block_bitmap s) b True\<rparr>"
  have "ensure_block s ?i (int k) idx = Done (i', s1)"
    using assms(5) b(3) write_inode_on_disk [of "s\<lparr>block_bitmap := mark (block_bitmap s) b True\<rparr>" k i'] k
    by (simp add: ensure_block_def s1_def Let_def) (simp add: i'_def)
  moreover have "inode_at (disk ?s) k = i'"
    using k b2(2) ok' by (simp add: inode_at_def put_block_keeps on_disk_def)
  moreover have "write_block s1 data (int b) = Done ?s"
    using b(1) b2 by (simp add: write_block_def block_write_put s1_def)
  ultimately have "transfers s k idx off bs junk ?s data"
    using data(1,3) put_fresh [OF assms(1-5) data(2) b(1,2)] assms(5)
    by (auto simp: transfers_def p i'_def [symmetric] old_def Let_def)
  then show ?thesis by blast
qed

section \<open>The loop\<close>

text \<open>
  \<open>spliced s s' k x bs\<close>: the bytes of file \<open>k\<close> from \<open>x\<close> on are \<open>bs\<close>, the others that were there are kept,
  and of the inode only pointers have changed.
\<close>

definition spliced :: "fs_state \<Rightarrow> fs_state \<Rightarrow> nat \<Rightarrow> nat \<Rightarrow> char list \<Rightarrow> bool" where
  "spliced s s' k x bs \<longleftrightarrow>
     (let i = inode_at (disk s) k; i' = inode_at (disk s') k
      in i'\<lparr>i_ptrs := i_ptrs i\<rparr> = i \<and>
         (\<forall>y<NUM_PTRS_INODE * 4096. i_ptrs i ! (y div 4096) \<noteq> 0 \<or> x \<le> y \<and> y < x + length bs \<longrightarrow>
            i_ptrs i' ! (y div 4096) \<noteq> 0 \<and>
            file_byte (disk s') i' y =
              (if x \<le> y \<and> y < x + length bs then bs ! (y - x) else file_byte (disk s) i y)))"

lemma spliced_Nil: "spliced s s k x []"
  by (auto simp: spliced_def Let_def)

lemma ptrs_only_trans:
  fixes i i1 i2 :: fs_inode
  shows "i1\<lparr>i_ptrs := i_ptrs i\<rparr> = i \<Longrightarrow> i2\<lparr>i_ptrs := i_ptrs i1\<rparr> = i1 \<Longrightarrow> i2\<lparr>i_ptrs := i_ptrs i\<rparr> = i"
  by (cases i; cases i1; cases i2) auto

lemma spliced_append:
  assumes "spliced s s1 k x as" "spliced s1 s2 k (x + length as) bs"
  shows "spliced s s2 k x (as @ bs)"
proof -
  let ?i = "inode_at (disk s) k" and ?i1 = "inode_at (disk s1) k" and ?i2 = "inode_at (disk s2) k"
  have "?i1\<lparr>i_ptrs := i_ptrs ?i\<rparr> = ?i" "?i2\<lparr>i_ptrs := i_ptrs ?i1\<rparr> = ?i1"
    using assms by (simp_all only: spliced_def Let_def)
  then have "?i2\<lparr>i_ptrs := i_ptrs ?i\<rparr> = ?i"
    by (rule ptrs_only_trans)
  moreover have "i_ptrs ?i2 ! (y div 4096) \<noteq> 0 \<and> file_byte (disk s2) ?i2 y =
      (if x \<le> y \<and> y < x + length (as @ bs) then (as @ bs) ! (y - x) else file_byte (disk s) ?i y)"
    if y: "y < NUM_PTRS_INODE * 4096" "i_ptrs ?i ! (y div 4096) \<noteq> 0 \<or> x \<le> y \<and> y < x + length (as @ bs)" for y
  proof -
    have 1: "i_ptrs ?i1 ! (y div 4096) \<noteq> 0 \<and> file_byte (disk s1) ?i1 y =
        (if x \<le> y \<and> y < x + length as then as ! (y - x) else file_byte (disk s) ?i y)"
      if "i_ptrs ?i ! (y div 4096) \<noteq> 0 \<or> x \<le> y \<and> y < x + length as"
      using assms(1) y(1) that unfolding spliced_def Let_def by blast
    have 2: "i_ptrs ?i2 ! (y div 4096) \<noteq> 0 \<and> file_byte (disk s2) ?i2 y =
        (if x + length as \<le> y \<and> y < x + length as + length bs then bs ! (y - (x + length as)) else file_byte (disk s1) ?i1 y)"
      if "i_ptrs ?i1 ! (y div 4096) \<noteq> 0 \<or> x + length as \<le> y \<and> y < x + length as + length bs"
      using assms(2) y(1) that unfolding spliced_def Let_def by blast
    consider "x + length as \<le> y \<and> y < x + length as + length bs"
      | "x \<le> y \<and> y < x + length as" | "\<not> (x \<le> y \<and> y < x + length (as @ bs))"
      by fastforce
    then show ?thesis
      using 1 2 y(2) by cases (auto simp: nth_append)
  qed
  ultimately show ?thesis
    unfolding spliced_def Let_def by blast
qed

lemma transfers_spliced:
  assumes "transfers s k (x div 4096) (x mod 4096) bs junk s' data" "x mod 4096 + length bs \<le> 4096"
    "length (i_ptrs (inode_at (disk s) k)) = NUM_PTRS_INODE"
  shows "spliced s s' k x bs"
proof -
  let ?i = "inode_at (disk s) k" and ?i' = "inode_at (disk s') k"
  let ?j = "x div 4096" and ?p = "i_ptrs (inode_at (disk s') k) ! (x div 4096)"
  have put: "?i' = ?i\<lparr>i_ptrs := (i_ptrs ?i)[?j := ?p]\<rparr>" "?p \<noteq> 0" "disk s' ! unat ?p = data"
      "\<And>j. j < NUM_PTRS_INODE \<Longrightarrow> j \<noteq> ?j \<Longrightarrow> i_ptrs ?i ! j \<noteq> 0 \<Longrightarrow>
         disk s' ! unat (i_ptrs ?i ! j) = disk s ! unat (i_ptrs ?i ! j)"
    using assms(1) by (simp_all add: transfers_def block_put_def Let_def)
  have data: "data ! y = (if x mod 4096 \<le> y \<and> y < x mod 4096 + length bs then bs ! (y - x mod 4096)
      else disk s ! unat (i_ptrs ?i ! ?j) ! y)"
    if "y < 4096" "i_ptrs ?i ! ?j \<noteq> 0 \<or> x mod 4096 \<le> y \<and> y < x mod 4096 + length bs" for y
    using assms(1) that by (auto simp: transfers_def Let_def)
  have ptrs: "i_ptrs ?i' ! j = (if j = ?j then ?p else i_ptrs ?i ! j)" if "j < NUM_PTRS_INODE" for j
    using that assms(3) by (subst put(1)) auto
  have "i_ptrs ?i' ! (y div 4096) \<noteq> 0 \<and> file_byte (disk s') ?i' y =
      (if x \<le> y \<and> y < x + length bs then bs ! (y - x) else file_byte (disk s) ?i y)"
    if y: "y < NUM_PTRS_INODE * 4096" "i_ptrs ?i ! (y div 4096) \<noteq> 0 \<or> x \<le> y \<and> y < x + length bs" for y
  proof (cases "y div 4096 = ?j")
    case True
    have "x \<le> y \<and> y < x + length bs \<longleftrightarrow> x mod 4096 \<le> y mod 4096 \<and> y mod 4096 < x mod 4096 + length bs"
        "x \<le> y \<Longrightarrow> y - x = y mod 4096 - x mod 4096"
      using True div_mult_mod_eq [of x 4096] div_mult_mod_eq [of y 4096] by linarith+
    then show ?thesis
      using True y(2) put(2,3) data [of "y mod 4096"] by (auto simp: file_byte_def)
  next
    case False
    then have "\<not> (x \<le> y \<and> y < x + length bs)"
      using div_in_block(1) [OF assms(2), of y] by blast
    moreover have "y div 4096 < NUM_PTRS_INODE"
      using y(1) by (rule less_mult_imp_div_less)
    ultimately show ?thesis
      using False y(2) ptrs put(4) by (auto simp: file_byte_def)
  qed
  moreover have "?i'\<lparr>i_ptrs := i_ptrs ?i\<rparr> = ?i"
    by (subst put(1)) simp
  ultimately show ?thesis
    unfolding spliced_def Let_def by blast
qed

lemma write_loop_splices:
  assumes "fs_inv s" "reach (disk s) k" "\<not> is_dir (disk s) k" "len \<le> length buf" "len < 2 ^ 63"
    "w \<le> len" "x + (len - w) \<le> NUM_PTRS_INODE * 4096"
    "missing (inode_at (disk s) k) x (len - w) \<le> free_blocks (block_bitmap s)"
  shows "\<exists>s'. write_loop env (int k) buf len (inode_at (disk s) k) s (int x) w = Done s' \<and>
    stored s s' k \<and> spliced s s' k x (take (len - w) (drop w buf))"
  using assms(1-3,6-8)
proof (induction "len - w" arbitrary: w x s rule: less_induct)
  case less
  show ?case
  proof (cases "w = len")
    case True
    then show ?thesis
      using stored_refl [OF less.prems(1)] by (simp add: write_loop.simps spliced_Nil)
  next
    case False
    with less.prems(4) have lt: "w < len" by simp
    define n where "n = norm_len len (int x) w"
    have n: "0 < n" "n \<le> len - w" "x mod 4096 + n \<le> 4096"
      using norm_len_pos [OF lt, of "int x"] norm_len_min [OF lt assms(5), of x] by (auto simp: n_def)
    let ?j = "x div 4096" and ?i = "inode_at (disk s) k" and ?bs = "take n (drop w buf)"
    have j: "?j < NUM_PTRS_INODE" "blk_index (int x) = ?j"
      using less.prems(5) lt by (auto intro!: less_mult_imp_div_less simp: blk_index_nat)
    have bs: "length ?bs = n" "x mod 4096 + length ?bs \<le> 4096"
      using n assms(4) by simp_all
    have inv: "disk_inv (disk s)"
      using less.prems(1) by (simp add: fs_inv_def)
    have ptrs: "length (i_ptrs ?i) = NUM_PTRS_INODE"
      using inode_at_ok [of "disk s" k] disk_invD(2,5) [OF inv] less.prems(2) by (auto simp: inode_ok_def on_disk_def)
    have "i_ptrs ?i ! ?j = 0 \<Longrightarrow> 0 < free_blocks (block_bitmap s)"
      using missing_pos [OF _ j(1), of ?i "len - w"] less.prems(6) lt by simp
    then obtain s1 data where t: "transfers s k ?j (x mod 4096) ?bs (uninit env ''data_block'' 4096) s1 data"
      using transfers_present [OF less.prems(1-3) j(1) _ bs(2)]
        transfers_fresh [OF less.prems(1-3) j(1) _ bs(2) length_uninit] by blast
    let ?i1 = "inode_at (disk s1) k"
    have "block_put s s1 k ?j data"
      using t by (simp add: transfers_def Let_def)
    note put = block_putD [OF this]
    have step: "write_loop env (int k) buf len ?i s (int x) w =
        write_loop env (int k) buf len ?i1 s1 (int (x + n)) (w + n)"
      using t False lt j n assms(4)
      by (subst write_loop.simps) (auto simp: transfers_def Let_def n_def [symmetric])
    have next_ok: "fs_inv s1" "reach (disk s1) k" "\<not> is_dir (disk s1) k"
      using put(1) less.prems(2,3) same_names_reach [of "disk s" "disk s1"]
      by (auto simp: stored_def same_names_def)
    have rest: "len - (w + n) < len - w" "w + n \<le> len" "x + n + (len - (w + n)) \<le> NUM_PTRS_INODE * 4096"
      using n lt less.prems(5) by linarith+
    have "missing ?i1 (x + n) (len - (w + n)) \<le> free_blocks (block_bitmap s1)"
      using missing_step [OF put(2,3) refl j(1) ptrs n(2)] put(4) n lt less.prems(6)
      by (auto split: if_splits)
    then obtain s' where "write_loop env (int k) buf len ?i1 s1 (int (x + n)) (w + n) = Done s'"
        "stored s1 s' k" "spliced s1 s' k (x + n) (take (len - (w + n)) (drop (w + n) buf))"
      using less.hyps [OF rest(1) next_ok rest(2,3)] by blast
    moreover have "take (len - w) (drop w buf) = ?bs @ take (len - (w + n)) (drop (w + n) buf)"
    proof -
      have "len - w = n + (len - (w + n))"
        using n(2) by simp
      then show ?thesis
        by (simp only: take_add drop_drop add.commute)
    qed
    ultimately show ?thesis
      using step stored_trans [OF put(1)] spliced_append [OF transfers_spliced [OF t bs(2) ptrs]] bs(1) by auto
  qed
qed

section \<open>The handler\<close>

lemma write_size_max:
  assumes "file_ok i" "x \<le> fsize i" "fsize i + len \<le> NUM_PTRS_INODE * 4096"
  shows "sint (write_size i len (int x)) = int (max (fsize i) (x + len))"
proof -
  have size: "sint (i_size i) = int (fsize i)"
    using assms(1) by (simp add: file_ok_def fsize_def)
  have small: "sint (of_int n :: 32 word) = n" if "0 \<le> n" "n \<le> 4173824" for n
    using that by (simp add: signed_of_int signed_take_bit_int_eq_self)
  have u: "u64 (int (fsize i)) = int (fsize i)" "u64 (int x + int len) = int (x + len)"
    using assms(2,3) by simp_all
  consider "x = fsize i" | "x < fsize i" "fsize i < x + len" | "x < fsize i" "x + len \<le> fsize i"
    using assms(2) by linarith
  then show ?thesis
  proof cases
    case 1
    then show ?thesis
      using small [of "int (fsize i + len)"] assms(3) by (simp add: write_size_def size)
  next
    case 2
    then show ?thesis
      using small [of "int (x + len)"] assms(3) by (simp add: write_size_def size u max_def add.commute)
  qed (simp add: write_size_def size u Let_def)
qed

lemma take_append_drop_nth:
  assumes "x \<le> length xs" "y < max (length xs) (x + length bs)"
  shows "(take x xs @ bs @ drop (x + length bs) xs) ! y =
    (if x \<le> y \<and> y < x + length bs then bs ! (y - x) else xs ! y)"
  using assms by (auto simp: nth_append)

text \<open>The state after the inode was written back with its new size and time.\<close>

lemma write_attr:
  fixes sz t :: "32 word"
  assumes "fs_inv s" "good_path cs" "resolve (disk s) 2 cs = int k" "\<not> is_dir (disk s) k"
  defines "i \<equiv> inode_at (disk s) k"
  defines "s1 \<equiv> s\<lparr>disk := (disk s)[k := encode_inode (i\<lparr>i_size := sz, i_mtime := t\<rparr>)]\<rparr>"
  shows "write_inode s (i\<lparr>i_size := sz, i_mtime := t\<rparr>) (int k) = Done s1" "stored s s1 k"
    "inode_at (disk s1) k = i\<lparr>i_size := sz, i_mtime := t\<rparr>" "reach (disk s1) k" "\<not> is_dir (disk s1) k"
    "\<And>b. b \<in> set (blocks_of (disk s) k) \<Longrightarrow> disk s1 ! b = disk s ! b"
proof -
  let ?i = "i\<lparr>i_size := sz, i_mtime := t\<rparr>"
  have inv: "disk_inv (disk s)"
    using assms(1) by (simp add: fs_inv_def)
  note h = handler_entry [OF inv assms(2,3)]
  show "write_inode s ?i (int k) = Done s1"
    using write_inode_on_disk [OF h(3)] by (simp add: s1_def)
  have u: "inode_update (disk s) k ?i"
    by (rule inode_update_attr [OF inv h(2)]) (simp_all add: i_def is_dir_def)
  note sh = inode_update_shape [OF u] and rc = inode_update_reach [OF u]
  show "inode_at (disk s1) k = ?i" "reach (disk s1) k" "\<not> is_dir (disk s1) k"
    using h(2) assms(4) by (simp_all add: s1_def sh rc)
  have "inode_blocks ?i = blocks_of (disk s) k"
    by (simp add: i_def blocks_of_def inode_blocks_def)
  then have fs: "fs_inv s1"
    unfolding s1_def by (rule inode_update_fs_inv_attr [OF assms(1) u])
  have keep: "disk s1 ! b = disk s ! b" if "reach (disk s) j" "b \<in> set (blocks_of (disk s) j)" for j b
  proof -
    have "b \<noteq> k"
      using disk_invD(4) [OF inv that(1)] that(2) h(2) by (auto simp: owns_ok_def)
    then show ?thesis by (simp add: s1_def)
  qed
  then show "\<And>b. b \<in> set (blocks_of (disk s) k) \<Longrightarrow> disk s1 ! b = disk s ! b"
    using h(2) by blast
  show "stored s s1 k"
    using fs keep inode_update_same_names [OF u] by (auto simp: stored_def s1_def sh(1))
qed

text \<open>Splicing into a file that has no holes, with the size set to the end of the data.\<close>

lemma spliced_contents:
  assumes "spliced s s' k x bs" "fsize (inode_at (disk s) k) = max n (x + length bs)"
    "0 \<le> sint (i_size (inode_at (disk s) k))" "max n (x + length bs) \<le> NUM_PTRS_INODE * 4096" "x \<le> n"
    "length old = n" "\<And>y. y < n \<Longrightarrow> i_ptrs (inode_at (disk s) k) ! (y div 4096) \<noteq> 0"
    "\<And>y. y < n \<Longrightarrow> file_byte (disk s) (inode_at (disk s) k) y = old ! y"
  shows "file_ok (inode_at (disk s') k)"
    "file_bytes (disk s') k = take x old @ bs @ drop (x + length bs) old"
proof -
  let ?i = "inode_at (disk s) k" and ?i' = "inode_at (disk s') k"
  have "?i'\<lparr>i_ptrs := i_ptrs ?i\<rparr> = ?i"
    using assms(1) by (simp add: spliced_def Let_def)
  from arg_cong [OF this, of i_size] have sz: "i_size ?i' = i_size ?i"
    by simp
  have at: "i_ptrs ?i' ! (y div 4096) \<noteq> 0 \<and> file_byte (disk s') ?i' y =
      (if x \<le> y \<and> y < x + length bs then bs ! (y - x) else file_byte (disk s) ?i y)"
    if "y < max n (x + length bs)" for y
  proof -
    have "y < NUM_PTRS_INODE * 4096" "i_ptrs ?i ! (y div 4096) \<noteq> 0 \<or> x \<le> y \<and> y < x + length bs"
      using that assms(4,5) assms(7) [of y] by linarith+
    then show ?thesis
      using assms(1) unfolding spliced_def Let_def by blast
  qed
  then show "file_ok ?i'"
    using assms(2-4) by (simp add: file_ok_def fsize_def sz)
  show "file_bytes (disk s') k = take x old @ bs @ drop (x + length bs) old"
  proof (rule nth_equalityI)
    show "length (file_bytes (disk s') k) = length (take x old @ bs @ drop (x + length bs) old)"
      using assms(2,5,6) by (simp add: fsize_def sz)
    fix y
    assume "y < length (file_bytes (disk s') k)"
    then have y: "y < max n (x + length bs)" "y < fsize ?i'"
      using assms(2) by (simp_all add: fsize_def sz)
    have "file_bytes (disk s') k ! y = file_byte (disk s') ?i' y"
      using y(2) by (simp add: file_bytes_def)
    also have "\<dots> = (take x old @ bs @ drop (x + length bs) old) ! y"
      using at [OF y(1)] y(1) assms(5,6) assms(8) [of y] take_append_drop_nth [of x old y bs] by auto
    finally show "file_bytes (disk s') k ! y = (take x old @ bs @ drop (x + length bs) old) ! y" .
  qed
qed

lemma file_byte_kept:
  assumes "disk_inv d" "reach d k" "\<not> is_dir d k" "file_ok (inode_at d k)" "y < fsize (inode_at d k)"
    "i_ptrs i' = i_ptrs (inode_at d k)" "\<And>b. b \<in> set (blocks_of d k) \<Longrightarrow> d' ! b = d ! b"
  shows "i_ptrs i' ! (y div 4096) \<noteq> 0" "file_byte d' i' y = file_bytes d k ! y"
proof -
  have "i_ptrs (inode_at d k) ! (y div 4096) \<noteq> 0" "y div 4096 < NUM_PTRS_INODE"
    using assms(4,5) file_readable [OF assms(1-5)] by (auto simp: file_ok_def readable_def)
  then show "i_ptrs i' ! (y div 4096) \<noteq> 0" "file_byte d' i' y = file_bytes d k ! y"
    using assms(7) [OF file_block(1) [OF assms(1-3)]] assms(5,6) by (simp_all add: file_byte_def file_bytes_def)
qed

lemma fs_write_file:
  assumes "fs_inv s" "good_path cs" "resolve (disk s) 2 cs = int k" "\<not> is_dir (disk s) k"
    "file_ok (inode_at (disk s) k)" "x \<le> fsize (inode_at (disk s) k)" "len \<le> length buf"
    "fsize (inode_at (disk s) k) + len \<le> NUM_PTRS_INODE * 4096"
    "missing (inode_at (disk s) k) x len \<le> free_blocks (block_bitmap s)"
  obtains s' where "fs_write env s (path_of cs) buf len (int x) = Done (int len, s')" "stored s s' k"
    "file_ok (inode_at (disk s') k)"
    "file_bytes (disk s') k =
       take x (file_bytes (disk s) k) @ take len buf @ drop (x + len) (file_bytes (disk s) k)"
    "i_mtime (inode_at (disk s') k) = of_int (env_time env)"
    "i_mode (inode_at (disk s') k) = i_mode (inode_at (disk s) k)"
proof -
  let ?i = "inode_at (disk s) k" and ?sz = "write_size (inode_at (disk s) k) len (int x)"
  let ?t = "of_int (env_time env) :: 32 word"
  have inv: "disk_inv (disk s)"
    using assms(1) by (simp add: fs_inv_def)
  note h = handler_entry [OF inv assms(2,3)]
  note w = write_attr [OF assms(1-4), where sz = ?sz and t = ?t]
  define s1 where "s1 = s\<lparr>disk := (disk s)[k := encode_inode (?i\<lparr>i_size := ?sz, i_mtime := ?t\<rparr>)]\<rparr>"
  note w = w [folded s1_def]
  have size: "sint ?sz = int (max (fsize ?i) (x + len))"
    by (rule write_size_max [OF assms(5,6,8)])
  have "missing (inode_at (disk s1) k) x len \<le> free_blocks (block_bitmap s1)"
    using assms(9) by (simp add: w(3) missing_def) (simp add: s1_def)
  then obtain s' where s': "write_loop env (int k) buf len (inode_at (disk s1) k) s1 (int x) 0 = Done s'"
      "stored s1 s' k" "spliced s1 s' k x (take len buf)"
    using write_loop_splices [of s1 k len buf 0 x env] w(2,4,5) assms(6-8) by (auto simp: stored_def)
  have "sint (i_size ?i) = int (fsize ?i)" "u64 (int (fsize ?i) + int len) = int (fsize ?i + len)"
      "int32 (int len) = int len"
    using assms(5,8) by (simp_all add: file_ok_def fsize_def)
  then have "fs_write env s (path_of cs) buf len (int x) = Done (int len, s')"
    using h assms(4,6,8) w(1,3) s'(1) by (simp add: fs_write_def is_dir_def Let_def)
  moreover have "file_ok (inode_at (disk s') k)" "file_bytes (disk s') k =
      take x (file_bytes (disk s) k) @ take len buf @ drop (x + len) (file_bytes (disk s) k)"
  proof -
    have len: "length (take len buf) = len"
      using assms(7) by simp
    have "i_ptrs (inode_at (disk s1) k) = i_ptrs ?i"
      by (simp add: w(3))
    note byte = file_byte_kept [OF inv h(2) assms(4,5) _ this w(6)]
    have "fsize (inode_at (disk s1) k) = max (fsize ?i) (x + length (take len buf))"
        "0 \<le> sint (i_size (inode_at (disk s1) k))"
        "max (fsize ?i) (x + length (take len buf)) \<le> NUM_PTRS_INODE * 4096"
      using size assms(6,8) unfolding len by (simp_all add: w(3) fsize_def)
    note c = spliced_contents [OF s'(3) this assms(6) length_file_bytes byte]
    show "file_ok (inode_at (disk s') k)" "file_bytes (disk s') k =
        take x (file_bytes (disk s) k) @ take len buf @ drop (x + len) (file_bytes (disk s) k)"
      using c unfolding len by simp_all
  qed
  moreover have "(inode_at (disk s') k)\<lparr>i_ptrs := i_ptrs (inode_at (disk s1) k)\<rparr> = inode_at (disk s1) k"
    using s'(3) by (simp add: spliced_def Let_def)
  from arg_cong [OF this, of i_mtime] arg_cong [OF this, of i_mode]
  have "i_mtime (inode_at (disk s') k) = ?t" "i_mode (inode_at (disk s') k) = i_mode ?i"
    by (simp_all add: w(3))
  ultimately show thesis
    using that stored_trans [OF w(2) s'(2)] by blast
qed

text \<open>
  C7. \<^verbatim>\<open>fs_write\<close> on a consistent image, with the offset within the file, the sum of size and length within
  the maximum and as many free blocks as the transfer has to add: it returns the length, the contents
  are the old ones with the buffer spliced in at the offset (growing the file where it ends later),
  the time is the current one, and every path, every other inode and the contents of every other file
  are as before; the invariant is kept.
\<close>

theorem fs_write_splices:
  assumes "fs_inv s" "good_path cs" "resolve (disk s) 2 cs = int k" "\<not> is_dir (disk s) k"
    "file_ok (inode_at (disk s) k)" "x \<le> fsize (inode_at (disk s) k)" "len \<le> length buf"
    "fsize (inode_at (disk s) k) + len \<le> NUM_PTRS_INODE * 4096"
    "missing (inode_at (disk s) k) x len \<le> free_blocks (block_bitmap s)"
  shows "\<exists>s'. fs_write env s (path_of cs) buf len (int x) = Done (int len, s') \<and> fs_inv s' \<and>
    file_ok (inode_at (disk s') k) \<and>
    file_bytes (disk s') k =
      take x (file_bytes (disk s) k) @ take len buf @ drop (x + len) (file_bytes (disk s) k) \<and>
    i_mtime (inode_at (disk s') k) = of_int (env_time env) \<and>
    (\<forall>ds. resolve (disk s') 2 ds = resolve (disk s) 2 ds) \<and>
    (\<forall>j. reach (disk s) j \<and> j \<noteq> k \<longrightarrow> inode_at (disk s') j = inode_at (disk s) j \<and>
       (\<not> is_dir (disk s) j \<and> file_ok (inode_at (disk s) j) \<longrightarrow> file_bytes (disk s') j = file_bytes (disk s) j))"
proof -
  obtain s' where s': "fs_write env s (path_of cs) buf len (int x) = Done (int len, s')" "stored s s' k"
      "file_ok (inode_at (disk s') k)" "file_bytes (disk s') k =
         take x (file_bytes (disk s) k) @ take len buf @ drop (x + len) (file_bytes (disk s) k)"
      "i_mtime (inode_at (disk s') k) = of_int (env_time env)"
    by (rule fs_write_file [OF assms])
  have inv: "disk_inv (disk s)"
    using assms(1) by (simp add: fs_inv_def)
  show ?thesis
    using s' stored_file_bytes [OF s'(2) inv] same_names_resolve [OF _ reach_root]
    by (intro exI [of _ s']) (auto simp: stored_def)
qed

lemma missing_bound: "missing i x n \<le> NUM_PTRS_INODE"
  using length_filter_le [of _ "[0..<NUM_PTRS_INODE]"] by (simp add: missing_def del: length_filter_le) 

lemma sample_free_blocks: "free_blocks (block_bitmap sample) = 32760"
proof -
  have "{b. b < 32768 \<and> \<not> used (block_bitmap sample) b} = {8..<32768}"
    using sample_used by auto
  then show ?thesis
    by (simp add: count_simps)
qed

lemma sample_bytes: "file_bytes sample_disk 4 = ''hello''" "file_ok (inode_at sample_disk 4)"
    "fsize (inode_at sample_disk 4) = 5"
  by (simp add: file_bytes_def sample_inodes fsize_def file_byte_def upt_rec, simp add: sample_disk_def)
    (simp_all add: sample_inodes file_ok_def fsize_def)

theorem fs_write_splices_witness:
  "\<exists>s'. fs_write sample_env sample ''/a'' (replicate 5000 CHR ''x'') 5000 2 = Done (5000, s') \<and>
     fs_inv s' \<and> file_bytes (disk s') 4 = ''he'' @ replicate 5000 CHR ''x''"
  using fs_write_splices [of sample "[''a'']" 4 2 5000 "replicate 5000 CHR ''x''" sample_env] sample_inv
    missing_bound [of "inode_at sample_disk 4" 2 5000]
  by (auto simp: sample_paths sample_resolve sample_nodes sample_free_blocks sample_bytes
      simp del: resolve.simps)

text \<open>
  What \<^verbatim>\<open>fs_write\<close> has stored is what \<^verbatim>\<open>fs_read\<close> of the same path, offset and length returns.
\<close>

lemma fs_write_then_read:
  assumes "fs_inv s" "good_path cs" "resolve (disk s) 2 cs = int k" "\<not> is_dir (disk s) k"
    "file_ok (inode_at (disk s) k)" "x \<le> fsize (inode_at (disk s) k)" "len \<le> length buf"
    "fsize (inode_at (disk s) k) + len \<le> NUM_PTRS_INODE * 4096"
    "missing (inode_at (disk s) k) x len \<le> free_blocks (block_bitmap s)"
  shows "\<exists>s'. fs_write env s (path_of cs) buf len (int x) = Done (int len, s') \<and>
    fs_read env' s' (path_of cs) len (int x) = Done (int len, take len buf)"
proof -
  obtain s' where s': "fs_write env s (path_of cs) buf len (int x) = Done (int len, s')" "stored s s' k"
      "file_ok (inode_at (disk s') k)" "file_bytes (disk s') k =
         take x (file_bytes (disk s) k) @ take len buf @ drop (x + len) (file_bytes (disk s) k)"
    by (rule fs_write_file [OF assms])
  have k: "reach (disk s) k"
    by (rule resolve_reach [OF reach_root assms(3)])
  have "disk_inv (disk s')" "resolve (disk s') 2 cs = int k" "\<not> is_dir (disk s') k"
    using s'(2) assms(3,4) same_names_resolve [OF _ reach_root] k
    by (auto simp: stored_def fs_inv_def same_names_def)
  moreover have "take len (drop x (file_bytes (disk s') k)) = take len buf"
    using assms(6,7) by (simp add: s'(4))
  moreover have "len < 2 ^ 62" "x < 2 ^ 62"
    using assms(6,8) by simp_all
  ultimately have "fs_read env' s' (path_of cs) len (int x) = Done (int len, take len buf)"
    using fs_read_file [of s' cs k len x env'] assms(2,7) s'(3) by simp
  then show ?thesis
    using s'(1) by blast
qed

lemma fs_write_then_read_witness:
  "\<exists>s'. fs_write sample_env sample ''/a'' ''y world'' 7 4 = Done (7, s') \<and>
     fs_read sample_env s' ''/a'' 7 4 = Done (7, ''y world'')"
  using fs_write_then_read [of sample "[''a'']" 4 4 7 "''y world''" sample_env sample_env] sample_inv
    missing_bound [of "inode_at sample_disk 4" 4 7]
  by (simp add: sample_paths sample_resolve sample_nodes sample_free_blocks sample_bytes del: resolve.simps)

text \<open>
  What \<^verbatim>\<open>fs_write\<close> refuses, without a change: directories, an offset past the end, and a length that
  exceeds the maximum together with the whole size, even where the data would overwrite.
\<close>

lemma fs_write_refuses:
  assumes "disk_inv (disk s)" "good_path cs" "resolve (disk s) 2 cs = int k"
  shows "is_dir (disk s) k \<Longrightarrow> fs_write env s (path_of cs) buf len offset = Done (- EISDIR, s)"
    "\<not> is_dir (disk s) k \<Longrightarrow> sint (i_size (inode_at (disk s) k)) < offset \<Longrightarrow>
       fs_write env s (path_of cs) buf len offset = Done (- EINVAL, s)"
    "\<not> is_dir (disk s) k \<Longrightarrow> file_ok (inode_at (disk s) k) \<Longrightarrow>
       offset \<le> sint (i_size (inode_at (disk s) k)) \<Longrightarrow> len < 2 ^ 62 \<Longrightarrow>
       NUM_PTRS_INODE * 4096 < fsize (inode_at (disk s) k) + len \<Longrightarrow>
       fs_write env s (path_of cs) buf len offset = Done (- ENOSPC, s)"
proof -
  note h = handler_entry [OF assms]
  show "is_dir (disk s) k \<Longrightarrow> fs_write env s (path_of cs) buf len offset = Done (- EISDIR, s)"
    "\<not> is_dir (disk s) k \<Longrightarrow> sint (i_size (inode_at (disk s) k)) < offset \<Longrightarrow>
       fs_write env s (path_of cs) buf len offset = Done (- EINVAL, s)"
    using h by (simp_all add: fs_write_def is_dir_def Let_def)
  assume f: "\<not> is_dir (disk s) k" "file_ok (inode_at (disk s) k)"
    "offset \<le> sint (i_size (inode_at (disk s) k))" "len < 2 ^ 62"
    "NUM_PTRS_INODE * 4096 < fsize (inode_at (disk s) k) + len"
  have "sint (i_size (inode_at (disk s) k)) = int (fsize (inode_at (disk s) k))"
      "u64 (int (fsize (inode_at (disk s) k)) + int len) = int (fsize (inode_at (disk s) k) + len)"
    using f(2,4) by (simp add: file_ok_def fsize_def, simp add: file_ok_def)
  then show "fs_write env s (path_of cs) buf len offset = Done (- ENOSPC, s)"
    using h f by (simp add: fs_write_def is_dir_def Let_def)
qed

text \<open>
  With no free block the result of \<^verbatim>\<open>alloc_blk\<close> is taken for a block number and the assertion of
  \<^verbatim>\<open>block_write\<close> ends the process.
\<close>

lemma fs_write_full_disk:
  assumes "fs_inv s" "good_path cs" "resolve (disk s) 2 cs = int k" "\<not> is_dir (disk s) k"
    "file_ok (inode_at (disk s) k)" "x \<le> fsize (inode_at (disk s) k)" "len \<le> length buf" "0 < len"
    "fsize (inode_at (disk s) k) + len \<le> NUM_PTRS_INODE * 4096"
    "i_ptrs (inode_at (disk s) k) ! (x div 4096) = 0" "free_blocks (block_bitmap s) = 0"
  shows "fs_write env s (path_of cs) buf len (int x) = Abort"
proof -
  let ?i = "inode_at (disk s) k" and ?sz = "write_size (inode_at (disk s) k) len (int x)"
  let ?t = "of_int (env_time env) :: 32 word" and ?j = "x div 4096"
  have inv: "disk_inv (disk s)"
    using assms(1) by (simp add: fs_inv_def)
  note h = handler_entry [OF inv assms(2,3)]
  note w = write_attr [OF assms(1-4), where sz = ?sz and t = ?t]
  define s1 where "s1 = s\<lparr>disk := (disk s)[k := encode_inode (?i\<lparr>i_size := ?sz, i_mtime := ?t\<rparr>)]\<rparr>"
  note w = w [folded s1_def]
  have inv1: "disk_inv (disk s1)" "bitmap_ok s1"
    using w(2) by (simp_all add: stored_def fs_inv_def)
  have "alloc_blk s1 = Done (- ENOSPC, s1)"
    using alloc_blk_full [OF inv1(2)] assms(11) by (auto simp: s1_def free_blocks_def filter_empty_conv)
  moreover have j: "?j < NUM_PTRS_INODE" "blk_index (int x) = ?j"
    using assms(6,8,9) by (auto intro!: less_mult_imp_div_less simp: blk_index_nat)
  moreover have "length (i_ptrs ?i) = NUM_PTRS_INODE"
    using inode_at_ok [of "disk s" k] disk_invD(2,5) [OF inv] h(2) by (auto simp: inode_ok_def on_disk_def)
  moreover have "write_inode s1 i' (int k) = Done (s1\<lparr>disk := (disk s1)[k := encode_inode i']\<rparr>)" for i'
    using write_inode_on_disk disk_invD(5) [OF inv1(1) w(4)] by blast
  moreover have "norm_len len (int x) 0 = min (4096 - x mod 4096) len"
    using norm_len_min [OF assms(8), of x] assms(9) by simp
  ultimately have "write_loop env (int k) buf len (inode_at (disk s1) k) s1 (int x) 0 = Abort"
    using assms(7,8,10) w(3)
    by (subst write_loop.simps) (auto simp: ensure_block_def Let_def write_block_def block_write_nonpos
        block_read_negative mem_write_def errno_defs)
  moreover have "sint (i_size ?i) = int (fsize ?i)" "u64 (int (fsize ?i) + int len) = int (fsize ?i + len)"
    using assms(5,9) by (simp_all add: file_ok_def fsize_def)
  ultimately show ?thesis
    using h assms(4,6,9) w(1,3) by (simp add: fs_write_def is_dir_def Let_def)
qed

end
