(* ===== verification/Fs_Rename.thy ===== *)
theory Fs_Rename
  imports Fs_Write "HOL-Library.Sublist"
begin

text \<open>
  \<^verbatim>\<open>fs_rename\<close> of Lab 5: one entry of a directory gets a new name.  In a tree a node has one path, so
  that the paths through the old name, and no others, change.
\<close>

section \<open>A node has one path\<close>

lemma lookup_link:
  assumes "reach d j" "is_dir d j" "lookup_dirent (dir_at d j) n = Some m"
  obtains l where "(j, l) \<in> links d" "target d (j, l) = m" "entry_named n (dir_at d j ! l)"
  using assms by (auto simp: lookup_dirent_def find_Some_iff links_def target_def entry_named_def)

lemma resolve_snocE:
  assumes "resolve d 2 (cs @ [c]) = int j"
  obtains m where "resolve d 2 cs = int m" "is_dir d m" "lookup_dirent (dir_at d m) c = Some j"
proof -
  have "resolve d k (cs @ [c]) = int j \<Longrightarrow>
      \<exists>m. resolve d k cs = int m \<and> is_dir d m \<and> lookup_dirent (dir_at d m) c = Some j" for k
    by (induction cs arbitrary: k) (auto simp: errno_defs split: if_splits option.splits)
  then show ?thesis
    using assms that by blast
qed

lemma unique_path:
  assumes "tree_ok d" "resolve d 2 cs = int j" "resolve d 2 cs' = int j"
  shows "cs = cs'"
  using assms(2,3)
proof (induction cs arbitrary: j cs' rule: rev_induct)
  case Nil
  show ?case
  proof (cases cs' rule: rev_cases)
    case (snoc bs b)
    then obtain m where m: "resolve d 2 bs = int m" "is_dir d m" "lookup_dirent (dir_at d m) b = Some j"
      using Nil.prems(2) by (auto elim: resolve_snocE)
    obtain l where "(m, l) \<in> links d" "target d (m, l) = j"
      by (rule lookup_link [OF resolve_reach [OF reach_root m(1)] m(2,3)])
    then show ?thesis
      using assms(1) Nil.prems(1) by (force simp: tree_ok_def image_iff)
  qed simp
next
  case (snoc a as)
  obtain m where m: "resolve d 2 as = int m" "is_dir d m" "lookup_dirent (dir_at d m) a = Some j"
    by (rule resolve_snocE [OF snoc.prems(1)])
  obtain l where l: "(m, l) \<in> links d" "target d (m, l) = j" "entry_named a (dir_at d m ! l)"
    by (rule lookup_link [OF resolve_reach [OF reach_root m(1)] m(2,3)])
  show ?case
  proof (cases cs' rule: rev_cases)
    case Nil
    then show ?thesis
      using l assms(1) snoc.prems(2) by (force simp: tree_ok_def image_iff)
  next
    case (snoc bs b)
    then obtain m' where m': "resolve d 2 bs = int m'" "is_dir d m'" "lookup_dirent (dir_at d m') b = Some j"
      using snoc.prems(2) by (auto elim: resolve_snocE)
    obtain l' where l': "(m', l') \<in> links d" "target d (m', l') = j" "entry_named b (dir_at d m' ! l')"
      by (rule lookup_link [OF resolve_reach [OF reach_root m'(1)] m'(2,3)])
    have "(m, l) = (m', l')"
      using assms(1) l(1,2) l'(1,2) by (auto simp: tree_ok_def inj_on_def)
    then show ?thesis
      using snoc l(3) l'(3) m(1) m'(1) \<open>\<And>j cs'. resolve d 2 as = int j \<Longrightarrow> resolve d 2 cs' = int j \<Longrightarrow> as = cs'\<close>
      by (auto simp: entry_named_def)
  qed
qed

section \<open>An entry under a new name\<close>

definition renamed :: "fs_dirent \<Rightarrow> string \<Rightarrow> fs_dirent" where
  "renamed e c = e\<lparr>d_name := c @ NUL # drop (Suc (length c)) (d_name e)\<rparr>"

definition relink :: "disk \<Rightarrow> nat \<Rightarrow> nat \<Rightarrow> string \<Rightarrow> disk" where
  "relink d p i c = d[dir_blk d p := encode_dirents ((dir_at d p)[i := renamed (dir_at d p ! i) c])]"

definition can_relink :: "disk \<Rightarrow> nat \<Rightarrow> nat \<Rightarrow> string \<Rightarrow> string \<Rightarrow> bool" where
  "can_relink d p i c c' \<longleftrightarrow> disk_inv d \<and> tree_ok d \<and> reach d p \<and> is_dir d p \<and>
     i < length (dir_at d p) \<and> entry_named c (dir_at d p ! i) \<and> NUL \<notin> set c' \<and> length c' \<le> 26 \<and>
     lookup_dirent (dir_at d p) c' = None"

lemma renamed_simps [simp]:
  "d_valid (renamed e c) = d_valid e" "d_inode (renamed e c) = d_inode e"
  "NUL \<notin> set c \<Longrightarrow> c_str (d_name (renamed e c)) = Done c"
  by (simp_all add: renamed_def)

lemma can_relinkD:
  assumes "can_relink d p i c c'"
  shows "disk_inv d" "tree_ok d" "reach d p" "is_dir d p" "i < length (dir_at d p)"
    "entry_named c (dir_at d p ! i)" "NUL \<notin> set c'" "lookup_dirent (dir_at d p) c' = None"
    "dirents_ok ((dir_at d p)[i := renamed (dir_at d p ! i) c'])" "names_unique (dir_at d p)" "c' \<noteq> c"
    "names_ok ((dir_at d p)[i := renamed (dir_at d p ! i) c'])"
proof -
  show inv: "disk_inv d" and "tree_ok d" and p: "reach d p" and dir: "is_dir d p" and i: "i < length (dir_at d p)"
    and e: "entry_named c (dir_at d p ! i)" and n: "NUL \<notin> set c'" and none: "lookup_dirent (dir_at d p) c' = None"
    using assms by (simp_all add: can_relink_def)
  then show "names_unique (dir_at d p)" "c' \<noteq> c"
    by (auto simp: tree_ok_def lookup_None_iff)
  have ok: "dirents_ok (dir_at d p)" "names_ok (dir_at d p)"
    using disk_invD(2,3) [OF inv] p dir by (auto intro!: dir_at_ok simp: node_ok_def on_disk_def)
  then have "dirent_ok (dir_at d p ! i)"
    using i by (simp add: dirents_ok_def list_all_iff)
  then have "dirent_ok (renamed (dir_at d p ! i) c')"
    using assms by (simp add: dirent_ok_def renamed_def can_relink_def)
  then show "dirents_ok ((dir_at d p)[i := renamed (dir_at d p ! i) c'])"
    by (rule dirents_ok_update [OF ok(1)])
  show "names_ok ((dir_at d p)[i := renamed (dir_at d p ! i) c'])"
    using ok(2) n by (auto simp: names_ok_def dest!: set_update_subset_insert [THEN subsetD])
qed

lemma relink_kept:
  assumes "can_relink d p i c c'" "reach d j"
  shows "inode_at (relink d p i c') j = inode_at d j" "is_dir (relink d p i c') j = is_dir d j"
    "dir_blk (relink d p i c') j = dir_blk d j" "blocks_of (relink d p i c') j = blocks_of d j"
    "is_dir d j \<Longrightarrow> dir_at (relink d p i c') j =
       (if j = p then (dir_at d p)[i := renamed (dir_at d p ! i) c'] else dir_at d j)"
  using entries_kept [OF can_relinkD(1,3,4,9) [OF assms(1)], of "{b. reach d b}" j] assms(2)
  by (simp_all add: relink_def)

text \<open>Slot by slot, only the name of the one entry differs.\<close>

lemma relink_slot:
  assumes "can_relink d p i c c'" "reach d j" "is_dir d j"
  shows "length (dir_at (relink d p i c') j) = length (dir_at d j)"
    "d_valid (dir_at (relink d p i c') j ! l) = d_valid (dir_at d j ! l)"
    "d_inode (dir_at (relink d p i c') j ! l) = d_inode (dir_at d j ! l)"
  using relink_kept(5) [OF assms] can_relinkD(5) [OF assms(1)] by (cases "l = i"; auto)+

lemma relink_reach:
  assumes "can_relink d p i c c'"
  shows "reach (relink d p i c') j = reach d j"
proof
  assume "reach (relink d p i c') j"
  then show "reach d j"
  proof induction
    case (reach_entry j x)
    then have j: "reach d j" "is_dir d j"
      using relink_kept(2) [OF assms] by auto
    obtain l where "l < length (dir_at d j)" "x = dir_at (relink d p i c') j ! l"
      using reach_entry.hyps(3) relink_slot(1) [OF assms j] by (auto simp: in_set_conv_nth)
    then show ?case
      using relink_slot(2,3) [OF assms j, of l] reach_entry.hyps(4) reach.reach_entry [OF j, of "dir_at d j ! l"] by simp
  qed (rule reach_root)
next
  assume "reach d j"
  then show "reach (relink d p i c') j"
  proof induction
    case (reach_entry j x)
    note j = reach_entry.hyps(1,2)
    obtain l where "l < length (dir_at d j)" "x = dir_at d j ! l"
      using reach_entry.hyps(3) by (auto simp: in_set_conv_nth)
    then show ?case
      using relink_slot(1) [OF assms j] relink_slot(2,3) [OF assms j, of l] relink_kept(2) [OF assms j(1)] reach_entry.hyps(2,4) reach_entry.IH
        reach.reach_entry [of "relink d p i c'" j "dir_at (relink d p i c') j ! l"] by simp
  qed (rule reach_root)
qed

lemma relink_disk_inv:
  assumes "can_relink d p i c c'"
  shows "disk_inv (relink d p i c')"
proof -
  let ?d = "relink d p i c'"
  note r = can_relinkD [OF assms] and kept = relink_kept [OF assms] and rc = relink_reach [OF assms]
  have od: "on_disk ?d b = on_disk d b" for b
    by (simp add: relink_def on_disk_def)
  have "wf_disk ?d"
    using write_entries(6) [OF r(1,3,4,9)] by (simp add: relink_def)
  moreover have "node_ok ?d j" if "reach d j" for j
    using disk_invD(3) [OF r(1) that] kept [OF that] r(12) by (auto simp: node_ok_def od)
  moreover have "owns_ok ?d j" if "reach d j" for j
    using disk_invD(4) [OF r(1) that] kept(4) [OF that] by (auto simp: owns_ok_def od rc)
  moreover have "set (blocks_of ?d j) \<inter> set (blocks_of ?d l) = {}" if "reach d j" "reach d l" "j \<noteq> l" for j l
    using disk_invD(6) [OF r(1) that] kept(4) [OF that(1)] kept(4) [OF that(2)] by simp
  ultimately show ?thesis
    using kept(2) [OF reach_root] disk_invD(1) [OF r(1)] by (simp add: disk_inv_def wf_fs_def rc)
qed

lemma relink_tree:
  assumes "can_relink d p i c c'"
  shows "tree_ok (relink d p i c')"
proof -
  let ?d = "relink d p i c'"
  note r = can_relinkD [OF assms] and kept = relink_kept [OF assms] and rc = relink_reach [OF assms]
  have same: "links ?d = links d" "target ?d l = target d l" if "l \<in> links d" for l
    using relink_slot [OF assms] kept(2) that by (auto simp: links_def target_def rc)
  have "links ?d = links d"
    using relink_slot [OF assms] kept(2) by (auto simp: links_def rc)
  then have "inj_on (target ?d) (links ?d)" "target ?d ` links ?d = target d ` links d"
    using same(2) r(2) by (auto simp: tree_ok_def inj_on_def image_iff)
  moreover have "names_unique ((dir_at d p)[i := renamed (dir_at d p ! i) c'])"
    using r(5-8,10) by (intro names_unique_fill [of _ _ c']) (auto simp: entry_named_def)
  then have "names_unique (dir_at ?d j)" if "reach d j" "is_dir ?d j" for j
    using kept(2,5) [OF that(1)] that r(2) by (auto simp: tree_ok_def)
  ultimately show ?thesis
    using r(2) by (simp add: tree_ok_def rc)
qed

lemma lookup_rename:
  assumes "names_unique es" "i < length es" "entry_named c (es ! i)" "NUL \<notin> set c'" "lookup_dirent es c' = None"
  shows "lookup_dirent (es[i := renamed (es ! i) c']) n =
    (if n = c' then Some (unat (d_inode (es ! i))) else if n = c then None else lookup_dirent es n)"
proof -
  let ?e = "(es ! i)\<lparr>d_valid := False\<rparr>" and ?r = "renamed (es ! i) c'"
  have named: "entry_named c' ?r"
    using assms(3,4) by (simp add: entry_named_def)
  have clear: "lookup_dirent (es[i := ?e]) n = (if n = c then None else lookup_dirent es n)" for n
    by (rule lookup_clear [OF assms(1-3)]) simp
  have "names_unique (es[i := ?e])"
    by (rule names_unique_clear [OF assms(1,2)]) simp
  from lookup_fill [OF this, of i c' ?r n] show ?thesis
    using assms(2,5) named clear [of c'] clear [of n] by auto
qed

lemma relink_lookup:
  assumes "can_relink d p i c c'" "reach d j" "is_dir d j"
  shows "lookup_dirent (dir_at (relink d p i c') j) n =
    (if j = p \<and> n = c' then Some (unat (d_inode (dir_at d p ! i)))
     else if j = p \<and> n = c then None else lookup_dirent (dir_at d j) n)"
  using relink_kept(5) [OF assms] can_relinkD [OF assms(1)] lookup_rename [of "dir_at d p" i c c' n] by auto

text \<open>A walk that does not take the renamed entry ends where it did.\<close>

lemma relink_walk:
  assumes "can_relink d p i c c'" "resolve d 2 cs = int p" "resolve d 2 as = int a" "resolve d a ds = int j"
    "\<And>bs es. ds = bs @ c # es \<Longrightarrow> as @ bs \<noteq> cs"
  shows "resolve (relink d p i c') a ds = int j"
  using assms(3-5)
proof (induction ds arbitrary: as a)
  case (Cons x ds)
  note r = can_relinkD [OF assms(1)]
  have a: "reach d a"
    by (rule resolve_reach [OF reach_root Cons.prems(1)])
  obtain m where m: "is_dir d a" "lookup_dirent (dir_at d a) x = Some m" "resolve d m ds = int j"
    using Cons.prems(2) by (auto simp: errno_defs split: if_splits option.splits)
  have "\<not> (a = p \<and> x = c)"
    using unique_path [OF r(2) Cons.prems(1), of cs] assms(2) Cons.prems(3) [of "[]" ds] by auto
  moreover have "\<not> (a = p \<and> x = c')"
    using m(2) r(8) by auto
  ultimately have "lookup_dirent (dir_at (relink d p i c') a) x = Some m"
    using relink_lookup [OF assms(1) a m(1), of x] m(2) by auto
  moreover have "resolve (relink d p i c') m ds = int j"
  proof (rule Cons.IH [of "as @ [x]"])
    show "resolve d 2 (as @ [x]) = int m"
      using resolve_snoc [OF Cons.prems(1) m(1)] m(2) by simp
    show "\<And>bs es. ds = bs @ c # es \<Longrightarrow> (as @ [x]) @ bs \<noteq> cs"
      using Cons.prems(3) [of "x # _"] by simp
  qed (rule m(3))
  ultimately show ?case
    using relink_kept(2) [OF assms(1) a] m(1) by simp
qed simp

section \<open>The handler\<close>

text \<open>
  The loop of \<^verbatim>\<open>fs_rename\<close> compares the names of all slots, in use or not: what it needs of the
  directory is that every name ends and that no slot that is not in use still has the name.
\<close>

definition no_stale :: "fs_dirent list \<Rightarrow> string \<Rightarrow> bool" where
  "no_stale es c \<longleftrightarrow> (\<forall>e\<in>set es. \<exists>n. c_str (d_name e) = Done n \<and> (\<not> d_valid e \<longrightarrow> n \<noteq> c))"

lemma rename_entry_slot:
  assumes "names_unique es" "no_stale es c" "list_all dirent_ok es" "i < length es" "entry_named c (es ! i)"
    "c_str src = Done c" "c_str dst = Done c'" "length c' \<le> 26"
  shows "rename_entry es src dst = Done (es[i := renamed (es ! i) c'])"
  using assms(1-5)
proof (induction es arbitrary: i)
  case (Cons e es)
  obtain n where n: "c_str (d_name e) = Done n" "\<not> d_valid e \<Longrightarrow> n \<noteq> c"
    using Cons.prems(2) by (auto simp: no_stale_def)
  obtain rest where dst: "dst = c' @ NUL # rest" "NUL \<notin> set c'"
    using assms(7) by (auto simp: c_str_Done_iff)
  note cmp = strcmp_eq_c_str [OF n(1) assms(6)]
  show ?case
  proof (cases i)
    case 0
    then show ?thesis
      using Cons.prems assms(8) n(1) cmp strcpy_fits [OF dst(2), of "d_name e" rest]
      by (simp add: entry_named_def dirent_ok_def dst(1) renamed_def)
  next
    case (Suc j)
    have "n \<noteq> c"
    proof
      assume "n = c"
      then have "entry_named c ((e # es) ! 0)"
        using n by (auto simp: entry_named_def)
      then show False
        using Cons.prems(1,4,5) Suc unfolding names_unique_def by (metis length_greater_0_conv list.discI nat.discI)
    qed
    moreover have "names_unique es"
      using Cons.prems(1) unfolding names_unique_def by (metis Suc_less_eq length_Cons nat.inject nth_Cons_Suc)
    ultimately show ?thesis
      using Cons.IH [of j] Cons.prems(2-5) Suc cmp by (auto simp: no_stale_def)
  qed
qed simp

lemma fs_rename_relink:
  assumes "fs_inv s" "good_path (cs @ [c])" "good_path (cs @ [c'])" "length c \<le> 26" "length c' \<le> 26"
    "resolve (disk s) 2 cs = int p" "is_dir (disk s) p" "lookup_dirent (dir_at (disk s) p) c = Some k"
    "lookup_dirent (dir_at (disk s) p) c' = None" "no_stale (dir_at (disk s) p) c"
  obtains i where "can_relink (disk s) p i c c'" "unat (d_inode (dir_at (disk s) p ! i)) = k"
    "fs_rename env s (path_of (cs @ [c])) (path_of (cs @ [c'])) =
       Done (0, s\<lparr>disk := relink (disk s) p i c'\<rparr>)"
proof -
  let ?d = "disk s" and ?es = "dir_at (disk s) p"
  have inv: "disk_inv ?d" "tree_ok ?d"
    using assms(1) by (simp_all add: fs_inv_def)
  note g = good_path_parent [OF assms(2)] and g' = good_path_parent [OF assms(3)]
  note h = handler_entry [OF inv(1) g(1) assms(6)]
  have uni: "names_unique ?es"
    using inv(2) h(2) assms(7) by (simp add: tree_ok_def)
  obtain i where i: "i < length ?es" "entry_named c (?es ! i)" "unat (d_inode (?es ! i)) = k"
    using assms(8) lookup_Some_iff [OF uni] by blast
  have can: "can_relink ?d p i c c'"
    using inv h(2) assms(5,7,9) i(1,2) g'(2) by (simp add: can_relink_def comp_ok_def)
  have src: "path_to_inum env s (path_of (cs @ [c])) = Done (int k)"
    using path_to_inum_good [OF inv(1) assms(2)] resolve_snoc [OF assms(6,7)] assms(8) by simp
  have dst: "path_to_inum env s (path_of (cs @ [c'])) = Done (- ENOENT)"
    using path_to_inum_good [OF inv(1) assms(3)] resolve_snoc [OF assms(6,7)] assms(9) by simp
  obtain sn where sn: "get_last_filename env (path_of (cs @ [c])) (uninit env ''src_last_filename'' 28) = Done (0, sn)"
      "c_str sn = Done c"
    by (rule name_of [OF assms(2) _ assms(4), of "uninit env ''src_last_filename'' 28" env]) simp
  obtain dn where dn: "get_last_filename env (path_of (cs @ [c'])) (uninit env ''dst_last_filename'' 28) = Done (0, dn)"
      "c_str dn = Done c'"
    by (rule name_of [OF assms(3) _ assms(5), of "uninit env ''dst_last_filename'' 28" env]) simp
  obtain sp where sp: "get_parent_path (path_of (cs @ [c])) (uninit env ''src_dir_path'' 280) = Done sp"
      "c_str sp = Done (path_of cs)"
    by (rule parent_of [OF assms(2), of "uninit env ''src_dir_path'' 280"]) simp
  obtain dp where dp: "get_parent_path (path_of (cs @ [c'])) (uninit env ''dst_dir_path'' 280) = Done dp"
      "c_str dp = Done (path_of cs)"
    by (rule parent_of [OF assms(3), of "uninit env ''dst_dir_path'' 280"]) simp
  have node: "on_disk ?d (dir_blk ?d p)" "sint (i_ptrs (inode_at ?d p) ! 0) = int (dir_blk ?d p)"
    using disk_invD(3) [OF inv(1) h(2)] assms(7) on_disk_sint [of ?d "i_ptrs (inode_at ?d p) ! 0"]
    by (simp_all add: node_ok_def dir_blk_def)
  have ok: "list_all dirent_ok ?es"
    using dir_at_ok [OF disk_invD(2) [OF inv(1)]] node(1) by (auto simp: on_disk_def dirents_ok_def)
  have "write_dirents s (?es[i := renamed (?es ! i) c']) (sint (i_ptrs (inode_at ?d p) ! 0)) =
      Done (s\<lparr>disk := relink ?d p i c'\<rparr>)"
    unfolding node(2) using node(1)
    by (simp add: write_dirents_def write_block_def block_write_on_disk relink_def)
  then have "fs_rename env s (path_of (cs @ [c])) (path_of (cs @ [c'])) = Done (0, s\<lparr>disk := relink ?d p i c'\<rparr>)"
    using src dst sn(1) dn(1) sp dp strcmp_eq_c_str [OF sp(2) dp(2)] h assms(7)
      read_dir_reach [OF inv(1) h(2) assms(7)] rename_entry_slot [OF uni assms(10) ok i(1,2) sn(2) dn(2) assms(5)]
    by (simp add: fs_rename_def is_dir_def errno_defs Let_def)
  with can i(3) show thesis by (rule that)
qed

text \<open>
  C8. \<^verbatim>\<open>fs_rename\<close> of \<open>c\<close> to a name \<open>c'\<close> that the same directory does not have, where the names of all slots
  of the directory end and no slot that is not in use still has the name \<open>c\<close>: it returns 0, the new path
  resolves to the node and the old one to nothing; every path below the old name resolves below the
  new one, every other path as before; no inode and no contents of a file change, and the invariant
  is kept.  The condition on the unused slots is needed: see \<open>rename_hits_stale_slot\<close> below.
\<close>

theorem fs_rename_moves:
  assumes "fs_inv s" "good_path (cs @ [c])" "good_path (cs @ [c'])" "length c \<le> 26" "length c' \<le> 26"
    "resolve (disk s) 2 cs = int p" "is_dir (disk s) p" "lookup_dirent (dir_at (disk s) p) c = Some k"
    "lookup_dirent (dir_at (disk s) p) c' = None" "no_stale (dir_at (disk s) p) c"
  shows "\<exists>s'. fs_rename env s (path_of (cs @ [c])) (path_of (cs @ [c'])) = Done (0, s') \<and> fs_inv s' \<and>
    resolve (disk s') 2 (cs @ [c']) = int k \<and> resolve (disk s') 2 (cs @ [c]) = - ENOENT \<and>
    (\<forall>ds j. resolve (disk s) 2 (cs @ c # ds) = int j \<longrightarrow> resolve (disk s') 2 (cs @ c' # ds) = int j) \<and>
    (\<forall>ds j. resolve (disk s) 2 ds = int j \<and> \<not> prefix (cs @ [c]) ds \<longrightarrow> resolve (disk s') 2 ds = int j) \<and>
    (\<forall>j. reach (disk s) j \<longrightarrow> inode_at (disk s') j = inode_at (disk s) j \<and>
       (\<not> is_dir (disk s) j \<and> file_ok (inode_at (disk s) j) \<longrightarrow> file_bytes (disk s') j = file_bytes (disk s) j))"
proof -
  let ?d = "disk s"
  obtain i where can: "can_relink ?d p i c c'" and i: "unat (d_inode (dir_at ?d p ! i)) = k"
    and run: "fs_rename env s (path_of (cs @ [c])) (path_of (cs @ [c'])) = Done (0, s\<lparr>disk := relink ?d p i c'\<rparr>)"
    by (rule fs_rename_relink [OF assms])
  let ?d' = "relink ?d p i c'"
  note r = can_relinkD [OF can] and kept = relink_kept [OF can] and look = relink_lookup [OF can r(3,4)]
  have dir: "is_dir ?d' p"
    using kept(2) [OF r(3)] r(4) by simp
  have other: "resolve ?d' 2 ds = int j" if "resolve ?d 2 ds = int j" "\<not> prefix (cs @ [c]) ds" for ds j
    using that by (intro relink_walk [OF can assms(6), of "[]"]) (auto simp: prefix_def)
  have p: "resolve ?d' 2 cs = int p"
    by (rule other [OF assms(6)]) (auto simp: prefix_def)
  have below: "resolve ?d' 2 (cs @ c' # ds) = int j" if "resolve ?d 2 (cs @ c # ds) = int j" for ds j
  proof -
    have "resolve ?d k ds = int j"
      using that resolve_append [OF assms(6), of "c # ds"] r(4) assms(8) by simp
    moreover have "resolve ?d 2 (cs @ [c]) = int k"
      using resolve_snoc [OF assms(6,7)] assms(8) by simp
    ultimately have "resolve ?d' k ds = int j"
      by (intro relink_walk [OF can assms(6), of "cs @ [c]"]) auto
    then show ?thesis
      using resolve_append [OF p, of "c' # ds"] dir look [of c'] i by simp
  qed
  have files: "file_bytes ?d' j = file_bytes ?d j"
    if "reach ?d j" "\<not> is_dir ?d j" "file_ok (inode_at ?d j)" for j
  proof (rule file_bytes_frame [OF r(1) that])
    have "j \<noteq> p"
      using that(2) r(4) by auto
    then have "dir_blk ?d p \<notin> set (blocks_of ?d j)"
      using disk_invD(6) [OF r(1) that(1) r(3)] dir_blk_owned [OF r(4)] by blast
    then show "?d' ! b = ?d ! b" if "b \<in> set (blocks_of ?d j)" for b
      using that by (metis nth_list_update_neq relink_def)
  qed (simp_all add: kept(1) [OF that(1)])
  have "fs_inv (s\<lparr>disk := ?d'\<rparr>)"
    using assms(1) relink_disk_inv [OF can] relink_tree [OF can] kept(4)
    by (simp add: fs_inv_def marked_def bitmap_ok_def relink_reach [OF can])
  moreover have "resolve ?d' 2 (cs @ [c']) = int k" "resolve ?d' 2 (cs @ [c]) = - ENOENT"
    using resolve_snoc [OF p dir] look r(11) i by simp_all
  ultimately show ?thesis
    using run below other files kept(1) by (intro exI [of _ "s\<lparr>disk := ?d'\<rparr>"]) simp
qed

theorem fs_rename_moves_witness:
  "\<exists>s'. fs_rename sample_env sample ''/d'' ''/b'' = Done (0, s') \<and> fs_inv s' \<and>
     resolve (disk s') 2 [''b''] = 6 \<and> resolve (disk s') 2 [''d''] = - ENOENT \<and>
     resolve (disk s') 2 [''a''] = 4"
proof -
  have "no_stale root_entries ''d''"
    using c_str_pad [of "''a''"] c_str_pad [of "''d''"] c_str_pad [of "[]"]
    by (simp add: no_stale_def root_entries_def entry_for_def blank_entry_def pad_name_def)
  moreover have "resolve sample_disk 2 [''a''] = int 4"
    using sample_resolve by simp
  ultimately show ?thesis
    using fs_rename_moves [of sample "[]" "''d''" "''b''" 2 6 sample_env] sample_inv
    by (auto simp: sample_paths sample_nodes sample_dirs sample_lookup sample_resolve simp del: resolve.simps)
qed

text \<open>
  A slot that is not in use keeps its old name: where it comes before the entry, the loop renames the
  stale slot, and the name that was to change is still there after a successful return.
\<close>

lemma rename_hits_stale_slot:
  "rename_entry [(entry_for 4 ''a'')\<lparr>d_valid := False\<rparr>, entry_for 6 ''a''] (''a'' @ [NUL]) (''b'' @ [NUL]) =
     Done [(entry_for 4 ''b'')\<lparr>d_valid := False\<rparr>, entry_for 6 ''a'']"
proof -
  have "c_str (pad_name ''a'') = Done ''a''" "c_str (''a'' @ [NUL]) = Done ''a''"
    using c_str_pad [of "''a''"] c_str_Done_iff [of "''a'' @ [NUL]" "''a''"] by simp_all
  from strcmp_eq_c_str [OF this] have "strcmp_eq (pad_name ''a'') (''a'' @ [NUL]) = Done True"
    by simp
  moreover have "strcpy (pad_name ''a'') (''b'' @ [NUL]) = Done (pad_name ''b'')"
    using strcpy_fits [of "''b''" "pad_name ''a''" "[]"] replicate_Suc [of 26 NUL] by (simp add: pad_name_def)
  ultimately show ?thesis
    by (simp add: entry_for_def del: append.simps)
qed

end
