(* ===== verification/Heap_Queue.thy ===== *)
theory Heap_Queue
  imports C_Prelude
begin

text \<open>
  Singly linked queues in a heap, as \<^verbatim>\<open>lab1-TheCarton-main/part2/queue.c\<close> and
  \<^verbatim>\<open>lab3-TheCarton-main/queue.c\<close> have them: a head and a tail pointer, nodes with a next pointer, NULL
  as address 0.  Both files link a new node and take the first one with the same statements, which
  are \<open>link_tail\<close> and \<open>take_head\<close> here.
\<close>

section \<open>State\<close>

record 'a cell =
  c_next :: nat
  c_item :: 'a

type_synonym 'a cells = "nat \<rightharpoonup> 'a cell"

record 'a hqueue =
  hq_head :: nat
  hq_tail :: nat
  hq_mem :: "'a cells"

section \<open>The statements\<close>

definition link_tail :: "'a hqueue \<Rightarrow> nat \<Rightarrow> 'a hqueue outcome" where
  "link_tail q t =
     (if hq_head q = 0 then Done (q\<lparr>hq_head := t, hq_tail := t\<rparr>)
      else case hq_mem q (hq_tail q) of
        None \<Rightarrow> Undef
      | Some c \<Rightarrow> Done (q\<lparr>hq_mem := (hq_mem q)(hq_tail q \<mapsto> c\<lparr>c_next := t\<rparr>), hq_tail := t\<rparr>))"

definition take_head :: "'a hqueue \<Rightarrow> (nat \<times> 'a hqueue) outcome" where
  "take_head q =
     (case hq_mem q (hq_head q) of
        None \<Rightarrow> Undef
      | Some c \<Rightarrow> Done (hq_head q, q\<lparr>hq_head := c_next c\<rparr>))"

section \<open>Chains\<close>

fun chain :: "'a cells \<Rightarrow> nat \<Rightarrow> nat list \<Rightarrow> bool" where
  "chain h p [] \<longleftrightarrow> p = 0"
| "chain h p (a # as) \<longleftrightarrow> p = a \<and> a \<noteq> 0 \<and> (case h a of None \<Rightarrow> False | Some c \<Rightarrow> chain h (c_next c) as)"

definition items_of :: "'a cells \<Rightarrow> nat list \<Rightarrow> 'a list" where
  "items_of h as = map (\<lambda>a. c_item (the (h a))) as"

lemma items_of_simps [simp]:
  "items_of h [] = []" "items_of h (a # as) = c_item (the (h a)) # items_of h as"
  "items_of h (as @ bs) = items_of h as @ items_of h bs"
  by (simp_all add: items_of_def)

lemma chain_ConsE:
  assumes "chain h p (a # as)"
  obtains c where "p = a" "a \<noteq> 0" "h a = Some c" "chain h (c_next c) as"
  using assms by (auto split: option.splits)

lemma chain_alloc: "chain h p as \<Longrightarrow> a \<in> set as \<Longrightarrow> a \<noteq> 0 \<and> (\<exists>c. h a = Some c)"
  by (induction as arbitrary: p) (auto elim!: chain_ConsE simp del: chain.simps(2))

text \<open>A chain is determined by its start.\<close>

lemma chain_unique: "chain h p as \<Longrightarrow> chain h p bs \<Longrightarrow> as = bs"
proof (induction as arbitrary: p bs)
  case Nil
  then show ?case by (cases bs) auto
next
  case (Cons a as)
  then show ?case by (cases bs) (auto split: option.splits)
qed

lemma chain_upd:
  "a \<notin> set as \<Longrightarrow> chain (h(a := x)) p as = chain h p as"
  by (induction as arbitrary: p) (auto split: option.splits)

lemma items_upd: "a \<notin> set as \<Longrightarrow> items_of (h(a := x)) as = items_of h as"
  by (auto simp: items_of_def)

lemma items_relink: "h a = Some c \<Longrightarrow> items_of (h(a \<mapsto> c\<lparr>c_next := t\<rparr>)) as = items_of h as"
  by (auto simp: items_of_def)

lemma chain_snoc:
  assumes "chain h p (as @ [z])" "distinct (as @ [z])" "t \<noteq> 0" "t \<notin> set (as @ [z])" "h t = Some c" "c_next c = 0"
    "h z = Some d"
  shows "chain (h(z \<mapsto> d\<lparr>c_next := t\<rparr>)) p (as @ [z, t])"
  using assms(1,2,4)
proof (induction as arbitrary: p)
  case Nil
  then show ?case
    using assms(3,5-7) by auto
next
  case (Cons a as)
  then obtain e where e: "p = a" "a \<noteq> 0" "h a = Some e" "chain h (c_next e) (as @ [z])"
    by (auto elim!: chain_ConsE simp del: chain.simps(2))
  then show ?case
    using Cons by simp
qed

section \<open>Well-formed queues\<close>

text \<open>The queue holds the nodes \<open>as\<close>; the tail matters only when there is one.\<close>

definition holds :: "'a hqueue \<Rightarrow> nat list \<Rightarrow> bool" where
  "holds q as \<longleftrightarrow> chain (hq_mem q) (hq_head q) as \<and> distinct as \<and> (as \<noteq> [] \<longrightarrow> hq_tail q = last as)"

lemma holds_unique: "holds q as \<Longrightarrow> holds q bs \<Longrightarrow> as = bs"
  by (auto simp: holds_def dest: chain_unique)

lemma holds_head: "holds q as \<Longrightarrow> hq_head q = 0 \<longleftrightarrow> as = []"
  by (cases as) (auto simp: holds_def)

lemma holds_alloc: "holds q as \<Longrightarrow> a \<in> set as \<Longrightarrow> a \<noteq> 0 \<and> (\<exists>c. hq_mem q a = Some c)"
  by (auto simp: holds_def dest: chain_alloc)

lemma link_tail_holds:
  assumes "holds q as" "t \<noteq> 0" "t \<notin> set as" "hq_mem q t = Some c" "c_next c = 0"
  obtains q' where "link_tail q t = Done q'" "holds q' (as @ [t])"
    "items_of (hq_mem q') as = items_of (hq_mem q) as" "hq_mem q' t = Some c"
    "\<And>a. a \<notin> set as \<Longrightarrow> hq_mem q' a = hq_mem q a"
proof (cases as rule: rev_cases)
  case Nil
  then have "link_tail q t = Done (q\<lparr>hq_head := t, hq_tail := t\<rparr>)"
    using holds_head [OF assms(1)] by (simp add: link_tail_def)
  then show ?thesis
    using that assms Nil by (simp add: holds_def)
next
  case (snoc bs z)
  have z: "hq_tail q = z" "hq_head q \<noteq> 0"
    using assms(1) snoc holds_head [OF assms(1)] by (auto simp: holds_def)
  obtain d where d: "hq_mem q z = Some d"
    using holds_alloc [OF assms(1), of z] snoc by auto
  let ?q = "q\<lparr>hq_mem := (hq_mem q)(z \<mapsto> d\<lparr>c_next := t\<rparr>), hq_tail := t\<rparr>"
  have "link_tail q t = Done ?q"
    using z d by (simp add: link_tail_def)
  moreover have "holds ?q (as @ [t])"
    using chain_snoc [of "hq_mem q" "hq_head q" bs z t c d] assms snoc d by (auto simp: holds_def)
  moreover have "t \<noteq> z"
    using assms(3) snoc by auto
  ultimately show ?thesis
    using that [of ?q] assms(4) snoc items_relink [of "hq_mem q" z d t as] d by simp
qed

lemma take_head_holds:
  assumes "holds q (a # as)"
  obtains q' where "take_head q = Done (a, q')" "holds q' as" "hq_mem q' = hq_mem q"
proof -
  obtain c where c: "hq_head q = a" "hq_mem q a = Some c" "chain (hq_mem q) (c_next c) as"
    using assms by (auto simp: holds_def elim!: chain_ConsE simp del: chain.simps(2))
  then have "take_head q = Done (a, q\<lparr>hq_head := c_next c\<rparr>)"
    by (simp add: take_head_def)
  then show ?thesis
    using that c assms by (auto simp: holds_def split: if_splits)
qed

lemma holds_upd: "holds q as \<Longrightarrow> a \<notin> set as \<Longrightarrow> holds (q\<lparr>hq_mem := (hq_mem q)(a := x)\<rparr>) as"
  by (simp add: holds_def chain_upd)

section \<open>The nodes of a queue, computed\<close>

text \<open>Following the next pointers for at most \<open>n\<close> nodes.\<close>

fun walk :: "nat \<Rightarrow> 'a cells \<Rightarrow> nat \<Rightarrow> nat list" where
  "walk 0 h p = []"
| "walk (Suc n) h p =
     (if p = 0 then [] else case h p of None \<Rightarrow> [] | Some c \<Rightarrow> p # walk n h (c_next c))"

lemma walk_chain: "chain h p as \<Longrightarrow> length as \<le> n \<Longrightarrow> walk n h p = as"
proof (induction n arbitrary: p as)
  case (Suc n)
  then show ?case
    by (cases as) (auto split: option.splits)
qed simp

text \<open>Addresses below the break bound the length of a queue.\<close>

lemma holds_length:
  assumes "holds q as" "\<forall>a\<in>set as. a < n"
  shows "length as \<le> n"
proof -
  have "set as \<subseteq> {..<n}"
    using assms(2) by auto
  then have "card (set as) \<le> n"
    using card_mono [of "{..<n}" "set as"] by simp
  moreover have "distinct as"
    using assms(1) by (simp add: holds_def)
  ultimately show ?thesis
    by (simp add: distinct_card)
qed

lemma walk_holds:
  "holds q as \<Longrightarrow> \<forall>a\<in>set as. a < n \<Longrightarrow> walk n (hq_mem q) (hq_head q) = as"
  by (rule walk_chain) (auto simp: holds_length, simp add: holds_def)

end
