(* ===== verification/Str_Queue.thy ===== *)
theory Str_Queue
  imports Heap_Queue Interfaces
begin

text \<open>
  The string queue of Lab 1 (\<^verbatim>\<open>lab1-TheCarton-main/part2/queue.c\<close>): nodes and copies of strings on the heap.
  \<^verbatim>\<open>malloc\<close> takes the next address; a use of memory that is not allocated is undefined behaviour.  The
  loops of \<^verbatim>\<open>free_queue\<close> and \<^verbatim>\<open>print_queue\<close> follow the next pointers and would not end on a cyclic
  list; that they return on every well-formed queue is proved.
\<close>

section \<open>State\<close>

record str_queue =
  sq_q :: "nat hqueue"
  sq_strs :: "nat \<rightharpoonup> string"
  sq_brk :: nat

abbreviation sq_mem :: "str_queue \<Rightarrow> nat cells" where
  "sq_mem s \<equiv> hq_mem (sq_q s)"

definition empty_queue :: str_queue where
  "empty_queue = \<lparr>sq_q = \<lparr>hq_head = 0, hq_tail = 0, hq_mem = Map.empty\<rparr>, sq_strs = Map.empty, sq_brk = 1\<rparr>"

section \<open>queue.c\<close>

text \<open>The argument of \<^verbatim>\<open>enqueue\<close> is a pointer to a string, \<open>None\<close> for NULL.\<close>

definition enqueue :: "str_queue \<Rightarrow> string option \<Rightarrow> str_queue outcome" where
  "enqueue s arg =
     (case arg of None \<Rightarrow> Undef | Some data \<Rightarrow>
      let new_node = sq_brk s; string_mem = Suc (sq_brk s);
          q = (sq_q s)\<lparr>hq_mem := (sq_mem s)(new_node \<mapsto> \<lparr>c_next = 0, c_item = string_mem\<rparr>)\<rparr>
      in obind (link_tail q new_node) (\<lambda>q.
           Done (s\<lparr>sq_q := q, sq_strs := (sq_strs s)(string_mem \<mapsto> data), sq_brk := sq_brk s + 2\<rparr>)))"

definition dequeue :: "str_queue \<Rightarrow> (nat \<times> str_queue) outcome" where
  "dequeue s =
     (if hq_head (sq_q s) = 0 then Done (0, s)
      else obind (take_head (sq_q s)) (\<lambda>(prev_head, q). Done (prev_head, s\<lparr>sq_q := q\<rparr>)))"

definition free_node :: "str_queue \<Rightarrow> nat \<Rightarrow> str_queue outcome" where
  "free_node s n =
     (case sq_mem s n of
        None \<Rightarrow> Undef
      | Some c \<Rightarrow>
          let s' = s\<lparr>sq_q := (sq_q s)\<lparr>hq_mem := (sq_mem s)(n := None)\<rparr>\<rparr>
          in if c_item c = 0 then Done s'
             else if sq_strs s (c_item c) = None then Undef
             else Done (s'\<lparr>sq_strs := (sq_strs s)(c_item c := None)\<rparr>))"

partial_function (option) free_from :: "nat \<Rightarrow> str_queue \<Rightarrow> str_queue outcome option" where
  "free_from node s =
     (if node = 0 then Some (Done s)
      else case sq_mem s node of
        None \<Rightarrow> Some Undef
      | Some c \<Rightarrow> (case free_node s node of Done s' \<Rightarrow> free_from (c_next c) s' | _ \<Rightarrow> Some Undef))"

definition free_queue :: "str_queue \<Rightarrow> str_queue outcome option" where
  "free_queue s = free_from (hq_head (sq_q s)) s"

partial_function (option) print_from :: "nat \<Rightarrow> str_queue \<Rightarrow> string \<Rightarrow> string outcome option" where
  "print_from node s out =
     (if node = 0 then Some (Done out)
      else case sq_mem s node of
        None \<Rightarrow> Some Undef
      | Some c \<Rightarrow> (case sq_strs s (c_item c) of
          None \<Rightarrow> Some Undef
        | Some data \<Rightarrow>
            print_from (c_next c) s
              (out @ ''['' @ data @ '']'' @ (if c_next c \<noteq> 0 then ''->'' else []))))"

definition print_queue :: "str_queue \<Rightarrow> string outcome option" where
  "print_queue s =
     map_option (\<lambda>r. obind r (\<lambda>out. Done (out @ [CHR 0x0A])))
       (print_from (hq_head (sq_q s)) s ''finally: '')"

section \<open>Well-formed queues\<close>

text \<open>
  \<open>owned s N\<close>: the allocated nodes are those of \<open>N\<close>, each with a string of its own, and no other string
  is allocated.  \<open>sq_holds s as D\<close>: the queue holds the nodes \<open>as\<close>; \<open>D\<close> are nodes that were dequeued and
  not freed yet.
\<close>

definition str_of :: "str_queue \<Rightarrow> nat \<Rightarrow> nat" where
  "str_of s a = c_item (the (sq_mem s a))"

definition owned :: "str_queue \<Rightarrow> nat set \<Rightarrow> bool" where
  "owned s N \<longleftrightarrow> 0 < sq_brk s \<and> dom (sq_mem s) = N \<and> dom (sq_strs s) = str_of s ` N \<and>
     inj_on (str_of s) N \<and> (\<forall>a\<in>N. str_of s a \<noteq> 0 \<and> a < sq_brk s \<and> str_of s a < sq_brk s)"

definition sq_holds :: "str_queue \<Rightarrow> nat list \<Rightarrow> nat set \<Rightarrow> bool" where
  "sq_holds s as D \<longleftrightarrow> holds (sq_q s) as \<and> owned s (set as \<union> D) \<and> set as \<inter> D = {}"

definition sq_ok :: "str_queue \<Rightarrow> bool" where
  "sq_ok s \<longleftrightarrow> (\<exists>as. sq_holds s as {})"

text \<open>The string of a node; the strings of the queue from the front.\<close>

definition text_of :: "str_queue \<Rightarrow> nat \<Rightarrow> string" where
  "text_of s a = the (sq_strs s (str_of s a))"

definition sq_nodes :: "str_queue \<Rightarrow> nat list" where
  "sq_nodes s = walk (sq_brk s) (sq_mem s) (hq_head (sq_q s))"

definition sq_items :: "str_queue \<Rightarrow> string list" where
  "sq_items s = map (text_of s) (sq_nodes s)"

lemma ownedD:
  assumes "owned s N" "a \<in> N"
  obtains c where "a < sq_brk s" "sq_mem s a = Some c" "c_item c = str_of s a" "str_of s a \<noteq> 0"
    "sq_strs s (str_of s a) = Some (text_of s a)" "str_of s a < sq_brk s"
proof -
  obtain c where c: "sq_mem s a = Some c"
    using assms by (auto simp: owned_def)
  have "str_of s a \<in> dom (sq_strs s)"
    using assms by (simp add: owned_def)
  then have "sq_strs s (str_of s a) = Some (text_of s a)"
    by (auto simp: text_of_def)
  then show ?thesis
    using that [OF _ c] assms c by (simp add: owned_def) (simp add: str_of_def)
qed

lemma sq_nodes_holds: "sq_holds s as D \<Longrightarrow> sq_nodes s = as"
  unfolding sq_nodes_def by (rule walk_holds) (auto simp: sq_holds_def owned_def)

lemma sq_items_holds: "sq_holds s as D \<Longrightarrow> sq_items s = map (text_of s) as"
  by (simp add: sq_items_def sq_nodes_holds)

lemma sq_ok_nodes: "sq_ok s \<Longrightarrow> sq_holds s (sq_nodes s) {}"
  by (auto simp: sq_ok_def sq_nodes_holds)

lemma empty_queue_holds: "sq_holds empty_queue [] {}"
  by (simp add: sq_holds_def owned_def empty_queue_def holds_def)

section \<open>enqueue and dequeue\<close>

lemma enqueue_holds:
  assumes "sq_holds s as D"
  obtains s' where "enqueue s (Some data) = Done s'" "sq_holds s' (as @ [sq_brk s]) D"
    "sq_items s' = sq_items s @ [data]"
proof -
  have w: "holds (sq_q s) as" "owned s (set as \<union> D)" "set as \<inter> D = {}"
    using assms by (simp_all add: sq_holds_def)
  let ?n = "sq_brk s" and ?c = "\<lparr>c_next = 0, c_item = Suc (sq_brk s)\<rparr>"
  let ?q = "(sq_q s)\<lparr>hq_mem := (sq_mem s)(?n \<mapsto> ?c)\<rparr>"
  have n: "?n \<notin> set as" "?n \<noteq> 0" "?n \<notin> D"
    using w(2) by (auto simp: owned_def)
  have "holds ?q as"
    using holds_upd [OF w(1) n(1)] .
  moreover have "hq_mem ?q ?n = Some ?c" "c_next ?c = 0"
    by simp_all
  ultimately obtain q where q: "link_tail ?q ?n = Done q" "holds q (as @ [?n])"
      "items_of (hq_mem q) as = items_of (hq_mem ?q) as" "hq_mem q ?n = Some ?c"
      "\<And>a. a \<notin> set as \<Longrightarrow> hq_mem q a = hq_mem ?q a"
    by (rule link_tail_holds [OF _ n(2,1)]) blast
  define t where "t = s\<lparr>sq_q := q, sq_strs := (sq_strs s)(Suc ?n \<mapsto> data), sq_brk := ?n + 2\<rparr>"
  have t: "sq_q t = q" "sq_strs t = (sq_strs s)(Suc ?n \<mapsto> data)" "sq_brk t = Suc (Suc ?n)"
    by (simp_all add: t_def)
  have old: "str_of t a = str_of s a" if a: "a \<in> set as \<union> D" for a
  proof (cases "a \<in> set as")
    case True
    then have "c_item (the (hq_mem q a)) = c_item (the (hq_mem ?q a))"
      using q(3) by (simp add: items_of_def)
    then show ?thesis
      using True n(1) by (auto simp: str_of_def t split: if_splits)
  next
    case False
    then show ?thesis
      using q(5) [of a] a n(3) by (auto simp: str_of_def t)
  qed
  have new: "str_of t ?n = Suc ?n"
    using q(4) by (simp add: str_of_def t)
  have bounds: "str_of s a \<noteq> 0" "a < ?n" "str_of s a < ?n" if "a \<in> set as \<union> D" for a
    using w(2) that by (simp_all add: owned_def)
  note small = bounds(3)
  have "a \<in> dom (hq_mem q) \<longleftrightarrow> a \<in> insert ?n (set as \<union> D)" for a
  proof (cases "a \<in> set as")
    case True
    then show ?thesis
      using holds_alloc [OF q(2), of a] by auto
  next
    case False
    moreover have "a \<in> dom (sq_mem s) \<longleftrightarrow> a \<in> set as \<union> D"
      using w(2) by (simp add: owned_def)
    ultimately show ?thesis
      using q(5) [OF False] by (auto split: if_splits)
  qed
  then have dom: "dom (hq_mem q) = insert ?n (set as \<union> D)"
    by blast
  have img: "str_of t ` (set as \<union> D) = str_of s ` (set as \<union> D)"
    using old by (rule image_cong [OF refl])
  have inj: "inj_on (str_of t) (set as \<union> D)"
    using w(2) inj_on_cong [OF old, of "set as \<union> D"] by (simp add: owned_def)
  have "owned t (insert ?n (set as \<union> D))"
    unfolding owned_def
  proof (intro conjI ballI)
    show "dom (sq_strs t) = str_of t ` insert ?n (set as \<union> D)"
      using img w(2) by (simp add: t(2) new owned_def)
    show "inj_on (str_of t) (insert ?n (set as \<union> D))"
    proof (rule inj_on_insert [THEN iffD2], intro conjI inj)
      have "Suc ?n \<notin> str_of t ` (set as \<union> D)"
        unfolding img using small by force
      then show "str_of t ?n \<notin> str_of t ` (set as \<union> D - {?n})"
        using new by auto
    qed
    show "str_of t a \<noteq> 0" "a < sq_brk t" "str_of t a < sq_brk t" if "a \<in> insert ?n (set as \<union> D)" for a
      using that new old [of a] bounds [of a] n(2) by (cases "a = ?n"; simp add: t(3))+
  qed (simp_all add: t dom)
  then have holds: "sq_holds t (as @ [?n]) D"
    using q(2) n w(3) by (simp add: sq_holds_def t(1))
  moreover have "text_of t a = text_of s a" if "a \<in> set as" for a
    using that old [of a] small [of a] by (simp add: text_of_def t(2))
  then have "sq_items t = sq_items s @ [data]"
    unfolding sq_items_holds [OF holds] sq_items_holds [OF assms] by (simp add: new t(2) text_of_def [of t ?n])
  moreover have "enqueue s (Some data) = Done t"
    using q(1) by (simp add: enqueue_def Let_def t_def)
  ultimately show ?thesis
    using that by blast
qed

lemma dequeue_empty: "sq_holds s [] D \<Longrightarrow> dequeue s = Done (0, s)"
  by (simp add: sq_holds_def dequeue_def holds_def)

lemma dequeue_holds:
  assumes "sq_holds s (a # as) D"
  obtains s' where "dequeue s = Done (a, s')" "a \<noteq> 0" "sq_holds s' as (insert a D)" "text_of s' = text_of s"
proof -
  have w: "holds (sq_q s) (a # as)" "owned s (set (a # as) \<union> D)" "set (a # as) \<inter> D = {}"
    using assms by (simp_all add: sq_holds_def)
  obtain q where q: "take_head (sq_q s) = Done (a, q)" "holds q as" "hq_mem q = hq_mem (sq_q s)"
    using take_head_holds [OF w(1)] by blast
  let ?s = "s\<lparr>sq_q := q\<rparr>"
  have str: "str_of ?s = str_of s"
    using q(3) by (simp add: str_of_def fun_eq_iff)
  have "a \<notin> set as"
    using w(1) by (simp add: holds_def)
  then have "sq_holds ?s as (insert a D)"
    using w q(2,3) by (auto simp: sq_holds_def owned_def str)
  moreover have "text_of ?s = text_of s"
    by (simp add: text_of_def str fun_eq_iff)
  moreover have "dequeue s = Done (a, ?s)"
    using q(1) holds_head [OF w(1)] by (simp add: dequeue_def)
  ultimately show ?thesis
    using that holds_alloc [OF w(1), of a] by simp
qed

lemma free_node_owned:
  assumes "owned s (insert a N)" "a \<notin> N"
  obtains s' where "free_node s a = Done s'" "owned s' N" "sq_mem s' = (sq_mem s)(a := None)"
    "hq_head (sq_q s') = hq_head (sq_q s)" "hq_tail (sq_q s') = hq_tail (sq_q s)"
    "\<And>b. b \<in> N \<Longrightarrow> text_of s' b = text_of s b"
proof -
  obtain c where c: "sq_mem s a = Some c" "c_item c = str_of s a" "str_of s a \<noteq> 0"
      "sq_strs s (str_of s a) = Some (text_of s a)"
    using ownedD [OF assms(1)] by blast
  define t where "t = s\<lparr>sq_q := (sq_q s)\<lparr>hq_mem := (sq_mem s)(a := None)\<rparr>, sq_strs := (sq_strs s)(str_of s a := None)\<rparr>"
  have str: "str_of t b = str_of s b" if "b \<in> N" for b
    using that assms(2) by (auto simp: str_of_def t_def)
  have "str_of s a \<notin> str_of s ` N"
    using assms by (simp add: owned_def)
  then have ne: "str_of s b \<noteq> str_of s a" if "b \<in> N" for b
    using imageI [OF that, of "str_of s"] by metis
  have "owned t N"
    unfolding owned_def
  proof (intro conjI ballI)
    have "str_of t ` N = str_of s ` N"
      using str by (rule image_cong [OF refl])
    moreover have "dom (sq_strs t) = str_of s ` insert a N - {str_of s a}"
      using assms(1) by (simp add: t_def owned_def)
    ultimately show "dom (sq_strs t) = str_of t ` N"
      using ne by auto
    show "inj_on (str_of t) N"
      using assms(1) inj_on_cong [OF str, of N] by (simp add: owned_def)
    show "dom (sq_mem t) = N"
      using assms by (auto simp: t_def owned_def)
    show "0 < sq_brk t"
      using assms(1) by (simp add: owned_def t_def)
    show "str_of t b \<noteq> 0" "b < sq_brk t" "str_of t b < sq_brk t" if "b \<in> N" for b
      using assms(1) that by (simp_all add: str owned_def) (simp_all add: t_def)
  qed
  moreover have "free_node s a = Done t"
    using c by (simp add: free_node_def t_def)
  moreover have "text_of t b = text_of s b" if "b \<in> N" for b
    using ne [OF that] by (simp add: text_of_def str that) (simp add: t_def)
  ultimately show ?thesis
    using that [of t] by (simp add: t_def)
qed

lemma free_node_holds:
  assumes "sq_holds s as (insert a D)" "a \<notin> D"
  obtains s' where "free_node s a = Done s'" "sq_holds s' as D" "\<And>b. b \<in> set as \<Longrightarrow> text_of s' b = text_of s b"
proof -
  have w: "owned s (insert a (set as \<union> D))" "a \<notin> set as \<union> D" "holds (sq_q s) as" "set as \<inter> D = {}"
    using assms by (auto simp: sq_holds_def)
  obtain t where t: "free_node s a = Done t" "owned t (set as \<union> D)" "sq_mem t = (sq_mem s)(a := None)"
    "hq_head (sq_q t) = hq_head (sq_q s)" "hq_tail (sq_q t) = hq_tail (sq_q s)"
    "\<And>b. b \<in> set as \<union> D \<Longrightarrow> text_of t b = text_of s b"
    using free_node_owned [OF w(1,2)] by blast
  have "holds (sq_q t) as"
    using holds_upd [OF w(3), of a None] w(2) t(3-5) by (simp add: holds_def)
  then show ?thesis
    using that [OF t(1)] t(2,6) w(4) by (simp add: sq_holds_def)
qed

section \<open>The contract\<close>

text \<open>Removing the first string: \<^verbatim>\<open>dequeue\<close>, a read of the data, \<^verbatim>\<open>free_node\<close>, as the callers do it.\<close>

definition take_front :: "str_queue \<Rightarrow> (string option \<times> str_queue) outcome" where
  "take_front s =
     obind (dequeue s) (\<lambda>(node, s).
     if node = 0 then Done (None, s)
     else case sq_mem s node of
       None \<Rightarrow> Undef
     | Some c \<Rightarrow> (case sq_strs s (c_item c) of
         None \<Rightarrow> Undef
       | Some data \<Rightarrow> obind (free_node s node) (\<lambda>s. Done (Some data, s))))"

lemma take_front_empty:
  assumes "sq_ok s" "sq_items s = []"
  shows "take_front s = Done (None, s)"
  using assms dequeue_empty [of s "{}"] sq_ok_nodes [of s] by (simp add: take_front_def sq_items_def)

lemma take_front_Cons:
  assumes "sq_ok s" "sq_items s = x # xs"
  obtains s' where "take_front s = Done (Some x, s')" "sq_ok s'" "sq_items s' = xs"
proof -
  obtain a as where as: "sq_nodes s = a # as" "x = text_of s a" "xs = map (text_of s) as"
    using assms(2) by (auto simp: sq_items_def)
  then have w: "sq_holds s (a # as) {}"
    using sq_ok_nodes [OF assms(1)] by simp
  obtain t where t: "dequeue s = Done (a, t)" "a \<noteq> 0" "sq_holds t as {a}" "text_of t = text_of s"
    using dequeue_holds [OF w] by blast
  obtain u where u: "free_node t a = Done u" "sq_holds u as {}" "\<And>b. b \<in> set as \<Longrightarrow> text_of u b = text_of t b"
    using free_node_holds [OF t(3)] by blast
  have "owned t (set as \<union> {a})"
    using t(3) by (simp add: sq_holds_def)
  then obtain c where "sq_mem t a = Some c" "sq_strs t (c_item c) = Some x"
    using as(2) t(4) by (auto elim!: ownedD [of _ _ a])
  then have "take_front s = Done (Some x, u)"
    using t(1,2) u(1) by (simp add: take_front_def)
  moreover have "sq_items u = xs"
    using as(3) t(4) u(3) by (simp add: sq_items_holds [OF u(2)])
  ultimately show ?thesis
    using that u(2) by (auto simp: sq_ok_def)
qed

lemma enqueue_ok:
  assumes "sq_ok s"
  obtains s' where "enqueue s (Some x) = Done s'" "sq_ok s'" "sq_items s' = sq_items s @ [x]"
  using enqueue_holds [OF sq_ok_nodes [OF assms]] by (metis sq_ok_def)

definition sq_push :: "str_queue \<Rightarrow> string \<Rightarrow> str_queue" where
  "sq_push s x = (case enqueue s (Some x) of Done s' \<Rightarrow> s' | _ \<Rightarrow> s)"

definition sq_pop :: "str_queue \<Rightarrow> (string \<times> str_queue) option" where
  "sq_pop s = (case take_front s of Done (Some x, s') \<Rightarrow> Some (x, s') | _ \<Rightarrow> None)"

interpretation sqf: fifo sq_items sq_push sq_pop sq_ok
proof
  fix s :: str_queue and x y s'
  assume ok: "sq_ok s"
  obtain t where "enqueue s (Some x) = Done t" "sq_ok t" "sq_items t = sq_items s @ [x]"
    using enqueue_ok [OF ok] by blast
  then show "sq_ok (sq_push s x)" "sq_items (sq_push s x) = sq_items s @ [x]"
    by (simp_all add: sq_push_def)
  show "sq_pop s = None \<longleftrightarrow> sq_items s = []"
    using take_front_empty [OF ok] take_front_Cons [OF ok] by (cases "sq_items s") (force simp: sq_pop_def)+
  show "sq_ok s' \<and> sq_items s = y # sq_items s'" if "sq_pop s = Some (y, s')"
    using that take_front_empty [OF ok] take_front_Cons [OF ok] by (cases "sq_items s") (force simp: sq_pop_def)+
qed

section \<open>free_queue and print_queue\<close>

lemma free_from_chain:
  assumes "chain (sq_mem s) p as" "distinct as" "owned s (set as \<union> D)" "set as \<inter> D = {}"
  shows "\<exists>s'. free_from p s = Some (Done s') \<and> owned s' D"
  using assms
proof (induction as arbitrary: p s)
  case Nil
  then show ?case
    by (subst free_from.simps) simp
next
  case (Cons a as)
  obtain c where c: "p = a" "a \<noteq> 0" "sq_mem s a = Some c" "chain (sq_mem s) (c_next c) as"
    using Cons.prems(1) by (rule chain_ConsE)
  have "owned s (insert a (set as \<union> D))" "a \<notin> set as \<union> D"
    using Cons.prems by auto
  then obtain t where t: "free_node s a = Done t" "owned t (set as \<union> D)" "sq_mem t = (sq_mem s)(a := None)"
    by (rule free_node_owned)
  then have "chain (sq_mem t) (c_next c) as"
    using chain_upd [of a as "sq_mem s" None] c(4) Cons.prems(2) by simp
  from Cons.IH [OF this _ t(2)] show ?case
    using Cons.prems(2,4) c t(1) by (subst free_from.simps) simp
qed

lemma free_queue_holds:
  assumes "sq_ok s"
  obtains s' where "free_queue s = Some (Done s')" "sq_mem s' = Map.empty" "sq_strs s' = Map.empty"
proof -
  have w: "chain (sq_mem s) (hq_head (sq_q s)) (sq_nodes s)" "distinct (sq_nodes s)"
    "owned s (set (sq_nodes s) \<union> {})"
    using sq_ok_nodes [OF assms] by (simp_all add: sq_holds_def holds_def)
  show ?thesis
    using free_from_chain [OF w] that by (auto simp: free_queue_def owned_def)
qed

fun arrows :: "string list \<Rightarrow> string" where
  "arrows [] = []"
| "arrows [x] = ''['' @ x @ '']''"
| "arrows (x # xs) = ''['' @ x @ '']->'' @ arrows xs"

lemma arrows_Cons: "arrows (x # xs) = ''['' @ x @ '']'' @ (if xs = [] then [] else ''->'' @ arrows xs)"
  by (cases xs) simp_all

lemma print_from_chain:
  assumes "chain (sq_mem s) p as" "owned s N" "set as \<subseteq> N"
  shows "print_from p s out = Some (Done (out @ arrows (map (text_of s) as)))"
  using assms(1,3)
proof (induction as arbitrary: p out)
  case Nil
  then show ?case
    by (subst print_from.simps) simp
next
  case (Cons a as)
  obtain c where c: "p = a" "a \<noteq> 0" "sq_mem s a = Some c" "chain (sq_mem s) (c_next c) as"
    using Cons.prems(1) by (rule chain_ConsE)
  have "a \<in> N"
    using Cons.prems(2) by simp
  then have "sq_strs s (c_item c) = Some (text_of s a)"
    using c(3) by (auto elim!: ownedD [OF assms(2)])
  moreover have "c_next c = 0 \<longleftrightarrow> as = []"
    using c(4) by (cases as) auto
  ultimately show ?case
    using Cons.IH [OF c(4)] Cons.prems(2) c by (subst print_from.simps) (simp add: arrows_Cons)
qed

lemma print_queue_holds:
  assumes "sq_ok s"
  shows "print_queue s = Some (Done (''finally: '' @ arrows (sq_items s) @ [CHR 0x0A]))"
  using sq_ok_nodes [OF assms] print_from_chain [of s "hq_head (sq_q s)" "sq_nodes s"]
  by (auto simp: print_queue_def sq_holds_def holds_def sq_items_def)

end
