(* ===== verification/Caesar.thy ===== *)
theory Caesar
  imports C_Prelude
begin

text \<open>
  The Caesar cipher of Lab 1 (\<^verbatim>\<open>lab1-TheCarton-main/part2/caesar.c\<close>).  \<^verbatim>\<open>encode\<close> and \<^verbatim>\<open>decode\<close> change
  their argument in place and return it, or return a literal at the first character that is not
  alphanumeric; both results are modelled.  \<open>rotate\<close> is the reference definition of a shift.
\<close>

section \<open>caesar.c\<close>

definition is_alpha :: "char \<Rightarrow> bool" where
  "is_alpha c \<longleftrightarrow> 97 \<le> char_val c \<and> char_val c \<le> 122"

definition is_upper_alpha :: "char \<Rightarrow> bool" where
  "is_upper_alpha c \<longleftrightarrow> 65 \<le> char_val c \<and> char_val c \<le> 90"

definition is_numeric :: "char \<Rightarrow> bool" where
  "is_numeric c \<longleftrightarrow> 48 \<le> char_val c \<and> char_val c \<le> 57"

definition is_alphanumeric :: "char \<Rightarrow> bool" where
  "is_alphanumeric c \<longleftrightarrow> is_alpha c \<or> is_upper_alpha c \<or> is_numeric c"

definition shift_char :: "char \<Rightarrow> int \<Rightarrow> char" where
  "shift_char c shift =
     (let (len, first_char, last_char) =
            (if is_alpha c then (26, 97, 122) else if is_upper_alpha c then (26, 65, 90) else (10, 48, 57));
          ascii = char_val c;
          norm_shift = c_mod shift len;
          d = ascii + norm_shift;
          d = (if d > last_char then d - len else if d < first_char then d + len else d)
      in to_char d)"

text \<open>The loop: the buffer after it, \<^verbatim>\<open>Inl\<close> when it stopped at an illegal character.\<close>

fun shift_loop :: "int \<Rightarrow> string \<Rightarrow> string + string" where
  "shift_loop key [] = Inr []"
| "shift_loop key (c # cs) =
     (if \<not> is_alphanumeric c then Inl (c # cs)
      else case shift_loop key cs of
             Inl r \<Rightarrow> Inl (shift_char c key # r) | Inr r \<Rightarrow> Inr (shift_char c key # r))"

text \<open>The string that is returned, and the argument array after the call.\<close>

definition encode :: "string \<Rightarrow> int \<Rightarrow> string \<times> string" where
  "encode plaintext key =
     (case shift_loop key plaintext of Inl buf \<Rightarrow> (''ILLCHAR'', buf) | Inr buf \<Rightarrow> (buf, buf))"

text \<open>\<^verbatim>\<open>-key\<close> overflows for the least \<^verbatim>\<open>int\<close>, if a character is shifted at all.\<close>

definition decode :: "string \<Rightarrow> int \<Rightarrow> (string \<times> string) outcome" where
  "decode ciphertext key =
     (if key = - (2 ^ 31) \<and> ciphertext \<noteq> [] \<and> is_alphanumeric (hd ciphertext) then Undef
      else Done (case shift_loop (- key) ciphertext of
        Inl buf \<Rightarrow> (''ILLCHAR'' @ [CHR 0x0A], buf) | Inr buf \<Rightarrow> (buf, buf)))"

section \<open>A shift is a rotation of the character's class\<close>

definition class_first :: "char \<Rightarrow> int" where
  "class_first c = (if is_alpha c then 97 else if is_upper_alpha c then 65 else 48)"

definition class_len :: "char \<Rightarrow> int" where
  "class_len c = (if is_alpha c \<or> is_upper_alpha c then 26 else 10)"

definition rotate_char :: "char \<Rightarrow> int \<Rightarrow> char" where
  "rotate_char c shift = to_char (class_first c + (char_val c - class_first c + shift) mod class_len c)"

lemma class_bounds:
  assumes "is_alphanumeric c"
  shows "class_first c \<le> char_val c" "char_val c < class_first c + class_len c" "0 < class_len c"
    "0 \<le> class_first c" "class_first c + class_len c \<le> 123"
  using assms
  by (auto simp: is_alphanumeric_def is_alpha_def is_upper_alpha_def is_numeric_def class_first_def class_len_def)

text \<open>One correction brings a number that is off by less than a period back into range.\<close>

lemma correct_once:
  fixes a n :: int
  assumes "0 < n" "- n \<le> a" "a < 2 * n"
  shows "(if a \<ge> n then a - n else if a < 0 then a + n else a) = a mod n"
proof -
  consider "a < 0" | "0 \<le> a \<and> a < n" | "n \<le> a"
    by linarith
  then show ?thesis
  proof cases
    case 1
    then have "(a + n) mod n = a + n"
      using assms by (intro mod_pos_pos_trivial) auto
    then show ?thesis
      using 1 assms by simp
  next
    case 3
    then have "(a - n) mod n = a - n"
      using assms by (intro mod_pos_pos_trivial) auto
    then have "a mod n = a - n"
      by (simp add: minus_mod_self2)
    then show ?thesis
      using 3 by simp
  qed (use assms in simp)
qed

lemma shift_char_rotate:
  assumes "is_alphanumeric c"
  shows "shift_char c shift = rotate_char c shift"
proof -
  let ?f = "class_first c" and ?n = "class_len c"
  let ?x = "char_val c - ?f" and ?s = "c_mod shift ?n"
  note b = class_bounds [OF assms]
  have s: "- ?n < ?s" "?s < ?n" "?s mod ?n = shift mod ?n"
    using c_mod_bounds [OF b(3)] c_mod_cong [OF b(3)] by simp_all
  have last: "(if is_alpha c then 122 else if is_upper_alpha c then 90 else 57) = ?f + ?n - 1"
    by (simp add: class_first_def class_len_def)
  have "shift_char c shift = to_char (let d = char_val c + ?s
      in if d > ?f + ?n - 1 then d - ?n else if d < ?f then d + ?n else d)"
    by (simp add: shift_char_def class_first_def class_len_def Let_def)
  also have "\<dots> = to_char (?f + (let a = ?x + ?s in if a \<ge> ?n then a - ?n else if a < 0 then a + ?n else a))"
    by (auto simp: Let_def algebra_simps)
  also have "\<dots> = to_char (?f + (?x + ?s) mod ?n)"
    using correct_once [OF b(3), of "?x + ?s"] b(1,2) s(1,2) by (simp add: Let_def)
  also have "(?x + ?s) mod ?n = (?x + shift) mod ?n"
    using s(3) by (metis mod_add_right_eq)
  finally show ?thesis
    by (simp add: rotate_char_def)
qed

lemma rotate_char_val:
  assumes "is_alphanumeric c"
  shows "char_val (rotate_char c shift) = class_first c + (char_val c - class_first c + shift) mod class_len c"
proof -
  note b = class_bounds [OF assms]
  have "0 \<le> (char_val c - class_first c + shift) mod class_len c"
    "(char_val c - class_first c + shift) mod class_len c < class_len c"
    using b(3) by simp_all
  then show ?thesis
    using b unfolding rotate_char_def by (intro char_val_to_char) linarith+
qed

lemma rotate_char_class:
  assumes "is_alphanumeric c"
  shows "is_alphanumeric (rotate_char c shift)" "class_first (rotate_char c shift) = class_first c"
    "class_len (rotate_char c shift) = class_len c"
proof -
  note v = rotate_char_val [OF assms, of shift]
  let ?r = "(char_val c - class_first c + shift) mod class_len c"
  have r: "0 \<le> ?r" "?r < class_len c"
    using class_bounds(3) [OF assms] by simp_all
  consider "is_alpha c" | "\<not> is_alpha c \<and> is_upper_alpha c" | "\<not> is_alpha c \<and> \<not> is_upper_alpha c \<and> is_numeric c"
    using assms by (auto simp: is_alphanumeric_def)
  then have "(is_alpha (rotate_char c shift) \<longleftrightarrow> is_alpha c) \<and>
      (is_upper_alpha (rotate_char c shift) \<longleftrightarrow> is_upper_alpha c) \<and>
      (is_numeric (rotate_char c shift) \<longleftrightarrow> is_numeric c)"
    using v r
    by cases (auto simp: is_alpha_def is_upper_alpha_def is_numeric_def class_first_def class_len_def)
  then show "is_alphanumeric (rotate_char c shift)" "class_first (rotate_char c shift) = class_first c"
    "class_len (rotate_char c shift) = class_len c"
    using assms by (simp_all add: is_alphanumeric_def class_first_def class_len_def)
qed

lemma rotate_rotate:
  assumes "is_alphanumeric c"
  shows "rotate_char (rotate_char c a) b = rotate_char c (a + b)"
proof -
  note cl = rotate_char_class [OF assms, of a]
  have "(char_val (rotate_char c a) - class_first c + b) mod class_len c =
      (char_val c - class_first c + (a + b)) mod class_len c"
    unfolding rotate_char_val [OF assms] by (simp add: mod_add_left_eq add.assoc)
  then show ?thesis
    unfolding rotate_char_def [of "rotate_char c a"] cl(2,3) rotate_char_def [of c "a + b"] by simp
qed

lemma rotate_zero: "is_alphanumeric c \<Longrightarrow> rotate_char c 0 = c"
proof -
  assume "is_alphanumeric c"
  note b = class_bounds [OF this]
  then have "(char_val c - class_first c) mod class_len c = char_val c - class_first c"
    by (intro mod_pos_pos_trivial) auto
  then show ?thesis
    by (simp add: rotate_char_def to_char_char_val)
qed

section \<open>Whole strings\<close>

lemma shift_loop_ok:
  "list_all is_alphanumeric s \<Longrightarrow> shift_loop key s = Inr (map (\<lambda>c. rotate_char c key) s)"
  by (induction s) (auto simp: shift_char_rotate)

lemma shift_loop_illegal:
  "list_all is_alphanumeric s \<Longrightarrow> \<not> is_alphanumeric c \<Longrightarrow>
     shift_loop key (s @ c # t) = Inl (map (\<lambda>c. rotate_char c key) s @ c # t)"
  by (induction s) (auto simp: shift_char_rotate)

lemma rotate_all_alnum:
  "list_all is_alphanumeric s \<Longrightarrow> list_all is_alphanumeric (map (\<lambda>c. rotate_char c key) s)"
  by (auto simp: list_all_iff rotate_char_class)

lemma shift_loop_back:
  assumes "list_all is_alphanumeric p"
  shows "shift_loop (- key) (fst (encode p key)) = Inr p" "fst (encode p key) = map (\<lambda>c. rotate_char c key) p"
proof -
  show e: "fst (encode p key) = map (\<lambda>c. rotate_char c key) p"
    using shift_loop_ok [OF assms] by (simp add: encode_def)
  have "map (\<lambda>c. rotate_char (rotate_char c key) (- key)) p = p"
    using assms by (intro map_idI) (auto simp: list_all_iff rotate_rotate rotate_zero)
  then show "shift_loop (- key) (fst (encode p key)) = Inr p"
    using shift_loop_ok [OF rotate_all_alnum [OF assms], of "- key"] by (simp add: e comp_def)
qed

lemma split_illegal:
  assumes "\<not> list_all is_alphanumeric s"
  obtains a c t where "s = a @ c # t" "list_all is_alphanumeric a" "\<not> is_alphanumeric c"
  using assms split_list_first_prop [of s "\<lambda>c. \<not> is_alphanumeric c"] by (auto simp: list_all_iff)

section \<open>Properties\<close>

text \<open>
  C13. \<^verbatim>\<open>decode\<close> with the same key undoes \<^verbatim>\<open>encode\<close> on every string of letters and digits, for every key
  that can be negated, in the returned string and in the array.
\<close>

theorem caesar_roundtrip:
  assumes "list_all is_alphanumeric p" "key \<noteq> - (2 ^ 31)"
  shows "decode (fst (encode p key)) key = Done (p, p)"
  using shift_loop_back [OF assms(1)] assms(2) by (simp add: decode_def)

theorem caesar_roundtrip_witness: "decode (fst (encode ''Zebra9'' 3)) 3 = Done (''Zebra9'', ''Zebra9'')"
  using caesar_roundtrip [of "''Zebra9''" 3]
  by (simp add: is_alphanumeric_def is_alpha_def is_upper_alpha_def is_numeric_def char_val_def)

text \<open>
  The branches of \<^verbatim>\<open>shift_char\<close> (a truncating remainder and one correction) compute the rotation of the
  character within its class, for positive and negative shifts of any size.
\<close>

lemma shift_char_is_rotation:
  assumes "is_alphanumeric c"
  shows "shift_char c shift = to_char (class_first c + (char_val c - class_first c + shift) mod class_len c) \<and>
    is_alphanumeric (shift_char c shift)"
  using shift_char_rotate [OF assms] rotate_char_class(1) [OF assms] by (simp add: rotate_char_def)

lemma shift_char_is_rotation_witness: "shift_char CHR ''y'' (- 1000001) = CHR ''j''"
proof -
  have "is_alphanumeric CHR ''y''"
    by (simp add: is_alphanumeric_def is_alpha_def char_val_def)
  from shift_char_is_rotation [OF this, of "- 1000001"] show ?thesis
    by (simp add: class_first_def class_len_def is_alpha_def char_val_def to_char_def char_of_def)
qed

text \<open>
  At the first character that is neither letter nor digit both functions give up: \<^verbatim>\<open>encode\<close> returns
  \<^verbatim>\<open>ILLCHAR\<close>, \<^verbatim>\<open>decode\<close> returns it with a newline, and the characters before it have been changed in place.
\<close>

lemma caesar_illegal_character:
  assumes "\<not> list_all is_alphanumeric p" "key \<noteq> - (2 ^ 31)"
  shows "\<exists>a c t. p = a @ c # t \<and> list_all is_alphanumeric a \<and> \<not> is_alphanumeric c \<and>
    encode p key = (''ILLCHAR'', fst (encode a key) @ c # t) \<and>
    decode p key = Done (''ILLCHAR'' @ [CHR 0x0A], map (\<lambda>c. shift_char c (- key)) a @ c # t)"
proof -
  obtain a c t where s: "p = a @ c # t" "list_all is_alphanumeric a" "\<not> is_alphanumeric c"
    by (rule split_illegal [OF assms(1)])
  have "map (\<lambda>c. rotate_char c (- key)) a = map (\<lambda>c. shift_char c (- key)) a"
    using s(2) by (simp add: list_all_iff shift_char_rotate)
  then show ?thesis
    using s shift_loop_illegal [OF s(2,3)] shift_loop_ok [OF s(2)] assms(2)
    by (intro exI [of _ a] exI [of _ c] exI [of _ t]) (simp add: encode_def decode_def)
qed

lemma caesar_illegal_character_witness: "fst (encode ''ab c'' 1) = ''ILLCHAR''"
proof -
  have "\<not> list_all is_alphanumeric ''ab c''"
    by (simp add: is_alphanumeric_def is_alpha_def is_upper_alpha_def is_numeric_def char_val_def)
  from caesar_illegal_character [OF this, of 1] show ?thesis
    by auto
qed

end
