(* ===== verification/Queue_Shell.thy ===== *)
theory Queue_Shell
  imports Str_Queue Caesar
begin

text \<open>
  The programs of Lab 1 around the queue and the cipher: \<^verbatim>\<open>queue_main.c\<close>, \<^verbatim>\<open>ciphered_queue_main.c\<close>,
  \<^verbatim>\<open>caesar_main.c\<close> (in \<^verbatim>\<open>lab1-TheCarton-main/part2\<close>) and \<^verbatim>\<open>part1/debug.c\<close>.  A run reads a file line by
  line; its state is the queue with its heap and the text printed so far.  The command language is
  \<open>qcmd\<close>, its meaning on a list of strings \<open>abs_cmd\<close>, and the programs are shown to implement it.
  The \<^verbatim>\<open>queue_t\<close> structure, the line buffer and the stream, each allocated once, are not part of the heap.
\<close>

section \<open>State\<close>

record shell =
  sh_q :: str_queue
  sh_out :: string

text \<open>Still running, ended with an exit status, or undefined behaviour (or no return).\<close>

datatype shell_res = Go shell | Stop int shell | Fault

definition shell_init :: shell where
  "shell_init = \<lparr>sh_q = empty_queue, sh_out = []\<rparr>"

definition print :: "shell \<Rightarrow> string \<Rightarrow> shell" where
  "print sh tx = sh\<lparr>sh_out := sh_out sh @ tx\<rparr>"

section \<open>queue\_main.c\<close>

definition free_and_close :: "int \<Rightarrow> shell \<Rightarrow> shell_res" where
  "free_and_close status sh =
     (case free_queue (sh_q sh) of
        Some (Done q) \<Rightarrow> Stop status (sh\<lparr>sh_q := q\<rparr>) | _ \<Rightarrow> Fault)"

definition error :: "shell \<Rightarrow> shell_res" where
  "error sh = free_and_close 1 (print sh (''ERROR'' @ [newline]))"

text \<open>The \<^verbatim>\<open>enqueue\<close> and \<^verbatim>\<open>dequeue\<close> commands, the same statements in both programs.\<close>

definition do_enqueue :: "shell \<Rightarrow> string option \<Rightarrow> shell_res" where
  "do_enqueue sh arg =
     (case enqueue (sh_q sh) arg of Done q \<Rightarrow> Go (sh\<lparr>sh_q := q\<rparr>) | _ \<Rightarrow> Fault)"

definition do_dequeue :: "shell \<Rightarrow> shell_res" where
  "do_dequeue sh =
     (case take_front (sh_q sh) of
        Done (None, q) \<Rightarrow> Go (print (sh\<lparr>sh_q := q\<rparr>) (''NULL'' @ [newline]))
      | Done (Some data, q) \<Rightarrow> Go (print (sh\<lparr>sh_q := q\<rparr>) (data @ [newline]))
      | _ \<Rightarrow> Fault)"

definition process_line :: "shell \<Rightarrow> string \<Rightarrow> shell_res" where
  "process_line sh lineptr =
     (case strtok '' '' lineptr of
        None \<Rightarrow> Fault
      | Some (action, rest) \<Rightarrow>
          if action = ''enqueue'' @ [newline] then error sh
          else if action = ''enqueue'' then do_enqueue sh (map_option fst (strtok [newline] rest))
          else if action = ''dequeue'' @ [newline] then do_dequeue sh
          else error sh)"

definition final_print :: "shell \<Rightarrow> shell option" where
  "final_print sh =
     (case print_queue (sh_q sh) of Some (Done tx) \<Rightarrow> Some (print sh tx) | _ \<Rightarrow> None)"

text \<open>\<^verbatim>\<open>getline\<close>: each line with its newline; the string of a line ends at its first NUL.\<close>

fun file_lines :: "string \<Rightarrow> string list" where
  "file_lines [] = []"
| "file_lines (c # cs) =
     (if c = newline then [c] # file_lines cs
      else case file_lines cs of
        [] \<Rightarrow> [[c]]
      | l # ls \<Rightarrow> (c # l) # ls)"

fun line_loop :: "(shell \<Rightarrow> string \<Rightarrow> shell_res) \<Rightarrow> shell \<Rightarrow> string list \<Rightarrow> shell_res" where
  "line_loop process sh [] = Go sh"
| "line_loop process sh (l # ls) =
     (case process sh (takeWhile (\<lambda>c. c \<noteq> NUL) l) of
        Go sh' \<Rightarrow> line_loop process sh' ls | r \<Rightarrow> r)"

text \<open>
  \<^verbatim>\<open>main\<close>: a wrong number of arguments prints the usage and returns -1; \<open>None\<close> is a file that cannot be
  opened, where the assertion fails.
\<close>

definition run_main :: "(shell \<Rightarrow> string \<Rightarrow> shell_res) \<Rightarrow> string \<Rightarrow> nat \<Rightarrow> string option \<Rightarrow> shell_res outcome" where
  "run_main process usage argc file =
     (if argc \<noteq> 2 then Done (Stop (- 1) (print shell_init usage))
      else case file of
        None \<Rightarrow> Abort
      | Some tx \<Rightarrow> Done (case line_loop process shell_init (file_lines tx) of
          Go sh \<Rightarrow> (case final_print sh of None \<Rightarrow> Fault | Some sh' \<Rightarrow> free_and_close 0 sh')
        | r \<Rightarrow> r))"

definition queue_main :: "nat \<Rightarrow> string option \<Rightarrow> shell_res outcome" where
  "queue_main = run_main process_line (''Usage: ./queue <file>'' @ [newline])"

section \<open>ciphered\_queue\_main.c\<close>

definition encode_enqueue :: "shell \<Rightarrow> string \<Rightarrow> int \<Rightarrow> shell_res" where
  "encode_enqueue sh data key = (let enc_data = fst (encode data key) in do_enqueue sh (Some enc_data))"

definition dequeue_decode :: "shell \<Rightarrow> int \<Rightarrow> shell_res" where
  "dequeue_decode sh key =
     (case take_front (sh_q sh) of
        Done (Some enc_msg, q) \<Rightarrow>
          (case (if enc_msg = ''ILLCHAR'' then Done enc_msg
                 else obind (decode enc_msg key) (\<lambda>(msg, _). Done msg)) of
             Done msg \<Rightarrow> Go (print (sh\<lparr>sh_q := q\<rparr>) (msg @ [newline]))
           | _ \<Rightarrow> Fault)
      | _ \<Rightarrow> Fault)"

text \<open>\<^verbatim>\<open>strtok\<close> returns NULL when nothing is left: \<^verbatim>\<open>strlen\<close> of it is undefined.\<close>

definition process_line2 :: "shell \<Rightarrow> string \<Rightarrow> shell_res" where
  "process_line2 sh lineptr =
     (case strtok '' '' lineptr of
        None \<Rightarrow> Fault
      | Some (action, rest) \<Rightarrow>
          if action = ''encode_enqueue'' then
            (case strtok '' '' rest of
               None \<Rightarrow> Fault
             | Some (key_s, rest) \<Rightarrow>
                 (case atoi key_s of
                    Done key \<Rightarrow>
                      (case strtok [newline] rest of
                         None \<Rightarrow> Fault
                       | Some (word, _) \<Rightarrow> encode_enqueue sh word key)
                  | _ \<Rightarrow> Fault))
          else if action = ''dequeue_decode'' then
            (case strtok '' '' rest of
               None \<Rightarrow> Fault
             | Some (key_s, _) \<Rightarrow>
                 (case atoi key_s of Done key \<Rightarrow> dequeue_decode sh key | _ \<Rightarrow> Fault))
          else if action = ''enqueue'' @ [newline] then error sh
          else if action = ''enqueue'' then do_enqueue sh (map_option fst (strtok [newline] rest))
          else if action = ''dequeue'' @ [newline] then do_dequeue sh
          else error sh)"

definition ciphered_queue_main :: "nat \<Rightarrow> string option \<Rightarrow> shell_res outcome" where
  "ciphered_queue_main = run_main process_line2 (''Usage: ./ciphered-queue <file> '' @ [newline])"

section \<open>caesar\_main.c\<close>

text \<open>The exit status and the output; the argument is copied to an array of 128 bytes.\<close>

definition caesar_main :: "string list \<Rightarrow> (int \<times> string) outcome" where
  "caesar_main argv =
     (if length argv < 4
      then Done (- 1, ''Usage: ./caesar [encode|decode] <number> <string> '' @ [newline])
      else let mode = argv ! 1 in
        obind (atoi (argv ! 2)) (\<lambda>key.
        if 128 < length (argv ! 3) + 1 then Undef
        else let str = argv ! 3 in
          if mode = ''encode'' then Done (0, fst (encode str key) @ [newline])
          else if mode = ''decode'' then obind (decode str key) (\<lambda>(tx, _). Done (0, tx @ [newline]))
          else Done (0, [])))"

section \<open>part1/debug.c\<close>

text \<open>\<^verbatim>\<open>2 * i\<close> overflows outside half the range of \<^verbatim>\<open>int\<close>.\<close>

definition double_num :: "int \<Rightarrow> int outcome" where
  "double_num i = (if - (2 ^ 31) \<le> 2 * i \<and> 2 * i < 2 ^ 31 then Done (2 * i) else Undef)"

definition msg_from_internet :: "char list" where
  "msg_from_internet = ''hello world!'' @ [NUL, NUL]"

text \<open>The loop copies \<^verbatim>\<open>msg_len + 1\<close> bytes, the NUL included, into as many allocated bytes.\<close>

fun copy_loop :: "nat \<Rightarrow> char list \<Rightarrow> char list outcome" where
  "copy_loop 0 msg = Done []"
| "copy_loop (Suc n) [] = Undef"
| "copy_loop (Suc n) (c # cs) = obind (copy_loop n cs) (\<lambda>mem. Done (c # mem))"

definition get_msg :: "char list outcome" where
  "get_msg = obind (c_str msg_from_internet) (\<lambda>msg. copy_loop (Suc (length msg)) msg_from_internet)"

definition toupper :: "char \<Rightarrow> char" where
  "toupper c = (if is_alpha c then to_char (char_val c - 32) else c)"

definition process_msg :: "char list \<Rightarrow> char list outcome" where
  "process_msg mem =
     obind (c_str mem) (\<lambda>s. Done (map toupper (take (length s) mem) @ drop (length s) mem))"

definition debug_main :: "(int \<times> string) outcome" where
  "debug_main =
     (let num = 10 in
      obind (double_num num) (\<lambda>doub_num.
      if num + num \<noteq> doub_num then Abort
      else obind get_msg (\<lambda>mem. obind (process_msg mem) (\<lambda>mem. obind (c_str mem) (\<lambda>tx.
        Done (0, ''double a number ('' @ dec_text (nat num) @ '') is ('' @ dec_text (nat doub_num) @ '')'' @
          [newline] @ ''processed msg: '' @ tx @ [newline]))))))"

section \<open>The command language\<close>

datatype qcmd = Enq string | Deq | Enc_Enq int string | Deq_Dec int

fun cmd_text :: "qcmd \<Rightarrow> string" where
  "cmd_text (Enq w) = ''enqueue '' @ w @ [newline]"
| "cmd_text Deq = ''dequeue'' @ [newline]"
| "cmd_text (Enc_Enq k w) = ''encode_enqueue '' @ int_text k @ '' '' @ w @ [newline]"
| "cmd_text (Deq_Dec k) = ''dequeue_decode '' @ int_text k @ [newline]"

definition word_ok :: "string \<Rightarrow> bool" where
  "word_ok w \<longleftrightarrow> w \<noteq> [] \<and> newline \<notin> set w \<and> NUL \<notin> set w"

definition key_ok :: "int \<Rightarrow> bool" where
  "key_ok k \<longleftrightarrow> - (2 ^ 31) < k \<and> k < 2 ^ 31"

fun cmd_ok :: "qcmd \<Rightarrow> bool" where
  "cmd_ok (Enq w) \<longleftrightarrow> word_ok w"
| "cmd_ok Deq \<longleftrightarrow> True"
| "cmd_ok (Enc_Enq k w) \<longleftrightarrow> word_ok w \<and> key_ok k"
| "cmd_ok (Deq_Dec k) \<longleftrightarrow> key_ok k"

text \<open>The meaning of a command on the list of queued strings: the new list and the output.
  \<^verbatim>\<open>dequeue_decode\<close> has none on an empty queue.\<close>

definition decoded :: "string \<Rightarrow> int \<Rightarrow> string" where
  "decoded x k = (if x = ''ILLCHAR'' then x
     else case shift_loop (- k) x of Inl _ \<Rightarrow> ''ILLCHAR'' @ [newline] | Inr r \<Rightarrow> r)"

fun abs_cmd :: "string list \<Rightarrow> qcmd \<Rightarrow> (string list \<times> string) option" where
  "abs_cmd q (Enq w) = Some (q @ [w], [])"
| "abs_cmd [] Deq = Some ([], ''NULL'' @ [newline])"
| "abs_cmd (x # q) Deq = Some (q, x @ [newline])"
| "abs_cmd q (Enc_Enq k w) = Some (q @ [fst (encode w k)], [])"
| "abs_cmd [] (Deq_Dec k) = None"
| "abs_cmd (x # q) (Deq_Dec k) = Some (q, decoded x k @ [newline])"

fun abs_run :: "string list \<Rightarrow> qcmd list \<Rightarrow> (string list \<times> string) option" where
  "abs_run q [] = Some (q, [])"
| "abs_run q (c # cs) =
     (case abs_cmd q c of None \<Rightarrow> None
      | Some (q', out) \<Rightarrow> map_option (\<lambda>(r, out'). (r, out @ out')) (abs_run q' cs))"

section \<open>Reading commands back\<close>

lemma cmd_text_line: "cmd_ok c \<Longrightarrow> \<exists>l. cmd_text c = l @ [newline] \<and> newline \<notin> set l \<and> NUL \<notin> set l"
  using int_text_chars by (cases c) (auto simp: word_ok_def)

lemma file_lines_line: "newline \<notin> set l \<Longrightarrow> file_lines (l @ newline # rest) = (l @ [newline]) # file_lines rest"
  by (induction l) auto

lemma file_lines_cmds:
  "\<forall>c\<in>set cs. cmd_ok c \<Longrightarrow> file_lines (concat (map cmd_text cs) @ rest) = map cmd_text cs @ file_lines rest"
proof (induction cs)
  case (Cons c cs)
  obtain l where "cmd_text c = l @ [newline]" "newline \<notin> set l"
    using cmd_text_line [of c] Cons.prems by auto
  then show ?case
    using Cons file_lines_line [of l] by simp
qed simp

lemma cmd_text_string: "cmd_ok c \<Longrightarrow> takeWhile (\<lambda>c. c \<noteq> NUL) (cmd_text c) = cmd_text c"
  using cmd_text_line [of c] by (auto simp: takeWhile_eq_all_conv)

section \<open>One command\<close>

text \<open>\<open>shows sh q out\<close>: the queue is well formed and holds \<open>q\<close>, the text printed so far is \<open>out\<close>.\<close>

definition stands :: "shell \<Rightarrow> string list \<Rightarrow> string \<Rightarrow> bool" where
  "stands sh q out \<longleftrightarrow> sq_ok (sh_q sh) \<and> sq_items (sh_q sh) = q \<and> sh_out sh = out"

lemma do_enqueue_stands:
  assumes "stands sh q out"
  shows "\<exists>sh'. do_enqueue sh (Some w) = Go sh' \<and> stands sh' (q @ [w]) out"
  using assms enqueue_ok [of "sh_q sh" w] by (fastforce simp: stands_def do_enqueue_def)

lemma take_front_stands:
  assumes "stands sh (x # q) out"
  obtains t where "take_front (sh_q sh) = Done (Some x, t)" "stands (print (sh\<lparr>sh_q := t\<rparr>) tx) q (out @ tx)"
proof -
  have "sq_ok (sh_q sh)" "sq_items (sh_q sh) = x # q" "sh_out sh = out"
    using assms by (simp_all add: stands_def)
  then obtain t where "take_front (sh_q sh) = Done (Some x, t)" "sq_ok t" "sq_items t = q"
    using take_front_Cons by blast
  then show ?thesis
    using that [of t] \<open>sh_out sh = out\<close> by (simp add: stands_def print_def)
qed

lemma do_dequeue_stands:
  assumes "stands sh q out" "abs_cmd q Deq = Some (q', tx)"
  shows "\<exists>sh'. do_dequeue sh = Go sh' \<and> stands sh' q' (out @ tx)"
proof (cases q)
  case Nil
  then show ?thesis
    using assms take_front_empty [of "sh_q sh"] by (simp add: stands_def do_dequeue_def print_def)
next
  case (Cons x r)
  then show ?thesis
    using assms take_front_stands [of sh x r out tx] by (fastforce simp: do_dequeue_def)
qed

lemma dequeue_decode_stands:
  assumes "stands sh q out" "abs_cmd q (Deq_Dec k) = Some (q', tx)" "key_ok k"
  shows "\<exists>sh'. dequeue_decode sh k = Go sh' \<and> stands sh' q' (out @ tx)"
proof (cases q)
  case (Cons x r)
  then have q': "q' = r" "tx = decoded x k @ [newline]"
    using assms(2) by simp_all
  have "(if x = ''ILLCHAR'' then Done x else obind (decode x k) (\<lambda>(msg, _). Done msg)) = Done (decoded x k)"
    using assms(3) by (auto simp: decoded_def decode_def key_ok_def split: sum.splits)
  then show ?thesis
    using assms(1) Cons q' take_front_stands [of sh x r out tx] by (fastforce simp: dequeue_decode_def)
qed (use assms(2) in simp)

lemma encode_enqueue_stands:
  "stands sh q out \<Longrightarrow> \<exists>sh'. encode_enqueue sh w k = Go sh' \<and> stands sh' (q @ [fst (encode w k)]) out"
  using do_enqueue_stands by (simp add: encode_enqueue_def Let_def)

lemma process_line2_text:
  assumes "cmd_ok c"
  shows "process_line2 sh (cmd_text c) =
    (case c of Enq w \<Rightarrow> do_enqueue sh (Some w) | Deq \<Rightarrow> do_dequeue sh
     | Enc_Enq k w \<Rightarrow> encode_enqueue sh w k | Deq_Dec k \<Rightarrow> dequeue_decode sh k)"
proof (cases c)
  case (Enq w)
  then show ?thesis
    using assms strtok_sep(1) [of "''enqueue''" "CHR '' ''" "w @ [newline]"] strtok_sep(1) [of w newline "[]"]
    by (simp add: process_line2_def word_ok_def)
next
  case Deq
  then show ?thesis
    using strtok_sep(2) [of "''dequeue'' @ [newline]" "CHR '' ''"] by (simp add: process_line2_def)
next
  case (Enc_Enq k w)
  then show ?thesis
    using assms strtok_sep(1) [of "''encode_enqueue''" "CHR '' ''" "int_text k @ '' '' @ w @ [newline]"]
      strtok_sep(1) [OF int_text_chars(1,2), of k "w @ [newline]"] strtok_sep(1) [of w newline "[]"]
      atoi_int_text [of k "[]"]
    by (simp add: process_line2_def word_ok_def key_ok_def)
next
  case (Deq_Dec k)
  then show ?thesis
    using assms strtok_sep(1) [of "''dequeue_decode''" "CHR '' ''" "int_text k @ [newline]"]
      strtok_sep(2) [of "int_text k @ [newline]" "CHR '' ''"] atoi_int_text [of k "[newline]"] int_text_chars [of k]
    by (simp add: process_line2_def key_ok_def)
qed

lemma process_line2_stands:
  assumes "cmd_ok c" "stands sh q out" "abs_cmd q c = Some (q', tx)"
  shows "\<exists>sh'. process_line2 sh (cmd_text c) = Go sh' \<and> stands sh' q' (out @ tx)"
  using assms do_enqueue_stands [OF assms(2)] do_dequeue_stands [OF assms(2)]
    dequeue_decode_stands [OF assms(2)] encode_enqueue_stands [OF assms(2)]
  unfolding process_line2_text [OF assms(1)] by (cases c) (auto simp del: cmd_text.simps)

lemma process_line_plain:
  assumes "cmd_ok c" "c = Deq \<or> (\<exists>w. c = Enq w)"
  shows "process_line sh (cmd_text c) = process_line2 sh (cmd_text c)"
  using assms strtok_sep(2) [of "''dequeue'' @ [newline]" "CHR '' ''"]
  by (auto simp: process_line2_text)
    (auto simp: process_line_def word_ok_def strtok_sep(1) [of "''enqueue''" "CHR '' ''", simplified] strtok_sep)

section \<open>Whole runs\<close>

lemma line_loop_append:
  "line_loop p sh (ls @ ms) = (case line_loop p sh ls of Go sh' \<Rightarrow> line_loop p sh' ms | r \<Rightarrow> r)"
  by (induction ls arbitrary: sh) (auto split: shell_res.splits)

text \<open>\<open>follows p c\<close>: processing the text of \<open>c\<close> with \<open>p\<close> has the effect of \<open>c\<close>.\<close>

definition follows :: "(shell \<Rightarrow> string \<Rightarrow> shell_res) \<Rightarrow> qcmd \<Rightarrow> bool" where
  "follows p c \<longleftrightarrow> (\<forall>sh q out q' tx. stands sh q out \<and> abs_cmd q c = Some (q', tx) \<longrightarrow>
     (\<exists>sh'. p sh (cmd_text c) = Go sh' \<and> stands sh' q' (out @ tx)))"

lemma line_loop_stands:
  assumes "\<forall>c\<in>set cs. cmd_ok c \<and> follows p c" "stands sh q out" "abs_run q cs = Some (q', tx)"
  shows "\<exists>sh'. line_loop p sh (map cmd_text cs) = Go sh' \<and> stands sh' q' (out @ tx)"
  using assms
proof (induction cs arbitrary: sh q out tx)
  case (Cons c cs)
  obtain r o1 o2 where r: "abs_cmd q c = Some (r, o1)" "abs_run r cs = Some (q', o2)" "tx = o1 @ o2"
    using Cons.prems(3) by (auto split: option.splits)
  obtain sh1 where sh1: "p sh (cmd_text c) = Go sh1" "stands sh1 r (out @ o1)"
  proof -
    have "follows p c"
      using Cons.prems(1) by simp
    then show ?thesis
      using Cons.prems(2) r(1) that unfolding follows_def by blast
  qed
  have "\<exists>sh'. line_loop p sh1 (map cmd_text cs) = Go sh' \<and> stands sh' q' ((out @ o1) @ o2)"
    by (rule Cons.IH [OF _ sh1(2) r(2)]) (use Cons.prems(1) in simp)
  then show ?case
    using sh1(1) r(3) Cons.prems(1) by (simp add: cmd_text_string)
qed (simp add: stands_def)

definition all_freed :: "shell \<Rightarrow> bool" where
  "all_freed sh \<longleftrightarrow> sq_mem (sh_q sh) = Map.empty \<and> sq_strs (sh_q sh) = Map.empty"

lemma free_and_close_stands:
  assumes "stands sh q out"
  obtains sh' where "free_and_close n sh = Stop n sh'" "sh_out sh' = out" "all_freed sh'"
proof -
  obtain t where "free_queue (sh_q sh) = Some (Done t)" "sq_mem t = Map.empty" "sq_strs t = Map.empty"
    using assms free_queue_holds by (auto simp: stands_def)
  then show ?thesis
    using that [of "sh\<lparr>sh_q := t\<rparr>"] assms by (simp add: stands_def free_and_close_def all_freed_def)
qed

lemma init_stands: "stands shell_init [] []"
  using empty_queue_holds by (auto simp: stands_def shell_init_def sq_items_holds sq_ok_def)

lemma final_print_stands:
  "stands sh q out \<Longrightarrow>
     \<exists>sh'. final_print sh = Some sh' \<and> stands sh' q (out @ ''finally: '' @ arrows q @ [newline])"
  using print_queue_holds [of "sh_q sh"] by (auto simp: stands_def final_print_def print_def)

lemma run_main_stands:
  assumes "\<forall>c\<in>set cs. cmd_ok c \<and> follows p c" "abs_run [] cs = Some (q, out)"
  shows "\<exists>sh. run_main p u 2 (Some (concat (map cmd_text cs))) = Done (Stop 0 sh) \<and>
    sh_out sh = out @ ''finally: '' @ arrows q @ [newline] \<and> all_freed sh"
proof -
  obtain sh1 where sh1: "line_loop p shell_init (map cmd_text cs) = Go sh1" "stands sh1 q out"
    using line_loop_stands [OF assms(1) init_stands assms(2)] by auto
  obtain sh2 where sh2: "final_print sh1 = Some sh2" "stands sh2 q (out @ ''finally: '' @ arrows q @ [newline])"
    using final_print_stands [OF sh1(2)] by auto
  obtain sh3 where sh3: "free_and_close 0 sh2 = Stop 0 sh3"
      "sh_out sh3 = out @ ''finally: '' @ arrows q @ [newline]" "all_freed sh3"
    using free_and_close_stands [OF sh2(2)] .
  have "file_lines (concat (map cmd_text cs)) = map cmd_text cs"
    using file_lines_cmds [of cs "[]"] assms(1) by simp
  then show ?thesis
    using sh1(1) sh2(1) sh3 by (simp add: run_main_def)
qed

lemma run_main_error:
  assumes "\<forall>c\<in>set cs. cmd_ok c \<and> follows p c" "abs_run [] cs = Some (q, out)" "newline \<notin> set l" "NUL \<notin> set l"
    "\<And>sh. p sh (l @ [newline]) = error sh"
  shows "\<exists>sh. run_main p u 2 (Some (concat (map cmd_text cs) @ l @ newline # rest)) = Done (Stop 1 sh) \<and>
    sh_out sh = out @ ''ERROR'' @ [newline] \<and> all_freed sh"
proof -
  obtain sh1 where sh1: "line_loop p shell_init (map cmd_text cs) = Go sh1" "stands sh1 q out"
    using line_loop_stands [OF assms(1) init_stands assms(2)] by auto
  let ?e = "out @ ''ERROR'' @ [newline]"
  have "stands (print sh1 (''ERROR'' @ [newline])) q ?e"
    using sh1(2) by (simp add: stands_def print_def)
  then obtain sh2 where sh2: "error sh1 = Stop 1 sh2" "sh_out sh2 = ?e" "all_freed sh2"
    unfolding error_def by (rule free_and_close_stands)
  have "file_lines (concat (map cmd_text cs) @ l @ newline # rest) = map cmd_text cs @ (l @ [newline]) # file_lines rest"
    using file_lines_cmds [of cs "l @ newline # rest"] file_lines_line [OF assms(3)] assms(1) by simp
  moreover have "takeWhile (\<lambda>c. c \<noteq> NUL) (l @ [newline]) = l @ [newline]"
    using assms(4) by (auto simp: takeWhile_eq_all_conv)
  ultimately show ?thesis
    using sh1(1) sh2 assms(5) by (simp add: run_main_def line_loop_append)
qed

lemma process_line2_follows: "cmd_ok c \<Longrightarrow> follows process_line2 c"
  using process_line2_stands unfolding follows_def by blast

lemma process_line_follows: "cmd_ok c \<Longrightarrow> c = Deq \<or> (\<exists>w. c = Enq w) \<Longrightarrow> follows process_line c"
  using process_line2_stands process_line_plain unfolding follows_def by metis

text \<open>
  C14. A file of well-formed commands, none of which decodes from an empty queue, runs to exit status 0: the
  output is that of the commands on a list of strings, then the final contents, and every node and
  string is freed.  \<^verbatim>\<open>queue\<close> does the same with the commands it knows.
\<close>

theorem queue_programs_implement_commands:
  assumes "\<forall>c\<in>set cs. cmd_ok c" "abs_run [] cs = Some (q, out)"
  shows "(\<exists>sh. ciphered_queue_main 2 (Some (concat (map cmd_text cs))) = Done (Stop 0 sh) \<and>
      sh_out sh = out @ ''finally: '' @ arrows q @ [newline] \<and> all_freed sh) \<and>
    ((\<forall>c\<in>set cs. c = Deq \<or> (\<exists>w. c = Enq w)) \<longrightarrow>
      (\<exists>sh. queue_main 2 (Some (concat (map cmd_text cs))) = Done (Stop 0 sh) \<and>
        sh_out sh = out @ ''finally: '' @ arrows q @ [newline] \<and> all_freed sh))"
  unfolding ciphered_queue_main_def queue_main_def
  using assms(1) run_main_stands [OF _ assms(2)] process_line2_follows process_line_follows by simp

theorem queue_programs_implement_commands_witness:
  "\<exists>sh. ciphered_queue_main 2 (Some (''encode_enqueue 1 ABC'' @ [newline] @ ''enqueue CS'' @ [newline] @
      ''dequeue_decode 1'' @ [newline] @ ''encode_enqueue 1 59'' @ [newline])) = Done (Stop 0 sh) \<and>
     sh_out sh = ''ABC'' @ [newline] @ ''finally: [CS]->[60]'' @ [newline] \<and> all_freed sh"
proof -
  let ?cs = "[Enc_Enq 1 ''ABC'', Enq ''CS'', Deq_Dec 1, Enc_Enq 1 ''59'']"
  have "abs_run [] ?cs = Some ([''CS'', ''60''], ''ABC'' @ [newline])"
    by code_simp
  moreover have "\<forall>c\<in>set ?cs. cmd_ok c"
    by (simp add: word_ok_def key_ok_def)
  moreover have "concat (map cmd_text ?cs) = ''encode_enqueue 1 ABC'' @ [newline] @ ''enqueue CS'' @ [newline] @
      ''dequeue_decode 1'' @ [newline] @ ''encode_enqueue 1 59'' @ [newline]"
    by code_simp
  ultimately show ?thesis
    using queue_programs_implement_commands [of ?cs "[''CS'', ''60'']" "''ABC'' @ [newline]"]
    by (simp only: arrows.simps append.simps)
qed

text \<open>
  At the first line that is not a command (its first word is none, or it is \<^verbatim>\<open>enqueue\<close> with nothing after
  it) the run prints \<^verbatim>\<open>ERROR\<close> after the output of the commands before, frees every node and string and
  exits with status 1; the rest of the file does not matter.
\<close>

lemma queue_program_error_line:
  assumes "\<forall>c\<in>set cs. cmd_ok c" "abs_run [] cs = Some (q, out)" "newline \<notin> set l" "NUL \<notin> set l"
    "strtok '' '' (l @ [newline]) = Some (action, args)"
    "action \<notin> {''encode_enqueue'', ''dequeue_decode'', ''enqueue'', ''dequeue'' @ [newline]}"
  shows "\<exists>sh. ciphered_queue_main 2 (Some (concat (map cmd_text cs) @ l @ newline # rest)) = Done (Stop 1 sh) \<and>
    sh_out sh = out @ ''ERROR'' @ [newline] \<and> all_freed sh"
proof -
  have "process_line2 sh (l @ [newline]) = error sh" for sh
    using assms(5,6) by (simp add: process_line2_def)
  then show ?thesis
    unfolding ciphered_queue_main_def
    using run_main_error [OF _ assms(2-4)] assms(1) process_line2_follows by simp
qed

lemma queue_program_error_line_witness:
  "\<exists>sh. ciphered_queue_main 2 (Some (''enqueue ABC'' @ [newline] @ ''dequeue'' @ [newline] @ ''enqueue'' @
      [newline] @ ''dequeue'' @ [newline])) = Done (Stop 1 sh) \<and>
     sh_out sh = ''ABC'' @ [newline] @ ''ERROR'' @ [newline] \<and> all_freed sh"
  using queue_program_error_line [of "[Enq ''ABC'', Deq]" "[]" "''ABC'' @ [newline]" "''enqueue''"
      "''enqueue'' @ [newline]" "[]" "''dequeue'' @ [newline]"]
  by (simp add: word_ok_def strtok_def)

section \<open>Ciphers in the queue\<close>

text \<open>
  An alphanumeric word that is enqueued encoded and dequeued decoded with the same key is printed as it
  was, unless its encoding is the text \<^verbatim>\<open>ILLCHAR\<close>, which stands for an illegal character.
\<close>

lemma enc_dec_prints:
  assumes "list_all is_alphanumeric w"
  shows "abs_run [] [Enc_Enq k w, Deq_Dec k] =
    Some ([], (if fst (encode w k) = ''ILLCHAR'' then ''ILLCHAR'' else w) @ [newline])"
  using shift_loop_back(1) [OF assms(1), of k] by (simp add: decoded_def)

lemma illchar_ambiguous: "fst (encode ''HKKBGZQ'' 1) = ''ILLCHAR''" "list_all is_alphanumeric ''HKKBGZQ''"
  by code_simp+

text \<open>\<^verbatim>\<open>dequeue_decode\<close> on an empty queue dereferences NULL.\<close>

lemma dequeue_decode_empty: "stands sh [] out \<Longrightarrow> dequeue_decode sh k = Fault"
  using take_front_empty [of "sh_q sh"] by (simp add: stands_def dequeue_decode_def)

end
