(* ===== verification/Task_Queue.thy ===== *)
theory Task_Queue
  imports Heap_Queue Interfaces
begin

text \<open>
  The work queue of Lab 3 (\<^verbatim>\<open>lab3-TheCarton-main/queue.c\<close>, \<^verbatim>\<open>queue.h\<close>): the bodies of its operations, as they run while
  the lock is held.  The listener allocates a task and links it, a worker takes it and frees it after
  serving the connection.  The locks and the condition variable are in \<open>Server_Threads\<close>.  The field
  \<^verbatim>\<open>count\<close> of \<^verbatim>\<open>queue_t\<close> is set once and never used.
\<close>

section \<open>State\<close>

record task_queue =
  tq_q :: "int hqueue"
  tq_count :: int
  tq_brk :: nat

abbreviation tq_head :: "task_queue \<Rightarrow> nat" where
  "tq_head s \<equiv> hq_head (tq_q s)"

abbreviation tq_mem :: "task_queue \<Rightarrow> int cells" where
  "tq_mem s \<equiv> hq_mem (tq_q s)"

section \<open>Operations\<close>

definition init_queue :: task_queue where
  "init_queue = \<lparr>tq_q = \<lparr>hq_head = 0, hq_tail = 0, hq_mem = Map.empty\<rparr>, tq_count = 0, tq_brk = 1\<rparr>"

text \<open>\<^verbatim>\<open>malloc(sizeof(task_t))\<close> and the two assignments to the new task.\<close>

definition new_task :: "task_queue \<Rightarrow> int \<Rightarrow> nat \<times> task_queue" where
  "new_task s fd =
     (let t = tq_brk s
      in (t, s\<lparr>tq_q := (tq_q s)\<lparr>hq_mem := (tq_mem s)(t \<mapsto> \<lparr>c_next = 0, c_item = fd\<rparr>)\<rparr>, tq_brk := Suc t\<rparr>))"

definition task_enqueue :: "task_queue \<Rightarrow> nat \<Rightarrow> task_queue outcome" where
  "task_enqueue s t = obind (link_tail (tq_q s) t) (\<lambda>q. Done (s\<lparr>tq_q := q\<rparr>))"

text \<open>The statements after the wait loop, where the queue is not empty.\<close>

definition task_dequeue :: "task_queue \<Rightarrow> (nat \<times> task_queue) outcome" where
  "task_dequeue s = obind (take_head (tq_q s)) (\<lambda>(task, q). Done (task, s\<lparr>tq_q := q\<rparr>))"

definition free_task :: "task_queue \<Rightarrow> nat \<Rightarrow> task_queue outcome" where
  "free_task s t =
     (if tq_mem s t = None then Undef
      else Done (s\<lparr>tq_q := (tq_q s)\<lparr>hq_mem := (tq_mem s)(t := None)\<rparr>\<rparr>))"

definition task_fd :: "task_queue \<Rightarrow> nat \<Rightarrow> int outcome" where
  "task_fd s t = (case tq_mem s t of None \<Rightarrow> Undef | Some c \<Rightarrow> Done (c_item c))"

text \<open>The loop of \<^verbatim>\<open>queue_count\<close>; it would not end on a cyclic list.\<close>

partial_function (option) count_from :: "nat \<Rightarrow> task_queue \<Rightarrow> int \<Rightarrow> int outcome option" where
  "count_from task s count =
     (if task = 0 then Some (Done count)
      else case tq_mem s task of
        None \<Rightarrow> Some Undef
      | Some c \<Rightarrow> count_from (c_next c) s (count + 1))"

definition queue_count :: "task_queue \<Rightarrow> int outcome option" where
  "queue_count s = count_from (tq_head s) s 0"

section \<open>Well-formed queues\<close>

text \<open>The queue holds the tasks \<open>as\<close>; \<open>D\<close> are the allocated tasks that are not in the queue.\<close>

definition tq_holds :: "task_queue \<Rightarrow> nat list \<Rightarrow> nat set \<Rightarrow> bool" where
  "tq_holds s as D \<longleftrightarrow> holds (tq_q s) as \<and> set as \<inter> D = {} \<and> dom (tq_mem s) = set as \<union> D \<and>
     0 < tq_brk s \<and> (\<forall>a\<in>set as \<union> D. 0 < a \<and> a < tq_brk s)"

lemma tq_holds_init: "tq_holds init_queue [] {}"
  by (simp add: tq_holds_def init_queue_def holds_def)

lemma tq_holds_head: "tq_holds s as D \<Longrightarrow> tq_head s = 0 \<longleftrightarrow> as = []"
  by (auto simp: tq_holds_def holds_head)

lemma tq_holds_alloc: "tq_holds s as D \<Longrightarrow> tq_mem s a \<noteq> None \<longleftrightarrow> a \<in> set as \<union> D"
  by (auto simp: tq_holds_def dom_def)

lemma new_task_holds:
  assumes "tq_holds s as D" "new_task s fd = (t, s')"
  shows "tq_holds s' as (insert t D)" "t \<notin> set as \<union> D" "t \<noteq> 0" "tq_mem s' t = Some \<lparr>c_next = 0, c_item = fd\<rparr>"
    "t = tq_brk s" "tq_brk s' = Suc t" "a \<noteq> t \<Longrightarrow> tq_mem s' a = tq_mem s a"
proof -
  show t: "t = tq_brk s" "tq_brk s' = Suc t" "tq_mem s' t = Some \<lparr>c_next = 0, c_item = fd\<rparr>"
    "a \<noteq> t \<Longrightarrow> tq_mem s' a = tq_mem s a"
    using assms(2) by (auto simp: new_task_def Let_def)
  show n: "t \<notin> set as \<union> D" "t \<noteq> 0"
    using assms(1) t(1) by (auto simp: tq_holds_def)
  have q: "tq_q s' = (tq_q s)\<lparr>hq_mem := (tq_mem s)(t \<mapsto> \<lparr>c_next = 0, c_item = fd\<rparr>)\<rparr>"
    using assms(2) by (auto simp: new_task_def Let_def)
  have "holds (tq_q s') as"
    using holds_upd [of "tq_q s" as t] assms(1) n by (simp add: q tq_holds_def)
  then show "tq_holds s' as (insert t D)"
    using assms(1) n t by (auto simp: tq_holds_def q less_SucI)
qed

lemma task_enqueue_holds:
  assumes "tq_holds s as (insert t D)" "t \<notin> D" "tq_mem s t = Some c" "c_next c = 0"
  obtains s' where "task_enqueue s t = Done s'" "tq_holds s' (as @ [t]) D"
    "items_of (tq_mem s') as = items_of (tq_mem s) as" "\<And>a. a \<notin> set as \<Longrightarrow> tq_mem s' a = tq_mem s a"
    "tq_brk s' = tq_brk s"
proof -
  have w: "holds (tq_q s) as" "t \<noteq> 0" "t \<notin> set as"
    using assms(1) by (auto simp: tq_holds_def)
  obtain q where q: "link_tail (tq_q s) t = Done q" "holds q (as @ [t])"
      "items_of (hq_mem q) as = items_of (tq_mem s) as" "\<And>a. a \<notin> set as \<Longrightarrow> hq_mem q a = tq_mem s a"
    using link_tail_holds [OF w assms(3,4)] by metis
  have "hq_mem q a \<noteq> None \<longleftrightarrow> a \<in> set (as @ [t]) \<union> D" for a
    using q(4) [of a] tq_holds_alloc [OF assms(1), of a] holds_alloc [OF q(2), of a] by (cases "a \<in> set as") auto
  then have "dom (hq_mem q) = set (as @ [t]) \<union> D"
    by auto
  then have "tq_holds (s\<lparr>tq_q := q\<rparr>) (as @ [t]) D"
    using q(2) assms(1,2) by (auto simp: tq_holds_def)
  then show ?thesis
    using that [of "s\<lparr>tq_q := q\<rparr>"] q by (simp add: task_enqueue_def)
qed

lemma task_dequeue_holds:
  assumes "tq_holds s (a # as) D"
  obtains s' where "task_dequeue s = Done (a, s')" "tq_holds s' as (insert a D)" "tq_mem s' = tq_mem s"
    "tq_brk s' = tq_brk s"
proof -
  have w: "holds (tq_q s) (a # as)"
    using assms by (simp add: tq_holds_def)
  obtain q where q: "take_head (tq_q s) = Done (a, q)" "holds q as" "hq_mem q = tq_mem s"
    using take_head_holds [OF w] by blast
  have "a \<notin> set as"
    using w by (simp add: holds_def)
  then have "tq_holds (s\<lparr>tq_q := q\<rparr>) as (insert a D)"
    using q assms by (auto simp: tq_holds_def)
  then show ?thesis
    using that [of "s\<lparr>tq_q := q\<rparr>"] q by (simp add: task_dequeue_def)
qed

lemma free_task_holds:
  assumes "tq_holds s as (insert t D)" "t \<notin> D"
  obtains s' where "free_task s t = Done s'" "tq_holds s' as D" "tq_mem s' = (tq_mem s)(t := None)"
    "tq_brk s' = tq_brk s"
proof -
  let ?s = "s\<lparr>tq_q := (tq_q s)\<lparr>hq_mem := (tq_mem s)(t := None)\<rparr>\<rparr>"
  have w: "holds (tq_q s) as" "t \<notin> set as" "tq_mem s t \<noteq> None"
    using assms tq_holds_alloc [OF assms(1), of t] by (auto simp: tq_holds_def)
  have "tq_holds ?s as D"
    using holds_upd [OF w(1,2), of None] assms w(2) by (auto simp: tq_holds_def)
  then show ?thesis
    using that [of ?s] w(3) by (simp add: free_task_def)
qed

lemma count_from_chain:
  assumes "chain (tq_mem s) p as"
  shows "count_from p s n = Some (Done (n + int (length as)))"
  using assms
proof (induction as arbitrary: p n)
  case Nil
  then show ?case
    by (subst count_from.simps) simp
next
  case (Cons a as)
  obtain c where c: "p = a" "a \<noteq> 0" "tq_mem s a = Some c" "chain (tq_mem s) (c_next c) as"
    using Cons.prems by (rule chain_ConsE)
  then show ?case
    using Cons.IH [OF c(4), of "n + 1"] by (subst count_from.simps) simp
qed

lemma queue_count_holds: "tq_holds s as D \<Longrightarrow> queue_count s = Some (Done (int (length as)))"
  using count_from_chain [of s "tq_head s" as 0] by (simp add: queue_count_def tq_holds_def holds_def)

section \<open>The contract\<close>

definition tq_nodes :: "task_queue \<Rightarrow> nat list" where
  "tq_nodes s = walk (tq_brk s) (tq_mem s) (tq_head s)"

lemma tq_nodes_holds: "tq_holds s as D \<Longrightarrow> tq_nodes s = as"
  unfolding tq_nodes_def by (rule walk_holds) (auto simp: tq_holds_def)

definition tq_items :: "task_queue \<Rightarrow> int list" where
  "tq_items s = items_of (tq_mem s) (tq_nodes s)"

definition tq_ok :: "task_queue \<Rightarrow> bool" where
  "tq_ok s \<longleftrightarrow> (\<exists>as. tq_holds s as {})"

definition tq_push :: "task_queue \<Rightarrow> int \<Rightarrow> task_queue" where
  "tq_push s fd = (let (t, s') = new_task s fd in case task_enqueue s' t of Done s'' \<Rightarrow> s'' | _ \<Rightarrow> s')"

definition tq_pop :: "task_queue \<Rightarrow> (int \<times> task_queue) option" where
  "tq_pop s =
     (if tq_head s = 0 then None
      else case obind (task_dequeue s) (\<lambda>(t, s). obind (task_fd s t) (\<lambda>fd.
             obind (free_task s t) (\<lambda>s. Done (fd, s)))) of
        Done r \<Rightarrow> Some r | _ \<Rightarrow> None)"

lemma tq_push_holds:
  assumes "tq_holds s as {}"
  shows "\<exists>t. tq_holds (tq_push s fd) (as @ [t]) {} \<and> tq_items (tq_push s fd) = tq_items s @ [fd]"
proof -
  obtain t s1 where n: "new_task s fd = (t, s1)"
    by (cases "new_task s fd")
  note s1 = new_task_holds [OF assms n]
  have c: "c_next \<lparr>c_next = 0, c_item = fd\<rparr> = 0"
    by simp
  obtain s2 where s2: "task_enqueue s1 t = Done s2" "tq_holds s2 (as @ [t]) {}"
      "items_of (tq_mem s2) as = items_of (tq_mem s1) as" "\<And>a. a \<notin> set as \<Longrightarrow> tq_mem s2 a = tq_mem s1 a"
    by (rule task_enqueue_holds [OF s1(1) _ s1(4) c]) auto
  have "items_of (tq_mem s1) as = items_of (tq_mem s) as"
    unfolding items_of_def using s1(2) by (intro map_cong refl) (metis UnCI s1(7))
  then have "tq_items s2 = tq_items s @ [fd]"
    using s1(2,4) s2(3,4) by (simp add: tq_items_def tq_nodes_holds [OF s2(2)] tq_nodes_holds [OF assms])
  then show ?thesis
    using n s2(1,2) by (auto simp: tq_push_def)
qed

lemma tq_pop_holds:
  assumes "tq_holds s (a # as) {}"
  obtains s' where "tq_pop s = Some (c_item (the (tq_mem s a)), s')" "tq_holds s' as {}"
    "tq_items s = c_item (the (tq_mem s a)) # tq_items s'"
proof -
  obtain s1 where s1: "task_dequeue s = Done (a, s1)" "tq_holds s1 as {a}" "tq_mem s1 = tq_mem s"
    using task_dequeue_holds [OF assms] by blast
  obtain s2 where s2: "free_task s1 a = Done s2" "tq_holds s2 as {}" "tq_mem s2 = (tq_mem s1)(a := None)"
    using free_task_holds [OF s1(2)] by blast
  obtain c where c: "tq_mem s a = Some c"
    using tq_holds_alloc [OF assms, of a] by auto
  have "a \<notin> set as"
    using s1(2) by (auto simp: tq_holds_def)
  then have "tq_items s = c_item (the (tq_mem s a)) # tq_items s2"
    using s1(3) s2(3) items_upd [of a as "tq_mem s" None]
    by (simp add: tq_items_def tq_nodes_holds [OF assms] tq_nodes_holds [OF s2(2)])
  then show ?thesis
    using that [of s2] s1(1,3) s2(1,2) c tq_holds_head [OF assms] by (simp add: tq_pop_def task_fd_def)
qed

interpretation tqf: fifo tq_items tq_push tq_pop tq_ok
proof
  fix s :: task_queue and x y s'
  assume "tq_ok s"
  then obtain as where as: "tq_holds s as {}"
    by (auto simp: tq_ok_def)
  show "tq_ok (tq_push s x)" "tq_items (tq_push s x) = tq_items s @ [x]"
    using tq_push_holds [OF as, of x] by (auto simp: tq_ok_def)
  have empty: "tq_items s = []" "tq_pop s = None" if "as = []"
    using that as tq_holds_head [OF as] by (simp_all add: tq_items_def tq_nodes_holds [OF as] tq_pop_def)
  show "tq_pop s = None \<longleftrightarrow> tq_items s = []"
    using empty tq_pop_holds [of s] as by (cases as) (force)+
  show "tq_ok s' \<and> tq_items s = y # tq_items s'" if "tq_pop s = Some (y, s')"
    using that empty tq_pop_holds [of s] as by (cases as) (force simp: tq_ok_def)+
qed

end
