(* ===== verification/Server_Threads.thy ===== *)
theory Server_Threads
  imports Task_Queue
begin

text \<open>
  The threads of the Lab 3 server around the work queue: one listener (\<^verbatim>\<open>listen_thread\<close> of
  \<^verbatim>\<open>lab3-TheCarton-main/dbserver.c\<close>), the workers (\<^verbatim>\<open>worker\<close> of \<^verbatim>\<open>worker.c\<close>) and the control thread, whose \<^verbatim>\<open>stats\<close>
  command counts the queue.  The monitor of \<^verbatim>\<open>queue.c\<close> is modelled statement by statement: the mutex
  \<^verbatim>\<open>queue\<close>, the condition variable \<^verbatim>\<open>queue_non_empty\<close>, \<^verbatim>\<open>pthread_cond_wait\<close> that gives up the mutex
  and takes it again after a wake-up, \<^verbatim>\<open>pthread_cond_signal\<close> that wakes some waiting thread, and
  wake-ups without a signal, which POSIX allows.  Serving a connection (\<^verbatim>\<open>dispatch\<close>) is one step here, which reads the
  socket of the task and has no effect on the queue; what the handlers do with the store is in \<open>Db_Server\<close> and \<open>Kvstore\<close>,
  and their interleaving on the store is not modelled.
\<close>

section \<open>State\<close>

text \<open>Where the listener is: in \<^verbatim>\<open>accept\<close>; before \<^verbatim>\<open>pthread_mutex_lock\<close>, \<^verbatim>\<open>if (q->head ...)\<close>,
  \<^verbatim>\<open>pthread_cond_signal\<close> and \<^verbatim>\<open>pthread_mutex_unlock\<close> of \<^verbatim>\<open>enqueue\<close>.\<close>

datatype listener_pc = L_Accept | L_Lock nat | L_Link nat | L_Signal | L_Unlock

text \<open>A worker: before the lock of \<^verbatim>\<open>dequeue\<close>; at the test of the loop; blocked in
  \<^verbatim>\<open>pthread_cond_wait\<close>; woken, before it has the lock again; before the unlock, with its task; in
  \<^verbatim>\<open>dispatch\<close> and \<^verbatim>\<open>free\<close>.\<close>

datatype worker_pc = W_Lock | W_Test | W_Wait | W_Woken | W_Unlock nat | W_Run nat

text \<open>The control thread: outside \<^verbatim>\<open>queue_count\<close>; before its lock, its loop and its unlock.\<close>

datatype control_pc = C_Idle | C_Lock | C_Count | C_Unlock

datatype thread = Listener | Worker nat | Control

record server =
  sv_q :: task_queue
  sv_lock :: "thread option"
  sv_listen :: listener_pc
  sv_n :: nat
  sv_work :: "nat \<Rightarrow> worker_pc"
  sv_control :: control_pc
  sv_in :: "nat list"
  sv_out :: "nat list"

text \<open>The last two fields record the tasks that were linked and taken, in order.\<close>

definition init_server :: "nat \<Rightarrow> server" where
  "init_server n =
     \<lparr>sv_q = init_queue, sv_lock = None, sv_listen = L_Accept, sv_n = n, sv_work = (\<lambda>_. W_Lock),
      sv_control = C_Idle, sv_in = [], sv_out = []\<rparr>"

section \<open>Steps\<close>

text \<open>
  \<open>Outside\<close>: a connection arrives, the \<^verbatim>\<open>stats\<close> command is entered, a thread is woken without a signal.
  \<open>Inside\<close>: the next statement of a thread.
\<close>

datatype event = Outside | Inside

inductive step :: "event \<Rightarrow> server \<Rightarrow> server \<Rightarrow> bool" where
  accept: "sv_listen s = L_Accept \<Longrightarrow> new_task (sv_q s) fd = (t, q) \<Longrightarrow>
    step Outside s (s\<lparr>sv_q := q, sv_listen := L_Lock t\<rparr>)"
| l_lock: "sv_listen s = L_Lock t \<Longrightarrow> sv_lock s = None \<Longrightarrow>
    step Inside s (s\<lparr>sv_lock := Some Listener, sv_listen := L_Link t\<rparr>)"
| l_link: "sv_listen s = L_Link t \<Longrightarrow> task_enqueue (sv_q s) t = Done q \<Longrightarrow>
    step Inside s (s\<lparr>sv_q := q, sv_listen := L_Signal, sv_in := sv_in s @ [t]\<rparr>)"
| l_signal: "sv_listen s = L_Signal \<Longrightarrow> i < sv_n s \<Longrightarrow> sv_work s i = W_Wait \<Longrightarrow>
    step Inside s (s\<lparr>sv_listen := L_Unlock, sv_work := (sv_work s)(i := W_Woken)\<rparr>)"
| l_no_signal: "sv_listen s = L_Signal \<Longrightarrow> \<forall>i < sv_n s. sv_work s i \<noteq> W_Wait \<Longrightarrow>
    step Inside s (s\<lparr>sv_listen := L_Unlock\<rparr>)"
| l_unlock: "sv_listen s = L_Unlock \<Longrightarrow> step Inside s (s\<lparr>sv_lock := None, sv_listen := L_Accept\<rparr>)"
| w_lock: "i < sv_n s \<Longrightarrow> sv_work s i = W_Lock \<Longrightarrow> sv_lock s = None \<Longrightarrow>
    step Inside s (s\<lparr>sv_lock := Some (Worker i), sv_work := (sv_work s)(i := W_Test)\<rparr>)"
| w_wait: "i < sv_n s \<Longrightarrow> sv_work s i = W_Test \<Longrightarrow> tq_head (sv_q s) = 0 \<Longrightarrow>
    step Inside s (s\<lparr>sv_lock := None, sv_work := (sv_work s)(i := W_Wait)\<rparr>)"
| w_spurious: "i < sv_n s \<Longrightarrow> sv_work s i = W_Wait \<Longrightarrow>
    step Outside s (s\<lparr>sv_work := (sv_work s)(i := W_Woken)\<rparr>)"
| w_relock: "i < sv_n s \<Longrightarrow> sv_work s i = W_Woken \<Longrightarrow> sv_lock s = None \<Longrightarrow>
    step Inside s (s\<lparr>sv_lock := Some (Worker i), sv_work := (sv_work s)(i := W_Test)\<rparr>)"
| w_take: "i < sv_n s \<Longrightarrow> sv_work s i = W_Test \<Longrightarrow> tq_head (sv_q s) \<noteq> 0 \<Longrightarrow>
    task_dequeue (sv_q s) = Done (t, q) \<Longrightarrow>
    step Inside s (s\<lparr>sv_q := q, sv_work := (sv_work s)(i := W_Unlock t), sv_out := sv_out s @ [t]\<rparr>)"
| w_unlock: "i < sv_n s \<Longrightarrow> sv_work s i = W_Unlock t \<Longrightarrow>
    step Inside s (s\<lparr>sv_lock := None, sv_work := (sv_work s)(i := W_Run t)\<rparr>)"
| w_done: "i < sv_n s \<Longrightarrow> sv_work s i = W_Run t \<Longrightarrow> task_fd (sv_q s) t = Done fd \<Longrightarrow>
    free_task (sv_q s) t = Done q \<Longrightarrow>
    step Inside s (s\<lparr>sv_q := q, sv_work := (sv_work s)(i := W_Lock)\<rparr>)"
| c_stats: "sv_control s = C_Idle \<Longrightarrow> step Outside s (s\<lparr>sv_control := C_Lock\<rparr>)"
| c_lock: "sv_control s = C_Lock \<Longrightarrow> sv_lock s = None \<Longrightarrow>
    step Inside s (s\<lparr>sv_lock := Some Control, sv_control := C_Count\<rparr>)"
| c_count: "sv_control s = C_Count \<Longrightarrow> queue_count (sv_q s) = Some (Done n) \<Longrightarrow>
    step Inside s (s\<lparr>sv_control := C_Unlock\<rparr>)"
| c_unlock: "sv_control s = C_Unlock \<Longrightarrow> step Inside s (s\<lparr>sv_lock := None, sv_control := C_Idle\<rparr>)"

inductive_cases stepE [consumes 1, case_names accept l_lock l_link l_signal l_no_signal l_unlock w_lock w_wait
    w_spurious w_relock w_take w_unlock w_done c_stats c_lock c_count c_unlock]: "step e s s'"

inductive reachable :: "nat \<Rightarrow> server \<Rightarrow> bool" for n where
  start: "reachable n (init_server n)"
| next_state: "reachable n s \<Longrightarrow> step e s s' \<Longrightarrow> reachable n s'"

text \<open>
  The next statement of some thread has no defined effect on the tasks and the queue: a dangling pointer to a task, a loop
  over the queue that does not end, a task that is freed twice.
\<close>

definition faulty :: "server \<Rightarrow> bool" where
  "faulty s \<longleftrightarrow>
     (\<exists>t. sv_listen s = L_Link t \<and> (\<forall>q. task_enqueue (sv_q s) t \<noteq> Done q)) \<or>
     (\<exists>i < sv_n s. sv_work s i = W_Test \<and> tq_head (sv_q s) \<noteq> 0 \<and> (\<forall>r. task_dequeue (sv_q s) \<noteq> Done r)) \<or>
     (\<exists>i < sv_n s. \<exists>t. sv_work s i = W_Run t \<and>
        ((\<forall>fd. task_fd (sv_q s) t \<noteq> Done fd) \<or> (\<forall>q. free_task (sv_q s) t \<noteq> Done q))) \<or>
     (sv_control s = C_Count \<and> (\<forall>n. queue_count (sv_q s) \<noteq> Some (Done n)))"

section \<open>The invariant\<close>

fun l_holds :: "listener_pc \<Rightarrow> bool" where
  "l_holds (L_Link t) = True" | "l_holds L_Signal = True" | "l_holds L_Unlock = True" | "l_holds _ = False"

fun w_holds :: "worker_pc \<Rightarrow> bool" where
  "w_holds W_Test = True" | "w_holds (W_Unlock t) = True" | "w_holds _ = False"

fun c_holds :: "control_pc \<Rightarrow> bool" where
  "c_holds C_Count = True" | "c_holds C_Unlock = True" | "c_holds _ = False"

text \<open>The thread is between the lock and the unlock of the queue's mutex.\<close>

fun in_monitor :: "server \<Rightarrow> thread \<Rightarrow> bool" where
  "in_monitor s Listener = l_holds (sv_listen s)"
| "in_monitor s (Worker i) = (i < sv_n s \<and> w_holds (sv_work s i))"
| "in_monitor s Control = c_holds (sv_control s)"

text \<open>The thread has a pointer to the task, which is not in the queue.\<close>

fun has_task :: "server \<Rightarrow> thread \<Rightarrow> nat \<Rightarrow> bool" where
  "has_task s Listener t = (sv_listen s = L_Lock t \<or> sv_listen s = L_Link t)"
| "has_task s (Worker i) t = (i < sv_n s \<and> (sv_work s i = W_Unlock t \<or> sv_work s i = W_Run t))"
| "has_task s Control t = False"

definition lock_inv :: "server \<Rightarrow> bool" where
  "lock_inv s \<longleftrightarrow> (\<forall>x. in_monitor s x \<longleftrightarrow> sv_lock s = Some x)"

definition task_inv :: "server \<Rightarrow> nat list \<Rightarrow> bool" where
  "task_inv s as \<longleftrightarrow> tq_holds (sv_q s) as {t. \<exists>x. has_task s x t} \<and>
     (\<forall>x y t. has_task s x t \<longrightarrow> has_task s y t \<longrightarrow> x = y) \<and>
     (\<forall>t c. has_task s Listener t \<longrightarrow> tq_mem (sv_q s) t = Some c \<longrightarrow> c_next c = 0)"

text \<open>Tasks leave the queue in the order they entered it, each once.\<close>

definition order_inv :: "server \<Rightarrow> nat list \<Rightarrow> bool" where
  "order_inv s as \<longleftrightarrow> sv_in s = sv_out s @ as \<and> distinct (sv_in s) \<and>
     (\<forall>t\<in>set (sv_in s). t < tq_brk (sv_q s)) \<and> (\<forall>t. has_task s Listener t \<longrightarrow> t \<notin> set (sv_in s)) \<and>
     (\<forall>i t. has_task s (Worker i) t \<longrightarrow> t \<in> set (sv_out s))"

text \<open>No wake-up is lost: with a task in the queue, some worker is not waiting, or a signal is to come.\<close>

definition wake_inv :: "server \<Rightarrow> nat list \<Rightarrow> bool" where
  "wake_inv s as \<longleftrightarrow> as \<noteq> [] \<longrightarrow> 0 < sv_n s \<longrightarrow>
     (\<exists>i < sv_n s. sv_work s i \<noteq> W_Wait) \<or> sv_listen s = L_Signal"

lemma all_thread: "(\<forall>x. P x) \<longleftrightarrow> P Listener \<and> (\<forall>i. P (Worker i)) \<and> P Control"
  by (metis thread.exhaust)

lemma lock_step:
  assumes "step e s s'" "lock_inv s"
  shows "lock_inv s'"
  unfolding lock_inv_def
proof
  fix x
  have inv: "in_monitor s y \<longleftrightarrow> sv_lock s = Some y" for y
    using assms(2) by (simp add: lock_inv_def)
  note facts = inv [of x] inv [of Listener] inv [of Control]
  show "in_monitor s' x \<longleftrightarrow> sv_lock s' = Some x"
    using assms(1)
  proof (cases rule: stepE)
    case (w_lock i)
    then show ?thesis
      using facts inv [of "Worker i"] by (cases x) auto
  next
    case (w_wait i)
    then show ?thesis
      using facts inv [of "Worker i"] by (cases x) auto
  next
    case (w_spurious i)
    then show ?thesis
      using facts inv [of "Worker i"] by (cases x) auto
  next
    case (w_relock i)
    then show ?thesis
      using facts inv [of "Worker i"] by (cases x) auto
  next
    case (w_take i t q)
    then show ?thesis
      using facts inv [of "Worker i"] by (cases x) auto
  next
    case (w_unlock i t)
    then show ?thesis
      using facts inv [of "Worker i"] by (cases x) auto
  next
    case (w_done i t fd q)
    then show ?thesis
      using facts inv [of "Worker i"] by (cases x) auto
  next
    case (l_signal i)
    then show ?thesis
      using facts inv [of "Worker i"] by (cases x) auto
  qed (use facts in \<open>(cases x; auto)+\<close>)
qed

text \<open>Most steps change neither the queue nor which thread has which task.\<close>

lemma has_task_eqI:
  assumes "\<And>t. has_task s' Listener t = has_task s Listener t" "\<And>i t. has_task s' (Worker i) t = has_task s (Worker i) t"
  shows "has_task s' = has_task s"
proof (intro ext)
  fix x t
  show "has_task s' x t = has_task s x t"
    using assms by (cases x) (simp_all del: has_task.simps(1,2))
qed

definition quiet :: "server \<Rightarrow> server \<Rightarrow> bool" where
  "quiet s s' \<longleftrightarrow> sv_q s' = sv_q s \<and> has_task s' = has_task s \<and> sv_in s' = sv_in s \<and> sv_out s' = sv_out s"

lemma quiet_inv: "quiet s s' \<Longrightarrow> task_inv s as \<Longrightarrow> order_inv s as \<Longrightarrow> task_inv s' as \<and> order_inv s' as"
proof -
  assume q: "quiet s s'" and inv: "task_inv s as" "order_inv s as"
  have eq: "sv_q s' = sv_q s" "has_task s' = has_task s" "sv_in s' = sv_in s" "sv_out s' = sv_out s"
    using q by (simp_all add: quiet_def)
  show ?thesis
    using inv unfolding task_inv_def order_inv_def eq by blast
qed

lemma step_cases [consumes 1, case_names quiet accept link take finish]:
  assumes "step e s s'"
  obtains "quiet s s'"
  | fd t q where "e = Outside" "sv_listen s = L_Accept" "new_task (sv_q s) fd = (t, q)" "s' = s\<lparr>sv_q := q, sv_listen := L_Lock t\<rparr>"
  | t q where "sv_listen s = L_Link t" "task_enqueue (sv_q s) t = Done q"
      "s' = s\<lparr>sv_q := q, sv_listen := L_Signal, sv_in := sv_in s @ [t]\<rparr>"
  | i t q where "i < sv_n s" "sv_work s i = W_Test" "tq_head (sv_q s) \<noteq> 0" "task_dequeue (sv_q s) = Done (t, q)"
      "s' = s\<lparr>sv_q := q, sv_work := (sv_work s)(i := W_Unlock t), sv_out := sv_out s @ [t]\<rparr>"
  | i t fd q where "i < sv_n s" "sv_work s i = W_Run t" "task_fd (sv_q s) t = Done fd" "free_task (sv_q s) t = Done q"
      "s' = s\<lparr>sv_q := q, sv_work := (sv_work s)(i := W_Lock)\<rparr>"
proof -
  have q: "quiet s s'" if "sv_q s' = sv_q s" "sv_in s' = sv_in s" "sv_out s' = sv_out s"
    "\<And>t. has_task s' Listener t = has_task s Listener t" "\<And>i t. has_task s' (Worker i) t = has_task s (Worker i) t"
    using that(1-3) has_task_eqI [OF that(4,5)] unfolding quiet_def by blast
  show ?thesis
    using assms
  proof (cases rule: stepE)
    case accept
    then show ?thesis by (intro that(2))
  next
    case l_link
    then show ?thesis by (intro that(3))
  next
    case w_take
    then show ?thesis by (intro that(4)) auto
  next
    case w_done
    then show ?thesis by (intro that(5))
  qed (rule that(1), rule q, auto split: if_splits)+
qed

text \<open>The tasks in the hands of threads, when one thread gets a task or gives one up.\<close>

definition held :: "server \<Rightarrow> nat set" where
  "held s = {t. \<exists>x. has_task s x t}"

definition one_holder :: "server \<Rightarrow> bool" where
  "one_holder s \<longleftrightarrow> (\<forall>x y t. has_task s x t \<longrightarrow> has_task s y t \<longrightarrow> x = y)"

lemma held_get:
  assumes "\<And>x u. has_task s' x u \<longleftrightarrow> has_task s x u \<or> x = z \<and> u = t" "one_holder s" "t \<notin> held s"
  shows "held s' = insert t (held s)" "one_holder s'"
  using assms unfolding held_def one_holder_def by auto

lemma held_give:
  assumes "\<And>x u. has_task s' x u \<longleftrightarrow> has_task s x u \<and> x \<noteq> z" "one_holder s" "\<And>u. has_task s z u \<longleftrightarrow> u = t"
  shows "held s = insert t (held s')" "t \<notin> held s'" "one_holder s'"
  using assms unfolding held_def one_holder_def by blast+

lemma task_invD:
  assumes "task_inv s as"
  shows "tq_holds (sv_q s) as (held s)" "one_holder s"
    "has_task s Listener t \<Longrightarrow> tq_mem (sv_q s) t = Some c \<Longrightarrow> c_next c = 0"
  using assms unfolding task_inv_def held_def one_holder_def by blast+

lemma task_invI:
  assumes "tq_holds (sv_q s) as (held s)" "one_holder s"
    "\<And>t c. has_task s Listener t \<Longrightarrow> tq_mem (sv_q s) t = Some c \<Longrightarrow> c_next c = 0"
  shows "task_inv s as"
  using assms unfolding task_inv_def held_def one_holder_def by blast

lemma accept_inv:
  assumes "task_inv s as" "order_inv s as" "sv_listen s = L_Accept" "new_task (sv_q s) fd = (t, q)"
    "s' = s\<lparr>sv_q := q, sv_listen := L_Lock t\<rparr>"
  shows "task_inv s' as \<and> order_inv s' as"
proof -
  note w = task_invD [OF assms(1)]
  note n = new_task_holds [OF w(1) assms(4)]
  have h: "has_task s' x u \<longleftrightarrow> has_task s x u \<or> x = Listener \<and> u = t" for x u
    using assms(3,5) by (cases x) auto
  have "task_inv s' as"
  proof (rule task_invI)
    show "tq_holds (sv_q s') as (held s')" "one_holder s'"
      using n(1,2) held_get [OF h w(2)] assms(5) by auto
    show "c_next c = 0" if "has_task s' Listener u" "tq_mem (sv_q s') u = Some c" for u c
      using that n(4) assms(5) by simp
  qed
  moreover have "order_inv s' as"
    using assms(2,3,5) n(5,6) unfolding order_inv_def by (auto simp: less_Suc_eq)
  ultimately show ?thesis ..
qed

lemma link_inv:
  assumes "task_inv s as" "order_inv s as" "sv_listen s = L_Link t" "task_enqueue (sv_q s) t = Done q"
    "s' = s\<lparr>sv_q := q, sv_listen := L_Signal, sv_in := sv_in s @ [t]\<rparr>"
  shows "task_inv s' (as @ [t]) \<and> order_inv s' (as @ [t])"
proof -
  note w = task_invD [OF assms(1)]
  have h: "has_task s' x u \<longleftrightarrow> has_task s x u \<and> x \<noteq> Listener" "has_task s Listener u \<longleftrightarrow> u = t" for x u
    using assms(3,5) by (cases x; auto)+
  note d = held_give [OF h(1) w(2) h(2)]
  obtain c where c: "tq_mem (sv_q s) t = Some c"
    using tq_holds_alloc [OF w(1), of t] d(1) by auto
  have "tq_holds (sv_q s) as (insert t (held s'))"
    using w(1) d(1) by simp
  then obtain q' where q': "task_enqueue (sv_q s) t = Done q'" "tq_holds q' (as @ [t]) (held s')" "tq_brk q' = tq_brk (sv_q s)"
    using task_enqueue_holds [OF _ d(2) c] w(3) [OF _ c] h(2) by blast
  then have q: "tq_holds q (as @ [t]) (held s')" "tq_brk q = tq_brk (sv_q s)"
    using assms(4) by simp_all
  have "task_inv s' (as @ [t])"
    by (rule task_invI) (use q d(3) assms(5) in auto)
  moreover have "t < tq_brk (sv_q s)"
    using w(1) d(1) by (simp add: tq_holds_def)
  then have "order_inv s' (as @ [t])"
    using assms(2,3,5) q(2) unfolding order_inv_def by auto
  ultimately show ?thesis ..
qed

lemma take_inv:
  assumes "task_inv s as" "order_inv s as" "i < sv_n s" "sv_work s i = W_Test" "tq_head (sv_q s) \<noteq> 0"
    "task_dequeue (sv_q s) = Done (t, q)"
    "s' = s\<lparr>sv_q := q, sv_work := (sv_work s)(i := W_Unlock t), sv_out := sv_out s @ [t]\<rparr>"
  shows "as = t # tl as \<and> task_inv s' (tl as) \<and> order_inv s' (tl as)"
proof -
  note w = task_invD [OF assms(1)]
  obtain a bs where as: "as = a # bs"
    using tq_holds_head [OF w(1)] assms(5) by (cases as) auto
  obtain q' where "task_dequeue (sv_q s) = Done (a, q')" "tq_holds q' bs (insert a (held s))"
      "tq_mem q' = tq_mem (sv_q s)" "tq_brk q' = tq_brk (sv_q s)"
    using task_dequeue_holds [of "sv_q s" a bs "held s"] w(1) as by blast
  then have q: "t = a" "tq_holds q bs (insert t (held s))" "tq_mem q = tq_mem (sv_q s)" "tq_brk q = tq_brk (sv_q s)"
    using assms(6) by auto
  have h: "has_task s' x u \<longleftrightarrow> has_task s x u \<or> x = Worker i \<and> u = t" for x u
    using assms(3,4,7) by (cases x) auto
  have "t \<notin> held s"
    using w(1) as q(1) by (simp add: tq_holds_def)
  note d = held_get [OF h w(2) this]
  have "task_inv s' bs"
  proof (rule task_invI)
    show "tq_holds (sv_q s') bs (held s')" "one_holder s'"
      using q d assms(7) by simp_all
    show "c_next c = 0" if "has_task s' Listener u" "tq_mem (sv_q s') u = Some c" for u c
      using w(3) [of u c] that h [of Listener u] q(3) assms(7) by simp
  qed
  moreover have "order_inv s' bs"
    using assms(2-4,7) q(1,4) as unfolding order_inv_def by auto
  ultimately show ?thesis
    using as q(1) by simp
qed

lemma finish_inv:
  assumes "task_inv s as" "order_inv s as" "i < sv_n s" "sv_work s i = W_Run t" "free_task (sv_q s) t = Done q"
    "s' = s\<lparr>sv_q := q, sv_work := (sv_work s)(i := W_Lock)\<rparr>"
  shows "task_inv s' as \<and> order_inv s' as"
proof -
  note w = task_invD [OF assms(1)]
  have h: "has_task s' x u \<longleftrightarrow> has_task s x u \<and> x \<noteq> Worker i" "has_task s (Worker i) u \<longleftrightarrow> u = t" for x u
    using assms(3,4,6) by (cases x; auto)+
  note d = held_give [OF h(1) w(2) h(2)]
  have "tq_holds (sv_q s) as (insert t (held s'))"
    using w(1) d(1) by simp
  then obtain q' where "free_task (sv_q s) t = Done q'" "tq_holds q' as (held s')"
      "tq_mem q' = (tq_mem (sv_q s))(t := None)" "tq_brk q' = tq_brk (sv_q s)"
    using free_task_holds d(2) by blast
  then have q: "tq_holds q as (held s')" "tq_mem q = (tq_mem (sv_q s))(t := None)" "tq_brk q = tq_brk (sv_q s)"
    using assms(5) by auto
  have "task_inv s' as"
  proof (rule task_invI)
    show "tq_holds (sv_q s') as (held s')" "one_holder s'"
      using q d assms(6) by simp_all
    show "c_next c = 0" if "has_task s' Listener u" "tq_mem (sv_q s') u = Some c" for u c
      using w(3) [of u c] that h(1) [of Listener u] q(2) assms(6) by (simp split: if_splits)
  qed
  moreover have "order_inv s' as"
    using assms(2,6) q(3) unfolding order_inv_def by auto
  ultimately show ?thesis ..
qed

lemma wake_step:
  assumes "step e s s'" "wake_inv s as" "tq_head (sv_q s) = 0 \<Longrightarrow> as = []"
    "as' \<noteq> [] \<Longrightarrow> as \<noteq> [] \<or> sv_listen s' = L_Signal"
  shows "wake_inv s' as'"
proof -
  have w: "(\<exists>i. i < sv_n s \<and> sv_work s i \<noteq> W_Wait) \<or> sv_listen s = L_Signal" if "as \<noteq> []" "0 < sv_n s"
    using assms(2) that by (auto simp: wake_inv_def)
  have goal: "wake_inv s' as'" if "sv_n s' = sv_n s" "0 < sv_n s \<Longrightarrow> as \<noteq> [] \<Longrightarrow>
      (\<exists>i. i < sv_n s \<and> sv_work s' i \<noteq> W_Wait) \<or> sv_listen s' = L_Signal"
    using that assms(4) by (auto simp: wake_inv_def)
  have moved: "wake_inv s' as'" if "sv_n s' = sv_n s" "i < sv_n s" "sv_work s' i \<noteq> W_Wait" for i
    using that by (intro goal) auto
  show ?thesis
    using assms(1)
  proof (cases rule: stepE)
    case (l_no_signal)
    then show ?thesis
      by (intro goal) auto
  next
    case (w_wait i)
    then show ?thesis
      using assms(3) by (intro goal) simp_all
  next
    case (l_link t q)
    then show ?thesis
      by (simp add: wake_inv_def)
  next
    case (l_signal i)
    then show ?thesis
      by (intro moved [of i]) simp_all
  next
    case (w_lock i)
    then show ?thesis
      by (intro moved [of i]) simp_all
  next
    case (w_spurious i)
    then show ?thesis
      by (intro moved [of i]) simp_all
  next
    case (w_relock i)
    then show ?thesis
      by (intro moved [of i]) simp_all
  next
    case (w_take i t q)
    then show ?thesis
      by (intro moved [of i]) simp_all
  next
    case (w_unlock i t)
    then show ?thesis
      by (intro moved [of i]) simp_all
  next
    case (w_done i t fd q)
    then show ?thesis
      by (intro moved [of i]) simp_all
  qed ((rule goal, simp, use w in simp))+
qed

section \<open>Reachable states\<close>

definition server_inv :: "server \<Rightarrow> bool" where
  "server_inv s \<longleftrightarrow> lock_inv s \<and> (\<exists>as. task_inv s as \<and> order_inv s as \<and> wake_inv s as)"

lemma server_inv_init: "server_inv (init_server n)"
proof -
  have h: "\<not> has_task (init_server n) x t" "\<not> in_monitor (init_server n) x" for x t
    by (cases x; simp add: init_server_def)+
  then have "held (init_server n) = {}" "one_holder (init_server n)" "lock_inv (init_server n)"
    by (simp_all add: held_def one_holder_def lock_inv_def init_server_def)
  moreover have "task_inv (init_server n) []"
    using calculation tq_holds_init h by (intro task_invI) (simp_all add: init_server_def)
  moreover have "order_inv (init_server n) []" "wake_inv (init_server n) []"
    by (auto simp: order_inv_def wake_inv_def init_server_def)
  ultimately show ?thesis
    unfolding server_inv_def by blast
qed

lemma server_inv_step:
  assumes "step e s s'" "server_inv s"
  shows "server_inv s'"
proof -
  obtain as where inv: "task_inv s as" "order_inv s as" "wake_inv s as" and lock: "lock_inv s"
    using assms(2) unfolding server_inv_def by blast
  have head: "tq_head (sv_q s) = 0 \<Longrightarrow> as = []"
    using tq_holds_head [OF task_invD(1) [OF inv(1)]] by simp
  note wake = wake_step [OF assms(1) inv(3) head]
  have "\<exists>as'. task_inv s' as' \<and> order_inv s' as' \<and> wake_inv s' as'"
    using assms(1)
  proof (cases rule: step_cases)
    case quiet
    then show ?thesis
      using quiet_inv [OF _ inv(1,2)] wake by blast
  next
    case (accept fd t q)
    then show ?thesis
      using accept_inv [OF inv(1,2) accept(2-4)] wake by blast
  next
    case (link t q)
    then have "wake_inv s' (as @ [t])"
      by (intro wake) simp_all
    then show ?thesis
      using link_inv [OF inv(1,2) link] by blast
  next
    case (take i t q)
    note t = take_inv [OF inv(1,2) take]
    have "wake_inv s' (tl as)"
      by (rule wake) (use t in auto)
    then show ?thesis
      using t by blast
  next
    case (finish i t fd q)
    then show ?thesis
      using finish_inv [OF inv(1,2) finish(1,2,4,5)] wake by blast
  qed
  then show ?thesis
    using lock_step [OF assms(1) lock] unfolding server_inv_def by blast
qed

lemma reachable_inv: "reachable n s \<Longrightarrow> server_inv s"
  by (induction rule: reachable.induct) (auto intro: server_inv_init server_inv_step)

lemma step_n: "step e s s' \<Longrightarrow> sv_n s' = sv_n s"
  by (cases rule: step.cases) auto

lemma reachable_n: "reachable n s \<Longrightarrow> sv_n s = n"
  by (induction rule: reachable.induct) (auto simp: init_server_def step_n)

section \<open>No defined step is missing\<close>

lemma server_inv_tasks:
  assumes "server_inv s"
  shows "task_inv s (tq_nodes (sv_q s))" "order_inv s (tq_nodes (sv_q s))" "wake_inv s (tq_nodes (sv_q s))"
    "tq_holds (sv_q s) (tq_nodes (sv_q s)) (held s)" "in_monitor s x \<longleftrightarrow> sv_lock s = Some x" "one_holder s"
proof -
  obtain as where as: "task_inv s as" "order_inv s as" "wake_inv s as"
    using assms unfolding server_inv_def by blast
  have "tq_nodes (sv_q s) = as"
    using tq_nodes_holds [OF task_invD(1) [OF as(1)]] .
  then show "task_inv s (tq_nodes (sv_q s))" "order_inv s (tq_nodes (sv_q s))" "wake_inv s (tq_nodes (sv_q s))"
    "tq_holds (sv_q s) (tq_nodes (sv_q s)) (held s)" "one_holder s"
    using as task_invD(1,2) [OF as(1)] by simp_all
  show "in_monitor s x \<longleftrightarrow> sv_lock s = Some x"
    using assms unfolding server_inv_def lock_inv_def by blast
qed

lemma inv_task_ops:
  assumes "server_inv s"
  shows "sv_listen s = L_Link t \<Longrightarrow> \<exists>q. task_enqueue (sv_q s) t = Done q"
    "tq_head (sv_q s) \<noteq> 0 \<Longrightarrow> \<exists>t q. task_dequeue (sv_q s) = Done (t, q)"
    "i < sv_n s \<Longrightarrow> sv_work s i = W_Run t \<Longrightarrow>
       \<exists>fd q. task_fd (sv_q s) t = Done fd \<and> free_task (sv_q s) t = Done q"
    "\<exists>k. queue_count (sv_q s) = Some (Done k)"
proof -
  note w = server_inv_tasks [OF assms]
  have alloc: "\<exists>c. tq_mem (sv_q s) u = Some c" if "has_task s x u" for x u
    using tq_holds_alloc [OF w(4), of u] that by (auto simp: held_def)
  show "\<exists>q. task_enqueue (sv_q s) t = Done q" if l: "sv_listen s = L_Link t"
  proof -
    have t: "has_task s Listener t"
      using l by simp
    obtain c where c: "tq_mem (sv_q s) t = Some c" "c_next c = 0"
      using alloc [OF t] task_invD(3) [OF w(1) t] by blast
    have "tq_holds (sv_q s) (tq_nodes (sv_q s)) (insert t (held s - {t}))"
    proof -
      have "t \<in> held s"
        using t unfolding held_def by blast
      then show ?thesis
        using w(4) by (simp add: insert_absorb)
    qed
    then show ?thesis
      using task_enqueue_holds [OF _ _ c] by (metis DiffD2 singletonI)
  qed
  show "\<exists>t q. task_dequeue (sv_q s) = Done (t, q)" if "tq_head (sv_q s) \<noteq> 0"
    using tq_holds_head [OF w(4)] that w(4) task_dequeue_holds [of "sv_q s"] by (cases "tq_nodes (sv_q s)") (simp, metis)
  show "\<exists>fd q. task_fd (sv_q s) t = Done fd \<and> free_task (sv_q s) t = Done q" if "i < sv_n s" "sv_work s i = W_Run t"
    using alloc [of "Worker i" t] that by (auto simp: task_fd_def free_task_def)
  show "\<exists>k. queue_count (sv_q s) = Some (Done k)"
    using queue_count_holds [OF w(4)] by blast
qed

lemma not_faulty: "server_inv s \<Longrightarrow> \<not> faulty s"
  unfolding faulty_def using inv_task_ops [of s] by fastforce

section \<open>Progress\<close>

fun l_rank :: "listener_pc \<Rightarrow> nat" where
  "l_rank L_Accept = 0" | "l_rank L_Unlock = 1" | "l_rank L_Signal = 4" | "l_rank (L_Link t) = 9" | "l_rank (L_Lock t) = 10"

fun w_rank :: "worker_pc \<Rightarrow> nat" where
  "w_rank W_Wait = 0" | "w_rank W_Test = 1" | "w_rank W_Lock = 2" | "w_rank W_Woken = 2" | "w_rank (W_Run t) = 3"
| "w_rank (W_Unlock t) = 4"

fun c_rank :: "control_pc \<Rightarrow> nat" where
  "c_rank C_Idle = 0" | "c_rank C_Unlock = 1" | "c_rank C_Count = 2" | "c_rank C_Lock = 3"

definition work_left :: "server \<Rightarrow> nat" where
  "work_left s = 4 * length (tq_nodes (sv_q s)) + (\<Sum>i\<in>{..< sv_n s}. w_rank (sv_work s i)) +
     l_rank (sv_listen s) + c_rank (sv_control s)"

lemma sum_upd:
  fixes f :: "nat \<Rightarrow> worker_pc"
  assumes "i < n"
  shows "(\<Sum>j<n. w_rank ((f(i := v)) j)) + w_rank (f i) = (\<Sum>j<n. w_rank (f j)) + w_rank v"
proof -
  have split: "(\<Sum>j<n. w_rank (g j)) = w_rank (g i) + (\<Sum>j\<in>{..<n} - {i}. w_rank (g j))" for g :: "nat \<Rightarrow> worker_pc"
    using assms by (simp add: sum.remove)
  have "(\<Sum>j\<in>{..<n} - {i}. w_rank ((f(i := v)) j)) = (\<Sum>j\<in>{..<n} - {i}. w_rank (f j))"
    by (rule sum.cong) auto
  then show ?thesis
    unfolding split [of f] split [of "f(i := v)"] by (simp only: fun_upd_same)
qed

text \<open>Every statement of a thread uses up work, and work runs out only at rest.\<close>

lemma inside_decreases:
  assumes "step Inside s s'" "server_inv s"
  shows "work_left s' < work_left s"
proof -
  note w = server_inv_tasks [OF assms(2)]
  have n: "sv_n s' = sv_n s"
    using step_n [OF assms(1)] .
  have upd: "(\<Sum>j\<in>{..< sv_n s}. w_rank (((sv_work s)(i := v)) j)) + w_rank (sv_work s i) =
      (\<Sum>j\<in>{..< sv_n s}. w_rank (sv_work s j)) + w_rank v" if "i < sv_n s" for i v
    using sum_upd [OF that] .
  show ?thesis
    using assms(1)
  proof (cases rule: stepE)
    case (l_link t q)
    have "task_inv s' (tq_nodes (sv_q s) @ [t])"
      using link_inv [OF w(1,2) l_link(3,4,2)] by blast
    then have "tq_nodes (sv_q s') = tq_nodes (sv_q s) @ [t]"
      using tq_nodes_holds task_invD(1) by blast
    then show ?thesis
      using l_link by (simp add: work_left_def)
  next
    case (w_take i t q)
    have h: "tq_head (sv_q s) \<noteq> 0"
      using w_take(5) by simp
    have t: "tq_nodes (sv_q s) = t # tl (tq_nodes (sv_q s))" "task_inv s' (tl (tq_nodes (sv_q s)))"
      using take_inv [OF w(1,2) w_take(3,4) h w_take(6,2)] by blast+
    have "tq_nodes (sv_q s') = tl (tq_nodes (sv_q s))"
      using tq_nodes_holds [OF task_invD(1) [OF t(2)]] .
    moreover have "length (tq_nodes (sv_q s)) = Suc (length (tl (tq_nodes (sv_q s))))"
      using t(1) by (metis length_Cons)
    ultimately show ?thesis
      using w_take upd [OF w_take(3), of "W_Unlock t"] by (simp add: work_left_def)
  next
    case (w_done i t fd q)
    have "task_inv s' (tq_nodes (sv_q s))"
      using finish_inv [OF w(1,2) w_done(3,4,6,2)] by blast
    then have "tq_nodes (sv_q s') = tq_nodes (sv_q s)"
      using tq_nodes_holds task_invD(1) by blast
    then show ?thesis
      using w_done upd [OF w_done(3), of W_Lock] by (simp add: work_left_def)
  next
    case (l_signal i)
    then show ?thesis
      using upd [OF l_signal(4), of W_Woken] by (simp add: work_left_def)
  next
    case (w_lock i)
    then show ?thesis
      using upd [OF w_lock(3), of W_Test] by (simp add: work_left_def)
  next
    case (w_wait i)
    then show ?thesis
      using upd [OF w_wait(3), of W_Wait] by (simp add: work_left_def)
  next
    case (w_relock i)
    then show ?thesis
      using upd [OF w_relock(3), of W_Test] by (simp add: work_left_def)
  next
    case (w_unlock i t)
    then show ?thesis
      using upd [OF w_unlock(3), of "W_Run t"] by (simp add: work_left_def)
  qed (simp_all add: work_left_def)
qed

text \<open>Nothing to do: no task is left in memory, all workers wait.\<close>

definition at_rest :: "server \<Rightarrow> bool" where
  "at_rest s \<longleftrightarrow> sv_lock s = None \<and> sv_listen s = L_Accept \<and> sv_control s = C_Idle \<and>
     (\<forall>i. i < sv_n s \<longrightarrow> sv_work s i = W_Wait) \<and> tq_mem (sv_q s) = Map.empty \<and> sv_out s = sv_in s"

lemma monitor_moves:
  assumes "server_inv s" "in_monitor s x"
  shows "\<exists>s'. step Inside s s'"
proof (cases x)
  case Listener
  then have "l_holds (sv_listen s)"
    using assms(2) by simp
  then show ?thesis
  proof (cases "sv_listen s")
    case (L_Link t)
    then show ?thesis
      using inv_task_ops(1) [OF assms(1) L_Link] step.l_link [OF L_Link] by blast
  next
    case L_Signal
    then show ?thesis
      using step.l_signal [OF L_Signal] step.l_no_signal [OF L_Signal] by blast
  next
    case L_Unlock
    then show ?thesis
      using step.l_unlock by blast
  qed simp_all
next
  case (Worker i)
  then have i: "i < sv_n s" and h: "w_holds (sv_work s i)"
    using assms(2) by auto
  from h show ?thesis
  proof (cases "sv_work s i")
    case W_Test
    show ?thesis
      using inv_task_ops(2) [OF assms(1)] step.w_wait [OF i W_Test] step.w_take [OF i W_Test] by blast
  next
    case (W_Unlock t)
    show ?thesis
      using step.w_unlock [OF i W_Unlock] by blast
  qed simp_all
next
  case Control
  then have "c_holds (sv_control s)"
    using assms(2) by simp
  then show ?thesis
    using inv_task_ops(4) [OF assms(1)] step.c_count [of s] step.c_unlock [of s]
    by (cases "sv_control s") (simp_all, blast+)
qed

lemma rest_or_step:
  assumes "server_inv s" "0 < sv_n s" "\<And>s'. \<not> step Inside s s'"
  shows "at_rest s"
proof -
  note w = server_inv_tasks [OF assms(1)]
  have lock: "sv_lock s = None"
    using monitor_moves [OF assms(1)] w(5) assms(3) by (cases "sv_lock s") blast+
  have c: "sv_control s = C_Idle"
    using lock w(5) [of Control] assms(3) step.c_lock [of s] by (cases "sv_control s") auto
  have l: "sv_listen s = L_Accept"
    using lock w(5) [of Listener] assms(3) step.l_lock [of s] by (cases "sv_listen s") auto
  have work: "sv_work s i = W_Wait" if "i < sv_n s" for i
  proof (cases "sv_work s i")
    case (W_Run t)
    then show ?thesis
      using step.w_done [OF that W_Run] inv_task_ops(3) [OF assms(1) that W_Run] assms(3) by blast
  qed (use that lock w(5) [of "Worker i"] assms(3) step.w_lock [OF that _ lock] step.w_relock [OF that _ lock]
    in simp_all)
  then have nodes: "tq_nodes (sv_q s) = []"
    using w(3) assms(2) l by (auto simp: wake_inv_def)
  have "\<not> has_task s x t" for x t
    using l work by (cases x) auto
  then have "dom (tq_mem (sv_q s)) = {}"
    using w(4) nodes by (simp add: tq_holds_def held_def)
  moreover have "sv_out s = sv_in s"
    using w(2) nodes by (simp add: order_inv_def)
  ultimately show ?thesis
    using lock c l work by (simp add: at_rest_def)
qed

section \<open>Runs\<close>

inductive runs :: "nat \<Rightarrow> server \<Rightarrow> server \<Rightarrow> bool" where
  runs_0: "runs 0 s s"
| runs_Suc: "runs k s t \<Longrightarrow> step Inside t u \<Longrightarrow> runs (Suc k) s u"

lemma runs_inv: "runs k s t \<Longrightarrow> server_inv s \<Longrightarrow> server_inv t \<and> sv_n t = sv_n s \<and> work_left t + k \<le> work_left s"
proof (induction rule: runs.induct)
  case (runs_Suc k s t u)
  then have "server_inv u" "sv_n u = sv_n t" "work_left u < work_left t" "work_left t + k \<le> work_left s" "sv_n t = sv_n s"
    using server_inv_step step_n inside_decreases by blast+
  then show ?case
    by simp
qed simp

lemma step_in: "step e s s' \<Longrightarrow> \<exists>us. sv_in s' = sv_in s @ us"
  by (cases rule: step.cases) auto

lemma runs_in: "runs k s t \<Longrightarrow> \<exists>us. sv_in t = sv_in s @ us"
  by (induction rule: runs.induct) (auto dest!: step_in)

lemma runs_to_rest:
  assumes "server_inv s" "0 < sv_n s"
  shows "\<exists>k t. runs k s t \<and> at_rest t"
proof -
  have "\<exists>k t. runs k s t \<and> at_rest t" if "runs j s u" "server_inv u" "sv_n u = sv_n s" for j u
    using that
  proof (induction "work_left u" arbitrary: j u rule: less_induct)
    case less
    show ?case
    proof (cases "\<exists>v. step Inside u v")
      case True
      then obtain v where v: "step Inside u v" by blast
      show ?thesis
        using less.hyps [OF inside_decreases [OF v less.prems(2)] runs_Suc [OF less.prems(1) v]]
          server_inv_step [OF v less.prems(2)] step_n [OF v] less.prems(3) by simp
    next
      case False
      then show ?thesis
        using rest_or_step [OF less.prems(2)] less.prems(1,3) assms(2) by auto
    qed
  qed
  then show ?thesis
    using runs_0 assms(1) by blast
qed

section \<open>Properties\<close>

text \<open>
  C15. In every reachable state at most one thread is inside the monitor of the queue, and it has the lock;
  the tasks that were taken, followed by the tasks in the queue, are the tasks that were enqueued, in
  order and without repetition; no two threads have the same task.
\<close>

theorem queue_monitor_invariant:
  assumes "reachable n s"
  shows "(in_monitor s x \<longleftrightarrow> sv_lock s = Some x) \<and> (in_monitor s x \<and> in_monitor s y \<longrightarrow> x = y) \<and>
    sv_in s = sv_out s @ tq_nodes (sv_q s) \<and> distinct (sv_in s) \<and>
    (has_task s x t \<and> has_task s y t \<longrightarrow> x = y)"
  using server_inv_tasks(2,5,6) [OF reachable_inv [OF assms]] by (auto simp: order_inv_def one_holder_def)

text \<open>A run for the witnesses: a connection is accepted and its task linked.\<close>

definition one_task :: server where
  "one_task = (let (t, q) = new_task init_queue 7
     in (init_server 2)\<lparr>sv_q := (case task_enqueue q t of Done q' \<Rightarrow> q' | _ \<Rightarrow> q), sv_lock := Some Listener,
          sv_listen := L_Signal, sv_in := [t]\<rparr>)"

lemma one_task_reachable: "reachable 2 one_task"
proof -
  obtain t q where q: "new_task init_queue 7 = (t, q)"
    by (cases "new_task init_queue 7")
  let ?s1 = "(init_server 2)\<lparr>sv_q := q, sv_listen := L_Lock t\<rparr>"
  let ?s2 = "?s1\<lparr>sv_lock := Some Listener, sv_listen := L_Link t\<rparr>"
  have "step Outside (init_server 2) ?s1"
    by (rule step.accept [where fd = 7]) (simp_all add: init_server_def q)
  then have "reachable 2 ?s1"
    using start next_state by blast
  moreover have "step Inside ?s1 ?s2"
    by (rule step.l_lock) (simp_all add: init_server_def)
  ultimately have r: "reachable 2 ?s2"
    using next_state by blast
  then obtain q' where q': "task_enqueue q t = Done q'"
    using inv_task_ops(1) [OF reachable_inv [OF r], of t] by auto
  have "step Inside ?s2 (?s2\<lparr>sv_q := q', sv_listen := L_Signal, sv_in := sv_in ?s2 @ [t]\<rparr>)"
    by (rule step.l_link) (simp_all add: q')
  moreover have "?s2\<lparr>sv_q := q', sv_listen := L_Signal, sv_in := sv_in ?s2 @ [t]\<rparr> = one_task"
    by (simp add: one_task_def q q' init_server_def)
  ultimately show ?thesis
    using next_state [OF r] by simp
qed

theorem queue_monitor_invariant_witness:
  "sv_in one_task = [1] \<and> sv_out one_task = [] \<and> tq_nodes (sv_q one_task) = [1] \<and> in_monitor one_task Listener \<and>
     sv_lock one_task = Some Listener"
proof -
  have "sv_in one_task = [1]" "sv_out one_task = []" "sv_listen one_task = L_Signal"
    by (simp_all add: one_task_def new_task_def init_queue_def init_server_def)
  then show ?thesis
    using queue_monitor_invariant [OF one_task_reachable, of Listener Listener 0] by auto
qed

text \<open>
  C16. The tasks and the queue of the monitor are used safely: in no reachable state is a thread about to link, read or free
  a task that is dangling, to free one twice, or to start a count of the queue that does not end.  What the handlers
  do with the store while a worker is in \<^verbatim>\<open>dispatch\<close> is not part of these states, nor of the statement: there a string that
  \<^verbatim>\<open>kv_read\<close> returned can be freed by another worker before it is sent (\<open>kv_read_pointer_dangles\<close> of \<open>Kvstore\<close>).
\<close>

theorem queue_never_faults:
  assumes "reachable n s"
  shows "\<not> faulty s"
  using not_faulty [OF reachable_inv [OF assms]] .

theorem queue_never_faults_witness: "reachable 2 one_task \<and> \<not> faulty one_task"
  using queue_never_faults [OF one_task_reachable] one_task_reachable by blast

text \<open>
  C17. Every task is served, and no wake-up is lost: from a reachable state of a server with a worker, the
  threads make at most \<open>work_left\<close> statements without a new connection, command or spurious wake-up; when no
  thread can go on, every task linked before has been taken in order, served and freed, and the workers wait; and
  such a state is reached.
\<close>

theorem every_task_served:
  assumes "reachable n s" "0 < n"
  shows "(\<forall>k t. runs k s t \<longrightarrow> k \<le> work_left s \<and>
      ((\<forall>u. \<not> step Inside t u) \<longrightarrow> at_rest t \<and> (\<exists>us. sv_out t = sv_in s @ us))) \<and>
    (\<exists>k t. runs k s t \<and> at_rest t)"
proof (intro conjI allI impI)
  note inv = reachable_inv [OF assms(1)]
  have n: "0 < sv_n s"
    using reachable_n [OF assms(1)] assms(2) by simp
  show "\<exists>k t. runs k s t \<and> at_rest t"
    using runs_to_rest [OF inv n] .
  fix k t
  assume r: "runs k s t"
  note t = runs_inv [OF r inv]
  show "k \<le> work_left s"
    using t by simp
  assume "\<forall>u. \<not> step Inside t u"
  then have rest: "at_rest t"
    using rest_or_step [of t] t n by auto
  then show "at_rest t" "\<exists>us. sv_out t = sv_in s @ us"
    using runs_in [OF r] by (auto simp: at_rest_def)
qed

theorem every_task_served_witness:
  "\<exists>k t. runs k one_task t \<and> at_rest t"
  using every_task_served [OF one_task_reachable] by auto

end
