(* ===== verification/Kvstore.thy ===== *)
theory Kvstore
  imports C_Prelude Interfaces
begin

text \<open>
  The key-value store of Lab 3 (\<^verbatim>\<open>lab3-TheCarton-main/kvstore.c\<close>): a table of \<^verbatim>\<open>TABLE_MAX\<close> slots, each with a
  status, a key array of 32 bytes and a pointer to a heap string.  The heap is explicit: \<^verbatim>\<open>calloc\<close>
  takes the next address, \<^verbatim>\<open>free\<close> of an address that is not allocated and a read of freed memory are
  undefined behaviour.  Every operation holds \<^verbatim>\<open>kv_lock\<close> from its first to its last statement, so that
  it is one step.
\<close>

section \<open>State\<close>

abbreviation TABLE_MAX :: nat where "TABLE_MAX \<equiv> 200"

record key_entry =
  ke_stat :: int
  ke_key :: "char list"

record kvstore =
  kv_keys :: "key_entry list"
  kv_values :: "nat list"
  kv_heap :: "nat \<rightharpoonup> string"
  kv_brk :: nat

section \<open>kvstore.c\<close>

text \<open>The loop of \<^verbatim>\<open>find_key\<close> from slot \<open>i\<close>.\<close>

fun find_from :: "nat \<Rightarrow> key_entry list \<Rightarrow> string \<Rightarrow> int outcome" where
  "find_from i [] key = Done (- 1)"
| "find_from i (e # es) key =
     (if ke_stat e = 0 then find_from (Suc i) es key
      else obind (strcmp_eq (ke_key e) (key @ [NUL])) (\<lambda>eq.
             if eq then Done (int i) else find_from (Suc i) es key))"

definition find_key :: "kvstore \<Rightarrow> string \<Rightarrow> int outcome" where
  "find_key kv key = find_from 0 (kv_keys kv) key"

definition key_len :: "kvstore \<Rightarrow> nat" where
  "key_len kv = length (filter (\<lambda>e. ke_stat e = 1) (kv_keys kv))"

fun new_index_from :: "nat \<Rightarrow> key_entry list \<Rightarrow> int" where
  "new_index_from i [] = - 1"
| "new_index_from i (e # es) = (if ke_stat e = 0 then int i else new_index_from (Suc i) es)"

definition get_new_index :: "kvstore \<Rightarrow> int" where
  "get_new_index kv = new_index_from 0 (kv_keys kv)"

text \<open>\<^verbatim>\<open>char\<close> is signed, and \<^verbatim>\<open>%\<close> truncates.\<close>

definition get_index :: "string \<Rightarrow> int" where
  "get_index key =
     sum_list (map (\<lambda>c. c_mod (char_val c) 200) (take 32 key))"

text \<open>\<^verbatim>\<open>calloc\<close> and \<^verbatim>\<open>strcpy\<close>: a new block that holds a copy of the string.\<close>

definition calloc_val :: "kvstore \<Rightarrow> string \<Rightarrow> nat \<times> kvstore" where
  "calloc_val kv val =
     (kv_brk kv, kv\<lparr>kv_heap := (kv_heap kv)(kv_brk kv \<mapsto> val), kv_brk := Suc (kv_brk kv)\<rparr>)"

definition free_val :: "kvstore \<Rightarrow> nat \<Rightarrow> kvstore outcome" where
  "free_val kv a =
     (if kv_heap kv a = None then Undef else Done (kv\<lparr>kv_heap := (kv_heap kv)(a := None)\<rparr>))"

text \<open>\<^verbatim>\<open>strncpy(new_key.key, key, 31); new_key.key[31] = 0\<close>: at most 31 bytes, padded with NULs.\<close>

definition key_array :: "string \<Rightarrow> char list" where
  "key_array key = take 31 key @ replicate (32 - length (take 31 key)) NUL"

definition kv_read :: "kvstore \<Rightarrow> string \<Rightarrow> nat option outcome" where
  "kv_read kv key =
     obind (find_key kv key) (\<lambda>i. Done (if 0 \<le> i then Some (kv_values kv ! nat i) else None))"

definition kv_write :: "kvstore \<Rightarrow> string \<Rightarrow> string \<Rightarrow> (int \<times> kvstore) outcome" where
  "kv_write kv key val =
     obind (find_key kv key) (\<lambda>key_index.
     if 0 < key_index
     then let (new_val, kv) = calloc_val kv val;
              old_val = kv_values kv ! nat key_index
          in obind (free_val (kv\<lparr>kv_values := (kv_values kv)[nat key_index := new_val]\<rparr>) old_val) (\<lambda>kv.
             Done (0, kv))
     else if key_len kv < TABLE_MAX
     then let new_index = get_new_index kv
          in if new_index < 0 then Undef
             else let kv = kv\<lparr>kv_keys := (kv_keys kv)[nat new_index :=
                                           \<lparr>ke_stat = 1, ke_key = key_array key\<rparr>]\<rparr>;
                      (new_val, kv) = calloc_val kv val
                  in Done (0, kv\<lparr>kv_values := (kv_values kv)[nat new_index := new_val]\<rparr>)
     else Done (1, kv))"

definition kv_delete :: "kvstore \<Rightarrow> string \<Rightarrow> kvstore outcome" where
  "kv_delete kv key =
     obind (find_key kv key) (\<lambda>key_index.
     if 0 \<le> key_index
     then free_val (kv\<lparr>kv_keys := (kv_keys kv)[nat key_index :=
                         (kv_keys kv ! nat key_index)\<lparr>ke_stat := 0\<rparr>]\<rparr>)
            (kv_values kv ! nat key_index)
     else Done kv)"

text \<open>The lines that \<^verbatim>\<open>kv_dump\<close> prints.\<close>

fun dump_from :: "(key_entry \<times> nat) list \<Rightarrow> (nat \<rightharpoonup> string) \<Rightarrow> string list outcome" where
  "dump_from [] h = Done []"
| "dump_from ((e, v) # es) h =
     (if ke_stat e = 1
      then obind (c_str (ke_key e)) (\<lambda>k.
           case h v of None \<Rightarrow> Undef
           | Some s \<Rightarrow> obind (dump_from es h) (\<lambda>ls.
               Done ((''{K='' @ k @ '' : V='' @ s @ ''}'' @ [CHR 0x0A]) # ls)))
      else dump_from es h)"

definition kv_dump :: "kvstore \<Rightarrow> string list outcome" where
  "kv_dump kv =
     obind (dump_from (zip (kv_keys kv) (kv_values kv)) (kv_heap kv)) (\<lambda>ls.
       Done ((''kv_dump:'' @ [CHR 0x0A]) # ls))"

text \<open>The initialisation of \<^verbatim>\<open>init\<close> in \<^verbatim>\<open>dbserver.c\<close>: every slot is free (the globals are zeroed).\<close>

definition kv_init :: kvstore where
  "kv_init = \<lparr>kv_keys = replicate TABLE_MAX \<lparr>ke_stat = 0, ke_key = replicate 32 NUL\<rparr>,
     kv_values = replicate TABLE_MAX 0, kv_heap = Map.empty, kv_brk = 1\<rparr>"

section \<open>The invariant\<close>

text \<open>
  Slot \<open>i\<close> is in use and holds key \<open>k\<close>.  The table has its size, the keys in use are terminated and
  distinct, the values in use are allocated, below the break, and not shared.
\<close>

definition slot_key :: "kvstore \<Rightarrow> nat \<Rightarrow> string \<Rightarrow> bool" where
  "slot_key kv i k \<longleftrightarrow>
     i < length (kv_keys kv) \<and> ke_stat (kv_keys kv ! i) = 1 \<and> c_str (ke_key (kv_keys kv ! i)) = Done k"

definition kv_wf :: "kvstore \<Rightarrow> bool" where
  "kv_wf kv \<longleftrightarrow> length (kv_keys kv) = TABLE_MAX \<and> length (kv_values kv) = TABLE_MAX \<and>
     (\<forall>i<TABLE_MAX. ke_stat (kv_keys kv ! i) = 0 \<or> (\<exists>k. slot_key kv i k)) \<and>
     (\<forall>i k. slot_key kv i k \<longrightarrow> kv_heap kv (kv_values kv ! i) \<noteq> None) \<and>
     (\<forall>a. kv_heap kv a \<noteq> None \<longrightarrow> a < kv_brk kv) \<and>
     (\<forall>i j k l. slot_key kv i k \<longrightarrow> slot_key kv j l \<longrightarrow> kv_values kv ! i = kv_values kv ! j \<longrightarrow> i = j)"

definition kv_distinct :: "kvstore \<Rightarrow> bool" where
  "kv_distinct kv \<longleftrightarrow> (\<forall>i j k. slot_key kv i k \<longrightarrow> slot_key kv j k \<longrightarrow> i = j)"

text \<open>The map that the store represents: the first slot of a key counts.\<close>

definition kv_lookup :: "kvstore \<Rightarrow> string \<Rightarrow> string option" where
  "kv_lookup kv k =
     (case find_key kv k of Done i \<Rightarrow> (if 0 \<le> i then kv_heap kv (kv_values kv ! nat i) else None)
      | _ \<Rightarrow> None)"

section \<open>find\_key\<close>

definition entry_ok :: "key_entry \<Rightarrow> bool" where
  "entry_ok e \<longleftrightarrow> ke_stat e = 0 \<or> (ke_stat e = 1 \<and> (\<exists>s. c_str (ke_key e) = Done s))"

definition holds_key :: "string \<Rightarrow> key_entry \<Rightarrow> bool" where
  "holds_key k e \<longleftrightarrow> ke_stat e = 1 \<and> c_str (ke_key e) = Done k"

lemma find_from_step:
  assumes "entry_ok e" "NUL \<notin> set k"
  shows "find_from i (e # es) k = (if holds_key k e then Done (int i) else find_from (Suc i) es k)"
proof (cases "ke_stat e = 0")
  case False
  then obtain s where "ke_stat e = 1" "c_str (ke_key e) = Done s"
    using assms(1) by (auto simp: entry_ok_def)
  then show ?thesis
    using strcmp_eq_c_str [of "ke_key e" s "k @ [NUL]" k] assms(2) by (simp add: holds_key_def)
qed (simp add: holds_key_def)

lemma find_from_None:
  assumes "\<forall>e\<in>set es. entry_ok e \<and> \<not> holds_key k e" "NUL \<notin> set k"
  shows "find_from i es k = Done (- 1)"
  using assms(1) by (induction es arbitrary: i) (simp_all add: find_from_step assms(2) del: find_from.simps(2))

lemma find_from_Some:
  assumes "\<forall>e\<in>set es. entry_ok e" "NUL \<notin> set k" "j < length es" "holds_key k (es ! j)"
    "\<forall>m<j. \<not> holds_key k (es ! m)"
  shows "find_from i es k = Done (int (i + j))"
  using assms(1,3-5)
proof (induction es arbitrary: i j)
  case (Cons e es)
  show ?case
  proof (cases j)
    case (Suc m)
    then have "\<not> holds_key k e" "\<forall>l<m. \<not> holds_key k (es ! l)"
      using Cons.prems(4) by (auto dest: spec [of _ "Suc l" for l] spec [of _ 0])
    moreover from this have "find_from (Suc i) es k = Done (int (Suc i + m))"
      using Cons.IH [of m "Suc i"] Cons.prems(1-3) Suc by simp
    ultimately show ?thesis
      using Suc Cons.prems(1) assms(2) by (simp add: find_from_step del: find_from.simps(2))
  qed (use Cons.prems assms(2) in \<open>simp add: find_from_step del: find_from.simps(2)\<close>)
qed simp

lemma slot_key_holds: "slot_key kv i k \<longleftrightarrow> i < length (kv_keys kv) \<and> holds_key k (kv_keys kv ! i)"
  by (auto simp: slot_key_def holds_key_def)

lemma kv_wf_entry_ok: "kv_wf kv \<Longrightarrow> \<forall>e\<in>set (kv_keys kv). entry_ok e"
  by (fastforce simp: kv_wf_def entry_ok_def slot_key_def in_set_conv_nth)

lemma find_key_cases [consumes 2, case_names found absent]:
  assumes "kv_wf kv" "NUL \<notin> set k"
  obtains (found) i where "find_key kv k = Done (int i)" "slot_key kv i k" "\<forall>m<i. \<not> slot_key kv m k"
  | (absent) "find_key kv k = Done (- 1)" "\<forall>i. \<not> slot_key kv i k"
proof (cases "\<exists>i. slot_key kv i k")
  case True
  define i where "i = (LEAST i. slot_key kv i k)"
  have i: "slot_key kv i k" "\<forall>m<i. \<not> slot_key kv m k"
    unfolding i_def using True by (metis LeastI_ex, metis not_less_Least)
  then have "find_key kv k = Done (int i)"
    using find_from_Some [OF kv_wf_entry_ok [OF assms(1)] assms(2), of i 0]
    by (auto simp: find_key_def slot_key_holds)
  then show ?thesis
    using found i by blast
next
  case False
  then have "\<forall>e\<in>set (kv_keys kv). \<not> holds_key k e"
    by (auto simp: slot_key_holds in_set_conv_nth)
  then show ?thesis
    using absent find_from_None [of "kv_keys kv" k 0] kv_wf_entry_ok [OF assms(1)] assms(2) False
    by (auto simp: find_key_def)
qed

lemma find_key_first:
  assumes "kv_wf kv" "NUL \<notin> set k" "slot_key kv i k" "\<forall>m<i. \<not> slot_key kv m k"
  shows "find_key kv k = Done (int i)"
  using assms(1,2)
proof (cases rule: find_key_cases)
  case (found j)
  then have "j = i"
    using assms(3,4) by (metis linorder_neqE_nat)
  then show ?thesis
    using found by simp
qed (use assms in auto)

lemma find_key_absent:
  "kv_wf kv \<Longrightarrow> NUL \<notin> set k \<Longrightarrow> \<forall>i. \<not> slot_key kv i k \<Longrightarrow> find_key kv k = Done (- 1)"
  by (cases rule: find_key_cases) auto

lemma kv_wfD:
  assumes "kv_wf kv"
  shows "length (kv_keys kv) = TABLE_MAX" "length (kv_values kv) = TABLE_MAX"
    "i < TABLE_MAX \<Longrightarrow> ke_stat (kv_keys kv ! i) = 0 \<or> (\<exists>k. slot_key kv i k)"
    "slot_key kv i k \<Longrightarrow> \<exists>s. kv_heap kv (kv_values kv ! i) = Some s"
    "slot_key kv i k \<Longrightarrow> i < TABLE_MAX"
    "kv_heap kv a = Some s \<Longrightarrow> a < kv_brk kv"
    "slot_key kv i k \<Longrightarrow> slot_key kv j l \<Longrightarrow> kv_values kv ! i = kv_values kv ! j \<Longrightarrow> i = j"
  using assms by (auto simp: kv_wf_def slot_key_def)

text \<open>The value of a key, through the slot that is found.\<close>

lemma kv_lookup_slot:
  assumes "kv_wf kv" "NUL \<notin> set k" "slot_key kv i k" "\<forall>m<i. \<not> slot_key kv m k"
  shows "kv_lookup kv k = kv_heap kv (kv_values kv ! i)"
  using find_key_first [OF assms] by (simp add: kv_lookup_def)

lemma kv_lookup_None:
  "kv_wf kv \<Longrightarrow> NUL \<notin> set k \<Longrightarrow> \<forall>i. \<not> slot_key kv i k \<Longrightarrow> kv_lookup kv k = None"
  by (simp add: kv_lookup_def find_key_absent)

section \<open>Stores with a changed slot\<close>

text \<open>Lookups agree when the slots of a key and their values agree.\<close>

lemma kv_lookup_cong:
  assumes "kv_wf kv" "kv_wf kv'" "NUL \<notin> set l" "\<And>i. slot_key kv' i l \<longleftrightarrow> slot_key kv i l"
    "\<And>i. slot_key kv i l \<Longrightarrow> kv_heap kv' (kv_values kv' ! i) = kv_heap kv (kv_values kv ! i)"
  shows "kv_lookup kv' l = kv_lookup kv l"
  using assms(1,3)
proof (cases rule: find_key_cases)
  case (found i)
  then show ?thesis
    using kv_lookup_slot [OF assms(1,3), of i] kv_lookup_slot [OF assms(2,3), of i] assms(4,5) by simp
next
  case absent
  then show ?thesis
    using kv_lookup_None [OF assms(1,3)] kv_lookup_None [OF assms(2,3)] assms(4) by simp
qed

lemma c_str_key_array: "NUL \<notin> set k \<Longrightarrow> c_str (key_array k) = Done (take 31 k)"
proof -
  assume "NUL \<notin> set k"
  moreover have "32 - length (take 31 k) = Suc (31 - length (take 31 k))"
    by simp
  moreover have "NUL \<notin> set (take 31 k)"
    using \<open>NUL \<notin> set k\<close> in_set_takeD by fastforce
  ultimately show ?thesis
    unfolding key_array_def by (simp only: replicate_Suc c_str_append not_False_eq_True)
qed

definition put_slot :: "kvstore \<Rightarrow> nat \<Rightarrow> string \<Rightarrow> string \<Rightarrow> kvstore" where
  "put_slot kv j k v =
     kv\<lparr>kv_keys := (kv_keys kv)[j := \<lparr>ke_stat = 1, ke_key = key_array k\<rparr>],
        kv_heap := (kv_heap kv)(kv_brk kv \<mapsto> v), kv_brk := Suc (kv_brk kv),
        kv_values := (kv_values kv)[j := kv_brk kv]\<rparr>"

lemma put_slot:
  assumes "kv_wf kv" "j < TABLE_MAX" "ke_stat (kv_keys kv ! j) = 0" "NUL \<notin> set k"
  shows "slot_key (put_slot kv j k v) i l \<longleftrightarrow> (if i = j then l = take 31 k else slot_key kv i l)"
    "slot_key kv i l \<Longrightarrow> i \<noteq> j \<and>
       kv_heap (put_slot kv j k v) (kv_values (put_slot kv j k v) ! i) = kv_heap kv (kv_values kv ! i)"
    "kv_heap (put_slot kv j k v) (kv_values (put_slot kv j k v) ! j) = Some v"
    "kv_wf (put_slot kv j k v)"
proof -
  let ?kv = "put_slot kv j k v"
  note w = kv_wfD [OF assms(1)]
  have key: "slot_key ?kv i l \<longleftrightarrow> (if i = j then l = take 31 k else slot_key kv i l)" for i l
    using w(1) assms(2) c_str_key_array [OF assms(4)] by (auto simp: slot_key_def put_slot_def)
  then show "slot_key ?kv i l \<longleftrightarrow> (if i = j then l = take 31 k else slot_key kv i l)" .
  have nj: "i \<noteq> j" "kv_values kv ! i \<noteq> kv_brk kv" "kv_values kv ! i < kv_brk kv" if s: "slot_key kv i l" for i l
  proof -
    have "kv_values kv ! i < kv_brk kv"
      using w(4) [OF s] w(6) by blast
    then show "kv_values kv ! i \<noteq> kv_brk kv" "kv_values kv ! i < kv_brk kv"
      by simp_all
    show "i \<noteq> j"
      using s assms(3) by (auto simp: slot_key_def)
  qed
  show old: "slot_key kv i l \<Longrightarrow> i \<noteq> j \<and> kv_heap ?kv (kv_values ?kv ! i) = kv_heap kv (kv_values kv ! i)" for i l
    using nj [of i l] by (simp add: put_slot_def)
  show new: "kv_heap ?kv (kv_values ?kv ! j) = Some v"
    using w(2) assms(2) by (simp add: put_slot_def)
  have vals: "kv_values ?kv ! i = (if i = j then kv_brk kv else kv_values kv ! i)" if "i < TABLE_MAX" for i
    using that w(2) by (simp add: put_slot_def)
  have "ke_stat (kv_keys ?kv ! i) = 0 \<or> (\<exists>l. slot_key ?kv i l)" if "i < TABLE_MAX" for i
    using w(3) [OF that] key that w(1) by (cases "i = j") (auto simp: put_slot_def)
  moreover have "kv_heap ?kv (kv_values ?kv ! i) \<noteq> None" if "slot_key ?kv i l" for i l
  proof (cases "i = j")
    case False
    then show ?thesis
      using that key [of i l] old [of i l] w(4) [of i l] by simp
  qed (simp add: new)
  moreover have "a < kv_brk ?kv" if "kv_heap ?kv a \<noteq> None" for a
    using that w(6) [of a] by (auto simp: put_slot_def less_SucI split: if_splits)
  moreover have "i = m" if "slot_key ?kv i l" "slot_key ?kv m n" "kv_values ?kv ! i = kv_values ?kv ! m" for i m l n
  proof -
    have "i < TABLE_MAX" "m < TABLE_MAX"
      using that(1,2) key w(5) assms(2) by (auto split: if_splits)
    note v = vals [OF this(1)] vals [OF this(2)]
    show ?thesis
    proof (cases "i = j \<or> m = j")
      case True
      then show ?thesis
        using that(3) v nj(2) [of i l] nj(2) [of m n] that(1,2) unfolding key by metis
    next
      case False
      then show ?thesis
        using that v w(7) [of i l m n] unfolding key by metis
    qed
  qed
  ultimately show "kv_wf ?kv"
    using w(1,2) unfolding kv_wf_def by (simp add: put_slot_def)
qed

lemma put_slot_lookup:
  assumes "kv_wf kv" "j < TABLE_MAX" "ke_stat (kv_keys kv ! j) = 0" "NUL \<notin> set k" "NUL \<notin> set l"
  shows "kv_lookup (put_slot kv j k v) l =
    (if l = take 31 k \<and> (\<forall>m<j. \<not> slot_key kv m l) then Some v else kv_lookup kv l)"
proof (cases "l = take 31 k")
  case False
  then show ?thesis
    using put_slot(1,2) [OF assms(1-4)] False
    by (intro trans [OF kv_lookup_cong [OF assms(1) put_slot(4) [OF assms(1-4)] assms(5)]]) (auto, blast+)
next
  case True
  note p = put_slot [OF assms(1-4), where v = v]
  show ?thesis
  proof (cases "\<forall>m<j. \<not> slot_key kv m l")
    case none: True
    then have "slot_key (put_slot kv j k v) j l" "\<forall>m<j. \<not> slot_key (put_slot kv j k v) m l"
      using True p(1) by auto
    then show ?thesis
      using True none p(3) kv_lookup_slot [OF p(4) assms(5)] by simp
  next
    case some: False
    then obtain a where a: "a < j" "slot_key kv a l" by blast
    then obtain m where m2: "slot_key kv m l" "\<forall>i<m. \<not> slot_key kv i l"
      using exists_least_iff [of "\<lambda>m. slot_key kv m l"] by blast
    then have m: "m < j" "slot_key kv m l" "\<forall>i<m. \<not> slot_key kv i l"
      using a by (metis less_trans linorder_neqE_nat)+
    then have "slot_key (put_slot kv j k v) m l" "\<forall>i<m. \<not> slot_key (put_slot kv j k v) i l"
      using p(1) by auto
    then show ?thesis
      using some m p(2) [OF m(2)] kv_lookup_slot [OF p(4) assms(5)] kv_lookup_slot [OF assms(1,5) m(2,3)] by auto
  qed
qed

definition set_val :: "kvstore \<Rightarrow> nat \<Rightarrow> string \<Rightarrow> kvstore" where
  "set_val kv i v =
     kv\<lparr>kv_heap := ((kv_heap kv)(kv_brk kv \<mapsto> v))(kv_values kv ! i := None), kv_brk := Suc (kv_brk kv),
        kv_values := (kv_values kv)[i := kv_brk kv]\<rparr>"

lemma set_val_slot [simp]: "slot_key (set_val kv i v) j l \<longleftrightarrow> slot_key kv j l"
  by (simp add: slot_key_def set_val_def)

lemma val_below_brk:
  assumes "kv_wf kv" "slot_key kv i k"
  shows "kv_values kv ! i < kv_brk kv"
  using kv_wfD(4) [OF assms] kv_wfD(6) [OF assms(1)] by blast

lemma set_val:
  assumes "kv_wf kv" "slot_key kv i k"
  shows "slot_key kv j l \<Longrightarrow> kv_heap (set_val kv i v) (kv_values (set_val kv i v) ! j) =
      (if j = i then Some v else kv_heap kv (kv_values kv ! j))"
    "kv_wf (set_val kv i v)"
proof -
  let ?kv = "set_val kv i v"
  note w = kv_wfD [OF assms(1)]
  have at: "kv_values ?kv ! j = (if j = i then kv_brk kv else kv_values kv ! j)" if "slot_key kv j l" for j l
    using w(2) w(5) [OF assms(2)] by (simp add: set_val_def)
  have ne: "kv_values kv ! j \<noteq> kv_brk kv" if "slot_key kv j l" for j l
    using val_below_brk [OF assms(1) that] by simp
  show val: "kv_heap ?kv (kv_values ?kv ! j) = (if j = i then Some v else kv_heap kv (kv_values kv ! j))"
    if "slot_key kv j l" for j l
    using at [OF that] ne [OF that] ne [OF assms(2)] w(7) [OF that assms(2)] by (auto simp: set_val_def)
  have "ke_stat (kv_keys ?kv ! j) = 0 \<or> (\<exists>l. slot_key ?kv j l)" if "j < TABLE_MAX" for j
    using w(3) [OF that] by (simp add: set_val_def [of kv i v] slot_key_def)
  moreover have "kv_heap ?kv (kv_values ?kv ! j) \<noteq> None" if "slot_key ?kv j l" for j l
    using that val [of j l] w(4) [of j l] by auto
  moreover have "a < kv_brk ?kv" if "kv_heap ?kv a \<noteq> None" for a
    using that w(6) [of a] by (auto simp: set_val_def less_SucI split: if_splits)
  moreover have "j = m" if "slot_key ?kv j l" "slot_key ?kv m n" "kv_values ?kv ! j = kv_values ?kv ! m" for j m l n
    using that at [of j l] at [of m n] ne [of j l] ne [of m n] w(7) [of j l m n]
    unfolding set_val_slot by metis
  ultimately show "kv_wf ?kv"
    using w(1,2) unfolding kv_wf_def by (simp add: set_val_def [of kv i v])
qed

definition clear_slot :: "kvstore \<Rightarrow> nat \<Rightarrow> kvstore" where
  "clear_slot kv i =
     kv\<lparr>kv_keys := (kv_keys kv)[i := (kv_keys kv ! i)\<lparr>ke_stat := 0\<rparr>],
        kv_heap := (kv_heap kv)(kv_values kv ! i := None)\<rparr>"

lemma clear_slot_key: "slot_key (clear_slot kv i) j l \<longleftrightarrow> j \<noteq> i \<and> slot_key kv j l"
  by (cases "j = i") (auto simp: slot_key_def clear_slot_def)

lemma clear_slot:
  assumes "kv_wf kv" "slot_key kv i k"
  shows "slot_key kv j l \<Longrightarrow> j \<noteq> i \<Longrightarrow>
      kv_heap (clear_slot kv i) (kv_values (clear_slot kv i) ! j) = kv_heap kv (kv_values kv ! j)"
    "kv_wf (clear_slot kv i)"
proof -
  let ?kv = "clear_slot kv i"
  note w = kv_wfD [OF assms(1)]
  show val: "kv_heap ?kv (kv_values ?kv ! j) = kv_heap kv (kv_values kv ! j)" if "slot_key kv j l" "j \<noteq> i" for j l
    using that w(7) [OF that(1) assms(2)] by (auto simp: clear_slot_def)
  have "ke_stat (kv_keys ?kv ! j) = 0 \<or> (\<exists>l. slot_key ?kv j l)" if "j < TABLE_MAX" for j
    using w(1) w(3) [OF that] that unfolding clear_slot_key by (cases "j = i") (auto simp: clear_slot_def)
  moreover have "kv_heap ?kv (kv_values ?kv ! j) \<noteq> None" if "slot_key ?kv j l" for j l
    using that val [of j l] w(4) [of j l] unfolding clear_slot_key by auto
  moreover have "a < kv_brk ?kv" if "kv_heap ?kv a \<noteq> None" for a
    using that w(6) [of a] by (auto simp: clear_slot_def split: if_splits)
  moreover have "j = m" if "slot_key ?kv j l" "slot_key ?kv m n" "kv_values ?kv ! j = kv_values ?kv ! m" for j m l n
    using that w(7) [of j l m n] unfolding clear_slot_key by (simp add: clear_slot_def)
  ultimately show "kv_wf ?kv"
    using w(1,2) unfolding kv_wf_def by (simp add: clear_slot_def [of kv i])
qed

section \<open>The operations\<close>

lemma new_index_from_Some:
  "j < length es \<Longrightarrow> ke_stat (es ! j) = 0 \<Longrightarrow> \<forall>m<j. ke_stat (es ! m) \<noteq> 0 \<Longrightarrow>
     new_index_from i es = int (i + j)"
proof (induction es arbitrary: i j)
  case (Cons e es)
  show ?case
  proof (cases j)
    case (Suc m)
    then have "ke_stat e \<noteq> 0" "\<forall>l<m. ke_stat (es ! l) \<noteq> 0"
      using Cons.prems(3) by (auto dest: spec [of _ "Suc l" for l] spec [of _ 0])
    then show ?thesis
      using Cons.IH [of m "Suc i"] Cons.prems(1,2) Suc by simp
  qed (use Cons.prems in simp)
qed simp

lemma free_slot_cases [consumes 1, case_names free full]:
  assumes "kv_wf kv"
  obtains j where "key_len kv < TABLE_MAX" "get_new_index kv = int j" "j < TABLE_MAX"
      "ke_stat (kv_keys kv ! j) = 0" "\<forall>m<j. ke_stat (kv_keys kv ! m) \<noteq> 0"
  | "\<not> key_len kv < TABLE_MAX" "\<forall>j<TABLE_MAX. ke_stat (kv_keys kv ! j) = 1"
proof (cases "\<exists>j<TABLE_MAX. ke_stat (kv_keys kv ! j) = 0")
  case True
  note w = kv_wfD [OF assms]
  obtain j where j: "j < TABLE_MAX" "ke_stat (kv_keys kv ! j) = 0" "\<forall>m<j. ke_stat (kv_keys kv ! m) \<noteq> 0"
    using True exists_least_iff [of "\<lambda>j. j < TABLE_MAX \<and> ke_stat (kv_keys kv ! j) = 0"] by (auto intro: less_trans)
  have "kv_keys kv ! j \<in> set (kv_keys kv)" "ke_stat (kv_keys kv ! j) \<noteq> 1"
    using j w(1) by simp_all
  then have "key_len kv < TABLE_MAX"
    unfolding key_len_def using w(1) length_filter_less [of "kv_keys kv ! j" "kv_keys kv" "\<lambda>e. ke_stat e = 1"]
    by simp
  then show ?thesis
    using that(1) j new_index_from_Some [of j "kv_keys kv" 0] w(1) by (simp add: get_new_index_def)
next
  case False
  note w = kv_wfD [OF assms]
  have "\<forall>j<TABLE_MAX. ke_stat (kv_keys kv ! j) = 1"
    using False w(3) by (auto simp: slot_key_def)
  moreover from this have "filter (\<lambda>e. ke_stat e = 1) (kv_keys kv) = kv_keys kv"
    using w(1) by (auto simp: filter_id_conv in_set_conv_nth)
  ultimately show ?thesis
    using that(2) w(1) by (simp add: key_len_def)
qed

lemma first_free:
  assumes "kv_wf kv" "j < TABLE_MAX" "ke_stat (kv_keys kv ! j) = 0" "\<forall>m<j. ke_stat (kv_keys kv ! m) \<noteq> 0"
  shows "key_len kv < TABLE_MAX" "get_new_index kv = int j"
proof -
  show "get_new_index kv = int j"
    using new_index_from_Some [of j "kv_keys kv" 0] assms kv_wfD(1) [OF assms(1)] by (simp add: get_new_index_def)
  from assms(1) show "key_len kv < TABLE_MAX"
    by (cases rule: free_slot_cases) (use assms(2,3) in auto)
qed

lemma kv_write_found:
  assumes "kv_wf kv" "find_key kv k = Done (int i)" "slot_key kv i k" "0 < i"
  shows "kv_write kv k v = Done (0, set_val kv i v)"
proof -
  have "kv_values kv ! i \<noteq> kv_brk kv"
    using val_below_brk [OF assms(1,3)] by simp
  moreover obtain s where "kv_heap kv (kv_values kv ! i) = Some s"
    using kv_wfD(4) [OF assms(1,3)] by blast
  ultimately show ?thesis
    using assms(2,4) by (simp add: kv_write_def calloc_val_def free_val_def set_val_def)
qed

lemma kv_write_new:
  assumes "find_key kv k = Done i" "i \<le> 0" "key_len kv < TABLE_MAX" "get_new_index kv = int j"
  shows "kv_write kv k v = Done (0, put_slot kv j k v)"
  using assms by (simp add: kv_write_def calloc_val_def put_slot_def Let_def)

lemma kv_delete_found:
  assumes "kv_wf kv" "find_key kv k = Done (int i)" "slot_key kv i k"
  shows "kv_delete kv k = Done (clear_slot kv i)"
  using assms kv_wfD(4) [OF assms(1,3)] by (auto simp: kv_delete_def free_val_def clear_slot_def)

section \<open>The store as a dictionary\<close>

definition kv_key :: "string \<Rightarrow> bool" where
  "kv_key k \<longleftrightarrow> NUL \<notin> set k \<and> length k \<le> 31"

text \<open>A write is allowed when the key is not the one of slot 0 and there is room for it.\<close>

definition kv_room :: "kvstore \<Rightarrow> string \<Rightarrow> bool" where
  "kv_room kv k \<longleftrightarrow>
     find_key kv k \<noteq> Done 0 \<and> (find_key kv k \<noteq> Done (- 1) \<or> key_len kv < TABLE_MAX)"

definition kv_ok :: "kvstore \<Rightarrow> bool" where
  "kv_ok kv \<longleftrightarrow> kv_wf kv \<and> kv_distinct kv"

definition kv_ins :: "kvstore \<Rightarrow> string \<Rightarrow> string \<Rightarrow> kvstore" where
  "kv_ins kv k v = (case kv_write kv k v of Done (_, kv') \<Rightarrow> kv' | _ \<Rightarrow> kv)"

definition kv_del :: "kvstore \<Rightarrow> string \<Rightarrow> kvstore" where
  "kv_del kv k = (case kv_delete kv k of Done kv' \<Rightarrow> kv' | _ \<Rightarrow> kv)"

lemma kv_keyD: "kv_key k \<Longrightarrow> NUL \<notin> set k" "kv_key k \<Longrightarrow> take 31 k = k"
  by (simp_all add: kv_key_def)

lemma kv_write_allowed:
  assumes "kv_ok kv" "kv_key k" "kv_room kv k"
  obtains kv' where "kv_write kv k v = Done (0, kv')" "kv_ok kv'"
    "\<And>j. kv_key j \<Longrightarrow> kv_lookup kv' j = (if j = k then Some v else kv_lookup kv j)"
proof -
  have w: "kv_wf kv" and d: "kv_distinct kv" and k: "NUL \<notin> set k" "take 31 k = k"
    using assms by (simp_all add: kv_ok_def kv_keyD)
  from w k(1) show ?thesis
  proof (cases rule: find_key_cases)
    case (found i)
    then have "0 < i"
      using assms(3) by (cases i) (simp_all add: kv_room_def)
    note s = set_val [OF w found(2), where v = v]
    have "kv_lookup (set_val kv i v) j = (if j = k then Some v else kv_lookup kv j)" if "kv_key j" for j
    proof (cases "j = k")
      case True
      then show ?thesis
        using kv_lookup_slot [OF s(2) k(1), of i] s(1) [OF found(2)] found by simp
    next
      case False
      have "slot_key kv m j \<Longrightarrow> m \<noteq> i" for m
        using found(2) False by (auto simp: slot_key_def)
      then show ?thesis
        using False kv_lookup_cong [OF w s(2) kv_keyD(1) [OF that]] s(1) [of _ j] by simp
    qed
    moreover have "kv_ok (set_val kv i v)"
      using d s(2) by (simp add: kv_ok_def kv_distinct_def)
    ultimately show ?thesis
      using that kv_write_found [OF w found(1,2) \<open>0 < i\<close>] by blast
  next
    case absent
    then have "key_len kv < TABLE_MAX"
      using assms(3) by (simp add: kv_room_def)
    with w obtain j where j: "get_new_index kv = int j" "j < TABLE_MAX" "ke_stat (kv_keys kv ! j) = 0"
      by (cases rule: free_slot_cases) auto
    note p = put_slot [OF w j(2,3) k(1), where v = v]
    have "kv_distinct (put_slot kv j k v)"
      using d absent(2) k(2) unfolding kv_distinct_def p(1) by (auto split: if_splits)
    moreover have "kv_lookup (put_slot kv j k v) l = (if l = k then Some v else kv_lookup kv l)" if "kv_key l" for l
      using put_slot_lookup [OF w j(2,3) k(1) kv_keyD(1) [OF that]] k(2) absent(2) by simp
    ultimately show ?thesis
      using that [of "put_slot kv j k v"] kv_write_new [OF absent(1) _ \<open>key_len kv < TABLE_MAX\<close> j(1)] p(4)
      by (simp add: kv_ok_def)
  qed
qed

lemma kv_delete_allowed:
  assumes "kv_ok kv" "kv_key k"
  obtains kv' where "kv_delete kv k = Done kv'" "kv_ok kv'"
    "\<And>j. kv_key j \<Longrightarrow> kv_lookup kv' j = (if j = k then None else kv_lookup kv j)"
proof -
  have w: "kv_wf kv" and d: "kv_distinct kv" and k: "NUL \<notin> set k"
    using assms by (simp_all add: kv_ok_def kv_keyD)
  from w k show ?thesis
  proof (cases rule: find_key_cases)
    case (found i)
    note c = clear_slot [OF w found(2)]
    have "kv_lookup (clear_slot kv i) j = (if j = k then None else kv_lookup kv j)" if "kv_key j" for j
    proof (cases "j = k")
      case True
      have "\<not> slot_key (clear_slot kv i) m k" for m
        using d found(2) unfolding kv_distinct_def clear_slot_key by blast
      then show ?thesis
        using True kv_lookup_None [OF c(2) k] by simp
    next
      case False
      have ne: "slot_key kv m j \<Longrightarrow> m \<noteq> i" for m
        using found(2) False by (auto simp: slot_key_def)
      then have "kv_lookup (clear_slot kv i) j = kv_lookup kv j"
        using c(1) [of _ j] by (intro kv_lookup_cong [OF w c(2) kv_keyD(1) [OF that]]) (auto simp: clear_slot_key)
      then show ?thesis using False by simp
    qed
    moreover have "kv_ok (clear_slot kv i)"
      using d c(2) unfolding kv_ok_def kv_distinct_def clear_slot_key by blast
    ultimately show ?thesis
      using that kv_delete_found [OF w found(1,2)] by blast
  next
    case absent
    then have "kv_delete kv k = Done kv" "kv_lookup kv k = None"
      using kv_lookup_None [OF w k] by (simp_all add: kv_delete_def)
    then show ?thesis
      using that [of kv] assms(1) by auto
  qed
qed

lemma kv_read_found:
  assumes "kv_wf kv" "NUL \<notin> set k" "kv_lookup kv k = Some v"
  obtains a where "kv_read kv k = Done (Some a)" "kv_heap kv a = Some v"
proof -
  obtain i where "find_key kv k = Done (int i)"
    using assms by (cases rule: find_key_cases) (auto simp: kv_lookup_def)
  then show ?thesis
    using that [of "kv_values kv ! i"] assms(3) by (simp add: kv_read_def kv_lookup_def)
qed

lemma kv_read_absent: "kv_wf kv \<Longrightarrow> NUL \<notin> set k \<Longrightarrow> kv_lookup kv k = None \<Longrightarrow> kv_read kv k = Done None"
proof -
  assume a: "kv_wf kv" "NUL \<notin> set k" "kv_lookup kv k = None"
  from a(1,2) show ?thesis
  proof (cases rule: find_key_cases)
    case (found i)
    then show ?thesis
      using a(3) kv_wfD(4) [OF a(1) found(2)] by (simp add: kv_lookup_def)
  qed (simp add: kv_read_def)
qed

interpretation kvd: dictionary kv_lookup kv_ins kv_del kv_ok kv_key kv_room
proof unfold_locales
  fix s k v j
  assume a: "kv_ok s" "kv_key k" "kv_room s k"
  obtain s' where s': "kv_write s k v = Done (0, s')" "kv_ok s'"
      "\<And>j. kv_key j \<Longrightarrow> kv_lookup s' j = (if j = k then Some v else kv_lookup s j)"
    by (rule kv_write_allowed [OF a]) blast
  then show "kv_ok (kv_ins s k v)"
    by (simp add: kv_ins_def)
  show "kv_key j \<Longrightarrow> kv_lookup (kv_ins s k v) j = (if j = k then Some v else kv_lookup s j)"
    using s' by (simp add: kv_ins_def)
next
  fix s k j
  assume a: "kv_ok s" "kv_key k"
  obtain s' where s': "kv_delete s k = Done s'" "kv_ok s'"
      "\<And>j. kv_key j \<Longrightarrow> kv_lookup s' j = (if j = k then None else kv_lookup s j)"
    by (rule kv_delete_allowed [OF a]) blast
  then show "kv_ok (kv_del s k)"
    by (simp add: kv_del_def)
  show "kv_key j \<Longrightarrow> kv_lookup (kv_del s k) j = (if j = k then None else kv_lookup s j)"
    using s' by (simp add: kv_del_def)
qed

section \<open>Properties\<close>

lemma kv_init_wf: "kv_wf kv_init" "\<not> slot_key kv_init i k"
  by (auto simp: kv_wf_def slot_key_def kv_init_def)

lemma kv_init_ok: "kv_ok kv_init"
  using kv_init_wf by (simp add: kv_ok_def kv_distinct_def)

lemma kv_init_lookup: "NUL \<notin> set k \<Longrightarrow> kv_lookup kv_init k = None"
  using kv_lookup_None [OF kv_init_wf(1)] kv_init_wf(2) by blast

text \<open>
  C11. A sequence of writes and deletions on the empty store, none of which writes the key of slot 0 again
  or finds the table full, leaves the store that the same sequence gives on a map.
\<close>

theorem kv_sequence_refines_map:
  assumes "ops_allowed (dict_step kv_ins kv_del) (op_allowed kv_key kv_room) kv_init ops" "kv_key j"
  shows "kv_lookup (foldl (dict_step kv_ins kv_del) kv_init ops) j = foldl abs_op Map.empty ops j"
  using kvd.run_look [OF kv_init_ok assms] kvd.abs_ops_cong [of "kv_lookup kv_init" j Map.empty ops]
    kv_init_lookup [OF kv_keyD(1) [OF assms(2)]] by simp

lemma kv_init_room: "kv_key k \<Longrightarrow> kv_room kv_init k"
proof -
  assume "kv_key k"
  then have "find_key kv_init k = Done (- 1)"
    using find_key_absent [OF kv_init_wf(1) kv_keyD(1)] kv_init_wf(2) by blast
  moreover have "key_len kv_init < TABLE_MAX"
    using first_free(1) [OF kv_init_wf(1), of 0] by (simp add: kv_init_def)
  ultimately show ?thesis
    by (simp add: kv_room_def)
qed

lemma kv_init_ins:
  assumes "kv_key k"
  shows "kv_ins kv_init k v = put_slot kv_init 0 k v" "kv_wf (put_slot kv_init 0 k v)"
    "slot_key (put_slot kv_init 0 k v) i l \<longleftrightarrow> i = 0 \<and> l = k"
    "key_len (put_slot kv_init 0 k v) < TABLE_MAX" "get_new_index (put_slot kv_init 0 k v) = int 1"
proof -
  let ?kv1 = "put_slot kv_init 0 k v"
  have k: "NUL \<notin> set k" "take 31 k = k"
    using assms by (simp_all add: kv_keyD)
  have s0: "ke_stat (kv_keys kv_init ! 0) = 0" "ke_stat (kv_keys ?kv1 ! 0) \<noteq> 0" "ke_stat (kv_keys ?kv1 ! 1) = 0"
    by (simp_all add: kv_init_def put_slot_def)
  have "find_key kv_init k = Done (- 1)"
    using find_key_absent [OF kv_init_wf(1) k(1)] kv_init_wf(2) by blast
  then show "kv_ins kv_init k v = ?kv1"
    using kv_write_new [of kv_init k "- 1" 0 v] first_free [OF kv_init_wf(1) _ s0(1)] by (simp add: kv_ins_def)
  show wf: "kv_wf ?kv1" and "slot_key ?kv1 i l \<longleftrightarrow> i = 0 \<and> l = k"
    using put_slot(1,4) [OF kv_init_wf(1) _ s0(1) k(1), of v] k(2) kv_init_wf(2) by auto
  show "key_len ?kv1 < TABLE_MAX" "get_new_index ?kv1 = int 1"
    using first_free [OF wf, of 1] s0(2,3) by simp_all
qed

theorem kv_sequence_refines_map_witness:
  "kv_lookup (kv_del (kv_ins (kv_ins kv_init ''x'' ''1'') ''y'' ''2'') ''x'') ''y'' = Some ''2''"
proof -
  have k: "kv_key ''x''" "kv_key ''y''"
    by (simp_all add: kv_key_def)
  note i = kv_init_ins [OF k(1), of "''1''"]
  have "find_key (put_slot kv_init 0 ''x'' ''1'') ''y'' = Done (- 1)"
    by (rule find_key_absent [OF i(2)]) (simp_all add: i(3))
  then have "kv_room (kv_ins kv_init ''x'' ''1'') ''y''"
    using i by (simp add: kv_room_def)
  then show ?thesis
    using kv_sequence_refines_map [of "[Put ''x'' ''1'', Put ''y'' ''2'', Del ''x'']" "''y''"] kv_init_room k
    by simp
qed

text \<open>
  \<^verbatim>\<open>kv_write\<close> of a key that is not in slot 0, with room for it, returns 0; \<^verbatim>\<open>kv_read\<close> of the key then
  returns a pointer to the value, and every other key reads as before.
\<close>

lemma kv_write_then_read:
  assumes "kv_ok kv" "kv_key k" "kv_room kv k"
  shows "\<exists>kv' a. kv_write kv k v = Done (0, kv') \<and> kv_ok kv' \<and> kv_read kv' k = Done (Some a) \<and>
    kv_heap kv' a = Some v \<and> (\<forall>j. kv_key j \<and> j \<noteq> k \<longrightarrow> kv_lookup kv' j = kv_lookup kv j)"
proof -
  obtain kv' where kv': "kv_write kv k v = Done (0, kv')" "kv_ok kv'"
      "\<And>j. kv_key j \<Longrightarrow> kv_lookup kv' j = (if j = k then Some v else kv_lookup kv j)"
    by (rule kv_write_allowed [OF assms]) blast
  have "kv_wf kv'" "NUL \<notin> set k"
    using kv'(2) assms(2) by (simp_all add: kv_ok_def kv_keyD)
  then obtain a where "kv_read kv' k = Done (Some a)" "kv_heap kv' a = Some v"
    by (rule kv_read_found) (simp add: kv'(3) [OF assms(2)])
  then show ?thesis
    using kv' by auto
qed

lemma kv_write_then_read_witness:
  "\<exists>kv' a. kv_write kv_init ''x'' ''1'' = Done (0, kv') \<and> kv_read kv' ''x'' = Done (Some a) \<and>
     kv_heap kv' a = Some ''1''"
proof -
  have k: "kv_key ''x''"
    by (simp add: kv_key_def)
  show ?thesis
    using kv_write_then_read [OF kv_init_ok k kv_init_room [OF k], of "''1''"] by blast
qed

text \<open>
  C12. No operation on a well-formed store has undefined behaviour: no unterminated key is compared, no value
  is freed twice, the pointer that \<^verbatim>\<open>kv_read\<close> returns is allocated, and the store stays well formed.
\<close>

theorem kv_operations_safe:
  assumes "kv_wf kv" "NUL \<notin> set k"
  shows "(\<exists>r kv'. kv_write kv k v = Done (r, kv') \<and> kv_wf kv') \<and>
    (\<exists>kv'. kv_delete kv k = Done kv' \<and> kv_wf kv') \<and>
    (\<exists>p. kv_read kv k = Done p \<and> (\<forall>a. p = Some a \<longrightarrow> kv_heap kv a \<noteq> None))"
proof -
  have new: "\<exists>r kv'. kv_write kv k v = Done (r, kv') \<and> kv_wf kv'" if "find_key kv k = Done i" "i \<le> 0" for i
    using assms(1)
  proof (cases rule: free_slot_cases)
    case (free j)
    then show ?thesis
      using kv_write_new [OF that free(1,2)] put_slot(4) [OF assms(1) free(3,4) assms(2)] by blast
  next
    case full
    then show ?thesis
      using that assms(1) by (simp add: kv_write_def)
  qed
  from assms show ?thesis
  proof (cases rule: find_key_cases)
    case (found i)
    have "\<exists>r kv'. kv_write kv k v = Done (r, kv') \<and> kv_wf kv'"
    proof (cases "0 < i")
      case True
      then show ?thesis
        using kv_write_found [OF assms(1) found(1,2) True] set_val(2) [OF assms(1) found(2)] by blast
    qed (use new [OF found(1)] in simp)
    then show ?thesis
      using kv_delete_found [OF assms(1) found(1,2)] clear_slot(2) [OF assms(1) found(2)]
        kv_wfD(4) [OF assms(1) found(2)] found(1) by (simp add: kv_read_def)
  next
    case absent
    then show ?thesis
      using new [OF absent(1)] assms(1) by (simp add: kv_delete_def kv_read_def)
  qed
qed

theorem kv_operations_safe_witness:
  "\<exists>r kv'. kv_write kv_init ''x'' ''1'' = Done (r, kv') \<and> kv_wf kv'"
  using kv_operations_safe [OF kv_init_wf(1), of "''x''" "''1''"] by simp

text \<open>
  The key in slot 0 cannot be overwritten: on a new store, a second write of the first key returns 0
  but \<^verbatim>\<open>kv_read\<close> still finds the old value; after a deletion, the key is still there, with the
  second value.
\<close>

lemma kv_first_key_stuck:
  assumes "kv_key k"
  shows "\<exists>kv1 kv2 kv3. kv_write kv_init k v1 = Done (0, kv1) \<and> kv_write kv1 k v2 = Done (0, kv2) \<and>
    kv_lookup kv2 k = Some v1 \<and> kv_delete kv2 k = Done kv3 \<and> kv_lookup kv3 k = Some v2"
proof -
  let ?kv1 = "put_slot kv_init 0 k v1"
  let ?kv2 = "put_slot ?kv1 1 k v2"
  let ?kv3 = "clear_slot ?kv2 0"
  have k: "NUL \<notin> set k" "take 31 k = k"
    using assms by (simp_all add: kv_keyD)
  note i = kv_init_ins [OF assms, where v = v1]
  have s1: "ke_stat (kv_keys ?kv1 ! 1) = 0"
    by (simp add: kv_init_def put_slot_def)
  note p = put_slot [OF i(2) _ s1 k(1), where v = v2, simplified]
  have slots: "slot_key ?kv2 j k \<longleftrightarrow> j = 0 \<or> j = 1" for j
    using p(1) k(2) i(3) by auto
  have find: "find_key kv_init k = Done (- 1)" "find_key ?kv1 k = Done 0" "find_key ?kv2 k = Done 0"
    using find_key_absent [OF kv_init_wf(1) k(1)] find_key_first [OF i(2) k(1), of 0]
      find_key_first [OF p(4) k(1), of 0] kv_init_wf(2) slots i(3) by simp_all
  have w1: "kv_write kv_init k v1 = Done (0, ?kv1)"
    using kv_write_new [OF find(1), of 0 v1] first_free [OF kv_init_wf(1), of 0] by (simp add: kv_init_def)
  have "kv_lookup ?kv1 k = Some v1"
    using put_slot_lookup [OF kv_init_wf(1), of 0 k k v1] k kv_init_wf(2) by (simp add: kv_init_def)
  then have "kv_lookup ?kv2 k = Some v1"
    using put_slot_lookup [OF i(2) _ s1 k(1,1)] i(3) by auto
  moreover have "kv_delete ?kv2 k = Done ?kv3"
    using kv_delete_found [OF p(4), of k 0] find(3) slots by simp
  moreover have "kv_lookup ?kv3 k = Some v2"
    using kv_lookup_slot [OF clear_slot(2) [OF p(4), of 0 k] k(1), of 1] slots p(3)
      clear_slot(1) [OF p(4), of 0 k 1 k] by (auto simp: clear_slot_key)
  ultimately show ?thesis
    using w1 kv_write_new [OF find(2) _ i(4,5)] by auto
qed

lemma kv_first_key_stuck_witness:
  "\<exists>kv1 kv2. kv_write kv_init ''x'' ''1'' = Done (0, kv1) \<and> kv_write kv1 ''x'' ''2'' = Done (0, kv2) \<and>
     kv_lookup kv2 ''x'' = Some ''1''"
  using kv_first_key_stuck [of "''x''" "''1''" "''2''"] by (auto simp: kv_key_def)

text \<open>
  When no slot is free, \<^verbatim>\<open>kv_write\<close> of a key that is not in the table, or that is in slot 0, returns 1
  and changes nothing.
\<close>

lemma kv_write_full_table:
  assumes "kv_wf kv" "NUL \<notin> set k" "\<forall>j<TABLE_MAX. ke_stat (kv_keys kv ! j) = 1"
    "(\<forall>i. \<not> slot_key kv i k) \<or> slot_key kv 0 k"
  shows "kv_write kv k v = Done (1, kv)"
proof -
  have "\<not> key_len kv < TABLE_MAX"
    using assms(1) by (cases rule: free_slot_cases) (use assms(3) in auto)
  moreover have "find_key kv k = Done (- 1) \<or> find_key kv k = Done 0"
    using find_key_absent [OF assms(1,2)] find_key_first [OF assms(1,2), of 0] assms(4) by auto
  ultimately show ?thesis
    by (auto simp: kv_write_def)
qed

definition full_store :: kvstore where
  "full_store = \<lparr>kv_keys = replicate TABLE_MAX \<lparr>ke_stat = 1, ke_key = key_array ''x''\<rparr>,
     kv_values = [0..<TABLE_MAX], kv_heap = (\<lambda>a. if a < TABLE_MAX then Some ''v'' else None), kv_brk = TABLE_MAX\<rparr>"

lemma kv_write_full_table_witness: "kv_write full_store ''y'' ''1'' = Done (1, full_store)"
proof -
  have key: "slot_key full_store i k \<longleftrightarrow> i < TABLE_MAX \<and> k = ''x''" for i k
    using c_str_key_array [of "''x''"] by (auto simp: slot_key_def full_store_def)
  have "kv_wf full_store"
    unfolding kv_wf_def key by (simp add: full_store_def)
  then show ?thesis
    using kv_write_full_table [of full_store "''y''" "''1''"] by (simp add: key) (simp add: full_store_def)
qed

text \<open>
  The pointer that \<^verbatim>\<open>kv_read\<close> returns outlives the lock: a deletion of the key, or an overwrite, by
  another thread before the reader uses it frees the memory it points to.
\<close>

lemma kv_read_pointer_dangles:
  assumes "kv_wf kv" "NUL \<notin> set k" "kv_read kv k = Done (Some a)"
  shows "(\<exists>kv'. kv_delete kv k = Done kv' \<and> kv_heap kv' a = None) \<and>
    (find_key kv k \<noteq> Done 0 \<longrightarrow> (\<exists>kv'. kv_write kv k v = Done (0, kv') \<and> kv_heap kv' a = None))"
  using assms(1,2)
proof (cases rule: find_key_cases)
  case (found i)
  have a: "a = kv_values kv ! i"
    using assms(3) found(1) by (simp add: kv_read_def)
  have "kv_heap (clear_slot kv i) a = None" "kv_heap (set_val kv i v) a = None"
    using val_below_brk [OF assms(1) found(2)] by (simp_all add: a clear_slot_def set_val_def)
  moreover have "0 < i" if "find_key kv k \<noteq> Done 0"
    using that found(1) by (cases i) simp_all
  ultimately show ?thesis
    using kv_delete_found [OF assms(1) found(1,2)] kv_write_found [OF assms(1) found(1,2)] by blast
qed (use assms(3) in \<open>simp add: kv_read_def\<close>)

lemma kv_read_pointer_dangles_witness:
  "\<exists>a kv'. kv_read full_store ''x'' = Done (Some a) \<and> kv_delete full_store ''x'' = Done kv' \<and>
     kv_heap kv' a = None"
proof -
  have key: "slot_key full_store i k \<longleftrightarrow> i < TABLE_MAX \<and> k = ''x''" for i k
    using c_str_key_array [of "''x''"] by (auto simp: slot_key_def full_store_def)
  have wf: "kv_wf full_store"
    unfolding kv_wf_def key by (simp add: full_store_def)
  have "kv_read full_store ''x'' = Done (Some 0)"
    using find_key_first [OF wf, of "''x''" 0] by (simp add: kv_read_def key) (simp add: full_store_def)
  then show ?thesis
    using kv_read_pointer_dangles [OF wf, of "''x''" 0] by auto
qed

end
