(* ===== verification/Db_Server.thy ===== *)
theory Db_Server
  imports Kvstore Task_Queue
begin

text \<open>
  What the workers and the control thread of the Lab 3 server do: the statistics (\<^verbatim>\<open>stats.c\<close>), the
  handlers of \<^verbatim>\<open>worker.c\<close> on one connection, the start-up and the admin commands of \<^verbatim>\<open>dbserver.c\<close>, all in
  \<^verbatim>\<open>lab3-TheCarton-main\<close>.  A connection is the list of segments that arrive on it and the bytes sent back; \<^verbatim>\<open>read\<close>
  returns at most one segment, 0 at the end of the stream, or an error.  Memory that is not
  initialised holds arbitrary bytes, given by the parameter \<open>junk\<close>; \<open>crc\<close> stands for \<^verbatim>\<open>crc32\<close> of zlib, whose value is only
  traced.  Text printed to \<^verbatim>\<open>stderr\<close> and the sleep before an operation are left out.
\<close>

section \<open>Statistics\<close>

record stats =
  n_writes :: int
  n_reads :: int
  n_deletes :: int
  n_fails :: int

abbreviation INT_MAX :: int where
  "INT_MAX \<equiv> 2 ^ 31 - 1"

definition inc_write :: "stats \<Rightarrow> stats outcome" where
  "inc_write s = (if n_writes s = INT_MAX then Undef else Done (s\<lparr>n_writes := n_writes s + 1\<rparr>))"

definition inc_read :: "stats \<Rightarrow> stats outcome" where
  "inc_read s = (if n_reads s = INT_MAX then Undef else Done (s\<lparr>n_reads := n_reads s + 1\<rparr>))"

definition inc_delete :: "stats \<Rightarrow> stats outcome" where
  "inc_delete s = (if n_deletes s = INT_MAX then Undef else Done (s\<lparr>n_deletes := n_deletes s + 1\<rparr>))"

definition inc_fail :: "stats \<Rightarrow> stats outcome" where
  "inc_fail s = (if n_fails s = INT_MAX then Undef else Done (s\<lparr>n_fails := n_fails s + 1\<rparr>))"

definition get_writes :: "stats \<Rightarrow> int" where "get_writes s = n_writes s"
definition get_reads :: "stats \<Rightarrow> int" where "get_reads s = n_reads s"
definition get_deletes :: "stats \<Rightarrow> int" where "get_deletes s = n_deletes s"
definition get_fails :: "stats \<Rightarrow> int" where "get_fails s = n_fails s"

section \<open>Sockets and requests\<close>

datatype segment = Seg "char list" | Err

text \<open>\<^verbatim>\<open>read(sock, buf, count)\<close>: the bytes and the stream that is left; \<open>None\<close> is -1, no byte is the end.\<close>

fun sock_read :: "nat \<Rightarrow> segment list \<Rightarrow> char list option \<times> segment list" where
  "sock_read k [] = (Some [], [])"
| "sock_read k (Err # ss) = (None, ss)"
| "sock_read k (Seg bs # ss) =
     (if bs = [] then sock_read k ss
      else (Some (take k bs), if length bs \<le> k then ss else Seg (drop k bs) # ss))"

text \<open>\<^verbatim>\<open>struct request\<close>: one byte, 31 bytes, 8 bytes.\<close>

record request =
  rq_op :: char
  rq_name :: "char list"
  rq_len :: "char list"

definition rq_size :: nat where "rq_size = 40"

definition rq_bytes :: "request \<Rightarrow> char list" where
  "rq_bytes rq = rq_op rq # rq_name rq @ rq_len rq"

definition rq_of :: "char list \<Rightarrow> request" where
  "rq_of bs = \<lparr>rq_op = hd bs, rq_name = take 31 (drop 1 bs), rq_len = drop 32 bs\<rparr>"

text \<open>The bytes of a variable over which the first bytes were read.\<close>

definition overlay :: "char list \<Rightarrow> char list \<Rightarrow> char list" where
  "overlay bs old = bs @ drop (length bs) old"

section \<open>Server state\<close>

record db =
  db_kv :: kvstore
  db_stats :: stats
  db_trace :: "string list"
  db_in :: "segment list"
  db_sent :: "char list"

definition trace :: "bool \<Rightarrow> string \<Rightarrow> db \<Rightarrow> db" where
  "trace debug msg d = (if \<not> debug then d else d\<lparr>db_trace := db_trace d @ [msg]\<rparr>)"

lemma trace_simps [simp]:
  "db_kv (trace b msg d) = db_kv d" "db_stats (trace b msg d) = db_stats d" "db_sent (trace b msg d) = db_sent d"
  "db_in (trace b msg d) = db_in d"
  by (simp_all add: trace_def)

text \<open>\<^verbatim>\<open>cleanup\<close>: the exit status depends on \<^verbatim>\<open>close\<close> of the listening socket.\<close>

definition cleanup :: "bool \<Rightarrow> 'a outcome" where
  "cleanup close_ok = (if close_ok then Exit 0 else Exit 1)"

definition init_db :: "segment list \<Rightarrow> db" where
  "init_db segs = \<lparr>db_kv = kv_init, db_stats = \<lparr>n_writes = 0, n_reads = 0, n_deletes = 0, n_fails = 0\<rparr>,
     db_trace = [], db_in = segs, db_sent = []\<rparr>"

text \<open>The parameters of a run: uninitialised memory, \<^verbatim>\<open>crc32\<close>, the flag \<^verbatim>\<open>debug\<close>, the result of \<^verbatim>\<open>close\<close>,
  the text of \<^verbatim>\<open>strerror\<close>.\<close>

record env =
  junk :: "nat \<Rightarrow> char"
  crc :: "char list \<Rightarrow> int"
  debug :: bool
  close_ok :: bool
  errmsg :: string

definition stack_mem :: "env \<Rightarrow> nat \<Rightarrow> char list" where
  "stack_mem e n = map (junk e) [0..<n]"

section \<open>worker.c\<close>

definition resp_fail :: "request \<Rightarrow> db \<Rightarrow> db outcome" where
  "resp_fail rq d =
     obind (inc_fail (db_stats d)) (\<lambda>st.
     Done (d\<lparr>db_stats := st, db_sent := db_sent d @ rq_bytes (rq\<lparr>rq_op := CHR ''X''\<rparr>)\<rparr>))"

text \<open>\<^verbatim>\<open>sprintf(rq->len, "%d", len)\<close> overruns the field for a number of xs than seven digits.\<close>

definition put_len :: "int \<Rightarrow> request \<Rightarrow> request outcome" where
  "put_len len rq = obind (mem_write 0 (int_text len @ [NUL]) (rq_len rq)) (\<lambda>l. Done (rq\<lparr>rq_len := l\<rparr>))"

definition resp_okay :: "request \<Rightarrow> string \<Rightarrow> db \<Rightarrow> db outcome" where
  "resp_okay rq data d =
     obind (put_len (int (length data)) (rq\<lparr>rq_op := CHR ''K''\<rparr>)) (\<lambda>rq.
     Done (d\<lparr>db_sent := db_sent d @ rq_bytes rq @ data\<rparr>))"

text \<open>
  The receive loop of \<^verbatim>\<open>handle_write\<close>: each \<^verbatim>\<open>read\<close> asks for \<open>len\<close> bytes and stores them at the start of
  \<^verbatim>\<open>buf\<close>.  Result: the last \<^verbatim>\<open>n\<close> (\<open>None\<close> when it was never set), the number of bytes and the buffer.
\<close>

function recv_loop :: "nat \<Rightarrow> nat \<Rightarrow> int option \<Rightarrow> char list \<Rightarrow> segment list
    \<Rightarrow> int option \<times> nat \<times> char list \<times> segment list" where
  "recv_loop len bytes n buf ss =
     (if bytes < len
      then (case sock_read len ss of
              (None, ss') \<Rightarrow> (Some (- 1), bytes, buf, ss')
            | (Some bs, ss') \<Rightarrow>
                if bs = [] then (Some 0, bytes, buf, ss')
                else recv_loop len (bytes + length bs) (Some (int (length bs))) (overlay bs buf) ss')
      else (n, bytes, buf, ss))"
  by pat_completeness auto
termination
  by (relation "measure (\<lambda>(len, bytes, _). len - bytes)") (auto simp: length_greater_0_conv [symmetric] simp del: length_greater_0_conv)

declare recv_loop.simps [simp del]

definition handle_write :: "env \<Rightarrow> request \<Rightarrow> db \<Rightarrow> db outcome" where
  "handle_write e rq d =
     obind (inc_write (db_stats d)) (\<lambda>st. let d = d\<lparr>db_stats := st\<rparr> in
     obind (c_str (rq_len rq)) (\<lambda>len_s. obind (atoi len_s) (\<lambda>len.
     if len < 0 then Undef
     else let len = nat len; (n, bytes, buf, ss) = recv_loop len 0 None (stack_mem e (len + 1)) (db_in d);
              d = d\<lparr>db_in := ss\<rparr>; buf = buf[len := NUL]
       in if bytes > len + 1 then Undef
          else obind (c_str (rq_name rq)) (\<lambda>name.
          let d = trace (debug e) (''W '' @ name @ '' = '' @ int_text (int bytes) @ '','' @ int_text (crc e (take bytes buf))) d
          in case n of
               None \<Rightarrow> Undef
             | Some n \<Rightarrow>
                 if n < 0 then resp_fail rq d
                 else if n = 0 then resp_fail rq d
                 else obind (c_str buf) (\<lambda>val. obind (kv_write (db_kv d) name val) (\<lambda>(ret, kv).
                      if ret = 0 then resp_okay rq [] (d\<lparr>db_kv := kv\<rparr>) else resp_fail rq (d\<lparr>db_kv := kv\<rparr>)))))))"

definition handle_read :: "env \<Rightarrow> request \<Rightarrow> db \<Rightarrow> db outcome" where
  "handle_read e rq d =
     obind (inc_read (db_stats d)) (\<lambda>st. let d = d\<lparr>db_stats := st\<rparr> in
     obind (c_str (rq_name rq)) (\<lambda>key. obind (kv_read (db_kv d) key) (\<lambda>ret.
     case ret of
       None \<Rightarrow> resp_fail rq d
     | Some a \<Rightarrow> (case kv_heap (db_kv d) a of
         None \<Rightarrow> Undef
       | Some val \<Rightarrow>
           resp_okay rq val
             (trace (debug e) (''R '' @ key @ '' = '' @ int_text (int (length val)) @ '','' @ int_text (crc e val)) d)))))"

definition handle_delete :: "env \<Rightarrow> request \<Rightarrow> db \<Rightarrow> db outcome" where
  "handle_delete e rq d =
     obind (inc_delete (db_stats d)) (\<lambda>st. let d = d\<lparr>db_stats := st\<rparr> in
     obind (c_str (rq_name rq)) (\<lambda>key. obind (kv_delete (db_kv d) key) (\<lambda>kv.
     resp_okay rq [] (trace (debug e) (''D '' @ key @ '' '' @ [newline]) (d\<lparr>db_kv := kv\<rparr>)))))"

definition dispatch :: "env \<Rightarrow> db \<Rightarrow> db outcome" where
  "dispatch e d =
     (let (r, ss) = sock_read rq_size (db_in d); d = d\<lparr>db_in := ss\<rparr>;
          bs = (case r of None \<Rightarrow> [] | Some bs \<Rightarrow> bs);
          rq = rq_of (overlay bs (stack_mem e rq_size))
      in if length bs \<noteq> rq_size then resp_fail rq d
         else if rq_op rq = CHR ''W'' then handle_write e rq d
         else if rq_op rq = CHR ''R'' then handle_read e rq d
         else if rq_op rq = CHR ''D'' then handle_delete e rq d
         else if rq_op rq = CHR ''Q'' then cleanup (close_ok e)
         else resp_fail rq d)"

section \<open>dbserver.c\<close>

text \<open>One round of the command loop of \<^verbatim>\<open>main\<close>: the line (\<open>None\<close> at the end of the input) and what is printed.\<close>

definition sscanf_7s :: "string \<Rightarrow> string option" where
  "sscanf_7s line =
     (let w = takeWhile (\<lambda>c. \<not> is_space c) (dropWhile is_space line) in if w = [] then None else Some (take 7 w))"

definition admin_cmd :: "env \<Rightarrow> task_queue \<Rightarrow> db \<Rightarrow> string option \<Rightarrow> string outcome" where
  "admin_cmd e q d line =
     (case line of
        None \<Rightarrow> Exit 0
      | Some line \<Rightarrow>
         (case sscanf_7s line of
            None \<Rightarrow> Done []
          | Some cmd \<Rightarrow>
              if cmd = ''quit'' then cleanup (close_ok e)
              else if cmd = ''stats'' then
                (case queue_count q of
                   Some (Done k) \<Rightarrow>
                     Done (''queued:   '' @ int_text k @ [newline] @ ''writes:   '' @ int_text (get_writes (db_stats d)) @ [newline] @
                       ''reads:    '' @ int_text (get_reads (db_stats d)) @ [newline] @
                       ''deletes:  '' @ int_text (get_deletes (db_stats d)) @ [newline] @
                       ''failures: '' @ int_text (get_fails (db_stats d)) @ [newline])
                 | _ \<Rightarrow> Undef)
              else if cmd = ''list'' then obind (kv_dump (db_kv d)) (\<lambda>ls. Done (concat ls))
              else if cmd = ''help'' then
                Done (''stats:  display the status of dbserver'' @ [newline] @
                  ''list:   list all existing kv-pairs in dbserver'' @ [newline] @
                  ''quit:   terminiate dbserver'' @ [newline])
              else Done (''UNKNOWN cmd: <'' @ cmd @ ''>'' @ [newline])))"

text \<open>The settings that \<^verbatim>\<open>main\<close> takes from its arguments and the environment: port, threads, sleep.\<close>

definition server_settings :: "string list \<Rightarrow> string option \<Rightarrow> string option \<Rightarrow> (int \<times> int \<times> int \<times> string) outcome" where
  "server_settings argv num_thread_env if_sleep_env =
     obind (if length argv = 2 then atoi (argv ! 1) else Done 5600) (\<lambda>port.
     obind (case num_thread_env of None \<Rightarrow> Done (4, [])
            | Some s \<Rightarrow> obind (atoi s) (\<lambda>n. Done (n, ''[INFO] set num_thread = '' @ int_text n @ [newline]))) (\<lambda>(num_thread, o1).
     obind (case if_sleep_env of None \<Rightarrow> Done (1, [])
            | Some s \<Rightarrow> obind (atoi s) (\<lambda>n. Done (n, ''[INFO] set if_sleep = '' @ int_text n @ [newline]))) (\<lambda>(if_sleep, o2).
     Done (port, num_thread, if_sleep, o1 @ o2))))"

section \<open>Requests on the wire\<close>

lemma overlay_length [simp]: "length bs \<le> length old \<Longrightarrow> length (overlay bs old) = length old"
  by (simp add: overlay_def)

lemma overlay_full [simp]: "length bs = length old \<Longrightarrow> overlay bs old = bs"
  by (simp add: overlay_def)

lemma stack_mem_length [simp]: "length (stack_mem e n) = n"
  by (simp add: stack_mem_def)

definition rq_wf :: "request \<Rightarrow> bool" where
  "rq_wf rq \<longleftrightarrow> length (rq_name rq) = 31 \<and> length (rq_len rq) = 8"

lemma rq_bytes_length [simp]: "rq_wf rq \<Longrightarrow> length (rq_bytes rq) = rq_size"
  by (simp add: rq_wf_def rq_bytes_def rq_size_def)

lemma rq_of_bytes [simp]: "rq_wf rq \<Longrightarrow> rq_of (rq_bytes rq) = rq"
  by (simp add: rq_wf_def rq_bytes_def rq_of_def)

lemma rq_of_wf: "length bs = rq_size \<Longrightarrow> rq_wf (rq_of bs)"
  by (simp add: rq_wf_def rq_of_def rq_size_def)

lemma rq_wf_op [simp]: "rq_wf (rq\<lparr>rq_op := c\<rparr>) = rq_wf rq"
  by (simp add: rq_wf_def)

lemma int_text_nat: "int_text (int n) = dec_text n"
  by (simp add: int_text_def)

lemma put_len_ok:
  assumes "rq_wf rq" "n < 10 ^ 7"
  obtains rq' where "put_len (int n) rq = Done rq'" "rq_wf rq'" "c_str (rq_len rq') = Done (dec_text n)"
    "rq_op rq' = rq_op rq" "rq_name rq' = rq_name rq" "atoi (dec_text n) = Done (int n)"
proof -
  have l: "length (dec_text n) \<le> 7"
    using length_dec_text [OF assms(2)] by simp
  let ?l = "dec_text n @ NUL # drop (Suc (length (dec_text n))) (rq_len rq)"
  have "put_len (int n) rq = Done (rq\<lparr>rq_len := ?l\<rparr>)"
    using assms(1) l by (simp add: put_len_def int_text_nat mem_write_fits rq_wf_def)
  moreover have "rq_wf (rq\<lparr>rq_len := ?l\<rparr>)"
    using assms(1) l by (simp add: rq_wf_def)
  moreover have "atoi (dec_text n) = Done (int n)"
    using assms(2) by (intro atoi_dec_text) simp
  ultimately show ?thesis
    using that dec_text_digits(3) by simp
qed

section \<open>The handlers\<close>

definition stats_ok :: "stats \<Rightarrow> bool" where
  "stats_ok s \<longleftrightarrow> n_writes s < INT_MAX \<and> n_reads s < INT_MAX \<and> n_deletes s < INT_MAX \<and> n_fails s < INT_MAX"

text \<open>A connection on which the stream \<open>ss\<close> arrives.\<close>

definition connect :: "db \<Rightarrow> segment list \<Rightarrow> db" where
  "connect d ss = d\<lparr>db_sent := [], db_in := ss\<rparr>"

text \<open>A request that arrives in one piece, alone or with the bytes after it.\<close>

lemma sock_read_whole:
  "bs \<noteq> [] \<Longrightarrow> length bs = k \<Longrightarrow> sock_read k (Seg (bs @ xs) # ss) = (Some bs, if xs = [] then ss else Seg xs # ss)"
  by (cases xs) auto

lemma dispatch_request:
  assumes "rq_wf rq" "db_in d = Seg (rq_bytes rq @ xs) # ss"
  shows "dispatch e d =
    (let d = d\<lparr>db_in := (if xs = [] then ss else Seg xs # ss)\<rparr>
     in if rq_op rq = CHR ''W'' then handle_write e rq d
        else if rq_op rq = CHR ''R'' then handle_read e rq d
        else if rq_op rq = CHR ''D'' then handle_delete e rq d
        else if rq_op rq = CHR ''Q'' then cleanup (close_ok e)
        else resp_fail rq d)"
proof -
  have "rq_bytes rq \<noteq> []"
    by (simp add: rq_bytes_def)
  then show ?thesis
    using assms sock_read_whole [of "rq_bytes rq" rq_size xs ss] by (simp add: dispatch_def Let_def)
qed

lemma resp_okay_ok:
  assumes "rq_wf rq" "length v < 10 ^ 7"
  obtains rq' where "resp_okay rq v d = Done (d\<lparr>db_sent := db_sent d @ rq_bytes rq' @ v\<rparr>)" "rq_wf rq'"
    "rq_op rq' = CHR ''K''" "c_str (rq_len rq') = Done (dec_text (length v))"
proof -
  have "rq_wf (rq\<lparr>rq_op := CHR ''K''\<rparr>)"
    using assms(1) by simp
  then obtain rq' where "put_len (int (length v)) (rq\<lparr>rq_op := CHR ''K''\<rparr>) = Done rq'" "rq_wf rq'"
      "c_str (rq_len rq') = Done (dec_text (length v))" "rq_op rq' = CHR ''K''"
    by (rule put_len_ok [OF _ assms(2)]) auto
  then show ?thesis
    using that by (simp add: resp_okay_def)
qed

lemma recv_loop_done: "recv_loop 0 b n buf ss = (n, b, buf, ss)" "recv_loop len len n buf ss = (n, len, buf, ss)"
  by (simp_all add: recv_loop.simps)

lemma recv_loop_one:
  assumes "v \<noteq> []" "length v = len"
  shows "recv_loop len 0 None buf (Seg v # ss) = (Some (int len), len, overlay v buf, ss)"
  using assms by (subst recv_loop.simps) (auto simp: recv_loop_done)

lemma recv_loop_two:
  assumes "v \<noteq> []" "w \<noteq> []" "length v + length w = len"
  shows "recv_loop len 0 None buf (Seg v # Seg w # ss) = (Some (int (length w)), len, overlay w (overlay v buf), ss)"
proof -
  have "recv_loop len 0 None buf (Seg v # Seg w # ss) =
      recv_loop len (length v) (Some (int (length v))) (overlay v buf) (Seg w # ss)"
    using assms by (subst recv_loop.simps) (auto simp: length_greater_0_conv [symmetric] simp del: length_greater_0_conv)
  also have "\<dots> = recv_loop len len (Some (int (length w))) (overlay w (overlay v buf)) ss"
    using assms by (subst recv_loop.simps) (auto simp: length_greater_0_conv [symmetric] simp del: length_greater_0_conv)
  finally show ?thesis
    by (simp add: recv_loop_done)
qed

text \<open>A write of a value that is received completely with the last \<^verbatim>\<open>read\<close> successful.\<close>

lemma handle_write_received:
  assumes "rq_wf rq" "c_str (rq_len rq) = Done (dec_text len)" "len < 10 ^ 7" "c_str (rq_name rq) = Done name"
    "recv_loop len 0 None (stack_mem e (len + 1)) (db_in d) = (Some n, len, buf, ss)" "0 < n"
    "c_str (buf[len := NUL]) = Done val" "kv_write (db_kv d) name val = Done (0, kv)" "n_writes (db_stats d) < INT_MAX"
  obtains d' rq' where "handle_write e rq d = Done d'" "db_kv d' = kv" "db_sent d' = db_sent d @ rq_bytes rq'" "rq_wf rq'"
    "rq_op rq' = CHR ''K''" "db_stats d' = (db_stats d)\<lparr>n_writes := n_writes (db_stats d) + 1\<rparr>"
proof -
  have at: "atoi (dec_text len) = Done (int len)"
    using assms(3) by (intro atoi_dec_text) simp
  let ?st = "(db_stats d)\<lparr>n_writes := n_writes (db_stats d) + 1\<rparr>"
  define t where "t = trace (debug e) (''W '' @ name @ '' = '' @ int_text (int len) @ '','' @
      int_text (crc e (take len (buf[len := NUL])))) (d\<lparr>db_stats := ?st, db_in := ss\<rparr>)"
  have t: "db_kv t = db_kv d" "db_stats t = ?st" "db_sent t = db_sent d"
    by (simp_all add: t_def)
  have st: "inc_write (db_stats d) = Done ?st"
    using assms(9) by (simp add: inc_write_def)
  have h: "handle_write e rq d = resp_okay rq [] (t\<lparr>db_kv := kv\<rparr>)"
    unfolding handle_write_def st assms(2,4) at obind.simps using assms(5-8) t(1) by (simp add: Let_def assms(4) t_def)
  show ?thesis
    by (rule resp_okay_ok [of rq "[]" "t\<lparr>db_kv := kv\<rparr>"]) (use assms(1) h t that in auto)
qed

lemma handle_read_found:
  assumes "rq_wf rq" "c_str (rq_name rq) = Done name" "kv_wf (db_kv d)" "kv_lookup (db_kv d) name = Some v"
    "length v < 10 ^ 7" "n_reads (db_stats d) < INT_MAX"
  obtains d' rq' where "handle_read e rq d = Done d'" "db_kv d' = db_kv d" "db_sent d' = db_sent d @ rq_bytes rq' @ v"
    "rq_wf rq'" "rq_op rq' = CHR ''K''" "c_str (rq_len rq') = Done (dec_text (length v))"
    "db_stats d' = (db_stats d)\<lparr>n_reads := n_reads (db_stats d) + 1\<rparr>"
proof -
  have "NUL \<notin> set name"
    using assms(2) by (simp add: c_str_Done_iff)
  then obtain a where a: "kv_read (db_kv d) name = Done (Some a)" "kv_heap (db_kv d) a = Some v"
    by (rule kv_read_found [OF assms(3) _ assms(4)])
  let ?st = "(db_stats d)\<lparr>n_reads := n_reads (db_stats d) + 1\<rparr>"
  define t where "t = trace (debug e) (''R '' @ name @ '' = '' @ int_text (int (length v)) @ '','' @
      int_text (crc e v)) (d\<lparr>db_stats := ?st\<rparr>)"
  have st: "inc_read (db_stats d) = Done ?st"
    using assms(6) by (simp add: inc_read_def)
  have h: "handle_read e rq d = resp_okay rq v t"
    using a by (simp add: handle_read_def st assms(2) t_def)
  show ?thesis
    by (rule resp_okay_ok [OF assms(1,5), of t]) (use h that in \<open>auto simp: t_def\<close>)
qed

lemma handle_read_absent:
  assumes "c_str (rq_name rq) = Done name" "kv_wf (db_kv d)" "kv_lookup (db_kv d) name = None" "stats_ok (db_stats d)"
  shows "handle_read e rq d = Done (d\<lparr>db_stats := (db_stats d)\<lparr>n_reads := n_reads (db_stats d) + 1,
      n_fails := n_fails (db_stats d) + 1\<rparr>, db_sent := db_sent d @ rq_bytes (rq\<lparr>rq_op := CHR ''X''\<rparr>)\<rparr>)"
proof -
  have "NUL \<notin> set name"
    using assms(1) by (simp add: c_str_Done_iff)
  then show ?thesis
    using assms kv_read_absent [OF assms(2) _ assms(3)]
    by (simp add: handle_read_def inc_read_def inc_fail_def resp_fail_def stats_ok_def)
qed

lemma handle_delete_ok:
  assumes "rq_wf rq" "c_str (rq_name rq) = Done name" "kv_delete (db_kv d) name = Done kv" "stats_ok (db_stats d)"
  obtains d' rq' where "handle_delete e rq d = Done d'" "db_kv d' = kv" "db_sent d' = db_sent d @ rq_bytes rq'"
    "rq_wf rq'" "rq_op rq' = CHR ''K''" "db_stats d' = (db_stats d)\<lparr>n_deletes := n_deletes (db_stats d) + 1\<rparr>"
proof -
  let ?st = "(db_stats d)\<lparr>n_deletes := n_deletes (db_stats d) + 1\<rparr>"
  define t where "t = trace (debug e) (''D '' @ name @ '' '' @ [newline]) (d\<lparr>db_stats := ?st, db_kv := kv\<rparr>)"
  have h: "handle_delete e rq d = resp_okay rq [] t"
    using assms(2-4) by (simp add: handle_delete_def inc_delete_def stats_ok_def t_def)
  show ?thesis
    by (rule resp_okay_ok [of rq "[]" t]) (use assms(1) h that in \<open>auto simp: t_def\<close>)
qed

end
