(* ===== verification/Db_Client.thy ===== *)
theory Db_Client
  imports Db_Server
begin

text \<open>
  The client of Lab 3 (\<^verbatim>\<open>lab3-TheCarton-main/dbclient.c\<close>): option parsing and the operations
  \<^verbatim>\<open>do_set\<close>, \<^verbatim>\<open>do_get\<close>, \<^verbatim>\<open>do_del\<close>, \<^verbatim>\<open>do_quit\<close>.  An operation sends its bytes, then reads the reply, which is
  given by its segments; the theorems connect both sides of a connection.  The concurrency
  tests at the end of the file are not modelled.
\<close>

section \<open>Option parsing\<close>

datatype client_op = OP_NONE | OP_SET | OP_GET | OP_DELETE | OP_QUIT | OP_TEST

record args =
  a_nthreads :: int
  a_count :: int
  a_port :: int
  a_max :: int
  a_op :: client_op
  a_key :: "string option"
  a_val :: "string option"
  a_log :: "string option"

definition zero_args :: args where
  "zero_args = \<lparr>a_nthreads = 0, a_count = 0, a_port = 0, a_max = 0, a_op = OP_NONE, a_key = None, a_val = None, a_log = None\<rparr>"

text \<open>The calls that \<^verbatim>\<open>argp_parse\<close> makes: at the start, per option and per argument with its number;
  \<open>Opt_l\<close> says whether the file could be opened.\<close>

datatype arg_event = Key_Init | Opt_l string bool | Opt_q | Opt_G string | Opt_S string | Opt_T string | Opt_D string
  | Opt_n string | Opt_p string | Key_Arg nat string | Key_Other

text \<open>\<^verbatim>\<open>argp_usage\<close> ends the process with the status \<^verbatim>\<open>EX_USAGE\<close>.\<close>

definition argp_usage :: "'a outcome" where "argp_usage = Exit 64"

definition take_key :: "client_op \<Rightarrow> string \<Rightarrow> args \<Rightarrow> (args \<times> string) outcome" where
  "take_key oper arg a =
     (if length arg > 30 then argp_usage else Done (a\<lparr>a_op := oper, a_key := Some arg\<rparr>, []))"

fun parse_opt :: "arg_event \<Rightarrow> args \<Rightarrow> (args \<times> string) outcome" where
  "parse_opt Key_Init a = Done (a\<lparr>a_nthreads := 1, a_count := 1000, a_port := 5600, a_max := 200, a_log := None\<rparr>, [])"
| "parse_opt (Opt_l arg opened) a = (if opened then Done (a\<lparr>a_log := Some arg\<rparr>, []) else Exit 1)"
| "parse_opt Opt_q a = Done (a\<lparr>a_op := OP_QUIT\<rparr>, [])"
| "parse_opt (Opt_G arg) a = take_key OP_GET arg a"
| "parse_opt (Opt_S arg) a = take_key OP_SET arg a"
| "parse_opt (Opt_T arg) a =
     obind (atoi arg) (\<lambda>n. if n = 0 then argp_usage else Done (a\<lparr>a_op := OP_TEST, a_nthreads := n\<rparr>, []))"
| "parse_opt (Opt_D arg) a = take_key OP_DELETE arg a"
| "parse_opt (Opt_n arg) a = obind (atoi arg) (\<lambda>n. Done (a\<lparr>a_count := n\<rparr>, []))"
| "parse_opt (Opt_p arg) a = obind (atoi arg) (\<lambda>n. Done (a\<lparr>a_port := n\<rparr>, []))"
| "parse_opt (Key_Arg i arg) a =
     (if i = 0 \<and> a_op a = OP_SET then Done (a\<lparr>a_val := Some arg\<rparr>, ''val set to '' @ arg @ [newline]) else argp_usage)"
| "parse_opt Key_Other a = Done (a, [])"

fun parse_args :: "arg_event list \<Rightarrow> args \<Rightarrow> (args \<times> string) outcome" where
  "parse_args [] a = Done (a, [])"
| "parse_args (x # xs) a =
     obind (parse_opt x a) (\<lambda>(a, out). obind (parse_args xs a) (\<lambda>(a, out'). Done (a, out @ out')))"

section \<open>Requests and replies\<close>

text \<open>\<^verbatim>\<open>snprintf(rq.name, sizeof(rq.name), "%s", name)\<close> on an uninitialised structure.\<close>

definition client_rq :: "env \<Rightarrow> char \<Rightarrow> string \<Rightarrow> request" where
  "client_rq e oper name =
     (let rq = rq_of (stack_mem e rq_size)
      in rq\<lparr>rq_op := oper, rq_name := overlay (take 30 name @ [NUL]) (rq_name rq)\<rparr>)"

text \<open>
  Reading the reply over the request: the structure, the message for a failed or short read, and the
  stream that is left.
\<close>

definition read_reply :: "env \<Rightarrow> string \<Rightarrow> request \<Rightarrow> segment list \<Rightarrow> request \<times> string option \<times> segment list" where
  "read_reply e what rq ss =
     (case sock_read rq_size ss of
        (None, ss) \<Rightarrow> (rq, Some (what @ '': REPLY: READ ERROR: '' @ errmsg e @ [newline]), ss)
      | (Some bs, ss) \<Rightarrow>
          (rq_of (overlay bs (rq_bytes rq)),
           if length bs < rq_size then Some (what @ '': REPLY: SHORT READ: '' @ int_text (int (length bs)) @ [newline])
           else None, ss))"

text \<open>The common end of \<^verbatim>\<open>do_del\<close> and \<^verbatim>\<open>do_set\<close>: the text printed and the status.\<close>

definition report :: "env \<Rightarrow> string \<Rightarrow> bool \<Rightarrow> request \<Rightarrow> segment list \<Rightarrow> string \<times> char" where
  "report e what quiet rq ss =
     (let (rq, msg, _) = read_reply e what rq ss
      in (case msg of
            Some m \<Rightarrow> m
          | None \<Rightarrow> if rq_op rq \<noteq> CHR ''K'' \<and> \<not> quiet then what @ '': FAILED ('' @ [rq_op rq] @ '')'' @ [newline]
                    else if \<not> quiet then ''ok'' @ [newline] else [],
          rq_op rq))"

text \<open>An operation: the messages it sends, then its result as a function of the reply.\<close>

definition do_del :: "env \<Rightarrow> string \<Rightarrow> bool \<Rightarrow> char list list \<times> (segment list \<Rightarrow> string \<times> char)" where
  "do_del e name quiet =
     (let rq = client_rq e CHR ''D'' name in ([rq_bytes rq], \<lambda>ss. report e ''DEL'' quiet rq ss))"

definition do_set :: "env \<Rightarrow> string \<Rightarrow> char list \<Rightarrow> nat \<Rightarrow> bool
    \<Rightarrow> (char list list \<times> (segment list \<Rightarrow> string \<times> char)) outcome" where
  "do_set e name data len quiet =
     obind (put_len (int len) (client_rq e CHR ''W'' name)) (\<lambda>rq.
     if length data < len then Undef
     else Done ([rq_bytes rq, take len data], \<lambda>ss. report e ''WRITE'' quiet rq ss))"

definition do_quit :: "env \<Rightarrow> char list list" where
  "do_quit e = [rq_bytes ((rq_of (stack_mem e rq_size))\<lparr>rq_op := CHR ''Q''\<rparr>)]"

text \<open>
  The receive loop of \<^verbatim>\<open>do_get\<close>, which stores at the right place; at the end of the stream \<^verbatim>\<open>read\<close> returns
  0 for ever and the loop does not end (\<open>None\<close>).  After an error the rest of the buffer is as it was.
\<close>

function get_loop :: "env \<Rightarrow> nat \<Rightarrow> char list \<Rightarrow> char list \<Rightarrow> segment list \<Rightarrow> (char list \<times> string) option" where
  "get_loop e len got buf ss =
     (if length got < len
      then (case sock_read (len - length got) ss of
              (None, _) \<Rightarrow> Some (overlay got buf, ''READ DATA: READ ERROR: '' @ errmsg e @ [newline])
            | (Some bs, ss') \<Rightarrow> if bs = [] then None else get_loop e len (got @ bs) buf ss')
      else Some (overlay got buf, []))"
  by pat_completeness auto
termination
  by (relation "measure (\<lambda>(_, len, got, _). len - length got)")
    (auto simp: length_greater_0_conv [symmetric] simp del: length_greater_0_conv)

declare get_loop.simps [simp del]

text \<open>The result: the text printed, the bytes copied to \<^verbatim>\<open>data\<close> when it is not NULL, the status.\<close>

definition do_get :: "env \<Rightarrow> string \<Rightarrow> bool
    \<Rightarrow> (char list list \<times> (segment list \<Rightarrow> (string \<times> char list option \<times> char) outcome option)) outcome" where
  "do_get e name want_data =
     obind (put_len 0 (client_rq e CHR ''R'' name)) (\<lambda>rq.
     Done ([rq_bytes rq], \<lambda>ss.
       let (rq, msg, ss) = read_reply e ''READ'' rq ss in
       case msg of
         Some m \<Rightarrow> Some (Done (m, None, rq_op rq))
       | None \<Rightarrow>
           if rq_op rq \<noteq> CHR ''K'' then Some (Done (''READ: FAILED ('' @ [rq_op rq] @ '')'' @ [newline], None, rq_op rq))
           else (case obind (c_str (rq_len rq)) atoi of
               Done len \<Rightarrow>
                 if len \<le> 0 then Some Undef
                 else (case get_loop e (nat len) [] (stack_mem e (nat len)) ss of
                     None \<Rightarrow> None
                   | Some (buf, err) \<Rightarrow>
                       Some (Done (if want_data then (err, Some buf, rq_op rq)
                         else (err @ ''=\"'' @ takeWhile (\<lambda>c. c \<noteq> NUL) buf @ ''\"'' @ [newline], None, rq_op rq))))
             | _ \<Rightarrow> Some Undef)))"

definition client_main :: "env \<Rightarrow> (args \<Rightarrow> char list list outcome) \<Rightarrow> arg_event list
    \<Rightarrow> (string \<times> char list list) outcome" where
  "client_main e do_test argv =
     obind (parse_args (Key_Init # argv) zero_args) (\<lambda>(a, out).
     obind (case (a_op a, a_key a) of
         (OP_SET, Some key) \<Rightarrow>
           (case a_val a of None \<Rightarrow> Undef | Some val \<Rightarrow>
              obind (do_set e key val (length val) False) (\<lambda>(msgs, _). Done ([], msgs)))
       | (OP_GET, Some key) \<Rightarrow> obind (do_get e key False) (\<lambda>(msgs, _). Done ([], msgs))
       | (OP_DELETE, Some key) \<Rightarrow> Done ([], fst (do_del e key False))
       | (OP_QUIT, _) \<Rightarrow> Done ([], do_quit e)
       | (OP_TEST, _) \<Rightarrow> obind (do_test a) (\<lambda>msgs. Done ([], msgs))
       | (OP_NONE, _) \<Rightarrow> Done (''See usage: \"dbclient --help\"'' @ [newline], [])
       | _ \<Rightarrow> Undef) (\<lambda>(txt, msgs). Done (out @ txt, msgs)))"

section \<open>Requests of the client\<close>

definition name_ok :: "string \<Rightarrow> bool" where
  "name_ok k \<longleftrightarrow> NUL \<notin> set k \<and> length k \<le> 30"

lemma name_ok_key: "name_ok k \<Longrightarrow> kv_key k"
  by (simp add: name_ok_def kv_key_def)

lemma client_rq_wf:
  "rq_wf (client_rq e c k)" "rq_op (client_rq e c k) = c" "name_ok k \<Longrightarrow> c_str (rq_name (client_rq e c k)) = Done k"
proof -
  have "rq_wf (rq_of (stack_mem e rq_size))"
    by (rule rq_of_wf) simp
  then show "rq_wf (client_rq e c k)"
    by (simp add: client_rq_def Let_def rq_wf_def)
  show "rq_op (client_rq e c k) = c"
    by (simp add: client_rq_def Let_def)
  show "c_str (rq_name (client_rq e c k)) = Done k" if "name_ok k"
    using that by (simp add: client_rq_def Let_def overlay_def name_ok_def)
qed

lemma do_set_ok:
  assumes "name_ok k" "length v < 10 ^ 7"
  obtains rq where "do_set e k v (length v) quiet = Done ([rq_bytes rq, v], \<lambda>ss. report e ''WRITE'' quiet rq ss)"
    "rq_wf rq" "rq_op rq = CHR ''W''" "c_str (rq_name rq) = Done k" "c_str (rq_len rq) = Done (dec_text (length v))"
proof -
  obtain rq where "put_len (int (length v)) (client_rq e CHR ''W'' k) = Done rq" "rq_wf rq"
      "c_str (rq_len rq) = Done (dec_text (length v))" "rq_op rq = rq_op (client_rq e CHR ''W'' k)"
      "rq_name rq = rq_name (client_rq e CHR ''W'' k)"
    by (rule put_len_ok [OF client_rq_wf(1) assms(2)])
  then show ?thesis
    using that client_rq_wf assms(1) by (simp add: do_set_def)
qed

lemma get_loop_pieces:
  assumes "got @ concat bss = v" "\<forall>bs\<in>set bss. bs \<noteq> []"
  shows "get_loop e (length v) got (stack_mem e (length v)) (map Seg bss) = Some (v, [])"
  using assms
proof (induction bss arbitrary: got)
  case Nil
  then show ?case
    by (subst get_loop.simps) simp
next
  case (Cons bs bss)
  have "bs \<noteq> []" "length got < length v" "length bs \<le> length v - length got"
    using Cons.prems by auto
  then show ?case
    using Cons.IH [of "got @ bs"] Cons.prems by (subst get_loop.simps) simp
qed

lemma read_reply_whole:
  assumes "rq_wf rq'" "rq_wf rq"
  shows "read_reply e what rq (Seg (rq_bytes rq' @ xs) # ss) = (rq', None, if xs = [] then ss else Seg xs # ss)"
proof -
  have "rq_bytes rq' \<noteq> []"
    by (simp add: rq_bytes_def)
  then show ?thesis
    using assms sock_read_whole [of "rq_bytes rq'" rq_size xs ss] by (simp add: read_reply_def)
qed

lemma do_get_ok:
  assumes "name_ok k"
  obtains rq res where "do_get e k True = Done ([rq_bytes rq], res)"
    "rq_wf rq" "rq_op rq = CHR ''R''" "c_str (rq_name rq) = Done k"
    "\<And>rq' v x bss. rq_wf rq' \<Longrightarrow> rq_op rq' = CHR ''K'' \<Longrightarrow> c_str (rq_len rq') = Done (dec_text (length v)) \<Longrightarrow>
       v \<noteq> [] \<Longrightarrow> length v < 10 ^ 7 \<Longrightarrow> x @ concat bss = v \<Longrightarrow> \<forall>bs\<in>set bss. bs \<noteq> [] \<Longrightarrow>
       res (Seg (rq_bytes rq' @ x) # map Seg bss) = Some (Done ([], Some v, CHR ''K''))"
proof -
  obtain rq where rq: "put_len (int 0) (client_rq e CHR ''R'' k) = Done rq" "rq_wf rq"
      "rq_op rq = rq_op (client_rq e CHR ''R'' k)" "rq_name rq = rq_name (client_rq e CHR ''R'' k)"
    by (rule put_len_ok [OF client_rq_wf(1), of 0 e "CHR ''R''" k]) simp_all
  define res where "res = snd (case do_get e k True of Done x \<Rightarrow> x | _ \<Rightarrow> undefined)"
  have d: "do_get e k True = Done ([rq_bytes rq], res)"
    using rq(1) by (simp add: do_get_def res_def)
  have "res (Seg (rq_bytes rq' @ x) # map Seg bss) = Some (Done ([], Some v, CHR ''K''))"
    if a: "rq_wf rq'" "rq_op rq' = CHR ''K''" "c_str (rq_len rq') = Done (dec_text (length v))" "v \<noteq> []"
      "length v < 10 ^ 7" "x @ concat bss = v" "\<forall>bs\<in>set bss. bs \<noteq> []" for rq' v x bss
  proof -
    have at: "atoi (dec_text (length v)) = Done (int (length v))"
      using a(5) by (intro atoi_dec_text) simp
    have "(if x = [] then map Seg bss else Seg x # map Seg bss) = map Seg (if x = [] then bss else x # bss)"
      by simp
    moreover have "get_loop e (length v) [] (stack_mem e (length v)) (map Seg (if x = [] then bss else x # bss)) = Some (v, [])"
      using a(6,7) by (intro get_loop_pieces) auto
    ultimately show ?thesis
      using rq(1,2) a(1-4) read_reply_whole [OF a(1) rq(2), of e "''READ''" x "map Seg bss"] at
      by (simp add: res_def do_get_def)
  qed
  then show ?thesis
    using that [OF d rq(2)] rq(3,4) client_rq_wf(2,3) assms by simp
qed

section \<open>Both sides of a connection\<close>

text \<open>The two messages of \<^verbatim>\<open>do_set\<close> as they arrive when neither is split.\<close>

definition unsplit :: "char list \<Rightarrow> char list \<Rightarrow> segment list set" where
  "unsplit m1 m2 = {[Seg (m1 @ m2)], [Seg m1, Seg m2]}"

lemma serve_set:
  assumes "kv_ok (db_kv d)" "n_writes (db_stats d) < INT_MAX" "name_ok k" "kv_room (db_kv d) k"
    "v \<noteq> []" "length v < 10 ^ 7"
    "rq_wf rq" "rq_op rq = CHR ''W''" "c_str (rq_name rq) = Done k" "c_str (rq_len rq) = Done (dec_text (length v))"
    "c_str (buf[length v := NUL]) = Done w"
    "db_in d = Seg (rq_bytes rq @ xs) # ss" "0 < n"
    "recv_loop (length v) 0 None (stack_mem e (length v + 1)) (if xs = [] then ss else Seg xs # ss) =
       (Some n, length v, buf, ts)"
  obtains d' rq' where "dispatch e d = Done d'" "kv_ok (db_kv d')"
    "\<And>j. kv_key j \<Longrightarrow> kv_lookup (db_kv d') j = (if j = k then Some w else kv_lookup (db_kv d) j)"
    "db_sent d' = db_sent d @ rq_bytes rq'" "rq_wf rq'" "rq_op rq' = CHR ''K''" "n_reads (db_stats d') = n_reads (db_stats d)"
proof -
  let ?d = "d\<lparr>db_in := (if xs = [] then ss else Seg xs # ss)\<rparr>"
  obtain kv where kv: "kv_write (db_kv ?d) k w = Done (0, kv)" "kv_ok kv"
      "\<And>j. kv_key j \<Longrightarrow> kv_lookup kv j = (if j = k then Some w else kv_lookup (db_kv d) j)"
    using kv_write_allowed [OF assms(1) name_ok_key [OF assms(3)] assms(4)] by auto
  have l: "recv_loop (length v) 0 None (stack_mem e (length v + 1)) (db_in ?d) = (Some n, length v, buf, ts)"
    using assms(14) by simp
  have s: "n_writes (db_stats ?d) < INT_MAX"
    using assms(2) by simp
  obtain d' rq' where d': "handle_write e rq ?d = Done d'" "db_kv d' = kv" "db_sent d' = db_sent ?d @ rq_bytes rq'"
      "rq_wf rq'" "rq_op rq' = CHR ''K''" "db_stats d' = (db_stats ?d)\<lparr>n_writes := n_writes (db_stats ?d) + 1\<rparr>"
    by (rule handle_write_received [OF assms(7,10,6,9) l assms(13,11) kv(1) s])
  show ?thesis
  proof (rule that)
    show "dispatch e d = Done d'"
      using dispatch_request [OF assms(7,12)] assms(8) d'(1) by (simp only: Let_def simp_thms if_True)
    show "kv_ok (db_kv d')" "db_sent d' = db_sent d @ rq_bytes rq'" "rq_wf rq'" "rq_op rq' = CHR ''K''"
      "n_reads (db_stats d') = n_reads (db_stats d)"
      using d' kv(2) by simp_all
    show "kv_lookup (db_kv d') j = (if j = k then Some w else kv_lookup (db_kv d) j)" if "kv_key j" for j
      using d'(2) kv(3) [OF that] by simp
  qed
qed

lemma c_str_value: "NUL \<notin> set v \<Longrightarrow> c_str ((overlay v (stack_mem e (length v + 1)))[length v := NUL]) = Done v"
proof -
  assume v: "NUL \<notin> set v"
  have "drop (length v) (stack_mem e (length v + 1)) = [junk e (length v)]"
    by (simp add: stack_mem_def drop_map)
  then have "(overlay v (stack_mem e (length v + 1)))[length v := NUL] = v @ NUL # []"
    by (simp add: overlay_def list_update_append)
  then show ?thesis
    using v by simp
qed

text \<open>
  C18. When the store has room for the key (it is not the one in slot 0, and the table is not full), a client's \<^verbatim>\<open>do_set\<close> of
  a value that is not empty, has no NUL and less than \<open>10 ^ 7\<close> bytes,
  whose request and value each arrive in one piece is answered with \<^verbatim>\<open>K\<close>, and a
  \<^verbatim>\<open>do_get\<close> of the key on the next connection receives exactly the value, provided that the header of the reply
  arrives whole in the first piece, alone or with the start of the value, and however the value is split on its way back.
\<close>

theorem db_set_then_get:
  assumes "kv_ok (db_kv d)" "n_writes (db_stats d) < INT_MAX" "n_reads (db_stats d) < INT_MAX" "name_ok k"
    "kv_room (db_kv d) k" "NUL \<notin> set v" "v \<noteq> []" "length v < 10 ^ 7"
    "do_set e k v (length v) quiet = Done ([m1, m2], set_reply)" "ss \<in> unsplit m1 m2"
    "do_get e k True = Done ([m3], get_reply)"
  shows "\<exists>d1 d2. dispatch e (connect d ss) = Done d1 \<and>
    set_reply [Seg (db_sent d1)] = (if quiet then [] else ''ok'' @ [newline], CHR ''K'') \<and>
    dispatch e (connect d1 [Seg m3]) = Done d2 \<and>
    (\<exists>h. length h = rq_size \<and> db_sent d2 = h @ v \<and>
      (\<forall>x bss. x @ concat bss = v \<and> (\<forall>bs\<in>set bss. bs \<noteq> []) \<longrightarrow>
         get_reply (Seg (h @ x) # map Seg bss) = Some (Done ([], Some v, CHR ''K''))))"
proof -
  obtain rq where rq: "m1 = rq_bytes rq" "m2 = v" "set_reply = (\<lambda>ss. report e ''WRITE'' quiet rq ss)"
    "rq_wf rq" "rq_op rq = CHR ''W''" "c_str (rq_name rq) = Done k" "c_str (rq_len rq) = Done (dec_text (length v))"
    by (rule do_set_ok [OF assms(4,8), of e quiet]) (use assms(9) in auto)
  obtain rg where rg: "m3 = rq_bytes rg" "rq_wf rg" "rq_op rg = CHR ''R''" "c_str (rq_name rg) = Done k"
    "\<And>rq' v x bss. rq_wf rq' \<Longrightarrow> rq_op rq' = CHR ''K'' \<Longrightarrow> c_str (rq_len rq') = Done (dec_text (length v)) \<Longrightarrow>
       v \<noteq> [] \<Longrightarrow> length v < 10 ^ 7 \<Longrightarrow> x @ concat bss = v \<Longrightarrow> \<forall>bs\<in>set bss. bs \<noteq> [] \<Longrightarrow>
       get_reply (Seg (rq_bytes rq' @ x) # map Seg bss) = Some (Done ([], Some v, CHR ''K''))"
    by (rule do_get_ok [OF assms(4), of e]) (use assms(11) in auto)
  obtain xs ts where ss: "ss = Seg (rq_bytes rq @ xs) # ts" "(if xs = [] then ts else Seg xs # ts) = [Seg v]"
    using assms(7,10) rq(1,2) by (auto simp: unsplit_def)
  have recv: "recv_loop (length v) 0 None (stack_mem e (length v + 1)) [Seg v] =
      (Some (int (length v)), length v, overlay v (stack_mem e (length v + 1)), [])"
    using recv_loop_one [OF assms(7)] by simp
  obtain d1 r1 where d1: "dispatch e (connect d ss) = Done d1" "kv_ok (db_kv d1)"
      "\<And>j. kv_key j \<Longrightarrow> kv_lookup (db_kv d1) j = (if j = k then Some v else kv_lookup (db_kv d) j)"
      "db_sent d1 = rq_bytes r1" "rq_wf r1" "rq_op r1 = CHR ''K''" "n_reads (db_stats d1) = n_reads (db_stats d)"
    by (rule serve_set [of "connect d ss" k v rq "overlay v (stack_mem e (length v + 1))" v xs ts "int (length v)" e "[]"])
      (use assms rq ss recv c_str_value [OF assms(6), of e] in \<open>auto simp: connect_def\<close>)
  have r1: "set_reply [Seg (db_sent d1)] = (if quiet then [] else ''ok'' @ [newline], CHR ''K'')"
    using rq(3) d1(4,6) read_reply_whole [OF d1(5) rq(4), of e "''WRITE''" "[]" "[]"] by (simp add: report_def)
  have "kv_lookup (db_kv d1) k = Some v"
    using d1(3) [OF name_ok_key [OF assms(4)]] by simp
  then have pre: "kv_wf (db_kv (connect d1 []))" "kv_lookup (db_kv (connect d1 [])) k = Some v"
    "n_reads (db_stats (connect d1 [])) < INT_MAX"
    using assms(3) d1(2,7) by (simp_all add: connect_def kv_ok_def)
  obtain d2 r2 where d2: "handle_read e rg (connect d1 []) = Done d2" "db_sent d2 = rq_bytes r2 @ v" "rq_wf r2"
      "rq_op r2 = CHR ''K''" "c_str (rq_len r2) = Done (dec_text (length v))"
    by (rule handle_read_found [OF rg(2,4) pre(1,2) assms(8) pre(3), where e = e]) (simp add: connect_def)
  have "dispatch e (connect d1 [Seg m3]) = Done d2"
    using dispatch_request [OF rg(2), of "connect d1 [Seg m3]" "[]" "[]" e] rg(1,3) d2(1) by (simp add: connect_def)
  moreover have "length (rq_bytes r2) = rq_size"
    using d2(3) by simp
  ultimately show ?thesis
    using d1(1) r1 d2(2) rg(5) [OF d2(3-5) assms(7,8)] by blast
qed

lemma do_set_msgs:
  assumes "name_ok k" "length v < 10 ^ 7"
  shows "\<exists>m1 r. do_set e k v (length v) q = Done ([m1, v], r)"
  using do_set_ok [OF assms, of e q] by metis

lemma do_get_msgs: "name_ok k \<Longrightarrow> \<exists>m r. do_get e k True = Done ([m], r)"
  using do_get_ok [of k e] by metis

text \<open>An environment for the witnesses.\<close>

definition plain_env :: env where
  "plain_env = \<lparr>junk = (\<lambda>_. CHR ''?''), crc = (\<lambda>_. 0), debug = True, close_ok = True, errmsg = ''error''\<rparr>"

lemma init_db_pre:
  "kv_ok (db_kv (init_db ss))" "n_writes (db_stats (init_db ss)) < INT_MAX" "n_reads (db_stats (init_db ss)) < INT_MAX"
  "name_ok k \<Longrightarrow> kv_room (db_kv (init_db ss)) k"
  using kv_init_ok kv_init_room [OF name_ok_key, of k] by (simp_all add: init_db_def)

theorem db_set_then_get_witness:
  "\<exists>m1 m2 m3 set_reply get_reply d1 d2 h. do_set plain_env ''key0'' ''val0'' 4 True = Done ([m1, m2], set_reply) \<and>
     do_get plain_env ''key0'' True = Done ([m3], get_reply) \<and>
     dispatch plain_env (connect (init_db []) [Seg m1, Seg m2]) = Done d1 \<and>
     dispatch plain_env (connect d1 [Seg m3]) = Done d2 \<and> db_sent d2 = h @ ''val0'' \<and>
     get_reply [Seg (h @ ''va''), Seg ''l0''] = Some (Done ([], Some ''val0'', CHR ''K''))"
proof -
  have k: "name_ok ''key0''"
    by (simp add: name_ok_def)
  obtain m1 sr where s: "do_set plain_env ''key0'' ''val0'' (length ''val0'') True = Done ([m1, ''val0''], sr)"
    using do_set_msgs [OF k, of "''val0''" plain_env True] by auto
  obtain m3 gr where g: "do_get plain_env ''key0'' True = Done ([m3], gr)"
    using do_get_msgs [OF k] by blast
  have u: "[Seg m1, Seg ''val0''] \<in> unsplit m1 ''val0''"
    by (simp add: unsplit_def)
  obtain d1 d2 h where d: "dispatch plain_env (connect (init_db []) [Seg m1, Seg ''val0'']) = Done d1"
      "dispatch plain_env (connect d1 [Seg m3]) = Done d2" "db_sent d2 = h @ ''val0''"
      "\<And>x bss. x @ concat bss = ''val0'' \<Longrightarrow> \<forall>bs\<in>set bss. bs \<noteq> [] \<Longrightarrow>
         gr (Seg (h @ x) # map Seg bss) = Some (Done ([], Some ''val0'', CHR ''K''))"
    using db_set_then_get [OF init_db_pre(1-3) k init_db_pre(4) [OF k] _ _ _ s u g, of "[]"] by auto
  have "gr [Seg (h @ ''va''), Seg ''l0''] = Some (Done ([], Some ''val0'', CHR ''K''))"
    using d(4) [of "''va''" "[''l0'']"] by simp
  moreover have "do_set plain_env ''key0'' ''val0'' 4 True = Done ([m1, ''val0''], sr)"
    using s by (simp add: numeral_eq_Suc)
  ultimately show ?thesis
    using g d(1-3) by blast
qed

text \<open>
  \<^verbatim>\<open>handle_write\<close> stores every piece of the value at the start of its buffer: a value that arrives in two
  pieces is acknowledged, but what is stored begins with the second piece.
\<close>

lemma db_set_split_corrupts:
  assumes "kv_ok (db_kv d)" "n_writes (db_stats d) < INT_MAX" "name_ok k" "kv_room (db_kv d) k"
    "NUL \<notin> set (v1 @ v2)" "v1 \<noteq> []" "v2 \<noteq> []" "length (v1 @ v2) < 10 ^ 7"
    "do_set e k (v1 @ v2) (length (v1 @ v2)) quiet = Done ([m1, m2], set_reply)"
  shows "\<exists>d1 w. dispatch e (connect d [Seg m1, Seg v1, Seg v2]) = Done d1 \<and>
    set_reply [Seg (db_sent d1)] = (if quiet then [] else ''ok'' @ [newline], CHR ''K'') \<and>
    kv_lookup (db_kv d1) k = Some (v2 @ w)"
proof -
  let ?v = "v1 @ v2"
  obtain rq where rq: "m1 = rq_bytes rq" "set_reply = (\<lambda>ss. report e ''WRITE'' quiet rq ss)"
    "rq_wf rq" "rq_op rq = CHR ''W''" "c_str (rq_name rq) = Done k" "c_str (rq_len rq) = Done (dec_text (length ?v))"
    by (rule do_set_ok [OF assms(3,8), of e quiet]) (use assms(9) in auto)
  let ?buf = "overlay v2 (overlay v1 (stack_mem e (length ?v + 1)))"
  have recv: "recv_loop (length ?v) 0 None (stack_mem e (length ?v + 1)) [Seg v1, Seg v2] =
      (Some (int (length v2)), length ?v, ?buf, [])"
    using recv_loop_two [OF assms(6,7), of "length ?v"] by simp
  obtain w where w: "c_str (?buf[length ?v := NUL]) = Done (v2 @ w)"
  proof -
    have "?buf[length ?v := NUL] = v2 @ (drop (length v2) (overlay v1 (stack_mem e (length ?v + 1))))[length v1 := NUL]"
      by (subst overlay_def) (simp add: list_update_append)
    moreover have "\<exists>w. c_str ((drop (length v2) (overlay v1 (stack_mem e (length ?v + 1))))[length v1 := NUL]) = Done w"
      using assms(6,7) by (intro c_str_terminates [of "length v1"]) (simp_all add: overlay_def)
    moreover have "c_str (v2 @ z) = obind (c_str z) (\<lambda>w. Done (v2 @ w))" for z
      using c_str_after [of v2 z] assms(5) by simp
    ultimately show ?thesis
      using that by auto
  qed
  obtain d1 r1 where d1: "dispatch e (connect d [Seg m1, Seg v1, Seg v2]) = Done d1"
      "\<And>j. kv_key j \<Longrightarrow> kv_lookup (db_kv d1) j = (if j = k then Some (v2 @ w) else kv_lookup (db_kv d) j)"
      "db_sent d1 = rq_bytes r1" "rq_wf r1" "rq_op r1 = CHR ''K''"
    by (rule serve_set [of "connect d [Seg m1, Seg v1, Seg v2]" k ?v rq ?buf "v2 @ w" "[]" "[Seg v1, Seg v2]"
          "int (length v2)" e "[]"])
      (use assms rq recv w in \<open>auto simp: connect_def\<close>)
  have "set_reply [Seg (db_sent d1)] = (if quiet then [] else ''ok'' @ [newline], CHR ''K'')"
    using rq(2) d1(3,5) read_reply_whole [OF d1(4) rq(3), of e "''WRITE''" "[]" "[]"] by (simp add: report_def)
  then show ?thesis
    using d1(1,2) name_ok_key [OF assms(3)] by auto
qed

lemma db_set_split_corrupts_witness:
  "\<exists>m1 r d1 w. do_set plain_env ''k'' ''abcd'' 4 True = Done ([m1, ''abcd''], r) \<and>
     dispatch plain_env (connect (init_db []) [Seg m1, Seg ''ab'', Seg ''cd'']) = Done d1 \<and>
     kv_lookup (db_kv d1) ''k'' = Some (''cd'' @ w)"
proof -
  have k: "name_ok ''k''"
    by (simp add: name_ok_def)
  obtain m1 r where s: "do_set plain_env ''k'' (''ab'' @ ''cd'') (length (''ab'' @ ''cd'')) True = Done ([m1, ''ab'' @ ''cd''], r)"
    using do_set_msgs [OF k, of "''ab'' @ ''cd''" plain_env True] by auto
  then have "do_set plain_env ''k'' ''abcd'' 4 True = Done ([m1, ''abcd''], r)"
    by (simp add: numeral_eq_Suc)
  moreover have "\<exists>d1 w. dispatch plain_env (connect (init_db []) [Seg m1, Seg ''ab'', Seg ''cd'']) = Done d1 \<and>
      kv_lookup (db_kv d1) ''k'' = Some (''cd'' @ w)"
    using db_set_split_corrupts [OF init_db_pre(1,2) k init_db_pre(4) [OF k] _ _ _ _ s, of "[]"] by auto
  ultimately show ?thesis
    by blast
qed

end
