(* ===== verification/Cmd_Parse.thy ===== *)
theory Cmd_Parse
  imports C_Prelude
begin

text \<open>
  The command-line parser of the Lab 2 shell (\<^verbatim>\<open>lab2-TheCarton-main/cmdparse.c\<close>, \<^verbatim>\<open>cmdparse.h\<close>): the tokenizer with its
  one-token rollback, the mutually recursive \<^verbatim>\<open>cmd_parse\<close> and \<^verbatim>\<open>cmd_line_parse\<close>, and \<^verbatim>\<open>cmd_print\<close>.  A command line is
  the text before its NUL; a linked list of commands is a list, NULL is the empty list.  The
  memory of commands (\<^verbatim>\<open>cmd_alloc\<close>, \<^verbatim>\<open>cmd_free\<close>, \<^verbatim>\<open>strdup\<close>) is not modelled: commands are values.  The parser can loop for
  ever, so that it has fuel: \<open>None\<close> says that it has not returned within so many steps, and an
  \<^verbatim>\<open>assert\<close> that fails is \<open>Abort\<close>.
\<close>

section \<open>cmdparse.h\<close>

abbreviation TOKENSIZE :: nat where "TOKENSIZE \<equiv> 1024"
abbreviation MAXTOKENS :: nat where "MAXTOKENS \<equiv> 512"

datatype tokentype = TOK_ERROR | TOK_END | TOK_NORMAL | TOK_LESS_THAN | TOK_GREATER_THAN | TOK_2_GREATER_THAN
  | TOK_SEMICOLON | TOK_AMPERSAND | TOK_PIPE | TOK_DOUBLEAMP | TOK_DOUBLEPIPE | TOK_OPEN_PAREN | TOK_CLOSE_PAREN

record parsestate =
  ps_position :: string
  ps_last :: "string option"

record token =
  tok_type :: tokentype
  tok_buffer :: string

datatype controlop = CMD_END | CMD_SEMICOLON | CMD_BACKGROUND | CMD_PIPE | CMD_AND | CMD_OR

text \<open>\<^verbatim>\<open>struct command\<close>: arguments, the three redirections, the subshell and the operator; \<^verbatim>\<open>next\<close> is the
  rest of the list.\<close>

datatype command =
  Command (cargv: "string list") (credir: "string option \<times> string option \<times> string option")
    (csub: "command list") (cop: controlop)

section \<open>The tokenizer\<close>

definition parse_init :: "string \<Rightarrow> parsestate" where
  "parse_init input_line = \<lparr>ps_position = input_line, ps_last = None\<rparr>"

text \<open>
  The loop over one token: the two bits of \<^verbatim>\<open>quote_state\<close>, \<^verbatim>\<open>any_quotes\<close>, the buffer, the text.  \<open>None\<close> is
  the token that is too long.
\<close>

fun scan :: "bool \<Rightarrow> bool \<Rightarrow> bool \<Rightarrow> string \<Rightarrow> string \<Rightarrow> (bool \<times> bool \<times> string \<times> string) option" where
  "scan dq bq any buf [] = Some (dq \<or> bq, any, buf, [])"
| "scan dq bq any buf (c # str) =
     (if \<not> (dq \<or> bq) \<and> is_space c then Some (False, any, buf, c # str)
      else if c = CHR 0x22 then scan (\<not> dq) bq True buf str
      else let bq' = (if c = CHR ''`'' then \<not> bq else bq); any' = (any \<or> c = CHR ''`'')
        in if TOKENSIZE - 1 \<le> length buf then None
           else if c \<in> {CHR ''('', CHR '')'', CHR '';''} \<and> \<not> (dq \<or> bq')
             then if buf = [] then Some (False, any', [c], str) else Some (False, any', buf, c # str)
           else scan dq bq' any' (buf @ [c]) str)"

definition token_type :: "bool \<Rightarrow> string \<Rightarrow> tokentype" where
  "token_type any buf =
     (if any then TOK_NORMAL
      else if buf = ''<'' then TOK_LESS_THAN
      else if buf = ''>'' then TOK_GREATER_THAN
      else if buf = ''2>'' then TOK_2_GREATER_THAN
      else if buf = ''&'' then TOK_AMPERSAND
      else if buf = '';'' then TOK_SEMICOLON
      else if buf = ''|'' then TOK_PIPE
      else if buf = ''&&'' then TOK_DOUBLEAMP
      else if buf = ''||'' then TOK_DOUBLEPIPE
      else if buf = ''('' then TOK_OPEN_PAREN
      else if buf = '')'' then TOK_CLOSE_PAREN
      else TOK_NORMAL)"

definition parse_gettoken :: "parsestate \<Rightarrow> token \<times> parsestate" where
  "parse_gettoken ps =
     (let str = dropWhile is_space (ps_position ps)
      in if str = [] then (\<lparr>tok_type = TOK_END, tok_buffer = []\<rparr>, ps\<lparr>ps_last := Some (ps_position ps)\<rparr>)
         else case scan False False False [] str of
             Some (False, any, buf, rest) \<Rightarrow>
               (\<lparr>tok_type = token_type any buf, tok_buffer = buf\<rparr>, \<lparr>ps_position = rest, ps_last = Some (ps_position ps)\<rparr>)
           | _ \<Rightarrow> (\<lparr>tok_type = TOK_ERROR, tok_buffer = []\<rparr>, ps))"

definition parse_ungettoken :: "parsestate \<Rightarrow> parsestate outcome" where
  "parse_ungettoken ps =
     (case ps_last ps of None \<Rightarrow> Abort | Some p \<Rightarrow> Done \<lparr>ps_position = p, ps_last = None\<rparr>)"

section \<open>The parser\<close>

definition cmd_alloc :: command where
  "cmd_alloc = Command [] (None, None, None) [] CMD_END"

fun add_arg :: "string \<Rightarrow> command \<Rightarrow> command" where
  "add_arg w (Command a r s p) = Command (a @ [w]) r s p"

fun set_redir :: "tokentype \<Rightarrow> string \<Rightarrow> command \<Rightarrow> command" where
  "set_redir t f (Command a (r0, r1, r2) s p) =
     (if t = TOK_LESS_THAN then Command a (Some f, r1, r2) s p
      else if t = TOK_GREATER_THAN then Command a (r0, Some f, r2) s p
      else Command a (r0, r1, Some f) s p)"

fun set_sub :: "command list \<Rightarrow> command \<Rightarrow> command" where
  "set_sub l (Command a r s p) = Command a r l p"

fun set_op :: "controlop \<Rightarrow> command \<Rightarrow> command" where
  "set_op q (Command a r s p) = Command a r s q"

text \<open>\<^verbatim>\<open>(controlop_t) token.type\<close>\<close>

fun to_op :: "tokentype \<Rightarrow> controlop" where
  "to_op TOK_SEMICOLON = CMD_SEMICOLON" | "to_op TOK_AMPERSAND = CMD_BACKGROUND" | "to_op TOK_PIPE = CMD_PIPE"
| "to_op TOK_DOUBLEAMP = CMD_AND" | "to_op TOK_DOUBLEPIPE = CMD_OR" | "to_op _ = CMD_END"

text \<open>The end of \<^verbatim>\<open>cmd_line_parse\<close> at the token \<open>t\<close>.\<close>

definition line_end :: "tokentype \<Rightarrow> bool \<Rightarrow> command list \<Rightarrow> command list" where
  "line_end t in_parens cmds =
     (if (t = TOK_END) = in_parens then []
      else if cmds \<noteq> [] \<and> cop (last cmds) \<notin> {CMD_END, CMD_SEMICOLON, CMD_BACKGROUND} then []
      else cmds)"

text \<open>
  \<open>cmd_loop n cmd\<close> is the loop of \<^verbatim>\<open>cmd_parse\<close> with the command built so far, \<open>cmdline_loop n in_parens cmds\<close> that of
  \<^verbatim>\<open>cmd_line_parse\<close> with the commands linked so far.
\<close>

fun cmd_loop :: "nat \<Rightarrow> command \<Rightarrow> parsestate \<Rightarrow> (command option \<times> parsestate) outcome option"
and cmdline_loop :: "nat \<Rightarrow> bool \<Rightarrow> command list \<Rightarrow> parsestate \<Rightarrow> (command list \<times> parsestate) outcome option" where
  "cmd_loop 0 cmd ps = None"
| "cmd_loop (Suc n) cmd ps =
     (let (token, ps) = parse_gettoken ps; t = tok_type token
      in if t = TOK_NORMAL then
           (if MAXTOKENS \<le> length (cargv cmd) \<or> csub cmd \<noteq> [] then Some (Done (None, ps))
            else cmd_loop n (add_arg (tok_buffer token) cmd) ps)
         else if t \<in> {TOK_LESS_THAN, TOK_GREATER_THAN, TOK_2_GREATER_THAN} then
           (if cargv cmd = [] \<and> csub cmd = [] then Some (Done (None, ps))
            else let (token, ps) = parse_gettoken ps
              in if tok_type token \<noteq> TOK_NORMAL then Some (Done (None, ps))
                 else cmd_loop n (set_redir t (tok_buffer token) cmd) ps)
         else if t = TOK_OPEN_PAREN then
           (case cmdline_loop n True [] ps of
              Some (Done (subcommand, ps)) \<Rightarrow> cmd_loop n (set_sub subcommand cmd) ps
            | Some _ \<Rightarrow> Some Abort
            | None \<Rightarrow> None)
         else Some (obind (parse_ungettoken ps) (\<lambda>ps.
                Done (if cargv cmd = [] \<and> csub cmd = [] then None else Some cmd, ps))))"
| "cmdline_loop 0 in_parens cmds ps = None"
| "cmdline_loop (Suc n) in_parens cmds ps =
     (case cmd_loop n cmd_alloc ps of
        None \<Rightarrow> None
      | Some (Done (None, ps)) \<Rightarrow> Some (Done ([], ps))
      | Some (Done (Some cmd, ps)) \<Rightarrow>
          (let (token, ps) = parse_gettoken ps; t = tok_type token
           in if t \<in> {TOK_DOUBLEAMP, TOK_DOUBLEPIPE, TOK_PIPE} then
                cmdline_loop n in_parens (cmds @ [set_op (to_op t) cmd]) ps
              else if t \<in> {TOK_SEMICOLON, TOK_AMPERSAND} then
                (let cmd = set_op (to_op t) cmd; (token, ps) = parse_gettoken ps
                 in if tok_type token \<in> {TOK_END, TOK_CLOSE_PAREN}
                    then Some (Done (line_end (tok_type token) in_parens (cmds @ [cmd]), ps))
                    else case parse_ungettoken ps of
                        Done ps \<Rightarrow> cmdline_loop n in_parens (cmds @ [cmd]) ps
                      | _ \<Rightarrow> Some Abort)
              else if t \<in> {TOK_END, TOK_CLOSE_PAREN} then
                Some (Done (line_end t in_parens (cmds @ [cmd]), ps))
              else Some (Done ([], ps)))
      | Some _ \<Rightarrow> Some Abort)"

definition cmd_parse :: "nat \<Rightarrow> parsestate \<Rightarrow> (command option \<times> parsestate) outcome option" where
  "cmd_parse n ps = cmd_loop n cmd_alloc ps"

definition cmd_line_parse :: "nat \<Rightarrow> bool \<Rightarrow> parsestate \<Rightarrow> (command list \<times> parsestate) outcome option" where
  "cmd_line_parse n in_parens ps = cmdline_loop n in_parens [] ps"

section \<open>cmd\_print\<close>

definition op_text :: "controlop \<Rightarrow> string" where
  "op_text p = (case p of CMD_SEMICOLON \<Rightarrow> '';'' | CMD_BACKGROUND \<Rightarrow> ''&'' | CMD_PIPE \<Rightarrow> ''|'' | CMD_AND \<Rightarrow> ''&&''
     | CMD_OR \<Rightarrow> ''||'' | CMD_END \<Rightarrow> ''.'')"

definition redir_text :: "string \<Rightarrow> string option \<Rightarrow> string" where
  "redir_text s r = (case r of None \<Rightarrow> [] | Some f \<Rightarrow> '' '' @ s @ f)"

text \<open>The text that is printed, or the assertion that fails.\<close>

lemma size_csub: "csub cmd \<noteq> [] \<Longrightarrow> size_list size (csub cmd) < size cmd"
  by (cases cmd) simp

function cmd_print :: "command list \<Rightarrow> nat \<Rightarrow> string outcome" where
  "cmd_print [] indent = Done (replicate indent (CHR '' '') @ ''[NULL]'' @ [newline])"
| "cmd_print (cmd # next) indent =
     (let (r0, r1, r2) = credir cmd in
      obind (if csub cmd = [] then Done [] else obind (cmd_print (csub cmd) (indent + 2)) (\<lambda>t. Done (newline # t))) (\<lambda>sub.
      let out = replicate indent (CHR '' '') @ ''['' @ dec_text (length (cargv cmd)) @ '' args'' @
            concat (map (\<lambda>a. '' '' @ [CHR 0x22] @ a @ [CHR 0x22]) (cargv cmd)) @
            redir_text ''<'' r0 @ redir_text ''>'' r1 @ redir_text ''2>'' r2 @ sub @ ''] '' @ op_text (cop cmd) @ [newline]
      in if next = [] \<and> cop cmd \<notin> {CMD_END, CMD_BACKGROUND, CMD_SEMICOLON} then Abort
         else if next = [] then Done out
         else obind (cmd_print next indent) (\<lambda>t. Done (out @ t))))"
  by pat_completeness auto
termination
  by (relation "measure (\<lambda>(cs, _). size_list size cs)") (auto dest: size_csub)

section \<open>The tokenizer returns a shorter text\<close>

lemma scan_length: "scan dq bq any buf s = Some (q, any', buf', rest) \<Longrightarrow> length rest \<le> length s"
proof (induction s arbitrary: dq bq any buf)
  case (Cons c s)
  from Cons.prems show ?case
    unfolding scan.simps(2) Let_def by (simp split: if_split_asm del: insert_iff) (fastforce dest: Cons.IH)+
qed simp

lemma scan_shrinks:
  assumes "s \<noteq> []" "\<not> is_space (hd s)" "scan False False False [] s = Some (q, any', buf', rest)"
  shows "length rest < length s"
proof (cases s)
  case (Cons c str)
  show ?thesis
    using assms(2,3) unfolding Cons scan.simps(2) Let_def
    by (simp split: if_split_asm del: insert_iff) (fastforce dest: scan_length)+
qed (use assms in simp)

text \<open>What one call of the tokenizer does.\<close>

lemma token_type_cases: "token_type any buf \<noteq> TOK_ERROR" "token_type any buf \<noteq> TOK_END"
  by (simp_all add: token_type_def)

lemma gettoken_cases:
  assumes "parse_gettoken ps = (token, ps')"
  obtains (fin) "tok_type token = TOK_END" "ps' = ps\<lparr>ps_last := Some (ps_position ps)\<rparr>" "\<forall>c\<in>set (ps_position ps). is_space c"
  | (err) "tok_type token = TOK_ERROR" "ps' = ps"
  | (tok) "tok_type token \<notin> {TOK_END, TOK_ERROR}" "ps_last ps' = Some (ps_position ps)"
      "length (ps_position ps') < length (ps_position ps)"
proof -
  let ?s = "dropWhile is_space (ps_position ps)"
  show ?thesis
  proof (cases "?s = []")
    case True
    then show ?thesis
      using assms fin by (auto simp: parse_gettoken_def Let_def dropWhile_eq_Nil_conv)
  next
    case False
    then have e: "(token, ps') = (case scan False False False [] ?s of
        Some (False, any, buf, rest) \<Rightarrow>
          (\<lparr>tok_type = token_type any buf, tok_buffer = buf\<rparr>, \<lparr>ps_position = rest, ps_last = Some (ps_position ps)\<rparr>)
      | _ \<Rightarrow> (\<lparr>tok_type = TOK_ERROR, tok_buffer = []\<rparr>, ps))"
      using assms by (simp only: parse_gettoken_def Let_def if_False)
    show ?thesis
    proof (cases "scan False False False [] ?s")
      case None
      then show ?thesis
        using e err by simp
    next
      case (Some r)
      obtain q any buf rest where r: "r = (q, any, buf, rest)" by (cases r)
      have "length rest < length ?s"
        using scan_shrinks [OF False hd_dropWhile [OF False]] Some r by simp
      then have "length rest < length (ps_position ps)"
        using length_dropWhile_le [of is_space "ps_position ps"] by simp
      then show ?thesis
        using e Some r err tok token_type_cases by (cases q) auto
    qed
  qed
qed

text \<open>The tokens of a text: \<open>None\<close> when the tokenizer reports an error, otherwise how many there are.\<close>

function tokens_left :: "string \<Rightarrow> nat option" where
  "tokens_left s =
     (let (token, ps) = parse_gettoken (parse_init s)
      in if tok_type token = TOK_ERROR then None
         else if tok_type token = TOK_END then Some 0
         else map_option Suc (tokens_left (ps_position ps)))"
  by pat_completeness auto
termination
proof (relation "measure length", simp, goal_cases)
  case (1 s r token ps)
  then have "parse_gettoken (parse_init s) = (token, ps)"
    by simp
  then show ?case
    using 1 by (cases rule: gettoken_cases) (auto simp: parse_init_def)
qed

declare tokens_left.simps [simp del]

lemma gettoken_init:
  assumes "parse_gettoken ps = (token, ps')"
  shows "\<exists>ps''. parse_gettoken (parse_init (ps_position ps)) = (token, ps'') \<and> ps_position ps'' = ps_position ps'"
  using assms by (auto simp: parse_gettoken_def parse_init_def Let_def split: if_splits option.splits bool.splits)

lemma gettoken_left:
  assumes "tokens_left (ps_position ps) = Some k" "parse_gettoken ps = (token, ps')"
  obtains "k = 0" "tok_type token = TOK_END" "ps_position ps' = ps_position ps" "ps_last ps' = Some (ps_position ps)"
  | j where "k = Suc j" "tok_type token \<notin> {TOK_END, TOK_ERROR}" "tokens_left (ps_position ps') = Some j"
      "ps_last ps' = Some (ps_position ps)"
proof -
  obtain ps'' where i: "parse_gettoken (parse_init (ps_position ps)) = (token, ps'')" "ps_position ps'' = ps_position ps'"
    using gettoken_init [OF assms(2)] by blast
  have k: "(if tok_type token = TOK_ERROR then None else if tok_type token = TOK_END then Some 0
      else map_option Suc (tokens_left (ps_position ps'))) = Some k"
    using assms(1) i by (subst (asm) tokens_left.simps) (auto split: if_splits)
  from assms(2) show ?thesis
  proof (cases rule: gettoken_cases)
    case fin
    then show ?thesis
      using that(1) k by simp
  next
    case err
    then show ?thesis
      using k by simp
  next
    case tok
    then show ?thesis
      using that(2) k by auto
  qed
qed

lemma gettoken_left_le:
  assumes "tokens_left (ps_position ps) = Some k" "parse_gettoken ps = (token, ps')"
  obtains j where "tokens_left (ps_position ps') = Some j" "j \<le> k" "tok_type token \<noteq> TOK_END \<Longrightarrow> j < k"
    "ps_last ps' = Some (ps_position ps)"
proof -
  from assms have "\<exists>j. tokens_left (ps_position ps') = Some j \<and> j \<le> k \<and> (tok_type token \<noteq> TOK_END \<longrightarrow> j < k) \<and>
      ps_last ps' = Some (ps_position ps)"
    by (cases rule: gettoken_left) (simp_all add: assms(1))
  then show ?thesis
    using that by blast
qed

section \<open>The parser returns\<close>

definition cmd_returns :: "nat \<Rightarrow> bool" where
  "cmd_returns n \<longleftrightarrow> (\<forall>cmd ps k. tokens_left (ps_position ps) = Some k \<and> 2 * k < n \<longrightarrow>
     (\<exists>r ps' j. cmd_loop n cmd ps = Some (Done (r, ps')) \<and> tokens_left (ps_position ps') = Some j \<and> j \<le> k \<and>
        (r \<noteq> None \<and> cargv cmd = [] \<and> csub cmd = [] \<longrightarrow> j < k)))"

definition line_returns :: "nat \<Rightarrow> bool" where
  "line_returns n \<longleftrightarrow> (\<forall>ip cmds ps k. tokens_left (ps_position ps) = Some k \<and> 2 * k + 1 < n \<longrightarrow>
     (\<exists>r ps' j. cmdline_loop n ip cmds ps = Some (Done (r, ps')) \<and> tokens_left (ps_position ps') = Some j \<and> j \<le> k))"

lemma cmd_returnsD:
  assumes "cmd_returns n" "tokens_left (ps_position ps) = Some k" "2 * k < n"
  obtains r ps' j where "cmd_loop n cmd ps = Some (Done (r, ps'))" "tokens_left (ps_position ps') = Some j" "j \<le> k"
    "r \<noteq> None \<Longrightarrow> cargv cmd = [] \<Longrightarrow> csub cmd = [] \<Longrightarrow> j < k"
  using assms unfolding cmd_returns_def by blast

lemma line_returnsD:
  assumes "line_returns n" "tokens_left (ps_position ps) = Some k" "2 * k + 1 < n"
  obtains r ps' j where "cmdline_loop n ip cmds ps = Some (Done (r, ps'))" "tokens_left (ps_position ps') = Some j" "j \<le> k"
  using assms unfolding line_returns_def by blast

lemma cmd_returns_Suc:
  assumes "cmd_returns n" "line_returns n"
  shows "cmd_returns (Suc n)"
  unfolding cmd_returns_def
proof (intro allI impI, elim conjE)
  fix cmd k and ps :: parsestate
  assume k: "tokens_left (ps_position ps) = Some k" "2 * k < Suc n"
  let ?goal = "\<exists>r ps' j. cmd_loop (Suc n) cmd ps = Some (Done (r, ps')) \<and> tokens_left (ps_position ps') = Some j \<and> j \<le> k \<and>
        (r \<noteq> None \<and> cargv cmd = [] \<and> csub cmd = [] \<longrightarrow> j < k)"
  obtain token ps1 where t: "parse_gettoken ps = (token, ps1)" by fastforce
  from k(1) t show ?goal
  proof (cases rule: gettoken_left)
    case 1
    then show ?thesis
      using t k(1) by (auto simp: parse_ungettoken_def)
  next
    case (2 j)
    have go: "?goal" if p: "cmd_loop (Suc n) cmd ps = cmd_loop n c p" "tokens_left (ps_position p) = Some i" "i \<le> j" for c p i
    proof -
      have "2 * i < n"
        using that(3) 2(1) k(2) by simp
      then obtain r p' i' where "cmd_loop n c p = Some (Done (r, p'))" "tokens_left (ps_position p') = Some i'" "i' \<le> i"
        using cmd_returnsD [OF assms(1) p(2)] by metis
      moreover have "i' < k"
        using calculation(3) that(3) 2(1) by simp
      ultimately show ?thesis
        using that(1) less_imp_le by auto
    qed
    have stop: "?goal" if "cmd_loop (Suc n) cmd ps = Some (Done (None, p))" "tokens_left (ps_position p) = Some i" "i \<le> j" for p i
      using that 2(1) by auto
    let ?t = "tok_type token"
    consider "?t = TOK_NORMAL" | "?t \<in> {TOK_LESS_THAN, TOK_GREATER_THAN, TOK_2_GREATER_THAN}" | "?t = TOK_OPEN_PAREN"
      | "?t \<notin> {TOK_NORMAL, TOK_LESS_THAN, TOK_GREATER_THAN, TOK_2_GREATER_THAN, TOK_OPEN_PAREN}"
      by blast
    then show ?thesis
    proof cases
      assume n: "?t = TOK_NORMAL"
      then show ?thesis
      proof (cases "MAXTOKENS \<le> length (cargv cmd) \<or> csub cmd \<noteq> []")
        case True
        then show ?thesis
          using stop [of ps1 j] t n 2(3) by simp
      next
        case False
        then show ?thesis
          using go [of "add_arg (tok_buffer token) cmd" ps1 j] t n 2(3) by simp
      qed
    next
      assume n: "?t \<in> {TOK_LESS_THAN, TOK_GREATER_THAN, TOK_2_GREATER_THAN}"
      obtain token2 ps2 where t2: "parse_gettoken ps1 = (token2, ps2)" by fastforce
      obtain i where i: "tokens_left (ps_position ps2) = Some i" "i \<le> j"
        using gettoken_left_le [OF 2(3) t2] by blast
      consider "cargv cmd = [] \<and> csub cmd = []" | "\<not> (cargv cmd = [] \<and> csub cmd = [])" "tok_type token2 \<noteq> TOK_NORMAL"
        | "\<not> (cargv cmd = [] \<and> csub cmd = [])" "tok_type token2 = TOK_NORMAL"
        by blast
      then show ?thesis
      proof cases
        case 1
        then show ?thesis
          using stop [of ps1 j] t n 2(3) by auto
      next
        case 2
        then show ?thesis
          using stop [of ps2 i] t t2 n i by auto
      next
        case 3
        then show ?thesis
          using go [of "set_redir ?t (tok_buffer token2) cmd" ps2 i] t t2 n i by auto
      qed
    next
      assume n: "?t = TOK_OPEN_PAREN"
      have "2 * j + 1 < n"
        using 2(1) k(2) by simp
      then obtain sub ps2 i where "cmdline_loop n True [] ps1 = Some (Done (sub, ps2))" "tokens_left (ps_position ps2) = Some i" "i \<le> j"
        using line_returnsD [OF assms(2) 2(3)] by metis
      then show ?thesis
        using go [of "set_sub sub cmd" ps2 i] t n by auto
    next
      assume n: "?t \<notin> {TOK_NORMAL, TOK_LESS_THAN, TOK_GREATER_THAN, TOK_2_GREATER_THAN, TOK_OPEN_PAREN}"
      then show ?thesis
        using t k(1) 2(4) by (auto simp: parse_ungettoken_def)
    qed
  qed
qed

lemma line_returns_Suc:
  assumes "cmd_returns n" "line_returns n"
  shows "line_returns (Suc n)"
  unfolding line_returns_def
proof (intro allI impI, elim conjE)
  fix ip cmds k and ps :: parsestate
  assume k: "tokens_left (ps_position ps) = Some k" "2 * k + 1 < Suc n"
  let ?goal = "\<exists>r ps' j. cmdline_loop (Suc n) ip cmds ps = Some (Done (r, ps')) \<and> tokens_left (ps_position ps') = Some j \<and> j \<le> k"
  have "2 * k < n"
    using k(2) by simp
  then obtain r ps1 j where c: "cmd_loop n cmd_alloc ps = Some (Done (r, ps1))" "tokens_left (ps_position ps1) = Some j" "j \<le> k"
      "r \<noteq> None \<Longrightarrow> j < k"
    by (rule cmd_returnsD [OF assms(1) k(1), where cmd = cmd_alloc]) (simp add: cmd_alloc_def)
  show ?goal
  proof (cases r)
    case None
    then show ?thesis
      using c by auto
  next
    case (Some cmd)
    obtain token ps2 where t: "parse_gettoken ps1 = (token, ps2)" by fastforce
    obtain i where i: "tokens_left (ps_position ps2) = Some i" "i \<le> j" "tok_type token \<noteq> TOK_END \<Longrightarrow> i < j"
      using gettoken_left_le [OF c(2) t] by blast
    let ?t = "tok_type token"
    have go: "?goal" if p: "cmdline_loop (Suc n) ip cmds ps = cmdline_loop n ip cs p" "tokens_left (ps_position p) = Some h" "h \<le> j" for cs p h
    proof -
      have "2 * h + 1 < n"
        using that(3) c(4) Some k(2) by simp
      then obtain r p' i' where "cmdline_loop n ip cs p = Some (Done (r, p'))" "tokens_left (ps_position p') = Some i'" "i' \<le> h"
        using line_returnsD [OF assms(2) p(2)] by metis
      then show ?thesis
        using that(1,3) c(3) by auto
    qed
    consider "?t \<in> {TOK_DOUBLEAMP, TOK_DOUBLEPIPE, TOK_PIPE}" | "?t \<in> {TOK_SEMICOLON, TOK_AMPERSAND}" | "?t \<in> {TOK_END, TOK_CLOSE_PAREN}"
      | "?t \<notin> {TOK_DOUBLEAMP, TOK_DOUBLEPIPE, TOK_PIPE, TOK_SEMICOLON, TOK_AMPERSAND, TOK_END, TOK_CLOSE_PAREN}"
      by blast
    then show ?thesis
    proof cases
      case 1
      then show ?thesis
        using go [of "cmds @ [set_op (to_op ?t) cmd]" ps2 i] c(1) Some t i by auto
    next
      case 2
      obtain token2 ps3 where t2: "parse_gettoken ps2 = (token2, ps3)" by fastforce
      obtain h where h: "tokens_left (ps_position ps3) = Some h" "h \<le> i" "ps_last ps3 = Some (ps_position ps2)"
        using gettoken_left_le [OF i(1) t2] by blast
      show ?thesis
      proof (cases "tok_type token2 \<in> {TOK_END, TOK_CLOSE_PAREN}")
        case True
        then show ?thesis
          using c(1,3) Some t t2 2 h i(2) by auto
      next
        case False
        then show ?thesis
          using go [of "cmds @ [set_op (to_op ?t) cmd]" "\<lparr>ps_position = ps_position ps2, ps_last = None\<rparr>" i]
            c(1) Some t t2 2 h(3) i by (auto simp: parse_ungettoken_def)
      qed
    next
      case 3
      then show ?thesis
        using c(1,3) Some t i by auto
    next
      case 4
      then show ?thesis
        using c(1,3) Some t i by auto
    qed
  qed
qed

lemma parser_returns: "cmd_returns n \<and> line_returns n"
proof (induction n)
  case 0
  show ?case
    by (simp add: cmd_returns_def line_returns_def)
next
  case (Suc n)
  then show ?case
    using cmd_returns_Suc line_returns_Suc by blast
qed

section \<open>Well-formed command lines\<close>

text \<open>What the parser returns: every command does something, only the last one may lack an operator.\<close>

definition cmd_fits :: "command \<Rightarrow> bool" where
  "cmd_fits c \<longleftrightarrow> (cargv c \<noteq> [] \<or> csub c \<noteq> []) \<and> length (cargv c) \<le> MAXTOKENS"

function wf_line :: "command list \<Rightarrow> bool" where
  "wf_line [] \<longleftrightarrow> True"
| "wf_line (c # cs) \<longleftrightarrow> cmd_fits c \<and> (csub c \<noteq> [] \<longrightarrow> wf_line (csub c)) \<and>
     (if cs = [] then cop c \<in> {CMD_END, CMD_SEMICOLON, CMD_BACKGROUND} else cop c \<noteq> CMD_END \<and> wf_line cs)"
  by pat_completeness auto
termination
  by (relation "measure (size_list size)") (auto dest: size_csub)

definition wf_sub :: "command \<Rightarrow> bool" where
  "wf_sub c \<longleftrightarrow> wf_line (csub c)"

lemma wf_line_Cons:
  "wf_line (c # cs) \<longleftrightarrow> cmd_fits c \<and> wf_sub c \<and>
     (if cs = [] then cop c \<in> {CMD_END, CMD_SEMICOLON, CMD_BACKGROUND} else cop c \<noteq> CMD_END \<and> wf_line cs)"
  by (auto simp: wf_sub_def)

declare wf_line.simps(2) [simp del]

lemma wf_line_snoc:
  "\<forall>c\<in>set cs. cmd_fits c \<and> wf_sub c \<and> cop c \<noteq> CMD_END \<Longrightarrow> cmd_fits d \<Longrightarrow> wf_sub d \<Longrightarrow>
     cop d \<in> {CMD_END, CMD_SEMICOLON, CMD_BACKGROUND} \<Longrightarrow> wf_line (cs @ [d])"
  by (induction cs) (simp_all add: wf_line_Cons)

lemma command_upd [simp]:
  "cargv (add_arg w c) = cargv c @ [w]" "csub (add_arg w c) = csub c" "cop (add_arg w c) = cop c"
  "cargv (set_redir t f c) = cargv c" "csub (set_redir t f c) = csub c" "cop (set_redir t f c) = cop c"
  "cargv (set_sub l c) = cargv c" "csub (set_sub l c) = l" "cop (set_sub l c) = cop c"
  "cargv (set_op p c) = cargv c" "csub (set_op p c) = csub c" "cop (set_op p c) = p"
  "cmd_fits (set_op p c) = cmd_fits c" "wf_sub (set_op p c) = wf_sub c"
proof -
  obtain a r0 r1 r2 s q where c: "c = Command a (r0, r1, r2) s q"
    by (cases c) auto
  show "cargv (add_arg w c) = cargv c @ [w]" "csub (add_arg w c) = csub c" "cop (add_arg w c) = cop c"
    "cargv (set_redir t f c) = cargv c" "csub (set_redir t f c) = csub c" "cop (set_redir t f c) = cop c"
    "cargv (set_sub l c) = cargv c" "csub (set_sub l c) = l" "cop (set_sub l c) = cop c"
    "cargv (set_op p c) = cargv c" "csub (set_op p c) = csub c" "cop (set_op p c) = p"
    "cmd_fits (set_op p c) = cmd_fits c" "wf_sub (set_op p c) = wf_sub c"
    by (simp_all add: c cmd_fits_def wf_sub_def)
qed

definition cmd_sound :: "nat \<Rightarrow> bool" where
  "cmd_sound n \<longleftrightarrow> (\<forall>cmd ps c ps'. cmd_loop n cmd ps = Some (Done (Some c, ps')) \<and> length (cargv cmd) \<le> MAXTOKENS \<and>
     wf_sub cmd \<longrightarrow> cmd_fits c \<and> wf_sub c \<and> cop c = cop cmd)"

definition line_sound :: "nat \<Rightarrow> bool" where
  "line_sound n \<longleftrightarrow> (\<forall>ip cmds ps cs ps'. cmdline_loop n ip cmds ps = Some (Done (cs, ps')) \<and>
     (\<forall>c\<in>set cmds. cmd_fits c \<and> wf_sub c \<and> cop c \<noteq> CMD_END) \<longrightarrow> wf_line cs)"

lemma cmd_sound_Suc:
  assumes "cmd_sound n" "line_sound n"
  shows "cmd_sound (Suc n)"
  unfolding cmd_sound_def
proof (intro allI impI, elim conjE)
  fix cmd ps c ps'
  assume r: "cmd_loop (Suc n) cmd ps = Some (Done (Some c, ps'))" and a: "length (cargv cmd) \<le> MAXTOKENS" and s: "wf_sub cmd"
  have IH: "cmd_fits c \<and> wf_sub c \<and> cop c = cop d"
    if "cmd_loop n d p = Some (Done (Some c, ps'))" "length (cargv d) \<le> MAXTOKENS" "wf_sub d" for d p
    using assms(1) that unfolding cmd_sound_def by blast
  have sub: "wf_line l" if "cmdline_loop n True [] p = Some (Done (l, p'))" for l p p'
    using assms(2) that unfolding line_sound_def by (metis empty_iff list.set(1))
  show "cmd_fits c \<and> wf_sub c \<and> cop c = cop cmd"
    using r a s IH [of "add_arg w cmd" for w] IH [of "set_redir t f cmd" for t f] IH [of "set_sub l cmd" for l] sub
    by (auto simp: Let_def wf_sub_def cmd_fits_def obind_Done_iff split: prod.splits if_splits option.splits outcome.splits)
qed

lemma cop_alloc [simp]: "cop cmd_alloc = CMD_END" "cargv cmd_alloc = []" "wf_sub cmd_alloc"
  by (simp_all add: cmd_alloc_def wf_sub_def)

lemma to_op_simps: "t \<in> {TOK_DOUBLEAMP, TOK_DOUBLEPIPE, TOK_PIPE, TOK_SEMICOLON, TOK_AMPERSAND} \<Longrightarrow> to_op t \<noteq> CMD_END"
  by auto

lemma line_sound_Suc:
  assumes "cmd_sound n" "line_sound n"
  shows "line_sound (Suc n)"
  unfolding line_sound_def
proof (intro allI impI, elim conjE)
  fix ip cmds ps cs ps'
  assume r: "cmdline_loop (Suc n) ip cmds ps = Some (Done (cs, ps'))"
    and pre: "\<forall>c\<in>set cmds. cmd_fits c \<and> wf_sub c \<and> cop c \<noteq> CMD_END"
  show "wf_line cs"
  proof (cases "cs = []")
    case False
    then obtain cmd ps1 where c: "cmd_loop n cmd_alloc ps = Some (Done (Some cmd, ps1))"
      using r by (auto split: option.splits outcome.splits)
    then have cmd: "cmd_fits cmd" "wf_sub cmd" "cop cmd = CMD_END"
      using assms(1) unfolding cmd_sound_def by fastforce+
    obtain token ps2 where t: "parse_gettoken ps1 = (token, ps2)" by fastforce
    let ?t = "tok_type token"
    have IH: "wf_line cs" if "cmdline_loop n ip (cmds @ [set_op p cmd]) q = Some (Done (cs, ps'))" "p \<noteq> CMD_END" for p q
      using assms(2) that pre cmd unfolding line_sound_def by fastforce
    have fin: "wf_line (line_end u ip (cmds @ [set_op p cmd]))" for u p
      using pre cmd by (auto simp: line_end_def intro!: wf_line_snoc)
    have fin0: "wf_line (line_end u ip (cmds @ [cmd]))" for u
      using pre cmd by (auto simp: line_end_def intro!: wf_line_snoc)
    consider "?t \<in> {TOK_DOUBLEAMP, TOK_DOUBLEPIPE, TOK_PIPE}" | "?t \<in> {TOK_SEMICOLON, TOK_AMPERSAND}"
      | "?t \<notin> {TOK_DOUBLEAMP, TOK_DOUBLEPIPE, TOK_PIPE, TOK_SEMICOLON, TOK_AMPERSAND}"
      by blast
    then show ?thesis
    proof cases
      case 1
      then show ?thesis
        using IH [of "to_op ?t" ps2] r c t by auto
    next
      case 2
      then show ?thesis
        using IH [of "to_op ?t"] fin r c t
        by (auto simp: Let_def split: prod.splits if_splits outcome.splits)
    next
      case 3
      then show ?thesis
        using fin0 r c t by (auto simp: Let_def split: if_splits)
    qed
  qed simp
qed

lemma parser_sound: "cmd_sound n \<and> line_sound n"
proof (induction n)
  case 0
  show ?case
    by (simp add: cmd_sound_def line_sound_def)
next
  case (Suc n)
  then show ?case
    using cmd_sound_Suc line_sound_Suc by blast
qed

lemma cmd_print_wf: "wf_line cs \<Longrightarrow> \<exists>out. cmd_print cs indent = Done out"
proof (induction cs arbitrary: indent rule: wf_line.induct)
  case (2 c cs)
  have w: "cmd_fits c" "wf_line (csub c)" "cs \<noteq> [] \<Longrightarrow> wf_line cs"
      "cs = [] \<Longrightarrow> cop c \<in> {CMD_END, CMD_SEMICOLON, CMD_BACKGROUND}"
    using 2(3) by (simp_all add: wf_line_Cons wf_sub_def)
  obtain r0 r1 r2 where r: "credir c = (r0, r1, r2)" by (cases "credir c")
  obtain t where "(if csub c = [] then Done [] else obind (cmd_print (csub c) (indent + 2)) (\<lambda>t. Done (newline # t))) = Done t"
    using 2(1) [OF _ w(2), of "indent + 2"] by (cases "csub c = []") auto
  moreover have "cs \<noteq> [] \<Longrightarrow> \<exists>u. cmd_print cs indent = Done u"
    using 2(2) [OF _ w(3)] by blast
  ultimately show ?case
    using r w(4) by (auto simp: Let_def)
qed simp

section \<open>Writing commands down\<close>

text \<open>A word that the tokenizer reads as one normal token.\<close>

definition word_char :: "char \<Rightarrow> bool" where
  "word_char c \<longleftrightarrow> \<not> is_space c \<and> c \<notin> {CHR 0x22, CHR ''`'', CHR ''('', CHR '')'', CHR '';''}"

definition plain :: "string \<Rightarrow> bool" where
  "plain w \<longleftrightarrow> w \<noteq> [] \<and> length w < TOKENSIZE \<and> (list_all word_char w \<or> w \<in> {''('', '')'', '';''})"

definition word :: "string \<Rightarrow> bool" where
  "word w \<longleftrightarrow> plain w \<and> token_type False w = TOK_NORMAL"

text \<open>The text of a list of tokens, with a blank before each.\<close>

definition render :: "string list \<Rightarrow> string" where
  "render ts = concat (map ((#) CHR '' '') ts)"

lemma render_simps [simp]: "render [] = []" "render (t # ts) = CHR '' '' # t @ render ts"
  by (simp_all add: render_def)

lemma render_start: "render ts = [] \<or> (\<exists>s. render ts = CHR '' '' # s)"
  by (cases ts) simp_all

lemma scan_word:
  assumes "list_all word_char w" "length buf + length w < TOKENSIZE" "rest = [] \<or> (\<exists>s. rest = CHR '' '' # s)"
  shows "scan False False False buf (w @ rest) = Some (False, False, buf @ w, rest)"
  using assms(1,2)
proof (induction w arbitrary: buf)
  case Nil
  then show ?case
    using assms(3) by (auto simp: is_space_def)
next
  case (Cons c w)
  then have c: "\<not> is_space c" "c \<noteq> CHR 0x22" "c \<noteq> CHR ''`''" "c \<notin> {CHR ''('', CHR '')'', CHR '';''}"
    by (simp_all add: word_char_def)
  then show ?case
    using Cons.IH [of "buf @ [c]"] Cons.prems by (simp add: Let_def del: insert_iff)
qed

lemma scan_plain:
  assumes "plain w" "rest = [] \<or> (\<exists>s. rest = CHR '' '' # s)"
  shows "scan False False False [] (w @ rest) = Some (False, False, w, rest)"
proof (cases "list_all word_char w")
  case True
  then show ?thesis
    using scan_word [OF True _ assms(2), of "[]"] assms(1) by (simp add: plain_def)
next
  case False
  then have "w \<in> {''('', '')'', '';''}"
    using assms(1) by (auto simp: plain_def)
  then show ?thesis
    by (auto simp: is_space_def)
qed

lemma is_space_blank: "is_space (CHR '' '')"
  by (simp add: is_space_def)

lemma plain_not_space: "plain w \<Longrightarrow> \<exists>c u. w = c # u \<and> \<not> is_space c"
  by (cases w) (auto simp: plain_def word_char_def is_space_def)

lemma gettoken_render:
  assumes "plain t"
  shows "parse_gettoken \<lparr>ps_position = render (t # ts), ps_last = l\<rparr> =
    (\<lparr>tok_type = token_type False t, tok_buffer = t\<rparr>, \<lparr>ps_position = render ts, ps_last = Some (render (t # ts))\<rparr>)"
proof -
  obtain c u where t: "t = c # u" "\<not> is_space c"
    using plain_not_space [OF assms] by blast
  have "dropWhile is_space (render (t # ts)) = t @ render ts"
    using t is_space_blank by simp
  then show ?thesis
    using scan_plain [OF assms render_start, of ts] t(1) by (simp add: parse_gettoken_def Let_def)
qed

lemma gettoken_empty:
  "parse_gettoken \<lparr>ps_position = [], ps_last = l\<rparr> =
     (\<lparr>tok_type = TOK_END, tok_buffer = []\<rparr>, \<lparr>ps_position = [], ps_last = Some []\<rparr>)"
  by (simp add: parse_gettoken_def)

definition op_tok :: "controlop \<Rightarrow> string list" where
  "op_tok p = (if p = CMD_END then [] else [op_text p])"

fun redir_toks :: "string option \<times> string option \<times> string option \<Rightarrow> string list" where
  "redir_toks (r0, r1, r2) =
     (case r0 of None \<Rightarrow> [] | Some f \<Rightarrow> [''<'', f]) @ (case r1 of None \<Rightarrow> [] | Some f \<Rightarrow> [''>'', f]) @
     (case r2 of None \<Rightarrow> [] | Some f \<Rightarrow> [''2>'', f])"

function line_toks :: "command list \<Rightarrow> string list" where
  "line_toks [] = []"
| "line_toks (c # cs) =
     (if csub c = [] then cargv c else ''('' # line_toks (csub c) @ ['')'']) @ redir_toks (credir c) @
     op_tok (cop c) @ line_toks cs"
  by pat_completeness auto
termination
  by (relation "measure (size_list size)") (auto dest: size_csub)

text \<open>Lines that can be written down: words and files are words, a subshell has no arguments.\<close>

fun redirs_ok :: "string option \<times> string option \<times> string option \<Rightarrow> bool" where
  "redirs_ok (r0, r1, r2) \<longleftrightarrow> pred_option word r0 \<and> pred_option word r1 \<and> pred_option word r2"

function printable :: "command list \<Rightarrow> bool" where
  "printable [] \<longleftrightarrow> True"
| "printable (c # cs) \<longleftrightarrow> list_all word (cargv c) \<and> redirs_ok (credir c) \<and> (csub c \<noteq> [] \<longrightarrow> cargv c = []) \<and>
     (csub c \<noteq> [] \<longrightarrow> printable (csub c)) \<and> printable cs"
  by pat_completeness auto
termination
  by (relation "measure (size_list size)") (auto dest: size_csub)

section \<open>More fuel does not change a result\<close>

lemma cmd_fuel_Suc:
  assumes "\<And>cmd ps r. cmd_loop n cmd ps = Some r \<Longrightarrow> cmd_loop m cmd ps = Some r"
    "\<And>ip cmds ps r. cmdline_loop n ip cmds ps = Some r \<Longrightarrow> cmdline_loop m ip cmds ps = Some r"
    "cmd_loop (Suc n) cmd ps = Some r"
  shows "cmd_loop (Suc m) cmd ps = Some r"
proof -
  obtain token ps1 where t: "parse_gettoken ps = (token, ps1)" by fastforce
  obtain token2 ps2 where t2: "parse_gettoken ps1 = (token2, ps2)" by fastforce
  let ?t = "tok_type token"
  consider "?t = TOK_NORMAL" | "?t \<in> {TOK_LESS_THAN, TOK_GREATER_THAN, TOK_2_GREATER_THAN}" | "?t = TOK_OPEN_PAREN"
    | "?t \<notin> {TOK_NORMAL, TOK_LESS_THAN, TOK_GREATER_THAN, TOK_2_GREATER_THAN, TOK_OPEN_PAREN}"
    by blast
  then show ?thesis
  proof cases
    case 1
    then show ?thesis
      using assms(3) t assms(1) [of "add_arg (tok_buffer token) cmd" ps1] by (auto split: if_splits)
  next
    case 2
    then show ?thesis
      using assms(3) t t2 assms(1) [of "set_redir ?t (tok_buffer token2) cmd" ps2] by (auto split: if_splits)
  next
    case 3
    then show ?thesis
      using assms(3) t assms(2) [of True "[]" ps1] assms(1) by (auto split: option.splits outcome.splits)
  next
    case 4
    then show ?thesis
      using assms(3) t by auto
  qed
qed

lemma line_fuel_Suc:
  assumes "\<And>cmd ps r. cmd_loop n cmd ps = Some r \<Longrightarrow> cmd_loop m cmd ps = Some r"
    "\<And>ip cmds ps r. cmdline_loop n ip cmds ps = Some r \<Longrightarrow> cmdline_loop m ip cmds ps = Some r"
    "cmdline_loop (Suc n) ip cmds ps = Some r"
  shows "cmdline_loop (Suc m) ip cmds ps = Some r"
proof -
  obtain x where x: "cmd_loop n cmd_alloc ps = Some x"
    using assms(3) by (cases "cmd_loop n cmd_alloc ps") auto
  then have y: "cmd_loop m cmd_alloc ps = Some x"
    using assms(1) by simp
  show ?thesis
  proof (cases x)
    case (Done d)
    show ?thesis
    proof (cases "fst d")
      case None
      then show ?thesis
        using assms(3) x y Done by (cases d) simp
    next
      case (Some cmd)
      then obtain ps0 where d: "d = (Some cmd, ps0)" by (cases d) simp
      obtain token ps1 where t: "parse_gettoken ps0 = (token, ps1)" by fastforce
      obtain token2 ps2 where t2: "parse_gettoken ps1 = (token2, ps2)" by fastforce
      let ?t = "tok_type token"
      consider "?t \<in> {TOK_DOUBLEAMP, TOK_DOUBLEPIPE, TOK_PIPE}" | "?t \<in> {TOK_SEMICOLON, TOK_AMPERSAND}"
        | "?t \<notin> {TOK_DOUBLEAMP, TOK_DOUBLEPIPE, TOK_PIPE, TOK_SEMICOLON, TOK_AMPERSAND}"
        by blast
      then show ?thesis
      proof cases
        case 1
        then show ?thesis
          using assms(3) x y Done d t assms(2) by auto
      next
        case 2
        then show ?thesis
          using assms(3) x y Done d t t2 assms(2) by (auto simp: Let_def split: if_splits outcome.splits)
      next
        case 3
        then show ?thesis
          using assms(3) x y Done d t by (auto simp: Let_def)
      qed
    qed
  qed (use assms(3) x y in simp_all)
qed

lemma fuel_Suc:
  "(\<forall>cmd ps r. cmd_loop n cmd ps = Some r \<longrightarrow> cmd_loop (Suc n) cmd ps = Some r) \<and>
   (\<forall>ip cmds ps r. cmdline_loop n ip cmds ps = Some r \<longrightarrow> cmdline_loop (Suc n) ip cmds ps = Some r)"
proof (induction n)
  case (Suc n)
  then show ?case
    using cmd_fuel_Suc [of n "Suc n"] line_fuel_Suc [of n "Suc n"] by blast
qed simp

lemma fuel_mono:
  assumes "n \<le> m"
  shows "cmd_loop n cmd ps = Some r \<Longrightarrow> cmd_loop m cmd ps = Some r"
    "cmdline_loop n ip cmds ps = Some x \<Longrightarrow> cmdline_loop m ip cmds ps = Some x"
  using assms fuel_Suc by (induction rule: dec_induct) blast+

definition cmd_res :: "command \<Rightarrow> parsestate \<Rightarrow> command option \<times> parsestate \<Rightarrow> bool" where
  "cmd_res cmd ps r \<longleftrightarrow> (\<exists>n. cmd_loop n cmd ps = Some (Done r))"

definition line_res :: "bool \<Rightarrow> command list \<Rightarrow> parsestate \<Rightarrow> command list \<times> parsestate \<Rightarrow> bool" where
  "line_res ip cmds ps r \<longleftrightarrow> (\<exists>n. cmdline_loop n ip cmds ps = Some (Done r))"

definition at :: "string list \<Rightarrow> string option \<Rightarrow> parsestate" where
  "at ts l = \<lparr>ps_position = render ts, ps_last = l\<rparr>"

lemma gettoken_at:
  "plain t \<Longrightarrow> parse_gettoken (at (t # ts) l) = (\<lparr>tok_type = token_type False t, tok_buffer = t\<rparr>, at ts (Some (render (t # ts))))"
  "parse_gettoken (at [] l) = (\<lparr>tok_type = TOK_END, tok_buffer = []\<rparr>, at [] (Some []))"
  unfolding at_def using gettoken_render gettoken_empty by simp_all

lemma unget_at: "parse_ungettoken (at ts (Some (render us))) = Done (at us None)"
  by (simp add: parse_ungettoken_def at_def)

lemma wordD: "word t \<Longrightarrow> plain t" "word t \<Longrightarrow> token_type False t = TOK_NORMAL"
  by (simp_all add: word_def)

lemma cmd_res_word:
  assumes "word t" "length (cargv cmd) < MAXTOKENS" "csub cmd = []"
    "\<And>l. cmd_res (add_arg t cmd) (at ts l) r"
  shows "cmd_res cmd (at (t # ts) l) r"
proof -
  obtain n where "cmd_loop n (add_arg t cmd) (at ts (Some (render (t # ts)))) = Some (Done r)"
    using assms(4) unfolding cmd_res_def by blast
  then have "cmd_loop (Suc n) cmd (at (t # ts) l) = Some (Done r)"
    using assms(1-3) by (simp add: gettoken_at wordD)
  then show ?thesis
    unfolding cmd_res_def by blast
qed

lemma plain_symbols:
  "plain ''<''" "plain ''>''" "plain ''2>''" "plain ''&''" "plain ''|''" "plain ''&&''" "plain ''||''" "plain '';''"
  "plain ''(''" "plain '')''"
  by (simp_all add: plain_def word_char_def is_space_def)

lemma cmd_res_redir:
  assumes "s \<in> {''<'', ''>'', ''2>''}" "word f" "cargv cmd \<noteq> [] \<or> csub cmd \<noteq> []"
    "\<And>l. cmd_res (set_redir (token_type False s) f cmd) (at ts l) r"
  shows "cmd_res cmd (at (s # f # ts) l) r"
proof -
  have s: "plain s" "token_type False s \<in> {TOK_LESS_THAN, TOK_GREATER_THAN, TOK_2_GREATER_THAN}"
    using assms(1) plain_symbols by (auto simp: token_type_def)
  obtain n where "cmd_loop n (set_redir (token_type False s) f cmd) (at ts (Some (render (f # ts)))) = Some (Done r)"
    using assms(4) unfolding cmd_res_def by blast
  then have "cmd_loop (Suc n) cmd (at (s # f # ts) l) = Some (Done r)"
    using s assms(2,3) by (auto simp: gettoken_at wordD)
  then show ?thesis
    unfolding cmd_res_def by blast
qed

lemma cmd_res_stop:
  assumes "ts = [] \<or> (plain (hd ts) \<and> token_type False (hd ts) \<in> {TOK_SEMICOLON, TOK_AMPERSAND, TOK_PIPE, TOK_DOUBLEAMP,
      TOK_DOUBLEPIPE, TOK_CLOSE_PAREN})" "cargv cmd \<noteq> [] \<or> csub cmd \<noteq> []"
  shows "cmd_res cmd (at ts l) (Some cmd, at ts None)"
proof -
  have "cmd_loop (Suc 0) cmd (at ts l) = Some (Done (Some cmd, at ts None))"
  proof (cases ts)
    case Nil
    then show ?thesis
      using assms(2) unget_at [of "[]" "[]"] by (simp add: gettoken_at)
  next
    case (Cons t us)
    then show ?thesis
      using assms unget_at [of us "t # us"] by (auto simp: gettoken_at simp del: render_simps)
  qed
  then show ?thesis
    unfolding cmd_res_def by blast
qed

lemma cmd_res_paren:
  assumes "\<And>l. line_res True [] (at ts l) (sub, at us l')" "\<And>l. cmd_res (set_sub sub cmd) (at us l) r"
  shows "cmd_res cmd (at (''('' # ts) l) r"
proof -
  obtain n m where "cmdline_loop n True [] (at ts (Some (render (''('' # ts)))) = Some (Done (sub, at us l'))"
      "cmd_loop m (set_sub sub cmd) (at us l') = Some (Done r)"
    using assms unfolding cmd_res_def line_res_def by blast
  then have "cmdline_loop (n + m) True [] (at ts (Some (render (''('' # ts)))) = Some (Done (sub, at us l'))"
      "cmd_loop (n + m) (set_sub sub cmd) (at us l') = Some (Done r)"
    using fuel_mono [of n "n + m"] fuel_mono [of m "n + m"] by simp_all
  then have "cmd_loop (Suc (n + m)) cmd (at (''('' # ts) l) = Some (Done r)"
    using gettoken_at(1) [OF plain_symbols(9), of ts l] by (simp add: token_type_def)
  then show ?thesis
    unfolding cmd_res_def by blast
qed

text \<open>The line after a command has been read: the end, or an operator and the rest.\<close>

definition closes :: "bool \<Rightarrow> string list \<Rightarrow> string list \<Rightarrow> bool" where
  "closes ip ts us \<longleftrightarrow> (if ip then ts = '')'' # us else ts = [] \<and> us = [])"

lemma closes_end:
  assumes "closes ip ts us" "cop d \<in> {CMD_END, CMD_SEMICOLON, CMD_BACKGROUND}"
  obtains token where "\<And>l. parse_gettoken (at ts l) = (token, at us (Some (render ts)))" "tok_type token \<in> {TOK_END, TOK_CLOSE_PAREN}"
    "line_end (tok_type token) ip (cmds @ [d]) = cmds @ [d]"
proof (cases ip)
  case True
  then show ?thesis
    using assms gettoken_at(1) [OF plain_symbols(10), of us]
    by (intro that [of "\<lparr>tok_type = TOK_CLOSE_PAREN, tok_buffer = '')''\<rparr>"])
      (simp_all add: closes_def token_type_def line_end_def)
next
  case False
  then show ?thesis
    using assms by (intro that [of "\<lparr>tok_type = TOK_END, tok_buffer = []\<rparr>"])
      (simp_all add: closes_def gettoken_at line_end_def)
qed

lemma line_res_last:
  assumes "\<And>l. cmd_res cmd_alloc (at ts l) (Some cmd, at (op_tok p @ us) None)" "closes ip us vs"
    "p \<in> {CMD_END, CMD_SEMICOLON, CMD_BACKGROUND}" "cop cmd = CMD_END"
  shows "line_res ip cmds (at ts l) (cmds @ [set_op p cmd], at vs (Some (render us)))"
proof -
  obtain n where n: "cmd_loop n cmd_alloc (at ts l) = Some (Done (Some cmd, at (op_tok p @ us) None))"
    using assms(1) unfolding cmd_res_def by blast
  have "cop (set_op p cmd) \<in> {CMD_END, CMD_SEMICOLON, CMD_BACKGROUND}"
    using assms(3) by simp
  then obtain token where e: "\<And>l. parse_gettoken (at us l) = (token, at vs (Some (render us)))" "tok_type token \<in> {TOK_END, TOK_CLOSE_PAREN}"
      "line_end (tok_type token) ip (cmds @ [set_op p cmd]) = cmds @ [set_op p cmd]"
    by (rule closes_end [OF assms(2)]) blast
  have op: "set_op CMD_END cmd = cmd"
    using assms(4) by (cases cmd) simp
  consider "p = CMD_END" | "p = CMD_SEMICOLON" | "p = CMD_BACKGROUND"
    using assms(3) by auto
  then have "cmdline_loop (Suc n) ip cmds (at ts l) = Some (Done (cmds @ [set_op p cmd], at vs (Some (render us))))"
  proof cases
    case 1
    then show ?thesis
      using n e op by (auto simp: op_tok_def)
  next
    case 2
    then show ?thesis
      using n e gettoken_at(1) [OF plain_symbols(8), of us None] by (simp add: op_tok_def op_text_def token_type_def Let_def)
  next
    case 3
    then show ?thesis
      using n e gettoken_at(1) [OF plain_symbols(4), of us None] by (simp add: op_tok_def op_text_def token_type_def Let_def)
  qed
  then show ?thesis
    unfolding line_res_def by blast
qed

lemma op_type:
  assumes "p \<noteq> CMD_END"
  shows "plain (op_text p)" "to_op (token_type False (op_text p)) = p"
    "token_type False (op_text p) \<in> (if p \<in> {CMD_SEMICOLON, CMD_BACKGROUND} then {TOK_SEMICOLON, TOK_AMPERSAND}
       else {TOK_DOUBLEAMP, TOK_DOUBLEPIPE, TOK_PIPE})"
  using assms plain_symbols by (cases p; simp add: op_text_def token_type_def)+

lemma line_res_next:
  assumes "\<And>l. cmd_res cmd_alloc (at ts l) (Some cmd, at (op_text p # u # us) None)" "p \<noteq> CMD_END"
    "plain u" "token_type False u \<in> {TOK_NORMAL, TOK_OPEN_PAREN}"
    "\<And>l. line_res ip (cmds @ [set_op p cmd]) (at (u # us) l) r"
  shows "line_res ip cmds (at ts l) r"
proof -
  obtain n where n: "cmd_loop n cmd_alloc (at ts l) = Some (Done (Some cmd, at (op_text p # u # us) None))"
    using assms(1) unfolding cmd_res_def by blast
  define l1 where "l1 = (if p \<in> {CMD_SEMICOLON, CMD_BACKGROUND} then None else Some (render (op_text p # u # us)))"
  obtain m where m: "cmdline_loop m ip (cmds @ [set_op p cmd]) (at (u # us) l1) = Some (Done r)"
    using assms(5) unfolding line_res_def by blast
  have nm: "cmd_loop (n + m) cmd_alloc (at ts l) = Some (Done (Some cmd, at (op_text p # u # us) None))"
    "cmdline_loop (n + m) ip (cmds @ [set_op p cmd]) (at (u # us) l1) = Some (Done r)"
    using n m fuel_mono [of n "n + m"] fuel_mono [of m "n + m"] by simp_all
  note t = op_type [OF assms(2)]
  have u: "tok_type (fst (parse_gettoken (at (u # us) k))) \<notin> {TOK_END, TOK_CLOSE_PAREN}" for k
    using assms(3,4) by (auto simp: gettoken_at)
  have "cmdline_loop (Suc (n + m)) ip cmds (at ts l) = Some (Done r)"
  proof (cases "p \<in> {CMD_SEMICOLON, CMD_BACKGROUND}")
    case True
    then have "token_type False (op_text p) \<in> {TOK_SEMICOLON, TOK_AMPERSAND}" "l1 = None"
      using t(3) by (simp_all add: l1_def)
    then show ?thesis
      using nm t(2) gettoken_at(1) [OF t(1), of "u # us" None] gettoken_at(1) [OF assms(3), of us] u
        unget_at [of us "u # us"] by (auto simp: Let_def simp del: render_simps)
  next
    case False
    then have "token_type False (op_text p) \<in> {TOK_DOUBLEAMP, TOK_DOUBLEPIPE, TOK_PIPE}"
        "l1 = Some (render (op_text p # u # us))"
      using t(3) by (simp_all only: l1_def if_False)
    then show ?thesis
      using nm t(2) gettoken_at(1) [OF t(1), of "u # us" None] by (auto simp: Let_def simp del: render_simps)
  qed
  then show ?thesis
    unfolding line_res_def by blast
qed

definition stops :: "string list \<Rightarrow> bool" where
  "stops ts \<longleftrightarrow> ts = [] \<or> (plain (hd ts) \<and> token_type False (hd ts) \<in> {TOK_SEMICOLON, TOK_AMPERSAND, TOK_PIPE, TOK_DOUBLEAMP,
      TOK_DOUBLEPIPE, TOK_CLOSE_PAREN})"

lemma stops_op: "closes ip us vs \<Longrightarrow> stops (op_tok p @ us)" "p \<noteq> CMD_END \<Longrightarrow> stops (op_tok p @ ts)"
proof -
  show op: "p \<noteq> CMD_END \<Longrightarrow> stops (op_tok p @ ts)" for ts
    using op_type(1,3) [of p] by (auto simp: stops_def op_tok_def split: if_splits)
  have "closes ip us vs \<Longrightarrow> stops us"
    using plain_symbols(10) by (auto simp: stops_def closes_def token_type_def split: if_splits)
  then show "closes ip us vs \<Longrightarrow> stops (op_tok p @ us)"
    using op [of us] by (cases "p = CMD_END") (simp_all add: op_tok_def)
qed

lemma cmd_res_args:
  assumes "list_all word ws" "length a + length ws \<le> MAXTOKENS" "\<And>l. cmd_res (Command (a @ ws) r [] p) (at ts l) x"
  shows "cmd_res (Command a r [] p) (at (ws @ ts) l) x"
  using assms
proof (induction ws arbitrary: a l)
  case (Cons w ws)
  have "cmd_res (Command (a @ [w]) r [] p) (at (ws @ ts) l) x" for l
    using Cons.IH [of "a @ [w]"] Cons.prems by simp
  then show ?case
    using cmd_res_word [of w "Command a r [] p" "ws @ ts" x l] Cons.prems by simp
qed simp

lemma cmd_res_redir1:
  assumes "f \<in> {(''<'', TOK_LESS_THAN), (''>'', TOK_GREATER_THAN), (''2>'', TOK_2_GREATER_THAN)}" "pred_option word r"
    "cargv cmd \<noteq> [] \<or> csub cmd \<noteq> []"
    "\<And>l. cmd_res (case r of None \<Rightarrow> cmd | Some g \<Rightarrow> set_redir (snd f) g cmd) (at ts l) x"
  shows "cmd_res cmd (at ((case r of None \<Rightarrow> [] | Some g \<Rightarrow> [fst f, g]) @ ts) l) x"
proof (cases r)
  case (Some g)
  then show ?thesis
    using cmd_res_redir [of "fst f" g cmd ts x l] assms by (auto simp: token_type_def)
qed (use assms(4) in simp)

lemma cmd_res_redirs:
  assumes "redirs_ok rs" "a \<noteq> [] \<or> s \<noteq> []" "stops ts"
  shows "cmd_res (Command a (None, None, None) s p) (at (redir_toks rs @ ts) l) (Some (Command a rs s p), at ts None)"
proof -
  obtain r0 r1 r2 where rs: "rs = (r0, r1, r2)" by (cases rs)
  have w: "pred_option word r0" "pred_option word r1" "pred_option word r2"
    using assms(1) rs by simp_all
  let ?x = "(Some (Command a rs s p), at ts None)"
  have 0: "cmd_res (Command a rs s p) (at ts l) ?x" for l
    using cmd_res_stop [of ts "Command a rs s p" l] assms(2,3) by (simp add: stops_def)
  have 1: "cmd_res (Command a (r0, r1, None) s p) (at ((case r2 of None \<Rightarrow> [] | Some g \<Rightarrow> [''2>'', g]) @ ts) l) ?x" for l
    using cmd_res_redir1 [of "(''2>'', TOK_2_GREATER_THAN)" r2 "Command a (r0, r1, None) s p" ts ?x l] 0 w(3) assms(2) rs
    by (auto split: option.splits)
  have 2: "cmd_res (Command a (r0, None, None) s p) (at ((case r1 of None \<Rightarrow> [] | Some g \<Rightarrow> [''>'', g]) @
      (case r2 of None \<Rightarrow> [] | Some g \<Rightarrow> [''2>'', g]) @ ts) l) ?x" for l
    using cmd_res_redir1 [of "(''>'', TOK_GREATER_THAN)" r1 "Command a (r0, None, None) s p" _ ?x l] 1 w(2) assms(2)
    by (auto split: option.splits)
  show ?thesis
    using cmd_res_redir1 [of "(''<'', TOK_LESS_THAN)" r0 "Command a (None, None, None) s p" _ ?x l] 2 w(1) assms(2) rs
    by (auto split: option.splits)
qed

lemma first_tok:
  assumes "wf_line (c # cs)" "printable (c # cs)"
  obtains u us where "line_toks (c # cs) = u # us" "plain u" "token_type False u \<in> {TOK_NORMAL, TOK_OPEN_PAREN}"
proof (cases "csub c = []")
  case True
  then obtain w ws where "cargv c = w # ws"
    using assms(1) by (cases "cargv c") (auto simp: wf_line_Cons cmd_fits_def)
  then show ?thesis
    using that assms(2) True wordD by simp
next
  case False
  then show ?thesis
    using that plain_symbols(9) by (simp add: token_type_def)
qed

lemma cmd_res_whole:
  assumes "cmd_fits c" "list_all word (cargv c)" "redirs_ok (credir c)" "csub c \<noteq> [] \<Longrightarrow> cargv c = []" "stops ts"
    "\<And>us l. csub c \<noteq> [] \<Longrightarrow> line_res True [] (at (line_toks (csub c) @ '')'' # us) l) (csub c, at us (Some (render ('')'' # us))))"
  shows "cmd_res cmd_alloc (at ((if csub c = [] then cargv c else ''('' # line_toks (csub c) @ ['')'']) @ redir_toks (credir c) @ ts) l)
    (Some (set_op CMD_END c), at ts None)"
proof -
  obtain a rs s p where c: "c = Command a rs s p" by (cases c)
  have ne: "a \<noteq> [] \<or> s \<noteq> []" and len: "length a \<le> MAXTOKENS"
    using assms(1) c by (auto simp: cmd_fits_def)
  have redirs: "cmd_res (Command a (None, None, None) s CMD_END) (at (redir_toks rs @ ts) l) (Some (Command a rs s CMD_END), at ts None)" for l
    using cmd_res_redirs [OF _ ne assms(5)] assms(3) c by simp
  show ?thesis
  proof (cases "s = []")
    case True
    then show ?thesis
      using cmd_res_args [of a "[]" "(None, None, None)" CMD_END "redir_toks rs @ ts"] redirs assms(2) len c
      by (simp add: cmd_alloc_def)
  next
    case False
    have "cmd_res cmd_alloc (at (''('' # line_toks s @ '')'' # redir_toks rs @ ts) l) (Some (Command a rs s CMD_END), at ts None)"
      by (rule cmd_res_paren [where sub = s and us = "redir_toks rs @ ts"])
        (use assms(4,6) c False redirs in \<open>simp_all add: cmd_alloc_def\<close>)
    then show ?thesis
      using c False by simp
  qed
qed

lemma line_roundtrip:
  assumes "wf_line cs" "printable cs" "cs \<noteq> []" "closes ip us vs"
  shows "line_res ip cmds (at (line_toks cs @ us) l) (cmds @ cs, at vs (Some (render us)))"
  using assms
proof (induction cs arbitrary: ip us vs cmds l rule: wf_line.induct)
  case (2 c cs)
  have w: "cmd_fits c" "csub c \<noteq> [] \<Longrightarrow> wf_line (csub c)" "cs = [] \<Longrightarrow> cop c \<in> {CMD_END, CMD_SEMICOLON, CMD_BACKGROUND}"
      "cs \<noteq> [] \<Longrightarrow> cop c \<noteq> CMD_END" "cs \<noteq> [] \<Longrightarrow> wf_line cs"
    using 2(3) by (simp_all add: wf_line_Cons wf_sub_def)
  have pr: "list_all word (cargv c)" "redirs_ok (credir c)" "csub c \<noteq> [] \<Longrightarrow> cargv c = []" "csub c \<noteq> [] \<Longrightarrow> printable (csub c)"
      "printable cs"
    using 2(4) by simp_all
  have sub: "line_res True [] (at (line_toks (csub c) @ '')'' # xs) k) (csub c, at xs (Some (render ('')'' # xs))))"
    if "csub c \<noteq> []" for xs k
    using 2(1) [OF that w(2) [OF that] pr(4) [OF that] that, of True "'')'' # xs" xs "[]" k] by (simp add: closes_def)
  have same: "set_op (cop c) (set_op CMD_END c) = c"
    by (cases c) simp
  show ?case
  proof (cases "cs = []")
    case True
    have "cmd_res cmd_alloc (at (line_toks (c # cs) @ us) k) (Some (set_op CMD_END c), at (op_tok (cop c) @ us) None)" for k
      using cmd_res_whole [OF w(1) pr(1-3) stops_op(1) [OF 2(6)] sub, of "cop c" k] True by simp
    then show ?thesis
      using line_res_last [of "line_toks (c # cs) @ us" "set_op CMD_END c" "cop c" us ip vs cmds l] 2(6) w(3) True same by simp
  next
    case False
    then obtain d ds where ds: "cs = d # ds" by (cases cs) auto
    obtain u vs' where u: "line_toks cs = u # vs'" "plain u" "token_type False u \<in> {TOK_NORMAL, TOK_OPEN_PAREN}"
      using first_tok [of d ds] w(5) pr(5) ds by auto
    have op: "op_tok (cop c) = [op_text (cop c)]"
      using w(4) [OF False] by (simp add: op_tok_def)
    have "cmd_res cmd_alloc (at (line_toks (c # cs) @ us) k) (Some (set_op CMD_END c), at (op_text (cop c) # u # vs' @ us) None)" for k
      using cmd_res_whole [OF w(1) pr(1-3) stops_op(2) [OF w(4) [OF False]] sub, of "line_toks cs @ us" k] op u(1) by simp
    moreover have "line_res ip (cmds @ [c]) (at (line_toks cs @ us) k) ((cmds @ [c]) @ cs, at vs (Some (render us)))" for k
      by (rule 2(2) [OF False w(5) [OF False] pr(5) False 2(6)])
    ultimately show ?thesis
      using line_res_next [OF _ w(4) [OF False] u(2,3), of "line_toks (c # cs) @ us" "set_op CMD_END c" "vs' @ us" ip cmds] same u(1)
      by simp
  qed
qed simp

lemma tokens_left_render: "list_all plain ts \<Longrightarrow> tokens_left (render ts) = Some (length ts)"
proof (induction ts)
  case Nil
  then show ?case
    using gettoken_empty by (subst tokens_left.simps) (simp add: parse_init_def)
next
  case (Cons t ts)
  then show ?case
    using gettoken_render [of t ts None] token_type_cases [of False t]
    by (subst tokens_left.simps) (simp add: parse_init_def)
qed

lemma redir_toks_plain: "redirs_ok rs \<Longrightarrow> list_all plain (redir_toks rs)"
  using plain_symbols wordD(1) by (cases rs) (auto split: option.splits)

lemma line_toks_plain: "wf_line cs \<Longrightarrow> printable cs \<Longrightarrow> list_all plain (line_toks cs)"
proof (induction cs rule: wf_line.induct)
  case (2 c cs)
  have "list_all plain (cargv c)"
    using 2(4) wordD(1) by (auto simp: list_all_iff)
  moreover have "list_all plain (redir_toks (credir c))"
    using 2(4) redir_toks_plain by simp
  moreover have "csub c \<noteq> [] \<Longrightarrow> list_all plain (line_toks (csub c))"
    using 2(1,3,4) by (simp add: wf_line_Cons wf_sub_def)
  moreover have "list_all plain (line_toks cs)"
    using 2(2-4) by (cases "cs = []") (simp_all add: wf_line_Cons)
  ultimately show ?case
    using plain_symbols(9,10) op_type(1) [of "cop c"] by (simp add: op_tok_def)
qed simp

lemma line_parse_returns:
  assumes "tokens_left line = Some k" "2 * k + 1 < n"
  obtains cs ps where "cmd_line_parse n ip (parse_init line) = Some (Done (cs, ps))" "wf_line cs"
proof -
  have "tokens_left (ps_position (parse_init line)) = Some k" "line_returns n"
    using assms(1) parser_returns by (simp_all add: parse_init_def)
  then obtain cs ps where r: "cmdline_loop n ip [] (parse_init line) = Some (Done (cs, ps))"
    using line_returnsD [OF _ _ assms(2)] by metis
  then have "wf_line cs"
    using parser_sound [of n] unfolding line_sound_def by fastforce
  then show ?thesis
    using that r by (simp add: cmd_line_parse_def)
qed

lemma tokens_left_le: "tokens_left s = Some k \<Longrightarrow> k \<le> length s"
proof (induction s arbitrary: k rule: tokens_left.induct)
  case (1 s)
  obtain token ps where t: "parse_gettoken (parse_init s) = (token, ps)" by fastforce
  from t show ?case
  proof (cases rule: gettoken_cases)
    case tok
    then obtain j where "tokens_left (ps_position ps) = Some j" "k = Suc j"
      using 1(2) t by (subst (asm) tokens_left.simps) auto
    then show ?thesis
      using 1(1) [of "(token, ps)" token ps j] t tok by (auto simp: parse_init_def)
  next
    case fin
    then show ?thesis
      using 1(2) t by (subst (asm) tokens_left.simps) auto
  next
    case err
    then show ?thesis
      using 1(2) t by (subst (asm) tokens_left.simps) auto
  qed
qed

section \<open>Properties\<close>

text \<open>
  C19. On every line whose tokens are all legal, the parser returns, after at most twice as many steps as the line
  has characters: no assertion fails, the commands are well formed (each does something, has at most
  \<^verbatim>\<open>MAXTOKENS\<close> arguments, and only the last may lack an operator), and \<^verbatim>\<open>cmd_print\<close> prints them.
\<close>

theorem cmd_line_parse_returns:
  assumes "tokens_left line = Some k" "2 * length line + 1 < n"
  shows "\<exists>cs ps out. cmd_line_parse n False (parse_init line) = Some (Done (cs, ps)) \<and> wf_line cs \<and> cmd_print cs 0 = Done out"
proof -
  have "2 * k + 1 < n"
    using tokens_left_le [OF assms(1)] assms(2) by simp
  then obtain cs ps where "cmd_line_parse n False (parse_init line) = Some (Done (cs, ps))" "wf_line cs"
    by (rule line_parse_returns [OF assms(1)])
  then show ?thesis
    using cmd_print_wf by blast
qed

text \<open>
  C20. The parser reads back what is written down: for every well-formed list of commands whose arguments and
  file names are plain words, the text of its tokens is parsed to that list, subshells, redirections and
  operators included.
\<close>

theorem cmd_line_parse_roundtrip:
  assumes "wf_line cs" "printable cs" "cs \<noteq> []" "2 * length (line_toks cs) + 1 < n"
  shows "\<exists>ps. cmd_line_parse n False (parse_init (render (line_toks cs))) = Some (Done (cs, ps))"
proof -
  let ?ps = "parse_init (render (line_toks cs))"
  obtain ds ps where d: "cmd_line_parse n False ?ps = Some (Done (ds, ps))"
    using line_parse_returns [OF tokens_left_render [OF line_toks_plain [OF assms(1,2)]] assms(4)] by metis
  have "?ps = at (line_toks cs @ []) None"
    by (simp add: at_def parse_init_def)
  then have "line_res False [] ?ps ([] @ cs, at [] (Some (render [])))"
    using line_roundtrip [OF assms(1-3), of False "[]" "[]" "[]" None] by (simp add: closes_def)
  then obtain m where m: "cmdline_loop m False [] ?ps = Some (Done (cs, at [] (Some [])))"
    by (auto simp: line_res_def)
  have "ds = cs"
    using fuel_mono(2) [of n "n + m", OF _ d [unfolded cmd_line_parse_def]] fuel_mono(2) [of m "n + m", OF _ m] by simp
  then show ?thesis
    using d by blast
qed

definition sample_line :: "command list" where
  "sample_line = [Command [''ls'', ''-l''] (None, Some ''out'', None) [] CMD_AND,
     Command [] (Some ''in'', None, None) [Command [''a''] (None, None, None) [] CMD_PIPE, Command [''b''] (None, None, None) [] CMD_END] CMD_SEMICOLON,
     Command [''c''] (None, None, Some ''log'') [] CMD_BACKGROUND]"

lemma sample_text: "render (line_toks sample_line) = '' ls -l > out && ( a | b ) < in ; c 2> log &''"
  by (simp add: sample_line_def op_tok_def op_text_def)

lemma sample_ok: "wf_line sample_line" "printable sample_line"
  by (simp_all add: sample_line_def wf_line_Cons wf_sub_def cmd_fits_def word_def plain_def word_char_def is_space_def token_type_def)

theorem cmd_line_parse_roundtrip_witness:
  "\<exists>ps. cmd_line_parse 40 False (parse_init '' ls -l > out && ( a | b ) < in ; c 2> log &'') = Some (Done (sample_line, ps))"
  using cmd_line_parse_roundtrip [OF sample_ok, of 40] unfolding sample_text
  by (simp add: sample_line_def op_tok_def op_text_def)

theorem cmd_line_parse_returns_witness:
  "\<exists>cs ps out. cmd_line_parse 200 False (parse_init '' ls -l > out && ( a | b ) < in ; c 2> log &'') = Some (Done (cs, ps)) \<and>
     wf_line cs \<and> cmd_print cs 0 = Done out"
  using cmd_line_parse_returns [OF tokens_left_render [OF line_toks_plain [OF sample_ok]], of 200] unfolding sample_text by simp

section \<open>Lines that are not handled\<close>

text \<open>
  After an error the tokenizer leaves the rollback of the token before: an unbalanced quote behind a
  parenthesis makes \<^verbatim>\<open>cmd_parse\<close> read the parenthesis again, for ever.
\<close>

lemma open_quote_never_returns: "cmd_line_parse n False (parse_init [CHR ''('', CHR '' '', CHR 0x22]) = None"
proof -
  let ?s = "[CHR ''('', CHR '' '', CHR 0x22]"
  let ?ps = "\<lparr>ps_position = ?s, ps_last = None\<rparr>" and ?ps1 = "\<lparr>ps_position = [CHR '' '', CHR 0x22], ps_last = Some ?s\<rparr>"
  have t1: "parse_gettoken ?ps = (\<lparr>tok_type = TOK_OPEN_PAREN, tok_buffer = ''(''\<rparr>, ?ps1)"
    by code_simp
  have t2: "parse_gettoken ?ps1 = (\<lparr>tok_type = TOK_ERROR, tok_buffer = []\<rparr>, ?ps1)"
    by code_simp
  have sub: "cmdline_loop m True [] ?ps1 = None \<or> cmdline_loop m True [] ?ps1 = Some (Done ([], ?ps))" for m
  proof (cases m)
    case (Suc k)
    then show ?thesis
      using t2 by (cases k) (simp_all add: parse_ungettoken_def cmd_alloc_def)
  qed simp
  have "cmd_loop m cmd_alloc ?ps = None" for m
  proof (induction m)
    case (Suc m)
    have "set_sub [] cmd_alloc = cmd_alloc"
      by (simp add: cmd_alloc_def)
    then show ?case
      using sub [of m] Suc t1 by auto
  qed simp
  then show ?thesis
    by (cases n) (simp_all add: cmd_line_parse_def parse_init_def)
qed

text \<open>An unbalanced quote at the start of the line fails the assertion of \<^verbatim>\<open>parse_ungettoken\<close>.\<close>

lemma quote_first_aborts: "cmd_line_parse 2 False (parse_init [CHR 0x22]) = Some Abort"
  by code_simp

text \<open>Arguments before a parenthesis are accepted, although the comment in \<^verbatim>\<open>cmd_parse\<close> calls that a syntax error.\<close>

lemma words_before_paren_accepted:
  "\<exists>ps. cmd_line_parse 20 False (parse_init ''echo ( echo foo )'') =
     Some (Done ([Command [''echo''] (None, None, None) [Command [''echo'', ''foo''] (None, None, None) [] CMD_END] CMD_END], ps))"
  by (rule exI) code_simp

end
