(* ===== verification/Cmd_Run.thy ===== *)
theory Cmd_Run
  imports Cmd_Parse
begin

text \<open>
  The execution part of the Lab 2 shell (\<^verbatim>\<open>lab2-TheCarton-main/cmdrun.c\<close>, \<^verbatim>\<open>main.c\<close>).  A forked process is described by
  what it will run and by its three standard streams; a run is the tree of the processes it forks.  The
  operating system is a parameter: where \<^verbatim>\<open>chdir\<close> leads if it succeeds, which programs can be executed, and the
  exit status of a program, which may depend on all that was forked before.  Forks, pipes and opens are taken
  to succeed.  A child whose \<^verbatim>\<open>execve\<close> fails goes on as a second shell and reads a status that was never
  written: that is \<open>Undef\<close>.
\<close>

section \<open>State\<close>

datatype program = Exec string "string list" | Pwd | Cd "string option" | Subshell "command list"

text \<open>A standard stream: the one of the shell, a file by its path, or the end of a pipe by its number.\<close>

datatype stream = Inherited | File string | Pipe_End nat

record child =
  ch_prog :: program
  ch_stdin :: stream
  ch_stdout :: stream
  ch_stderr :: stream

text \<open>A forked process with the processes that it forks.\<close>

datatype event = Event child "event list"

text \<open>The shell process: working directory, the pipe in \<^verbatim>\<open>*pass_pipefd\<close>, the number of the next pipe.\<close>

record shproc =
  sh_cwd :: string
  sh_pass :: "nat option"
  sh_pipes :: nat

record os =
  os_chdir :: "string \<Rightarrow> string \<Rightarrow> string option"
  os_exec :: "string \<Rightarrow> bool"
  os_status :: "event list \<Rightarrow> child \<Rightarrow> nat"

section \<open>cmd\_exec\<close>

definition is_wait_cmd :: "command \<Rightarrow> bool" where
  "is_wait_cmd cmd \<longleftrightarrow> cop cmd \<in> {CMD_AND, CMD_OR, CMD_END, CMD_SEMICOLON}"

definition is_continue_cmd :: "command \<Rightarrow> bool" where
  "is_continue_cmd cmd \<longleftrightarrow> cop cmd \<in> {CMD_PIPE, CMD_BACKGROUND}"

abbreviation MAXFILEPATH :: nat where "MAXFILEPATH \<equiv> 1024"
abbreviation CWDSIZE :: nat where "CWDSIZE \<equiv> 300"

text \<open>
  \<^verbatim>\<open>sprintf(redirect_filepath, "%s/%s", cwd, name)\<close> into \<^verbatim>\<open>MAXFILEPATH\<close> bytes; \<^verbatim>\<open>getcwd\<close> leaves the array as it is when the
  name of the directory does not fit.
\<close>

definition file_path :: "shproc \<Rightarrow> string \<Rightarrow> string outcome" where
  "file_path sh name =
     (let path = sh_cwd sh @ ''/'' @ name
      in if CWDSIZE \<le> length (sh_cwd sh) \<or> MAXFILEPATH \<le> length path then Undef else Done path)"

fun redirect :: "shproc \<Rightarrow> string option \<Rightarrow> stream outcome" where
  "redirect sh None = Done Inherited"
| "redirect sh (Some name) = obind (file_path sh name) (\<lambda>p. Done (File p))"

text \<open>\<^verbatim>\<open>sprintf(path, "/usr/bin/%s", argv[0])\<close> into \<^verbatim>\<open>MAXTOKENS\<close> bytes; the C library prints NULL as \<^verbatim>\<open>(null)\<close>.\<close>

definition program_path :: "command \<Rightarrow> string outcome" where
  "program_path cmd =
     (let path = ''/usr/bin/'' @ (case cargv cmd of [] \<Rightarrow> ''(null)'' | name # _ \<Rightarrow> name)
      in if MAXTOKENS \<le> length path then Undef else Done path)"

text \<open>After the fork: the pipe is handed to the next command.\<close>

definition pass_on :: "shproc \<Rightarrow> command \<Rightarrow> shproc" where
  "pass_on sh cmd =
     (if cop cmd = CMD_PIPE then sh\<lparr>sh_pass := Some (sh_pipes sh), sh_pipes := sh_pipes sh + 1\<rparr>
      else sh\<lparr>sh_pass := None\<rparr>)"

definition subshell_exec :: "shproc \<Rightarrow> command \<Rightarrow> (child \<times> shproc) outcome" where
  "subshell_exec sh cmd =
     (let (r0, r1, r2) = credir cmd in
      obind (program_path cmd) (\<lambda>_.
      obind (redirect sh r1) (\<lambda>out. obind (redirect sh r0) (\<lambda>inp. obind (redirect sh r2) (\<lambda>err.
      let out = (if cop cmd = CMD_PIPE then Pipe_End (sh_pipes sh) else out)
      in Done (\<lparr>ch_prog = Subshell (csub cmd), ch_stdin = inp, ch_stdout = out, ch_stderr = err\<rparr>, pass_on sh cmd))))))"

text \<open>
  The process for a program: the redirections in the order of the code.  The pipe of the left side is set
  up in the \<^verbatim>\<open>else\<close> branch of the test for an input redirection.
\<close>

definition exec_child :: "os \<Rightarrow> shproc \<Rightarrow> command \<Rightarrow> child outcome" where
  "exec_child os sh cmd =
     (let (r0, r1, r2) = credir cmd in
      obind (redirect sh r1) (\<lambda>out. obind (redirect sh r2) (\<lambda>err. obind (redirect sh r0) (\<lambda>inp.
      let out = (if r0 = None \<and> cop cmd = CMD_PIPE then Pipe_End (sh_pipes sh) else out);
          inp = (case sh_pass sh of None \<Rightarrow> inp | Some p \<Rightarrow> Pipe_End p)
      in obind (program_path cmd) (\<lambda>path.
         if \<not> os_exec os path then Undef
         else Done \<lparr>ch_prog = Exec path (cargv cmd), ch_stdin = inp, ch_stdout = out, ch_stderr = err\<rparr>)))))"

definition bare :: "program \<Rightarrow> child" where
  "bare p = \<lparr>ch_prog = p, ch_stdin = Inherited, ch_stdout = Inherited, ch_stderr = Inherited\<rparr>"

text \<open>\<^verbatim>\<open>chdir(argv[1])\<close>, which fails for NULL\<close>

definition change_dir :: "os \<Rightarrow> shproc \<Rightarrow> string option \<Rightarrow> string option" where
  "change_dir os sh arg = (case arg of None \<Rightarrow> None | Some d \<Rightarrow> os_chdir os (sh_cwd sh) d)"

definition cmd_exec :: "os \<Rightarrow> shproc \<Rightarrow> command \<Rightarrow> (child \<times> shproc) outcome" where
  "cmd_exec os sh cmd =
     (if csub cmd \<noteq> [] then subshell_exec sh cmd
      else case cargv cmd of
        [] \<Rightarrow> Undef
      | name # args \<Rightarrow>
          if name = ''exit'' \<and> args = [] then Exit 0
          else if name = ''exit'' \<and> length args = 1 then obind (atoi (hd args)) Exit
          else
            let arg = (case args of [] \<Rightarrow> None | a # _ \<Rightarrow> Some a)
            in obind (if name = ''our_pwd'' then Done (bare Pwd)
                      else if name = ''cd'' then Done (bare (Cd arg))
                      else exec_child os sh cmd) (\<lambda>ch.
               let sh = (if name = ''cd'' then (case change_dir os sh arg of None \<Rightarrow> sh | Some d \<Rightarrow> sh\<lparr>sh_cwd := d\<rparr>) else sh)
               in Done (ch, pass_on sh cmd)))"

section \<open>cmd\_line\_exec\<close>

text \<open>The exit status of a child that is not a subshell: \<^verbatim>\<open>exit(chdir(..))\<close> is 0 or 255.\<close>

definition exit_status :: "os \<Rightarrow> shproc \<Rightarrow> event list \<Rightarrow> child \<Rightarrow> nat" where
  "exit_status os sh log ch =
     (case ch_prog ch of
        Pwd \<Rightarrow> (if CWDSIZE \<le> length (sh_cwd sh) then 1 else 0)
      | Cd arg \<Rightarrow> (if change_dir os sh arg = None then 255 else 0)
      | _ \<Rightarrow> os_status os log ch mod 256)"

text \<open>The tests of the loop: after a command with this operator and status, is the next one left out?\<close>

definition skips :: "controlop \<Rightarrow> nat \<Rightarrow> bool" where
  "skips p st \<longleftrightarrow> (p = CMD_AND \<and> st \<noteq> 0) \<or> (p = CMD_OR \<and> st = 0)"

text \<open>How a process ends: it runs to the end with a status, it calls \<^verbatim>\<open>exit\<close>, or it goes wrong.\<close>

datatype run_result = Finished nat shproc "event list" | Exited nat "event list" | Crashed

text \<open>The status of a forked command and the processes that it forks itself.\<close>

definition sub_status :: "run_result \<Rightarrow> (nat \<times> event list) option" where
  "sub_status r = (case r of Finished st _ l \<Rightarrow> Some (st mod 256, l) | Exited st l \<Rightarrow> Some (st, l) | Crashed \<Rightarrow> None)"

lemma size_tail: "size_list size (drop (Suc 0) cs) \<le> size_list size (cs :: command list)"
  by (cases cs) simp_all

text \<open>The loop: \<^verbatim>\<open>cmd_status\<close>, the shell, what was forked so far, \<^verbatim>\<open>cmdlist\<close>.\<close>

function line_exec :: "os \<Rightarrow> nat \<Rightarrow> shproc \<Rightarrow> event list \<Rightarrow> command list \<Rightarrow> run_result" where
  "line_exec os cmd_status sh log [] = Finished cmd_status sh log"
| "line_exec os cmd_status sh log (cmd # rest) =
     (case cmd_exec os sh cmd of
        Exit n \<Rightarrow> Exited (nat (n mod 256)) log
      | Done (ch, sh') \<Rightarrow>
          (case (if csub cmd = [] then Some (exit_status os sh log ch, [])
                 else sub_status (line_exec os 0 (sh'\<lparr>sh_pass := None\<rparr>) [] (csub cmd))) of
             None \<Rightarrow> Crashed
           | Some (st, l) \<Rightarrow>
               let log = log @ [Event ch l]
               in if is_wait_cmd cmd
                  then if skips (cop cmd) st then line_exec os st sh' log (drop 1 rest)
                       else line_exec os st sh' log rest
                  else line_exec os 0 sh' log rest)
      | _ \<Rightarrow> Crashed)"
  by pat_completeness auto
termination
  by (relation "measure (\<lambda>(_, _, _, _, cs). size_list size cs)")
    (auto dest: size_csub simp: less_Suc_eq_le intro: trans_le_add2 size_tail)

declare line_exec.simps(2) [simp del]

definition cmd_line_exec :: "os \<Rightarrow> shproc \<Rightarrow> command list \<Rightarrow> run_result" where
  "cmd_line_exec os sh cmdlist = line_exec os 0 (sh\<lparr>sh_pass := None\<rparr>) [] cmdlist"

section \<open>main.c\<close>

fun options :: "string list \<Rightarrow> bool \<times> bool" where
  "options [] = (False, False)"
| "options (a # as) =
     (let (quiet, parseonly) = options as
      in (quiet \<or> a = ''-q'', parseonly \<or> a = ''-p''))"

abbreviation BUFSIZ :: nat where "BUFSIZ \<equiv> 8192"

text \<open>\<^verbatim>\<open>fgets(input, n + 1, stdin)\<close>: what is stored and the rest of the input.\<close>

fun fgets :: "nat \<Rightarrow> string \<Rightarrow> string \<times> string" where
  "fgets (Suc n) (c # cs) = (if c = newline then ([c], cs) else let (l, r) = fgets n cs in (c # l, r))"
| "fgets _ cs = ([], cs)"

lemma fgets_shorter: "fgets n cs = (l, r) \<Longrightarrow> length l + length r = length cs"
  by (induction n cs arbitrary: l r rule: fgets.induct) (auto split: if_splits prod.splits)

lemma fgets_nonempty: "fgets (Suc n) (c # cs) = (l, r) \<Longrightarrow> l \<noteq> []"
  by (auto split: if_splits prod.splits)

text \<open>\<^verbatim>\<open>feof\<close> after a line: the input ended before a newline and before the array was full.\<close>

definition at_eof :: "string \<Rightarrow> string \<Rightarrow> bool" where
  "at_eof line rest \<longleftrightarrow> rest = [] \<and> last line \<noteq> newline \<and> length line < BUFSIZ - 1"

text \<open>What the shell prints and the lines it runs.\<close>

type_synonym session = "string \<times> run_result list"

definition prepend :: "string \<Rightarrow> run_result list \<Rightarrow> session outcome option \<Rightarrow> session outcome option" where
  "prepend tx rs m = map_option (\<lambda>r. obind r (\<lambda>(out, rs'). Done (tx @ out, rs @ rs'))) m"

text \<open>
  The loop of \<^verbatim>\<open>main\<close> on the rest of the input, with fuel \<open>n\<close> for the parser: \<open>None\<close> when the parser does not
  return.  Reads do not fail; the characters after a NUL in a line are not seen.
\<close>

function main_loop :: "nat \<Rightarrow> os \<Rightarrow> bool \<Rightarrow> bool \<Rightarrow> shproc \<Rightarrow> string \<Rightarrow> session outcome option" where
  "main_loop n os quiet parseonly sh stdin =
     (let prompt = (if quiet then [] else ''cs5600$ '') in
      if stdin = [] then Some (Done (prompt, []))
      else
        let (line, rest) = fgets (BUFSIZ - 1) stdin;
            continue = (\<lambda>tx rs sh. prepend (prompt @ tx) rs
              (if at_eof line rest then Some (Done ([], [])) else main_loop n os quiet parseonly sh rest))
        in case cmd_line_parse n False (parse_init (takeWhile (\<lambda>c. c \<noteq> NUL) line)) of
             None \<Rightarrow> None
           | Some (Done (cmdlist, _)) \<Rightarrow>
               if cmdlist = [] then continue (''Syntax error'' @ [newline]) [] sh
               else (case (if quiet then Done [] else cmd_print cmdlist 0) of
                   Done tx \<Rightarrow>
                     if parseonly then continue tx [] sh
                     else (case cmd_line_exec os sh cmdlist of
                         Finished st sh' log \<Rightarrow> continue tx [Finished st sh' log] sh'
                       | r \<Rightarrow> Some (Done (prompt @ tx, [r])))
                 | _ \<Rightarrow> Some Abort)
           | Some _ \<Rightarrow> Some Abort)"
  by pat_completeness auto
termination
proof (relation "measure (\<lambda>(_, _, _, _, _, stdin). length stdin)", simp, goal_cases)
  case (1 n os quiet parseonly sh stdin prompt r line rest)
  then have "fgets (BUFSIZ - 1) stdin = (line, rest)" by simp
  moreover obtain c cs where "stdin = c # cs"
    using 1 by (cases stdin) auto
  ultimately have "length line + length rest = length stdin" "line \<noteq> []"
    using fgets_shorter fgets_nonempty [of 8190] by force+
  then show ?case by (cases line) auto
qed

declare main_loop.simps [simp del]

definition main_shell :: "nat \<Rightarrow> os \<Rightarrow> string list \<Rightarrow> shproc \<Rightarrow> string \<Rightarrow> session outcome option" where
  "main_shell n os args sh stdin = (let (quiet, parseonly) = options args in main_loop n os quiet parseonly sh stdin)"


section \<open>Short circuits\<close>

text \<open>
  The usual reading of \<^verbatim>\<open>&&\<close> and \<^verbatim>\<open>||\<close>, left to right, stated without the tests of the code: the right operand of \<^verbatim>\<open>&&\<close> runs
  after status 0, that of \<^verbatim>\<open>||\<close> after any other; an operand that is left out is left out with its whole pipeline, and
  the operator after it is applied to the status from before.  What a single command forks is given by \<open>cmd_exec\<close>.
\<close>

fun skip_operand :: "nat \<Rightarrow> command list \<Rightarrow> command list" where
  "skip_operand st [] = []"
| "skip_operand st (c # cs) =
     (case cop c of
        CMD_PIPE \<Rightarrow> skip_operand st cs
      | CMD_AND \<Rightarrow> if st = 0 then cs else skip_operand st cs
      | CMD_OR \<Rightarrow> if st = 0 then skip_operand st cs else cs
      | _ \<Rightarrow> cs)"

fun after_command :: "controlop \<Rightarrow> nat \<Rightarrow> command list \<Rightarrow> command list" where
  "after_command CMD_AND st rest = (if st = 0 then rest else skip_operand st rest)"
| "after_command CMD_OR st rest = (if st = 0 then skip_operand st rest else rest)"
| "after_command _ st rest = rest"

fun awaited_status :: "controlop \<Rightarrow> nat \<Rightarrow> nat" where
  "awaited_status CMD_PIPE st = 0"
| "awaited_status CMD_BACKGROUND st = 0"
| "awaited_status _ st = st"

fun program_status :: "os \<Rightarrow> shproc \<Rightarrow> event list \<Rightarrow> child \<Rightarrow> program \<Rightarrow> nat" where
  "program_status os sh log ch Pwd = (if length (sh_cwd sh) < 300 then 0 else 1)"
| "program_status os sh log ch (Cd None) = 255"
| "program_status os sh log ch (Cd (Some d)) = (if os_chdir os (sh_cwd sh) d = None then 255 else 0)"
| "program_status os sh log ch _ = os_status os log ch mod 256"

lemma size_skip_operand: "size_list size (skip_operand st cs) \<le> size_list size cs"
  by (induction cs) (auto split: controlop.split)

lemma size_after_command: "size_list size (after_command p st cs) \<le> size_list size cs"
  by (cases p) (simp_all add: size_skip_operand)

function ref_exec :: "os \<Rightarrow> nat \<Rightarrow> shproc \<Rightarrow> event list \<Rightarrow> command list \<Rightarrow> run_result" where
  "ref_exec os cmd_status sh log [] = Finished cmd_status sh log"
| "ref_exec os cmd_status sh log (cmd # rest) =
     (case cmd_exec os sh cmd of
        Exit n \<Rightarrow> Exited (nat (n mod 256)) log
      | Done (ch, sh') \<Rightarrow>
          (case (if csub cmd = [] then Some (program_status os sh log ch (ch_prog ch), [])
                 else sub_status (ref_exec os 0 (sh'\<lparr>sh_pass := None\<rparr>) [] (csub cmd))) of
             None \<Rightarrow> Crashed
           | Some (st, l) \<Rightarrow>
               let st = awaited_status (cop cmd) st
               in ref_exec os st sh' (log @ [Event ch l]) (after_command (cop cmd) st rest))
      | _ \<Rightarrow> Crashed)"
  by pat_completeness auto
termination
  by (relation "measure (\<lambda>(_, _, _, _, cs). size_list size cs)")
    (auto dest: size_csub simp: less_Suc_eq_le intro: trans_le_add2 size_after_command)

declare ref_exec.simps(2) [simp del]

lemma program_status_exit: "program_status os sh log ch (ch_prog ch) = exit_status os sh log ch"
proof (cases "ch_prog ch")
  case (Cd arg)
  then show ?thesis
    by (cases arg) (simp_all add: exit_status_def change_dir_def)
qed (auto simp: exit_status_def)

lemma awaited_status_continue: "awaited_status (cop cmd) st = (if is_continue_cmd cmd then 0 else st)"
  by (cases "cop cmd") (simp_all add: is_continue_cmd_def)

text \<open>Lines, with all their subshells, where no operand that can be left out is followed by the same operator or a pipe.\<close>

lemma size_csub_le: "size_list size (csub c) \<le> size c"
  by (cases c) simp

function unchained :: "command list \<Rightarrow> bool" where
  "unchained [] \<longleftrightarrow> True"
| "unchained (c # cs) \<longleftrightarrow>
     unchained (csub c) \<and>
     (cop c \<in> {CMD_AND, CMD_OR} \<and> cs \<noteq> [] \<longrightarrow> cop (hd cs) \<notin> {cop c, CMD_PIPE}) \<and> unchained cs"
  by pat_completeness auto
termination
  by (relation "measure (size_list size)") (auto simp: less_Suc_eq_le intro: trans_le_add1 size_csub_le)

lemma unchained_drop: "unchained cs \<Longrightarrow> unchained (drop (Suc 0) cs)"
  by (cases cs) simp_all

lemma unchained_after:
  assumes "unchained (c # cs)"
  shows "after_command (cop c) st cs = (if skips (cop c) st then drop (Suc 0) cs else cs)"
proof (cases "skips (cop c) st")
  case True
  then have "skip_operand st cs = drop (Suc 0) cs"
    using assms by (cases cs) (auto simp: skips_def split: controlop.split)
  then show ?thesis
    using True by (auto simp: skips_def)
next
  case False
  then show ?thesis
    by (cases "cop c") (simp_all add: skips_def)
qed

lemma wait_or_continue: "is_wait_cmd cmd \<longleftrightarrow> \<not> is_continue_cmd cmd"
  by (cases "cop cmd") (simp_all add: is_wait_cmd_def is_continue_cmd_def)

lemma continue_skips: "is_continue_cmd cmd \<Longrightarrow> \<not> skips (cop cmd) st"
  by (auto simp: is_continue_cmd_def skips_def)

text \<open>One round of both loops, with the status that the fork returned.\<close>

lemma line_exec_step:
  assumes "cmd_exec os sh cmd = Done (ch, sh')"
    and "(if csub cmd = [] then Some (exit_status os sh log ch, [])
          else sub_status (line_exec os 0 (sh'\<lparr>sh_pass := None\<rparr>) [] (csub cmd))) = Some (s, l)"
    and "t = (if is_continue_cmd cmd then 0 else s)"
  shows "line_exec os st sh log (cmd # rest) =
    line_exec os t sh' (log @ [Event ch l]) (if skips (cop cmd) t then drop (Suc 0) rest else rest)"
  using assms continue_skips [of cmd 0] by (simp add: line_exec.simps(2) wait_or_continue)

lemma ref_exec_step:
  assumes "cmd_exec os sh cmd = Done (ch, sh')"
    and "(if csub cmd = [] then Some (exit_status os sh log ch, [])
          else sub_status (ref_exec os 0 (sh'\<lparr>sh_pass := None\<rparr>) [] (csub cmd))) = Some (s, l)"
    and "t = (if is_continue_cmd cmd then 0 else s)"
  shows "ref_exec os st sh log (cmd # rest) = ref_exec os t sh' (log @ [Event ch l]) (after_command (cop cmd) t rest)"
  using assms by (auto simp: ref_exec.simps(2) Let_def program_status_exit awaited_status_continue split: if_splits)

lemma line_exec_ref: "unchained cs \<Longrightarrow> line_exec os st sh log cs = ref_exec os st sh log cs"
proof (induction os st sh log cs rule: line_exec.induct)
  case (2 os st sh log cmd rest)
  show ?case
  proof (cases "cmd_exec os sh cmd")
    case (Done r)
    obtain ch sh' where r: "r = (ch, sh')" by (cases r)
    let ?sub = "\<lambda>exec. if csub cmd = [] then Some (exit_status os sh log ch, [])
       else sub_status (exec os 0 (sh'\<lparr>sh_pass := None\<rparr>) [] (csub cmd))"
    have sub: "?sub ref_exec = ?sub line_exec"
      using 2(1) "2.prems" Done r by simp
    show ?thesis
    proof (cases "?sub line_exec")
      case None
      then show ?thesis
        using Done r sub by (auto simp: line_exec.simps(2) ref_exec.simps(2) program_status_exit split: if_splits)
    next
      case (Some q)
      obtain s l where q: "q = (s, l)" by (cases q)
      let ?t = "if is_continue_cmd cmd then 0 else s"
      let ?next = "if skips (cop cmd) ?t then drop (Suc 0) rest else rest"
      have ch: "cmd_exec os sh cmd = Done (ch, sh')"
        using Done r by simp
      have "line_exec os ?t sh' (log @ [Event ch l]) ?next = ref_exec os ?t sh' (log @ [Event ch l]) ?next"
        using 2(2-4) [OF ch refl Some [unfolded q] refl refl] "2.prems" unchained_drop [of rest]
        by (auto simp: wait_or_continue continue_skips)
      then show ?thesis
        unfolding line_exec_step [OF ch Some [unfolded q] refl] ref_exec_step [OF ch trans [OF sub Some [unfolded q]] refl]
          unchained_after [OF "2.prems"] .
    qed
  qed (simp_all add: line_exec.simps(2) ref_exec.simps(2))
qed simp


section \<open>Pipelines\<close>

text \<open>A program that the shell starts from directory \<open>cwd\<close>, with any redirections whose paths fit.\<close>

definition program_cmd :: "os \<Rightarrow> string \<Rightarrow> command \<Rightarrow> bool" where
  "program_cmd os cwd c \<longleftrightarrow>
     csub c = [] \<and> cargv c \<noteq> [] \<and> hd (cargv c) \<notin> {''exit'', ''cd'', ''our_pwd''} \<and>
     length (hd (cargv c)) < 503 \<and> os_exec os (''/usr/bin/'' @ hd (cargv c)) \<and>
     length cwd < CWDSIZE \<and>
     (case credir c of (r0, r1, r2) \<Rightarrow>
        \<forall>r\<in>{r0, r1, r2}. \<forall>name. r = Some name \<longrightarrow> length cwd + 1 + length name < MAXFILEPATH)"

definition file_stream :: "string \<Rightarrow> string option \<Rightarrow> stream" where
  "file_stream cwd r = (case r of None \<Rightarrow> Inherited | Some name \<Rightarrow> File (cwd @ ''/'' @ name))"

definition redir :: "command \<Rightarrow> nat \<Rightarrow> string option" where
  "redir c i = (case credir c of (r0, r1, r2) \<Rightarrow> if i = 0 then r0 else if i = 1 then r1 else r2)"

text \<open>The process for \<open>c\<close> with an input pipe and an output pipe, if it has them.\<close>

definition stage :: "string \<Rightarrow> command \<Rightarrow> nat option \<Rightarrow> nat option \<Rightarrow> child" where
  "stage cwd c inp out =
     \<lparr>ch_prog = Exec (''/usr/bin/'' @ hd (cargv c)) (cargv c),
      ch_stdin = (case inp of None \<Rightarrow> file_stream cwd (redir c 0) | Some p \<Rightarrow> Pipe_End p),
      ch_stdout = (case out of None \<Rightarrow> file_stream cwd (redir c 1)
                   | Some p \<Rightarrow> if redir c 0 = None then Pipe_End p else file_stream cwd (redir c 1)),
      ch_stderr = file_stream cwd (redir c 2)\<rparr>"

lemma redirect_file:
  assumes "length (sh_cwd sh) < CWDSIZE" "\<forall>name. r = Some name \<longrightarrow> length (sh_cwd sh) + 1 + length name < MAXFILEPATH"
  shows "redirect sh r = Done (file_stream (sh_cwd sh) r)"
  using assms by (cases r) (auto simp: file_path_def file_stream_def Let_def)

lemma program_cmd_exec:
  assumes "program_cmd os (sh_cwd sh) c"
  shows "cmd_exec os sh c =
    Done (stage (sh_cwd sh) c (sh_pass sh) (if cop c = CMD_PIPE then Some (sh_pipes sh) else None), pass_on sh c)"
proof -
  from assms obtain name args where a: "cargv c = name # args" "name \<notin> {''exit'', ''cd'', ''our_pwd''}"
    by (cases "cargv c") (auto simp: program_cmd_def)
  then have path: "program_path c = Done (''/usr/bin/'' @ name)"
    using assms by (simp add: program_path_def program_cmd_def)
  obtain r0 r1 r2 where r: "credir c = (r0, r1, r2)"
    by (cases "credir c")
  then have "redirect sh r0 = Done (file_stream (sh_cwd sh) r0)" "redirect sh r1 = Done (file_stream (sh_cwd sh) r1)"
    "redirect sh r2 = Done (file_stream (sh_cwd sh) r2)"
    using assms by (auto intro!: redirect_file simp: program_cmd_def)
  moreover have "csub c = []" "os_exec os (''/usr/bin/'' @ name)"
    using assms a by (simp_all add: program_cmd_def)
  ultimately show ?thesis
    using a path r by (auto simp: cmd_exec_def exec_child_def stage_def redir_def Let_def split: option.splits)
qed

definition pipe_stage :: "string \<Rightarrow> nat \<Rightarrow> nat option \<Rightarrow> command list \<Rightarrow> nat \<Rightarrow> child" where
  "pipe_stage cwd p inp cs i =
     stage cwd (cs ! i) (if i = 0 then inp else Some (p + i - 1)) (if i = length cs - 1 then None else Some (p + i))"

lemma pipe_stage_Suc:
  "pipe_stage cwd p inp (c # d # cs) (Suc i) = pipe_stage cwd (Suc p) (Some p) (d # cs) i"
  by (simp add: pipe_stage_def)

lemma line_exec_pipeline:
  assumes "list_all (program_cmd os (sh_cwd sh)) cs" "cs \<noteq> []" "\<forall>c\<in>set (butlast cs). cop c = CMD_PIPE"
    and "cop (last cs) \<in> {CMD_END, CMD_SEMICOLON}"
  shows "line_exec os st sh log cs =
    (let stages = map (pipe_stage (sh_cwd sh) (sh_pipes sh) (sh_pass sh) cs) [0..<length cs];
         log' = log @ map (\<lambda>ch. Event ch []) stages
     in Finished (os_status os (butlast log') (last stages) mod 256)
          (sh\<lparr>sh_pass := None, sh_pipes := sh_pipes sh + (length cs - 1)\<rparr>) log')"
  using assms
proof (induction cs arbitrary: st sh log)
  case (Cons c cs)
  have c: "program_cmd os (sh_cwd sh) c" "csub c = []"
    using Cons.prems by (auto simp: program_cmd_def)
  show ?case
  proof (cases cs)
    case Nil
    then have "cop c \<in> {CMD_END, CMD_SEMICOLON}"
      using Cons.prems by simp
    then show ?thesis
      using Nil line_exec_step [OF program_cmd_exec [OF c(1)], of log "os_status os log (stage (sh_cwd sh) c (sh_pass sh) None) mod 256" "[]" _ st "[]"] c(2)
      by (auto simp: is_continue_cmd_def skips_def pass_on_def Let_def pipe_stage_def exit_status_def stage_def [of "sh_cwd sh" c])
  next
    case (Cons d ds)
    then have p: "cop c = CMD_PIPE"
      using Cons.prems by simp
    let ?sh = "pass_on sh c" and ?log = "log @ [Event (stage (sh_cwd sh) c (sh_pass sh) (Some (sh_pipes sh))) []]"
    have sh: "sh_pass ?sh = Some (sh_pipes sh)" "sh_pipes ?sh = Suc (sh_pipes sh)" "sh_cwd ?sh = sh_cwd sh"
      using p by (simp_all add: pass_on_def)
    have "line_exec os st sh log (c # cs) = line_exec os 0 ?sh ?log cs"
      using line_exec_step [OF program_cmd_exec [OF c(1)], of log _ _ 0 st cs] c(2) p
      by (simp add: is_continue_cmd_def skips_def)
    also have "\<dots> = (let stages = map (pipe_stage (sh_cwd sh) (Suc (sh_pipes sh)) (Some (sh_pipes sh)) cs) [0..<length cs];
         log' = ?log @ map (\<lambda>ch. Event ch []) stages
     in Finished (os_status os (butlast log') (last stages) mod 256)
          (?sh\<lparr>sh_pass := None, sh_pipes := Suc (sh_pipes sh) + (length cs - 1)\<rparr>) log')"
      using Cons.IH [of ?sh 0 ?log] Cons.prems Cons by (simp add: sh Let_def)
    also have "map (pipe_stage (sh_cwd sh) (Suc (sh_pipes sh)) (Some (sh_pipes sh)) cs) [0..<length cs] =
        map (pipe_stage (sh_cwd sh) (sh_pipes sh) (sh_pass sh) (c # cs) \<circ> Suc) [0..<length cs]"
      using Cons by (simp add: pipe_stage_Suc)
    finally show ?thesis
      using Cons p sh by (simp add: Let_def map_upt_Suc pipe_stage_def pass_on_def del: upt_Suc)
  qed
qed simp


section \<open>Properties\<close>

text \<open>
  C22. On a line where no command after a \<^verbatim>\<open>&&\<close> or \<^verbatim>\<open>||\<close> is followed by the same operator or by a pipe, in the line and in
  all its subshells, \<^verbatim>\<open>cmd_line_exec\<close> forks the same processes with the same streams, and returns the same status, as
  the left to right short-circuit reading of the operators that shells have.  (The comment on \<^verbatim>\<open>cmd_line_exec\<close> has the
  whole line end where an operand is left out; neither the code nor this reading does that.)
\<close>

theorem cmd_line_exec_short_circuit:
  assumes "unchained cmdlist"
  shows "cmd_line_exec os sh cmdlist = ref_exec os 0 (sh\<lparr>sh_pass := None\<rparr>) [] cmdlist"
  by (simp add: cmd_line_exec_def line_exec_ref assms)

text \<open>
  C21. A pipeline of programs, with any redirections, forks one process per program.  Each but the first reads from the pipe of
  the one before, the first from its input redirection or where the shell does.  Each but the last writes into its
  own pipe, unless it has an input redirection: then its pipe is not connected, and it writes, like the last
  one, to its output redirection or where the shell does.  A pipe takes the place of a redirection of the same stream, where
  other shells have it the other way round.  The status is that of the last program, and no pipe is left for the next command.
\<close>

theorem cmd_line_exec_pipeline:
  assumes "list_all (program_cmd os (sh_cwd sh)) cs" "cs \<noteq> []" "\<forall>c\<in>set (butlast cs). cop c = CMD_PIPE"
    and "cop (last cs) \<in> {CMD_END, CMD_SEMICOLON}"
  shows "\<exists>stages. cmd_line_exec os sh cs =
      Finished (os_status os (map (\<lambda>ch. Event ch []) (butlast stages)) (last stages) mod 256)
        (sh\<lparr>sh_pass := None, sh_pipes := sh_pipes sh + (length cs - 1)\<rparr>) (map (\<lambda>ch. Event ch []) stages) \<and>
    length stages = length cs \<and>
    (\<forall>i<length cs. stages ! i =
      \<lparr>ch_prog = Exec (''/usr/bin/'' @ hd (cargv (cs ! i))) (cargv (cs ! i)),
        ch_stdin = (if i = 0 then file_stream (sh_cwd sh) (redir (cs ! i) 0) else Pipe_End (sh_pipes sh + i - 1)),
        ch_stdout = (if i < length cs - 1 \<and> redir (cs ! i) 0 = None then Pipe_End (sh_pipes sh + i)
                     else file_stream (sh_cwd sh) (redir (cs ! i) 1)),
        ch_stderr = file_stream (sh_cwd sh) (redir (cs ! i) 2)\<rparr>)"
proof -
  let ?stages = "map (pipe_stage (sh_cwd sh) (sh_pipes sh) None cs) [0..<length cs]"
  have "cmd_line_exec os sh cs =
      Finished (os_status os (map (\<lambda>ch. Event ch []) (butlast ?stages)) (last ?stages) mod 256)
        (sh\<lparr>sh_pass := None, sh_pipes := sh_pipes sh + (length cs - 1)\<rparr>) (map (\<lambda>ch. Event ch []) ?stages)"
    using line_exec_pipeline [of os "sh\<lparr>sh_pass := None\<rparr>" cs 0 "[]"] assms
    by (simp add: cmd_line_exec_def Let_def map_butlast)
  then show ?thesis
    by (intro exI [of _ ?stages] conjI) (assumption, auto simp: pipe_stage_def stage_def)
qed

text \<open>A system where every program runs and only \<^verbatim>\<open>/usr/bin/false\<close> fails.\<close>

definition sample_os :: os where
  "sample_os = \<lparr>os_chdir = (\<lambda>cwd d. Some d), os_exec = (\<lambda>_. True),
     os_status = (\<lambda>log ch. case ch_prog ch of Exec p _ \<Rightarrow> if p = ''/usr/bin/false'' then 1 else 0 | _ \<Rightarrow> 0)\<rparr>"

definition sample_sh :: shproc where
  "sample_sh = \<lparr>sh_cwd = ''/home'', sh_pass = None, sh_pipes = 0\<rparr>"

definition prog :: "string \<Rightarrow> controlop \<Rightarrow> command" where
  "prog w p = Command [w] (None, None, None) [] p"

lemma sample_prog: "cmd_exec sample_os (sample_sh\<lparr>sh_pass := None\<rparr>) (prog w p) =
    Done (stage ''/home'' (prog w p) None (if p = CMD_PIPE then Some 0 else None), pass_on (sample_sh\<lparr>sh_pass := None\<rparr>) (prog w p))"
  if "w \<notin> {''exit'', ''cd'', ''our_pwd''}" "length w < 503"
  using that program_cmd_exec [of sample_os "sample_sh\<lparr>sh_pass := None\<rparr>" "prog w p"]
  by (simp add: program_cmd_def prog_def sample_os_def sample_sh_def)

theorem cmd_line_exec_short_circuit_witness:
  "cmd_line_exec sample_os sample_sh [prog ''false'' CMD_AND, prog ''ls'' CMD_OR, prog ''ps'' CMD_END] =
   Finished 0 (sample_sh\<lparr>sh_pass := None\<rparr>)
     [Event (stage ''/home'' (prog ''false'' CMD_AND) None None) [], Event (stage ''/home'' (prog ''ps'' CMD_END) None None) []]"
proof -
  let ?cs = "[prog ''false'' CMD_AND, prog ''ls'' CMD_OR, prog ''ps'' CMD_END]"
  have "unchained ?cs"
    by (simp add: prog_def)
  then have "cmd_line_exec sample_os sample_sh ?cs = ref_exec sample_os 0 (sample_sh\<lparr>sh_pass := None\<rparr>) [] ?cs"
    by (rule cmd_line_exec_short_circuit)
  then show ?thesis
    using sample_prog [of "''false''" CMD_AND] sample_prog [of "''ps''" CMD_END]
    by (simp add: ref_exec.simps(2) prog_def pass_on_def stage_def sample_os_def)
qed

theorem cmd_line_exec_pipeline_witness:
  "\<exists>stages. cmd_line_exec sample_os sample_sh [prog ''ls'' CMD_PIPE, Command [''wc''] (None, Some ''out'', None) [] CMD_END] =
      Finished 0 (sample_sh\<lparr>sh_pass := None, sh_pipes := 1\<rparr>) (map (\<lambda>ch. Event ch []) stages) \<and> length stages = 2 \<and>
    ch_stdout (stages ! 0) = Pipe_End 0 \<and> ch_stdin (stages ! 1) = Pipe_End 0 \<and> ch_stdout (stages ! 1) = File ''/home/out''"
proof -
  let ?cs = "[prog ''ls'' CMD_PIPE, Command [''wc''] (None, Some ''out'', None) [] CMD_END]"
  have "list_all (program_cmd sample_os (sh_cwd sample_sh)) ?cs"
    by (simp add: prog_def program_cmd_def sample_os_def sample_sh_def)
  from cmd_line_exec_pipeline [OF this] obtain stages where
    run: "cmd_line_exec sample_os sample_sh ?cs =
      Finished (os_status sample_os (map (\<lambda>ch. Event ch []) (butlast stages)) (last stages) mod 256)
        (sample_sh\<lparr>sh_pass := None, sh_pipes := sh_pipes sample_sh + 1\<rparr>) (map (\<lambda>ch. Event ch []) stages)"
    and len: "length stages = 2" and st: "\<forall>i<2. stages ! i =
      \<lparr>ch_prog = Exec (''/usr/bin/'' @ hd (cargv (?cs ! i))) (cargv (?cs ! i)),
        ch_stdin = (if i = 0 then file_stream (sh_cwd sample_sh) (redir (?cs ! i) 0) else Pipe_End (sh_pipes sample_sh + i - 1)),
        ch_stdout = (if i < 1 \<and> redir (?cs ! i) 0 = None then Pipe_End (sh_pipes sample_sh + i)
                     else file_stream (sh_cwd sample_sh) (redir (?cs ! i) 1)),
        ch_stderr = file_stream (sh_cwd sample_sh) (redir (?cs ! i) 2)\<rparr>"
    by (auto simp: prog_def numeral_2_eq_2)
  have "last stages = stages ! 1"
    using len by (cases stages) (auto simp: last_conv_nth)
  then show ?thesis
    using run len st by (intro exI [of _ stages]) (simp add: sample_os_def sample_sh_def prog_def redir_def file_stream_def)
qed

section \<open>Where the short circuit stops too early\<close>

text \<open>
  \<^verbatim>\<open>false && ls && ps\<close> runs \<^verbatim>\<open>ps\<close>: only the next command is left out, where the comment on \<^verbatim>\<open>cmd_line_exec\<close> has the whole line
  end.
\<close>

lemma chained_and_runs_on:
  "\<exists>sh. cmd_line_exec sample_os sample_sh [prog ''false'' CMD_AND, prog ''ls'' CMD_AND, prog ''ps'' CMD_END] =
    Finished 0 sh [Event (stage ''/home'' (prog ''false'' CMD_AND) None None) [],
      Event (stage ''/home'' (prog ''ps'' CMD_END) None None) []]"
  by (simp add: cmd_line_exec_def line_exec.simps(2) prog_def cmd_exec_def exec_child_def program_path_def sample_os_def
      sample_sh_def exit_status_def is_wait_cmd_def skips_def pass_on_def stage_def redir_def file_stream_def)

text \<open>A left side of a pipe that has an input redirection writes to the output of the shell.\<close>

lemma redirected_input_breaks_pipe:
  "\<exists>sh. cmd_exec sample_os sample_sh (Command [''cat''] (Some ''in'', None, None) [] CMD_PIPE) =
    Done (\<lparr>ch_prog = Exec ''/usr/bin/cat'' [''cat''], ch_stdin = File ''/home/in'', ch_stdout = Inherited,
      ch_stderr = Inherited\<rparr>, sh)"
  by (simp add: cmd_exec_def exec_child_def program_path_def sample_os_def sample_sh_def file_path_def)

text \<open>The descriptors of the pipes are put in place after the files: \<^verbatim>\<open>ls > out | wc < in\<close> leaves \<^verbatim>\<open>out\<close> empty and does not read \<^verbatim>\<open>in\<close>.\<close>

lemma pipe_replaces_redirection:
  "\<exists>sh. cmd_exec sample_os sample_sh (Command [''ls''] (None, Some ''out'', None) [] CMD_PIPE) =
      Done (\<lparr>ch_prog = Exec ''/usr/bin/ls'' [''ls''], ch_stdin = Inherited, ch_stdout = Pipe_End 0, ch_stderr = Inherited\<rparr>, sh)"
  "\<exists>sh. cmd_exec sample_os (sample_sh\<lparr>sh_pass := Some 0\<rparr>) (Command [''wc''] (Some ''in'', None, None) [] CMD_END) =
      Done (\<lparr>ch_prog = Exec ''/usr/bin/wc'' [''wc''], ch_stdin = Pipe_End 0, ch_stdout = Inherited, ch_stderr = Inherited\<rparr>, sh)"
  by (simp_all add: cmd_exec_def exec_child_def program_path_def sample_os_def sample_sh_def file_path_def)

text \<open>A subshell on the right of a pipe does not read from it.\<close>

lemma piped_subshell_not_connected:
  "\<exists>sh. cmd_exec sample_os (sample_sh\<lparr>sh_pass := Some 7\<rparr>) (Command [] (None, None, None) [prog ''wc'' CMD_END] CMD_END) =
    Done (\<lparr>ch_prog = Subshell [prog ''wc'' CMD_END], ch_stdin = Inherited, ch_stdout = Inherited, ch_stderr = Inherited\<rparr>, sh)"
  by (simp add: cmd_exec_def subshell_exec_def program_path_def sample_sh_def)

end
