(* ===== verification/Lib_Mem.thy ===== *)
theory Lib_Mem
  imports C_Prelude
begin

text \<open>
  The memory and string functions that the Lab 4 kernel and its programs share (\<^verbatim>\<open>lab4-TheCarton-main/lib.cc\<close>,
  \<^verbatim>\<open>lib.hh\<close>).  Memory is a function from addresses to bytes, so that arguments may overlap; a loop that looks for a
  NUL runs for ever when there is none (\<open>None\<close>).  The functions that return their first argument are modelled by
  the memory that they leave.
\<close>

type_synonym mem = "nat \<Rightarrow> char"

section \<open>Character traits\<close>

definition isspace :: "int \<Rightarrow> bool" where
  "isspace c \<longleftrightarrow> (9 \<le> c \<and> c \<le> 13) \<or> c = 32"

definition isdigit :: "int \<Rightarrow> bool" where
  "isdigit c \<longleftrightarrow> (c - 48) mod 2 ^ 32 < 10"

definition islower :: "int \<Rightarrow> bool" where
  "islower c \<longleftrightarrow> (c - 97) mod 2 ^ 32 < 26"

definition isupper :: "int \<Rightarrow> bool" where
  "isupper c \<longleftrightarrow> (c - 65) mod 2 ^ 32 < 26"

definition tolower :: "int \<Rightarrow> int" where
  "tolower c = (if isupper c then c + 97 - 65 else c)"

definition toupper :: "int \<Rightarrow> int" where
  "toupper c = (if islower c then c + 65 - 97 else c)"

section \<open>Memory\<close>

fun memcpy :: "mem \<Rightarrow> nat \<Rightarrow> nat \<Rightarrow> nat \<Rightarrow> mem" where
  "memcpy m d s 0 = m"
| "memcpy m d s (Suc n) = memcpy (m(d := m s)) (Suc d) (Suc s) n"

text \<open>The loop of \<^verbatim>\<open>memmove\<close> that goes down; the one that goes up is that of \<^verbatim>\<open>memcpy\<close>.\<close>

fun copy_down :: "mem \<Rightarrow> nat \<Rightarrow> nat \<Rightarrow> nat \<Rightarrow> mem" where
  "copy_down m d s 0 = m"
| "copy_down m d s (Suc n) = copy_down (m(d - 1 := m (s - 1))) (d - 1) (s - 1) n"

definition memmove :: "mem \<Rightarrow> nat \<Rightarrow> nat \<Rightarrow> nat \<Rightarrow> mem" where
  "memmove m d s n = (if s < d \<and> s + n > d then copy_down m (d + n) (s + n) n else memcpy m d s n)"

fun memset :: "mem \<Rightarrow> nat \<Rightarrow> int \<Rightarrow> nat \<Rightarrow> mem" where
  "memset m v c 0 = m"
| "memset m v c (Suc n) = memset (m(v := to_char c)) (Suc v) c n"

text \<open>\<^verbatim>\<open>(a > b) - (a < b)\<close>\<close>

definition sign_diff :: "nat \<Rightarrow> nat \<Rightarrow> int" where
  "sign_diff a b = (if a > b then 1 else 0) - (if a < b then 1 else 0)"

fun memcmp :: "mem \<Rightarrow> nat \<Rightarrow> nat \<Rightarrow> nat \<Rightarrow> int" where
  "memcmp m a b 0 = 0"
| "memcmp m a b (Suc n) =
     (if m a \<noteq> m b then sign_diff (of_char (m a)) (of_char (m b)) else memcmp m (Suc a) (Suc b) n)"

fun memchr :: "mem \<Rightarrow> nat \<Rightarrow> int \<Rightarrow> nat \<Rightarrow> nat option" where
  "memchr m s c 0 = None"
| "memchr m s c (Suc n) = (if of_char (m s) = c mod 256 then Some s else memchr m (Suc s) c n)"

section \<open>Strings\<close>

partial_function (option) strlen_loop :: "mem \<Rightarrow> nat \<Rightarrow> nat \<Rightarrow> nat option" where
  "strlen_loop m s n = (if m s \<noteq> NUL then strlen_loop m (s + 1) (n + 1) else Some n)"

definition strlen :: "mem \<Rightarrow> nat \<Rightarrow> nat option" where
  "strlen m s = strlen_loop m s 0"

text \<open>\<^verbatim>\<open>n != maxlen\<close> with the distance that is left.\<close>

fun strnlen :: "mem \<Rightarrow> nat \<Rightarrow> nat \<Rightarrow> nat" where
  "strnlen m s 0 = 0"
| "strnlen m s (Suc maxlen) = (if m s \<noteq> NUL then Suc (strnlen m (s + 1) maxlen) else 0)"

partial_function (option) lib_strcpy :: "mem \<Rightarrow> nat \<Rightarrow> nat \<Rightarrow> mem option" where
  "lib_strcpy m d src =
     (let m' = m(d := m src) in if m' d \<noteq> NUL then lib_strcpy m' (d + 1) (src + 1) else Some m')"

fun strncpy :: "mem \<Rightarrow> nat \<Rightarrow> nat \<Rightarrow> nat \<Rightarrow> mem" where
  "strncpy m d src 0 = m"
| "strncpy m d src (Suc maxlen) =
     (if m src \<noteq> NUL then strncpy (m(d := m src)) (d + 1) (src + 1) maxlen
      else memset m d 0 (Suc maxlen))"

definition strlcpy :: "mem \<Rightarrow> nat \<Rightarrow> nat \<Rightarrow> nat \<Rightarrow> (nat \<times> mem) option" where
  "strlcpy m dst src maxlen =
     map_option (\<lambda>n.
       if maxlen \<noteq> 0 then
         let nn = (if n > maxlen - 1 then maxlen - 1 else n)
         in (n, (memcpy m dst src nn)(dst + nn := NUL))
       else (n, m)) (strlen m src)"

partial_function (option) strcmp :: "mem \<Rightarrow> nat \<Rightarrow> nat \<Rightarrow> int option" where
  "strcmp m a b =
     (let ac = of_char (m a); bc = of_char (m b)
      in if ac = 0 \<or> bc = 0 \<or> ac \<noteq> bc then Some (sign_diff ac bc) else strcmp m (a + 1) (b + 1))"

fun strncmp :: "mem \<Rightarrow> nat \<Rightarrow> nat \<Rightarrow> nat \<Rightarrow> int" where
  "strncmp m a b 0 = sign_diff 0 0"
| "strncmp m a b (Suc n) =
     (let ac = of_char (m a); bc = of_char (m b)
      in if ac = 0 \<or> bc = 0 \<or> ac \<noteq> bc then sign_diff ac bc else strncmp m (a + 1) (b + 1) n)"

text \<open>\<^verbatim>\<open>tolower((unsigned char) *a)\<close>\<close>

definition lower :: "char \<Rightarrow> nat" where
  "lower c = nat (tolower (of_char c) mod 256)"

partial_function (option) strcasecmp :: "mem \<Rightarrow> nat \<Rightarrow> nat \<Rightarrow> int option" where
  "strcasecmp m a b =
     (let ac = lower (m a); bc = lower (m b)
      in if ac = 0 \<or> bc = 0 \<or> ac \<noteq> bc then Some (sign_diff ac bc) else strcasecmp m (a + 1) (b + 1))"

fun strncasecmp :: "mem \<Rightarrow> nat \<Rightarrow> nat \<Rightarrow> nat \<Rightarrow> int" where
  "strncasecmp m a b 0 = sign_diff 0 0"
| "strncasecmp m a b (Suc n) =
     (let ac = lower (m a); bc = lower (m b)
      in if ac = 0 \<or> bc = 0 \<or> ac \<noteq> bc then sign_diff ac bc else strncasecmp m (a + 1) (b + 1) n)"

partial_function (option) strchr :: "mem \<Rightarrow> nat \<Rightarrow> int \<Rightarrow> nat option option" where
  "strchr m s c =
     (if m s \<noteq> NUL \<and> m s \<noteq> to_char c then strchr m (s + 1) c
      else Some (if m s = to_char c then Some s else None))"

partial_function (option) strstr_loop :: "mem \<Rightarrow> nat \<Rightarrow> nat \<Rightarrow> nat \<Rightarrow> nat \<Rightarrow> nat option option" where
  "strstr_loop m hs ns i j =
     (if m (hs + i) \<noteq> NUL \<and> m (ns + j) \<noteq> NUL
      then if m (hs + i + j) = m (ns + j) then strstr_loop m hs ns i (j + 1) else strstr_loop m hs ns (i + 1) 0
      else Some (if m (ns + j) = NUL then Some (hs + i) else None))"

definition strstr :: "mem \<Rightarrow> nat \<Rightarrow> nat \<Rightarrow> nat option option" where
  "strstr m hs ns = strstr_loop m hs ns 0 0"

section \<open>Copying\<close>

lemma update_shift:
  assumes "Suc d \<le> a" "s + (a - d) \<noteq> d"
  shows "(m(d := x)) (Suc s + (a - Suc d)) = m (s + (a - d))"
proof -
  have e: "Suc s + (a - Suc d) = s + (a - d)"
    using assms(1) by simp
  show ?thesis
    unfolding e using assms(2) by (rule fun_upd_other)
qed

lemma to_char_0: "to_char 0 = NUL"
  by (simp add: to_char_def char_of_def)

lemma memcpy_apart:
  assumes "\<not> (s < d \<and> s + n > d)"
  shows "memcpy m d s n = (\<lambda>a. if d \<le> a \<and> a < d + n then m (s + (a - d)) else m a)"
  using assms
proof (induction m d s n rule: memcpy.induct)
  case (2 m d s n)
  have sh: "(m(d := m s)) (Suc s + (a - Suc d)) = m (s + (a - d))" if a: "Suc d \<le> a" "a < Suc d + n" for a
    using a "2.prems" by (intro update_shift) auto
  have "\<not> (Suc s < Suc d \<and> Suc s + n > Suc d)"
    using "2.prems" by auto
  note rest = 2(1) [OF this]
  show ?case
    unfolding memcpy.simps rest using sh by (auto simp: fun_eq_iff simp del: add_Suc)
qed (auto simp: fun_eq_iff)

lemma copy_down_apart:
  assumes "s < d"
  shows "copy_down m (d + n) (s + n) n = (\<lambda>a. if d \<le> a \<and> a < d + n then m (s + (a - d)) else m a)"
proof (induction n arbitrary: m)
  case (Suc n)
  have "copy_down m (d + Suc n) (s + Suc n) (Suc n) = copy_down (m(d + n := m (s + n))) (d + n) (s + n) n"
    by simp
  then show ?case
    unfolding Suc using assms by (auto simp: fun_eq_iff less_Suc_eq)
qed (auto simp: fun_eq_iff)

lemma memmove_apply:
  "memmove m d s n = (\<lambda>a. if d \<le> a \<and> a < d + n then m (s + (a - d)) else m a)"
  unfolding memmove_def by (simp add: copy_down_apart memcpy_apart)

lemma memset_apply: "memset m v c n = (\<lambda>a. if v \<le> a \<and> a < v + n then to_char c else m a)"
proof (induction m v c n rule: memset.induct)
  case (2 m v c n)
  show ?case
    unfolding memset.simps 2 by (auto simp: fun_eq_iff)
qed (auto simp: fun_eq_iff)

lemma memcmp_eq_0: "memcmp m a b n = 0 \<longleftrightarrow> (\<forall>i<n. m (a + i) = m (b + i))"
proof (induction m a b n rule: memcmp.induct)
  case (2 m a b n)
  have "sign_diff (of_char (m a)) (of_char (m b)) \<noteq> 0" if "m a \<noteq> m b"
    using that by (auto simp: sign_diff_def)
  then show ?case
    using 2 by (auto simp: All_less_Suc2)
qed simp

lemma memchr_None: "memchr m s c n = None \<longleftrightarrow> (\<forall>i<n. of_char (m (s + i)) \<noteq> c mod 256)"
  by (induction m s c n rule: memchr.induct) (auto simp: All_less_Suc2)

lemma memchr_Some:
  "memchr m s c n = Some p \<Longrightarrow>
     \<exists>i<n. p = s + i \<and> of_char (m p) = c mod 256 \<and> (\<forall>j<i. of_char (m (s + j)) \<noteq> c mod 256)"
proof (induction m s c n rule: memchr.induct)
  case (2 m s c n)
  show ?case
  proof (cases "of_char (m s) = c mod 256")
    case False
    then obtain i where "i < n" "p = Suc s + i" "of_char (m p) = c mod 256"
      "\<forall>j<i. of_char (m (Suc s + j)) \<noteq> c mod 256"
      using 2 by auto
    then show ?thesis
      using False by (intro exI [of _ "Suc i"]) (simp add: All_less_Suc2)
  qed (use 2 in auto)
qed simp

section \<open>Strings in memory\<close>

definition c_string :: "mem \<Rightarrow> nat \<Rightarrow> string \<Rightarrow> bool" where
  "c_string m p w \<longleftrightarrow> NUL \<notin> set w \<and> (\<forall>i<length w. m (p + i) = w ! i) \<and> m (p + length w) = NUL"

lemma c_string_Nil [simp]: "c_string m p [] \<longleftrightarrow> m p = NUL"
  by (simp add: c_string_def)

lemma c_string_Cons [simp]: "c_string m p (c # w) \<longleftrightarrow> m p = c \<and> c \<noteq> NUL \<and> c_string m (Suc p) w"
  by (auto simp: c_string_def All_less_Suc2)

lemma c_string_drop: "c_string m p w \<Longrightarrow> i \<le> length w \<Longrightarrow> c_string m (p + i) (drop i w)"
  by (auto simp: c_string_def add.assoc dest: in_set_dropD)

lemma strlen_loop_string: "c_string m s w \<Longrightarrow> strlen_loop m s n = Some (n + length w)"
  by (induction w arbitrary: s n) (simp_all add: strlen_loop.simps)

lemma strlen_string: "c_string m s w \<Longrightarrow> strlen m s = Some (length w)"
  by (simp add: strlen_def strlen_loop_string)

lemma strnlen_string: "c_string m s w \<Longrightarrow> strnlen m s k = min (length w) k"
  by (induction m s k arbitrary: w rule: strnlen.induct) (case_tac w; simp)+


lemma lib_strcpy_string:
  assumes "c_string m src w" "d \<le> src \<or> src + length w < d"
  shows "lib_strcpy m d src = Some (\<lambda>a. if d \<le> a \<and> a \<le> d + length w then m (src + (a - d)) else m a)"
  using assms
proof (induction w arbitrary: m d src)
  case Nil
  then show ?case
    by (subst lib_strcpy.simps) (auto simp: fun_eq_iff)
next
  case (Cons c w)
  let ?m = "m(d := m src)"
  have "c_string ?m (Suc src) w"
    using Cons.prems by (auto simp: c_string_def)
  moreover have "Suc d \<le> Suc src \<or> Suc src + length w < Suc d"
    using Cons.prems by auto
  ultimately have "lib_strcpy ?m (Suc d) (Suc src) =
      Some (\<lambda>a. if Suc d \<le> a \<and> a \<le> Suc d + length w then ?m (Suc src + (a - Suc d)) else ?m a)"
    by (rule Cons.IH)
  moreover have "?m (Suc src + (a - Suc d)) = m (src + (a - d))" if a: "Suc d \<le> a" "a \<le> Suc d + length w" for a
    using a Cons.prems by (intro update_shift) auto
  moreover have "lib_strcpy m d src = lib_strcpy ?m (Suc d) (Suc src)"
    using Cons.prems by (subst lib_strcpy.simps) simp
  ultimately show ?case
    by (auto simp: fun_eq_iff)
qed

lemma strncpy_string:
  assumes "c_string m src w" "d \<le> src \<or> src + length w < d"
  shows "strncpy m d src k =
    (\<lambda>a. if d \<le> a \<and> a < d + k then (if a - d < length w then m (src + (a - d)) else NUL) else m a)"
  using assms
proof (induction w arbitrary: m d src k)
  case Nil
  then show ?case
    by (cases k) (auto simp: memset_apply fun_eq_iff to_char_0)
next
  case (Cons c w)
  show ?case
  proof (cases k)
    case (Suc l)
    let ?m = "m(d := m src)"
    have "c_string ?m (Suc src) w"
      using Cons.prems by (auto simp: c_string_def)
    moreover have "Suc d \<le> Suc src \<or> Suc src + length w < Suc d"
      using Cons.prems by auto
    ultimately have "strncpy ?m (Suc d) (Suc src) l = (\<lambda>a. if Suc d \<le> a \<and> a < Suc d + l then
        (if a - Suc d < length w then ?m (Suc src + (a - Suc d)) else NUL) else ?m a)"
      by (rule Cons.IH)
    moreover have "?m (Suc src + (a - Suc d)) = m (src + (a - d))" if a: "Suc d \<le> a" "a - Suc d < length w" for a
      using a Cons.prems by (intro update_shift) auto
    moreover have "strncpy m d src k = strncpy ?m (Suc d) (Suc src) l"
      using Cons.prems Suc by simp
    moreover have "a - d < length (c # w) \<longleftrightarrow> a - Suc d < length w" if "Suc d \<le> a" for a
      using that by auto
    ultimately show ?thesis
      using Suc by (auto simp: fun_eq_iff)
  qed (simp add: fun_eq_iff, auto)
qed

lemma strlcpy_string:
  assumes "c_string m src w" "0 < k" "d \<le> src \<or> src + length w < d"
  shows "\<exists>m'. strlcpy m d src k = Some (length w, m') \<and> c_string m' d (take (k - 1) w) \<and>
    (\<forall>a. a < d \<or> d + k \<le> a \<longrightarrow> m' a = m a)"
proof -
  let ?n = "min (length w) (k - 1)"
  have "(if length w > k - 1 then k - 1 else length w) = ?n"
    by simp
  then have run: "strlcpy m d src k = Some (length w, (memcpy m d src ?n)(d + ?n := NUL))"
    using assms(2) strlen_string [OF assms(1)] by (simp add: strlcpy_def Let_def)
  have "\<not> (src < d \<and> src + ?n > d)"
    using assms(3) by auto
  then have cp: "memcpy m d src ?n = (\<lambda>a. if d \<le> a \<and> a < d + ?n then m (src + (a - d)) else m a)"
    by (rule memcpy_apart)
  have "c_string ((memcpy m d src ?n)(d + ?n := NUL)) d (take (k - 1) w)"
    using assms(1) unfolding cp c_string_def by (auto dest: in_set_takeD)
  moreover have "((memcpy m d src ?n)(d + ?n := NUL)) a = m a" if "a < d \<or> d + k \<le> a" for a
    using that assms(2) unfolding cp by auto
  ultimately show ?thesis
    using run by blast
qed

section \<open>Comparison\<close>

text \<open>The comparison of two texts through a key of their characters.\<close>

fun cmp_text :: "(char \<Rightarrow> nat) \<Rightarrow> string \<Rightarrow> string \<Rightarrow> int" where
  "cmp_text f [] [] = 0"
| "cmp_text f [] (d # v) = - 1"
| "cmp_text f (c # u) [] = 1"
| "cmp_text f (c # u) (d # v) = (if f c = f d then cmp_text f u v else if f c < f d then - 1 else 1)"

lemma of_char_0 [simp]: "of_char c = (0 :: nat) \<longleftrightarrow> c = NUL"
proof -
  have "of_char NUL = (0 :: nat)" by simp
  then show ?thesis by (metis of_char_eq_iff)
qed

lemma cmp_text_append: "map f u = map f u' \<Longrightarrow> cmp_text f (u @ v) (u' @ w) = cmp_text f v w"
  by (induction u arbitrary: u') auto

lemma cmp_text_eq_0: "cmp_text f u v = 0 \<longleftrightarrow> map f u = map f v"
  by (induction f u v rule: cmp_text.induct) auto

lemma cmp_text_less: "cmp_text f u v < 0 \<longleftrightarrow> ord_class.lexordp (map f u) (map f v)"
  by (induction f u v rule: cmp_text.induct) auto

lemma cmp_text_range: "cmp_text f u v \<in> {- 1, 0, 1}"
  by (induction f u v rule: cmp_text.induct) auto

lemma char_range: "0 \<le> (of_char c :: int)" "of_char c < (256 :: int)"
proof -
  have "of_char c = (of_char c :: int) mod 256"
    by simp
  then show "0 \<le> (of_char c :: int)" "of_char c < (256 :: int)"
    by (metis pos_mod_sign zero_less_numeral, metis pos_mod_bound zero_less_numeral)
qed

lemma isupper_iff: "0 \<le> c \<Longrightarrow> c < 256 \<Longrightarrow> isupper c \<longleftrightarrow> 65 \<le> c \<and> c \<le> 90"
proof -
  assume c: "0 \<le> c" "c < 256"
  have "(c - 65) mod 2 ^ 32 = (if 65 \<le> c then c - 65 else c - 65 + 2 ^ 32)"
  proof (cases "65 \<le> c")
    case False
    then have "(c - 65 + 2 ^ 32) mod 2 ^ 32 = c - 65 + 2 ^ 32"
      using c by (intro mod_pos_pos_trivial) auto
    then show ?thesis
      using False by (simp only: mod_add_self2 if_False)
  qed (use c in auto)
  then show ?thesis
    using c by (auto simp: isupper_def)
qed

lemma lower_nat: "lower c = (let n = of_char c in if 65 \<le> n \<and> n \<le> 90 then n + 32 else n)"
proof -
  have "of_char c = int (of_char c)"
    by (simp add: of_nat_of_char)
  then show ?thesis
    using char_range [of c] unfolding lower_def tolower_def isupper_iff [OF char_range]
    by (auto simp: Let_def)
qed

lemma lower_0 [simp]: "lower c = 0 \<longleftrightarrow> c = NUL"
  by (auto simp: lower_nat Let_def)

lemma lower_NUL [simp]: "lower NUL = 0"
  by simp

text \<open>Each comparison loop computes the comparison of the texts, or of their first \<open>n\<close> characters.\<close>

lemma strcmp_text: "c_string m a u \<Longrightarrow> c_string m b v \<Longrightarrow> strcmp m a b = Some (cmp_text of_char u v)"
  by (induction "of_char :: char \<Rightarrow> nat" u v arbitrary: a b rule: cmp_text.induct)
    (auto simp: strcmp.simps [of m] Let_def sign_diff_def)

lemma strcasecmp_text: "c_string m a u \<Longrightarrow> c_string m b v \<Longrightarrow> strcasecmp m a b = Some (cmp_text lower u v)"
  by (induction lower u v arbitrary: a b rule: cmp_text.induct)
    (auto simp: strcasecmp.simps [of m] Let_def sign_diff_def)

lemma strncmp_text:
  "c_string m a u \<Longrightarrow> c_string m b v \<Longrightarrow> strncmp m a b n = cmp_text of_char (take n u) (take n v)"
proof (induction m a b n arbitrary: u v rule: strncmp.induct)
  case (2 m a b n)
  then show ?case
    by (cases u; cases v) (auto simp: Let_def sign_diff_def)
qed (simp add: sign_diff_def)

lemma strncasecmp_text:
  "c_string m a u \<Longrightarrow> c_string m b v \<Longrightarrow> strncasecmp m a b n = cmp_text lower (take n u) (take n v)"
proof (induction m a b n arbitrary: u v rule: strncasecmp.induct)
  case (2 m a b n)
  then show ?case
    by (cases u; cases v) (auto simp: Let_def sign_diff_def)
qed (simp add: sign_diff_def)

section \<open>Searching\<close>

lemma strchr_string:
  "c_string m s w \<Longrightarrow> \<exists>r. strchr m s c = Some r \<and> (case r of
      None \<Rightarrow> \<forall>i\<le>length w. m (s + i) \<noteq> to_char c
    | Some p \<Rightarrow> \<exists>i\<le>length w. p = s + i \<and> m p = to_char c \<and> (\<forall>j<i. m (s + j) \<noteq> to_char c))"
proof (induction w arbitrary: s)
  case Nil
  then show ?case by (simp add: strchr.simps)
next
  case (Cons d w)
  show ?case
  proof (cases "m s = to_char c")
    case False
    then have e: "strchr m s c = strchr m (Suc s) c"
      using Cons.prems by (subst strchr.simps) simp
    obtain r where r: "strchr m (Suc s) c = Some r" "case r of
        None \<Rightarrow> \<forall>i\<le>length w. m (Suc s + i) \<noteq> to_char c
      | Some p \<Rightarrow> \<exists>i\<le>length w. p = Suc s + i \<and> m p = to_char c \<and> (\<forall>j<i. m (Suc s + j) \<noteq> to_char c)"
      using Cons by auto
    show ?thesis
    proof (cases r)
      case None
      then have "m (s + i) \<noteq> to_char c" if "i \<le> Suc (length w)" for i
        using r(2) False that by (cases i) auto
      then show ?thesis
        using e r(1) None by auto
    next
      case (Some p)
      then obtain i where "i \<le> length w" "p = s + Suc i" "m p = to_char c" "\<forall>j<i. m (s + Suc j) \<noteq> to_char c"
        using r(2) by auto
      then show ?thesis
        using e r(1) Some False by (auto intro!: exI [of _ "Suc i"] simp: All_less_Suc2)
    qed
  qed (auto simp: strchr.simps intro: exI [of _ 0])
qed

text \<open>\<open>v\<close> occurs in \<open>u\<close> at position \<open>i\<close>.\<close>

definition occurs_at :: "string \<Rightarrow> string \<Rightarrow> nat \<Rightarrow> bool" where
  "occurs_at u v i \<longleftrightarrow> i + length v \<le> length u \<and> take (length v) (drop i u) = v"

definition found :: "nat \<Rightarrow> string \<Rightarrow> string \<Rightarrow> nat option \<Rightarrow> bool" where
  "found hs u v r = (case r of None \<Rightarrow> \<forall>k. \<not> occurs_at u v k
     | Some p \<Rightarrow> \<exists>k. p = hs + k \<and> occurs_at u v k \<and> (\<forall>l<k. \<not> occurs_at u v l))"

lemma c_string_nth: "c_string m p w \<Longrightarrow> i \<le> length w \<Longrightarrow> m (p + i) = (w @ [NUL]) ! i"
  by (auto simp: c_string_def nth_append le_less)

lemma c_string_end: "c_string m p w \<Longrightarrow> i \<le> length w \<Longrightarrow> m (p + i) = NUL \<longleftrightarrow> i = length w"
  by (auto simp: c_string_def le_less) (metis nth_mem)

lemma occurs_mismatch:
  assumes "j < length v" "i + j = length u \<or> i + j < length u \<and> u ! (i + j) \<noteq> v ! j"
  shows "\<not> occurs_at u v i"
proof
  assume occ: "occurs_at u v i"
  then have "(take (length v) (drop i u)) ! j = v ! j" "i + length v \<le> length u"
    by (simp_all add: occurs_at_def)
  then show False
    using assms by auto
qed

lemma strstr_loop_string:
  assumes hs: "c_string m hs u" and ns: "c_string m ns v"
  shows "j \<le> length v \<Longrightarrow> i + j \<le> length u \<Longrightarrow> take j (drop i u) = take j v \<Longrightarrow> \<forall>k<i. \<not> occurs_at u v k \<Longrightarrow>
    \<exists>r. strstr_loop m hs ns i j = Some r \<and> found hs u v r"
proof (induction "(length u - i) * Suc (length v) + (length v - j)" arbitrary: i j rule: less_induct)
  case less
  note step = strstr_loop.simps [of m hs ns i j]
  have h: "m (hs + i) = NUL \<longleftrightarrow> i = length u" and n: "m (ns + j) = NUL \<longleftrightarrow> j = length v"
    using c_string_end [OF hs, of i] c_string_end [OF ns] less.prems by auto
  have hj: "m (hs + i + j) = (u @ [NUL]) ! (i + j)"
    using c_string_nth [OF hs less.prems(2)] by (simp add: add.assoc)
  consider (hit) "j = length v" | (over) "j < length v" "i = length u" | (go) "j < length v" "i < length u"
    using less.prems by fastforce
  then show ?case
  proof cases
    case hit
    then have "occurs_at u v i"
      using less.prems by (simp add: occurs_at_def)
    then show ?thesis
      using hit step n less.prems by (auto simp: found_def)
  next
    case over
    then have "\<not> occurs_at u v k" for k
      using less.prems by (cases "k < i") (auto simp: occurs_at_def)
    then show ?thesis
      using over step h n by (auto simp: found_def)
  next
    case go
    have nj: "m (ns + j) = v ! j" "v ! j \<noteq> NUL"
      using go ns by (auto simp: c_string_def dest: nth_mem)
    show ?thesis
    proof (cases "m (hs + i + j) = m (ns + j)")
      case True
      then have ij: "i + j < length u" "u ! (i + j) = v ! j"
        using hj nj less.prems(2) by (auto simp: nth_append split: if_splits)
      have "take (Suc j) (drop i u) = take (Suc j) v"
        using ij go less.prems(3) by (simp add: take_Suc_conv_app_nth)
      then show ?thesis
        using less.hyps [of i "Suc j"] True step h n go ij less.prems by simp
    next
      case False
      have "i + j = length u \<or> i + j < length u \<and> u ! (i + j) \<noteq> v ! j"
        using False hj nj less.prems(2) by (auto simp: nth_append split: if_splits)
      then have "\<not> occurs_at u v i"
        by (rule occurs_mismatch [OF go(1)])
      moreover have "(length u - Suc i) * Suc (length v) + length v < (length u - i) * Suc (length v) + (length v - j)"
        using go Suc_diff_Suc [OF go(2), symmetric] by (simp only: mult_Suc)
      ultimately show ?thesis
        using less.hyps [of "Suc i" 0] False step h n go less.prems by (simp add: All_less_Suc)
    qed
  qed
qed


section \<open>Properties\<close>

text \<open>
  C36. \<^verbatim>\<open>memmove\<close> copies the \<open>n\<close> bytes at \<open>s\<close>, as they were before the call, to \<open>d\<close> and changes nothing else, however
  the two areas overlap.
\<close>

theorem memmove_overlap:
  "(\<forall>i<n. memmove m d s n (d + i) = m (s + i)) \<and> (\<forall>a. a \<notin> {d..<d + n} \<longrightarrow> memmove m d s n a = m a)"
  by (simp add: memmove_apply)

theorem memmove_overlap_witness:
  "memmove (\<lambda>a. if a = 0 then CHR ''x'' else if a = 1 then CHR ''y'' else NUL) 1 0 2 2 = CHR ''y''"
  using memmove_overlap [of 2 "\<lambda>a. if a = 0 then CHR ''x'' else if a = 1 then CHR ''y'' else NUL" 1 0]
  by (simp add: numeral_2_eq_2 All_less_Suc2)

text \<open>
  On NUL-terminated strings the comparisons return -1, 0 or 1 and decide the lexicographic order of the strings as
  sequences of unsigned bytes, of their lower-case forms, and of their first \<open>n\<close> characters; no comparison
  runs for ever.
\<close>

lemma strcmp_lexicographic:
  assumes "c_string m a u" "c_string m b v"
  shows "\<exists>r r'. strcmp m a b = Some r \<and> strcasecmp m a b = Some r' \<and> {r, r', strncmp m a b n, strncasecmp m a b n} \<subseteq> {- 1, 0, 1} \<and>
    (r = 0 \<longleftrightarrow> u = v) \<and> (r < 0 \<longleftrightarrow> ord_class.lexordp (map of_char u) (map of_char v :: nat list)) \<and>
    (r' = 0 \<longleftrightarrow> map lower u = map lower v) \<and> (r' < 0 \<longleftrightarrow> ord_class.lexordp (map lower u) (map lower v)) \<and>
    (strncmp m a b n = 0 \<longleftrightarrow> take n u = take n v) \<and>
    (strncmp m a b n < 0 \<longleftrightarrow> ord_class.lexordp (map of_char (take n u)) (map of_char (take n v) :: nat list)) \<and>
    (strncasecmp m a b n = 0 \<longleftrightarrow> map lower (take n u) = map lower (take n v))"
proof -
  have "map of_char s = (map of_char t :: nat list) \<longleftrightarrow> s = t" for s t :: string
    by (rule inj_map_eq_map) (auto intro: injI)
  note eq = cmp_text_eq_0 [of "of_char :: char \<Rightarrow> nat"] this
  show ?thesis
    using cmp_text_range [of "of_char :: char \<Rightarrow> nat" u v] cmp_text_range [of "of_char :: char \<Rightarrow> nat" "take n u" "take n v"]
      cmp_text_range [of lower]
    by (simp add: strcmp_text [OF assms] strcasecmp_text [OF assms] strncmp_text [OF assms] strncasecmp_text [OF assms]
        cmp_text_less cmp_text_eq_0 eq)
qed

text \<open>
  \<^verbatim>\<open>strstr\<close> returns on every pair of strings: a pointer to the first occurrence of the needle, or NULL when there is
  none.
\<close>

lemma strstr_first_occurrence:
  assumes "c_string m hs u" "c_string m ns v"
  shows "\<exists>r. strstr m hs ns = Some r \<and> (case r of
      None \<Rightarrow> \<nexists>x y. u = x @ v @ y
    | Some p \<Rightarrow> \<exists>x y. u = x @ v @ y \<and> p = hs + length x \<and> (\<forall>x' y'. u = x' @ v @ y' \<longrightarrow> length x \<le> length x'))"
proof -
  have occ: "occurs_at u v k \<longleftrightarrow> (\<exists>x y. u = x @ v @ y \<and> k = length x)" for k
  proof
    assume "occurs_at u v k"
    then have "drop k u = v @ drop (length v) (drop k u)" "k \<le> length u"
      using append_take_drop_id [of "length v" "drop k u"] by (auto simp: occurs_at_def)
    then have "u = take k u @ v @ drop (length v) (drop k u) \<and> k = length (take k u)"
      by (metis append_take_drop_id length_take min_absorb2)
    then show "\<exists>x y. u = x @ v @ y \<and> k = length x"
      by blast
  qed (auto simp: occurs_at_def)
  obtain r where r: "strstr m hs ns = Some r" "found hs u v r"
    using strstr_loop_string [OF assms, of 0 0] by (auto simp: strstr_def)
  then show ?thesis
    by (cases r) (auto simp: found_def occ, metis not_le)
qed

text \<open>
  \<^verbatim>\<open>strlcpy\<close> writes only within the \<open>k\<close> bytes of its destination, leaves there the string cut to fit with its NUL, and
  returns the length of the source.
\<close>

lemma strlcpy_bounds:
  assumes "c_string m src w" "0 < k" "d \<le> src \<or> src + length w < d"
  shows "\<exists>m'. strlcpy m d src k = Some (length w, m') \<and> c_string m' d (take (k - 1) w) \<and>
    (\<forall>a. a \<notin> {d..<d + k} \<longrightarrow> m' a = m a)"
proof -
  obtain m' where "strlcpy m d src k = Some (length w, m')" "c_string m' d (take (k - 1) w)"
    "\<forall>a. a < d \<or> d + k \<le> a \<longrightarrow> m' a = m a"
    using strlcpy_string [OF assms] by blast
  then show ?thesis
    by (intro exI [of _ m']) auto
qed

text \<open>Memory with one string at address 10.\<close>

definition sample_mem :: mem where
  "sample_mem a = (if 10 \<le> a \<and> a < 14 then ''abab'' ! (a - 10) else if 20 \<le> a \<and> a < 22 then ''ba'' ! (a - 20) else NUL)"

lemma sample_strings: "c_string sample_mem 10 ''abab''" "c_string sample_mem 20 ''ba''"
  by (simp_all add: sample_mem_def)

lemma strcmp_lexicographic_witness: "\<exists>r<0. strcmp sample_mem 10 20 = Some r"
  using strcmp_lexicographic [OF sample_strings, of 1] by auto

lemma strstr_first_occurrence_witness: "\<exists>p. strstr sample_mem 10 20 = Some (Some p)"
proof -
  obtain r where "strstr sample_mem 10 20 = Some r" "r = None \<Longrightarrow> \<nexists>x y. ''abab'' = x @ ''ba'' @ y"
    using strstr_first_occurrence [OF sample_strings] by (auto split: option.splits)
  moreover have "''abab'' = ''a'' @ ''ba'' @ ''b''" by simp
  ultimately show ?thesis by (cases r) blast+
qed

lemma strlcpy_bounds_witness: "\<exists>m'. strlcpy sample_mem 30 10 3 = Some (4, m') \<and> c_string m' 30 ''ab'' \<and> m' 33 = NUL"
  using strlcpy_bounds [OF sample_strings(1), of 3 30] by (auto simp: sample_mem_def)

end
