(* ===== verification/Lib_Number.thy ===== *)
theory Lib_Number
  imports Lib_Mem
begin

text \<open>
  Numbers in the Lab 4 library (\<^verbatim>\<open>lab4-TheCarton-main/lib.cc\<close>, \<^verbatim>\<open>lib.hh\<close>): parsing (\<^verbatim>\<open>from_chars\<close>, \<^verbatim>\<open>strtoul\<close>, \<^verbatim>\<open>strtol\<close>), the
  pseudorandom generator and rounding.  An \<^verbatim>\<open>unsigned long\<close> is a \<open>64 word\<close>; a \<^verbatim>\<open>long\<close> is one read by \<open>sint\<close>.
\<close>

unbundle bit_operations_syntax

type_synonym ulong = "64 word"

section \<open>Parsing\<close>

abbreviation E_INVAL :: int where "E_INVAL \<equiv> - 22"
abbreviation E_RANGE :: int where "E_RANGE \<equiv> - 34"

text \<open>The three tests of the loop, in their order.\<close>

definition digit_of :: "int \<Rightarrow> char \<Rightarrow> nat option" where
  "digit_of base c =
     (let v = char_val c
      in if 48 \<le> v \<and> v < 48 + base then Some (nat (v - 48))
         else if 97 \<le> v \<and> v < 97 + base - 10 then Some (nat (v - 97 + 10))
         else if 65 \<le> v \<and> v < 65 + base - 10 then Some (nat (v - 65 + 10))
         else None)"

text \<open>The loop of \<^verbatim>\<open>from_chars\<close>: \<^verbatim>\<open>s\<close>, \<^verbatim>\<open>x\<close>, \<^verbatim>\<open>overflow\<close>.\<close>

partial_function (option) from_loop :: "mem \<Rightarrow> nat \<Rightarrow> int \<Rightarrow> nat \<Rightarrow> ulong \<Rightarrow> bool \<Rightarrow> (nat \<times> ulong \<times> bool) option" where
  "from_loop m lim base s x overflow =
     (if s = lim then Some (s, x, overflow)
      else case digit_of base (m s) of
        None \<Rightarrow> Some (s, x, overflow)
      | Some digit \<Rightarrow>
          if x > (- 1 - of_nat digit) div of_int base then from_loop m lim base (s + 1) x True
          else from_loop m lim base (s + 1) (x * of_int base + of_nat digit) overflow)"

text \<open>The pointer, the error code, and the value when it is assigned.\<close>

record 'a from_chars_result =
  fc_ptr :: nat
  fc_ec :: int
  fc_value :: "'a option"

definition from_chars_ul :: "mem \<Rightarrow> nat \<Rightarrow> nat \<Rightarrow> int \<Rightarrow> ulong from_chars_result option" where
  "from_chars_ul m first lim base =
     map_option (\<lambda>(s, x, overflow).
       if s = first then \<lparr>fc_ptr = s, fc_ec = E_INVAL, fc_value = None\<rparr>
       else if overflow then \<lparr>fc_ptr = s, fc_ec = E_RANGE, fc_value = None\<rparr>
       else \<lparr>fc_ptr = s, fc_ec = 0, fc_value = Some x\<rparr>) (from_loop m lim base first 0 False)"

text \<open>\<^verbatim>\<open>(1UL << 63) - !negative\<close>\<close>

definition long_bound :: "bool \<Rightarrow> ulong" where
  "long_bound negative = push_bit 63 1 - (if negative then 0 else 1)"

definition from_chars_l :: "mem \<Rightarrow> nat \<Rightarrow> nat \<Rightarrow> int \<Rightarrow> ulong from_chars_result option" where
  "from_chars_l m first lim base =
     (let negative = (first \<noteq> lim \<and> m first = CHR ''-'')
      in map_option (\<lambda>r.
           let x = (case fc_value r of None \<Rightarrow> 0 | Some x \<Rightarrow> x)
           in if fc_ec r = E_INVAL then \<lparr>fc_ptr = first, fc_ec = E_INVAL, fc_value = None\<rparr>
              else if fc_ec r = E_RANGE \<or> x > long_bound negative then \<lparr>fc_ptr = fc_ptr r, fc_ec = E_RANGE, fc_value = None\<rparr>
              else \<lparr>fc_ptr = fc_ptr r, fc_ec = 0, fc_value = Some (if negative then - x else x)\<rparr>)
         (from_chars_ul m (if negative then first + 1 else first) lim base))"

definition strtol_fix_base :: "mem \<Rightarrow> nat \<Rightarrow> int \<Rightarrow> nat \<times> int" where
  "strtol_fix_base m t base =
     (if base = 0 then
        if m t = CHR ''0'' then
          if m (t + 1) = CHR ''x'' \<or> m (t + 1) = CHR ''X'' then (t + 2, 16)
          else if m (t + 1) = CHR ''o'' \<or> m (t + 1) = CHR ''O'' then (t + 2, 8)
          else if m (t + 1) = CHR ''b'' \<or> m (t + 1) = CHR ''B'' then (t + 2, 2)
          else (t, 8)
        else (t, 10)
      else if base = 16 \<and> m t = CHR ''0'' \<and> (m (t + 1) = CHR ''x'' \<or> m (t + 1) = CHR ''X'') then (t + 2, base)
      else (t, base))"

partial_function (option) skip_space :: "mem \<Rightarrow> nat \<Rightarrow> nat option" where
  "skip_space m t = (if isspace (char_val (m t)) then skip_space m (t + 1) else Some t)"

text \<open>
  The common part of \<^verbatim>\<open>strtoul\<close> and \<^verbatim>\<open>strtol\<close>: the sign, the result of \<^verbatim>\<open>from_chars\<close> with \<^verbatim>\<open>nullptr\<close> as the end, and
  what is stored in \<^verbatim>\<open>*endptr\<close>.
\<close>

definition strto_parse :: "mem \<Rightarrow> nat \<Rightarrow> int \<Rightarrow> (bool \<times> ulong from_chars_result \<times> nat) option" where
  "strto_parse m s base =
     Option.bind (skip_space m s) (\<lambda>t.
     let negative = (m t = CHR ''-'');
         t = (if negative \<or> m t = CHR ''+'' then t + 1 else t);
         (t, base) = strtol_fix_base m t base
     in map_option (\<lambda>r. (negative, r, if fc_ec r = E_INVAL then s else fc_ptr r)) (from_chars_ul m t 0 base))"

definition strtoul :: "mem \<Rightarrow> nat \<Rightarrow> int \<Rightarrow> (ulong \<times> nat) option" where
  "strtoul m s base =
     map_option (\<lambda>(negative, r, endptr).
       let x = (case fc_value r of None \<Rightarrow> 0 | Some x \<Rightarrow> x);
           x = (if fc_ec r = E_RANGE then - 1 else x)
       in (if negative then - x else x, endptr)) (strto_parse m s base)"

definition strtol :: "mem \<Rightarrow> nat \<Rightarrow> int \<Rightarrow> (ulong \<times> nat) option" where
  "strtol m s base =
     map_option (\<lambda>(negative, r, endptr).
       let x = (case fc_value r of None \<Rightarrow> 0 | Some x \<Rightarrow> x);
           bound = long_bound negative;
           x = (if fc_ec r = E_RANGE \<or> x > bound then bound else x)
       in (if negative then - x else x, endptr)) (strto_parse m s base)"

section \<open>Pseudorandom numbers\<close>

record rand_state =
  rand_seed_set :: bool
  rand_seed :: ulong

definition srand :: "32 word \<Rightarrow> rand_state" where
  "srand seed = \<lparr>rand_seed_set = True, rand_seed = push_bit 32 (ucast seed) OR ucast seed\<rparr>"

abbreviation RAND_MAX :: int where "RAND_MAX \<equiv> 0x7FFFFFFF"

definition rand :: "rand_state \<Rightarrow> int \<times> rand_state" where
  "rand st =
     (let st = (if rand_seed_set st then st else srand 819234718);
          seed = rand_seed st * 6364136223846793005 + 1
      in (uint (drop_bit 32 seed AND 0x7FFFFFFF), st\<lparr>rand_seed := seed\<rparr>))"

text \<open>
  \<^verbatim>\<open>rand(min, max)\<close>: \<^verbatim>\<open>max - min\<close> and \<^verbatim>\<open>max - min + 1\<close> are computed in \<^verbatim>\<open>int\<close>, the rest in \<^verbatim>\<open>unsigned long\<close>, and the sum is
  converted back to \<^verbatim>\<open>int\<close>.
\<close>

definition rand_range :: "rand_state \<Rightarrow> int \<Rightarrow> int \<Rightarrow> (int \<times> rand_state) outcome" where
  "rand_range st lo hi =
     (if \<not> lo \<le> hi then Abort
      else if hi - lo > RAND_MAX then Undef
      else
        let (r, st) = rand st
        in if hi - lo + 1 > RAND_MAX then Undef
           else let q = (of_int r * of_int (hi - lo + 1)) div (of_int RAND_MAX + 1) :: ulong
             in Done (int32 (uint (of_int lo + q)), st))"

section \<open>Rounding\<close>

definition round_down :: "ulong \<Rightarrow> ulong \<Rightarrow> ulong" where
  "round_down x m = x - x mod m"

definition round_up :: "ulong \<Rightarrow> ulong \<Rightarrow> ulong" where
  "round_up x m = round_down (x + m - 1) m"


section \<open>The value of a sequence of digits\<close>

definition num_val :: "int \<Rightarrow> nat list \<Rightarrow> int" where
  "num_val base ds = foldl (\<lambda>v d. v * base + int d) 0 ds"

lemma num_val_simps [simp]:
  "num_val base [] = 0" "num_val base (ds @ [d]) = num_val base ds * base + int d"
  by (simp_all add: num_val_def)

lemma foldl_num_mono: "0 < base \<Longrightarrow> 0 \<le> v \<Longrightarrow> v \<le> foldl (\<lambda>v d. v * base + int d) v ds"
proof (induction ds arbitrary: v)
  case (Cons d ds)
  have "v \<le> v * base"
    using Cons.prems mult_left_mono [of 1 base v] by simp
  then have "v \<le> v * base + int d" "0 \<le> v * base + int d"
    using Cons.prems by simp_all
  then show ?case
    using Cons.IH [of "v * base + int d"] Cons.prems by simp
qed simp

lemma div_less_mult: "0 < b \<Longrightarrow> a div b < x \<longleftrightarrow> a < x * (b :: int)"
proof
  assume b: "0 < b" and "a div b < x"
  then have "(a div b + 1) * b \<le> x * b"
    by (intro mult_right_mono) auto
  then show "a < x * b"
    using div_mult_mod_eq [of a b] pos_mod_bound [OF b, of a] by (simp only: distrib_right)
next
  assume b: "0 < b" and a: "a < x * b"
  show "a div b < x"
  proof (rule ccontr)
    assume "\<not> a div b < x"
    then have "x * b \<le> a div b * b"
      using b by (intro mult_right_mono) auto
    then show False
      using a div_mult_mod_eq [of a b] pos_mod_sign [OF b, of a] by linarith
  qed
qed

text \<open>The overflow test is exact.\<close>

lemma overflow_test:
  assumes "0 < base" "base < 2 ^ 31" "d < 2 ^ 31"
  shows "x > (- 1 - of_nat d) div of_int base \<longleftrightarrow> uint (x :: ulong) * base + int d \<ge> 2 ^ 64"
    and "\<not> x > (- 1 - of_nat d) div of_int base \<Longrightarrow> uint (x * of_int base + of_nat d :: ulong) = uint x * base + int d"
proof -
  have b: "uint (of_int base :: ulong) = base"
    using assms by (simp add: uint_word_of_int)
  have d: "uint (of_nat d :: ulong) = int d"
    using assms by (simp add: unsigned_of_nat take_bit_nat_eq_self_iff)
  have "uint (- 1 - of_nat d :: ulong) = 2 ^ 64 - 1 - int d"
    using assms d by (simp add: uint_word_ariths)
  then have q: "uint ((- 1 - of_nat d) div of_int base :: ulong) = (2 ^ 64 - 1 - int d) div base"
    by (simp add: uint_div b)
  have "(2 ^ 64 - 1 - int d) div base < uint x \<longleftrightarrow> 2 ^ 64 - 1 - int d < uint x * base"
    by (rule div_less_mult [OF assms(1)])
  then show iff: "x > (- 1 - of_nat d) div of_int base \<longleftrightarrow> uint x * base + int d \<ge> 2 ^ 64"
    by (auto simp: word_less_def q)
  assume "\<not> x > (- 1 - of_nat d) div of_int base"
  then have "uint x * base + int d < 2 ^ 64"
    using iff by simp
  then show "uint (x * of_int base + of_nat d :: ulong) = uint x * base + int d"
    using assms by (simp add: uint_word_ariths b d mod_simps)
qed

lemma digit_of_less: "digit_of base c = Some d \<Longrightarrow> int d < base \<and> 0 < base"
  by (auto simp: digit_of_def Let_def split: if_splits)

text \<open>The text \<open>[first, stop)\<close> has the digits \<open>ds\<close>, and the loop stops after it.\<close>

definition digits_at :: "mem \<Rightarrow> int \<Rightarrow> nat \<Rightarrow> nat list \<Rightarrow> bool" where
  "digits_at m base s ds \<longleftrightarrow> (\<forall>i<length ds. digit_of base (m (s + i)) = Some (ds ! i))"

lemma digits_at_simps [simp]:
  "digits_at m base s []" "digits_at m base s (d # ds) \<longleftrightarrow> digit_of base (m s) = Some d \<and> digits_at m base (Suc s) ds"
  by (auto simp: digits_at_def All_less_Suc2)

lemma from_loop_digits:
  assumes "base < 2 ^ 31" "digits_at m base s ds" "lim \<notin> {s..<s + length ds}"
    and "lim = s + length ds \<or> digit_of base (m (s + length ds)) = None"
    and "ov = (v \<ge> 2 ^ 64)" "\<not> ov \<Longrightarrow> uint x = v" "0 \<le> v"
  shows "\<exists>x' ov'. from_loop m lim base s x ov = Some (s + length ds, x', ov') \<and>
    ov' = (foldl (\<lambda>v d. v * base + int d) v ds \<ge> 2 ^ 64) \<and>
    (\<not> ov' \<longrightarrow> uint x' = foldl (\<lambda>v d. v * base + int d) v ds)"
  using assms
proof (induction ds arbitrary: s x ov v)
  case Nil
  then show ?case
    by (auto simp: from_loop.simps)
next
  case (Cons d ds)
  have d: "digit_of base (m s) = Some d" "int d < base" "0 < base"
    using Cons.prems digit_of_less by auto
  let ?over = "x > (- 1 - of_nat d) div of_int base"
  let ?x = "if ?over then x else x * of_int base + of_nat d" and ?v = "v * base + int d"
  have test: "?over \<longleftrightarrow> uint x * base + int d \<ge> 2 ^ 64" "\<not> ?over \<Longrightarrow> uint (x * of_int base + of_nat d) = uint x * base + int d"
    using overflow_test [of base d x] d Cons.prems(1) by auto
  have "v \<le> v * base"
    using Cons.prems(7) d mult_left_mono [of 1 base v] by simp
  then have ge: "v \<le> ?v"
    by linarith
  have "(?over \<or> ov) = (?v \<ge> 2 ^ 64)"
  proof (cases ov)
    case True
    then show ?thesis
      using ge Cons.prems(5) by linarith
  qed (use Cons.prems(6) test in simp)
  moreover have "\<not> (?over \<or> ov) \<Longrightarrow> uint ?x = ?v" "0 \<le> ?v"
    using Cons.prems(6,7) test ge by (simp, linarith)
  moreover have "from_loop m lim base s x ov = from_loop m lim base (Suc s) ?x (?over \<or> ov)"
    using Cons.prems(3) d by (subst from_loop.simps) auto
  ultimately show ?case
    using Cons.IH [of "Suc s" "?over \<or> ov" ?v ?x] Cons.prems by auto
qed


lemma from_chars_ul_digits:
  assumes "base < 2 ^ 31" "digits_at m base s ds" "lim \<notin> {s..<s + length ds}"
    and "lim = s + length ds \<or> digit_of base (m (s + length ds)) = None"
  shows "from_chars_ul m s lim base = Some
    (if ds = [] then \<lparr>fc_ptr = s, fc_ec = E_INVAL, fc_value = None\<rparr>
     else if num_val base ds \<ge> 2 ^ 64 then \<lparr>fc_ptr = s + length ds, fc_ec = E_RANGE, fc_value = None\<rparr>
     else \<lparr>fc_ptr = s + length ds, fc_ec = 0, fc_value = Some (of_int (num_val base ds))\<rparr>)"
proof -
  obtain x ov where r: "from_loop m lim base s 0 False = Some (s + length ds, x, ov)"
    "ov = (num_val base ds \<ge> 2 ^ 64)" "\<not> ov \<longrightarrow> uint x = num_val base ds"
    using from_loop_digits [OF assms, of False 0 0] by (auto simp: num_val_def)
  have x: "\<not> ov \<longrightarrow> of_int (num_val base ds) = x"
  proof
    assume "\<not> ov"
    then have "num_val base ds = uint x"
      using r(3) by simp
    then show "of_int (num_val base ds) = x"
      by simp
  qed
  show ?thesis
    unfolding from_chars_ul_def r(1) r(2) [symmetric] using x by simp
qed

section \<open>Decimal text\<close>

definition text_at :: "mem \<Rightarrow> nat \<Rightarrow> string \<Rightarrow> bool" where
  "text_at m s w \<longleftrightarrow> (\<forall>i<length w. m (s + i) = w ! i)"

lemma text_at_simps [simp]: "text_at m s []" "text_at m s (c # w) \<longleftrightarrow> m s = c \<and> text_at m (Suc s) w"
  by (auto simp: text_at_def All_less_Suc2)

definition dig :: "char \<Rightarrow> nat" where
  "dig c = of_char c - 48"

lemma digit_of_10: "is_digit c \<Longrightarrow> digit_of 10 c = Some (dig c)"
proof -
  assume c: "is_digit c"
  then have "48 \<le> int (of_char c)" "int (of_char c) \<le> 57"
    by (simp_all add: is_digit_def)
  then have "char_val c = int (of_char c)"
    by (simp add: char_val_def of_nat_of_char)
  then show ?thesis
    using c by (simp add: digit_of_def dig_def is_digit_def nat_diff_distrib)
qed

lemma digits_at_text: "list_all is_digit w \<Longrightarrow> text_at m s w \<Longrightarrow> digits_at m 10 s (map dig w)"
  by (induction w arbitrary: s) (simp_all add: digit_of_10)

lemma num_val_dec: "list_all is_digit w \<Longrightarrow> num_val 10 (map dig w) = int (dec_val 0 w)"
proof -
  have "list_all is_digit w \<Longrightarrow> foldl (\<lambda>v d. v * 10 + int d) (int n) (map dig w) = int (dec_val n w)" for n
  proof (induction w arbitrary: n)
    case (Cons c w)
    have "int n * 10 + int (dig c) = int (10 * n + (of_char c - 48))"
      by (simp add: dig_def)
    then have "foldl (\<lambda>v d. v * 10 + int d) (int n) (map dig (c # w)) =
        foldl (\<lambda>v d. v * 10 + int d) (int (10 * n + (of_char c - 48))) (map dig w)"
      by (simp only: list.map foldl_Cons)
    then show ?case
      using Cons.IH [of "10 * n + (of_char c - 48)"] Cons.prems by simp
  qed simp
  from this [of 0] show "list_all is_digit w \<Longrightarrow> ?thesis"
    by (simp add: num_val_def)
qed

lemma from_chars_dec_text:
  assumes "text_at m t (dec_text n)" "digit_of 10 (m (t + length (dec_text n))) = None" "0 < t"
  shows "from_chars_ul m t 0 10 = Some
    (if n \<ge> 2 ^ 64 then \<lparr>fc_ptr = t + length (dec_text n), fc_ec = E_RANGE, fc_value = None\<rparr>
     else \<lparr>fc_ptr = t + length (dec_text n), fc_ec = 0, fc_value = Some (of_nat n)\<rparr>)"
proof -
  have v: "num_val 10 (map dig (dec_text n)) = int n"
    using num_val_dec [OF dec_text_digits(1)] by (simp add: dec_val_text)
  have "from_chars_ul m t 0 10 = Some
      (if map dig (dec_text n) = [] then \<lparr>fc_ptr = t, fc_ec = E_INVAL, fc_value = None\<rparr>
       else if num_val 10 (map dig (dec_text n)) \<ge> 2 ^ 64
       then \<lparr>fc_ptr = t + length (map dig (dec_text n)), fc_ec = E_RANGE, fc_value = None\<rparr>
       else \<lparr>fc_ptr = t + length (map dig (dec_text n)), fc_ec = 0, fc_value = Some (of_int (num_val 10 (map dig (dec_text n))))\<rparr>)"
    using assms by (intro from_chars_ul_digits digits_at_text dec_text_digits(1)) auto
  then show ?thesis
    unfolding v using dec_text_digits(2) [of n] by simp
qed

lemma dec_text_start: "\<exists>c w. dec_text n = c # w \<and> is_digit c"
  using dec_text_digits [of n] by (cases "dec_text n") auto

lemma is_digit_not: "is_digit c \<Longrightarrow> c \<noteq> CHR ''-'' \<and> c \<noteq> CHR ''+'' \<and> \<not> isspace (char_val c)"
  by (auto simp: is_digit_def isspace_def char_val_def of_nat_of_char [where 'a = int, symmetric])

lemma strto_parse_int_text:
  assumes "text_at m s (int_text k)" "digit_of 10 (m (s + length (int_text k))) = None" "0 < s"
  shows "strto_parse m s 10 = Some (k < 0,
    if \<bar>k\<bar> \<ge> 2 ^ 64 then \<lparr>fc_ptr = s + length (int_text k), fc_ec = E_RANGE, fc_value = None\<rparr>
    else \<lparr>fc_ptr = s + length (int_text k), fc_ec = 0, fc_value = Some (of_int \<bar>k\<bar>)\<rparr>, s + length (int_text k))"
proof (cases "k < 0")
  case True
  then have t: "int_text k = CHR ''-'' # dec_text (nat (- k))"
    by (simp add: int_text_def)
  have "skip_space m s = Some s"
    using assms(1) t by (subst skip_space.simps) (simp add: isspace_def char_val_def)
  then show ?thesis
    using from_chars_dec_text [of m "Suc s" "nat (- k)"] assms t True
    by (auto simp: strto_parse_def Let_def strtol_fix_base_def)
next
  case False
  then have t: "int_text k = dec_text (nat k)"
    by (simp add: int_text_def)
  obtain c w where c: "dec_text (nat k) = c # w" "is_digit c"
    using dec_text_start by blast
  have "m s = c"
    using assms(1) t c by simp
  note first = this is_digit_not [OF c(2)]
  have "skip_space m s = Some s"
    using first by (subst skip_space.simps) simp
  then show ?thesis
    using from_chars_dec_text [of m s "nat k"] assms t False first
    by (auto simp: strto_parse_def Let_def strtol_fix_base_def)
qed


section \<open>Bounds\<close>

lemma long_bound_int: "uint (long_bound negative) = 2 ^ 63 - (if negative then 0 else 1)"
  by (simp add: long_bound_def push_bit_eq_mult)

lemma sint_of_long: "- (2 ^ 63) \<le> k \<Longrightarrow> k < 2 ^ 63 \<Longrightarrow> sint (of_int k :: ulong) = k"
  by (simp add: signed_of_int signed_take_bit_int_eq_self)

text \<open>The comparison with the bound of the sign, and the negation.\<close>

definition cut_long :: "bool \<Rightarrow> bool \<Rightarrow> ulong \<Rightarrow> ulong" where
  "cut_long negative over x =
     (let x = (if over \<or> x > long_bound negative then long_bound negative else x) in if negative then - x else x)"

lemma cut_long_int:
  assumes "over \<longleftrightarrow> \<bar>k\<bar> \<ge> 2 ^ 64" "\<not> over \<Longrightarrow> x = of_int \<bar>k\<bar>"
  shows "sint (cut_long (k < 0) over x) = max (- (2 ^ 63)) (min (2 ^ 63 - 1) k)"
proof -
  let ?b = "2 ^ 63 - (if k < 0 then 0 else 1 :: int)"
  let ?x = "if over \<or> x > long_bound (k < 0) then long_bound (k < 0) else x"
  have "\<not> over \<Longrightarrow> uint x = \<bar>k\<bar>"
    using assms by (simp add: uint_word_of_int)
  then have "uint ?x = min \<bar>k\<bar> ?b"
    using assms(1) by (auto simp: word_less_def long_bound_int)
  then have x: "?x = of_int (min \<bar>k\<bar> ?b)"
    using word_of_int_uint [of ?x] by (simp only:)
  have "cut_long (k < 0) over x = (if k < 0 then - ?x else ?x)"
    by (simp only: cut_long_def Let_def)
  also have "\<dots> = of_int (if k < 0 then - min \<bar>k\<bar> ?b else min \<bar>k\<bar> ?b)"
    unfolding x by (simp only: of_int_minus if_distrib [of of_int])
  finally have c: "cut_long (k < 0) over x = of_int (if k < 0 then - min \<bar>k\<bar> ?b else min \<bar>k\<bar> ?b)" .
  show ?thesis
    unfolding c by (subst sint_of_long) (auto simp: min_def max_def)
qed

lemma strtol_cut:
  "strtol m s base = map_option (\<lambda>(negative, r, endptr).
     (cut_long negative (fc_ec r = E_RANGE) (case fc_value r of None \<Rightarrow> 0 | Some x \<Rightarrow> x), endptr)) (strto_parse m s base)"
  by (simp add: strtol_def cut_long_def Let_def)

lemma rand_bounds: "0 \<le> fst (rand st) \<and> fst (rand st) \<le> RAND_MAX"
proof -
  have "uint (w AND 0x7FFFFFFF :: ulong) \<le> 0x7FFFFFFF" for w
    by (simp add: uint_and)
  then show ?thesis
    by (simp add: rand_def Let_def)
qed

lemma int32_cong: "x mod 2 ^ 32 = y mod 2 ^ 32 \<Longrightarrow> int32 x = int32 y"
  unfolding int32_def by (metis mod_add_left_eq)

lemma rand_range_value:
  assumes "- (2 ^ 31) \<le> lo" "lo \<le> hi" "hi < 2 ^ 31" "hi - lo < RAND_MAX"
  shows "rand_range st lo hi = Done (lo + fst (rand st) * (hi - lo + 1) div 2 ^ 31, snd (rand st))"
    and "fst (rand st) * (hi - lo + 1) div 2 ^ 31 \<in> {0..hi - lo}"
proof -
  obtain r st' where r: "rand st = (r, st')" by fastforce
  have rb: "0 \<le> r" "r \<le> RAND_MAX"
    using rand_bounds [of st] r by auto
  let ?n = "hi - lo + 1"
  have n: "0 < ?n" "?n \<le> RAND_MAX"
    using assms by auto
  have "r * ?n \<le> RAND_MAX * ?n"
    using rb n by (intro mult_right_mono) auto
  also have "\<dots> < 2 ^ 31 * ?n"
    using n by simp
  finally have rn: "r * ?n < ?n * 2 ^ 31"
    by (simp add: mult.commute)
  have q: "0 \<le> r * ?n div 2 ^ 31" "r * ?n div 2 ^ 31 < ?n"
    using rb n rn by (simp_all add: div_less_mult pos_imp_zdiv_nonneg_iff)
  have "r * ?n < 2 ^ 64"
    using rn n by simp
  moreover have "0 \<le> r * ?n"
    using rb n by simp
  ultimately have "uint (of_int (r * ?n) :: ulong) = r * ?n"
    unfolding uint_word_of_int by (intro mod_pos_pos_trivial) simp_all
  then have "uint (of_int r * of_int ?n :: ulong) = r * ?n"
    by (simp only: of_int_mult)
  then have "uint ((of_int r * of_int ?n) div (of_int RAND_MAX + 1) :: ulong) = r * ?n div 2 ^ 31"
    by (simp add: uint_div)
  then have "uint (of_int lo + (of_int r * of_int ?n) div (of_int RAND_MAX + 1) :: ulong) = (lo + r * ?n div 2 ^ 31) mod 2 ^ 64"
    by (simp add: uint_word_ariths uint_word_of_int mod_simps)
  then have "int32 (uint (of_int lo + (of_int r * of_int ?n) div (of_int RAND_MAX + 1) :: ulong)) = int32 (lo + r * ?n div 2 ^ 31)"
    by (intro int32_cong) (simp add: mod_mod_cancel)
  also have "\<dots> = lo + r * ?n div 2 ^ 31"
    using q assms by (intro int32_id) auto
  finally show "rand_range st lo hi = Done (lo + fst (rand st) * (hi - lo + 1) div 2 ^ 31, snd (rand st))"
    using assms r by (simp add: rand_range_def Let_def)
  show "fst (rand st) * (hi - lo + 1) div 2 ^ 31 \<in> {0..hi - lo}"
    using q r by simp
qed

text \<open>\<^verbatim>\<open>round_down\<close> is the largest multiple below; \<^verbatim>\<open>round_up\<close> the smallest above when the sum does not wrap.\<close>

lemma round_down_uint: "uint (round_down x m) = uint x - uint x mod uint m"
proof -
  have "0 \<le> uint x mod uint m" "uint x mod uint m \<le> uint x"
    using zmod_le_nonneg_dividend [of "uint x" "uint m"] unsigned_greater_eq [of "x mod m", where 'a = int]
    by (simp_all only: uint_mod unsigned_greater_eq)
  then have "(uint x - uint x mod uint m) mod 2 ^ 64 = uint x - uint x mod uint m"
    using unsigned_less [of x, where 'a = int] by (intro mod_pos_pos_trivial) auto
  then show ?thesis
    by (simp add: round_down_def uint_word_ariths uint_mod)
qed

lemma len64: "LENGTH(64) = 64"
  by simp

lemma round_up_uint:
  assumes "0 < m" "uint x + uint m \<le> 2 ^ 64"
  shows "uint x \<le> uint (round_up x m)" "uint (round_up x m) < uint x + uint m" "uint m dvd uint (round_up x m)"
proof -
  have m: "0 < uint m" and x: "0 \<le> uint x"
    using assms(1) by (simp_all add: word_less_def)
  have "uint (x + m - 1) = uint x + uint m - 1"
  proof -
    have "x + m - 1 = of_int (uint x + uint m - 1)" by simp
    moreover have "uint (of_int (uint x + uint m - 1) :: ulong) = uint x + uint m - 1"
      unfolding uint_word_of_int using assms(2) m x
      by (intro mod_pos_pos_trivial; simp only: len64; linarith)
    ultimately show ?thesis by simp
  qed
  then have e: "uint (round_up x m) = uint x + uint m - 1 - (uint x + uint m - 1) mod uint m"
    by (simp add: round_up_def round_down_uint)
  show "uint x \<le> uint (round_up x m)" "uint (round_up x m) < uint x + uint m"
    unfolding e using pos_mod_bound [OF m, of "uint x + uint m - 1"] pos_mod_sign [OF m, of "uint x + uint m - 1"]
    by linarith+
  show "uint m dvd uint (round_up x m)"
    unfolding e by (rule dvd_minus_mod)
qed

lemma strtol_value:
  assumes "text_at m s (int_text k)" "digit_of 10 (m (s + length (int_text k))) = None" "0 < s"
  shows "\<exists>x. strtol m s 10 = Some (x, s + length (int_text k)) \<and> sint x = max (- (2 ^ 63)) (min (2 ^ 63 - 1) k)"
  unfolding strtol_cut strto_parse_int_text [OF assms]
  using cut_long_int [of "\<bar>k\<bar> \<ge> 2 ^ 64" k "if \<bar>k\<bar> \<ge> 2 ^ 64 then 0 else of_int \<bar>k\<bar>"]
  by (cases "\<bar>k\<bar> \<ge> 2 ^ 64") simp_all

section \<open>Properties\<close>

text \<open>
  C37. On the decimal text of any integer, followed by a character that is no digit, \<^verbatim>\<open>strtol\<close> reads exactly that text and
  returns the integer, cut to the range of \<^verbatim>\<open>long\<close>.  \<^verbatim>\<open>strtoul\<close> reads the same text; it returns an integer that is
  not negative cut to the range of \<^verbatim>\<open>unsigned long\<close>, a negative one above \<open>- (2 ^ 64)\<close> modulo \<open>2 ^ 64\<close>, and 1 for every
  other integer, where the function of the C library returns its largest value (\<open>strtoul_negative_range\<close>).
\<close>

theorem strtol_int_text:
  assumes "text_at m s (int_text k)" "digit_of 10 (m (s + length (int_text k))) = None" "0 < s"
  shows "(\<exists>x. strtol m s 10 = Some (x, s + length (int_text k)) \<and> sint x = max (- (2 ^ 63)) (min (2 ^ 63 - 1) k)) \<and>
    (\<exists>x. strtoul m s 10 = Some (x, s + length (int_text k)) \<and>
      uint x = (if 0 \<le> k then min (2 ^ 64 - 1) k else if - (2 ^ 64) < k then k mod 2 ^ 64 else 1))"
proof (rule conjI)
  note parse = strto_parse_int_text [OF assms]
  show "\<exists>x. strtol m s 10 = Some (x, s + length (int_text k)) \<and> sint x = max (- (2 ^ 63)) (min (2 ^ 63 - 1) k)"
    by (rule strtol_value [OF assms])
  show "\<exists>x. strtoul m s 10 = Some (x, s + length (int_text k)) \<and>
      uint x = (if 0 \<le> k then min (2 ^ 64 - 1) k else if - (2 ^ 64) < k then k mod 2 ^ 64 else 1)"
    unfolding strtoul_def parse
    by (auto simp: Let_def uint_word_of_int unsigned_minus_1_eq_mask mask_eq_exp_minus_1 simp flip: of_int_minus)
qed


text \<open>
  \<^verbatim>\<open>rand(min, max)\<close> with \<^verbatim>\<open>max - min < RAND_MAX\<close> returns a number between \<^verbatim>\<open>min\<close> and \<^verbatim>\<open>max\<close> for every state of the generator:
  no intermediate result overflows.  For \<^verbatim>\<open>max - min = RAND_MAX\<close>, which the comment allows, \<^verbatim>\<open>max - min + 1\<close> overflows.
\<close>

lemma rand_range_bounds:
  assumes "- (2 ^ 31) \<le> lo" "lo \<le> hi" "hi < 2 ^ 31"
  shows "if hi - lo < RAND_MAX
    then \<exists>v. rand_range st lo hi = Done (v, snd (rand st)) \<and> lo \<le> v \<and> v \<le> hi
    else rand_range st lo hi = Undef"
  using rand_range_value [OF assms, of st] assms
  by (auto simp: rand_range_def Let_def split: prod.splits)

lemma rand_range_bounds_witness:
  "\<exists>v st. rand_range (srand 1) 3 9 = Done (v, st) \<and> 3 \<le> v \<and> v \<le> 9"
  using rand_range_bounds [of 3 9 "srand 1"] by auto

text \<open>The text \<^verbatim>\<open>-12\<close> at address 1.\<close>

definition number_mem :: mem where
  "number_mem a = (if 1 \<le> a \<and> a < 4 then ''-12'' ! (a - 1) else NUL)"

lemma number_text: "int_text (- 12) = ''-12''"
  by (simp add: int_text_def dec_text.simps char_of_def bit_0)

theorem strtol_int_text_witness:
  "(\<exists>x. strtol number_mem 1 10 = Some (x, 4) \<and> sint x = - 12) \<and>
   (\<exists>x. strtoul number_mem 1 10 = Some (x, 4) \<and> uint x = 2 ^ 64 - 12)"
proof -
  have "text_at number_mem 1 (int_text (- 12))" "digit_of 10 (number_mem (1 + length (int_text (- 12)))) = None"
    unfolding number_text by (simp_all add: number_mem_def digit_of_def char_val_def)
  from strtol_int_text [OF this] show ?thesis
    by (simp add: number_text eval_nat_numeral)
qed

section \<open>Characters that are taken for digits\<close>

text \<open>In base 16 the characters between \<^verbatim>\<open>9\<close> and \<^verbatim>\<open>@\<close> pass the first test: \<^verbatim>\<open>:\<close> is the digit 10.\<close>

lemma colon_is_hex_digit: "digit_of 16 (CHR '':'') = Some 10"
  by (simp add: digit_of_def char_val_def)

text \<open>In base 36 an upper-case letter passes the first test: \<^verbatim>\<open>A\<close> has the value 17, \<^verbatim>\<open>a\<close> the value 10.\<close>

lemma upper_case_digit_wrong: "digit_of 36 (CHR ''A'') = Some 17" "digit_of 36 (CHR ''a'') = Some 10"
  by (simp_all add: digit_of_def char_val_def)

text \<open>A negative number out of range makes \<^verbatim>\<open>strtoul\<close> return 1, the negation of its largest value.\<close>

lemma strtoul_negative_range:
  assumes "text_at m s (int_text k)" "digit_of 10 (m (s + length (int_text k))) = None" "0 < s" "k \<le> - (2 ^ 64)"
  shows "strtoul m s 10 = Some (1, s + length (int_text k))"
  using assms(4) unfolding strtoul_def strto_parse_int_text [OF assms(1-3)] by simp

end
