(* ===== verification/Vm_Map.thy ===== *)
theory Vm_Map
  imports Lib_Number
begin

text \<open>
  Physical memory, its allocation and the page tables of the Lab 4 kernel: \<^verbatim>\<open>kalloc\<close> (\<^verbatim>\<open>kernel.cc\<close>), the tests for
  physical addresses and \<^verbatim>\<open>kalloc_pagetable\<close> (\<^verbatim>\<open>k-hardware.cc\<close>), the parts of an address (\<^verbatim>\<open>x86-64.h\<close>) and the iterator
  \<^verbatim>\<open>vmiter\<close> (\<^verbatim>\<open>k-vmiter.cc\<close>, \<^verbatim>\<open>k-vmiter.hh\<close>).  The kernel maps physical memory at its own addresses, so that a pointer is a
  physical address.  The constants of \<^verbatim>\<open>kernel.hh\<close> and of the linker, which are not in the repository, are a record
  of parameters; a reference count is an integer that does not wrap.
\<close>

unbundle bit_operations_syntax

section \<open>Memory\<close>

text \<open>An aligned 64-bit entry in memory.\<close>

definition read64 :: "mem \<Rightarrow> nat \<Rightarrow> ulong" where
  "read64 m a = of_nat (le_nat (map m [a..<a + 8]))"

definition write64 :: "mem \<Rightarrow> nat \<Rightarrow> ulong \<Rightarrow> mem" where
  "write64 m a w = (\<lambda>x. if a \<le> x \<and> x < a + 8 then le_bytes 8 (unat w) ! (x - a) else m x)"

abbreviation PAGESIZE :: nat where "PAGESIZE \<equiv> 4096"

record kconf =
  KERNEL_START_ADDR :: nat
  kernel_end :: nat
  KERNEL_STACK_TOP :: nat
  MEMSIZE_PHYSICAL :: nat
  PROC_START_ADDR :: nat
  NPROC :: nat
  kernel_pagetable :: nat
  exception_entry :: nat
  SEGSEL_APP_CODE :: ulong
  SEGSEL_APP_DATA :: ulong
  PROCINIT_ALLOW_PROGRAMMED_IO :: ulong
  PROCINIT_DISABLE_INTERRUPTS :: ulong
  INT_TIMER :: "32 word"
  ELF_PTYPE_LOAD :: nat

record kmem =
  km :: mem
  refcount :: "nat \<Rightarrow> int"

definition reserved_physical_address :: "nat \<Rightarrow> bool" where
  "reserved_physical_address pa \<longleftrightarrow> pa < PAGESIZE \<or> (pa \<ge> 0x000A0000 \<and> pa < 0x00100000)"

definition allocatable_physical_address :: "kconf \<Rightarrow> nat \<Rightarrow> bool" where
  "allocatable_physical_address k pa \<longleftrightarrow>
     \<not> reserved_physical_address pa \<and>
     (pa < KERNEL_START_ADDR k \<or> pa \<ge> (kernel_end k + PAGESIZE - 1) div PAGESIZE * PAGESIZE) \<and>
     (pa < KERNEL_STACK_TOP k - PAGESIZE \<or> pa \<ge> KERNEL_STACK_TOP k) \<and>
     pa < MEMSIZE_PHYSICAL k"

text \<open>The loop over the pages: the pages left, the address.\<close>

fun kalloc_from :: "kconf \<Rightarrow> nat \<Rightarrow> nat \<Rightarrow> kmem \<Rightarrow> nat option \<times> kmem" where
  "kalloc_from k 0 pa s = (None, s)"
| "kalloc_from k (Suc n) pa s =
     (if allocatable_physical_address k pa \<and> refcount s (pa div PAGESIZE) = 0
      then (Some pa, s\<lparr>refcount := (refcount s)(pa div PAGESIZE := refcount s (pa div PAGESIZE) + 1),
        km := memset (km s) pa 0xCC PAGESIZE\<rparr>)
      else kalloc_from k n (pa + PAGESIZE) s)"

text \<open>\<^verbatim>\<open>MEMSIZE_PHYSICAL\<close> is a multiple of the page size.\<close>

definition kalloc :: "kconf \<Rightarrow> nat \<Rightarrow> kmem \<Rightarrow> nat option \<times> kmem" where
  "kalloc k sz s = (if sz > PAGESIZE then (None, s) else kalloc_from k (MEMSIZE_PHYSICAL k div PAGESIZE) 0 s)"

definition kalloc_pagetable :: "kconf \<Rightarrow> kmem \<Rightarrow> nat option \<times> kmem" where
  "kalloc_pagetable k s =
     (case kalloc k PAGESIZE s of
        (None, s) \<Rightarrow> (None, s)
      | (Some pt, s) \<Rightarrow> (Some pt, s\<lparr>km := memset (km s) pt 0 (8 * 512)\<rparr>))"

section \<open>Addresses\<close>

abbreviation PTE_P :: ulong where "PTE_P \<equiv> 1"
abbreviation PTE_W :: ulong where "PTE_W \<equiv> 2"
abbreviation PTE_U :: ulong where "PTE_U \<equiv> 4"
abbreviation PTE_PWU :: ulong where "PTE_PWU \<equiv> 7"
abbreviation PTE_PS :: ulong where "PTE_PS \<equiv> 0x80"
abbreviation PTE_PAMASK :: ulong where "PTE_PAMASK \<equiv> 0x000FFFFFFFFFF000"

definition pageindex :: "ulong \<Rightarrow> nat \<Rightarrow> nat" where
  "pageindex addr level = unat (drop_bit (12 + level * 9) addr AND 0x1FF)"

definition pageoffmask :: "nat \<Rightarrow> ulong" where
  "pageoffmask level = push_bit (12 + level * 9) 1 - 1"

definition va_is_canonical :: "ulong \<Rightarrow> bool" where
  "va_is_canonical va \<longleftrightarrow> va \<le> 0x00007FFFFFFFFFFF \<or> va \<ge> 0xFFFF800000000000"

section \<open>vmiter\<close>

text \<open>\<^verbatim>\<open>pep_\<close> is the address of an entry, or \<open>None\<close> for \<^verbatim>\<open>&zero_pe\<close>.\<close>

record vmiter =
  vm_pt :: nat
  vm_pep :: "nat option"
  vm_level :: nat
  vm_perm :: ulong
  vm_va :: ulong

definition pe :: "mem \<Rightarrow> nat option \<Rightarrow> ulong" where
  "pe m pep = (case pep of None \<Rightarrow> 0 | Some a \<Rightarrow> read64 m a)"

fun down_loop :: "mem \<Rightarrow> ulong \<Rightarrow> nat \<Rightarrow> nat option \<Rightarrow> ulong \<Rightarrow> nat \<times> nat option \<times> ulong" where
  "down_loop m va 0 pep perm = (0, pep, perm)"
| "down_loop m va (Suc l) pep perm =
     (let e = pe m pep
      in if e AND (PTE_P OR PTE_PS) = PTE_P
         then down_loop m va l (Some (unat (e AND PTE_PAMASK) + 8 * pageindex va l))
                (perm AND (e OR NOT (PTE_P OR PTE_W OR PTE_U)))
         else (Suc l, pep, perm))"

definition down :: "mem \<Rightarrow> vmiter \<Rightarrow> vmiter outcome" where
  "down m it =
     (let (level, pep, perm) = down_loop m (vm_va it) (vm_level it) (vm_pep it) (vm_perm it)
      in if pe m pep AND PTE_PAMASK \<ge> 0x100000000 then Abort
         else Done (it\<lparr>vm_level := level, vm_pep := pep, vm_perm := perm\<rparr>))"

definition real_find :: "mem \<Rightarrow> vmiter \<Rightarrow> ulong \<Rightarrow> vmiter outcome" where
  "real_find m it va =
     (let it =
        (if vm_level it = 3 \<or> (vm_va it XOR va) AND NOT (pageoffmask (vm_level it + 1)) \<noteq> 0
         then if va_is_canonical va
              then it\<lparr>vm_level := 3, vm_perm := 0xFFF, vm_pep := Some (vm_pt it + 8 * pageindex va 3)\<rparr>
              else it\<lparr>vm_level := 3, vm_perm := 0, vm_pep := None\<rparr>
         else it\<lparr>vm_pep := map_option (\<lambda>a. a - a mod PAGESIZE + 8 * pageindex va (vm_level it)) (vm_pep it)\<rparr>)
      in down m (it\<lparr>vm_va := va\<rparr>))"

definition vmiter_new :: "mem \<Rightarrow> nat \<Rightarrow> ulong \<Rightarrow> vmiter outcome" where
  "vmiter_new m pt va = real_find m \<lparr>vm_pt = pt, vm_pep = Some pt, vm_level = 3, vm_perm = 0xFFF, vm_va = 0\<rparr> va"

definition last_va :: "vmiter \<Rightarrow> ulong" where
  "last_va it = (vm_va it OR pageoffmask (vm_level it)) + 1"

definition vm_pa :: "mem \<Rightarrow> vmiter \<Rightarrow> ulong" where
  "vm_pa m it =
     (let e = pe m (vm_pep it)
      in if e AND PTE_P \<noteq> 0
         then let pa = e AND PTE_PAMASK; pa = (if vm_level it > 0 then pa AND NOT 0x1000 else pa)
              in pa + (vm_va it AND pageoffmask (vm_level it))
         else - 1)"

text \<open>\<^verbatim>\<open>perm()\<close>\<close>

definition vm_perms :: "mem \<Rightarrow> vmiter \<Rightarrow> ulong" where
  "vm_perms m it = (let ph = pe m (vm_pep it) AND vm_perm it in ph AND - (ph AND PTE_P))"

definition vm_find :: "mem \<Rightarrow> vmiter \<Rightarrow> ulong \<Rightarrow> vmiter outcome" where
  "vm_find m it va = (if va \<noteq> vm_va it then real_find m it va else Done it)"

definition vm_next :: "mem \<Rightarrow> vmiter \<Rightarrow> vmiter outcome" where
  "vm_next m it =
     (let level = (if vm_level it > 0 \<and> vm_perms m it = 0 then vm_level it else 0)
      in real_find m it ((vm_va it OR pageoffmask level) + 1))"

definition next_range :: "mem \<Rightarrow> vmiter \<Rightarrow> vmiter outcome" where
  "next_range m it = real_find m it (last_va it)"

text \<open>
  The loop of \<^verbatim>\<open>try_map\<close> that adds page tables, with the iterator that it moves: the flag is false when \<^verbatim>\<open>kalloc\<close> fails.
  It is entered with \<^verbatim>\<open>perm\<close> not 0; \<open>None\<close> would be a loop that does not end.
\<close>

partial_function (option) map_loop :: "kconf \<Rightarrow> vmiter \<Rightarrow> kmem \<Rightarrow> (bool \<times> vmiter \<times> kmem) outcome option" where
  "map_loop k it s =
     (if vm_level it > 0
      then if pe (km s) (vm_pep it) AND PTE_P \<noteq> 0 then Some Abort
           else case vm_pep it of
             None \<Rightarrow> Some Undef
           | Some a \<Rightarrow>
               (case kalloc k PAGESIZE s of
                  (None, s) \<Rightarrow> Some (Done (False, it, s))
                | (Some pt, s) \<Rightarrow>
                    let m = write64 (memset (km s) pt 0 PAGESIZE) a (of_nat pt OR PTE_P OR PTE_W OR PTE_U);
                        s = s\<lparr>km := m\<rparr>
                    in (case down m it of
                          Done it \<Rightarrow> map_loop k it s
                        | _ \<Rightarrow> Some Abort))
      else Some (Done (True, it, s)))"

definition try_map :: "kconf \<Rightarrow> vmiter \<Rightarrow> ulong \<Rightarrow> ulong \<Rightarrow> kmem \<Rightarrow> (int \<times> vmiter \<times> kmem) outcome option" where
  "try_map k it pa perm s =
     (let pa = (if pa = - 1 \<and> perm = 0 then 0 else pa)
      in if unat (vm_va it) mod PAGESIZE \<noteq> 0 then Some Abort
         else if perm AND PTE_P \<noteq> 0 \<and> (pa = - 1 \<or> pa AND PTE_PAMASK \<noteq> pa) then Some Abort
         else if perm AND PTE_P = 0 \<and> pa AND PTE_P \<noteq> 0 then Some Abort
         else if perm AND NOT (vm_perm it) AND (PTE_P OR PTE_W OR PTE_U) \<noteq> 0 then Some Abort
         else case (if perm \<noteq> 0 then map_loop k it s else Some (Done (True, it, s))) of
           None \<Rightarrow> None
         | Some (Done (ok, it, s)) \<Rightarrow>
             Some (if \<not> ok then Done (- 1, it, s)
               else if vm_level it = 0
               then (case vm_pep it of None \<Rightarrow> Undef | Some a \<Rightarrow> Done (0, it, s\<lparr>km := write64 (km s) a (pa OR perm)\<rparr>))
               else Done (0, it, s))
         | Some _ \<Rightarrow> Some Abort)"

section \<open>Entries in memory\<close>

lemma read64_cong: "(\<And>x. a \<le> x \<Longrightarrow> x < a + 8 \<Longrightarrow> m x = m' x) \<Longrightarrow> read64 m a = read64 m' a"
  unfolding read64_def by (intro arg_cong [where f = "\<lambda>l. of_nat (le_nat l)"] map_cong) auto

lemma read64_write64 [simp]: "read64 (write64 m a w) a = w"
proof -
  have "map (write64 m a w) [a..<a + 8] = le_bytes 8 (unat w)"
    by (rule nth_equalityI) (auto simp: write64_def)
  moreover have "unat w mod 256 ^ 8 = unat w"
    using unsigned_less [of w, where 'a = nat] by simp
  ultimately show ?thesis
    by (simp add: read64_def le_nat_le_bytes)
qed

lemma read64_write64_other: "b + 8 \<le> a \<or> a + 8 \<le> b \<Longrightarrow> read64 (write64 m a w) b = read64 m b"
  by (rule read64_cong) (auto simp: write64_def)

lemma read64_memset_other: "b + 8 \<le> v \<or> v + n \<le> b \<Longrightarrow> read64 (memset m v c n) b = read64 m b"
  by (rule read64_cong) (auto simp: memset_apply)

lemma read64_memset_0: "v \<le> b \<Longrightarrow> b + 8 \<le> v + n \<Longrightarrow> read64 (memset m v 0 n) b = 0"
proof -
  assume b: "v \<le> b" "b + 8 \<le> v + n"
  have "map (memset m v 0 n) [b..<b + 8] = replicate 8 NUL"
    by (rule nth_equalityI) (use b in \<open>auto simp: memset_apply to_char_0\<close>)
  then show ?thesis
    by (simp add: read64_def numeral_eq_Suc)
qed

section \<open>Allocation\<close>

lemma kalloc_from_None: "kalloc_from k n pa s = (None, s') \<Longrightarrow> s' = s \<and>
    (\<forall>i<n. \<not> (allocatable_physical_address k (pa + i * PAGESIZE) \<and> refcount s ((pa + i * PAGESIZE) div PAGESIZE) = 0))"
proof (induction k n pa s rule: kalloc_from.induct)
  case (2 k n pa s)
  then show ?case
    by (auto simp: All_less_Suc2 add.assoc [symmetric] add.commute [of _ pa] div_add_self2 split: if_splits)
qed simp

lemma kalloc_from_Some: "kalloc_from k n pa s = (Some p, s') \<Longrightarrow> PAGESIZE dvd pa \<Longrightarrow>
    PAGESIZE dvd p \<and> allocatable_physical_address k p \<and> refcount s (p div PAGESIZE) = 0 \<and>
    s' = s\<lparr>refcount := (refcount s)(p div PAGESIZE := 1), km := memset (km s) p 0xCC PAGESIZE\<rparr>"
  by (induction k n pa s rule: kalloc_from.induct) (auto split: if_splits)

lemma kalloc_Some:
  assumes "kalloc k sz s = (Some p, s')"
  shows "PAGESIZE dvd p" "allocatable_physical_address k p" "refcount s (p div PAGESIZE) = 0"
    "s' = s\<lparr>refcount := (refcount s)(p div PAGESIZE := 1), km := memset (km s) p 0xCC PAGESIZE\<rparr>"
  using assms kalloc_from_Some [of k _ 0 s p s'] by (auto simp: kalloc_def split: if_splits)

lemma kalloc_None: "kalloc k sz s = (None, s') \<Longrightarrow> s' = s"
  using kalloc_from_None by (auto simp: kalloc_def split: if_splits)


section \<open>Page tables as trees\<close>

text \<open>An address is the path of its four indices; a path that is shorter names a page table.\<close>

definition vpath :: "ulong \<Rightarrow> nat list" where
  "vpath va = [pageindex va 3, pageindex va 2, pageindex va 1, pageindex va 0]"

definition ent :: "mem \<Rightarrow> nat \<Rightarrow> nat \<Rightarrow> ulong" where
  "ent m t i = read64 m (t + 8 * i)"

definition subtable :: "ulong \<Rightarrow> nat option" where
  "subtable e = (if e AND 0x81 = 1 then Some (unat (e AND PTE_PAMASK)) else None)"

primrec tabs :: "mem \<Rightarrow> nat \<Rightarrow> nat list \<Rightarrow> nat option" where
  "tabs m t [] = Some t"
| "tabs m t (i # p) = (case subtable (ent m t i) of None \<Rightarrow> None | Some t' \<Rightarrow> tabs m t' p)"

lemma tabs_append: "tabs m t (p @ q) = Option.bind (tabs m t p) (\<lambda>t'. tabs m t' q)"
  by (induction p arbitrary: t) (simp_all split: option.splits)

lemma tabs_snoc: "tabs m t (p @ [i]) = Option.bind (tabs m t p) (\<lambda>t'. subtable (ent m t' i))"
  by (simp add: tabs_append split: option.splits) (cases "tabs m t p"; simp split: option.splits)

definition idxs :: "nat list \<Rightarrow> bool" where
  "idxs p \<longleftrightarrow> list_all (\<lambda>i. i < 512) p"

lemma idxs_simps [simp]: "idxs []" "idxs (i # p) \<longleftrightarrow> i < 512 \<and> idxs p" "idxs (p @ q) \<longleftrightarrow> idxs p \<and> idxs q"
  by (auto simp: idxs_def)

lemma pageindex_less: "pageindex va l < 512"
proof -
  have "drop_bit (12 + l * 9) va AND 0x1FF \<le> (0x1FF :: ulong)"
    by (rule word_and_le1)
  then have "unat (drop_bit (12 + l * 9) va AND 0x1FF) \<le> unat (0x1FF :: ulong)"
    by (simp only: word_le_nat_alt)
  then show ?thesis
    by (simp add: pageindex_def)
qed

lemma idxs_vpath: "idxs (vpath va)"
  by (simp add: vpath_def pageindex_less)

text \<open>
  The invariant of a page table in memory: its tables are aligned pages below \<^verbatim>\<open>MEMSIZE_PHYSICAL\<close> that the allocator
  will not return, no page is two tables, no entry points above 4 GiB, and the entries for tables allow everything.
\<close>

definition table_at :: "mem \<Rightarrow> nat \<Rightarrow> nat list \<Rightarrow> nat \<Rightarrow> bool" where
  "table_at m pt p t \<longleftrightarrow> idxs p \<and> length p \<le> 3 \<and> tabs m pt p = Some t"

definition free_page :: "kconf \<Rightarrow> kmem \<Rightarrow> nat \<Rightarrow> bool" where
  "free_page k s pa \<longleftrightarrow> allocatable_physical_address k pa \<and> refcount s (pa div PAGESIZE) = 0"

definition pt_inv :: "kconf \<Rightarrow> nat \<Rightarrow> kmem \<Rightarrow> bool" where
  "pt_inv k pt s \<longleftrightarrow>
     (\<forall>p t. table_at (km s) pt p t \<longrightarrow>
        PAGESIZE dvd t \<and> t + PAGESIZE \<le> MEMSIZE_PHYSICAL k \<and> \<not> free_page k s t \<and>
        (\<forall>q. table_at (km s) pt q t \<longrightarrow> q = p) \<and>
        (\<forall>i<512. ent (km s) t i AND PTE_PAMASK < 0x100000000 \<and>
          (length p < 3 \<and> subtable (ent (km s) t i) \<noteq> None \<longrightarrow> ent (km s) t i AND 7 = 7)))"

text \<open>What the hardware and \<^verbatim>\<open>vmiter\<close> see of a path: the entry where the walk ends, the permissions on the way, the
  levels that are left.\<close>

fun walk :: "mem \<Rightarrow> nat \<Rightarrow> nat list \<Rightarrow> ulong \<Rightarrow> ulong \<times> ulong \<times> nat" where
  "walk m t [] perm = (0, perm, 0)"
| "walk m t [i] perm = (ent m t i, perm, 0)"
| "walk m t (i # j # p) perm =
     (case subtable (ent m t i) of
        None \<Rightarrow> (ent m t i, perm, Suc (length p))
      | Some t' \<Rightarrow> walk m t' (j # p) (perm AND (ent m t i OR NOT 7)))"

text \<open>The physical page and the permissions of a path, none when it is not mapped.\<close>

definition mapping :: "mem \<Rightarrow> nat \<Rightarrow> nat list \<Rightarrow> (ulong \<times> ulong \<times> nat) option" where
  "mapping m pt q =
     (let (e, perm, l) = walk m pt q 0xFFF in if e AND PTE_P \<noteq> 0 then Some (e AND PTE_PAMASK, e AND perm, l) else None)"

lemma down_loop_walk:
  assumes "length p = Suc l" "\<forall>j\<le>l. p ! j = pageindex va (l - j)"
  shows "\<exists>t' q perm' l'. down_loop m va l (Some (t + 8 * hd p)) perm = (l', Some (t' + 8 * hd q), perm') \<and>
    length q = Suc l' \<and> walk m t p perm = (ent m t' (hd q), perm', l') \<and> (\<exists>r. p = r @ q \<and> tabs m t r = Some t')"
  using assms
proof (induction l arbitrary: p t perm)
  case 0
  then obtain i where "p = [i]"
    by (cases p) auto
  then show ?case
    by (intro exI [of _ t] exI [of _ p]) (auto intro: exI [of _ "[]"])
next
  case (Suc l)
  then obtain i j r where p: "p = i # j # r" "length r = l"
    by (cases p; cases "tl p") auto
  let ?e = "ent m t i"
  have pe: "pe m (Some (t + 8 * hd p)) = ?e"
    using p by (simp add: pe_def ent_def)
  show ?case
  proof (cases "subtable ?e")
    case None
    then have "?e AND 0x81 \<noteq> 1"
      by (simp add: subtable_def split: if_splits)
    then show ?thesis
      using None p pe by (intro exI [of _ t] exI [of _ p]) (auto intro: exI [of _ "[]"])
  next
    case (Some t1)
    then have e: "?e AND 0x81 = 1" "t1 = unat (?e AND PTE_PAMASK)"
      by (auto simp: subtable_def split: if_splits)
    have "j = pageindex va l"
      using Suc.prems(2) p(1) by (auto dest: spec [of _ 1])
    moreover have "\<forall>i\<le>l. (j # r) ! i = pageindex va (l - i)"
      using Suc.prems(2) p(1) by (auto dest: spec [of _ "Suc _"])
    ultimately obtain t' q perm' l' where IH:
      "down_loop m va l (Some (t1 + 8 * pageindex va l)) (perm AND (?e OR NOT 7)) = (l', Some (t' + 8 * hd q), perm')"
      "length q = Suc l'" "walk m t1 (j # r) (perm AND (?e OR NOT 7)) = (ent m t' (hd q), perm', l')"
      "\<exists>r'. j # r = r' @ q \<and> tabs m t1 r' = Some t'"
      using Suc.IH [of "j # r" t1 "perm AND (?e OR NOT 7)"] p(2) by auto
    have "down_loop m va (Suc l) (Some (t + 8 * hd p)) perm = (l', Some (t' + 8 * hd q), perm')"
      using pe e IH(1) by simp
    moreover have "\<exists>r'. p = r' @ q \<and> tabs m t r' = Some t'"
      using IH(4) p(1) Some by (auto intro: exI [of _ "i # _"])
    ultimately show ?thesis
      using IH(2,3) Some p(1) by auto
  qed
qed


section \<open>Entries of tables and pages\<close>

lemma pamask: "PTE_PAMASK = mask 52 AND NOT (mask 12)"
  by (simp add: mask_eq_exp_minus_1)

lemma page_low:
  assumes "PAGESIZE dvd n"
  shows "take_bit 12 (of_nat n :: ulong) = 0"
proof -
  have "take_bit 12 (of_nat n :: ulong) = of_nat (take_bit 12 n)"
    by (rule take_bit_of_nat)
  also have "take_bit 12 n = 0"
    using assms by (simp add: take_bit_eq_mod dvd_eq_mod_eq_0)
  finally show ?thesis by simp
qed

lemma page_pamask:
  assumes "PAGESIZE dvd n" "n < 2 ^ 52"
  shows "of_nat n AND PTE_PAMASK = (of_nat n :: ulong)"
proof -
  have "take_bit 52 (of_nat n :: ulong) = of_nat (take_bit 52 n)"
    by (rule take_bit_of_nat)
  also have "take_bit 52 n = n"
    using assms(2) by (simp add: take_bit_nat_eq_self_iff)
  finally have "of_nat n AND mask 52 = (of_nat n :: ulong)"
    by (simp add: take_bit_eq_mask)
  moreover have "of_nat n AND NOT (mask 12) = (of_nat n :: ulong)"
  proof -
    have "of_nat n = (of_nat n AND mask 12) OR (of_nat n AND NOT (mask 12) :: ulong)"
      by (simp flip: bit.conj_disj_distrib)
    then show ?thesis
      using page_low [OF assms(1)] by (simp add: take_bit_eq_mask)
  qed
  ultimately show ?thesis
    unfolding pamask by (simp only: and.assoc [symmetric])
qed

lemma low_and:
  assumes "take_bit 12 (x :: ulong) = 0" "c AND mask 12 = c"
  shows "x AND c = 0"
proof -
  have "x AND c = x AND (c AND mask 12)"
    by (simp only: assms(2))
  also have "\<dots> = take_bit 12 x AND c"
    by (simp only: take_bit_eq_mask ac_simps)
  finally show ?thesis
    by (simp add: assms(1))
qed

lemma low_masks: "(0x81 :: ulong) AND mask 12 = 0x81" "(7 :: ulong) AND mask 12 = 7" "(1 :: ulong) AND mask 12 = 1"
  by (simp_all add: mask_eq_exp_minus_1)

lemma table_entry:
  assumes "PAGESIZE dvd n" "n < 2 ^ 32"
  shows "subtable (of_nat n OR 7) = Some n" "(of_nat n OR 7) AND 7 = (7 :: ulong)"
    "(of_nat n OR 7) AND PTE_PAMASK = (of_nat n :: ulong)" "(of_nat n :: ulong) < 0x100000000"
proof -
  note low = page_low [OF assms(1)]
  have "of_nat n AND (0x81 :: ulong) = 0"
    by (rule low_and [OF low low_masks(1)])
  then have p: "(of_nat n OR 7) AND 0x81 = (1 :: ulong)"
    by (simp add: bit.conj_disj_distrib2)
  show seven: "(of_nat n OR 7) AND 7 = (7 :: ulong)"
    using low_and [OF low low_masks(2)] by (simp add: bit.conj_disj_distrib2)
  show m: "(of_nat n OR 7) AND PTE_PAMASK = (of_nat n :: ulong)"
    using page_pamask [OF assms(1)] assms(2) by (simp add: bit.conj_disj_distrib2)
  have u: "unat (of_nat n :: ulong) = n"
    using assms(2) by (simp add: unsigned_of_nat take_bit_nat_eq_self_iff)
  show "subtable (of_nat n OR 7) = Some n"
    using p m u by (simp add: subtable_def)
  show "(of_nat n :: ulong) < 0x100000000"
    using u assms(2) by (simp add: word_less_nat_alt)
qed

text \<open>Two entries of tables do not overlap.\<close>

lemma ent_apart:
  assumes "PAGESIZE dvd t" "PAGESIZE dvd u" "i < 512" "j < 512" "(u, j) \<noteq> (t, i)"
  shows "u + 8 * j + 8 \<le> t + 8 * i \<or> t + 8 * i + 8 \<le> u + 8 * j"
proof -
  obtain a b where "t = PAGESIZE * a" "u = PAGESIZE * b"
    using assms(1,2) by (auto elim!: dvdE)
  then show ?thesis
    using assms(3-5) by (cases a b rule: linorder_cases) auto
qed

lemma ent_write:
  assumes "PAGESIZE dvd t" "PAGESIZE dvd u" "i < 512" "j < 512"
  shows "ent (write64 m (t + 8 * i) e) u j = (if (u, j) = (t, i) then e else ent m u j)"
proof (cases "(u, j) = (t, i)")
  case False
  then show ?thesis
    using ent_apart [OF assms False] read64_write64_other [of "u + 8 * j" "t + 8 * i" m e] by (auto simp: ent_def)
qed (simp add: ent_def)

lemma ent_memset:
  assumes "PAGESIZE dvd n" "PAGESIZE dvd u" "j < 512"
  shows "u \<noteq> n \<Longrightarrow> ent (memset m n c PAGESIZE) u j = ent m u j" "ent (memset m n 0 PAGESIZE) n j = 0"
proof -
  show "ent (memset m n 0 PAGESIZE) n j = 0"
    unfolding ent_def using assms(3) by (intro read64_memset_0) auto
  assume "u \<noteq> n"
  then have "u + 8 * j + 8 \<le> n \<or> n + PAGESIZE \<le> u + 8 * j"
    using assms by (auto elim!: dvdE)
  then show "ent (memset m n c PAGESIZE) u j = ent m u j"
    unfolding ent_def by (rule read64_memset_other)
qed

end
