(* ===== verification/Vm_Tree.thy ===== *)
theory Vm_Tree
  imports Vm_Map
begin

text \<open>
  Page tables as trees: what allocating a page table and writing an entry do to the tables and to the mappings, and
  from it the contract of \<^verbatim>\<open>vmiter::try_map\<close>: the address it maps is translated as asked, every other address as
  before.
\<close>

unbundle bit_operations_syntax

section \<open>Walks that see the same entries\<close>

lemma walk_cong:
  assumes "\<And>r j r' u. q = r @ j # r' \<Longrightarrow> tabs m t r = Some u \<Longrightarrow> ent m' u j = ent m u j"
  shows "walk m' t q perm = walk m t q perm"
  using assms
proof (induction m t q perm rule: walk.induct)
  case (2 m t i perm)
  then show ?case using "2" [of "[]" i "[]" t] by simp
next
  case (3 m t i j p perm)
  have e: "ent m' t i = ent m t i"
    using "3.prems" [of "[]" i] by simp
  show ?case
  proof (cases "subtable (ent m t i)")
    case (Some t')
    have "walk m' t' (j # p) (perm AND (ent m t i OR NOT 7)) = walk m t' (j # p) (perm AND (ent m t i OR NOT 7))"
      by (rule "3.IH" [OF Some]) (use "3.prems" [of "i # _"] Some in auto)
    then show ?thesis
      using Some e by simp
  qed (simp add: e)
qed simp

lemma mapping_cong:
  assumes "\<And>r j r' u. q = r @ j # r' \<Longrightarrow> tabs m t r = Some u \<Longrightarrow> ent m' u j = ent m u j"
  shows "mapping m' t q = mapping m t q"
  using walk_cong [of q m t m' "0xFFF", OF assms] by (simp add: mapping_def)

lemma and_or_not:
  assumes "e AND c = c"
  shows "perm AND (e OR NOT c) = (perm :: ulong)"
proof (rule bit_eqI)
  fix n
  have "bit c n \<Longrightarrow> bit e n"
    using assms by (metis bit_and_iff)
  then show "bit (perm AND (e OR NOT c)) n \<longleftrightarrow> bit perm n"
    by (auto simp only: bit_and_iff bit_or_iff bit_not_iff possible_bit_def dest: bit_imp_possible_bit)
qed

lemma and_or_not_7: "e AND 7 = 7 \<Longrightarrow> perm AND (e OR - 8) = (perm :: ulong)"
  using and_or_not [of e 7 perm] by simp

lemma walk_append:
  assumes "tabs m t p = Some t'"
    "\<And>r j r' u. p = r @ j # r' \<Longrightarrow> tabs m t r = Some u \<Longrightarrow> ent m u j AND 7 = 7"
  shows "walk m t (p @ i # q) perm = walk m t' (i # q) perm"
  using assms
proof (induction p arbitrary: t)
  case (Cons j p)
  from Cons.prems(1) obtain u where u: "subtable (ent m t j) = Some u" "tabs m u p = Some t'"
    by (auto split: option.splits)
  have "walk m u (p @ i # q) perm = walk m t' (i # q) perm"
    by (rule Cons.IH [OF u(2)]) (use Cons.prems(2) [of "j # _"] u(1) in auto)
  moreover have "ent m t j AND 7 = 7"
    using Cons.prems(2) [of "[]"] by simp
  moreover obtain i' q' where "p @ i # q = i' # q'"
    by (cases p) auto
  ultimately show ?case
    using u(1) by (simp add: and_or_not_7)
qed simp

section \<open>The invariant\<close>

lemma pt_invD:
  assumes "pt_inv k pt s" "table_at (km s) pt p t"
  shows "PAGESIZE dvd t" "t + PAGESIZE \<le> MEMSIZE_PHYSICAL k" "\<not> free_page k s t"
    "table_at (km s) pt q t \<Longrightarrow> q = p" "i < 512 \<Longrightarrow> ent (km s) t i AND PTE_PAMASK < 0x100000000"
    "i < 512 \<Longrightarrow> length p < 3 \<Longrightarrow> subtable (ent (km s) t i) \<noteq> None \<Longrightarrow> ent (km s) t i AND 7 = 7"
  using assms unfolding pt_inv_def by blast+

lemma table_at_prefix: "table_at m pt (p @ q) t \<Longrightarrow> \<exists>u. table_at m pt p u"
  by (auto simp: table_at_def tabs_append bind_eq_Some_conv)

lemma tabs_prefix: "tabs m pt (p @ i # q) = Some t \<Longrightarrow> \<exists>u. tabs m pt p = Some u \<and> subtable (ent m u i) \<noteq> None"
  by (auto simp: tabs_append bind_eq_Some_conv split: option.splits)

lemma walk_table:
  assumes "pt_inv k pt s" "table_at (km s) pt p t"
  shows "walk (km s) pt (p @ i # q) perm = walk (km s) t (i # q) perm"
proof (rule walk_append)
  show "tabs (km s) pt p = Some t"
    using assms(2) by (simp add: table_at_def)
  fix r j r' u
  assume p: "p = r @ j # r'" and u: "tabs (km s) pt r = Some u"
  have "table_at (km s) pt r u" "length r < 3" "j < 512"
    using assms(2) p u by (auto simp: table_at_def)
  moreover have "subtable (ent (km s) u j) \<noteq> None"
    using tabs_prefix [of "km s" pt r j r' t] assms(2) p u by (auto simp: table_at_def)
  ultimately show "ent (km s) u j AND 7 = 7"
    using pt_invD(6) [OF assms(1)] by blast
qed

section \<open>A new page table\<close>

text \<open>The memory after a fresh page has become the table of an entry: the entries the tables see.\<close>

definition grown :: "mem \<Rightarrow> mem \<Rightarrow> nat \<Rightarrow> nat \<Rightarrow> nat \<Rightarrow> bool" where
  "grown m m' t i n \<longleftrightarrow>
     (\<forall>u j. PAGESIZE dvd u \<and> j < 512 \<longrightarrow>
        ent m' u j = (if (u, j) = (t, i) then of_nat n OR 7 else if u = n then 0 else ent m u j))"

lemma grown_memset:
  assumes "PAGESIZE dvd t" "PAGESIZE dvd n" "i < 512" "n \<noteq> t"
  shows "grown m (write64 (memset (memset m n c PAGESIZE) n 0 PAGESIZE) (t + 8 * i) (of_nat n OR 7)) t i n"
  using assms by (simp add: grown_def ent_write ent_memset)

lemma subtable_0 [simp]: "subtable 0 = None"
  by (simp add: subtable_def)

lemma absent_subtable:
  assumes "e AND PTE_P = 0"
  shows "subtable e = None"
proof -
  have "(e AND 0x81) AND 1 = e AND (0x81 AND 1)"
    by (rule and.assoc)
  then show ?thesis
    using assms by (auto simp: subtable_def)
qed

lemma tabs_grown:
  assumes inv: "pt_inv k pt s" and at: "table_at (km s) pt p t" and i: "i < 512"
    and n: "PAGESIZE dvd n" "n < 2 ^ 32" "free_page k s n" and g: "grown (km s) m' t i n"
    and q: "idxs q" "length q \<le> 3"
  shows "tabs m' pt q =
    (if q = p @ [i] then Some n else if \<exists>r. q = p @ i # r then None else tabs (km s) pt q)"
  using q
proof (induction q rule: rev_induct)
  case (snoc j q)
  then have IH: "tabs m' pt q =
      (if q = p @ [i] then Some n else if \<exists>r. q = p @ i # r then None else tabs (km s) pt q)" and j: "j < 512"
    by simp_all
  show ?case
  proof (cases "\<exists>r. q = p @ i # r")
    case True
    then obtain r where r: "q = p @ i # r"
      by blast
    have "n \<noteq> t"
      using pt_invD(3) [OF inv at] n(3) by auto
    then have "ent m' n j = 0"
      using g n(1) j by (simp add: grown_def)
    then have "tabs m' pt (q @ [j]) = None"
      unfolding tabs_snoc using IH r by (cases "r = []") simp_all
    then show ?thesis
      using r by simp
  next
    case False
    then have q: "tabs m' pt q = tabs (km s) pt q"
      using IH by auto
    have ext: "(\<exists>r. q @ [j] = p @ i # r) \<longleftrightarrow> q = p \<and> j = i"
      using False by (auto simp: append_eq_append_conv2 append_eq_Cons_conv Cons_eq_append_conv)
    show ?thesis
    proof (cases "tabs (km s) pt q")
      case None
      then show ?thesis
        using q ext at by (auto simp: tabs_snoc table_at_def)
    next
      case (Some u)
      have u: "table_at (km s) pt q u"
        using snoc.prems Some by (simp add: table_at_def)
      note D = pt_invD [OF inv u]
      have "u \<noteq> n"
        using D(3) n(3) by auto
      moreover have "(u, j) = (t, i) \<longleftrightarrow> q = p \<and> j = i"
        using D(4) [of p] at Some by (auto simp: table_at_def)
      ultimately have "ent m' u j = (if q = p \<and> j = i then of_nat n OR 7 else ent (km s) u j)"
        using g D(1) j by (simp add: grown_def)
      then show ?thesis
        using q Some ext table_entry(1) [OF n(1,2)] by (auto simp: tabs_snoc)
    qed
  qed
qed (simp add: at)

lemma table_at_grown:
  assumes "pt_inv k pt s" "table_at (km s) pt p t" "i < 512"
    "PAGESIZE dvd n" "n < 2 ^ 32" "free_page k s n" "grown (km s) m' t i n" "length p < 3"
  shows "table_at m' pt q u \<longleftrightarrow> q = p @ [i] \<and> u = n \<or> (\<nexists>r. q = p @ i # r) \<and> table_at (km s) pt q u"
  using tabs_grown [OF assms(1-7), of q] assms(2,3,8) by (auto simp: table_at_def split: if_splits)

lemma pt_inv_grown:
  assumes inv: "pt_inv k pt s" and at: "table_at (km s) pt p t" and i: "i < 512"
    and n: "PAGESIZE dvd n" "n < 2 ^ 32" "free_page k s n" and g: "grown (km s) m' t i n"
    and p: "length p < 3" and top: "n + PAGESIZE \<le> MEMSIZE_PHYSICAL k"
    and s': "km s' = m'" "refcount s' = (refcount s)(n div PAGESIZE := 1)"
  shows "pt_inv k pt s'"
  unfolding pt_inv_def s'(1)
proof (intro allI impI)
  fix q u
  assume "table_at m' pt q u"
  note ta = table_at_grown [OF inv at i n g p]
  have notn: "\<not> table_at (km s) pt r n" for r
    using pt_invD(3) [OF inv, of r n] n(3) by auto
  from \<open>table_at m' pt q u\<close> consider "q = p @ [i]" "u = n" | "\<nexists>r. q = p @ i # r" "table_at (km s) pt q u"
    using ta by blast
  then show "PAGESIZE dvd u \<and> u + PAGESIZE \<le> MEMSIZE_PHYSICAL k \<and> \<not> free_page k s' u \<and>
        (\<forall>q'. table_at m' pt q' u \<longrightarrow> q' = q) \<and>
        (\<forall>j<512. ent m' u j AND PTE_PAMASK < 0x100000000 \<and>
          (length q < 3 \<and> subtable (ent m' u j) \<noteq> None \<longrightarrow> ent m' u j AND 7 = 7))"
  proof cases
    case 1
    then have "u \<noteq> t"
      using notn at by auto
    then have "\<forall>j<512. ent m' u j = 0"
      using g n(1) 1(2) by (simp add: grown_def)
    then show ?thesis
      using 1 n(1) top notn by (simp add: s'(2) ta free_page_def)
  next
    case 2
    note D = pt_invD [OF inv 2(2)]
    have "u \<noteq> n"
      using notn 2(2) by auto
    then have e: "ent m' u j = (if (u, j) = (t, i) then of_nat n OR 7 else ent (km s) u j)" if "j < 512" for j
      using g D(1) that by (simp add: grown_def)
    have "ent m' u j AND PTE_PAMASK < 0x100000000 \<and>
        (length q < 3 \<and> subtable (ent m' u j) \<noteq> None \<longrightarrow> ent m' u j AND 7 = 7)" if "j < 512" for j
      unfolding e [OF that] using D(5,6) [OF that] table_entry [OF n(1,2)] by simp
    moreover have "\<forall>q'. table_at m' pt q' u \<longrightarrow> q' = q"
      using D(4) \<open>u \<noteq> n\<close> by (simp add: ta)
    ultimately show ?thesis
      using D(1-3) by (auto simp: s'(2) free_page_def)
  qed
qed

lemma mapping_grown:
  assumes inv: "pt_inv k pt s" and at: "table_at (km s) pt p t" and i: "i < 512"
    and n: "PAGESIZE dvd n" "n < 2 ^ 32" "free_page k s n" and g: "grown (km s) m' t i n"
    and p: "length p < 3" and inv': "pt_inv k pt s'" and s': "km s' = m'"
    and absent: "ent (km s) t i AND PTE_P = 0" and q: "idxs q" "length q = 4"
  shows "mapping m' pt q = mapping (km s) pt q"
proof (cases "\<exists>r. q = p @ i # r")
  case True
  then obtain r' where r': "q = p @ i # r'"
    by blast
  then have "r' \<noteq> []"
    using p q(2) by auto
  then obtain j r where r: "q = p @ i # j # r"
    using r' by (cases r') auto
  have "walk (km s) pt q 0xFFF = (ent (km s) t i, 0xFFF, Suc (length r))"
    using walk_table [OF inv at] by (simp add: r absent_subtable [OF absent])
  moreover have "table_at m' pt (p @ [i]) n"
    using table_at_grown [OF inv at i n g p] by simp
  then have "walk m' pt ((p @ [i]) @ j # r) 0xFFF = walk m' n (j # r) 0xFFF"
    using walk_table [OF inv', of "p @ [i]" n j r] by (simp add: s')
  moreover have "n \<noteq> t"
    using pt_invD(3) [OF inv at] n(3) by auto
  then have "ent m' n j = 0"
    using g n(1) q(1) r by (simp add: grown_def)
  ultimately show ?thesis
    using absent by (cases r) (simp_all add: mapping_def r)
next
  case False
  show ?thesis
  proof (rule mapping_cong)
    fix r j r' u
    assume qq: "q = r @ j # r'" and u: "tabs (km s) pt r = Some u"
    have r: "table_at (km s) pt r u" and j: "j < 512"
      using q qq u by (auto simp: table_at_def)
    have "u \<noteq> n"
      using pt_invD(3) [OF inv r] n(3) by auto
    moreover have "(u, j) \<noteq> (t, i)"
      using pt_invD(4) [OF inv r, of p] at qq False by auto
    ultimately show "ent m' u j = ent (km s) u j"
      using g pt_invD(1) [OF inv r] j by (auto simp: grown_def)
  qed
qed

section \<open>A new entry for a page\<close>

lemma tabs_leaf:
  assumes inv: "pt_inv k pt s" and at: "table_at (km s) pt p t" and p: "length p = 3" and i: "i < 512"
    and q: "idxs q" "length q \<le> 3"
  shows "tabs (write64 (km s) (t + 8 * i) e) pt q = tabs (km s) pt q"
  using q
proof (induction q rule: rev_induct)
  case (snoc j q)
  show ?case
  proof (cases "tabs (km s) pt q")
    case (Some u)
    have u: "table_at (km s) pt q u"
      using snoc.prems Some by (simp add: table_at_def)
    have "u \<noteq> t"
      using pt_invD(4) [OF inv u, of p] at p snoc.prems by auto
    then show ?thesis
      using snoc i pt_invD(1) [OF inv] at u by (simp add: tabs_snoc Some ent_write)
  qed (use snoc in \<open>simp add: tabs_snoc\<close>)
qed simp

lemma table_at_leaf:
  assumes "pt_inv k pt s" "table_at (km s) pt p t" "length p = 3" "i < 512"
  shows "table_at (write64 (km s) (t + 8 * i) e) pt q u = table_at (km s) pt q u"
  using tabs_leaf [OF assms, of q e] by (auto simp: table_at_def)

lemma pt_inv_leaf:
  assumes inv: "pt_inv k pt s" and at: "table_at (km s) pt p t" and p: "length p = 3" and i: "i < 512"
    and e: "e AND PTE_PAMASK < 0x100000000"
  shows "pt_inv k pt (s\<lparr>km := write64 (km s) (t + 8 * i) e\<rparr>)"
proof -
  have "ent (write64 (km s) (t + 8 * i) e) u j AND PTE_PAMASK < 0x100000000 \<and>
      (length q < 3 \<and> subtable (ent (write64 (km s) (t + 8 * i) e) u j) \<noteq> None \<longrightarrow>
        ent (write64 (km s) (t + 8 * i) e) u j AND 7 = 7)"
    if u: "table_at (km s) pt q u" and j: "j < 512" for q u j
  proof -
    note D = pt_invD [OF inv u]
    have "u = t \<Longrightarrow> length q = 3"
      using D(4) [of p] at p by simp
    then show ?thesis
      using D(5,6) [OF j] e ent_write [OF pt_invD(1) [OF inv at] D(1) i j, of "km s" e] by auto
  qed
  then show ?thesis
    using pt_invD(1-4) [OF inv] by (simp add: pt_inv_def table_at_leaf [OF inv at p i] free_page_def)
qed

lemma mapping_leaf:
  assumes inv: "pt_inv k pt s" and at: "table_at (km s) pt p t" and p: "length p = 3" and i: "i < 512"
    and e: "e AND PTE_PAMASK < 0x100000000" and q: "idxs q" "length q = 4"
  shows "mapping (write64 (km s) (t + 8 * i) e) pt q =
    (if q \<noteq> p @ [i] then mapping (km s) pt q
     else if e AND PTE_P \<noteq> 0 then Some (e AND PTE_PAMASK, e AND 0xFFF, 0) else None)"
proof (cases "q = p @ [i]")
  case True
  let ?s = "s\<lparr>km := write64 (km s) (t + 8 * i) e\<rparr>"
  have "walk (km ?s) pt (p @ [i]) 0xFFF = walk (km ?s) t [i] 0xFFF"
    by (rule walk_table [OF pt_inv_leaf [OF inv at p i e]]) (simp add: table_at_leaf [OF inv at p i] at)
  then show ?thesis
    using True by (simp add: mapping_def ent_def)
next
  case False
  have "mapping (write64 (km s) (t + 8 * i) e) pt q = mapping (km s) pt q"
  proof (rule mapping_cong)
    fix r j r' u
    assume qq: "q = r @ j # r'" and u: "tabs (km s) pt r = Some u"
    have r: "table_at (km s) pt r u" and j: "j < 512"
      using q qq u by (auto simp: table_at_def)
    have "(u, j) \<noteq> (t, i)"
      using pt_invD(4) [OF inv r, of p] at qq False p q(2) by auto
    then show "ent (write64 (km s) (t + 8 * i) e) u j = ent (km s) u j"
      using ent_write [OF pt_invD(1) [OF inv at] pt_invD(1) [OF inv r] i j] by auto
  qed
  then show ?thesis
    using False by simp
qed

section \<open>What work on a page table leaves alone\<close>

definition free_pages :: "kconf \<Rightarrow> kmem \<Rightarrow> nat set" where
  "free_pages k s = {pa. PAGESIZE dvd pa \<and> free_page k s pa}"

text \<open>Pages in use stay in use, and their contents stay unless they are tables of the page table.\<close>

definition keeps :: "kconf \<Rightarrow> nat \<Rightarrow> kmem \<Rightarrow> kmem \<Rightarrow> bool" where
  "keeps k pt s s' \<longleftrightarrow>
     free_pages k s' \<subseteq> free_pages k s \<and>
     (\<forall>u. PAGESIZE dvd u \<and> u \<notin> free_pages k s \<and> (\<forall>p. \<not> table_at (km s) pt p u) \<longrightarrow>
        (\<forall>p. \<not> table_at (km s') pt p u) \<and> (\<forall>x. u \<le> x \<and> x < u + PAGESIZE \<longrightarrow> km s' x = km s x))"

lemma keeps_refl [simp]: "keeps k pt s s"
  by (simp add: keeps_def)

lemma keeps_trans:
  assumes "keeps k pt s s'" "keeps k pt s' s''"
  shows "keeps k pt s s''"
  unfolding keeps_def
proof (intro conjI allI impI)
  show "free_pages k s'' \<subseteq> free_pages k s"
    using assms unfolding keeps_def by blast
  fix u
  assume u: "PAGESIZE dvd u \<and> u \<notin> free_pages k s \<and> (\<forall>p. \<not> table_at (km s) pt p u)"
  then have u': "PAGESIZE dvd u \<and> u \<notin> free_pages k s' \<and> (\<forall>p. \<not> table_at (km s') pt p u)"
    using assms(1) unfolding keeps_def by blast
  then show "\<not> table_at (km s'') pt p u" for p
    using assms(2) unfolding keeps_def by blast
  fix x
  assume "u \<le> x \<and> x < u + PAGESIZE"
  moreover from this have "km s' x = km s x"
    using assms(1) u unfolding keeps_def by blast
  ultimately show "km s'' x = km s x"
    using assms(2) u' unfolding keeps_def by simp
qed

lemma finite_free_pages [simp]: "finite (free_pages k s)"
proof (rule finite_subset)
  show "free_pages k s \<subseteq> {..<MEMSIZE_PHYSICAL k}"
    by (auto simp: free_pages_def free_page_def allocatable_physical_address_def)
qed simp

lemma page_bytes_apart:
  assumes "PAGESIZE dvd t" "PAGESIZE dvd u" "u \<noteq> t" "u \<le> x" "x < u + PAGESIZE"
  shows "x < t \<or> t + PAGESIZE \<le> x"
  using assms by (auto elim!: dvdE)

lemma keeps_write:
  assumes inv: "pt_inv k pt s" and at: "table_at (km s) pt p t" and i: "i < 512"
    and tables: "\<And>q u. table_at m pt q u \<Longrightarrow> table_at (km s) pt q u"
    and m: "m = write64 (km s) (t + 8 * i) e"
  shows "keeps k pt s (s\<lparr>km := m\<rparr>)"
proof -
  have "m x = km s x" if "PAGESIZE dvd u" "u \<noteq> t" "u \<le> x" "x < u + PAGESIZE" for u x
    using page_bytes_apart [OF pt_invD(1) [OF inv at] that] i by (auto simp: m write64_def)
  moreover have "free_pages k (s\<lparr>km := m\<rparr>) = free_pages k s"
    by (simp add: free_pages_def free_page_def)
  moreover have "u \<noteq> t \<and> (\<forall>p. \<not> table_at m pt p u)" if "\<forall>p. \<not> table_at (km s) pt p u" for u
    using that at tables by blast
  ultimately show ?thesis
    by (simp add: keeps_def) blast
qed

lemma keeps_grown:
  assumes inv: "pt_inv k pt s" and at: "table_at (km s) pt p t" and i: "i < 512"
    and n: "PAGESIZE dvd n" "free_page k s n"
    and tables: "\<And>q u. table_at (km s') pt q u \<Longrightarrow> table_at (km s) pt q u \<or> u = n"
    and s': "km s' = write64 (memset (memset (km s) n c PAGESIZE) n 0 PAGESIZE) (t + 8 * i) e"
      "refcount s' = (refcount s)(n div PAGESIZE := 1)"
  shows "keeps k pt s s'" "free_pages k s' = free_pages k s - {n}"
proof -
  have "u div PAGESIZE = n div PAGESIZE \<longleftrightarrow> u = n" if "PAGESIZE dvd u" for u
    using n(1) that by (auto elim!: dvdE)
  then show free: "free_pages k s' = free_pages k s - {n}"
    by (auto simp: free_pages_def free_page_def s'(2))
  have "km s' x = km s x" if "PAGESIZE dvd u" "u \<noteq> t" "u \<noteq> n" "u \<le> x" "x < u + PAGESIZE" for u x
    using page_bytes_apart [OF pt_invD(1) [OF inv at] that(1,2,4,5)] page_bytes_apart [OF n(1) that(1,3,4,5)] i
    by (auto simp: s'(1) write64_def memset_apply)
  moreover have "n \<in> free_pages k s"
    using n by (simp add: free_pages_def)
  ultimately show "keeps k pt s s'"
    unfolding keeps_def using tables at free by blast
qed

section \<open>The position of an iterator\<close>

text \<open>The iterator is at the entry where the walk of its address ends; the path before, the index and the rest.\<close>

definition positioned :: "mem \<Rightarrow> vmiter \<Rightarrow> nat list \<Rightarrow> nat \<Rightarrow> nat list \<Rightarrow> nat \<Rightarrow> bool" where
  "positioned m it p i q t \<longleftrightarrow>
     vpath (vm_va it) = p @ i # q \<and> table_at m (vm_pt it) p t \<and> vm_pep it = Some (t + 8 * i) \<and>
     vm_level it = length q \<and> vm_perm it = 0xFFF \<and> (q \<noteq> [] \<longrightarrow> subtable (ent m t i) = None)"

lemma length_vpath [simp]: "length (vpath va) = 4"
  by (simp add: vpath_def)

lemma walk_level: "walk m t (i # p) perm = (e, perm', l) \<Longrightarrow> l \<le> length p"
proof (induction p arbitrary: t i perm)
  case (Cons j p)
  show ?case
  proof (cases "subtable (ent m t i)")
    case (Some t')
    then show ?thesis
      using Cons.IH [of t' j] Cons.prems by (simp add: le_SucI)
  qed (use Cons.prems in simp)
qed simp

lemma walk_ends:
  assumes "walk m t (i # q) perm = (e, perm', length q)"
  shows "e = ent m t i" "perm' = perm" "q \<noteq> [] \<longrightarrow> subtable (ent m t i) = None"
proof -
  have "q \<noteq> [] \<longrightarrow> subtable (ent m t i) = None"
  proof (cases q)
    case (Cons j r)
    show ?thesis
    proof (cases "subtable (ent m t i)")
      case (Some t')
      then show ?thesis
        using assms walk_level [of m t' j r] Cons by fastforce
    qed simp
  qed simp
  then show "e = ent m t i" "perm' = perm" "q \<noteq> [] \<longrightarrow> subtable (ent m t i) = None"
    using assms by (cases q; simp)+
qed

lemma vpath_index:
  assumes "vpath va = r @ p" "j < length p"
  shows "p ! j = pageindex va (length p - 1 - j)"
proof -
  have len: "length r + length p = 4"
    using length_vpath [of va] assms(1) by simp
  then have n: "length r + j < 4" "length p - 1 - j = 3 - (length r + j)"
    using assms(2) by simp_all
  have "vpath va ! n = pageindex va (3 - n)" if "n < 4" for n
    using that by (auto simp: vpath_def less_Suc_eq numeral_eq_Suc)
  moreover have "vpath va ! (length r + j) = p ! j"
    by (simp add: assms(1))
  ultimately show ?thesis
    using n by simp
qed

lemma down_positioned:
  assumes inv: "pt_inv k (vm_pt it) s" and at: "table_at (km s) (vm_pt it) r t0" and va: "vpath (vm_va it) = r @ p0"
    and it: "length p0 = Suc (vm_level it)" "vm_pep it = Some (t0 + 8 * hd p0)" "vm_perm it = 0xFFF"
  shows "\<exists>it' p i q t. down (km s) it = Done it' \<and> vm_pt it' = vm_pt it \<and> vm_va it' = vm_va it \<and>
    positioned (km s) it' p i q t"
proof -
  let ?m = "km s"
  have idx: "\<forall>j\<le>vm_level it. p0 ! j = pageindex (vm_va it) (vm_level it - j)"
    using vpath_index [OF va] it(1) by simp
  obtain t q perm l r' where
    loop: "down_loop ?m (vm_va it) (vm_level it) (vm_pep it) 0xFFF = (l, Some (t + 8 * hd q), perm)"
    and w: "length q = Suc l" "walk ?m t0 p0 0xFFF = (ent ?m t (hd q), perm, l)"
    and r: "p0 = r' @ q" "tabs ?m t0 r' = Some t"
    using down_loop_walk [OF it(1) idx, of ?m t0 "0xFFF"] it(2) by auto
  obtain i q' where q: "q = i # q'" "length q' = l"
    using w(1) by (cases q) auto
  have "idxs ((r @ r') @ i # q')" "length ((r @ r') @ i # q') = 4"
    using idxs_vpath [of "vm_va it"] length_vpath [of "vm_va it"] unfolding va r(1) q(1) by simp_all
  moreover have "tabs ?m (vm_pt it) (r @ r') = Some t"
    using at r(2) by (simp add: table_at_def tabs_append)
  ultimately have at': "table_at ?m (vm_pt it) (r @ r') t" and i: "i < 512"
    by (simp_all add: table_at_def)
  obtain j p1 where p0: "p0 = j # p1"
    using it(1) by (cases p0) auto
  have "walk ?m t0 p0 0xFFF = walk ?m t (i # q') 0xFFF"
    using walk_table [OF inv at, of j p1 "0xFFF"] walk_table [OF inv at', of i q' "0xFFF"] r(1) q(1) p0 by simp
  then have "walk ?m t (i # q') 0xFFF = (ent ?m t i, perm, length q')"
    using w(2) q by simp
  then have e: "perm = 0xFFF" "q' \<noteq> [] \<longrightarrow> subtable (ent ?m t i) = None"
    using walk_ends(2,3) by blast+
  have "pe ?m (Some (t + 8 * i)) AND PTE_PAMASK < 0x100000000"
    using pt_invD(5) [OF inv at' i] by (simp add: pe_def ent_def)
  then have "down ?m it = Done (it\<lparr>vm_level := l, vm_pep := Some (t + 8 * i), vm_perm := 0xFFF\<rparr>)" (is "_ = Done ?it")
    using loop q(1) e(1) it(3) by (simp add: down_def)
  moreover have "positioned ?m ?it (r @ r') i q' t"
    using at' va r(1) q e(2) by (simp add: positioned_def)
  ultimately show ?thesis
    by fastforce
qed

lemma vmiter_new_positioned:
  assumes inv: "pt_inv k pt s" and va: "va_is_canonical va"
  shows "\<exists>it p i q t. vmiter_new (km s) pt va = Done it \<and> vm_pt it = pt \<and> vm_va it = va \<and> positioned (km s) it p i q t"
  using down_positioned [of k "\<lparr>vm_pt = pt, vm_pep = Some (pt + 8 * pageindex va 3), vm_level = 3, vm_perm = 0xFFF, vm_va = va\<rparr>"
      s "[]" pt "vpath va"] inv va
  by (simp add: vmiter_new_def real_find_def table_at_def vpath_def)

section \<open>Lookups\<close>

text \<open>\<^verbatim>\<open>vmiter(pt, va).pa()\<close> and \<^verbatim>\<open>vmiter(pt, va).perm()\<close>\<close>

definition lookup_va :: "mem \<Rightarrow> nat \<Rightarrow> ulong \<Rightarrow> (ulong \<times> ulong) outcome" where
  "lookup_va m pt va = obind (vmiter_new m pt va) (\<lambda>it. Done (vm_pa m it, vm_perms m it))"

definition translate :: "(ulong \<times> ulong \<times> nat) option \<Rightarrow> ulong \<Rightarrow> ulong \<times> ulong" where
  "translate x va =
     (case x of
        None \<Rightarrow> (- 1, 0)
      | Some (pa, perm, l) \<Rightarrow>
          ((if l > 0 then pa AND NOT 0x1000 else pa) + (va AND pageoffmask l), perm AND - (perm AND PTE_P)))"

lemma positioned_walk:
  assumes "pt_inv k (vm_pt it) s" "positioned (km s) it p i q t"
  shows "walk (km s) (vm_pt it) (vpath (vm_va it)) 0xFFF = (ent (km s) t i, 0xFFF, vm_level it)"
  using assms walk_table [OF assms(1), of p t i q "0xFFF"] by (cases q) (auto simp: positioned_def)

lemma positioned_translate:
  assumes "pt_inv k (vm_pt it) s" "positioned (km s) it p i q t"
  shows "(vm_pa (km s) it, vm_perms (km s) it) = translate (mapping (km s) (vm_pt it) (vpath (vm_va it))) (vm_va it)"
proof -
  have "pe (km s) (vm_pep it) = ent (km s) t i" "vm_perm it = 0xFFF"
    using assms(2) by (auto simp: positioned_def pe_def ent_def)
  moreover have "(ent (km s) t i AND 0xFFF) AND PTE_P = ent (km s) t i AND PTE_P"
    by (simp add: and.assoc)
  ultimately show ?thesis
    using positioned_walk [OF assms] by (simp add: mapping_def translate_def vm_pa_def vm_perms_def Let_def)
qed

lemma lookup_translate:
  assumes "pt_inv k pt s" "va_is_canonical va"
  shows "lookup_va (km s) pt va = Done (translate (mapping (km s) pt (vpath va)) va)"
  using vmiter_new_positioned [OF assms] positioned_translate assms(1) by (fastforce simp: lookup_va_def)

section \<open>The loop of try_map\<close>

lemma kalloc_free:
  assumes "kalloc k PAGESIZE s = (Some n, s')" "MEMSIZE_PHYSICAL k \<le> 2 ^ 32" "PAGESIZE dvd MEMSIZE_PHYSICAL k"
  shows "PAGESIZE dvd n" "n < 2 ^ 32" "free_page k s n" "n + PAGESIZE \<le> MEMSIZE_PHYSICAL k"
    "s' = s\<lparr>refcount := (refcount s)(n div PAGESIZE := 1), km := memset (km s) n 0xCC PAGESIZE\<rparr>"
proof -
  note K = kalloc_Some [OF assms(1)]
  show n: "PAGESIZE dvd n" "free_page k s n"
    "s' = s\<lparr>refcount := (refcount s)(n div PAGESIZE := 1), km := memset (km s) n 0xCC PAGESIZE\<rparr>"
    using K by (simp_all add: free_page_def)
  have "n < MEMSIZE_PHYSICAL k"
    using K(2) by (simp add: allocatable_physical_address_def)
  then show "n + PAGESIZE \<le> MEMSIZE_PHYSICAL k"
    using n(1) assms(3) by (auto elim!: dvdE)
  then show "n < 2 ^ 32"
    using assms(2) by linarith
qed

lemma vpath_nth:
  assumes "vpath va = p @ i # q"
  shows "i = pageindex va (length q)" "i < 512" "length p + length q = 3"
proof -
  have len: "length p + length q = 3"
    using length_vpath [of va] assms by simp
  then have "length p = 3 - length q" "length q \<le> 3"
    by simp_all
  moreover have "vpath va ! length p = i"
    by (simp add: assms)
  ultimately show "i = pageindex va (length q)"
    by (auto simp: vpath_def le_Suc_eq numeral_eq_Suc)
  then show "i < 512" "length p + length q = 3"
    using len by (simp_all add: pageindex_less)
qed

lemma down_new_table:
  assumes "PAGESIZE dvd n" "n < 2 ^ 32" "pe m (vm_pep it) = of_nat n OR 7" "ent m n (pageindex (vm_va it) l) = 0"
    "vm_level it = Suc l"
  shows "down m it = Done (it\<lparr>vm_level := l, vm_pep := Some (n + 8 * pageindex (vm_va it) l)\<rparr>)"
proof -
  note T = table_entry [OF assms(1,2)]
  have "(of_nat n OR 7) AND 0x81 = (1 :: ulong)"
    using T(1) by (simp add: subtable_def split: if_splits)
  moreover have "unat (of_nat n :: ulong) = n"
    using T(1,3) by (simp add: subtable_def split: if_splits)
  moreover have "pe m (Some (n + 8 * pageindex (vm_va it) l)) = 0"
    using assms(4) by (simp add: pe_def ent_def)
  ultimately show ?thesis
    using assms(3,5) T(3) and_or_not_7 [OF T(2)] by (cases l) (simp_all add: down_def)
qed

lemma map_loop_step:
  assumes inv: "pt_inv k (vm_pt it) s" and pos: "positioned (km s) it p i q t" and l: "vm_level it = Suc l"
    and absent: "ent (km s) t i AND PTE_P = 0"
    and mem: "MEMSIZE_PHYSICAL k \<le> 2 ^ 32" "PAGESIZE dvd MEMSIZE_PHYSICAL k"
    and n: "kalloc k PAGESIZE s = (Some n, s1)"
  shows "\<exists>it' s' i' q'. map_loop k it s = map_loop k it' s' \<and> pt_inv k (vm_pt it) s' \<and> vm_pt it' = vm_pt it \<and>
    vm_va it' = vm_va it \<and> vm_level it' = l \<and> positioned (km s') it' (p @ [i]) i' q' n \<and>
    ent (km s') n i' = 0 \<and> keeps k (vm_pt it) s s' \<and> free_pages k s' = free_pages k s - {n} \<and>
    (\<forall>r. idxs r \<and> length r = 4 \<longrightarrow> mapping (km s') (vm_pt it) r = mapping (km s) (vm_pt it) r)"
proof -
  note N = kalloc_free [OF n mem]
  have at: "table_at (km s) (vm_pt it) p t" and pep: "vm_pep it = Some (t + 8 * i)"
    and va: "vpath (vm_va it) = p @ i # q" and q: "length q = Suc l" and perm: "vm_perm it = 0xFFF"
    using pos l by (auto simp: positioned_def)
  note V = vpath_nth [OF va]
  then have p: "length p < 3"
    using q by linarith
  obtain i' q' where q': "q = i' # q'" "length q' = l"
    using q by (cases q) auto
  note V' = vpath_nth [of "vm_va it" "p @ [i]" i' q']
  have i': "i' = pageindex (vm_va it) l" "i' < 512"
    using V' va q' by simp_all
  let ?m = "write64 (memset (km s1) n 0 PAGESIZE) (t + 8 * i) (of_nat n OR 7)"
  let ?s = "s1\<lparr>km := ?m\<rparr>" and ?it = "it\<lparr>vm_level := l, vm_pep := Some (n + 8 * i')\<rparr>"
  have "n \<noteq> t"
    using pt_invD(3) [OF inv at] N(3) by auto
  then have g: "grown (km s) ?m t i n"
    using grown_memset [OF pt_invD(1) [OF inv at] N(1) V(2), of "km s" "0xCC"] by (simp add: N(5))
  then have z: "ent ?m n i' = 0"
    using N(1) i'(2) \<open>n \<noteq> t\<close> by (simp add: grown_def)
  have inv': "pt_inv k (vm_pt it) ?s"
    by (rule pt_inv_grown [OF inv at V(2) N(1-3) g p N(4)]) (simp_all add: N(5))
  note tables = table_at_grown [OF inv at V(2) N(1-3) g p]
  have keep: "keeps k (vm_pt it) s ?s" "free_pages k ?s = free_pages k s - {n}"
    using keeps_grown [OF inv at V(2) N(1,3), of ?s "0xCC" "of_nat n OR 7"] tables by (auto simp: N(5))
  have "table_at ?m (vm_pt it) (p @ [i]) n"
    by (simp add: tables)
  then have pos': "positioned ?m ?it (p @ [i]) i' q' n"
    using va q' perm z by (simp add: positioned_def)
  have "down ?m it = Done ?it"
    using down_new_table [OF N(1,2), of ?m it l] z i' pep l by (simp add: pe_def)
  moreover have "pe (km s) (vm_pep it) AND PTE_P = 0"
    using absent pep by (simp add: pe_def ent_def)
  ultimately have "map_loop k it s = map_loop k ?it ?s"
    using l pep n by (subst map_loop.simps) (simp add: Let_def)
  moreover have "\<forall>r. idxs r \<and> length r = 4 \<longrightarrow> mapping (km ?s) (vm_pt it) r = mapping (km s) (vm_pt it) r"
    using mapping_grown [OF inv at V(2) N(1-3) g p inv' _ absent] by simp
  ultimately show ?thesis
    using inv' pos' z keep by (intro exI [of _ ?it] exI [of _ ?s] exI [of _ i'] exI [of _ q']) simp
qed

lemma map_loop_correct:
  assumes "pt_inv k (vm_pt it) s" "positioned (km s) it p i q t"
    "vm_level it > 0 \<Longrightarrow> ent (km s) t i AND PTE_P = 0"
    "MEMSIZE_PHYSICAL k \<le> 2 ^ 32" "PAGESIZE dvd MEMSIZE_PHYSICAL k"
  shows "\<exists>ok it' s'. map_loop k it s = Some (Done (ok, it', s')) \<and> pt_inv k (vm_pt it) s' \<and> vm_pt it' = vm_pt it \<and>
    vm_va it' = vm_va it \<and> keeps k (vm_pt it) s s' \<and>
    card (free_pages k s) \<le> card (free_pages k s') + vm_level it \<and>
    (\<forall>r. idxs r \<and> length r = 4 \<longrightarrow> mapping (km s') (vm_pt it) r = mapping (km s) (vm_pt it) r) \<and>
    (if ok then vm_level it' = 0 \<and> (\<exists>p i q t. positioned (km s') it' p i q t) else kalloc k PAGESIZE s' = (None, s'))"
  using assms
proof (induction "vm_level it" arbitrary: it s p i q t)
  case 0
  have "map_loop k it s = Some (Done (True, it, s))"
    using "0.hyps" by (subst map_loop.simps) simp
  then show ?case
    using 0 by (intro exI [of _ True] exI [of _ it] exI [of _ s]) auto
next
  case (Suc l)
  have absent: "ent (km s) t i AND PTE_P = 0"
    using Suc.prems(3) Suc.hyps(2) by simp
  show ?case
  proof (cases "fst (kalloc k PAGESIZE s)")
    case None
    then have n: "kalloc k PAGESIZE s = (None, s)"
      using kalloc_None by (metis prod.collapse)
    have "vm_pep it = Some (t + 8 * i)"
      using Suc.prems(2) by (simp add: positioned_def)
    then have "map_loop k it s = Some (Done (False, it, s))"
      using n absent Suc.hyps(2) by (subst map_loop.simps) (simp add: pe_def ent_def)
    then show ?thesis
      using n Suc.prems(1) by (intro exI [of _ False] exI [of _ it] exI [of _ s]) auto
  next
    case (Some n)
    then obtain s1 where n: "kalloc k PAGESIZE s = (Some n, s1)"
      by (metis prod.collapse)
    obtain it1 s2 i' q' where st: "map_loop k it s = map_loop k it1 s2" "pt_inv k (vm_pt it) s2" "vm_pt it1 = vm_pt it"
      "vm_va it1 = vm_va it" "vm_level it1 = l" "positioned (km s2) it1 (p @ [i]) i' q' n" "ent (km s2) n i' = 0"
      and keep: "keeps k (vm_pt it) s s2" "free_pages k s2 = free_pages k s - {n}"
      and same: "\<forall>r. idxs r \<and> length r = 4 \<longrightarrow> mapping (km s2) (vm_pt it) r = mapping (km s) (vm_pt it) r"
      using map_loop_step [OF Suc.prems(1,2) Suc.hyps(2) [symmetric] absent Suc.prems(4,5) n] by auto
    have "card (free_pages k s) \<le> Suc (card (free_pages k s2))"
      unfolding keep(2) by (simp add: card_Diff_singleton_if) arith
    moreover have "Suc l = vm_level it"
      by (rule Suc.hyps(2))
    moreover obtain ok it' s' where "map_loop k it1 s2 = Some (Done (ok, it', s'))" "pt_inv k (vm_pt it) s'"
        "vm_pt it' = vm_pt it" "vm_va it' = vm_va it" "keeps k (vm_pt it) s2 s'"
        "card (free_pages k s2) \<le> card (free_pages k s') + l"
        "\<forall>r. idxs r \<and> length r = 4 \<longrightarrow> mapping (km s') (vm_pt it) r = mapping (km s) (vm_pt it) r"
        "if ok then vm_level it' = 0 \<and> (\<exists>p i q t. positioned (km s') it' p i q t) else kalloc k PAGESIZE s' = (None, s')"
      using Suc.hyps(1) [of it1 s2 "p @ [i]" i' q' n] st same Suc.prems(4,5) by auto
    ultimately show ?thesis
      using st(1) keeps_trans [OF keep(1)] by (intro exI [of _ ok] exI [of _ it'] exI [of _ s']) auto
  qed
qed

section \<open>The contract of try_map\<close>

text \<open>Canonical addresses have the same path when they are on the same page.\<close>

lemma take_bit_eq_iff:
  fixes x y :: ulong
  shows "take_bit b x = take_bit b y \<longleftrightarrow> (\<forall>n<b. bit x n = bit y n)"
proof
  assume *: "take_bit b x = take_bit b y"
  show "\<forall>n<b. bit x n = bit y n"
    by (metis * bit_take_bit_iff)
qed (auto intro!: bit_eqI simp: bit_take_bit_iff)

lemma pageindex_bits: "pageindex va l = pageindex va' l \<longleftrightarrow> (\<forall>n<9. bit va (12 + l * 9 + n) = bit va' (12 + l * 9 + n))"
proof -
  have "pageindex va l = pageindex va' l \<longleftrightarrow> take_bit 9 (drop_bit (12 + l * 9) va) = take_bit 9 (drop_bit (12 + l * 9) va')"
    by (simp add: pageindex_def take_bit_eq_mask mask_eq_exp_minus_1 word_unat_eq_iff)
  also have "\<dots> \<longleftrightarrow> (\<forall>n<9. bit va (12 + l * 9 + n) = bit va' (12 + l * 9 + n))"
    unfolding take_bit_eq_iff by (simp add: bit_drop_bit_eq)
  finally show ?thesis .
qed

lemma unat_le_max: "unat (x :: ulong) \<le> 18446744073709551615"
  using unsigned_less [of x, where 'a = nat] by simp

lemma small_word_bits:
  assumes "x \<le> (0x00007FFFFFFFFFFF :: ulong)" "47 \<le> n"
  shows "\<not> bit x n"
proof
  assume "bit x n"
  then have "bit (unat x) n"
    by (simp add: bit_unsigned_iff)
  moreover have "take_bit 47 (unat x) = unat x"
    using assms(1) by (simp add: take_bit_nat_eq_self_iff word_le_nat_alt)
  ultimately show False
    using assms(2) by (metis bit_take_bit_iff leD)
qed

lemma canonical_bits:
  assumes "va_is_canonical va" "47 \<le> n" "n < 64"
  shows "bit va n = bit va 47"
proof (cases "va \<le> 0x00007FFFFFFFFFFF")
  case True
  then show ?thesis
    using small_word_bits assms(2) by simp
next
  case False
  then have "va \<ge> 0xFFFF800000000000"
    using assms(1) by (simp add: va_is_canonical_def)
  moreover have "NOT va = 0xFFFFFFFFFFFFFFFF - va"
    by (simp add: not_eq_complement)
  moreover have "unat (0xFFFFFFFFFFFFFFFF - va) = unat (0xFFFFFFFFFFFFFFFF :: ulong) - unat va"
    by (rule unat_sub) (simp add: word_le_nat_alt unat_le_max)
  ultimately have "NOT va \<le> 0x00007FFFFFFFFFFF"
    by (simp add: word_le_nat_alt)
  then have "\<not> bit (NOT va) n" "\<not> bit (NOT va) 47"
    using small_word_bits assms(2) by simp_all
  then show ?thesis
    using assms(3) by (simp add: bit_not_iff)
qed

lemma vpath_eq:
  assumes "va_is_canonical va" "va_is_canonical va'"
  shows "vpath va = vpath va' \<longleftrightarrow> drop_bit 12 va = drop_bit 12 va'"
proof -
  have "vpath va = vpath va' \<longleftrightarrow> (\<forall>n. 12 \<le> n \<and> n < 48 \<longrightarrow> bit va n = bit va' n)" (is "_ \<longleftrightarrow> ?B")
  proof
    assume "vpath va = vpath va'"
    then have "\<forall>l<4. pageindex va l = pageindex va' l"
      by (auto simp: vpath_def less_Suc_eq numeral_eq_Suc)
    then have *: "bit va (12 + l * 9 + n) = bit va' (12 + l * 9 + n)" if "l < 4" "n < 9" for l n
      using that pageindex_bits by blast
    show ?B
    proof (intro allI impI)
      fix n :: nat
      assume "12 \<le> n \<and> n < 48"
      then show "bit va n = bit va' n"
        using * [of "(n - 12) div 9" "(n - 12) mod 9"] by (auto simp: div_less_iff_less_mult)
    qed
  next
    assume ?B
    then have "pageindex va l = pageindex va' l" if "l < 4" for l
      using that by (simp add: pageindex_bits)
    then show "vpath va = vpath va'"
      by (simp add: vpath_def)
  qed
  also have "\<dots> \<longleftrightarrow> (\<forall>n. 12 \<le> n \<and> n < 64 \<longrightarrow> bit va n = bit va' n)"
  proof
    assume b: ?B
    show "\<forall>n. 12 \<le> n \<and> n < 64 \<longrightarrow> bit va n = bit va' n"
    proof (intro allI impI)
      fix n :: nat
      assume "12 \<le> n \<and> n < 64"
      then show "bit va n = bit va' n"
        using b canonical_bits [OF assms(1), of n] canonical_bits [OF assms(2), of n] by (cases "n < 48") auto
    qed
  qed simp
  also have "\<dots> \<longleftrightarrow> drop_bit 12 va = drop_bit 12 va'"
  proof
    assume *: "\<forall>n. 12 \<le> n \<and> n < 64 \<longrightarrow> bit va n = bit va' n"
    show "drop_bit 12 va = drop_bit 12 va'"
    proof (rule bit_word_eqI)
      fix n
      show "bit (drop_bit 12 va) n \<longleftrightarrow> bit (drop_bit 12 va') n"
        using * [rule_format, of "12 + n"] bit_imp_le_length [of va "12 + n"] bit_imp_le_length [of va' "12 + n"]
        by (auto simp: bit_drop_bit_eq)
    qed
  next
    assume "drop_bit 12 va = drop_bit 12 va'"
    then have "bit va (12 + n) = bit va' (12 + n)" for n
      by (metis bit_drop_bit_eq comp_apply)
    then show "\<forall>n. 12 \<le> n \<and> n < 64 \<longrightarrow> bit va n = bit va' n"
      by (metis le_add_diff_inverse)
  qed
  finally show ?thesis .
qed

lemma page_and_perm:
  fixes pa perm :: ulong
  assumes "pa AND PTE_PAMASK = pa" "perm \<le> 0xFFF" "perm AND PTE_P \<noteq> 0"
  shows "(pa OR perm) AND PTE_PAMASK = pa" "(pa OR perm) AND 0xFFF = perm" "(pa OR perm) AND PTE_P \<noteq> 0"
    "perm AND - (perm AND PTE_P) = perm" "perm AND NOT 0xFFF AND (PTE_P OR PTE_W OR PTE_U) = 0" "pa \<noteq> - 1"
proof -
  have low: "perm AND 0xFFF = perm"
  proof -
    have "take_bit 12 (unat perm) = unat perm"
      using assms(2) by (simp add: take_bit_nat_eq_self_iff word_le_nat_alt)
    then have "take_bit 12 perm = perm"
      by (metis unsigned_take_bit_eq word_unat_eq_iff)
    then show ?thesis
      by (simp add: take_bit_eq_mask mask_eq_exp_minus_1)
  qed
  have "perm AND PTE_PAMASK = (perm AND 0xFFF) AND PTE_PAMASK"
    by (simp only: low)
  also have "\<dots> = 0"
    by (simp add: and.assoc)
  finally show "(pa OR perm) AND PTE_PAMASK = pa"
    using assms(1) by (simp add: bit.conj_disj_distrib2)
  have pa0: "pa AND x = 0" if "PTE_PAMASK AND x = 0" for x
  proof -
    have "pa AND x = (pa AND PTE_PAMASK) AND x"
      by (simp only: assms(1))
    also have "\<dots> = 0"
      using that by (simp only: and.assoc bit.conj_zero_right)
    finally show ?thesis .
  qed
  show "(pa OR perm) AND 0xFFF = perm"
    using pa0 [of "0xFFF"] low by (simp add: bit.conj_disj_distrib2)
  show "(pa OR perm) AND PTE_P \<noteq> 0"
    using pa0 [of 1] assms(3) by (simp add: bit.conj_disj_distrib2)
  have "perm AND 1 = 1"
    using assms(3) by (simp add: and_one_eq mod2_eq_if split: if_splits)
  then show "perm AND - (perm AND PTE_P) = perm"
    by simp
  have "perm AND NOT 0xFFF = (perm AND 0xFFF) AND NOT 0xFFF"
    by (simp only: low)
  also have "\<dots> = 0"
    by (simp only: and.assoc bit.conj_cancel_right bit.conj_zero_right)
  finally show "perm AND NOT 0xFFF AND (PTE_P OR PTE_W OR PTE_U) = 0"
    by (simp only: and.assoc [symmetric] bit.conj_zero_left)
  show "pa \<noteq> - 1"
    using pa0 [of 1] by auto
qed

lemma try_map_positioned:
  assumes inv: "pt_inv k (vm_pt it) s" and pos: "positioned (km s) it p i q t"
    and absent: "vm_level it > 0 \<Longrightarrow> ent (km s) t i AND PTE_P = 0"
    and mem: "MEMSIZE_PHYSICAL k \<le> 2 ^ 32" "PAGESIZE dvd MEMSIZE_PHYSICAL k"
    and va: "unat (vm_va it) mod PAGESIZE = 0"
    and pa: "pa AND PTE_PAMASK = pa" "pa < 0x100000000" and perm: "perm \<le> 0xFFF" "perm AND PTE_P \<noteq> 0"
  shows "\<exists>r it' s'. try_map k it pa perm s = Some (Done (r, it', s')) \<and> pt_inv k (vm_pt it) s' \<and>
    (r = 0 \<or> r = - 1 \<and> kalloc k PAGESIZE s' = (None, s')) \<and> keeps k (vm_pt it) s s' \<and>
    card (free_pages k s) \<le> card (free_pages k s') + vm_level it \<and>
    (r = 0 \<longrightarrow> vm_pt it' = vm_pt it \<and> vm_va it' = vm_va it \<and> (\<exists>p i t. positioned (km s') it' p i [] t)) \<and>
    (\<forall>q. idxs q \<and> length q = 4 \<longrightarrow> mapping (km s') (vm_pt it) q =
      (if r = 0 \<and> q = vpath (vm_va it) then Some (pa, perm, 0) else mapping (km s) (vm_pt it) q))"
proof -
  note P = page_and_perm [OF pa(1) perm]
  obtain ok it' s' where loop: "map_loop k it s = Some (Done (ok, it', s'))" "pt_inv k (vm_pt it) s'"
    "vm_pt it' = vm_pt it" "vm_va it' = vm_va it" "keeps k (vm_pt it) s s'"
    "card (free_pages k s) \<le> card (free_pages k s') + vm_level it"
    and same: "\<forall>r. idxs r \<and> length r = 4 \<longrightarrow> mapping (km s') (vm_pt it) r = mapping (km s) (vm_pt it) r"
    and ok: "if ok then vm_level it' = 0 \<and> (\<exists>p i q t. positioned (km s') it' p i q t) else kalloc k PAGESIZE s' = (None, s')"
    using map_loop_correct [OF inv pos absent mem] by blast
  have "vm_perm it = 0xFFF"
    using pos by (simp add: positioned_def)
  moreover have "perm \<noteq> 0"
    using perm(2) by auto
  ultimately have tm: "try_map k it pa perm s =
      Some (if \<not> ok then Done (- 1, it', s')
        else if vm_level it' = 0
        then (case vm_pep it' of None \<Rightarrow> Undef | Some a \<Rightarrow> Done (0, it', s'\<lparr>km := write64 (km s') a (pa OR perm)\<rparr>))
        else Done (0, it', s'))"
    using va pa(1) perm(2) P(5,6) loop(1) by (simp add: try_map_def)
  show ?thesis
  proof (cases ok)
    case False
    then show ?thesis
      using tm ok loop(2,5,6) same by auto
  next
    case True
    then obtain p i t where pos': "positioned (km s') it' p i [] t" "vm_level it' = 0"
      using ok by (auto simp: positioned_def)
    then have leaf: "vm_pep it' = Some (t + 8 * i)" "table_at (km s') (vm_pt it) p t" "vpath (vm_va it) = p @ [i]"
      using loop(3,4) by (auto simp: positioned_def)
    then have i: "length p = 3" "i < 512"
      using vpath_nth [of "vm_va it" p i "[]"] by simp_all
    have e: "(pa OR perm) AND PTE_PAMASK < 0x100000000"
      using P(1) pa(2) by simp
    let ?s = "s'\<lparr>km := write64 (km s') (t + 8 * i) (pa OR perm)\<rparr>"
    note tables = table_at_leaf [OF loop(2) leaf(2) i]
    have "keeps k (vm_pt it) s ?s"
      by (rule keeps_trans [OF loop(5) keeps_write [OF loop(2) leaf(2) i(2) _ refl]]) (simp add: tables)
    moreover have "free_pages k ?s = free_pages k s'"
      by (simp add: free_pages_def free_page_def)
    moreover have "positioned (km ?s) it' p i [] t"
      using pos'(1) loop(3) by (simp add: positioned_def tables)
    moreover have "mapping (km ?s) (vm_pt it) q =
        (if q = vpath (vm_va it) then Some (pa, perm, 0) else mapping (km s) (vm_pt it) q)"
      if "idxs q \<and> length q = 4" for q
      using mapping_leaf [OF loop(2) leaf(2) i e, of q] that same P(1-3) leaf(3) by simp
    moreover have "try_map k it pa perm s = Some (Done (0, it', ?s))"
      using tm True pos'(2) leaf(1) by simp
    ultimately show ?thesis
      using pt_inv_leaf [OF loop(2) leaf(2) i e] loop(3,4,6)
      by (intro exI [of _ 0] exI [of _ it'] exI [of _ ?s]) auto
  qed
qed

lemma empty_table_at:
  assumes "\<forall>i<512. ent m pt i = 0"
  shows "table_at m pt p t \<longleftrightarrow> p = [] \<and> t = pt"
  using assms by (cases p) (auto simp: table_at_def)

lemma empty_table_inv:
  assumes "\<forall>i<512. ent (km s) pt i = 0" "PAGESIZE dvd pt" "pt + PAGESIZE \<le> MEMSIZE_PHYSICAL k" "\<not> free_page k s pt"
  shows "pt_inv k pt s"
  using assms by (simp add: pt_inv_def empty_table_at)

text \<open>
  C23. \<^verbatim>\<open>vmiter(pt, va).try_map(pa, perm)\<close> keeps its contract.  On a page table that satisfies the invariant, with an
  aligned address that no large page covers, an aligned physical page and present permissions, the constructor and the call
  both return: 0, or -1 and then \<^verbatim>\<open>kalloc\<close> has no page left.  The invariant holds again, and for every canonical address
  the pair of \<^verbatim>\<open>pa()\<close> and \<^verbatim>\<open>perm()\<close> is the new page with the new permissions if the call returned 0 and the address is on
  the page of \<^verbatim>\<open>va\<close>, and what it was before otherwise.
\<close>

theorem try_map_contract:
  assumes inv: "pt_inv k pt s" and mem: "MEMSIZE_PHYSICAL k \<le> 2 ^ 32" "PAGESIZE dvd MEMSIZE_PHYSICAL k"
    and va: "va_is_canonical va" "unat va mod PAGESIZE = 0"
    and large: "\<forall>pa' perm' l. mapping (km s) pt (vpath va) = Some (pa', perm', l) \<longrightarrow> l = 0"
    and pa: "pa AND PTE_PAMASK = pa" "pa < 0x100000000" and perm: "perm \<le> 0xFFF" "perm AND PTE_P \<noteq> 0"
  shows "\<exists>it r it' s'. vmiter_new (km s) pt va = Done it \<and> try_map k it pa perm s = Some (Done (r, it', s')) \<and>
    pt_inv k pt s' \<and> (r = 0 \<or> r = - 1 \<and> kalloc k PAGESIZE s' = (None, s')) \<and>
    (\<forall>va'. va_is_canonical va' \<longrightarrow> lookup_va (km s') pt va' =
      (if r = 0 \<and> drop_bit 12 va' = drop_bit 12 va then Done (pa + (va' AND 0xFFF), perm) else lookup_va (km s) pt va'))"
proof -
  obtain it p i q t where it: "vmiter_new (km s) pt va = Done it" "vm_pt it = pt" "vm_va it = va"
    and pos: "positioned (km s) it p i q t"
    using vmiter_new_positioned [OF inv va(1)] by blast
  have inv': "pt_inv k (vm_pt it) s"
    using inv it(2) by simp
  have absent: "ent (km s) t i AND PTE_P = 0" if "vm_level it > 0"
    using large that positioned_walk [OF inv' pos] it(2,3) by (auto simp: mapping_def split: if_splits)
  obtain r it' s' where r: "try_map k it pa perm s = Some (Done (r, it', s'))" "pt_inv k pt s'"
    "r = 0 \<or> r = - 1 \<and> kalloc k PAGESIZE s' = (None, s')"
    and maps: "\<forall>q. idxs q \<and> length q = 4 \<longrightarrow> mapping (km s') pt q =
      (if r = 0 \<and> q = vpath va then Some (pa, perm, 0) else mapping (km s) pt q)"
    using try_map_positioned [OF inv' pos absent mem _ pa perm] va(2) unfolding it(2,3) by blast
  have "lookup_va (km s') pt va' =
      (if r = 0 \<and> drop_bit 12 va' = drop_bit 12 va then Done (pa + (va' AND 0xFFF), perm) else lookup_va (km s) pt va')"
    if c: "va_is_canonical va'" for va'
    using maps [rule_format, of "vpath va'"] vpath_eq [OF c va(1)] page_and_perm(4) [OF pa(1) perm]
    by (simp add: lookup_translate [OF r(2) c] lookup_translate [OF inv c] idxs_vpath translate_def pageoffmask_def)
  then show ?thesis
    using it(1) r by auto
qed

definition sample_conf :: kconf where
  "sample_conf = \<lparr>KERNEL_START_ADDR = 0x40000, kernel_end = 0x60000, KERNEL_STACK_TOP = 0x80000, MEMSIZE_PHYSICAL = 0x200000,
     PROC_START_ADDR = 0x100000, NPROC = 16, kernel_pagetable = 0x50000, exception_entry = 0x40ac6,
     SEGSEL_APP_CODE = 0x18, SEGSEL_APP_DATA = 0x20, PROCINIT_ALLOW_PROGRAMMED_IO = 1, PROCINIT_DISABLE_INTERRUPTS = 2,
     INT_TIMER = 32, ELF_PTYPE_LOAD = 1\<rparr>"

definition sample_kmem :: kmem where
  "sample_kmem = \<lparr>km = (\<lambda>_. NUL), refcount = (\<lambda>p. if p = 1 then 1 else 0)\<rparr>"

lemma sample_ent: "ent (km sample_kmem) t i = 0"
  by (simp add: sample_kmem_def ent_def read64_def numeral_eq_Suc)

lemma sample_kmem_inv: "pt_inv sample_conf 0x1000 sample_kmem"
proof (rule empty_table_inv)
  show "\<forall>i<512. ent (km sample_kmem) 0x1000 i = 0"
    by (simp add: sample_ent)
qed (simp_all add: sample_conf_def sample_kmem_def free_page_def)

lemma sample_unmapped: "mapping (km sample_kmem) 0x1000 q = None"
proof -
  have "fst (walk (km sample_kmem) 0x1000 q 0xFFF) = 0"
    by (cases q; cases "tl q") (auto simp: sample_ent)
  then show ?thesis
    by (simp add: mapping_def split_beta)
qed

text \<open>Witness: a page for the address \<^verbatim>\<open>0x100000\<close> of an empty page table.\<close>

theorem try_map_contract_witness:
  "\<exists>it r it' s'. vmiter_new (km sample_kmem) 0x1000 0x100000 = Done it \<and>
    try_map sample_conf it 0x100000 7 sample_kmem = Some (Done (r, it', s')) \<and>
    pt_inv sample_conf 0x1000 s' \<and> (r = 0 \<or> r = - 1 \<and> kalloc sample_conf PAGESIZE s' = (None, s')) \<and>
    (\<forall>va'. va_is_canonical va' \<longrightarrow> lookup_va (km s') 0x1000 va' =
      (if r = 0 \<and> drop_bit 12 va' = drop_bit 12 (0x100000 :: ulong) then Done (0x100000 + (va' AND 0xFFF), 7)
       else lookup_va (km sample_kmem) 0x1000 va'))"
  by (rule try_map_contract [OF sample_kmem_inv])
    (simp_all add: sample_unmapped, simp_all add: sample_conf_def va_is_canonical_def)

end
