(* ===== verification/Vm_Walk.thy ===== *)
theory Vm_Walk
  imports Vm_Tree
begin

text \<open>
  Iterators that move (\<^verbatim>\<open>vmiter::real_find\<close>, \<^verbatim>\<open>next\<close>, \<^verbatim>\<open>find\<close>) and page tables that share the memory: where an iterator
  stands after a move, and that work on one page table leaves another one alone.
\<close>

unbundle bit_operations_syntax

section \<open>Two page tables\<close>

definition apart :: "nat \<Rightarrow> nat \<Rightarrow> kmem \<Rightarrow> bool" where
  "apart pt pt' s \<longleftrightarrow> (\<forall>p q t. \<not> (table_at (km s) pt p t \<and> table_at (km s) pt' q t))"

text \<open>The tables of a page table keep their contents and stay in use.\<close>

definition untouched :: "kconf \<Rightarrow> nat \<Rightarrow> kmem \<Rightarrow> kmem \<Rightarrow> bool" where
  "untouched k pt s s' \<longleftrightarrow>
     (\<forall>p t. table_at (km s) pt p t \<longrightarrow> \<not> free_page k s' t \<and> (\<forall>x. t \<le> x \<and> x < t + PAGESIZE \<longrightarrow> km s' x = km s x))"

lemma untouched_ent:
  assumes "untouched k pt s s'" "table_at (km s) pt p t" "i < 512"
  shows "ent (km s') t i = ent (km s) t i"
  unfolding ent_def by (rule read64_cong) (use assms in \<open>auto simp: untouched_def\<close>)

lemma untouched_tabs:
  assumes "untouched k pt s s'" "idxs q" "length q \<le> 3"
  shows "tabs (km s') pt q = tabs (km s) pt q"
  using assms(2,3)
proof (induction q rule: rev_induct)
  case (snoc j q)
  show ?case
  proof (cases "tabs (km s) pt q")
    case (Some u)
    then have "table_at (km s) pt q u" "j < 512"
      using snoc.prems by (simp_all add: table_at_def)
    then show ?thesis
      using untouched_ent [OF assms(1)] snoc Some by (simp add: tabs_snoc)
  qed (use snoc in \<open>simp add: tabs_snoc\<close>)
qed simp

lemma untouched_table_at:
  assumes "untouched k pt s s'"
  shows "table_at (km s') pt q t = table_at (km s) pt q t"
  using untouched_tabs [OF assms, of q] by (auto simp: table_at_def)

lemma untouched_pt_inv:
  assumes un: "untouched k pt s s'" and inv: "pt_inv k pt s"
  shows "pt_inv k pt s'"
  unfolding pt_inv_def untouched_table_at [OF un]
proof (intro allI impI)
  fix p t
  assume t: "table_at (km s) pt p t"
  note D = pt_invD [OF inv t]
  have "\<not> free_page k s' t"
    using un t unfolding untouched_def by blast
  then show "PAGESIZE dvd t \<and> t + PAGESIZE \<le> MEMSIZE_PHYSICAL k \<and> \<not> free_page k s' t \<and>
    (\<forall>q. table_at (km s) pt q t \<longrightarrow> q = p) \<and>
    (\<forall>i<512. ent (km s') t i AND PTE_PAMASK < 0x100000000 \<and>
      (length p < 3 \<and> subtable (ent (km s') t i) \<noteq> None \<longrightarrow> ent (km s') t i AND 7 = 7))"
    using D(1-3,5,6) untouched_ent [OF un t] by (simp add: D(4))
qed

lemma untouched_mapping:
  assumes un: "untouched k pt s s'" and q: "idxs q" "length q = 4"
  shows "mapping (km s') pt q = mapping (km s) pt q"
proof (rule mapping_cong)
  fix r j r' u
  assume "q = r @ j # r'" "tabs (km s) pt r = Some u"
  then have "table_at (km s) pt r u" "j < 512"
    using q by (auto simp: table_at_def)
  then show "ent (km s') u j = ent (km s) u j"
    by (rule untouched_ent [OF un])
qed

lemma keeps_untouched:
  assumes inv: "pt_inv k pt' s" and ap: "apart pt pt' s" and keep: "keeps k pt s s'"
  shows "untouched k pt' s s'" "table_at (km s) pt' p t \<Longrightarrow> \<not> table_at (km s') pt q t"
proof -
  have t: "PAGESIZE dvd t \<and> t \<notin> free_pages k s \<and> (\<forall>p. \<not> table_at (km s) pt p t)" if "table_at (km s) pt' p t" for p t
    using pt_invD(1,3) [OF inv that] ap that by (auto simp: free_pages_def apart_def)
  have k1: "(\<forall>p. \<not> table_at (km s') pt p t) \<and> (\<forall>x. t \<le> x \<and> x < t + PAGESIZE \<longrightarrow> km s' x = km s x)"
    if "table_at (km s) pt' p t" for p t
    using keep t [OF that] unfolding keeps_def by blast
  have k2: "\<not> free_page k s' t" if "table_at (km s) pt' p t" for p t
    using keep t [OF that] unfolding keeps_def by (auto simp: free_pages_def)
  show "untouched k pt' s s'"
    using k1 k2 unfolding untouched_def by blast
  show "table_at (km s) pt' p t \<Longrightarrow> \<not> table_at (km s') pt q t"
    using k1 by blast
qed

lemma keeps_table_at:
  assumes "pt_inv k pt' s" "apart pt pt' s" "keeps k pt s s'"
  shows "table_at (km s') pt' q t = table_at (km s) pt' q t"
  by (rule untouched_table_at [OF keeps_untouched(1) [OF assms]])

lemma keeps_other:
  assumes "pt_inv k pt' s" "apart pt pt' s" "keeps k pt s s'"
  shows "pt_inv k pt' s'" "apart pt pt' s'" "idxs q \<Longrightarrow> length q = 4 \<Longrightarrow> mapping (km s') pt' q = mapping (km s) pt' q"
proof -
  note un = keeps_untouched(1) [OF assms]
  show "pt_inv k pt' s'" "idxs q \<Longrightarrow> length q = 4 \<Longrightarrow> mapping (km s') pt' q = mapping (km s) pt' q"
    by (rule untouched_pt_inv [OF un assms(1)], rule untouched_mapping [OF un])
  show "apart pt pt' s'"
    using keeps_untouched(2) [OF assms] unfolding apart_def untouched_table_at [OF un] by blast
qed

lemma keeps_positioned:
  assumes "pt_inv k (vm_pt it) s" "apart pt (vm_pt it) s" "keeps k pt s s'" "positioned (km s) it p i q t"
  shows "positioned (km s') it p i q t"
proof -
  have "table_at (km s) (vm_pt it) p t" "i < 512"
    using assms(4) vpath_nth(2) by (auto simp: positioned_def)
  then show ?thesis
    using assms(4) untouched_ent [OF keeps_untouched(1) [OF assms(1-3)]] keeps_table_at [OF assms(1-3)] by (simp add: positioned_def)
qed

section \<open>Moves\<close>

lemma pageoffmask_mask: "pageoffmask l = mask (12 + l * 9)"
  by (simp add: pageoffmask_def mask_eq_exp_minus_1 push_bit_eq_mult)

lemma same_region:
  assumes "(va XOR va') AND NOT (pageoffmask l) = 0" "j \<ge> l"
  shows "pageindex va j = pageindex va' j"
proof -
  have "bit va n = bit va' n" if n: "12 + l * 9 \<le> n" "n < 64" for n
  proof -
    have "\<not> bit ((va XOR va') AND NOT (pageoffmask l)) n"
      by (simp add: assms(1))
    then show ?thesis
      using n by (auto simp: pageoffmask_mask bit_and_iff bit_xor_iff bit_not_iff bit_mask_iff)
  qed
  moreover have "bit va n = bit va' n" if "64 \<le> n" for n
    using that bit_imp_le_length [of va n] bit_imp_le_length [of va' n] by auto
  ultimately have "bit va n = bit va' n" if "12 + l * 9 \<le> n" for n
    using that by (cases "n < 64") auto
  moreover have "l * 9 \<le> j * 9"
    using assms(2) by simp
  ultimately show ?thesis
    by (simp add: pageindex_bits)
qed

lemma vpath_split:
  assumes "vpath va = p @ i # q" "\<forall>j. length q < j \<longrightarrow> pageindex va' j = pageindex va j"
  shows "\<exists>q'. vpath va' = p @ pageindex va' (length q) # q' \<and> length q' = length q"
proof -
  have len: "length p + length q = 3"
    by (rule vpath_nth(3) [OF assms(1)])
  have at: "vpath v ! j = pageindex v (3 - j)" if "j < 4" for v j
    using that by (auto simp: vpath_def less_Suc_eq numeral_eq_Suc)
  have "take (length p) (vpath va') = take (length p) (vpath va)"
    by (rule nth_equalityI) (use len at assms(2) in auto)
  then have "take (length p) (vpath va') = p"
    using assms(1) by simp
  moreover have "drop (length p) (vpath va') = pageindex va' (length q) # drop (Suc (length p)) (vpath va')"
  proof -
    have "length p < 4" "3 - length p = length q"
      using len by simp_all
    then show ?thesis
      using Cons_nth_drop_Suc [of "length p" "vpath va'"] at [of "length p" va'] by simp
  qed
  ultimately have "vpath va' = p @ pageindex va' (length q) # drop (Suc (length p)) (vpath va')"
    by (metis append_take_drop_id)
  then show ?thesis
    using len by (intro exI [of _ "drop (Suc (length p)) (vpath va')"]) simp
qed

lemma real_find_positioned:
  assumes inv: "pt_inv k (vm_pt it) s" and pos: "positioned (km s) it p i q t" and va: "va_is_canonical va"
  shows "\<exists>it' p i q t. real_find (km s) it va = Done it' \<and> vm_pt it' = vm_pt it \<and> vm_va it' = va \<and>
    positioned (km s) it' p i q t"
proof -
  have it: "vpath (vm_va it) = p @ i # q" "table_at (km s) (vm_pt it) p t" "vm_pep it = Some (t + 8 * i)"
    "vm_level it = length q" "vm_perm it = 0xFFF"
    using pos by (simp_all add: positioned_def)
  show ?thesis
  proof (cases "vm_level it = 3 \<or> (vm_va it XOR va) AND NOT (pageoffmask (vm_level it + 1)) \<noteq> 0")
    case True
    then have "real_find (km s) it va =
        down (km s) (it\<lparr>vm_level := 3, vm_perm := 0xFFF, vm_pep := Some (vm_pt it + 8 * pageindex va 3), vm_va := va\<rparr>)"
      using va by (auto simp: real_find_def)
    then show ?thesis
      using down_positioned [of k "it\<lparr>vm_level := 3, vm_perm := 0xFFF, vm_pep := Some (vm_pt it + 8 * pageindex va 3), vm_va := va\<rparr>"
          s "[]" "vm_pt it" "vpath va"] inv
      by (simp add: table_at_def vpath_def)
  next
    case False
    have "\<forall>j. length q < j \<longrightarrow> pageindex va j = pageindex (vm_va it) j"
      using same_region [of "vm_va it" va "length q + 1"] False it(4) by auto
    then obtain q' where q': "vpath va = p @ pageindex va (length q) # q'" "length q' = length q"
      using vpath_split [OF it(1)] by blast
    have "(t + 8 * i) mod PAGESIZE = 8 * i"
      using pt_invD(1) [OF inv it(2)] vpath_nth(2) [OF it(1)] by (auto elim!: dvdE)
    then have "real_find (km s) it va =
        down (km s) (it\<lparr>vm_pep := Some (t + 8 * pageindex va (length q)), vm_va := va\<rparr>)"
      using False it(3,4) by (auto simp: real_find_def)
    then show ?thesis
      using down_positioned [of k "it\<lparr>vm_pep := Some (t + 8 * pageindex va (length q)), vm_va := va\<rparr>"
          s p t "pageindex va (length q) # q'"] inv it(2,4,5) q'
      by simp
  qed
qed

lemma positioned_unique:
  assumes inv: "pt_inv k (vm_pt it) s" and pos: "positioned (km s) it p i q t" "positioned (km s) it' p' i' q' t'"
    and same: "vm_pt it' = vm_pt it" "vm_va it' = vm_va it"
  shows "it' = it"
proof -
  have it: "vpath (vm_va it) = p @ i # q" "table_at (km s) (vm_pt it) p t" "vm_pep it = Some (t + 8 * i)"
    "vm_level it = length q" "vm_perm it = 0xFFF"
    using pos(1) by (simp_all add: positioned_def)
  have it': "vpath (vm_va it) = p' @ i' # q'" "table_at (km s) (vm_pt it) p' t'" "vm_pep it' = Some (t' + 8 * i')"
    "vm_level it' = length q'" "vm_perm it' = 0xFFF"
    using pos(2) same by (simp_all add: positioned_def)
  have "vm_level it' = vm_level it"
    using positioned_walk [OF inv pos(1)] positioned_walk [of k it' s, OF _ pos(2)] inv same by simp
  then have "p = p' \<and> i = i' \<and> q = q'"
    using it(1,4) it'(1,4) by simp
  moreover from this have "t = t'"
    using it(2) it'(2) by (simp add: table_at_def)
  ultimately show ?thesis
    using it(3-5) it'(3-5) same by (intro vmiter.equality) simp_all
qed

text \<open>
  C35. A \<^verbatim>\<open>vmiter\<close> that is moved is a new one: on a page table that satisfies the invariant, \<^verbatim>\<open>find(va)\<close> on an iterator
  made for any canonical address, which may reuse the position in its table instead of walking from the root, gives the
  same iterator as \<^verbatim>\<open>vmiter(pt, va)\<close>.
\<close>

theorem vm_find_is_new:
  assumes inv: "pt_inv k pt s" and va: "va_is_canonical va0" "va_is_canonical va"
    and it: "vmiter_new (km s) pt va0 = Done it"
  shows "vm_find (km s) it va = vmiter_new (km s) pt va"
proof -
  obtain p i q t where it0: "vm_pt it = pt" "vm_va it = va0" "positioned (km s) it p i q t"
    using vmiter_new_positioned [OF inv va(1)] it by auto
  obtain it2 p2 i2 q2 t2 where it2: "vmiter_new (km s) pt va = Done it2" "vm_pt it2 = pt" "vm_va it2 = va"
    "positioned (km s) it2 p2 i2 q2 t2"
    using vmiter_new_positioned [OF inv va(2)] by blast
  show ?thesis
  proof (cases "va = va0")
    case True
    then show ?thesis
      using it it0 by (simp add: vm_find_def)
  next
    case False
    have "pt_inv k (vm_pt it) s"
      using inv it0(1) by simp
    then obtain it1 p1 i1 q1 t1 where it1: "real_find (km s) it va = Done it1" "vm_pt it1 = pt" "vm_va it1 = va"
      "positioned (km s) it1 p1 i1 q1 t1"
      using real_find_positioned [of k it s p i q t va] it0 va(2) by auto
    then have "it1 = it2"
      using positioned_unique [of k it2 s p2 i2 q2 t2 it1 p1 i1 q1 t1] it2 inv by simp
    then show ?thesis
      using False it0(2) it1(1) it2(1) by (simp add: vm_find_def)
  qed
qed

text \<open>Witness: from \<^verbatim>\<open>0x1000\<close> to \<^verbatim>\<open>0x2000\<close>.\<close>

theorem vm_find_is_new_witness:
  "vm_find (km sample_kmem)
     \<lparr>vm_pt = 0x1000, vm_pep = Some 0x1000, vm_level = 3, vm_perm = 0xFFF, vm_va = 0x1000\<rparr> 0x2000 =
   vmiter_new (km sample_kmem) 0x1000 0x2000"
proof (rule vm_find_is_new [OF sample_kmem_inv])
  show "vmiter_new (km sample_kmem) 0x1000 0x1000 =
      Done \<lparr>vm_pt = 0x1000, vm_pep = Some 0x1000, vm_level = 3, vm_perm = 0xFFF, vm_va = 0x1000\<rparr>"
    using sample_ent [of "0x1000" 0]
    by (simp add: vmiter_new_def real_find_def down_def va_is_canonical_def pageindex_def pe_def ent_def numeral_3_eq_3)
qed (simp_all add: va_is_canonical_def)

end
