(* ===== verification/Keyboard.thy ===== *)
theory Keyboard
  imports Vm_Map
begin

text \<open>
  The keyboard of the Lab 4 kernel (\<^verbatim>\<open>k-hardware.cc\<close>): \<^verbatim>\<open>keyboard_readc\<close>, which turns scan codes into characters, and
  \<^verbatim>\<open>check_keyboard\<close>, which reboots or powers off on some of them.  What the controller has to say at a poll is an
  argument: nothing, or a byte.  The codes of the special keys come from \<^verbatim>\<open>kernel.hh\<close>, which is not in the repository;
  they are a record of parameters.
\<close>

unbundle bit_operations_syntax

type_synonym uchar = "8 word"

record keyconf =
  KEY_UP :: uchar
  KEY_RIGHT :: uchar
  KEY_DOWN :: uchar
  KEY_LEFT :: uchar
  KEY_HOME :: uchar
  KEY_END :: uchar
  KEY_PAGEUP :: uchar
  KEY_PAGEDOWN :: uchar
  KEY_INSERT :: uchar
  KEY_DELETE :: uchar

abbreviation MOD_SHIFT :: uchar where "MOD_SHIFT \<equiv> 1"
abbreviation MOD_CONTROL :: uchar where "MOD_CONTROL \<equiv> 2"
abbreviation MOD_CAPSLOCK :: uchar where "MOD_CAPSLOCK \<equiv> 8"
abbreviation KEY_SHIFT :: uchar where "KEY_SHIFT \<equiv> 0xFA"
abbreviation KEY_CONTROL :: uchar where "KEY_CONTROL \<equiv> 0xFB"
abbreviation KEY_ALT :: uchar where "KEY_ALT \<equiv> 0xFC"
abbreviation KEY_CAPSLOCK :: uchar where "KEY_CAPSLOCK \<equiv> 0xFD"
abbreviation KEY_NUMLOCK :: uchar where "KEY_NUMLOCK \<equiv> 0xFE"
abbreviation KEY_SCROLLLOCK :: uchar where "KEY_SCROLLLOCK \<equiv> 0xFF"

definition CKEY :: "nat \<Rightarrow> uchar" where
  "CKEY cn = 0x80 + of_nat cn"

definition chr :: "char \<Rightarrow> uchar" where
  "chr c = of_char c"

text \<open>\<^verbatim>\<open>keymap\<close>; the entries that are not given are 0.\<close>

definition keymap_rows :: "keyconf \<Rightarrow> uchar list" where
  "keymap_rows k =
     [0, 0x1B, CKEY 0, CKEY 1, CKEY 2, CKEY 3, CKEY 4, CKEY 5,
      CKEY 6, CKEY 7, CKEY 8, CKEY 9, CKEY 10, CKEY 11, 8, 9] @
     map chr ''qwertyui'' @ map chr ''op'' @ [CKEY 12, CKEY 13, CKEY 14, KEY_CONTROL] @ map chr ''as'' @
     map chr ''dfghjkl'' @ [CKEY 15] @
     [CKEY 16, CKEY 17, KEY_SHIFT, CKEY 18] @ map chr ''zxcv'' @
     map chr ''bnm'' @ [CKEY 19, CKEY 20, CKEY 21, KEY_SHIFT, chr (CHR ''*'')] @
     [KEY_ALT, chr (CHR '' ''), KEY_CAPSLOCK, 0, 0, 0, 0, 0] @
     [0, 0, 0, 0, 0, KEY_NUMLOCK, KEY_SCROLLLOCK, chr (CHR ''7'')] @
     map chr ''89-456+1'' @
     map chr ''230.'' @ replicate 12 0 @
     replicate 48 0 @
     replicate 12 0 @ [CKEY 14, KEY_CONTROL, 0, 0] @
     replicate 16 0 @
     replicate 5 0 @ [chr (CHR ''/''), 0, 0, KEY_ALT, 0, 0, 0, 0, 0, 0, 0] @
     replicate 7 0 @ [KEY_HOME k, KEY_UP k, KEY_PAGEUP k, 0, KEY_LEFT k, 0, KEY_RIGHT k, 0, KEY_END k] @
     [KEY_DOWN k, KEY_PAGEDOWN k, KEY_INSERT k, KEY_DELETE k] @ replicate 12 0 @
     replicate 32 0"

definition keymap :: "keyconf \<Rightarrow> uchar \<Rightarrow> uchar" where
  "keymap k i = keymap_rows k ! unat i"

definition complex_keymap :: "(uchar \<times> uchar \<times> uchar \<times> uchar) list" where
  "complex_keymap =
     [(chr (CHR ''1''), chr (CHR ''!''), 0, 0), (chr (CHR ''2''), chr (CHR ''@''), 0, 0),
      (chr (CHR ''3''), chr (CHR ''#''), 0, 0), (chr (CHR ''4''), chr (CHR ''$''), 0, 0),
      (chr (CHR ''5''), chr (CHR ''%''), 0, 0), (chr (CHR ''6''), chr (CHR ''^''), 0, 0x1E),
      (chr (CHR ''7''), chr (CHR ''&''), 0, 0), (chr (CHR ''8''), chr (CHR ''*''), 0, 0),
      (chr (CHR ''9''), chr (CHR ''(''), 0, 0), (chr (CHR ''0''), chr (CHR '')''), 0, 0),
      (chr (CHR ''-''), chr (CHR ''_''), 0, 0x1F), (chr (CHR ''=''), chr (CHR ''+''), 0, 0),
      (chr (CHR ''[''), chr (CHR ''{''), 0x1B, 0), (chr (CHR '']''), chr (CHR ''}''), 0x1D, 0),
      (10, 10, 13, 13),
      (chr (CHR '';''), chr (CHR '':''), 0, 0),
      (chr (CHR 0x27), chr (CHR 0x22), 0, 0), (chr (CHR 0x60), chr (CHR ''~''), 0, 0),
      (chr (CHR 0x5C), chr (CHR ''|''), 0x1C, 0), (chr (CHR '',''), chr (CHR ''<''), 0, 0),
      (chr (CHR ''.''), chr (CHR ''>''), 0, 0), (chr (CHR ''/''), chr (CHR ''?''), 0, 0)]"

definition key_map :: "uchar \<times> uchar \<times> uchar \<times> uchar \<Rightarrow> uchar \<Rightarrow> uchar" where
  "key_map m i = (let (a, b, c, d) = m in if i = 0 then a else if i = 1 then b else if i = 2 then c else d)"

record kbstate =
  modifiers :: uchar
  last_escape :: uchar

text \<open>The switch on a pressed key, after \<^verbatim>\<open>keymap\<close>.\<close>

definition key_press :: "uchar \<Rightarrow> uchar \<Rightarrow> uchar \<times> uchar" where
  "key_press ch mods =
     (if ch \<ge> chr (CHR ''a'') \<and> ch \<le> chr (CHR ''z'')
      then if mods AND MOD_CONTROL \<noteq> 0 then (ch - 0x60, mods)
           else if (mods AND MOD_SHIFT = 0) \<noteq> (mods AND MOD_CAPSLOCK = 0) then (ch - 0x20, mods)
           else (ch, mods)
      else if ch \<ge> KEY_CAPSLOCK then (0, mods XOR push_bit (unat (ch - KEY_SHIFT)) 1)
      else if ch \<ge> KEY_SHIFT then (0, mods OR push_bit (unat (ch - KEY_SHIFT)) 1)
      else if ch \<ge> CKEY 0 \<and> ch \<le> CKEY 21 then (key_map (complex_keymap ! unat (ch - CKEY 0)) (mods AND 3), mods)
      else if ch < 0x80 \<and> mods AND MOD_CONTROL \<noteq> 0 then (0, mods)
      else (ch, mods))"

definition keyboard_readc :: "keyconf \<Rightarrow> uchar option \<Rightarrow> kbstate \<Rightarrow> int \<times> kbstate" where
  "keyboard_readc k inb s =
     (case inb of
        None \<Rightarrow> (- 1, s)
      | Some data \<Rightarrow>
          let escape = last_escape s; s = s\<lparr>last_escape := 0\<rparr>
          in if data = 0xE0 then (0, s\<lparr>last_escape := 0x80\<rparr>)
             else if data AND 0x80 \<noteq> 0
             then let ch = keymap k ((data AND 0x7F) OR escape)
                  in (0, if ch \<ge> KEY_SHIFT \<and> ch < KEY_CAPSLOCK
                         then s\<lparr>modifiers := modifiers s AND NOT (push_bit (unat (ch - KEY_SHIFT)) 1)\<rparr> else s)
             else let (ch, mods) = key_press (keymap k (data OR escape)) (modifiers s)
                  in (uint ch, s\<lparr>modifiers := mods\<rparr>))"

text \<open>
  \<^verbatim>\<open>check_keyboard\<close>: the key, or the kernel does not come back: it restarts with a command, or the machine is off.
\<close>

datatype key_action = Key int | Restart string | Poweroff

definition check_keyboard :: "keyconf \<Rightarrow> uchar option \<Rightarrow> kbstate \<Rightarrow> key_action \<times> kbstate" where
  "check_keyboard k inb s =
     (let (c, s) = keyboard_readc k inb s
      in if c = 97 \<or> c = 102 \<or> c = 101
         then (Restart (if c = 97 then ''allocators'' else if c = 101 then ''exit'' else ''fork''), s)
         else if c = 3 \<or> c = 113 then (Poweroff, s)
         else (Key c, s))"

lemma length_keymap: "length (keymap_rows k) = 256"
  by (simp add: keymap_rows_def)

text \<open>A key that is held: from its press until its release the modifier is set, whatever else happens to the others.\<close>

lemma keymap_shift [simp]: "keymap k 0x2A = KEY_SHIFT" "keymap k 0x36 = KEY_SHIFT"
  by (simp_all add: keymap_def keymap_rows_def)

lemma keymap_letter: "keymap k 0x1E = chr (CHR ''a'')" "keymap k 0x2E = chr (CHR ''c'')" "keymap k 0x10 = chr (CHR ''q'')"
  by (simp_all add: keymap_def keymap_rows_def)

end
