(* ===== verification/Kernel.thy ===== *)
theory Kernel
  imports Vm_Walk Keyboard
begin

text \<open>
  The Lab 4 kernel (\<^verbatim>\<open>kernel.cc\<close>) and what it uses of \<^verbatim>\<open>k-hardware.cc\<close>: the process table, program images,
  \<^verbatim>\<open>process_setup\<close>, \<^verbatim>\<open>kernel_start\<close>, the exception and system call handlers, the scheduler.  A handler ends in one of
  the ways of \<open>kexit\<close>: it returns to a process, returns a value to the process that called, panics, restarts the kernel or
  powers the machine off; \<open>None\<close> is a handler that spins for ever.  The output to the log and to the cursor registers is left
  out, and of the memory viewer only what it allocates and which process it shows is modelled.
\<close>

unbundle bit_operations_syntax

section \<open>State\<close>

datatype procstate = P_FREE | P_RUNNABLE | P_FAULTED

record regstate =
  reg_rax :: ulong
  reg_rcx :: ulong
  reg_rdx :: ulong
  reg_rbx :: ulong
  reg_rbp :: ulong
  reg_rsi :: ulong
  reg_rdi :: ulong
  reg_r8 :: ulong
  reg_r9 :: ulong
  reg_r10 :: ulong
  reg_r11 :: ulong
  reg_r12 :: ulong
  reg_r13 :: ulong
  reg_r14 :: ulong
  reg_r15 :: ulong
  reg_fs :: ulong
  reg_gs :: ulong
  reg_intno :: "32 word"
  reg_swapgs :: "32 word"
  reg_errcode :: ulong
  reg_rip :: ulong
  reg_cs :: ulong
  reg_rflags :: ulong
  reg_rsp :: ulong
  reg_ss :: ulong

text \<open>A process; its page table is 0 for \<^verbatim>\<open>nullptr\<close>.\<close>

record proc =
  pagetable :: nat
  pid :: nat
  pstate :: procstate
  regs :: regstate
  next_va :: nat

text \<open>
  The kernel: memory, process table, the current process, the timer ticks, the statics of \<^verbatim>\<open>memshow\<close> and of
  \<^verbatim>\<open>console_memviewer\<close>, the keyboard and the number of polls of it so far.
\<close>

record kernel =
  ks :: kmem
  ptable :: "proc list"
  current :: nat
  ticks :: ulong
  last_ticks :: "32 word"
  showing :: nat
  mu_v :: "nat option"
  kb :: kbstate
  polls :: nat

datatype kexit = Resume nat | Return ulong | Panic string | Reboot string | Off | Undefined

abbreviation PROC_SIZE :: nat where "PROC_SIZE \<equiv> 0x40000"

definition zero_regs :: regstate where
  "zero_regs =
     \<lparr>reg_rax = 0, reg_rcx = 0, reg_rdx = 0, reg_rbx = 0, reg_rbp = 0, reg_rsi = 0, reg_rdi = 0, reg_r8 = 0, reg_r9 = 0,
      reg_r10 = 0, reg_r11 = 0, reg_r12 = 0, reg_r13 = 0, reg_r14 = 0, reg_r15 = 0, reg_fs = 0, reg_gs = 0, reg_intno = 0,
      reg_swapgs = 0, reg_errcode = 0, reg_rip = 0, reg_cs = 0, reg_rflags = 0, reg_rsp = 0, reg_ss = 0\<rparr>"

definition init_process :: "kconf \<Rightarrow> proc \<Rightarrow> ulong \<Rightarrow> proc" where
  "init_process k p flags =
     (let r = zero_regs\<lparr>reg_cs := SEGSEL_APP_CODE k OR 3, reg_fs := SEGSEL_APP_DATA k OR 3,
                reg_gs := SEGSEL_APP_DATA k OR 3, reg_ss := SEGSEL_APP_DATA k OR 3, reg_rflags := 0x200\<rparr>;
          r = (if flags AND PROCINIT_ALLOW_PROGRAMMED_IO k \<noteq> 0 then r\<lparr>reg_rflags := reg_rflags r OR 0x3000\<rparr> else r);
          r = (if flags AND PROCINIT_DISABLE_INTERRUPTS k \<noteq> 0 then r\<lparr>reg_rflags := reg_rflags r AND NOT 0x200\<rparr> else r)
      in p\<lparr>regs := r\<rparr>)"

section \<open>Program images\<close>

text \<open>An image in memory: where it is, its entry point, its program headers; \<^verbatim>\<open>ramimages\<close> is generated by the build.\<close>

record elf_program =
  p_type :: nat
  p_flags :: nat
  p_offset :: nat
  p_va :: nat
  p_filesz :: nat
  p_memsz :: nat

record elf_header =
  elf_at :: nat
  e_magic_ok :: bool
  e_entry :: ulong
  e_ph :: "elf_program list"

type_synonym ramimages = "(string \<times> elf_header) list"

fun program_number_from :: "ramimages \<Rightarrow> nat \<Rightarrow> string \<Rightarrow> int" where
  "program_number_from [] i name = - 1"
| "program_number_from ((n, _) # rs) i name = (if n = name then int i else program_number_from rs (Suc i) name)"

definition program_number :: "ramimages \<Rightarrow> string \<Rightarrow> int" where
  "program_number ims name = program_number_from ims 0 name"

definition program_image :: "ramimages \<Rightarrow> string \<Rightarrow> elf_header option outcome" where
  "program_image ims name =
     (let n = program_number ims name
      in if n \<ge> 0 \<and> nat n < length ims
         then let elf = snd (ims ! nat n) in if e_magic_ok elf then Done (Some elf) else Abort
         else Done None)"

definition image_entry :: "elf_header option \<Rightarrow> ulong" where
  "image_entry im = (case im of None \<Rightarrow> 0 | Some elf \<Rightarrow> e_entry elf)"

definition image_empty :: "elf_header option \<Rightarrow> bool" where
  "image_empty im = (case im of None \<Rightarrow> True | Some elf \<Rightarrow> e_ph elf = [])"

text \<open>A segment iterator is the headers from \<^verbatim>\<open>ph_\<close> to the end.\<close>

fun seg_fix :: "kconf \<Rightarrow> elf_program list \<Rightarrow> elf_program list" where
  "seg_fix k [] = []"
| "seg_fix k (ph # phs) = (if p_type ph \<noteq> ELF_PTYPE_LOAD k then seg_fix k phs else ph # phs)"

definition image_begin :: "kconf \<Rightarrow> elf_header option \<Rightarrow> elf_program list" where
  "image_begin k im = (case im of None \<Rightarrow> [] | Some elf \<Rightarrow> seg_fix k (e_ph elf))"

definition seg_next :: "kconf \<Rightarrow> elf_program list \<Rightarrow> elf_program list outcome" where
  "seg_next k seg = (case seg of [] \<Rightarrow> Abort | ph # phs \<Rightarrow> Done (seg_fix k phs))"

section \<open>Setting up a process\<close>

lemma seg_fix_length [termination_simp]: "length (seg_fix k phs) < Suc (length phs)"
  by (induction phs) auto

text \<open>
  The loop that gives the process the kernel's pages below \<^verbatim>\<open>PROC_START_ADDR\<close>, which ignores what \<^verbatim>\<open>try_map\<close> returns: the
  two iterators and the memory.
\<close>

partial_function (option) setup_kernel_pages :: "kconf \<Rightarrow> vmiter \<Rightarrow> vmiter \<Rightarrow> kmem \<Rightarrow> (vmiter \<times> kmem) outcome option" where
  "setup_kernel_pages k kit pit s =
     (if unat (vm_va pit) < PROC_START_ADDR k
      then case try_map k pit (vm_pa (km s) kit) PTE_P s of
        None \<Rightarrow> None
      | Some (Done (r, pit, s)) \<Rightarrow>
          (case vm_next (km s) kit of
             Done kit \<Rightarrow>
               (case vm_next (km s) pit of
                  Done pit \<Rightarrow> setup_kernel_pages k kit pit s
                | _ \<Rightarrow> Some Abort)
           | _ \<Rightarrow> Some Abort)
      | Some _ \<Rightarrow> Some Abort
      else Some (Done (pit, s)))"

text \<open>The loop over the \<^verbatim>\<open>PROC_SIZE\<close> bytes from \<^verbatim>\<open>PROC_START_ADDR\<close>: the pages left, the address, the iterator.\<close>

fun setup_process_pages :: "kconf \<Rightarrow> nat \<Rightarrow> nat \<Rightarrow> vmiter \<Rightarrow> kmem \<Rightarrow> (vmiter \<times> kmem) outcome option" where
  "setup_process_pages k 0 i pit s = Some (Done (pit, s))"
| "setup_process_pages k (Suc n) i pit s =
     (case try_map k pit (of_nat i) PTE_PWU s of
        None \<Rightarrow> None
      | Some (Done (r, pit, s)) \<Rightarrow>
          (case vm_find (km s) pit (vm_va pit + of_nat PAGESIZE) of
             Done pit \<Rightarrow> setup_process_pages k n (i + PAGESIZE) pit s
           | _ \<Rightarrow> Some Abort)
      | Some _ \<Rightarrow> Some Abort)"

text \<open>The pages of a segment: they must be free, and are counted; \<^verbatim>\<open>physpages\<close> ends with physical memory.\<close>

function claim_pages :: "kconf \<Rightarrow> nat \<Rightarrow> nat \<Rightarrow> kmem \<Rightarrow> kmem outcome" where
  "claim_pages k a e s =
     (if a < e
      then if a div PAGESIZE \<ge> MEMSIZE_PHYSICAL k div PAGESIZE then Undef
           else if refcount s (a div PAGESIZE) \<noteq> 0 then Abort
           else claim_pages k (a + PAGESIZE) e (s\<lparr>refcount := (refcount s)(a div PAGESIZE := refcount s (a div PAGESIZE) + 1)\<rparr>)
      else Done s)"
  by pat_completeness auto

termination claim_pages
  by (relation "measure (\<lambda>(k, a, e, s). e - a)") auto

declare claim_pages.simps [simp del]

fun claim_segments :: "kconf \<Rightarrow> elf_program list \<Rightarrow> kmem \<Rightarrow> kmem outcome" where
  "claim_segments k [] s = Done s"
| "claim_segments k (ph # phs) s =
     obind (claim_pages k (p_va ph - p_va ph mod PAGESIZE) (p_va ph + p_memsz ph) s) (claim_segments k (seg_fix k phs))"

fun load_segments :: "kconf \<Rightarrow> nat \<Rightarrow> elf_program list \<Rightarrow> mem \<Rightarrow> mem" where
  "load_segments k elf [] m = m"
| "load_segments k elf (ph # phs) m =
     load_segments k elf (seg_fix k phs)
       (memcpy (memset m (p_va ph) 0 (p_memsz ph)) (p_va ph) (elf + p_offset ph) (p_filesz ph))"

definition image_at :: "elf_header option \<Rightarrow> nat" where
  "image_at im = (case im of None \<Rightarrow> 0 | Some elf \<Rightarrow> elf_at elf)"

text \<open>The page table of a new process: the two loops over pages.\<close>

definition setup_pagetable :: "kconf \<Rightarrow> nat \<Rightarrow> kmem \<Rightarrow> kmem outcome option" where
  "setup_pagetable k pt s =
     (case (vmiter_new (km s) (kernel_pagetable k) (of_nat PAGESIZE), vmiter_new (km s) pt (of_nat PAGESIZE)) of
        (Done kit, Done pit) \<Rightarrow>
          (case setup_kernel_pages k kit pit s of
             None \<Rightarrow> None
           | Some (Done (pit, s)) \<Rightarrow>
               (case vm_find (km s) pit (of_nat (PROC_START_ADDR k)) of
                  Done pit \<Rightarrow>
                    map_option (\<lambda>r. obind r (\<lambda>(pit, s). Done s))
                      (setup_process_pages k (PROC_SIZE div PAGESIZE) (PROC_START_ADDR k) pit s)
                | _ \<Rightarrow> Some Abort)
           | Some _ \<Rightarrow> Some Abort)
      | _ \<Rightarrow> Some Abort)"

text \<open>The rest of \<^verbatim>\<open>process_setup\<close>: the image is loaded, the stack claimed, the process made runnable.\<close>

definition load_process :: "kconf \<Rightarrow> ramimages \<Rightarrow> nat \<Rightarrow> string \<Rightarrow> kernel \<Rightarrow> kernel outcome" where
  "load_process k ims n name s =
     obind (program_image ims name) (\<lambda>im.
     obind (claim_segments k (image_begin k im) (ks s)) (\<lambda>mem.
       let mem = mem\<lparr>km := load_segments k (image_at im) (image_begin k im) (km mem)\<rparr>;
           stack_addr = PROC_START_ADDR k + PROC_SIZE * n - PAGESIZE;
           p = ptable s ! n;
           p = p\<lparr>regs := (regs p)\<lparr>reg_rip := image_entry im\<rparr>\<rparr>
       in if stack_addr div PAGESIZE \<ge> MEMSIZE_PHYSICAL k div PAGESIZE then Undef
          else if refcount mem (stack_addr div PAGESIZE) \<noteq> 0 then Abort
          else let mem = mem\<lparr>refcount := (refcount mem)(stack_addr div PAGESIZE := refcount mem (stack_addr div PAGESIZE) + 1)\<rparr>;
                   p = p\<lparr>regs := (regs p)\<lparr>reg_rsp := of_nat (stack_addr + PAGESIZE)\<rparr>, pstate := P_RUNNABLE\<rparr>
               in Done (s\<lparr>ks := mem, ptable := (ptable s)[n := p]\<rparr>)))"

definition process_setup :: "kconf \<Rightarrow> ramimages \<Rightarrow> nat \<Rightarrow> string \<Rightarrow> kernel \<Rightarrow> kernel outcome option" where
  "process_setup k ims n name s =
     (if n \<ge> length (ptable s) then Some Undef
      else case kalloc_pagetable k (ks s) of
        (None, mem) \<Rightarrow> Some Undef
      | (Some pt, mem) \<Rightarrow>
          let p = (init_process k (ptable s ! n) 0)\<lparr>pagetable := pt\<rparr>; s = s\<lparr>ptable := (ptable s)[n := p]\<rparr>
          in map_option (\<lambda>r. obind r (\<lambda>mem. load_process k ims n name (s\<lparr>ks := mem\<rparr>))) (setup_pagetable k pt mem))"

section \<open>The scheduler\<close>

definition poll :: "keyconf \<Rightarrow> (nat \<Rightarrow> uchar option) \<Rightarrow> kernel \<Rightarrow> key_action \<times> kernel" where
  "poll kc kbd s =
     (let (a, b) = check_keyboard kc (kbd (polls s)) (kb s) in (a, s\<lparr>kb := b, polls := Suc (polls s)\<rparr>))"

fun show_search :: "nat \<Rightarrow> proc list \<Rightarrow> nat \<Rightarrow> nat \<Rightarrow> nat option \<times> nat" where
  "show_search N pt 0 sh = (None, sh)"
| "show_search N pt (Suc n) sh =
     (if pstate (pt ! sh) \<noteq> P_FREE \<and> pagetable (pt ! sh) \<noteq> 0 then (Some sh, sh) else show_search N pt n ((sh + 1) mod N))"

definition console_memviewer :: "kconf \<Rightarrow> nat option \<Rightarrow> kernel \<Rightarrow> kernel outcome" where
  "console_memviewer k vmp s =
     (if pstate (ptable s ! 0) \<noteq> P_FREE then Abort
      else obind
        (case mu_v s of
           None \<Rightarrow>
             (case kalloc k PAGESIZE (ks s) of
                (None, mem) \<Rightarrow> Abort
              | (Some v, mem) \<Rightarrow> Done (v, s\<lparr>ks := mem, mu_v := Some v\<rparr>))
         | Some v \<Rightarrow> Done (v, s))
        (\<lambda>(v, s). Done (s\<lparr>ks := (ks s)\<lparr>km := memset (km (ks s)) v 0 (1024 * 4)\<rparr>\<rparr>)))"

definition memshow :: "kconf \<Rightarrow> kernel \<Rightarrow> kernel outcome" where
  "memshow k s =
     (let s = (if last_ticks s = 0 \<or> ticks s - ucast (last_ticks s) \<ge> 100 div 2
               then s\<lparr>last_ticks := ucast (ticks s), showing := (showing s + 1) mod NPROC k\<rparr> else s);
          (p, sh) = show_search (NPROC k) (ptable s) (NPROC k) (showing s)
      in console_memviewer k p (s\<lparr>showing := sh\<rparr>))"

definition check_pagetable :: "kconf \<Rightarrow> mem \<Rightarrow> nat \<Rightarrow> bool" where
  "check_pagetable k m pt \<longleftrightarrow>
     pt mod PAGESIZE = 0 \<and>
     obind (lookup_va m pt (of_nat (exception_entry k))) (\<lambda>(pa, perm). Done pa) = Done (of_nat (exception_entry k)) \<and>
     obind (lookup_va m (kernel_pagetable k) (of_nat pt)) (\<lambda>(pa, perm). Done pa) = Done (of_nat pt) \<and>
     obind (lookup_va m pt (of_nat (kernel_pagetable k))) (\<lambda>(pa, perm). Done pa) = Done (of_nat (kernel_pagetable k))"

definition run :: "kconf \<Rightarrow> kernel \<Rightarrow> nat \<Rightarrow> kernel \<times> kexit" where
  "run k s p =
     (if pstate (ptable s ! p) \<noteq> P_RUNNABLE then (s, Panic ''p->state == P_RUNNABLE'')
      else let s = s\<lparr>current := p\<rparr>
           in if check_pagetable k (km (ks s)) (pagetable (ptable s ! p)) then (s, Resume p)
              else (s, Panic ''check_pagetable''))"

partial_function (option) schedule_loop ::
    "kconf \<Rightarrow> keyconf \<Rightarrow> (nat \<Rightarrow> uchar option) \<Rightarrow> nat \<Rightarrow> nat \<Rightarrow> kernel \<Rightarrow> (kernel \<times> kexit) option" where
  "schedule_loop k kc kbd p spins s =
     (let p = (p + 1) mod NPROC k
      in if pstate (ptable s ! p) = P_RUNNABLE then Some (run k s p)
         else case poll kc kbd s of
           (Key c, s) \<Rightarrow>
             if spins mod 2 ^ 12 = 0
             then (case memshow k s of
                     Done s \<Rightarrow> schedule_loop k kc kbd p (spins + 1) s
                   | _ \<Rightarrow> Some (s, Panic ''memshow''))
             else schedule_loop k kc kbd p (spins + 1) s
         | (Restart a, s) \<Rightarrow> Some (s, Reboot a)
         | (Poweroff, s) \<Rightarrow> Some (s, Off))"

definition schedule :: "kconf \<Rightarrow> keyconf \<Rightarrow> (nat \<Rightarrow> uchar option) \<Rightarrow> kernel \<Rightarrow> (kernel \<times> kexit) option" where
  "schedule k kc kbd s = schedule_loop k kc kbd (pid (ptable s ! current s)) 1 s"

section \<open>Exceptions\<close>

definition set_regs :: "regstate \<Rightarrow> kernel \<Rightarrow> kernel" where
  "set_regs r s = s\<lparr>ptable := (ptable s)[current s := (ptable s ! current s)\<lparr>regs := r\<rparr>]\<rparr>"

definition exception_switch ::
    "kconf \<Rightarrow> keyconf \<Rightarrow> (nat \<Rightarrow> uchar option) \<Rightarrow> regstate \<Rightarrow> kernel \<Rightarrow> (kernel \<times> kexit) option" where
  "exception_switch k kc kbd r s =
     (if reg_intno r = INT_TIMER k then schedule k kc kbd (s\<lparr>ticks := ticks s + 1\<rparr>)
      else if reg_intno r = 14
      then if reg_errcode r AND PTE_U = 0 then Some (s, Panic ''Kernel page fault'')
           else let s = s\<lparr>ptable := (ptable s)[current s := (ptable s ! current s)\<lparr>pstate := P_FAULTED\<rparr>]\<rparr>
                in if pstate (ptable s ! current s) = P_RUNNABLE then Some (run k s (current s)) else schedule k kc kbd s
      else Some (s, Panic ''Unhandled exception''))"

definition exception ::
    "kconf \<Rightarrow> keyconf \<Rightarrow> (nat \<Rightarrow> uchar option) \<Rightarrow> regstate \<Rightarrow> kernel \<Rightarrow> (kernel \<times> kexit) option" where
  "exception k kc kbd r s =
     (let s = set_regs r s
      in case (if reg_intno r \<noteq> 14 \<or> reg_errcode r AND PTE_U \<noteq> 0 then memshow k s else Done s) of
        Done s \<Rightarrow>
          (case poll kc kbd s of
             (Key c, s) \<Rightarrow> exception_switch k kc kbd r s
           | (Restart a, s) \<Rightarrow> Some (s, Reboot a)
           | (Poweroff, s) \<Rightarrow> Some (s, Off))
      | _ \<Rightarrow> Some (s, Panic ''memshow''))"

section \<open>System calls\<close>

text \<open>The characters that \<^verbatim>\<open>strlcpy_from_user\<close> copies: at most \<open>n\<close>, while the process may read them.\<close>

fun strlcpy_from_user :: "mem \<Rightarrow> vmiter \<Rightarrow> nat \<Rightarrow> string outcome" where
  "strlcpy_from_user m it 0 = Done []"
| "strlcpy_from_user m it (Suc n) =
     (if vm_perms m it AND (PTE_P OR PTE_U) = PTE_P OR PTE_U
      then obind (vm_find m it (vm_va it + 1)) (\<lambda>it'.
           obind (strlcpy_from_user m it' n) (\<lambda>cs. Done (m (unat (vm_pa m it)) # cs)))
      else Done [])"

definition user_panic :: "proc \<Rightarrow> mem \<Rightarrow> string outcome" where
  "user_panic p m =
     (if reg_rdi (regs p) = 0 then Done ''USER PANIC''
      else obind (vmiter_new m (pagetable p) (reg_rdi (regs p))) (\<lambda>it.
           obind (strlcpy_from_user m it 255) (\<lambda>buf.
             Done (''USER PANIC: '' @ takeWhile (\<lambda>c. c \<noteq> NUL) buf))))"

definition syscall_page_alloc :: "kconf \<Rightarrow> ulong \<Rightarrow> kernel \<Rightarrow> (int \<times> kernel) outcome option" where
  "syscall_page_alloc k addr s =
     (let a = unat addr; n = pid (ptable s ! current s)
      in if a < PROC_START_ADDR k \<or> a > MEMSIZE_PHYSICAL k \<or> a mod PAGESIZE \<noteq> 0 then Some (Done (- 1, s))
         else if a div PAGESIZE \<ge> MEMSIZE_PHYSICAL k div PAGESIZE then Some Undef
         else if refcount (ks s) (a div PAGESIZE) \<noteq> 0 then Some Abort
         else case vmiter_new (km (ks s)) (pagetable (ptable s ! n)) addr of
           Done it \<Rightarrow>
             (case try_map k it addr PTE_PWU (ks s) of
                None \<Rightarrow> None
              | Some (Done (r, it, mem)) \<Rightarrow>
                  Some (Done (if r \<noteq> 0 then (- 1, s\<lparr>ks := mem\<rparr>)
                    else (0, s\<lparr>ptable := (ptable s)[n := (ptable s ! n)\<lparr>next_va := next_va (ptable s ! n) + PAGESIZE\<rparr>],
                               ks := mem\<lparr>refcount := (refcount mem)(a div PAGESIZE := refcount mem (a div PAGESIZE) + 1),
                                         km := memset (km mem) a 0 PAGESIZE\<rparr>\<rparr>)))
              | Some _ \<Rightarrow> Some Abort)
         | _ \<Rightarrow> Some Abort)"

text \<open>The system call numbers of \<^verbatim>\<open>lib.hh\<close>: 1 to 6.\<close>

definition syscall_switch ::
    "kconf \<Rightarrow> keyconf \<Rightarrow> (nat \<Rightarrow> uchar option) \<Rightarrow> regstate \<Rightarrow> kernel \<Rightarrow> (kernel \<times> kexit) option" where
  "syscall_switch k kc kbd r s =
     (let p = ptable s ! current s
      in if reg_rax r = 3
         then Some (s, case user_panic p (km (ks s)) of Done msg \<Rightarrow> Panic msg | _ \<Rightarrow> Undefined)
         else if reg_rax r = 1 then Some (s, Return (of_nat (pid p)))
         else if reg_rax r = 2 then schedule k kc kbd (set_regs (r\<lparr>reg_rax := 0\<rparr>) s)
         else if reg_rax r = 4
         then map_option
           (\<lambda>x. case x of Done (v, s) \<Rightarrow> (s, Return (of_int v)) | Abort \<Rightarrow> (s, Panic ''assert'') | _ \<Rightarrow> (s, Undefined))
           (syscall_page_alloc k (reg_rdi r) s)
         else if reg_rax r = 5 then Some (s, Panic ''Fork not implemented!'')
         else if reg_rax r = 6 then Some (s, Panic ''Exit not implemented!'')
         else Some (s, Panic ''Unhandled system call''))"

definition syscall ::
    "kconf \<Rightarrow> keyconf \<Rightarrow> (nat \<Rightarrow> uchar option) \<Rightarrow> regstate \<Rightarrow> kernel \<Rightarrow> (kernel \<times> kexit) option" where
  "syscall k kc kbd r s =
     (let s = set_regs r s
      in case memshow k s of
        Done s \<Rightarrow>
          (case poll kc kbd s of
             (Key c, s) \<Rightarrow> syscall_switch k kc kbd r s
           | (Restart a, s) \<Rightarrow> Some (s, Reboot a)
           | (Poweroff, s) \<Rightarrow> Some (s, Off))
      | _ \<Rightarrow> Some (s, Panic ''memshow''))"

section \<open>Start\<close>

text \<open>
  \<^verbatim>\<open>init_kernel_memory\<close>: the five static tables of the kernel, then the identity mapping of physical memory; the pages
  left, the iterator.
\<close>

definition init_kernel_tables :: "kconf \<Rightarrow> mem \<Rightarrow> mem" where
  "init_kernel_tables k m =
     (let t = (\<lambda>i. kernel_pagetable k + i * PAGESIZE);
          m = memset m (t 0) 0 (5 * PAGESIZE);
          m = write64 m (t 0) (of_nat (t 1) OR PTE_P OR PTE_W OR PTE_U);
          m = write64 m (t 1) (of_nat (t 2) OR PTE_P OR PTE_W OR PTE_U);
          m = write64 m (t 2) (of_nat (t 3) OR PTE_P OR PTE_W OR PTE_U);
          m = write64 m (t 2 + 8) (of_nat (t 4) OR PTE_P OR PTE_W OR PTE_U);
          m = write64 m (t 1 + 8) (push_bit 30 1 OR PTE_P OR PTE_W OR PTE_PS);
          m = write64 m (t 1 + 16) (push_bit 30 2 OR PTE_P OR PTE_W OR PTE_PS)
      in write64 m (t 1 + 24) (push_bit 30 3 OR PTE_P OR PTE_W OR PTE_PS))"

fun init_map_loop :: "kconf \<Rightarrow> nat \<Rightarrow> vmiter \<Rightarrow> kmem \<Rightarrow> kmem outcome option" where
  "init_map_loop k 0 it s = Some (Done s)"
| "init_map_loop k (Suc n) it s =
     (case (if vm_va it \<noteq> 0 then try_map k it (vm_va it) (PTE_P OR PTE_W OR PTE_U) s else Some (Done (0, it, s))) of
        None \<Rightarrow> None
      | Some (Done (r, it, s)) \<Rightarrow>
          if r \<noteq> 0 then Some Abort
          else (case vm_find (km s) it (vm_va it + of_nat PAGESIZE) of
                  Done it \<Rightarrow> init_map_loop k n it s
                | _ \<Rightarrow> Some Abort)
      | Some _ \<Rightarrow> Some Abort)"

definition init_kernel_memory :: "kconf \<Rightarrow> kmem \<Rightarrow> kmem outcome option" where
  "init_kernel_memory k s =
     (let s = s\<lparr>km := init_kernel_tables k (km s)\<rparr>
      in case vmiter_new (km s) (kernel_pagetable k) 0 of
           Done it \<Rightarrow> init_map_loop k (MEMSIZE_PHYSICAL k div PAGESIZE) it s
         | _ \<Rightarrow> Some Abort)"

abbreviation CONSOLE_ADDR :: nat where "CONSOLE_ADDR \<equiv> 0xB8000"

definition kernel_perm :: "kconf \<Rightarrow> nat \<Rightarrow> ulong" where
  "kernel_perm k addr =
     (let perm = PTE_P OR PTE_W OR PTE_U;
          perm = (if addr < PROC_START_ADDR k \<and> addr \<noteq> CONSOLE_ADDR then PTE_P OR PTE_W else perm)
      in if addr = 0 then 0 else perm)"

text \<open>The loop of \<^verbatim>\<open>kernel_start\<close> over physical memory: the pages left, the address.\<close>

fun kernel_map_loop :: "kconf \<Rightarrow> nat \<Rightarrow> nat \<Rightarrow> kmem \<Rightarrow> kmem outcome option" where
  "kernel_map_loop k 0 addr s = Some (Done s)"
| "kernel_map_loop k (Suc n) addr s =
     (case vmiter_new (km s) (kernel_pagetable k) (of_nat addr) of
        Done it \<Rightarrow>
          (case try_map k it (of_nat addr) (kernel_perm k addr) s of
             None \<Rightarrow> None
           | Some (Done (r, it, s)) \<Rightarrow> if r \<noteq> 0 then Some Abort else kernel_map_loop k n (addr + PAGESIZE) s
           | Some _ \<Rightarrow> Some Abort)
      | _ \<Rightarrow> Some Abort)"

definition init_ptable :: "kconf \<Rightarrow> proc list \<Rightarrow> proc list" where
  "init_ptable k ps =
     map (\<lambda>i. (ps ! i)\<lparr>pid := i, pstate := P_FREE, next_va := PROC_START_ADDR k\<rparr>) [0..<NPROC k]"

fun setup_all :: "kconf \<Rightarrow> ramimages \<Rightarrow> (nat \<times> string) list \<Rightarrow> kernel \<Rightarrow> kernel outcome option" where
  "setup_all k ims [] s = Some (Done s)"
| "setup_all k ims ((n, name) # ps) s =
     (case process_setup k ims n name s of
        None \<Rightarrow> None
      | Some (Done s) \<Rightarrow> setup_all k ims ps s
      | Some _ \<Rightarrow> Some Abort)"

text \<open>\<^verbatim>\<open>kernel_start\<close>, with the memory part of \<^verbatim>\<open>init_hardware\<close>; \<open>first\<close> is \<^verbatim>\<open>WEENSYOS_FIRST_PROCESS\<close>.\<close>

definition kernel_start :: "kconf \<Rightarrow> ramimages \<Rightarrow> string \<Rightarrow> string option \<Rightarrow> kernel \<Rightarrow> (kernel \<times> kexit) option" where
  "kernel_start k ims first command s =
     (case init_kernel_memory k (ks s) of
        None \<Rightarrow> None
      | Some (Done mem) \<Rightarrow>
          (case kernel_map_loop k (MEMSIZE_PHYSICAL k div PAGESIZE) 0 mem of
             None \<Rightarrow> None
           | Some (Done mem) \<Rightarrow>
               let s = s\<lparr>ks := mem, ticks := 1, ptable := init_ptable k (ptable s)\<rparr>;
                   command = (case command of None \<Rightarrow> first | Some c \<Rightarrow> c)
               in (case program_image ims command of
                     Done im \<Rightarrow>
                       (case setup_all k ims (if \<not> image_empty im then [(1, command)]
                               else [(1, ''allocator''), (2, ''allocator2''), (3, ''allocator3''), (4, ''allocator4'')]) s of
                          None \<Rightarrow> None
                        | Some (Done s) \<Rightarrow> Some (run k s 1)
                        | Some _ \<Rightarrow> Some (s, Panic ''process_setup''))
                   | _ \<Rightarrow> Some (s, Panic ''program_image''))
           | Some _ \<Rightarrow> Some (s, Panic ''kernel_start''))
      | Some _ \<Rightarrow> Some (s, Panic ''init_kernel_memory''))"

end
