(* ===== verification/Kernel_Maps.thy ===== *)
theory Kernel_Maps
  imports Kernel Interfaces
begin

text \<open>
  The page tables that the Lab 4 kernel makes: that of the kernel after \<^verbatim>\<open>kernel_start\<close> has removed the access of
  processes to its memory.
\<close>

unbundle bit_operations_syntax

section \<open>Addresses that have a table\<close>

definition covered :: "mem \<Rightarrow> nat \<Rightarrow> ulong \<Rightarrow> bool" where
  "covered m pt va \<longleftrightarrow> (\<exists>t. table_at m pt (take 3 (vpath va)) t)"

lemma covered_level:
  assumes "covered m (vm_pt it) (vm_va it)" "positioned m it p i q t"
  shows "q = []" "vm_level it = 0"
proof -
  have p: "vpath (vm_va it) = p @ i # q" "table_at m (vm_pt it) p t"
    using assms(2) by (simp_all add: positioned_def)
  have len: "length p + length q = 3"
    by (rule vpath_nth(3) [OF p(1)])
  show "q = []"
  proof (rule ccontr)
    assume q: "q \<noteq> []"
    then have "length p < 3"
      using len by (cases q) auto
    then have "take 3 (vpath (vm_va it)) = p @ i # take (2 - length p) q"
      using p(1) by (simp add: take_Cons' numeral_3_eq_3 numeral_2_eq_2)
    then obtain t' where "tabs m (vm_pt it) (p @ i # take (2 - length p) q) = Some t'"
      using assms(1) by (auto simp: covered_def table_at_def)
    then have "subtable (ent m t i) \<noteq> None"
      using tabs_prefix p(2) by (fastforce simp: table_at_def)
    then show False
      using assms(2) q by (simp add: positioned_def)
  qed
  then show "vm_level it = 0"
    using assms(2) by (simp add: positioned_def)
qed

definition page_mapping :: "ulong \<Rightarrow> ulong \<Rightarrow> (ulong \<times> ulong \<times> nat) option" where
  "page_mapping pa perm = (if perm = 0 then None else Some (pa, perm, 0))"

lemma try_map_covered:
  assumes inv: "pt_inv k (vm_pt it) s" and pos: "positioned (km s) it p i [] t"
    and va: "unat (vm_va it) mod PAGESIZE = 0"
    and pa: "perm AND PTE_P \<noteq> 0 \<and> pa AND PTE_PAMASK = pa \<and> pa < 0x100000000 \<and> perm \<le> 0xFFF \<or> perm = 0 \<and> pa = 0"
  shows "\<exists>s'. try_map k it pa perm s = Some (Done (0, it, s')) \<and> pt_inv k (vm_pt it) s' \<and> refcount s' = refcount s \<and>
    keeps k (vm_pt it) s s' \<and> positioned (km s') it p i [] t \<and>
    (\<forall>q u. table_at (km s') (vm_pt it) q u = table_at (km s) (vm_pt it) q u) \<and>
    (\<forall>q. idxs q \<and> length q = 4 \<longrightarrow> mapping (km s') (vm_pt it) q =
      (if q = vpath (vm_va it) then page_mapping pa perm else mapping (km s) (vm_pt it) q))"
proof -
  have it: "vpath (vm_va it) = p @ [i]" "table_at (km s) (vm_pt it) p t" "vm_pep it = Some (t + 8 * i)" "vm_level it = 0"
    "vm_perm it = 0xFFF"
    using pos by (simp_all add: positioned_def)
  have i: "length p = 3" "i < 512"
    using vpath_nth [OF it(1)] by simp_all
  let ?s = "s\<lparr>km := write64 (km s) (t + 8 * i) (pa OR perm)\<rparr>"
  have perm: "(pa OR perm) AND PTE_PAMASK < 0x100000000 \<and>
      (if (pa OR perm) AND PTE_P \<noteq> 0 then Some ((pa OR perm) AND PTE_PAMASK, (pa OR perm) AND 0xFFF, 0) else None) = page_mapping pa perm \<and>
      try_map k it pa perm s = Some (Done (0, it, ?s))"
  proof (cases "perm = 0")
    case True
    then show ?thesis
      using pa it va by (simp add: page_mapping_def try_map_def)
  next
    case False
    then have "pa AND PTE_PAMASK = pa" "pa < 0x100000000" "perm \<le> 0xFFF" "perm AND PTE_P \<noteq> 0"
      using pa by auto
    moreover have "map_loop k it s = Some (Done (True, it, s))"
      using it(4) by (subst map_loop.simps) simp
    ultimately show ?thesis
      using page_and_perm [of pa perm] False it va by (simp add: page_mapping_def try_map_def)
  qed
  note e = conjunct1 [OF perm] and tables = table_at_leaf [OF inv it(2) i]
  have "positioned (km ?s) it p i [] t"
    using pos by (simp add: positioned_def tables)
  moreover have "keeps k (vm_pt it) s ?s"
    by (rule keeps_write [OF inv it(2) i(2) _ refl]) (simp add: tables)
  moreover have "mapping (km ?s) (vm_pt it) q = (if q = vpath (vm_va it) then page_mapping pa perm else mapping (km s) (vm_pt it) q)"
    if "idxs q \<and> length q = 4" for q
    using mapping_leaf [OF inv it(2) i e, of q] that perm it(1) by simp
  ultimately show ?thesis
    using perm pt_inv_leaf [OF inv it(2) i e] by (intro exI [of _ ?s]) (simp add: tables)
qed

section \<open>Page numbers\<close>

lemma low_canonical: "unat va < 2 ^ 47 \<Longrightarrow> va_is_canonical va"
  by (simp add: va_is_canonical_def word_le_nat_alt)

lemma unat_page:
  assumes "a < 2 ^ 47"
  shows "unat (of_nat a :: ulong) = a" "va_is_canonical (of_nat a)"
proof -
  show u: "unat (of_nat a :: ulong) = a"
    using assms by (simp add: unsigned_of_nat take_bit_nat_eq_self_iff)
  show "va_is_canonical (of_nat a)"
    using assms u by (intro low_canonical) simp
qed

lemma page_floor:
  assumes "PAGESIZE dvd a" "a \<le> n" "n < a + PAGESIZE"
  shows "n - n mod PAGESIZE = a"
proof -
  obtain b where a: "a = PAGESIZE * b"
    using assms(1) by (auto elim: dvdE)
  then have "n div PAGESIZE = b"
    using assms(2,3) by (intro div_nat_eqI) auto
  then show ?thesis
    using a by (simp add: minus_mod_eq_mult_div)
qed

lemma same_page:
  assumes "va_is_canonical va" "a < 2 ^ 47"
  shows "vpath va = vpath (of_nat a) \<longleftrightarrow> unat va div PAGESIZE = a div PAGESIZE"
proof -
  have "unat (drop_bit 12 x) = unat x div PAGESIZE" for x :: ulong
    by (simp add: drop_bit_eq_div unat_div)
  then show ?thesis
    using vpath_eq [OF assms(1) unat_page(2) [OF assms(2)]] unat_page(1) [OF assms(2)] by (simp add: word_unat_eq_iff)
qed

lemma page_address:
  assumes "PAGESIZE dvd a" "a < 2 ^ 32"
  shows "of_nat a AND PTE_PAMASK = (of_nat a :: ulong)" "(of_nat a :: ulong) < 0x100000000"
  using page_pamask [of a] table_entry(4) [OF assms] assms by simp_all

section \<open>The page table of the kernel\<close>

lemma kernel_perm_cases:
  "kernel_perm k a AND PTE_P \<noteq> 0 \<and> kernel_perm k a \<le> 0xFFF \<or> kernel_perm k a = 0 \<and> a = 0"
  by (simp add: kernel_perm_def)

definition mapped_by :: "kconf \<Rightarrow> nat \<Rightarrow> (ulong \<times> ulong \<times> nat) option" where
  "mapped_by k a = page_mapping (of_nat a) (kernel_perm k a)"

text \<open>
  A page table whose tables are all there is an address space: a new iterator at the page and its \<^verbatim>\<open>try_map\<close> map one page.  The
  pages are those below \<open>2\<^sup>3\<^sup>5\<close> that a table covers.
\<close>

definition map_page :: "kconf \<Rightarrow> nat \<Rightarrow> kmem \<Rightarrow> nat \<Rightarrow> ulong \<times> ulong \<Rightarrow> kmem option" where
  "map_page k pt s n e =
     (case vmiter_new (km s) pt (of_nat (n * PAGESIZE)) of
        Done it \<Rightarrow>
          (case try_map k it (fst e) (snd e) s of
             Some (Done (r, _, s')) \<Rightarrow> if r = 0 then Some s' else None
           | _ \<Rightarrow> None)
      | _ \<Rightarrow> None)"

definition space_ok :: "kconf \<Rightarrow> nat \<Rightarrow> kmem \<Rightarrow> kmem \<Rightarrow> bool" where
  "space_ok k pt s0 s \<longleftrightarrow>
     pt_inv k pt s \<and> refcount s = refcount s0 \<and> (\<forall>q u. table_at (km s) pt q u = table_at (km s0) pt q u)"

definition space_page :: "nat \<Rightarrow> kmem \<Rightarrow> nat \<Rightarrow> bool" where
  "space_page pt s0 n \<longleftrightarrow> n < 2 ^ 35 \<and> covered (km s0) pt (of_nat (n * PAGESIZE))"

definition legal_entry :: "ulong \<times> ulong \<Rightarrow> bool" where
  "legal_entry e \<longleftrightarrow>
     snd e AND PTE_P \<noteq> 0 \<and> fst e AND PTE_PAMASK = fst e \<and> fst e < 0x100000000 \<and> snd e \<le> 0xFFF \<or> snd e = 0 \<and> fst e = 0"

lemma map_page_look:
  assumes ok: "space_ok k pt s0 s" and n: "space_page pt s0 n" and e: "legal_entry e"
  shows "\<exists>s'. map_page k pt s n e = Some s' \<and> space_ok k pt s0 s' \<and> (\<forall>m. space_page pt s0 m \<longrightarrow>
    mapping (km s') pt (vpath (of_nat (m * PAGESIZE))) =
      (if m = n then page_mapping (fst e) (snd e) else mapping (km s) pt (vpath (of_nat (m * PAGESIZE)))))"
proof -
  let ?va = "\<lambda>n. of_nat (n * PAGESIZE) :: ulong"
  have low: "m * PAGESIZE < 2 ^ 47" if "space_page pt s0 m" for m
    using that by (simp add: space_page_def)
  note u = unat_page [OF low [OF n]]
  have inv: "pt_inv k pt s"
    using ok by (simp add: space_ok_def)
  obtain it p i q t where it: "vmiter_new (km s) pt (?va n) = Done it" "vm_pt it = pt" "vm_va it = ?va n"
    and pos: "positioned (km s) it p i q t"
    using vmiter_new_positioned [OF inv u(2)] by blast
  have "covered (km s) (vm_pt it) (vm_va it)"
    using n ok it(2,3) by (simp add: space_page_def space_ok_def covered_def)
  then have q: "q = []"
    using covered_level(1) pos by blast
  obtain s' where s': "try_map k it (fst e) (snd e) s = Some (Done (0, it, s'))" "space_ok k pt s0 s'"
    and maps: "\<forall>q. idxs q \<and> length q = 4 \<longrightarrow> mapping (km s') pt q =
      (if q = vpath (?va n) then page_mapping (fst e) (snd e) else mapping (km s) pt q)"
    using try_map_covered [of k it s p i t "snd e" "fst e"] ok pos q it(2,3) u(1) e
    by (auto simp: space_ok_def legal_entry_def)
  have "vpath (?va m) = vpath (?va n) \<longleftrightarrow> m = n" if "space_page pt s0 m" for m
    using same_page [OF unat_page(2) [OF low [OF that]] low [OF n]] unat_page(1) [OF low [OF that]] by simp
  then show ?thesis
    using it(1) s' maps by (auto simp: map_page_def idxs_vpath)
qed

interpretation pm: page_map "space_ok k pt s0" "space_page pt s0" "\<lambda>s n. mapping (km s) pt (vpath (of_nat (n * PAGESIZE)))"
    legal_entry "\<lambda>e. page_mapping (fst e) (snd e)" "map_page k pt"
  for k pt s0
  by unfold_locales (rule map_page_look)

text \<open>The loop of \<^verbatim>\<open>kernel_start\<close> maps a range of pages.\<close>

lemma map_page_SomeD:
  "map_page k pt s n e = Some s' \<Longrightarrow> \<exists>it it'. vmiter_new (km s) pt (of_nat (n * PAGESIZE)) = Done it \<and>
    try_map k it (fst e) (snd e) s = Some (Done (0, it', s'))"
  unfolding map_page_def by (auto split: option.splits outcome.splits if_splits)

lemma kernel_map_loop_range:
  assumes "put_range (map_page k (kernel_pagetable k)) (\<lambda>m. (of_nat (m * PAGESIZE), kernel_perm k (m * PAGESIZE))) n a s = Some s'"
  shows "kernel_map_loop k n (a * PAGESIZE) s = Some (Done s')"
  using assms
proof (induction n arbitrary: a s)
  case (Suc n)
  from Suc.prems obtain s1 where
    s1: "map_page k (kernel_pagetable k) s a (of_nat (a * PAGESIZE), kernel_perm k (a * PAGESIZE)) = Some s1"
    and rest: "put_range (map_page k (kernel_pagetable k)) (\<lambda>m. (of_nat (m * PAGESIZE), kernel_perm k (m * PAGESIZE))) n (Suc a) s1 = Some s'"
    by (auto split: option.splits)
  obtain it it' where it: "vmiter_new (km s) (kernel_pagetable k) (of_nat (a * PAGESIZE)) = Done it"
    "try_map k it (of_nat (a * PAGESIZE)) (kernel_perm k (a * PAGESIZE)) s = Some (Done (0, it', s1))"
    using map_page_SomeD [OF s1] by auto
  have "kernel_map_loop k (Suc n) (a * PAGESIZE) s = kernel_map_loop k n (Suc a * PAGESIZE) s1"
    using it by (simp add: add.commute)
  then show ?case
    using Suc.IH [OF rest] by simp
qed simp

lemma kernel_map_loop_correct:
  assumes inv: "pt_inv k (kernel_pagetable k) s" and n: "n * PAGESIZE \<le> 2 ^ 32"
    and cov: "\<forall>a<n * PAGESIZE. covered (km s) (kernel_pagetable k) (of_nat a)"
  shows "\<exists>s'. kernel_map_loop k n 0 s = Some (Done s') \<and> pt_inv k (kernel_pagetable k) s' \<and> refcount s' = refcount s \<and>
    (\<forall>q u. table_at (km s') (kernel_pagetable k) q u = table_at (km s) (kernel_pagetable k) q u) \<and>
    (\<forall>va. unat va < n * PAGESIZE \<longrightarrow> mapping (km s') (kernel_pagetable k) (vpath va) = mapped_by k (unat va - unat va mod PAGESIZE))"
proof -
  let ?pt = "kernel_pagetable k" and ?f = "\<lambda>m. (of_nat (m * PAGESIZE), kernel_perm k (m * PAGESIZE)) :: ulong \<times> ulong"
  have page: "space_page ?pt s m" if "m < n" for m
    using that n cov [rule_format, of "m * PAGESIZE"] by (auto simp: space_page_def)
  have legal: "legal_entry (?f m)" if "m < n" for m
    using page_address [of "m * PAGESIZE"] that n kernel_perm_cases [of k "m * PAGESIZE"] by (auto simp: legal_entry_def)
  obtain s' where s': "put_range (map_page k ?pt) ?f n 0 s = Some s'" "space_ok k ?pt s s'"
    and maps: "\<forall>m. space_page ?pt s m \<longrightarrow> mapping (km s') ?pt (vpath (of_nat (m * PAGESIZE))) =
      (if 0 \<le> m \<and> m < 0 + n then page_mapping (fst (?f m)) (snd (?f m)) else mapping (km s) ?pt (vpath (of_nat (m * PAGESIZE))))"
    using pm.put_range_look [of k ?pt s s 0 n ?f] inv page legal by (auto simp: space_ok_def)
  have "mapping (km s') ?pt (vpath va) = mapped_by k (unat va - unat va mod PAGESIZE)" if va: "unat va < n * PAGESIZE" for va
  proof -
    let ?m = "unat va div PAGESIZE"
    have m: "?m < n" "?m * PAGESIZE < 2 ^ 47" "unat va - unat va mod PAGESIZE = ?m * PAGESIZE"
      using va n by (auto simp: div_less_iff_less_mult minus_mod_eq_div_mult)
    have "vpath va = vpath (of_nat (?m * PAGESIZE))"
      using same_page [OF low_canonical m(2), of va] va n by simp
    then show ?thesis
      using maps page [OF m(1)] m(1) unfolding m(3) mapped_by_def by simp
  qed
  then show ?thesis
    using s'(2) kernel_map_loop_range [OF s'(1)] by (auto simp: space_ok_def)
qed

section \<open>The static tables\<close>

definition conf_ok :: "kconf \<Rightarrow> bool" where
  "conf_ok k \<longleftrightarrow>
     PAGESIZE dvd kernel_pagetable k \<and> KERNEL_START_ADDR k \<le> kernel_pagetable k \<and>
     kernel_pagetable k + 5 * PAGESIZE \<le> kernel_end k \<and> kernel_end k \<le> MEMSIZE_PHYSICAL k \<and>
     PAGESIZE dvd MEMSIZE_PHYSICAL k \<and> MEMSIZE_PHYSICAL k \<le> 0x400000 \<and> PAGESIZE dvd PROC_START_ADDR k"

definition init_entry :: "nat \<Rightarrow> nat \<Rightarrow> nat \<Rightarrow> ulong" where
  "init_entry kp a j =
     (if a < 3 \<and> j = 0 then of_nat (kp + Suc a * PAGESIZE) OR 7
      else if a = 2 \<and> j = 1 then of_nat (kp + 4 * PAGESIZE) OR 7
      else if a = 1 \<and> j = 1 then 0x40000083
      else if a = 1 \<and> j = 2 then 0x80000083
      else if a = 1 \<and> j = 3 then 0xC0000083
      else 0)"

lemma ent_write_at:
  assumes "8 dvd x" "8 dvd u"
  shows "ent (write64 m x e) u j = (if x = u + 8 * j then e else ent m u j)"
proof -
  have "x \<noteq> u + 8 * j \<Longrightarrow> u + 8 * j + 8 \<le> x \<or> x + 8 \<le> u + 8 * j"
    using assms by presburger
  then show ?thesis
    using read64_write64_other [of "u + 8 * j" x m e] by (auto simp: ent_def)
qed

lemma ent_init:
  assumes kp: "PAGESIZE dvd kernel_pagetable k" and a: "a < 5" "j < 512"
  shows "ent (init_kernel_tables k m) (kernel_pagetable k + a * PAGESIZE) j = init_entry (kernel_pagetable k) a j"
proof -
  let ?kp = "kernel_pagetable k"
  have d: "8 dvd ?kp" "8 dvd ?kp + a * PAGESIZE"
    using kp by (auto elim!: dvdE)
  have z: "ent (memset m ?kp 0 (5 * PAGESIZE)) (?kp + a * PAGESIZE) j = 0"
    unfolding ent_def using a by (intro read64_memset_0) auto
  have "a = 0 \<or> a = 1 \<or> a = 2 \<or> a = 3 \<or> a = 4"
    using a(1) by auto
  then show ?thesis
    using d z a(2) by (elim disjE) (auto simp: init_kernel_tables_def ent_write_at init_entry_def dvd_add Let_def)
qed

lemma subtable_init:
  assumes "conf_ok k" "a < 5"
  shows "subtable (init_entry (kernel_pagetable k) a j) =
    (if a < 3 \<and> j = 0 then Some (kernel_pagetable k + Suc a * PAGESIZE)
     else if a = 2 \<and> j = 1 then Some (kernel_pagetable k + 4 * PAGESIZE) else None)"
proof -
  have "subtable (of_nat (kernel_pagetable k + b * PAGESIZE) OR 7) = Some (kernel_pagetable k + b * PAGESIZE)" if "b < 5" for b
    using assms(1) that by (intro table_entry(1)) (auto simp: conf_ok_def)
  from this [of "Suc a"] this [of 4] show ?thesis
    using assms(2) by (auto simp: init_entry_def subtable_def split: if_splits)
qed

definition init_paths :: "nat list list" where
  "init_paths = [[], [0], [0, 0], [0, 0, 0], [0, 0, 1]]"

lemma table_at_init:
  assumes ok: "conf_ok k"
  shows "table_at (init_kernel_tables k m) (kernel_pagetable k) p t \<longleftrightarrow>
    (\<exists>a<5. p = init_paths ! a \<and> t = kernel_pagetable k + a * PAGESIZE)"
proof -
  let ?m = "init_kernel_tables k m" and ?t = "\<lambda>a. kernel_pagetable k + a * PAGESIZE"
  have kp: "PAGESIZE dvd kernel_pagetable k"
    using ok by (simp add: conf_ok_def)
  have step: "tabs ?m (?t a) (j # p) =
      (if a < 3 \<and> j = 0 then tabs ?m (?t (Suc a)) p else if a = 2 \<and> j = 1 then tabs ?m (?t 4) p else None)"
    if "a < 5" "j < 512" for a j p
    using ent_init [OF kp that, of m] subtable_init [OF ok that(1), of j] by simp
  have ex: "(\<exists>a<5. P a) \<longleftrightarrow> P 0 \<or> P 1 \<or> P 2 \<or> P 3 \<or> P 4" for P :: "nat \<Rightarrow> bool"
    by (auto simp: less_Suc_eq numeral_eq_Suc)
  note s0 = step [of 0, simplified] and s1 = step [of 1, simplified] and s2 = step [of 2, simplified]
  show ?thesis
  proof (cases "length p \<le> 3 \<and> idxs p")
    case True
    then consider "p = []" | i where "p = [i]" "i < 512" | i j where "p = [i, j]" "i < 512" "j < 512"
      | i j l where "p = [i, j, l]" "i < 512" "j < 512" "l < 512"
      by (cases p rule: remdups_adj.cases; cases "tl (tl p)"; cases "tl (tl (tl p))") auto
    then show ?thesis
      by cases (auto simp: table_at_def init_paths_def ex s0 s1 s2)
  next
    case False
    then have "p \<notin> set init_paths"
      by (auto simp: init_paths_def)
    moreover have "init_paths ! a \<in> set init_paths" if "a < 5" for a
      using that by (intro nth_mem) (simp add: init_paths_def)
    ultimately show ?thesis
      using False by (auto simp: table_at_def)
  qed
qed

lemma init_table:
  assumes ok: "conf_ok k" and a: "a < 5" and t: "t = kernel_pagetable k + a * PAGESIZE"
  shows "PAGESIZE dvd t" "t + PAGESIZE \<le> MEMSIZE_PHYSICAL k" "\<not> allocatable_physical_address k t"
    "i < 512 \<Longrightarrow> ent (init_kernel_tables k m) t i AND PTE_PAMASK < 0x100000000"
    "i < 512 \<Longrightarrow> a < 3 \<Longrightarrow> subtable (ent (init_kernel_tables k m) t i) \<noteq> None \<Longrightarrow> ent (init_kernel_tables k m) t i AND 7 = 7"
proof -
  have kp: "PAGESIZE dvd kernel_pagetable k" and top: "t + PAGESIZE \<le> kernel_end k" "KERNEL_START_ADDR k \<le> t"
    using ok a t by (auto simp: conf_ok_def)
  then show "PAGESIZE dvd t" "t + PAGESIZE \<le> MEMSIZE_PHYSICAL k"
    using ok t by (auto simp: conf_ok_def)
  have "kernel_end k \<le> (kernel_end k + PAGESIZE - 1) div PAGESIZE * PAGESIZE"
    using div_mult_mod_eq [of "kernel_end k + PAGESIZE - 1" PAGESIZE]
      mod_less_divisor [of PAGESIZE "kernel_end k + PAGESIZE - 1"] by linarith
  then show "\<not> allocatable_physical_address k t"
    using top by (simp add: allocatable_physical_address_def)
  have entry: "(of_nat (kernel_pagetable k + b * PAGESIZE) OR 7) AND PTE_PAMASK < (0x100000000 :: ulong) \<and>
      (of_nat (kernel_pagetable k + b * PAGESIZE) OR 7) AND 7 = (7 :: ulong)" if "b < 5" for b
    using ok that table_entry(2-4) [of "kernel_pagetable k + b * PAGESIZE"] by (auto simp: conf_ok_def)
  assume i: "i < 512"
  show "ent (init_kernel_tables k m) t i AND PTE_PAMASK < 0x100000000"
    unfolding t ent_init [OF kp a i] using entry [of "Suc a"] entry [of 4] by (auto simp: init_entry_def)
  assume a3: "a < 3" and "subtable (ent (init_kernel_tables k m) t i) \<noteq> None"
  then have "i = 0 \<or> a = 2 \<and> i = 1"
    using subtable_init [OF ok a, of i] unfolding t ent_init [OF kp a i] by (auto split: if_splits)
  then have "init_entry (kernel_pagetable k) a i = of_nat (kernel_pagetable k + (if i = 0 then Suc a else 4) * PAGESIZE) OR 7"
    using a3 by (cases "i = 0") (simp_all add: init_entry_def)
  then show "ent (init_kernel_tables k m) t i AND 7 = 7"
    unfolding t ent_init [OF kp a i] using a3 entry [of "if i = 0 then Suc a else 4"] by (simp only:) simp
qed

lemma pt_inv_init:
  assumes ok: "conf_ok k"
  shows "pt_inv k (kernel_pagetable k) (s\<lparr>km := init_kernel_tables k m\<rparr>)"
proof -
  have "a < 3" if "a < 5" "length (init_paths ! a) < 3" for a
    using that by (auto simp: init_paths_def less_Suc_eq numeral_eq_Suc)
  then show ?thesis
    using init_table [OF ok] by (auto simp: pt_inv_def table_at_init [OF ok] free_page_def)
qed

lemma pageindex_unat: "pageindex va l = unat va div 2 ^ (12 + l * 9) mod 512"
proof -
  have "pageindex va l = unat (take_bit 9 (drop_bit (12 + l * 9) va))"
    by (simp add: pageindex_def take_bit_eq_mask mask_eq_exp_minus_1)
  also have "\<dots> = take_bit 9 (unat (drop_bit (12 + l * 9) va))"
    by (rule unsigned_take_bit_eq)
  also have "unat (drop_bit (12 + l * 9) va) = drop_bit (12 + l * 9) (unat va)"
    by (rule bit_eqI) (simp add: bit_unsigned_iff bit_drop_bit_eq)
  finally show ?thesis
    by (simp add: take_bit_eq_mod drop_bit_eq_div)
qed

lemma covered_init:
  assumes ok: "conf_ok k" and a: "a < 0x400000"
  shows "covered (init_kernel_tables k m) (kernel_pagetable k) (of_nat a)"
proof -
  have u: "unat (of_nat a :: ulong) = a"
    using unat_page(1) [of a] a by simp
  have "pageindex (of_nat a) 3 = 0" "pageindex (of_nat a) 2 = 0"
    using a by (simp_all add: pageindex_unat u)
  moreover have "pageindex (of_nat a) 1 = a div 0x200000"
    using a by (simp add: pageindex_unat u)
  moreover have "a div 0x200000 = 0 \<or> a div 0x200000 = 1"
    using a by (auto simp: less_Suc_eq div_nat_eqI)
  moreover have "take 3 (vpath va) = [pageindex va 3, pageindex va 2, pageindex va 1]" for va
    by (simp add: vpath_def numeral_3_eq_3)
  moreover have "init_paths ! 3 = [0, 0, 0]" "init_paths ! 4 = [0, 0, 1]"
    by (simp_all add: init_paths_def)
  ultimately have "take 3 (vpath (of_nat a)) = init_paths ! 3 \<or> take 3 (vpath (of_nat a)) = init_paths ! 4"
    by presburger
  moreover have table: "\<exists>t. table_at (init_kernel_tables k m) (kernel_pagetable k) (init_paths ! b) t" if "b < 5" for b
    using that table_at_init [OF ok] by blast
  ultimately show ?thesis
    using table [of 3] table [of 4] by (auto simp: covered_def)
qed

lemma init_map_loop_correct:
  assumes "pt_inv k (vm_pt it) s" "positioned (km s) it p i q t" "vm_va it = of_nat addr" "PAGESIZE dvd addr"
    "addr + n * PAGESIZE \<le> 2 ^ 32"
    "\<forall>a. addr \<le> a \<and> a < addr + n * PAGESIZE \<longrightarrow> covered (km s) (vm_pt it) (of_nat a)"
  shows "\<exists>s'. init_map_loop k n it s = Some (Done s') \<and> pt_inv k (vm_pt it) s' \<and> refcount s' = refcount s \<and>
    (\<forall>q u. table_at (km s') (vm_pt it) q u = table_at (km s) (vm_pt it) q u)"
  using assms
proof (induction n arbitrary: addr s it p i q t)
  case (Suc n)
  have addr: "addr < 2 ^ 32"
    using Suc.prems(5) by simp
  then have u: "unat (of_nat addr :: ulong) = addr" "va_is_canonical (of_nat addr)"
    using unat_page [of addr] by simp_all
  have q: "q = []"
    using covered_level(1) [OF _ Suc.prems(2)] Suc.prems(3,6) by simp
  have "of_nat (addr + PAGESIZE) = (of_nat addr + of_nat PAGESIZE :: ulong)"
    by simp
  then have nx: "va_is_canonical (of_nat addr + of_nat PAGESIZE)"
    using unat_page(2) [of "addr + PAGESIZE"] Suc.prems(5) by simp
  obtain s1 where s1: "(if vm_va it \<noteq> 0 then try_map k it (vm_va it) (PTE_P OR PTE_W OR PTE_U) s else Some (Done (0, it, s))) =
      Some (Done (0, it, s1))" "pt_inv k (vm_pt it) s1" "refcount s1 = refcount s" "positioned (km s1) it p i q t"
    "\<forall>q u. table_at (km s1) (vm_pt it) q u = table_at (km s) (vm_pt it) q u"
    using try_map_covered [OF Suc.prems(1), of p i t 7 "of_nat addr"] Suc.prems(1-4) q u(1) page_address [OF Suc.prems(4) addr]
    by (cases "vm_va it = 0") (auto simp: dvd_eq_mod_eq_0)
  have "of_nat addr + of_nat PAGESIZE \<noteq> (of_nat addr :: ulong)"
    by simp
  then obtain it1 p1 i1 q1 t1 where it1: "vm_find (km s1) it (vm_va it + of_nat PAGESIZE) = Done it1" "vm_pt it1 = vm_pt it"
    "vm_va it1 = of_nat (addr + PAGESIZE)" "positioned (km s1) it1 p1 i1 q1 t1"
    using real_find_positioned [OF s1(2,4) nx] Suc.prems(3) by (auto simp: vm_find_def)
  have "\<exists>s'. init_map_loop k n it1 s1 = Some (Done s') \<and> pt_inv k (vm_pt it1) s' \<and> refcount s' = refcount s1 \<and>
      (\<forall>q u. table_at (km s') (vm_pt it1) q u = table_at (km s1) (vm_pt it1) q u)"
    by (rule Suc.IH [OF _ it1(4,3)]) (use Suc.prems(4-6) s1(2,5) it1(2) in \<open>auto simp: covered_def\<close>)
  then show ?case
    using s1(1,3,5) it1(1,2) by auto
qed auto

lemma page_plus_offset: "of_nat (unat va - unat va mod PAGESIZE) + (va AND pageoffmask 0) = (va :: ulong)"
proof -
  have "va AND pageoffmask 0 = take_bit 12 va"
    by (simp add: pageoffmask_mask take_bit_eq_mask)
  also have "\<dots> = of_nat (unat va mod PAGESIZE)"
    by (simp add: take_bit_eq_mod word_unat_eq_iff unat_mod unsigned_of_nat take_bit_nat_eq_self_iff less_le_trans)
  finally show ?thesis
    by (simp flip: of_nat_add)
qed

lemma translate_mapped_by:
  assumes "PAGESIZE dvd PROC_START_ADDR k"
  shows "translate (mapped_by k (unat va - unat va mod PAGESIZE)) va =
    (if unat va < PAGESIZE then (- 1, 0)
     else if unat va < PROC_START_ADDR k \<and> unat va div PAGESIZE * PAGESIZE \<noteq> CONSOLE_ADDR then (va, PTE_P OR PTE_W)
     else (va, PTE_P OR PTE_W OR PTE_U))"
proof -
  let ?a = "unat va - unat va mod PAGESIZE"
  have a: "?a = unat va div PAGESIZE * PAGESIZE"
    by (simp add: minus_mod_eq_div_mult)
  have "?a = 0 \<longleftrightarrow> unat va < PAGESIZE"
    unfolding a by (auto simp: div_eq_0_iff)
  moreover have "?a < PROC_START_ADDR k \<longleftrightarrow> unat va < PROC_START_ADDR k"
    using assms unfolding a by (auto elim!: dvdE simp: div_less_iff_less_mult mult.commute)
  ultimately show ?thesis
    using page_plus_offset [of va] a by (simp add: mapped_by_def page_mapping_def kernel_perm_def translate_def)
qed

lemma kernel_start_maps:
  assumes ok: "conf_ok k"
  shows "\<exists>s1 s2. init_kernel_memory k s = Some (Done s1) \<and>
    kernel_map_loop k (MEMSIZE_PHYSICAL k div PAGESIZE) 0 s1 = Some (Done s2) \<and> pt_inv k (kernel_pagetable k) s2 \<and>
    refcount s2 = refcount s \<and>
    (\<forall>q u. table_at (km s2) (kernel_pagetable k) q u = table_at (init_kernel_tables k (km s)) (kernel_pagetable k) q u) \<and>
    (\<forall>va. unat va < MEMSIZE_PHYSICAL k \<longrightarrow>
      mapping (km s2) (kernel_pagetable k) (vpath va) = mapped_by k (unat va - unat va mod PAGESIZE))"
proof -
  let ?pt = "kernel_pagetable k" and ?n = "MEMSIZE_PHYSICAL k div PAGESIZE" and ?s = "s\<lparr>km := init_kernel_tables k (km s)\<rparr>"
  have n: "?n * PAGESIZE = MEMSIZE_PHYSICAL k" and mem: "MEMSIZE_PHYSICAL k \<le> 0x400000"
    using ok by (auto simp: conf_ok_def)
  have inv: "pt_inv k ?pt ?s"
    by (rule pt_inv_init [OF ok])
  have cov: "\<forall>a. 0 \<le> a \<and> a < 0 + ?n * PAGESIZE \<longrightarrow> covered (km ?s) ?pt (of_nat a)"
    using covered_init [OF ok] n mem by simp
  obtain it p i q t where it: "vmiter_new (km ?s) ?pt 0 = Done it" "vm_pt it = ?pt" "vm_va it = 0" "positioned (km ?s) it p i q t"
    using vmiter_new_positioned [OF inv, of 0] by (auto simp: va_is_canonical_def)
  obtain s1 where s1: "init_kernel_memory k s = Some (Done s1)" "pt_inv k ?pt s1" "refcount s1 = refcount s"
    "\<forall>q u. table_at (km s1) ?pt q u = table_at (km ?s) ?pt q u"
    using init_map_loop_correct [of k it ?s p i q t 0 ?n] inv it cov n mem by (auto simp: init_kernel_memory_def)
  obtain s2 where s2: "kernel_map_loop k ?n 0 s1 = Some (Done s2)" "pt_inv k ?pt s2" "refcount s2 = refcount s1"
    "\<forall>q u. table_at (km s2) ?pt q u = table_at (km s1) ?pt q u"
    and maps: "\<forall>va. unat va < ?n * PAGESIZE \<longrightarrow> mapping (km s2) ?pt (vpath va) = mapped_by k (unat va - unat va mod PAGESIZE)"
    using kernel_map_loop_correct [OF s1(2), of ?n] s1(4) cov n mem by (auto simp: covered_def)
  then show ?thesis
    using s1(1,3,4) s2 n by (intro exI [of _ s1] exI [of _ s2]) simp
qed

text \<open>
  C25. The kernel's own page table after \<^verbatim>\<open>init_kernel_memory\<close> and the loop of \<^verbatim>\<open>kernel_start\<close>: both loops end without a
  failed assertion, whatever was in memory before; physical memory is mapped to itself, page 0 is inaccessible, and processes have no
  access below \<^verbatim>\<open>PROC_START_ADDR\<close> except to the page of the console.
\<close>

theorem kernel_start_isolates_kernel:
  assumes ok: "conf_ok k"
  shows "\<exists>s1 s2. init_kernel_memory k s = Some (Done s1) \<and>
    kernel_map_loop k (MEMSIZE_PHYSICAL k div PAGESIZE) 0 s1 = Some (Done s2) \<and>
    (\<forall>va. unat va < MEMSIZE_PHYSICAL k \<longrightarrow> lookup_va (km s2) (kernel_pagetable k) va =
      (if unat va < PAGESIZE then Done (- 1, 0)
       else if unat va < PROC_START_ADDR k \<and> unat va div PAGESIZE * PAGESIZE \<noteq> CONSOLE_ADDR then Done (va, PTE_P OR PTE_W)
       else Done (va, PTE_P OR PTE_W OR PTE_U)))"
proof -
  obtain s1 s2 where s2: "init_kernel_memory k s = Some (Done s1)"
    "kernel_map_loop k (MEMSIZE_PHYSICAL k div PAGESIZE) 0 s1 = Some (Done s2)" "pt_inv k (kernel_pagetable k) s2"
    and maps: "\<forall>va. unat va < MEMSIZE_PHYSICAL k \<longrightarrow>
      mapping (km s2) (kernel_pagetable k) (vpath va) = mapped_by k (unat va - unat va mod PAGESIZE)"
    using kernel_start_maps [OF ok, of s] by blast
  have mem: "MEMSIZE_PHYSICAL k \<le> 0x400000" and st: "PAGESIZE dvd PROC_START_ADDR k"
    using ok by (auto simp: conf_ok_def)
  have "lookup_va (km s2) (kernel_pagetable k) va = Done (translate (mapped_by k (unat va - unat va mod PAGESIZE)) va)"
    if "unat va < MEMSIZE_PHYSICAL k" for va
    using lookup_translate [OF s2(3), of va] low_canonical [of va] maps that mem by simp
  then show ?thesis
    using s2(1,2) by (intro exI [of _ s1] exI [of _ s2]) (simp add: translate_mapped_by [OF st])
qed

lemma sample_conf_ok: "conf_ok sample_conf"
  by (simp add: conf_ok_def sample_conf_def)

text \<open>Witness: two megabytes of memory.\<close>

theorem kernel_start_isolates_kernel_witness:
  "\<exists>s1 s2. init_kernel_memory sample_conf sample_kmem = Some (Done s1) \<and>
    kernel_map_loop sample_conf (MEMSIZE_PHYSICAL sample_conf div PAGESIZE) 0 s1 = Some (Done s2) \<and>
    (\<forall>va. unat va < MEMSIZE_PHYSICAL sample_conf \<longrightarrow> lookup_va (km s2) (kernel_pagetable sample_conf) va =
      (if unat va < PAGESIZE then Done (- 1, 0)
       else if unat va < PROC_START_ADDR sample_conf \<and> unat va div PAGESIZE * PAGESIZE \<noteq> CONSOLE_ADDR then Done (va, PTE_P OR PTE_W)
       else Done (va, PTE_P OR PTE_W OR PTE_U)))"
  by (rule kernel_start_isolates_kernel [OF sample_conf_ok])

end
