(* ===== verification/Kernel_Sched.thy ===== *)
theory Kernel_Sched
  imports Kernel
begin

text \<open>
  The scheduler and the handlers of the Lab 4 kernel: which process runs next, that every runnable process gets its turn,
  and that only runnable processes with a checked page table are resumed.
\<close>

unbundle bit_operations_syntax

abbreviation runnable :: "kernel \<Rightarrow> nat \<Rightarrow> bool" where
  "runnable s p \<equiv> pstate (ptable s ! p) = P_RUNNABLE"

section \<open>The next process\<close>

lemma poll_silent: "kbd (polls s) = None \<Longrightarrow> poll kc kbd s = (Key (- 1), s\<lparr>polls := Suc (polls s)\<rparr>)"
  by (simp add: poll_def check_keyboard_def keyboard_readc_def)

lemma schedule_loop_first:
  assumes "runnable s ((c + d) mod NPROC k)" "0 < d" "\<forall>e. 0 < e \<and> e < d \<longrightarrow> \<not> runnable s ((c + e) mod NPROC k)"
    and quiet: "\<forall>n. kbd n = None" and spins: "spins + d \<le> 4097"
    and pos: "0 < spins"
  shows "schedule_loop k kc kbd c spins s = Some (run k (s\<lparr>polls := polls s + (d - 1)\<rparr>) ((c + d) mod NPROC k))"
  using assms(1-3) spins pos
proof (induction d arbitrary: c spins s)
  case (Suc d)
  let ?c = "(c + 1) mod NPROC k"
  have nx: "(?c + e) mod NPROC k = (c + Suc e) mod NPROC k" for e
    by (simp add: mod_add_left_eq)
  show ?case
  proof (cases "d = 0")
    case True
    then show ?thesis
      using Suc.prems(1) by (subst schedule_loop.simps) simp
  next
    case False
    let ?s = "s\<lparr>polls := Suc (polls s)\<rparr>"
    have "\<not> runnable s ?c"
      using Suc.prems(3) False by (auto dest: spec [of _ 1])
    moreover have "spins mod 2 ^ 12 \<noteq> 0"
      using Suc.prems(4,5) False by simp
    ultimately have "schedule_loop k kc kbd c spins s = schedule_loop k kc kbd ?c (spins + 1) ?s"
      using poll_silent [of kbd s kc] quiet by (subst schedule_loop.simps) (simp add: Let_def)
    also have "\<dots> = Some (run k (?s\<lparr>polls := polls ?s + (d - 1)\<rparr>) ((?c + d) mod NPROC k))"
    proof (rule Suc.IH)
      show "\<forall>e. 0 < e \<and> e < d \<longrightarrow> \<not> runnable ?s ((?c + e) mod NPROC k)"
        using Suc.prems(3) unfolding nx kernel.simps by auto
    qed (use Suc.prems False nx [of d] in simp_all)
    finally show ?thesis
      using False nx [of d] by simp
  qed
qed simp

text \<open>A process table of \<^verbatim>\<open>NPROC\<close> processes with their numbers.\<close>

definition ptable_ok :: "kconf \<Rightarrow> kernel \<Rightarrow> bool" where
  "ptable_ok k s \<longleftrightarrow>
     0 < NPROC k \<and> NPROC k \<le> 4096 \<and> current s < NPROC k \<and> (\<forall>p<NPROC k. pid (ptable s ! p) = p)"

lemma schedule_first:
  assumes ok: "ptable_ok k s" and quiet: "\<forall>n. kbd n = None" and d: "0 < d" "d \<le> NPROC k"
    and first: "runnable s ((current s + d) mod NPROC k)"
      "\<forall>e. 0 < e \<and> e < d \<longrightarrow> \<not> runnable s ((current s + e) mod NPROC k)"
  shows "schedule k kc kbd s = Some (run k (s\<lparr>polls := polls s + (d - 1)\<rparr>) ((current s + d) mod NPROC k))"
proof -
  have "pid (ptable s ! current s) = current s"
    using ok by (simp add: ptable_ok_def)
  then show ?thesis
    using schedule_loop_first [OF first(1) d(1) first(2) quiet, of 1 kc] ok d(2) by (simp add: schedule_def ptable_ok_def)
qed

lemma reach_by_add:
  assumes "c < (n :: nat)" "p < n"
  shows "\<exists>d. 0 < d \<and> d \<le> n \<and> p = (c + d) mod n"
proof (cases "c < p")
  case True
  then show ?thesis
    using assms by (intro exI [of _ "p - c"]) auto
next
  case False
  then have "(c + (n + p - c)) mod n = p"
    using assms by simp
  then show ?thesis
    using False assms by (intro exI [of _ "n + p - c"]) auto
qed

lemma schedule_picks:
  assumes ok: "ptable_ok k s" and quiet: "\<forall>n. kbd n = None" and p: "p < NPROC k" "runnable s p"
  shows "\<exists>d n. 0 < d \<and> d \<le> NPROC k \<and> runnable s ((current s + d) mod NPROC k) \<and>
    (\<forall>e. 0 < e \<and> e < d \<longrightarrow> \<not> runnable s ((current s + e) mod NPROC k)) \<and>
    schedule k kc kbd s = Some (run k (s\<lparr>polls := n\<rparr>) ((current s + d) mod NPROC k))"
proof -
  let ?P = "\<lambda>d. 0 < d \<and> runnable s ((current s + d) mod NPROC k)"
  obtain d0 where d0: "?P d0" "d0 \<le> NPROC k"
    using reach_by_add [of "current s" "NPROC k" p] ok p by (auto simp: ptable_ok_def)
  obtain d where d: "?P d" "d \<le> d0" "\<forall>e. 0 < e \<and> e < d \<longrightarrow> \<not> runnable s ((current s + e) mod NPROC k)"
    using LeastI [of ?P, OF d0(1)] Least_le [of ?P, OF d0(1)] not_less_Least [of _ ?P] by blast
  then have "schedule k kc kbd s = Some (run k (s\<lparr>polls := polls s + (d - 1)\<rparr>) ((current s + d) mod NPROC k))"
    using schedule_first [OF ok quiet, of d kc] d0(2) by simp
  then show ?thesis
    using d d0(2) by (intro exI [of _ d] exI [of _ "polls s + (d - 1)"]) simp
qed

text \<open>
  C28. \<^verbatim>\<open>schedule\<close> is round robin: when no key is typed and some process is runnable, it returns, and it runs the first
  runnable process after the current one in the order of process numbers modulo \<^verbatim>\<open>NPROC\<close>; only the polls of the keyboard
  change the state before.
\<close>

theorem schedule_round_robin:
  assumes ok: "ptable_ok k s" and quiet: "\<forall>n. kbd n = None" and p: "p < NPROC k" "runnable s p"
  shows "\<exists>d n. 0 < d \<and> d \<le> NPROC k \<and> runnable s ((current s + d) mod NPROC k) \<and>
    (\<forall>e. 0 < e \<and> e < d \<longrightarrow> \<not> runnable s ((current s + e) mod NPROC k)) \<and>
    schedule k kc kbd s = Some (run k (s\<lparr>polls := n\<rparr>) ((current s + d) mod NPROC k))"
  by (rule schedule_picks [OF assms])

section \<open>Turns\<close>

text \<open>The processes that \<open>n\<close> calls of \<^verbatim>\<open>schedule\<close> in a row resume, each from the state the one before left.\<close>

fun turns :: "kconf \<Rightarrow> keyconf \<Rightarrow> (nat \<Rightarrow> uchar option) \<Rightarrow> nat \<Rightarrow> kernel \<Rightarrow> nat list" where
  "turns k kc kbd 0 s = []"
| "turns k kc kbd (Suc n) s =
     (case schedule k kc kbd s of
        Some (s', Resume p) \<Rightarrow> p # turns k kc kbd n s'
      | _ \<Rightarrow> [])"

definition tables_checked :: "kconf \<Rightarrow> kernel \<Rightarrow> bool" where
  "tables_checked k s \<longleftrightarrow>
     (\<forall>p<NPROC k. runnable s p \<longrightarrow> check_pagetable k (km (ks s)) (pagetable (ptable s ! p)))"

lemma turns_reach:
  assumes "ptable_ok k s" "\<forall>n. kbd n = None" "tables_checked k s" "0 < e" "e \<le> NPROC k" "e \<le> n"
    "runnable s ((current s + e) mod NPROC k)"
  shows "(current s + e) mod NPROC k \<in> set (turns k kc kbd n s)"
  using assms
proof (induction n arbitrary: s e)
  case (Suc n)
  let ?c = "\<lambda>d. (current s + d) mod NPROC k"
  have N: "0 < NPROC k"
    using Suc.prems(1) by (simp add: ptable_ok_def)
  obtain d m where d: "0 < d" "d \<le> NPROC k" "runnable s (?c d)" "\<forall>e. 0 < e \<and> e < d \<longrightarrow> \<not> runnable s (?c e)"
    and sch: "schedule k kc kbd s = Some (run k (s\<lparr>polls := m\<rparr>) (?c d))"
    using schedule_picks [OF Suc.prems(1,2), of "?c e" kc] N Suc.prems(7) by auto
  let ?s = "s\<lparr>polls := m, current := ?c d\<rparr>"
  have "?c d < NPROC k"
    using N by simp
  then have "run k (s\<lparr>polls := m\<rparr>) (?c d) = (?s, Resume (?c d))"
    using Suc.prems(3) d(3) by (simp add: run_def tables_checked_def)
  then have turns: "turns k kc kbd (Suc n) s = ?c d # turns k kc kbd n ?s"
    using sch by simp
  have "d \<le> e"
    using d(4) Suc.prems(4,7) by (metis not_le)
  show ?case
  proof (cases "d = e")
    case True
    then show ?thesis
      unfolding turns by simp
  next
    case False
    have same: "(current ?s + (e - d)) mod NPROC k = ?c e"
      using \<open>d \<le> e\<close> mod_add_left_eq [of "current s + d" "NPROC k" "e - d"] by simp
    have "(current ?s + (e - d)) mod NPROC k \<in> set (turns k kc kbd n ?s)"
    proof (rule Suc.IH)
      show "ptable_ok k ?s"
        using Suc.prems(1) N by (simp add: ptable_ok_def)
      show "tables_checked k ?s"
        using Suc.prems(3) by (simp add: tables_checked_def)
      show "runnable ?s ((current ?s + (e - d)) mod NPROC k)"
        using Suc.prems(7) same by simp
    qed (use Suc.prems d False \<open>d \<le> e\<close> in auto)
    then show ?thesis
      unfolding turns same by simp
  qed
qed simp

text \<open>
  C27. No runnable process starves: when no key is typed and the page tables of the runnable processes pass
  \<^verbatim>\<open>check_pagetable\<close>, each runnable process is resumed by one of any \<^verbatim>\<open>NPROC\<close> calls of \<^verbatim>\<open>schedule\<close> in a row.
\<close>

theorem schedule_no_starvation:
  assumes "ptable_ok k s" "\<forall>n. kbd n = None" "tables_checked k s" "p < NPROC k" "runnable s p"
  shows "p \<in> set (turns k kc kbd (NPROC k) s)"
proof -
  obtain e where e: "0 < e" "e \<le> NPROC k" "p = (current s + e) mod NPROC k"
    using reach_by_add [of "current s" "NPROC k" p] assms(1,4) by (auto simp: ptable_ok_def)
  then show ?thesis
    using turns_reach [OF assms(1-3) e(1,2), of "NPROC k" kc] assms(5) by simp
qed

section \<open>Who is resumed\<close>

lemma memshow_ptable: "memshow k s = Done s' \<Longrightarrow> ptable s' = ptable s \<and> current s' = current s"
  by (auto simp: memshow_def console_memviewer_def Let_def split: if_splits option.splits prod.splits)

lemma poll_ptable: "poll kc kbd s = (a, s') \<Longrightarrow> ptable s' = ptable s \<and> current s' = current s"
  by (auto simp: poll_def split: prod.splits)

text \<open>
  What holds of the end of a handler that calls \<^verbatim>\<open>exception_return\<close>: the process it resumes is current, runnable and has a
  checked page table.  Nothing is said of the other ends; a system call that returns a value goes back to the process that
  made it with no check of its page table.
\<close>

definition resumes_ok :: "kconf \<Rightarrow> kernel \<times> kexit \<Rightarrow> bool" where
  "resumes_ok k r \<longleftrightarrow>
     (case r of
        (s, Resume p) \<Rightarrow> current s = p \<and> runnable s p \<and> check_pagetable k (km (ks s)) (pagetable (ptable s ! p))
      | _ \<Rightarrow> True)"

lemma run_resumes: "resumes_ok k (run k s p)" "ptable (fst (run k s p)) = ptable s"
  by (simp_all add: run_def resumes_ok_def Let_def)

lemma schedule_loop_resumes:
  assumes "schedule_loop k kc kbd p spins s = Some r"
  shows "resumes_ok k r \<and> ptable (fst r) = ptable s"
proof (rule schedule_loop.raw_induct [where P = "\<lambda>k kc kbd p spins s r. resumes_ok k r \<and> ptable (fst r) = ptable s",
    OF _ assms])
  fix loop k kc kbd p spins s r
  assume IH: "\<And>k kc kbd p spins s r. loop k kc kbd p spins s = Some r \<Longrightarrow> resumes_ok k r \<and> ptable (fst r) = ptable s"
    and body: "(let p = (p + 1) mod NPROC k
      in if pstate (ptable s ! p) = P_RUNNABLE then Some (run k s p)
         else case poll kc kbd s of
           (Key c, s) \<Rightarrow>
             if spins mod 2 ^ 12 = 0
             then (case memshow k s of
                     Done s \<Rightarrow> loop k kc kbd p (spins + 1) s
                   | _ \<Rightarrow> Some (s, Panic ''memshow''))
             else loop k kc kbd p (spins + 1) s
         | (Restart a, s) \<Rightarrow> Some (s, Reboot a)
         | (Poweroff, s) \<Rightarrow> Some (s, Off)) = Some r"
  show "resumes_ok k r \<and> ptable (fst r) = ptable s"
  proof (cases "pstate (ptable s ! ((p + 1) mod NPROC k)) = P_RUNNABLE")
    case True
    then show ?thesis
      using body run_resumes by (simp add: Let_def) blast
  next
    case False
    obtain a s1 where a: "poll kc kbd s = (a, s1)"
      by fastforce
    have s1: "ptable s1 = ptable s"
      using poll_ptable [OF a] by simp
    show ?thesis
    proof (cases a)
      case (Key c)
      then show ?thesis
        using body False a s1 IH memshow_ptable [of k s1]
        by (auto simp: Let_def resumes_ok_def [of _ "(_, Panic _)"] split: if_splits outcome.splits)
    qed (use body False a s1 in \<open>auto simp: Let_def resumes_ok_def\<close>)
  qed
qed

lemma schedule_resumes: "schedule k kc kbd s = Some r \<Longrightarrow> resumes_ok k r \<and> ptable (fst r) = ptable s"
  unfolding schedule_def by (rule schedule_loop_resumes)

lemma resumes_ok_simps [simp]:
  "resumes_ok k (s, Panic m)" "resumes_ok k (s, Reboot m)" "resumes_ok k (s, Off)" "resumes_ok k (s, Return v)"
  "resumes_ok k (s, Undefined)"
  by (simp_all add: resumes_ok_def)

lemma exception_switch_resumes:
  assumes "exception_switch k kc kbd r s = Some x"
  shows "resumes_ok k x"
  using assms schedule_resumes run_resumes(1)
  by (auto simp: exception_switch_def Let_def split: if_splits)

lemma syscall_switch_resumes:
  assumes "syscall_switch k kc kbd r s = Some x"
  shows "resumes_ok k x"
proof -
  have page_alloc: "resumes_ok k (case y of Done (v, s) \<Rightarrow> (s, Return (of_int v)) | Abort \<Rightarrow> (s, Panic m) | _ \<Rightarrow> (s, Undefined))"
    for y :: "(int \<times> kernel) outcome" and m
    by (auto split: outcome.splits)
  show ?thesis
    using assms schedule_resumes page_alloc
    by (auto simp: syscall_switch_def Let_def simp del: map_option_eq_Some split: if_splits outcome.splits
        elim!: map_option_eq_Some [THEN iffD1, elim_format])
qed

lemma handler_resumes:
  assumes "(case m of
      Done s \<Rightarrow>
        (case poll kc kbd s of
           (Key c, s) \<Rightarrow> f s
         | (Restart a, s) \<Rightarrow> Some (s, Reboot a)
         | (Poweroff, s) \<Rightarrow> Some (s, Off))
    | _ \<Rightarrow> Some (s0, Panic msg)) = Some x" "\<And>s x. f s = Some x \<Longrightarrow> resumes_ok k x"
  shows "resumes_ok k x"
  using assms by (auto split: outcome.splits prod.splits key_action.splits)

text \<open>
  Whatever the interrupt or system call, the registers, the keyboard and the state,
  when \<^verbatim>\<open>exception\<close> or \<^verbatim>\<open>syscall\<close> ends in \<^verbatim>\<open>exception_return\<close>, the process resumed is the current one, is runnable
  and its page table has passed \<^verbatim>\<open>check_pagetable\<close>.
\<close>

lemma handlers_resume_checked:
  assumes "exception k kc kbd r s = Some x \<or> syscall k kc kbd r s = Some x"
  shows "resumes_ok k x"
  using assms
proof
  assume "exception k kc kbd r s = Some x"
  then show ?thesis
    unfolding exception_def Let_def by (rule handler_resumes) (rule exception_switch_resumes)
next
  assume "syscall k kc kbd r s = Some x"
  then show ?thesis
    unfolding syscall_def Let_def by (rule handler_resumes) (rule syscall_switch_resumes)
qed

text \<open>
  C29. A page fault stops the process that caused it and no other: after a fault in user mode, every other process is
  as it was, and a process that is resumed is another one, while the faulting one is marked \<^verbatim>\<open>P_FAULTED\<close>.
\<close>

theorem user_fault_isolates:
  assumes "exception k kc kbd r s = Some (s', e)" and fault: "reg_intno r = 14" "INT_TIMER k \<noteq> 14" "reg_errcode r AND PTE_U \<noteq> 0"
    and cur: "current s < length (ptable s)"
  shows "(\<forall>q. q \<noteq> current s \<longrightarrow> ptable s' ! q = ptable s ! q) \<and>
    (\<forall>p. e = Resume p \<longrightarrow> p \<noteq> current s \<and> runnable s' p \<and> pstate (ptable s' ! current s) = P_FAULTED)"
proof -
  let ?s = "set_regs r s"
  have set: "ptable ?s = (ptable s)[current s := (ptable s ! current s)\<lparr>regs := r\<rparr>]" "current ?s = current s"
    by (simp_all add: set_regs_def)
  show ?thesis
  proof (cases "memshow k ?s")
    case (Done s1)
    then have s1: "ptable s1 = ptable ?s" "current s1 = current s"
      using memshow_ptable set(2) by auto
    obtain a s2 where a: "poll kc kbd s1 = (a, s2)"
      by fastforce
    then have s2: "ptable s2 = ptable ?s" "current s2 = current s"
      using poll_ptable s1 by auto
    show ?thesis
    proof (cases a)
      case (Key c)
      let ?f = "s2\<lparr>ptable := (ptable s2)[current s := (ptable s2 ! current s)\<lparr>pstate := P_FAULTED\<rparr>]\<rparr>"
      have "pstate (ptable ?f ! current s) = P_FAULTED"
        using cur by (simp add: s2 set)
      moreover from this have "schedule k kc kbd ?f = Some (s', e)"
        using assms(1) fault Done a Key s2(2) by (simp add: exception_def exception_switch_def Let_def)
      then have "resumes_ok k (s', e) \<and> ptable s' = ptable ?f"
        using schedule_resumes by fastforce
      ultimately show ?thesis
        by (auto simp: resumes_ok_def s2 set)
    qed (use assms(1) fault Done a s2 set in \<open>auto simp: exception_def Let_def\<close>)
  qed (use assms(1) fault set in \<open>auto simp: exception_def Let_def\<close>)
qed

section \<open>A sample kernel\<close>

text \<open>Sixteen processes, 1 and 3 runnable, with one page table that maps low memory to itself.\<close>

definition sample_proc :: "nat \<Rightarrow> proc" where
  "sample_proc p =
     \<lparr>pagetable = 0x50000, pid = p, pstate = (if p = 1 \<or> p = 3 then P_RUNNABLE else P_FREE), regs = zero_regs, next_va = 0x100000\<rparr>"

definition sample_kernel :: kernel where
  "sample_kernel =
     \<lparr>ks = \<lparr>km = write64 (\<lambda>_. NUL) 0x50000 0x87, refcount = (\<lambda>_. 0)\<rparr>, ptable = map sample_proc [0..<16], current = 1,
      ticks = 1, last_ticks = 1, showing = 1, mu_v = Some 0x1000, kb = \<lparr>modifiers = 0, last_escape = 0\<rparr>, polls = 0\<rparr>"

lemma sample_check:
  assumes "read64 m 0x50000 = 0x87"
  shows "check_pagetable sample_conf m 0x50000"
  by (simp add: check_pagetable_def lookup_va_def vmiter_new_def real_find_def down_def va_is_canonical_def sample_conf_def
      pageindex_def pe_def assms numeral_3_eq_3 vm_pa_def pageoffmask_def)

definition sample_keys :: keyconf where
  "sample_keys =
     \<lparr>KEY_UP = 0xC0, KEY_RIGHT = 0xC1, KEY_DOWN = 0xC2, KEY_LEFT = 0xC3, KEY_HOME = 0xC4, KEY_END = 0xC5, KEY_PAGEUP = 0xC6,
      KEY_PAGEDOWN = 0xC7, KEY_INSERT = 0xC8, KEY_DELETE = 0xC9\<rparr>"

lemma sample_ptable: "p < 16 \<Longrightarrow> ptable sample_kernel ! p = sample_proc p" "length (ptable sample_kernel) = 16"
  "current sample_kernel = 1"
  by (simp_all add: sample_kernel_def)

lemma sample_kernel_ok: "ptable_ok sample_conf sample_kernel" "tables_checked sample_conf sample_kernel"
proof -
  show "ptable_ok sample_conf sample_kernel"
    by (simp add: ptable_ok_def sample_conf_def sample_ptable sample_proc_def)
  have "check_pagetable sample_conf (km (ks sample_kernel)) 0x50000"
    by (rule sample_check) (simp add: sample_kernel_def)
  then show "tables_checked sample_conf sample_kernel"
    by (simp add: tables_checked_def sample_ptable sample_proc_def sample_conf_def)
qed

text \<open>Witness: with 1 current and 1 and 3 runnable.\<close>

theorem schedule_round_robin_witness:
  "\<exists>d n. 0 < d \<and> d \<le> NPROC sample_conf \<and> runnable sample_kernel ((current sample_kernel + d) mod NPROC sample_conf) \<and>
    (\<forall>e. 0 < e \<and> e < d \<longrightarrow> \<not> runnable sample_kernel ((current sample_kernel + e) mod NPROC sample_conf)) \<and>
    schedule sample_conf sample_keys (\<lambda>_. None) sample_kernel =
      Some (run sample_conf (sample_kernel\<lparr>polls := n\<rparr>) ((current sample_kernel + d) mod NPROC sample_conf))"
proof (rule schedule_round_robin [OF sample_kernel_ok(1)])
  show "3 < NPROC sample_conf"
    by (simp add: sample_conf_def)
qed (simp_all add: sample_ptable sample_proc_def)

text \<open>Witness: process 3 gets its turn.\<close>

theorem schedule_no_starvation_witness:
  "3 \<in> set (turns sample_conf sample_keys (\<lambda>_. None) (NPROC sample_conf) sample_kernel)"
  by (rule schedule_no_starvation [OF sample_kernel_ok(1) _ sample_kernel_ok(2)])
    (simp_all add: sample_ptable sample_proc_def, simp add: sample_conf_def)

lemma show_search_first:
  "0 < n \<Longrightarrow> pstate (pt ! sh) \<noteq> P_FREE \<Longrightarrow> pagetable (pt ! sh) \<noteq> 0 \<Longrightarrow> show_search N pt n sh = (Some sh, sh)"
  by (cases n) simp_all

text \<open>A state that differs from the sample in process 1, in the memory of the viewer and in the number of polls.\<close>

definition near_sample :: "kernel \<Rightarrow> proc \<Rightarrow> bool" where
  "near_sample s p \<longleftrightarrow>
     ptable s = (ptable sample_kernel)[1 := p] \<and> pid p = 1 \<and> pstate p \<noteq> P_FREE \<and> pagetable p = 0x50000 \<and>
     mu_v s = Some 0x1000 \<and> showing s = 1 \<and> last_ticks s = 1 \<and> ticks s = 1 \<and> current s = 1 \<and>
     read64 (km (ks s)) 0x50000 = 0x87"

lemma sample_memshow:
  assumes "near_sample s p"
  shows "\<exists>s'. memshow sample_conf s = Done s' \<and> near_sample s' p"
proof -
  have "show_search 16 (ptable s) 16 1 = (Some 1, 1)"
    using assms by (simp add: near_sample_def show_search_first sample_ptable)
  then have "memshow sample_conf s = Done (s\<lparr>ks := (ks s)\<lparr>km := memset (km (ks s)) 0x1000 0 4096\<rparr>\<rparr>)"
    using assms by (simp add: near_sample_def memshow_def sample_conf_def console_memviewer_def sample_ptable sample_proc_def)
  then show ?thesis
    using assms read64_memset_other [of "0x50000" "0x1000" 4096 "km (ks s)" 0] by (auto simp: near_sample_def)
qed

lemma sample_schedule:
  assumes "near_sample s p"
  shows "\<exists>s'. schedule sample_conf sample_keys (\<lambda>_. None) s = Some (s', Resume 3)"
proof -
  have s: "ptable s = (ptable sample_kernel)[1 := p]" "pid p = 1" "current s = 1" "read64 (km (ks s)) 0x50000 = 0x87"
    using assms by (simp_all add: near_sample_def)
  have "ptable_ok sample_conf s"
    using s by (auto simp: ptable_ok_def sample_conf_def nth_list_update sample_ptable sample_proc_def)
  moreover have "runnable s ((current s + 2) mod NPROC sample_conf)"
    using s by (simp add: sample_conf_def sample_ptable sample_proc_def)
  moreover have "\<not> runnable s ((current s + e) mod NPROC sample_conf)" if "0 < e \<and> e < 2" for e
  proof -
    have "e = 1"
      using that by simp
    then show ?thesis
      using s by (simp add: sample_conf_def sample_ptable sample_proc_def)
  qed
  ultimately have "schedule sample_conf sample_keys (\<lambda>_. None) s =
      Some (run sample_conf (s\<lparr>polls := polls s + (2 - 1)\<rparr>) ((current s + 2) mod NPROC sample_conf))"
    by (intro schedule_first) (simp_all, simp_all add: sample_conf_def)
  moreover have "run sample_conf (s\<lparr>polls := n\<rparr>) 3 = (s\<lparr>polls := n, current := 3\<rparr>, Resume 3)" for n
    using s sample_check [of "km (ks s)"] by (simp add: run_def sample_ptable sample_proc_def)
  ultimately show ?thesis
    using s(3) by (simp add: sample_conf_def)
qed

lemma near_sample_simps:
  "near_sample (set_regs r sample_kernel) ((sample_proc 1)\<lparr>regs := r\<rparr>)"
  "near_sample s p \<Longrightarrow> near_sample (s\<lparr>polls := n\<rparr>) p"
  "near_sample s p \<Longrightarrow> near_sample (set_regs r s) (p\<lparr>regs := r\<rparr>)"
  "near_sample s p \<Longrightarrow> st \<noteq> P_FREE \<Longrightarrow>
     near_sample (s\<lparr>ptable := (ptable s)[current s := (ptable s ! current s)\<lparr>pstate := st\<rparr>]\<rparr>) (p\<lparr>pstate := st\<rparr>)"
  by (simp_all add: near_sample_def set_regs_def sample_ptable sample_proc_def, simp_all add: sample_kernel_def)

text \<open>Process 1 yields, and process 3 is resumed.\<close>

lemma yield_resumes_next:
  "\<exists>s'. syscall sample_conf sample_keys (\<lambda>_. None) (zero_regs\<lparr>reg_rax := 2\<rparr>) sample_kernel = Some (s', Resume 3) \<and>
     resumes_ok sample_conf (s', Resume 3)"
proof -
  let ?r = "zero_regs\<lparr>reg_rax := 2\<rparr>"
  obtain s1 p where s1: "memshow sample_conf (set_regs ?r sample_kernel) = Done s1" "near_sample s1 p"
    using sample_memshow [OF near_sample_simps(1)] by blast
  obtain s' where "schedule sample_conf sample_keys (\<lambda>_. None)
      (set_regs (?r\<lparr>reg_rax := 0\<rparr>) (s1\<lparr>polls := Suc (polls s1)\<rparr>)) = Some (s', Resume 3)"
    using sample_schedule [OF near_sample_simps(3) [OF near_sample_simps(2) [OF s1(2)]]] by blast
  then have "syscall sample_conf sample_keys (\<lambda>_. None) ?r sample_kernel = Some (s', Resume 3)"
    using s1(1) poll_silent [of "\<lambda>_. None" s1 sample_keys] by (simp add: syscall_def syscall_switch_def)
  then show ?thesis
    using handlers_resume_checked by blast
qed

text \<open>Witness: process 1 faults on a page, and process 3 is resumed.\<close>

theorem user_fault_isolates_witness:
  "\<exists>s'. exception sample_conf sample_keys (\<lambda>_. None) (zero_regs\<lparr>reg_intno := 14, reg_errcode := 6\<rparr>) sample_kernel =
       Some (s', Resume 3) \<and> pstate (ptable s' ! 1) = P_FAULTED"
proof -
  let ?r = "zero_regs\<lparr>reg_intno := 14, reg_errcode := 6\<rparr>"
  obtain s1 p where s1: "memshow sample_conf (set_regs ?r sample_kernel) = Done s1" "near_sample s1 p"
    using sample_memshow [OF near_sample_simps(1)] by blast
  let ?s = "s1\<lparr>polls := Suc (polls s1)\<rparr>"
  let ?f = "?s\<lparr>ptable := (ptable ?s)[current ?s := (ptable ?s ! current ?s)\<lparr>pstate := P_FAULTED\<rparr>]\<rparr>"
  have f: "near_sample ?f (p\<lparr>pstate := P_FAULTED\<rparr>)"
    using near_sample_simps(4) [OF near_sample_simps(2) [OF s1(2)], of P_FAULTED] by simp
  then obtain s' where "schedule sample_conf sample_keys (\<lambda>_. None) ?f = Some (s', Resume 3)"
    using sample_schedule by blast
  moreover have "pstate (ptable ?f ! current ?f) = P_FAULTED"
    using s1(2) by (simp add: near_sample_def sample_ptable)
  ultimately have e: "exception sample_conf sample_keys (\<lambda>_. None) ?r sample_kernel = Some (s', Resume 3)"
    using s1(1) poll_silent [of "\<lambda>_. None" s1 sample_keys]
    by (simp add: exception_def exception_switch_def sample_conf_def [THEN arg_cong, of INT_TIMER] Let_def)
  then show ?thesis
    using user_fault_isolates [OF e] by (simp add: sample_conf_def sample_ptable)
qed

end
