(* ===== verification/Kernel_Procs.thy ===== *)
theory Kernel_Procs
  imports Kernel_Maps Kernel_Sched
begin

text \<open>
  The page table that \<^verbatim>\<open>process_setup\<close> makes for a process: the kernel's memory read-only and out of the reach of
  the process, the first \<^verbatim>\<open>PROC_SIZE\<close> bytes of process memory, nothing else; and the kernel's own page table is left alone.
\<close>

unbundle bit_operations_syntax

section \<open>The next page\<close>

lemma next_page:
  fixes va :: ulong
  assumes "unat va mod PAGESIZE = 0"
  shows "(va OR pageoffmask 0) + 1 = va + of_nat PAGESIZE"
proof -
  have "take_bit 12 va = 0"
    using assms by (simp add: take_bit_eq_mod word_unat_eq_iff unat_mod)
  then have "\<not> bit va n" if "n < 12" for n
    using that by (metis bit_0_eq bit_take_bit_iff bot_apply bot_bool_def)
  then have "va OR mask 12 = va + mask 12"
    by (intro disjunctive_add [symmetric]) (auto simp: bit_mask_iff)
  then show ?thesis
    by (simp add: pageoffmask_mask mask_eq_exp_minus_1)
qed

lemma vm_next_positioned:
  assumes inv: "pt_inv k (vm_pt it) s" and pos: "positioned (km s) it p i [] t" and va: "vm_va it = of_nat a"
    "PAGESIZE dvd a" "a + PAGESIZE < 2 ^ 47"
  shows "\<exists>it' p i q t. vm_next (km s) it = Done it' \<and> vm_pt it' = vm_pt it \<and> vm_va it' = of_nat (a + PAGESIZE) \<and>
    positioned (km s) it' p i q t"
proof -
  have "unat (vm_va it) mod PAGESIZE = 0"
    using va unat_page(1) [of a] by (simp add: dvd_eq_mod_eq_0)
  moreover have "vm_level it = 0"
    using pos by (simp add: positioned_def)
  ultimately have "vm_next (km s) it = real_find (km s) it (of_nat (a + PAGESIZE))"
    using next_page [of "vm_va it"] va(1) by (simp add: vm_next_def add.commute)
  then show ?thesis
    using real_find_positioned [OF inv pos unat_page(2) [OF va(3)]] by simp
qed

section \<open>Low memory\<close>

text \<open>One table covers the first two megabytes.\<close>

lemma low_path:
  assumes "a < 0x200000"
  shows "take 3 (vpath (of_nat a)) = [0, 0, 0]"
proof -
  have u: "unat (of_nat a :: ulong) = a"
    using unat_page(1) [of a] assms by simp
  have "pageindex (of_nat a) 3 = 0" "pageindex (of_nat a) 2 = 0" "pageindex (of_nat a) 1 = 0"
    using assms by (simp_all add: pageindex_unat u)
  then show ?thesis
    by (simp add: vpath_def numeral_3_eq_3)
qed

definition low_table :: "mem \<Rightarrow> nat \<Rightarrow> bool" where
  "low_table m pt \<longleftrightarrow> (\<exists>t. table_at m pt [0, 0, 0] t)"

lemma low_covered: "low_table m pt \<Longrightarrow> a < 0x200000 \<Longrightarrow> covered m pt (of_nat a)"
  by (simp add: covered_def low_path low_table_def)

lemma positioned_low_table:
  assumes "positioned m it p i [] t" "vm_va it = of_nat a" "a < 0x200000"
  shows "low_table m (vm_pt it)"
proof -
  have p: "vpath (of_nat a) = p @ [i]" "table_at m (vm_pt it) p t"
    using assms(1,2) by (simp_all add: positioned_def)
  then have "length p = 3"
    using vpath_nth(3) [OF p(1)] by simp
  then have "p = [0, 0, 0]"
    using low_path [OF assms(3)] p(1) by simp
  then show ?thesis
    using p(2) by (auto simp: low_table_def)
qed

section \<open>The kernel's mapping that the loop copies\<close>

definition identity_kernel :: "kconf \<Rightarrow> kmem \<Rightarrow> bool" where
  "identity_kernel k s \<longleftrightarrow>
     pt_inv k (kernel_pagetable k) s \<and> low_table (km s) (kernel_pagetable k) \<and>
     (\<forall>va. PAGESIZE \<le> unat va \<and> unat va < PROC_START_ADDR k \<longrightarrow>
       (\<exists>perm. mapping (km s) (kernel_pagetable k) (vpath va) = Some (of_nat (unat va - unat va mod PAGESIZE), perm, 0)))"

lemma identity_untouched:
  assumes "identity_kernel k s" and un: "untouched k (kernel_pagetable k) s s'"
  shows "identity_kernel k s'"
  using assms(1) untouched_pt_inv [OF un] untouched_table_at [OF un] untouched_mapping [OF un]
  by (simp add: identity_kernel_def low_table_def idxs_vpath)

section \<open>The loops\<close>

text \<open>What the loops keep: both page tables, their tables apart, the kernel's mapping.\<close>

definition setup_inv :: "kconf \<Rightarrow> nat \<Rightarrow> kmem \<Rightarrow> bool" where
  "setup_inv k pt s \<longleftrightarrow> pt_inv k pt s \<and> apart pt (kernel_pagetable k) s \<and> identity_kernel k s"

lemma setup_inv_keeps:
  assumes "setup_inv k pt s" "keeps k pt s s'" "pt_inv k pt s'"
  shows "setup_inv k pt s'"
proof -
  have s: "apart pt (kernel_pagetable k) s" "identity_kernel k s" "pt_inv k (kernel_pagetable k) s"
    using assms(1) by (simp_all add: setup_inv_def identity_kernel_def)
  show ?thesis
    using identity_untouched [OF s(2) keeps_untouched(1) [OF s(3,1) assms(2)]] keeps_other(2) [OF s(3,1) assms(2)] assms(3) by (simp add: setup_inv_def)
qed

text \<open>A step of either loop: a page is mapped by an iterator that stands in a table.\<close>

lemma setup_step:
  assumes inv: "setup_inv k pt s" and pos: "positioned (km s) pit p i q t" and pit: "vm_pt pit = pt" "vm_va pit = of_nat a"
    and low: "low_table (km s) pt" "a < 0x200000" "PAGESIZE dvd a" and perm: "perm AND PTE_P \<noteq> 0" "perm \<le> 0xFFF"
  shows "\<exists>s'. try_map k pit (of_nat a) perm s = Some (Done (0, pit, s')) \<and> setup_inv k pt s' \<and> keeps k pt s s' \<and>
    low_table (km s') pt \<and> positioned (km s') pit p i [] t \<and>
    (\<forall>va. va_is_canonical va \<longrightarrow> mapping (km s') pt (vpath va) =
      (if a \<le> unat va \<and> unat va < a + PAGESIZE then Some (of_nat a, perm, 0) else mapping (km s) pt (vpath va)))"
proof -
  have u: "unat (of_nat a :: ulong) = a"
    using unat_page(1) [of a] low(2) by simp
  have q: "q = []"
    using covered_level(1) [OF _ pos] low_covered [OF low(1,2)] pit by simp
  obtain s' where s': "try_map k pit (of_nat a) perm s = Some (Done (0, pit, s'))" "pt_inv k pt s'" "keeps k pt s s'"
    "positioned (km s') pit p i [] t" "\<forall>q u. table_at (km s') pt q u = table_at (km s) pt q u"
    and maps: "\<forall>q. idxs q \<and> length q = 4 \<longrightarrow> mapping (km s') pt q =
      (if q = vpath (of_nat a) then page_mapping (of_nat a) perm else mapping (km s) pt q)"
    using try_map_covered [of k pit s p i t perm "of_nat a"] inv pos q pit u low(2,3) perm page_address [OF low(3)]
    by (auto simp: setup_inv_def dvd_eq_mod_eq_0)
  have "mapping (km s') pt (vpath va) =
      (if a \<le> unat va \<and> unat va < a + PAGESIZE then Some (of_nat a, perm, 0) else mapping (km s) pt (vpath va))"
    if c: "va_is_canonical va" for va
  proof -
    have "vpath va = vpath (of_nat a) \<longleftrightarrow> a \<le> unat va \<and> unat va < a + PAGESIZE"
      using same_page [OF c, of a] low(2,3) by (auto simp: div_nat_eqI elim!: dvdE)
    moreover have "perm \<noteq> 0"
      using perm(1) by auto
    ultimately show ?thesis
      using maps [rule_format, of "vpath va"] by (simp add: idxs_vpath page_mapping_def)
  qed
  then show ?thesis
    using s' setup_inv_keeps [OF inv s'(3,2)] low(1) by (auto simp: low_table_def)
qed

lemma setup_process_pages_correct:
  assumes "setup_inv k pt s" "positioned (km s) pit p i q t" "vm_pt pit = pt" "vm_va pit = of_nat a"
    "low_table (km s) pt" "PAGESIZE dvd a" "a + n * PAGESIZE \<le> 0x200000"
  shows "\<exists>pit' s'. setup_process_pages k n a pit s = Some (Done (pit', s')) \<and> setup_inv k pt s' \<and> keeps k pt s s' \<and>
    (\<forall>va. va_is_canonical va \<longrightarrow> mapping (km s') pt (vpath va) =
      (if a \<le> unat va \<and> unat va < a + n * PAGESIZE then Some (of_nat (unat va - unat va mod PAGESIZE), PTE_PWU, 0)
       else mapping (km s) pt (vpath va)))"
  using assms
proof (induction n arbitrary: a s pit p i q t)
  case (Suc n)
  have a: "a < 0x200000"
    using Suc.prems(7) by simp
  obtain s1 where s1: "try_map k pit (of_nat a) PTE_PWU s = Some (Done (0, pit, s1))" "setup_inv k pt s1" "keeps k pt s s1"
    "low_table (km s1) pt" "positioned (km s1) pit p i [] t"
    and maps: "\<forall>va. va_is_canonical va \<longrightarrow> mapping (km s1) pt (vpath va) =
      (if a \<le> unat va \<and> unat va < a + PAGESIZE then Some (of_nat a, PTE_PWU, 0) else mapping (km s) pt (vpath va))"
    using setup_step [OF Suc.prems(1-5) a Suc.prems(6), of PTE_PWU] by auto
  have nx: "va_is_canonical (of_nat a + of_nat PAGESIZE)" "of_nat a + of_nat PAGESIZE \<noteq> (of_nat a :: ulong)"
    using unat_page(2) [of "a + PAGESIZE"] a by simp_all
  have inv1: "pt_inv k (vm_pt pit) s1"
    using s1(2) Suc.prems(3) by (simp add: setup_inv_def)
  obtain pit1 p1 i1 q1 t1 where pit1: "vm_find (km s1) pit (vm_va pit + of_nat PAGESIZE) = Done pit1" "vm_pt pit1 = pt"
    "vm_va pit1 = of_nat (a + PAGESIZE)" "positioned (km s1) pit1 p1 i1 q1 t1"
    using real_find_positioned [OF inv1 s1(5) nx(1)] nx(2) Suc.prems(3,4) by (auto simp: vm_find_def)
  obtain pit' s' where s': "setup_process_pages k n (a + PAGESIZE) pit1 s1 = Some (Done (pit', s'))" "setup_inv k pt s'"
    "keeps k pt s1 s'"
    and maps': "\<forall>va. va_is_canonical va \<longrightarrow> mapping (km s') pt (vpath va) =
      (if a + PAGESIZE \<le> unat va \<and> unat va < a + PAGESIZE + n * PAGESIZE
       then Some (of_nat (unat va - unat va mod PAGESIZE), PTE_PWU, 0) else mapping (km s1) pt (vpath va))"
    using Suc.IH [OF s1(2) pit1(4,2,3) s1(4)] Suc.prems(6,7) by auto
  have "mapping (km s') pt (vpath va) =
      (if a \<le> unat va \<and> unat va < a + Suc n * PAGESIZE then Some (of_nat (unat va - unat va mod PAGESIZE), PTE_PWU, 0)
       else mapping (km s) pt (vpath va))" if "va_is_canonical va" for va
    using maps maps' that page_floor [OF Suc.prems(6), of "unat va"] by auto
  then show ?case
    using s1(1) pit1(1) s'(1,2) keeps_trans [OF s1(3) s'(3)] by auto
qed auto

lemma identity_pa:
  assumes id: "identity_kernel k s" and pos: "positioned (km s) kit p i q t" "vm_pt kit = kernel_pagetable k"
    and va: "vm_va kit = of_nat a" "PAGESIZE dvd a" "PAGESIZE \<le> a" "a < PROC_START_ADDR k" "a < 2 ^ 47"
  shows "vm_pa (km s) kit = of_nat a"
proof -
  have u: "unat (of_nat a :: ulong) = a"
    by (rule unat_page(1) [OF va(5)])
  obtain perm where "mapping (km s) (kernel_pagetable k) (vpath (of_nat a)) = Some (of_nat (a - a mod PAGESIZE), perm, 0)"
    using id va(3,4) u unfolding identity_kernel_def by (metis (no_types))
  moreover have "of_nat a AND pageoffmask 0 = (0 :: ulong)"
    using page_plus_offset [of "of_nat a"] u va(2) by (simp add: dvd_eq_mod_eq_0)
  ultimately show ?thesis
    using positioned_translate [of k kit s, OF _ pos(1)] id pos(2) va(1,2)
    by (simp add: identity_kernel_def translate_def dvd_eq_mod_eq_0)
qed

lemma kernel_iterator_next:
  assumes inv: "setup_inv k pt s" and pos: "positioned (km s) kit p i q t" "vm_pt kit = kernel_pagetable k"
    and a: "vm_va kit = of_nat a" "PAGESIZE dvd a" "a < 0x200000"
  shows "\<exists>kit' p i q t. vm_next (km s) kit = Done kit' \<and> vm_pt kit' = kernel_pagetable k \<and> vm_va kit' = of_nat (a + PAGESIZE) \<and>
    positioned (km s) kit' p i q t"
proof -
  have id: "pt_inv k (vm_pt kit) s" "low_table (km s) (vm_pt kit)"
    using inv pos(2) by (simp_all add: setup_inv_def identity_kernel_def)
  have "q = []"
    using covered_level(1) [OF _ pos(1)] low_covered [OF id(2) a(3)] a(1) by simp
  then show ?thesis
    using vm_next_positioned [OF id(1), of p i t a] pos a by simp
qed

lemma setup_kernel_pages_covered:
  assumes "setup_inv k pt s" "positioned (km s) pit p i q t" "vm_pt pit = pt" "vm_va pit = of_nat a"
    "positioned (km s) kit p' i' q' t'" "vm_pt kit = kernel_pagetable k" "vm_va kit = of_nat a"
    "low_table (km s) pt" "PAGESIZE dvd a" "PAGESIZE \<le> a" "a + n * PAGESIZE = PROC_START_ADDR k" "PROC_START_ADDR k < 0x200000"
  shows "\<exists>pit' s' p i q t. setup_kernel_pages k kit pit s = Some (Done (pit', s')) \<and> setup_inv k pt s' \<and> keeps k pt s s' \<and>
    vm_pt pit' = pt \<and> vm_va pit' = of_nat (PROC_START_ADDR k) \<and> positioned (km s') pit' p i q t \<and> low_table (km s') pt \<and>
    (\<forall>va. va_is_canonical va \<longrightarrow> mapping (km s') pt (vpath va) =
      (if a \<le> unat va \<and> unat va < PROC_START_ADDR k then Some (of_nat (unat va - unat va mod PAGESIZE), PTE_P, 0)
       else mapping (km s) pt (vpath va)))"
  using assms
proof (induction n arbitrary: a s pit kit p i q t p' i' q' t')
  case 0
  then have "unat (vm_va pit) = PROC_START_ADDR k"
    using unat_page(1) [of a] by simp
  then have "setup_kernel_pages k kit pit s = Some (Done (pit, s))"
    by (subst setup_kernel_pages.simps) simp
  then show ?case
    using 0 by (intro exI [of _ pit] exI [of _ s]) auto
next
  case (Suc n)
  have a: "a < 0x200000" "a < PROC_START_ADDR k"
    using Suc.prems(11,12) by simp_all
  have u: "unat (of_nat a :: ulong) = a"
    using unat_page(1) [of a] a by simp
  have pa: "vm_pa (km s) kit = of_nat a"
    using identity_pa [OF _ Suc.prems(5-7,9,10) a(2)] Suc.prems(1) a by (simp add: setup_inv_def)
  obtain s1 where s1: "try_map k pit (of_nat a) PTE_P s = Some (Done (0, pit, s1))" "setup_inv k pt s1" "keeps k pt s s1"
    "low_table (km s1) pt" "positioned (km s1) pit p i [] t"
    and maps: "\<forall>va. va_is_canonical va \<longrightarrow> mapping (km s1) pt (vpath va) =
      (if a \<le> unat va \<and> unat va < a + PAGESIZE then Some (of_nat a, PTE_P, 0) else mapping (km s) pt (vpath va))"
    using setup_step [OF Suc.prems(1-4,8) a(1) Suc.prems(9), of PTE_P] by auto
  have k1: "positioned (km s1) kit p' i' q' t'"
    using keeps_positioned [of k kit s pt s1, OF _ _ s1(3) Suc.prems(5)] Suc.prems(1,6)
    by (simp add: setup_inv_def identity_kernel_def)
  obtain kit1 p1' i1' q1' t1' where kit1: "vm_next (km s1) kit = Done kit1" "vm_pt kit1 = kernel_pagetable k"
    "vm_va kit1 = of_nat (a + PAGESIZE)" "positioned (km s1) kit1 p1' i1' q1' t1'"
    using kernel_iterator_next [OF s1(2) k1 Suc.prems(6,7,9) a(1)] by blast
  have inv1: "pt_inv k (vm_pt pit) s1"
    using s1(2) Suc.prems(3) by (simp add: setup_inv_def)
  obtain pit1 p1 i1 q1 t1 where pit1: "vm_next (km s1) pit = Done pit1" "vm_pt pit1 = pt"
    "vm_va pit1 = of_nat (a + PAGESIZE)" "positioned (km s1) pit1 p1 i1 q1 t1"
    using vm_next_positioned [OF inv1 s1(5) Suc.prems(4,9)] a(1) Suc.prems(3) by auto
  have step: "setup_kernel_pages k kit pit s = setup_kernel_pages k kit1 pit1 s1"
    using Suc.prems(4) u a(2) pa s1(1) kit1(1) pit1(1) by (subst setup_kernel_pages.simps) simp
  have more: "PAGESIZE dvd a + PAGESIZE" "PAGESIZE \<le> a + PAGESIZE" "a + PAGESIZE + n * PAGESIZE = PROC_START_ADDR k"
    using Suc.prems(9,11) by simp_all
  obtain pit' s' p2 i2 q2 t2 where s': "setup_kernel_pages k kit1 pit1 s1 = Some (Done (pit', s'))" "setup_inv k pt s'" "keeps k pt s1 s'"
      "vm_pt pit' = pt" "vm_va pit' = of_nat (PROC_START_ADDR k)" "positioned (km s') pit' p2 i2 q2 t2" "low_table (km s') pt"
    and maps': "\<forall>va. va_is_canonical va \<longrightarrow> mapping (km s') pt (vpath va) =
      (if a + PAGESIZE \<le> unat va \<and> unat va < PROC_START_ADDR k then Some (of_nat (unat va - unat va mod PAGESIZE), PTE_P, 0)
       else mapping (km s1) pt (vpath va))"
    using Suc.IH [OF s1(2) pit1(4,2,3) kit1(4,2,3) s1(4) more Suc.prems(12)] by blast
  have "mapping (km s') pt (vpath va) =
      (if a \<le> unat va \<and> unat va < PROC_START_ADDR k then Some (of_nat (unat va - unat va mod PAGESIZE), PTE_P, 0)
       else mapping (km s) pt (vpath va))" if "va_is_canonical va" for va
    using maps maps' that page_floor [OF Suc.prems(9), of "unat va"] Suc.prems(11) by auto
  then show ?case
    using step s'(1,2,4-7) keeps_trans [OF s1(3) s'(3)]
    by (intro exI [of _ pit'] exI [of _ s'] exI [of _ p2] exI [of _ i2] exI [of _ q2] exI [of _ t2]) simp
qed

section \<open>The first page of a new page table\<close>

lemma empty_table_mapping:
  assumes "\<forall>i<512. ent m pt i = 0" "idxs q"
  shows "mapping m pt q = None"
proof -
  have "fst (walk m pt q 0xFFF) = 0"
    using assms by (cases q; cases "tl q") auto
  then show ?thesis
    by (simp add: mapping_def split_beta)
qed

lemma kalloc_fails:
  assumes "kalloc k PAGESIZE s = (None, s')" "PAGESIZE dvd MEMSIZE_PHYSICAL k"
  shows "free_pages k s = {}"
proof -
  have none: "\<forall>i<MEMSIZE_PHYSICAL k div PAGESIZE. \<not> free_page k s (i * PAGESIZE)"
    using kalloc_from_None [of k _ 0 s s'] assms(1) by (simp add: kalloc_def free_page_def)
  have "\<not> free_page k s a" if "PAGESIZE dvd a" for a
  proof (cases "a < MEMSIZE_PHYSICAL k")
    case True
    then show ?thesis
      using none [rule_format, of "a div PAGESIZE"] that assms(2) by (auto elim!: dvdE)
  qed (simp add: free_page_def allocatable_physical_address_def)
  then show ?thesis
    by (auto simp: free_pages_def)
qed

lemma first_page:
  assumes inv: "setup_inv k pt s" and empty: "\<forall>i<512. ent (km s) pt i = 0" and free: "card (free_pages k s) > 3"
    and conf: "conf_ok k" and pit: "positioned (km s) pit p i q t" "vm_pt pit = pt" "vm_va pit = of_nat PAGESIZE"
  shows "\<exists>pit' s' p i t. try_map k pit (of_nat PAGESIZE) PTE_P s = Some (Done (0, pit', s')) \<and> setup_inv k pt s' \<and>
    keeps k pt s s' \<and> vm_pt pit' = pt \<and> vm_va pit' = of_nat PAGESIZE \<and> positioned (km s') pit' p i [] t \<and> low_table (km s') pt \<and>
    (\<forall>va. va_is_canonical va \<longrightarrow> mapping (km s') pt (vpath va) =
      (if PAGESIZE \<le> unat va \<and> unat va < 2 * PAGESIZE then Some (of_nat PAGESIZE, PTE_P, 0) else None))"
proof -
  let ?va = "of_nat PAGESIZE :: ulong"
  have mem: "MEMSIZE_PHYSICAL k \<le> 2 ^ 32" "PAGESIZE dvd MEMSIZE_PHYSICAL k"
    using conf by (auto simp: conf_ok_def)
  have inv': "pt_inv k (vm_pt pit) s"
    using inv pit(2) by (simp add: setup_inv_def)
  have "table_at (km s) pt p t" "vm_level pit \<le> 3" "i < 512"
    using pit vpath_nth [of "vm_va pit" p i q] by (auto simp: positioned_def)
  then have "ent (km s) t i = 0"
    using empty_table_at [OF empty] empty by simp
  then have absent: "vm_level pit > 0 \<Longrightarrow> ent (km s) t i AND PTE_P = 0"
    by simp
  have P: "unat (vm_va pit) mod PAGESIZE = 0" "?va AND PTE_PAMASK = ?va" "?va < 0x100000000" "PTE_P \<le> 0xFFF" "PTE_P AND PTE_P \<noteq> 0"
    using pit(3) by simp_all
  obtain r pit' s' where r: "try_map k pit ?va PTE_P s = Some (Done (r, pit', s'))" "pt_inv k pt s'"
    "r = 0 \<or> r = - 1 \<and> kalloc k PAGESIZE s' = (None, s')" "keeps k pt s s'"
    "card (free_pages k s) \<le> card (free_pages k s') + vm_level pit"
    "r = 0 \<longrightarrow> vm_pt pit' = pt \<and> vm_va pit' = ?va \<and> (\<exists>p i t. positioned (km s') pit' p i [] t)"
    and maps: "\<forall>q. idxs q \<and> length q = 4 \<longrightarrow> mapping (km s') pt q =
      (if r = 0 \<and> q = vpath ?va then Some (?va, PTE_P, 0) else mapping (km s) pt q)"
    using try_map_positioned [OF inv' pit(1) absent mem P] unfolding pit(2,3) by blast
  have "kalloc k PAGESIZE s' \<noteq> (None, s')"
    using kalloc_fails [OF _ mem(2), of s' s'] r(5) free \<open>vm_level pit \<le> 3\<close> by auto
  then have r0: "r = 0"
    using r(3) by blast
  have none: "mapping (km s) pt (vpath va) = None" for va
    using empty_table_mapping [OF empty idxs_vpath] by simp
  have "mapping (km s') pt (vpath va) =
      (if PAGESIZE \<le> unat va \<and> unat va < 2 * PAGESIZE then Some (?va, PTE_P, 0) else None)" if c: "va_is_canonical va" for va
  proof -
    have "vpath va = vpath ?va \<longleftrightarrow> PAGESIZE \<le> unat va \<and> unat va < 2 * PAGESIZE"
      using same_page [OF c, of PAGESIZE] by (auto simp: div_nat_eqI)
    then show ?thesis
      using maps [rule_format, of "vpath va"] r0 none by (simp add: idxs_vpath)
  qed
  moreover obtain p' i' t' where pos': "positioned (km s') pit' p' i' [] t'" "vm_pt pit' = pt" "vm_va pit' = ?va"
    using r(6) r0 by blast
  moreover have "low_table (km s') pt"
    using positioned_low_table [OF pos'(1,3)] pos'(2) by simp
  ultimately show ?thesis
    using r(1) r0 setup_inv_keeps [OF inv r(4,2)] r(4)
    by (intro exI [of _ pit'] exI [of _ s'] exI [of _ p'] exI [of _ i'] exI [of _ t']) simp
qed

section \<open>The page table of a process\<close>

lemma new_pagetable:
  assumes conf: "conf_ok k" and id: "identity_kernel k s" and free: "card (free_pages k s) > 4"
  shows "\<exists>pt s1. kalloc_pagetable k s = (Some pt, s1) \<and> setup_inv k pt s1 \<and> (\<forall>i<512. ent (km s1) pt i = 0) \<and>
    card (free_pages k s1) > 3 \<and> untouched k (kernel_pagetable k) s s1"
proof -
  have mem: "MEMSIZE_PHYSICAL k \<le> 2 ^ 32" "PAGESIZE dvd MEMSIZE_PHYSICAL k"
    using conf by (auto simp: conf_ok_def)
  have "fst (kalloc k PAGESIZE s) \<noteq> None"
  proof
    assume "fst (kalloc k PAGESIZE s) = None"
    then have "free_pages k s = {}"
      using kalloc_fails [OF _ mem(2), of s] by (metis prod.collapse)
    then show False
      using free by simp
  qed
  then obtain pt s0 where pt: "kalloc k PAGESIZE s = (Some pt, s0)"
    by (metis option.exhaust prod.collapse)
  note K = kalloc_free [OF pt mem]
  let ?s = "s0\<lparr>km := memset (km s0) pt 0 (8 * 512)\<rparr>"
  have zero: "\<forall>i<512. ent (km ?s) pt i = 0"
    using ent_memset(2) [OF K(1) K(1)] by simp
  have div: "u div PAGESIZE = pt div PAGESIZE \<longleftrightarrow> u = pt" if "PAGESIZE dvd u" for u
    using K(1) that by (auto elim!: dvdE)
  have fp: "free_pages k ?s = free_pages k s - {pt}"
    using div by (auto simp: free_pages_def free_page_def K(5))
  have nf: "\<not> free_page k ?s pt"
    by (simp add: free_page_def K(5))
  have inv: "pt_inv k pt ?s"
    by (rule empty_table_inv [OF zero K(1,4) nf])
  have kinv: "pt_inv k (kernel_pagetable k) s"
    using id by (simp add: identity_kernel_def)
  have un: "untouched k (kernel_pagetable k) s ?s"
    unfolding untouched_def
  proof (intro allI impI conjI)
    fix p t
    assume t: "table_at (km s) (kernel_pagetable k) p t"
    note D = pt_invD(1,3) [OF kinv t]
    have "t \<noteq> pt"
      using D(2) K(3) by auto
    then show "\<not> free_page k ?s t"
      using D fp by (auto simp: free_pages_def)
    fix x
    assume "t \<le> x \<and> x < t + PAGESIZE"
    then have "x < pt \<or> pt + PAGESIZE \<le> x"
      using page_bytes_apart [OF K(1) D(1) \<open>t \<noteq> pt\<close>] by blast
    then show "km ?s x = km s x"
      by (auto simp: K(5) memset_apply)
  qed
  have "apart pt (kernel_pagetable k) ?s"
    using kinv K(3) pt_invD(3) [OF kinv] unfolding apart_def empty_table_at [OF zero] untouched_table_at [OF un] by blast
  moreover have "card (free_pages k ?s) > 3"
    using free unfolding fp by (simp add: card_Diff_singleton_if) arith
  ultimately show ?thesis
    using pt inv zero un identity_untouched [OF id un]
    by (intro exI [of _ pt] exI [of _ ?s]) (simp add: kalloc_pagetable_def setup_inv_def)
qed

lemma setup_kernel_pages_correct:
  assumes inv: "setup_inv k pt s" and empty: "\<forall>i<512. ent (km s) pt i = 0" and free: "card (free_pages k s) > 3"
    and conf: "conf_ok k" "2 * PAGESIZE \<le> PROC_START_ADDR k" "PROC_START_ADDR k < 0x200000"
    and kit: "positioned (km s) kit p i q t" "vm_pt kit = kernel_pagetable k" "vm_va kit = of_nat PAGESIZE"
    and pit: "positioned (km s) pit p' i' q' t'" "vm_pt pit = pt" "vm_va pit = of_nat PAGESIZE"
  shows "\<exists>pit' s' p i q t. setup_kernel_pages k kit pit s = Some (Done (pit', s')) \<and> setup_inv k pt s' \<and> keeps k pt s s' \<and>
    vm_pt pit' = pt \<and> vm_va pit' = of_nat (PROC_START_ADDR k) \<and> positioned (km s') pit' p i q t \<and> low_table (km s') pt \<and>
    (\<forall>va. va_is_canonical va \<longrightarrow> mapping (km s') pt (vpath va) =
      (if PAGESIZE \<le> unat va \<and> unat va < PROC_START_ADDR k then Some (of_nat (unat va - unat va mod PAGESIZE), PTE_P, 0)
       else None))"
proof -
  let ?P = "of_nat PAGESIZE :: ulong" and ?Q = "PAGESIZE + PAGESIZE"
  obtain pit1 s1 p1 i1 t1 where s1: "try_map k pit ?P PTE_P s = Some (Done (0, pit1, s1))" "setup_inv k pt s1" "keeps k pt s s1"
    "vm_pt pit1 = pt" "vm_va pit1 = ?P" "positioned (km s1) pit1 p1 i1 [] t1" "low_table (km s1) pt"
    and maps1: "\<forall>va. va_is_canonical va \<longrightarrow> mapping (km s1) pt (vpath va) =
      (if PAGESIZE \<le> unat va \<and> unat va < 2 * PAGESIZE then Some (?P, PTE_P, 0) else None)"
    using first_page [OF inv empty free conf(1) pit] by blast
  have "apart pt (vm_pt kit) s" "pt_inv k (vm_pt kit) s" and id: "identity_kernel k s"
    using inv kit(2) by (simp_all add: setup_inv_def identity_kernel_def)
  then have k1: "positioned (km s1) kit p i q t"
    using keeps_positioned [OF _ _ s1(3) kit(1)] by blast
  have pa: "vm_pa (km s) kit = ?P"
    using identity_pa [OF id kit] conf(2) by simp
  obtain kit2 p2 i2 q2 t2 where kit2: "vm_next (km s1) kit = Done kit2" "vm_pt kit2 = kernel_pagetable k"
    "vm_va kit2 = of_nat ?Q" "positioned (km s1) kit2 p2 i2 q2 t2"
    using kernel_iterator_next [OF s1(2) k1 kit(2,3)] by auto
  have inv1: "pt_inv k (vm_pt pit1) s1"
    using s1(2,4) by (simp add: setup_inv_def)
  obtain pit2 p3 i3 q3 t3 where pit2: "vm_next (km s1) pit1 = Done pit2" "vm_pt pit2 = pt"
    "vm_va pit2 = of_nat ?Q" "positioned (km s1) pit2 p3 i3 q3 t3"
    using vm_next_positioned [OF inv1 s1(6,5)] s1(4) by auto
  have step: "setup_kernel_pages k kit pit s = setup_kernel_pages k kit2 pit2 s1"
    using pit(3) conf(2) pa s1(1) kit2(1) pit2(1) by (subst setup_kernel_pages.simps) simp
  have "PAGESIZE dvd PROC_START_ADDR k"
    using conf(1) by (simp add: conf_ok_def)
  then have n: "PAGESIZE dvd ?Q" "PAGESIZE \<le> ?Q" "?Q + (PROC_START_ADDR k - ?Q) div PAGESIZE * PAGESIZE = PROC_START_ADDR k"
    using conf(2) by (auto elim!: dvdE)
  obtain pit' s' p4 i4 q4 t4 where s': "setup_kernel_pages k kit2 pit2 s1 = Some (Done (pit', s'))" "setup_inv k pt s'" "keeps k pt s1 s'"
      "vm_pt pit' = pt" "vm_va pit' = of_nat (PROC_START_ADDR k)" "positioned (km s') pit' p4 i4 q4 t4" "low_table (km s') pt"
    and maps': "\<forall>va. va_is_canonical va \<longrightarrow> mapping (km s') pt (vpath va) =
      (if ?Q \<le> unat va \<and> unat va < PROC_START_ADDR k then Some (of_nat (unat va - unat va mod PAGESIZE), PTE_P, 0)
       else mapping (km s1) pt (vpath va))"
    using setup_kernel_pages_covered [OF s1(2) pit2(4,2,3) kit2(4,2,3) s1(7) n conf(3)] by blast
  have "mapping (km s') pt (vpath va) = (if PAGESIZE \<le> unat va \<and> unat va < PROC_START_ADDR k
      then Some (of_nat (unat va - unat va mod PAGESIZE), PTE_P, 0) else None)" if c: "va_is_canonical va" for va
  proof (cases "PAGESIZE \<le> unat va \<and> unat va < 2 * PAGESIZE")
    case True
    then have "unat va - unat va mod PAGESIZE = PAGESIZE"
      by (intro page_floor) auto
    then show ?thesis
      using True maps1 maps' c conf(2) by (simp only:) simp
  qed (use maps1 maps' c conf(2) in auto)
  then show ?thesis
    using step s'(1,2,4-7) keeps_trans [OF s1(3) s'(3)]
    by (intro exI [of _ pit'] exI [of _ s'] exI [of _ p4] exI [of _ i4] exI [of _ q4] exI [of _ t4]) simp
qed

lemma setup_pagetable_correct:
  assumes inv: "setup_inv k pt s" and empty: "\<forall>i<512. ent (km s) pt i = 0" and free: "card (free_pages k s) > 3"
    and conf: "conf_ok k" "2 * PAGESIZE \<le> PROC_START_ADDR k" "PROC_START_ADDR k + PROC_SIZE \<le> 0x200000"
  shows "\<exists>s'. setup_pagetable k pt s = Some (Done s') \<and> setup_inv k pt s' \<and> keeps k pt s s' \<and>
    (\<forall>va. va_is_canonical va \<longrightarrow> mapping (km s') pt (vpath va) =
      (if PAGESIZE \<le> unat va \<and> unat va < PROC_START_ADDR k then Some (of_nat (unat va - unat va mod PAGESIZE), PTE_P, 0)
       else if PROC_START_ADDR k \<le> unat va \<and> unat va < PROC_START_ADDR k + PROC_SIZE
       then Some (of_nat (unat va - unat va mod PAGESIZE), PTE_PWU, 0) else None))"
proof -
  let ?P = "of_nat PAGESIZE :: ulong"
  have kinv: "pt_inv k (kernel_pagetable k) s" and pinv: "pt_inv k pt s"
    using inv by (simp_all add: setup_inv_def identity_kernel_def)
  obtain kit p i q t where kit: "vmiter_new (km s) (kernel_pagetable k) ?P = Done kit" "vm_pt kit = kernel_pagetable k"
    "vm_va kit = ?P" "positioned (km s) kit p i q t"
    using vmiter_new_positioned [OF kinv, of ?P] by (auto simp: va_is_canonical_def)
  obtain pit p' i' q' t' where pit: "vmiter_new (km s) pt ?P = Done pit" "vm_pt pit = pt" "vm_va pit = ?P"
    "positioned (km s) pit p' i' q' t'"
    using vmiter_new_positioned [OF pinv, of ?P] by (auto simp: va_is_canonical_def)
  have lt: "PROC_START_ADDR k < 0x200000"
    using conf(3) by simp
  obtain pit1 s1 p1 i1 q1 t1 where s1: "setup_kernel_pages k kit pit s = Some (Done (pit1, s1))" "setup_inv k pt s1" "keeps k pt s s1"
      "vm_pt pit1 = pt" "vm_va pit1 = of_nat (PROC_START_ADDR k)" "positioned (km s1) pit1 p1 i1 q1 t1" "low_table (km s1) pt"
    and maps1: "\<forall>va. va_is_canonical va \<longrightarrow> mapping (km s1) pt (vpath va) =
      (if PAGESIZE \<le> unat va \<and> unat va < PROC_START_ADDR k then Some (of_nat (unat va - unat va mod PAGESIZE), PTE_P, 0)
       else None)"
    using setup_kernel_pages_correct [OF inv empty free conf(1,2) lt kit(4,2,3) pit(4,2,3)] by blast
  have n: "PAGESIZE dvd PROC_START_ADDR k" "PROC_START_ADDR k + PROC_SIZE div PAGESIZE * PAGESIZE \<le> 0x200000"
    using conf by (simp_all add: conf_ok_def)
  obtain pit2 s' where s': "setup_process_pages k (PROC_SIZE div PAGESIZE) (PROC_START_ADDR k) pit1 s1 = Some (Done (pit2, s'))"
      "setup_inv k pt s'" "keeps k pt s1 s'"
    and maps': "\<forall>va. va_is_canonical va \<longrightarrow> mapping (km s') pt (vpath va) =
      (if PROC_START_ADDR k \<le> unat va \<and> unat va < PROC_START_ADDR k + PROC_SIZE div PAGESIZE * PAGESIZE
       then Some (of_nat (unat va - unat va mod PAGESIZE), PTE_PWU, 0) else mapping (km s1) pt (vpath va))"
    using setup_process_pages_correct [OF s1(2,6,4,5,7) n] by blast
  have "setup_pagetable k pt s = Some (Done s')"
    using kit(1) pit(1) s1(1,5) s'(1) by (simp add: setup_pagetable_def vm_find_def)
  moreover have "mapping (km s') pt (vpath va) =
      (if PAGESIZE \<le> unat va \<and> unat va < PROC_START_ADDR k then Some (of_nat (unat va - unat va mod PAGESIZE), PTE_P, 0)
       else if PROC_START_ADDR k \<le> unat va \<and> unat va < PROC_START_ADDR k + PROC_SIZE
       then Some (of_nat (unat va - unat va mod PAGESIZE), PTE_PWU, 0) else None)" if "va_is_canonical va" for va
    using maps1 maps' that by auto
  ultimately show ?thesis
    using s'(2) keeps_trans [OF s1(3) s'(3)] by blast
qed

text \<open>The state that \<^verbatim>\<open>kernel_start\<close> reaches before it makes processes.\<close>

lemma kernel_start_ready:
  assumes conf: "conf_ok k" "PROC_START_ADDR k \<le> MEMSIZE_PHYSICAL k"
  shows "\<exists>s1 s2. init_kernel_memory k s = Some (Done s1) \<and>
    kernel_map_loop k (MEMSIZE_PHYSICAL k div PAGESIZE) 0 s1 = Some (Done s2) \<and> identity_kernel k s2 \<and>
    free_pages k s2 = free_pages k s"
proof -
  obtain s1 s2 where s2: "init_kernel_memory k s = Some (Done s1)"
    "kernel_map_loop k (MEMSIZE_PHYSICAL k div PAGESIZE) 0 s1 = Some (Done s2)" "pt_inv k (kernel_pagetable k) s2"
    "refcount s2 = refcount s"
    "\<forall>q u. table_at (km s2) (kernel_pagetable k) q u = table_at (init_kernel_tables k (km s)) (kernel_pagetable k) q u"
    and maps: "\<forall>va. unat va < MEMSIZE_PHYSICAL k \<longrightarrow>
      mapping (km s2) (kernel_pagetable k) (vpath va) = mapped_by k (unat va - unat va mod PAGESIZE)"
    using kernel_start_maps [OF conf(1), of s] by blast
  have "table_at (init_kernel_tables k (km s)) (kernel_pagetable k) [0, 0, 0] (kernel_pagetable k + 3 * PAGESIZE)"
    unfolding table_at_init [OF conf(1)] by (intro exI [of _ 3]) (simp add: init_paths_def)
  then have "low_table (km s2) (kernel_pagetable k)"
    using s2(5) by (auto simp: low_table_def)
  moreover have "\<exists>perm. mapping (km s2) (kernel_pagetable k) (vpath va) = Some (of_nat (unat va - unat va mod PAGESIZE), perm, 0)"
    if va: "PAGESIZE \<le> unat va \<and> unat va < PROC_START_ADDR k" for va
  proof -
    have "unat va - unat va mod PAGESIZE \<noteq> 0"
      using va mod_less_divisor [of PAGESIZE "unat va"] by linarith
    then have "kernel_perm k (unat va - unat va mod PAGESIZE) \<noteq> 0"
      by (auto simp: kernel_perm_def Let_def)
    then show ?thesis
      using maps va conf(2) unfolding mapped_by_def page_mapping_def by auto
  qed
  moreover have "free_pages k s2 = free_pages k s"
    by (simp add: free_pages_def free_page_def s2(4))
  ultimately show ?thesis
    using s2(1-3) by (auto simp: identity_kernel_def)
qed

text \<open>
  C24. Process isolation, from the start of the kernel: on any memory with at least five free pages,
  \<^verbatim>\<open>init_kernel_memory\<close>, the loop of \<^verbatim>\<open>kernel_start\<close>, \<^verbatim>\<open>kalloc_pagetable\<close> and the two loops of \<^verbatim>\<open>process_setup\<close> all succeed.  The page
  table of the process then maps the pages from 1 to \<^verbatim>\<open>PROC_START_ADDR\<close> to themselves without access for the process and
  without write access, the \<^verbatim>\<open>PROC_SIZE\<close> bytes from there to themselves with full access, and no other canonical address; and what the
  kernel's page table maps has not changed.
\<close>

theorem process_setup_isolates:
  assumes conf: "conf_ok k" "2 * PAGESIZE \<le> PROC_START_ADDR k" "PROC_START_ADDR k + PROC_SIZE \<le> 0x200000"
      "PROC_START_ADDR k \<le> MEMSIZE_PHYSICAL k"
    and free: "card (free_pages k s) > 4"
  shows "\<exists>s1 s2 pt s3 s4. init_kernel_memory k s = Some (Done s1) \<and>
    kernel_map_loop k (MEMSIZE_PHYSICAL k div PAGESIZE) 0 s1 = Some (Done s2) \<and>
    kalloc_pagetable k s2 = (Some pt, s3) \<and> setup_pagetable k pt s3 = Some (Done s4) \<and>
    (\<forall>va. va_is_canonical va \<longrightarrow>
      lookup_va (km s4) pt va =
        (if PAGESIZE \<le> unat va \<and> unat va < PROC_START_ADDR k then Done (va, PTE_P)
         else if PROC_START_ADDR k \<le> unat va \<and> unat va < PROC_START_ADDR k + PROC_SIZE then Done (va, PTE_PWU)
         else Done (- 1, 0)) \<and>
      lookup_va (km s4) (kernel_pagetable k) va = lookup_va (km s2) (kernel_pagetable k) va)"
proof -
  obtain s1 s2 where s2: "init_kernel_memory k s = Some (Done s1)"
    "kernel_map_loop k (MEMSIZE_PHYSICAL k div PAGESIZE) 0 s1 = Some (Done s2)" "identity_kernel k s2" "free_pages k s2 = free_pages k s"
    using kernel_start_ready [OF conf(1,4), of s] by blast
  obtain pt s3 where s3: "kalloc_pagetable k s2 = (Some pt, s3)" "setup_inv k pt s3" "\<forall>i<512. ent (km s3) pt i = 0"
    "card (free_pages k s3) > 3" "untouched k (kernel_pagetable k) s2 s3"
    using new_pagetable [OF conf(1) s2(3)] free unfolding s2(4) by blast
  obtain s4 where s4: "setup_pagetable k pt s3 = Some (Done s4)" "setup_inv k pt s4" "keeps k pt s3 s4"
    and maps: "\<forall>va. va_is_canonical va \<longrightarrow> mapping (km s4) pt (vpath va) =
      (if PAGESIZE \<le> unat va \<and> unat va < PROC_START_ADDR k then Some (of_nat (unat va - unat va mod PAGESIZE), PTE_P, 0)
       else if PROC_START_ADDR k \<le> unat va \<and> unat va < PROC_START_ADDR k + PROC_SIZE
       then Some (of_nat (unat va - unat va mod PAGESIZE), PTE_PWU, 0) else None)"
    using setup_pagetable_correct [OF s3(2-4) conf(1-3)] by blast
  have inv: "pt_inv k pt s4" "pt_inv k (kernel_pagetable k) s4" "pt_inv k (kernel_pagetable k) s2"
      "pt_inv k (kernel_pagetable k) s3" "apart pt (kernel_pagetable k) s3"
    using s4(2) s3(2) s2(3) by (simp_all add: setup_inv_def identity_kernel_def)
  have "lookup_va (km s4) pt va =
        (if PAGESIZE \<le> unat va \<and> unat va < PROC_START_ADDR k then Done (va, PTE_P)
         else if PROC_START_ADDR k \<le> unat va \<and> unat va < PROC_START_ADDR k + PROC_SIZE then Done (va, PTE_PWU)
         else Done (- 1, 0)) \<and>
      lookup_va (km s4) (kernel_pagetable k) va = lookup_va (km s2) (kernel_pagetable k) va" if c: "va_is_canonical va" for va
  proof -
    have "mapping (km s4) (kernel_pagetable k) (vpath va) = mapping (km s2) (kernel_pagetable k) (vpath va)"
      using keeps_other(3) [OF inv(4,5) s4(3), of "vpath va"] untouched_mapping [OF s3(5), of "vpath va"] by (simp add: idxs_vpath)
    then show ?thesis
      unfolding lookup_translate [OF inv(1) c] lookup_translate [OF inv(2) c] lookup_translate [OF inv(3) c]
      using maps [rule_format, OF c] page_plus_offset [of va] by (simp add: translate_def)
  qed
  then show ?thesis
    using s2(1,2) s3(1) s4(1) by blast
qed

lemma sample_kmem_free: "card (free_pages sample_conf sample_kmem) > 4"
proof -
  let ?A = "{0x2000, 0x3000, 0x4000, 0x5000, 0x6000 :: nat}"
  have "?A \<subseteq> free_pages sample_conf sample_kmem"
    by (simp add: free_pages_def free_page_def allocatable_physical_address_def reserved_physical_address_def sample_conf_def
        sample_kmem_def)
  then have "card ?A \<le> card (free_pages sample_conf sample_kmem)"
    by (intro card_mono) simp_all
  then show ?thesis
    by simp
qed

text \<open>Witness: the sample configuration.\<close>

theorem process_setup_isolates_witness:
  "\<exists>s1 s2 pt s3 s4. init_kernel_memory sample_conf sample_kmem = Some (Done s1) \<and>
    kernel_map_loop sample_conf (MEMSIZE_PHYSICAL sample_conf div PAGESIZE) 0 s1 = Some (Done s2) \<and>
    kalloc_pagetable sample_conf s2 = (Some pt, s3) \<and> setup_pagetable sample_conf pt s3 = Some (Done s4) \<and>
    (\<forall>va. va_is_canonical va \<longrightarrow>
      lookup_va (km s4) pt va =
        (if PAGESIZE \<le> unat va \<and> unat va < PROC_START_ADDR sample_conf then Done (va, PTE_P)
         else if PROC_START_ADDR sample_conf \<le> unat va \<and> unat va < PROC_START_ADDR sample_conf + PROC_SIZE then Done (va, PTE_PWU)
         else Done (- 1, 0)) \<and>
      lookup_va (km s4) (kernel_pagetable sample_conf) va = lookup_va (km s2) (kernel_pagetable sample_conf) va)"
  by (rule process_setup_isolates [OF sample_conf_ok _ _ _ sample_kmem_free]) (simp_all add: sample_conf_def)

section \<open>Allocation of a page by a process\<close>

text \<open>Filling a free page changes no page table.\<close>

lemma untouched_fill:
  assumes inv: "pt_inv k pt s" and a: "PAGESIZE dvd a" "free_page k s a"
    and s': "km s' = memset (km s) a c PAGESIZE" "refcount s' = (refcount s)(a div PAGESIZE := n)" "n \<noteq> 0"
  shows "untouched k pt s s'"
  unfolding untouched_def
proof (intro allI impI conjI)
  fix p t
  assume t: "table_at (km s) pt p t"
  note D = pt_invD(1,3) [OF inv t]
  show "\<not> free_page k s' t"
    using D(2) s'(2,3) by (auto simp: free_page_def)
  have "t \<noteq> a"
    using D(2) a(2) by auto
  fix x
  assume "t \<le> x \<and> x < t + PAGESIZE"
  then have "x < a \<or> a + PAGESIZE \<le> x"
    using page_bytes_apart [OF a(1) D(1) \<open>t \<noteq> a\<close>] by blast
  then show "km s' x = km s x"
    by (auto simp: s'(1) memset_apply)
qed

text \<open>
  C26. \<^verbatim>\<open>syscall_page_alloc\<close> gives a process the page it asks for and touches nothing else: for an aligned address between
  \<^verbatim>\<open>PROC_START_ADDR\<close> and the end of physical memory whose page is free, when the process has the table for low memory, the call returns 0; the page is then
  mapped to itself with full access for the process, is all zeros and is counted as used; every other address is translated as before,
  and so is every address of any other page table.
\<close>

theorem syscall_page_alloc_gives_page:
  assumes conf: "PAGESIZE dvd MEMSIZE_PHYSICAL k" "MEMSIZE_PHYSICAL k \<le> 0x200000"
    and proc: "pid (ptable s ! current s) = n" "pagetable (ptable s ! n) = pt"
    and inv: "pt_inv k pt (ks s)" "low_table (km (ks s)) pt"
    and other: "pt_inv k pt' (ks s)" "apart pt pt' (ks s)"
    and a: "unat addr mod PAGESIZE = 0" "PROC_START_ADDR k \<le> unat addr" "unat addr < MEMSIZE_PHYSICAL k" "free_page k (ks s) (unat addr)"
  shows "\<exists>s'. syscall_page_alloc k addr s = Some (Done (0, s')) \<and>
    (\<forall>x. unat addr \<le> x \<and> x < unat addr + PAGESIZE \<longrightarrow> km (ks s') x = NUL) \<and>
    refcount (ks s') = (refcount (ks s))(unat addr div PAGESIZE := 1) \<and>
    (\<forall>va. va_is_canonical va \<longrightarrow>
      lookup_va (km (ks s')) pt va =
        (if unat va div PAGESIZE = unat addr div PAGESIZE then Done (va, PTE_PWU) else lookup_va (km (ks s)) pt va) \<and>
      lookup_va (km (ks s')) pt' va = lookup_va (km (ks s)) pt' va)"
proof -
  let ?A = "unat addr"
  have A: "?A < 0x200000" "PAGESIZE dvd ?A" "?A div PAGESIZE < MEMSIZE_PHYSICAL k div PAGESIZE"
    using a(1,3) conf by (auto elim!: dvdE simp: dvd_eq_mod_eq_0)
  have addr: "addr = of_nat ?A" "va_is_canonical addr"
    using low_canonical [of addr] A(1) by simp_all
  obtain it p i q t where it: "vmiter_new (km (ks s)) pt addr = Done it" "vm_pt it = pt" "vm_va it = addr" "positioned (km (ks s)) it p i q t"
    using vmiter_new_positioned [OF inv(1) addr(2)] by blast
  have q: "q = []"
    using covered_level(1) [OF _ it(4)] low_covered [OF inv(2) A(1)] it(2,3) by simp
  obtain s1 where s1: "try_map k it addr PTE_PWU (ks s) = Some (Done (0, it, s1))" "pt_inv k pt s1" "refcount s1 = refcount (ks s)"
    "keeps k pt (ks s) s1"
    and maps: "\<forall>q. idxs q \<and> length q = 4 \<longrightarrow> mapping (km s1) pt q =
      (if q = vpath addr then page_mapping addr PTE_PWU else mapping (km (ks s)) pt q)"
    using try_map_covered [of k it "ks s" p i t PTE_PWU addr] inv(1) it q a(1) page_address [OF A(2)] A(1) by auto
  let ?s2 = "s1\<lparr>refcount := (refcount s1)(?A div PAGESIZE := refcount s1 (?A div PAGESIZE) + 1), km := memset (km s1) ?A 0 PAGESIZE\<rparr>"
  have zero: "refcount (ks s) (?A div PAGESIZE) = 0" and free: "free_page k s1 ?A"
    using a(4) by (simp_all add: free_page_def s1(3))
  let ?s' = "s\<lparr>ptable := (ptable s)[n := (ptable s ! n)\<lparr>next_va := next_va (ptable s ! n) + PAGESIZE\<rparr>], ks := ?s2\<rparr>"
  have call: "syscall_page_alloc k addr s = Some (Done (0, ?s'))"
    using a(1-3) A(3) proc it(1) s1(1,3) zero by (simp add: syscall_page_alloc_def Let_def)
  have un: "untouched k u s1 ?s2" if "pt_inv k u s1" for u
    by (rule untouched_fill [OF that A(2) free, of _ 0 1]) (simp_all add: s1(3) zero)
  note inv' = keeps_other(1) [OF other s1(4)] and un' = un [OF keeps_other(1) [OF other s1(4)]]
  have lookups: "lookup_va (km ?s2) pt va =
      (if unat va div PAGESIZE = ?A div PAGESIZE then Done (va, PTE_PWU) else lookup_va (km (ks s)) pt va) \<and>
    lookup_va (km ?s2) pt' va = lookup_va (km (ks s)) pt' va" if c: "va_is_canonical va" for va
  proof -
    have same: "vpath va = vpath addr \<longleftrightarrow> unat va div PAGESIZE = ?A div PAGESIZE"
      using same_page [OF c, of ?A] A(1) addr(1) by simp
    have "unat va div PAGESIZE = ?A div PAGESIZE \<Longrightarrow> unat va - unat va mod PAGESIZE = ?A"
      using A(2) by (simp add: minus_mod_eq_mult_div)
    then have "unat va div PAGESIZE = ?A div PAGESIZE \<Longrightarrow> addr + (va AND pageoffmask 0) = va"
      using page_plus_offset [of va] addr(1) by metis
    moreover have "mapping (km ?s2) pt (vpath va) = mapping (km s1) pt (vpath va)"
      "mapping (km ?s2) pt' (vpath va) = mapping (km (ks s)) pt' (vpath va)"
      using untouched_mapping [OF un [OF s1(2)], of "vpath va"] untouched_mapping [OF un', of "vpath va"]
        keeps_other(3) [OF other s1(4), of "vpath va"] by (simp_all add: idxs_vpath)
    ultimately show ?thesis
      unfolding lookup_translate [OF untouched_pt_inv [OF un [OF s1(2)] s1(2)] c] lookup_translate [OF inv(1) c]
        lookup_translate [OF untouched_pt_inv [OF un' inv'] c] lookup_translate [OF other(1) c]
      using maps [rule_format, of "vpath va"] same by (simp add: idxs_vpath translate_def page_mapping_def)
  qed
  show ?thesis
    using call lookups by (intro exI [of _ ?s']) (simp add: memset_apply to_char_0 s1(3) zero)
qed

text \<open>The sample kernel with the static tables as the only page table, and a second, empty one.\<close>

definition sample_user :: kernel where
  "sample_user =
     sample_kernel\<lparr>ks := \<lparr>km = init_kernel_tables sample_conf (\<lambda>_. NUL), refcount = (\<lambda>p. if p = 1 then 1 else 0)\<rparr>\<rparr>"

lemma sample_user_inv:
  "pt_inv sample_conf 0x50000 (ks sample_user)" "low_table (km (ks sample_user)) 0x50000"
  "pt_inv sample_conf 0x1000 (ks sample_user)" "apart 0x50000 0x1000 (ks sample_user)"
proof -
  have kp: "kernel_pagetable sample_conf = 0x50000"
    by (simp add: sample_conf_def)
  have s: "ks sample_user = sample_kmem\<lparr>km := init_kernel_tables sample_conf (km sample_kmem)\<rparr>"
    by (simp add: sample_user_def sample_kmem_def)
  have m: "km (ks sample_user) = init_kernel_tables sample_conf (km sample_kmem)"
    by (simp add: s)
  note tab = table_at_init [OF sample_conf_ok, unfolded kp]
  show "pt_inv sample_conf 0x50000 (ks sample_user)"
    unfolding s using pt_inv_init [OF sample_conf_ok] by (simp add: kp)
  have "table_at (km (ks sample_user)) 0x50000 [0, 0, 0] (0x50000 + 3 * PAGESIZE)"
    unfolding m tab by (intro exI [of _ 3]) (simp add: init_paths_def)
  then show "low_table (km (ks sample_user)) 0x50000"
    by (auto simp: low_table_def)
  have "ent (km (ks sample_user)) 0x1000 i = 0" if "i < 512" for i
  proof -
    have "init_kernel_tables sample_conf (\<lambda>_. NUL) x = NUL" if "x < 0x50000" for x
      using that by (simp add: init_kernel_tables_def kp write64_def memset_apply)
    then have "read64 (km (ks sample_user)) (0x1000 + 8 * i) = read64 (\<lambda>_. NUL) (0x1000 + 8 * i)"
      using that by (intro read64_cong) (simp add: sample_user_def)
    then show ?thesis
      using sample_ent [of "0x1000" i] by (simp add: ent_def sample_kmem_def)
  qed
  then have zero: "\<forall>i<512. ent (km (ks sample_user)) 0x1000 i = 0"
    by blast
  show "pt_inv sample_conf 0x1000 (ks sample_user)"
    by (rule empty_table_inv [OF zero]) (simp_all add: sample_conf_def sample_user_def free_page_def)
  show "apart 0x50000 0x1000 (ks sample_user)"
    unfolding apart_def empty_table_at [OF zero] unfolding m tab by auto
qed

text \<open>Witness: process 1 asks for the page at \<^verbatim>\<open>0x180000\<close>.\<close>

theorem syscall_page_alloc_gives_page_witness:
  "\<exists>s'. syscall_page_alloc sample_conf 0x180000 sample_user = Some (Done (0, s')) \<and>
    (\<forall>x. unat (0x180000 :: ulong) \<le> x \<and> x < unat (0x180000 :: ulong) + PAGESIZE \<longrightarrow> km (ks s') x = NUL) \<and>
    refcount (ks s') = (refcount (ks sample_user))(unat (0x180000 :: ulong) div PAGESIZE := 1) \<and>
    (\<forall>va. va_is_canonical va \<longrightarrow>
      lookup_va (km (ks s')) 0x50000 va =
        (if unat va div PAGESIZE = unat (0x180000 :: ulong) div PAGESIZE then Done (va, PTE_PWU)
         else lookup_va (km (ks sample_user)) 0x50000 va) \<and>
      lookup_va (km (ks s')) 0x1000 va = lookup_va (km (ks sample_user)) 0x1000 va)"
  by (rule syscall_page_alloc_gives_page [OF _ _ refl _ sample_user_inv])
    (simp_all add: sample_user_def sample_kernel_def sample_proc_def,
     simp_all add: sample_conf_def free_page_def allocatable_physical_address_def reserved_physical_address_def)

text \<open>What \<^verbatim>\<open>syscall_page_alloc\<close> does with other addresses: it returns -1 for those it rejects, but the address at the end of
  physical memory passes the test and is looked up beyond \<^verbatim>\<open>physpages\<close>, and a page in use stops the kernel.\<close>

lemma syscall_page_alloc_errors:
  "unat addr < PROC_START_ADDR k \<or> unat addr > MEMSIZE_PHYSICAL k \<or> unat addr mod PAGESIZE \<noteq> 0 \<Longrightarrow>
    syscall_page_alloc k addr s = Some (Done (- 1, s))"
  "unat addr = MEMSIZE_PHYSICAL k \<Longrightarrow> PROC_START_ADDR k \<le> unat addr \<Longrightarrow> unat addr mod PAGESIZE = 0 \<Longrightarrow>
    syscall_page_alloc k addr s = Some Undef"
  "unat addr < MEMSIZE_PHYSICAL k \<Longrightarrow> PROC_START_ADDR k \<le> unat addr \<Longrightarrow> unat addr mod PAGESIZE = 0 \<Longrightarrow>
    PAGESIZE dvd MEMSIZE_PHYSICAL k \<Longrightarrow> refcount (ks s) (unat addr div PAGESIZE) \<noteq> 0 \<Longrightarrow>
    syscall_page_alloc k addr s = Some Abort"
  by (auto simp: syscall_page_alloc_def Let_def elim!: dvdE)

end
