(* ===== verification/Kernel_Debug.thy ===== *)
theory Kernel_Debug
  imports Kernel_Procs
begin

text \<open>
  What the Lab 4 kernel has for debugging in \<^verbatim>\<open>k-hardware.cc\<close> and \<^verbatim>\<open>k-vmiter.cc\<close>: the lookup of an address in the
  symbol table, the permissions of a range of addresses, and the backtrace over the saved frame pointers of a stack, each
  of which is checked against the page table before it is followed.
\<close>

section \<open>The symbol table\<close>

record elf_symbol =
  st_name :: "32 word"
  st_value :: ulong
  st_size :: ulong

record elf_symtabref =
  sym :: "elf_symbol list"
  strtab :: nat

definition SYMTAB_ADDR :: nat where
  "SYMTAB_ADDR = 0x1000000"

text \<open>The test of the loop on symbol \<open>m\<close>; the sums wrap.\<close>

definition sym_covers :: "elf_symbol list \<Rightarrow> ulong \<Rightarrow> nat \<Rightarrow> bool" where
  "sym_covers ss addr m \<longleftrightarrow>
     st_value (ss ! m) \<le> addr \<and>
     (if m + 1 = length ss then addr < st_value (ss ! m) + 0x1000 else addr < st_value (ss ! (m + 1))) \<and>
     (st_size (ss ! m) = 0 \<or> addr \<le> st_value (ss ! m) + st_size (ss ! m))"

function lookup_loop :: "elf_symbol list \<Rightarrow> ulong \<Rightarrow> nat \<Rightarrow> nat \<Rightarrow> nat option" where
  "lookup_loop ss addr l r =
     (if l < r
      then let m = l + (r - l) div 2
           in if sym_covers ss addr m then Some m
              else if st_value (ss ! m) < addr then lookup_loop ss addr (m + 1) r
              else lookup_loop ss addr l m
      else None)"
  by pat_completeness auto
termination
  by (relation "measure (\<lambda>(ss, addr, l, r). r - l)") auto

declare lookup_loop.simps [simp del]

text \<open>
  The page of the table is mapped first, in the third page of the kernel's page table.  The result is the address of the
  name and the start of the symbol.
\<close>

definition lookup_symbol :: "kconf \<Rightarrow> elf_symtabref \<Rightarrow> ulong \<Rightarrow> mem \<Rightarrow> (nat \<times> ulong) option \<times> mem" where
  "lookup_symbol k tab addr m =
     (let a = kernel_pagetable k + 2 * PAGESIZE + 8 * (SYMTAB_ADDR div 0x200000);
          m = (if read64 m a = 0 then write64 m a (of_nat SYMTAB_ADDR OR PTE_P OR PTE_W OR PTE_PS) else m)
      in case lookup_loop (sym tab) addr 0 (length (sym tab)) of
           None \<Rightarrow> (None, m)
         | Some i \<Rightarrow>
             let s = sym tab ! i
             in if st_value s = 0 then (None, m) else (Some (strtab tab + unat (st_name s), st_value s), m))"

section \<open>Permissions of a range\<close>

definition VA_LOWEND :: ulong where
  "VA_LOWEND = 0x0000800000000000"

text \<open>The loop of \<^verbatim>\<open>range_perm\<close>, entered with \<^verbatim>\<open>sz > rsz\<close>.\<close>

partial_function (option) range_loop :: "mem \<Rightarrow> vmiter \<Rightarrow> ulong \<Rightarrow> ulong \<Rightarrow> ulong \<Rightarrow> ulong outcome option" where
  "range_loop m it sz rsz p =
     (let sz = sz - rsz
      in case next_range m it of
           Done it \<Rightarrow>
             let p = p AND vm_perms m it; rsz = pageoffmask (vm_level it) + 1
             in if p AND PTE_P \<noteq> 0 \<and> sz > rsz then range_loop m it sz rsz p else Some (Done p)
         | _ \<Rightarrow> Some Abort)"

definition range_perm :: "mem \<Rightarrow> vmiter \<Rightarrow> ulong \<Rightarrow> ulong outcome option" where
  "range_perm m it sz =
     (let p = vm_perms m it; rsz = pageoffmask (vm_level it) + 1;
          result = (\<lambda>p. if p AND PTE_P \<noteq> 0 then p else 0)
      in if p AND PTE_P \<noteq> 0 \<and> sz > rsz
         then if sz > (if sint (vm_va it) < 0 then 0 else VA_LOWEND) - vm_va it then Some (Done 0)
              else map_option (\<lambda>r. obind r (\<lambda>p. Done (result p)))
                     (range_loop m it (sz + (vm_va it AND (rsz - 1))) rsz p)
         else Some (Done (result p)))"

section \<open>Backtraces\<close>

record backtracer =
  bt_rbp :: ulong
  bt_rsp :: ulong
  bt_top :: ulong
  bt_pt :: nat

definition bt_check :: "mem \<Rightarrow> backtracer \<Rightarrow> backtracer outcome option" where
  "bt_check m bt =
     (let bad = bt\<lparr>bt_rbp := 0, bt_rsp := 0\<rparr>
      in if bt_rbp bt < bt_rsp bt \<or> bt_top bt < bt_rbp bt \<or> bt_top bt - bt_rbp bt < 16 \<or> bt_pt bt = 0
         then Some (Done bad)
         else case vmiter_new m (bt_pt bt) (bt_rbp bt) of
           Done it \<Rightarrow>
             map_option (\<lambda>r. obind r (\<lambda>p. Done (if p AND PTE_P = 0 \<or> bt_rbp bt AND 7 \<noteq> 0 then bad else bt)))
               (range_perm m it 16)
         | _ \<Rightarrow> Some Abort)"

definition backtracer_new :: "mem \<Rightarrow> regstate \<Rightarrow> nat \<Rightarrow> backtracer outcome option" where
  "backtracer_new m rg pt =
     bt_check m \<lparr>bt_rbp = reg_rbp rg, bt_rsp = reg_rsp rg,
                 bt_top = round_up (reg_rsp rg) (of_nat PAGESIZE), bt_pt = pt\<rparr>"

definition bt_ok :: "backtracer \<Rightarrow> bool" where
  "bt_ok bt \<longleftrightarrow> bt_rsp bt \<noteq> 0"

definition deref_rbp :: "mem \<Rightarrow> backtracer \<Rightarrow> ulong \<Rightarrow> ulong outcome" where
  "deref_rbp m bt off =
     obind (vmiter_new m (bt_pt bt) (bt_rbp bt + off)) (\<lambda>it.
       if pe m (vm_pep it) AND PTE_P \<noteq> 0 then Done (read64 m (unat (vm_pa m it))) else Undef)"

definition bt_step :: "mem \<Rightarrow> backtracer \<Rightarrow> backtracer outcome option" where
  "bt_step m bt =
     (case deref_rbp m bt 0 of
        Done r \<Rightarrow> bt_check m (bt\<lparr>bt_rsp := bt_rbp bt + 16, bt_rbp := r\<rparr>)
      | Undef \<Rightarrow> Some Undef
      | _ \<Rightarrow> Some Abort)"

text \<open>
  The loop of \<^verbatim>\<open>log_backtrace\<close>; \<open>out\<close> is the lines it has printed, each with the number of the frame, the return address and the name
  if there is one.
\<close>

partial_function (option) backtrace_loop ::
    "kconf \<Rightarrow> elf_symtabref \<Rightarrow> backtracer \<Rightarrow> nat \<Rightarrow> mem \<Rightarrow> (nat \<times> ulong \<times> nat option) list
      \<Rightarrow> ((nat \<times> ulong \<times> nat option) list \<times> mem) outcome option" where
  "backtrace_loop k tab bt frame m out =
     (if \<not> bt_ok bt then Some (Done (out, m))
      else case deref_rbp m bt 8 of
        Done ret_rip \<Rightarrow>
          let (r, m) = lookup_symbol k tab ret_rip m;
              line = (case r of Some (name, _) \<Rightarrow> [(frame, ret_rip, Some name)]
                      | None \<Rightarrow> if ret_rip \<noteq> 0 then [(frame, ret_rip, None)] else [])
          in (case bt_step m bt of
                Some (Done bt) \<Rightarrow> backtrace_loop k tab bt (frame + 1) m (out @ line)
              | Some Undef \<Rightarrow> Some Undef
              | Some _ \<Rightarrow> Some Abort
              | None \<Rightarrow> None)
      | Undef \<Rightarrow> Some Undef
      | _ \<Rightarrow> Some Abort)"

text \<open>The flag tells whether the warning of a possible stack overflow is printed first.\<close>

definition log_backtrace :: "kconf \<Rightarrow> elf_symtabref \<Rightarrow> regstate \<Rightarrow> nat \<Rightarrow> mem
    \<Rightarrow> (bool \<times> (nat \<times> ulong \<times> nat option) list \<times> mem) outcome option" where
  "log_backtrace k tab rg pt m =
     (case backtracer_new m rg pt of
        Some (Done bt) \<Rightarrow>
          let warning = (bt_rsp bt \<noteq> bt_rbp bt \<and>
                round_up (bt_rsp bt) (of_nat PAGESIZE) = round_down (bt_rbp bt) (of_nat PAGESIZE))
          in map_option (\<lambda>r. obind r (\<lambda>(ls, m). Done (warning, ls, m))) (backtrace_loop k tab bt 1 m [])
      | Some Undef \<Rightarrow> Some Undef
      | Some _ \<Rightarrow> Some Abort
      | None \<Rightarrow> None)"

section \<open>The search finds the symbol\<close>

text \<open>In a table with increasing addresses at most one symbol covers an address, and the search finds it.\<close>

lemma values_less:
  "sorted_wrt (<) (map st_value ss) \<Longrightarrow> i < j \<Longrightarrow> j < length ss \<Longrightarrow> st_value (ss ! i) < st_value (ss ! j)"
  using sorted_wrt_nth_less [of "(<)" "map st_value ss" i j] by simp

lemma covers_between:
  assumes "sorted_wrt (<) (map st_value ss)" "sym_covers ss addr i" "i < length ss" "j < length ss"
  shows "st_value (ss ! j) < addr \<Longrightarrow> j \<le> i" "addr \<le> st_value (ss ! j) \<Longrightarrow> i \<le> j"
proof -
  show "i \<le> j" if "addr \<le> st_value (ss ! j)"
    using values_less [OF assms(1), of j i] that assms(2,3) by (fastforce simp: sym_covers_def)
  show "j \<le> i" if j: "st_value (ss ! j) < addr"
  proof (rule ccontr)
    assume "\<not> j \<le> i"
    then have "addr < st_value (ss ! (i + 1))" "i + 1 \<le> j"
      using assms(2,4) by (auto simp: sym_covers_def)
    then show False
      using j values_less [OF assms(1), of "i + 1" j] assms(4) by (cases "i + 1 = j") auto
  qed
qed

lemma covers_unique:
  assumes "sorted_wrt (<) (map st_value ss)" "sym_covers ss addr i" "sym_covers ss addr j" "i < length ss" "j < length ss"
  shows "i = j"
proof -
  have "\<not> i < j" if "sym_covers ss addr i" "sym_covers ss addr j" "j < length ss" for i j
  proof
    assume "i < j"
    then have "addr < st_value (ss ! (i + 1))" "st_value (ss ! j) \<le> addr"
      using that by (auto simp: sym_covers_def)
    then show False
      using values_less [OF assms(1), of "i + 1" j] \<open>i < j\<close> that(3) by (cases "i + 1 = j") auto
  qed
  then show ?thesis
    using assms(2-5) by (meson linorder_neqE_nat)
qed

lemma lookup_loop_sound: "lookup_loop ss addr l r = Some i \<Longrightarrow> l \<le> i \<and> i < r \<and> sym_covers ss addr i"
proof (induction ss addr l r rule: lookup_loop.induct)
  case (1 ss addr l r)
  then show ?case
    by (subst (asm) (3) lookup_loop.simps) (auto simp: Let_def split: if_splits)
qed

lemma lookup_loop_complete:
  assumes "sorted_wrt (<) (map st_value ss)" "sym_covers ss addr i" "l \<le> i" "i < r" "r \<le> length ss"
  shows "lookup_loop ss addr l r = Some i"
  using assms
proof (induction ss addr l r rule: lookup_loop.induct)
  case (1 ss addr l r)
  let ?m = "l + (r - l) div 2"
  have m: "l < r" "?m < r" "l \<le> ?m"
    using 1(5,6) by auto
  show ?case
  proof (cases "sym_covers ss addr ?m")
    case True
    then have "?m = i"
      using covers_unique [OF 1(3) True 1(4)] m 1(6,7) by simp
    then show ?thesis
      using True m by (subst lookup_loop.simps) (simp add: Let_def)
  next
    case False
    then have "?m \<noteq> i"
      using 1(4) by auto
    then have "st_value (ss ! ?m) < addr \<Longrightarrow> ?m + 1 \<le> i" "\<not> st_value (ss ! ?m) < addr \<Longrightarrow> i < ?m"
      using covers_between [OF 1(3,4), of ?m] m 1(6,7) by (auto simp: not_less)
    then show ?thesis
      using False m 1 by (subst lookup_loop.simps) (auto simp: Let_def)
  qed
qed

lemma fst_lookup_symbol:
  "fst (lookup_symbol k tab addr m) =
     (case lookup_loop (sym tab) addr 0 (length (sym tab)) of
        None \<Rightarrow> None
      | Some i \<Rightarrow> if st_value (sym tab ! i) = 0 then None
                 else Some (strtab tab + unat (st_name (sym tab ! i)), st_value (sym tab ! i)))"
  by (simp add: lookup_symbol_def Let_def split: option.split)

text \<open>
  \<^verbatim>\<open>lookup_symbol\<close> on a table with increasing addresses: its binary search answers with the name and the start of a
  symbol exactly if some symbol with a non-zero address covers the address: the symbol starts at or below it, the
  next one, or 4096 bytes, above it, and the size, if there is one, reaches it.
\<close>

lemma lookup_symbol_finds:
  assumes "sorted_wrt (<) (map st_value (sym tab))"
  shows "fst (lookup_symbol k tab addr m) = Some (name, start) \<longleftrightarrow>
    (\<exists>i<length (sym tab). sym_covers (sym tab) addr i \<and> start \<noteq> 0 \<and> start = st_value (sym tab ! i) \<and>
       name = strtab tab + unat (st_name (sym tab ! i)))"
proof (cases "lookup_loop (sym tab) addr 0 (length (sym tab))")
  case None
  then have "\<not> sym_covers (sym tab) addr i" if "i < length (sym tab)" for i
    using lookup_loop_complete [OF assms _ _ that, of addr 0] by auto
  then show ?thesis
    using None by (auto simp: fst_lookup_symbol)
next
  case (Some j)
  have j: "j < length (sym tab)" "sym_covers (sym tab) addr j"
    using lookup_loop_sound [OF Some] by simp_all
  have "i < length (sym tab) \<and> sym_covers (sym tab) addr i \<longleftrightarrow> i = j" for i
    using covers_unique [OF assms _ j(2) _ j(1)] j by blast
  then have "(\<exists>i<length (sym tab). sym_covers (sym tab) addr i \<and> P i) \<longleftrightarrow> P j" for P
    by metis
  then show ?thesis
    unfolding fst_lookup_symbol Some by auto
qed

definition sample_symtab :: elf_symtabref where
  "sample_symtab = \<lparr>sym = [\<lparr>st_name = 0, st_value = 0, st_size = 0\<rparr>, \<lparr>st_name = 1, st_value = 0x40000, st_size = 0x30\<rparr>,
     \<lparr>st_name = 9, st_value = 0x40040, st_size = 0\<rparr>], strtab = 0x1010000\<rparr>"

lemma lookup_symbol_finds_witness:
  "\<forall>k m. fst (lookup_symbol k sample_symtab 0x40010 m) = Some (0x1010001, 0x40000) \<and>
     fst (lookup_symbol k sample_symtab 0x40100 m) = Some (0x1010009, 0x40040)"
proof -
  have ord: "sorted_wrt (<) (map st_value (sym sample_symtab))"
    by (simp add: sample_symtab_def)
  have "\<exists>i<length (sym sample_symtab). sym_covers (sym sample_symtab) 0x40010 i \<and> (0x40000 :: ulong) \<noteq> 0 \<and>
      0x40000 = st_value (sym sample_symtab ! i) \<and> 0x1010001 = strtab sample_symtab + unat (st_name (sym sample_symtab ! i))"
    by (intro exI [of _ 1]) (simp add: sample_symtab_def sym_covers_def nth_Cons')
  moreover have "\<exists>i<length (sym sample_symtab). sym_covers (sym sample_symtab) 0x40100 i \<and> (0x40040 :: ulong) \<noteq> 0 \<and>
      0x40040 = st_value (sym sample_symtab ! i) \<and> 0x1010009 = strtab sample_symtab + unat (st_name (sym sample_symtab ! i))"
    by (intro exI [of _ 2]) (simp add: sample_symtab_def sym_covers_def nth_Cons')
  ultimately show ?thesis
    unfolding lookup_symbol_finds [OF ord] by blast
qed

text \<open>
  With equal addresses the search can miss: the address of the last two symbols here is covered by the second of
  them, but at the first the search turns left.
\<close>

lemma lookup_misses_duplicate:
  "lookup_loop [\<lparr>st_name = 0, st_value = 0, st_size = 0\<rparr>, \<lparr>st_name = 1, st_value = 0x40000, st_size = 0\<rparr>,
      \<lparr>st_name = 9, st_value = 0x40000, st_size = 0x20\<rparr>] 0x40000 0 3 = None \<and>
   sym_covers [\<lparr>st_name = 0, st_value = 0, st_size = 0\<rparr>, \<lparr>st_name = 1, st_value = 0x40000, st_size = 0\<rparr>,
      \<lparr>st_name = 9, st_value = 0x40000, st_size = 0x20\<rparr>] 0x40000 2"
  by (simp add: lookup_loop.simps [of _ _ 0 3] lookup_loop.simps [of _ _ 0 "Suc 0"] lookup_loop.simps [of _ _ "Suc 0" "Suc 0"]
      sym_covers_def Let_def nth_Cons')

section \<open>The backtrace ends\<close>

lemma down_loop_level: "down_loop m va l pep perm = (l', r) \<Longrightarrow> l' \<le> l"
  by (induction m va l pep perm rule: down_loop.induct) (auto simp: Let_def split: if_splits)

lemma real_find_level:
  assumes "real_find m it va = Done it'" "vm_level it \<le> 3"
  shows "vm_level it' \<le> 3"
  using assms by (auto simp: real_find_def down_def Let_def split: if_splits prod.splits dest!: down_loop_level)

lemma region_size:
  assumes "l \<le> 3"
  shows "unat (pageoffmask l + 1) = 2 ^ (12 + l * 9)"
proof -
  have "l = 0 \<or> l = 1 \<or> l = 2 \<or> l = 3"
    using assms by auto
  then show ?thesis
    by (auto simp: pageoffmask_def push_bit_eq_mult)
qed

lemma range_loop_returns:
  assumes "vm_level it \<le> 3" "0 < rsz" "rsz \<le> sz"
  shows "\<exists>r. range_loop m it sz rsz p = Some r"
  using assms
proof (induction "unat sz" arbitrary: it sz rsz p rule: less_induct)
  case less
  have dec: "unat (sz - rsz) < unat sz"
    using less.prems(2,3) by (simp add: unat_sub word_le_nat_alt word_less_nat_alt)
  show ?case
  proof (cases "next_range m it")
    case (Done it')
    have l: "vm_level it' \<le> 3"
      using real_find_level [of m it _ it'] Done less.prems(1) by (auto simp: next_range_def)
    have "0 < pageoffmask (vm_level it') + 1"
      using region_size [OF l] by (simp add: word_less_nat_alt)
    then show ?thesis
      using Done less.hyps [OF dec l] by (subst range_loop.simps) (auto simp: Let_def)
  qed (subst range_loop.simps, simp add: Let_def)+
qed

lemma range_perm_returns:
  assumes "vm_level it \<le> 3"
  shows "\<exists>r. range_perm m it sz = Some r"
proof -
  have "\<exists>r. range_loop m it sz rsz p = Some r" for sz rsz p
  proof (cases "next_range m it")
    case (Done it')
    have l: "vm_level it' \<le> 3"
      using real_find_level [of m it _ it'] Done assms by (auto simp: next_range_def)
    have "0 < pageoffmask (vm_level it') + 1"
      using region_size [OF l] by (simp add: word_less_nat_alt)
    then show ?thesis
      using Done range_loop_returns [OF l] by (subst range_loop.simps) (auto simp: Let_def)
  qed (subst range_loop.simps, simp add: Let_def)+
  then show ?thesis
    by (auto simp: range_perm_def Let_def)
qed

text \<open>Within one mapping the range is not looked at: bytes past the end of a page have its permissions.\<close>

lemma range_perm_one_page:
  assumes "sz \<le> pageoffmask (vm_level it) + 1"
  shows "range_perm m it sz = Some (Done (if vm_perms m it AND PTE_P \<noteq> 0 then vm_perms m it else 0))"
  using assms by (auto simp: range_perm_def Let_def)

definition bt_inv :: "backtracer \<Rightarrow> bool" where
  "bt_inv bt \<longleftrightarrow> bt_rsp bt = 0 \<or> bt_rsp bt \<le> bt_rbp bt \<and> unat (bt_rbp bt) + 16 \<le> unat (bt_top bt)"

lemma bt_check_inv:
  obtains r where "bt_check m bt = Some r"
    "\<And>bt'. r = Done bt' \<Longrightarrow> bt_inv bt' \<and> bt_top bt' = bt_top bt \<and> (bt_rsp bt' = 0 \<or> bt_rsp bt' = bt_rsp bt)"
proof (cases "bt_rbp bt < bt_rsp bt \<or> bt_top bt < bt_rbp bt \<or> bt_top bt - bt_rbp bt < 16 \<or> bt_pt bt = 0")
  case True
  then show ?thesis
    by (intro that [of "Done (bt\<lparr>bt_rbp := 0, bt_rsp := 0\<rparr>)"]) (auto simp: bt_check_def bt_inv_def)
next
  case False
  have "bt_rbp bt \<le> bt_top bt" "16 \<le> bt_top bt - bt_rbp bt"
    using False by auto
  then have "unat (bt_rbp bt) + 16 \<le> unat (bt_top bt)"
    by (simp add: word_le_nat_alt unat_sub)
  then have good: "bt_inv bt"
    using False by (auto simp: bt_inv_def)
  show ?thesis
  proof (cases "vmiter_new m (bt_pt bt) (bt_rbp bt)")
    case (Done it)
    have "vm_level it \<le> 3"
      using Done real_find_level [of m _ "bt_rbp bt" it] by (auto simp: vmiter_new_def)
    then obtain r where r: "range_perm m it 16 = Some r"
      using range_perm_returns by blast
    show ?thesis
      by (rule that [of "obind r (\<lambda>p. Done (if p AND PTE_P = 0 \<or> bt_rbp bt AND 7 \<noteq> 0 then bt\<lparr>bt_rbp := 0, bt_rsp := 0\<rparr> else bt))"];
          use False Done r good in \<open>cases r; auto simp: bt_check_def bt_inv_def Let_def split: if_splits\<close>)
  qed (rule that [of Abort]; use False in \<open>simp add: bt_check_def Let_def\<close>)+
qed

text \<open>Each step goes up the stack by 16 bytes or more, or ends the backtrace.\<close>

lemma bt_step_up:
  assumes "bt_inv bt" "bt_ok bt"
  obtains r where "bt_step m bt = Some r"
    "\<And>bt'. r = Done bt' \<Longrightarrow> bt_inv bt' \<and> bt_top bt' = bt_top bt \<and>
       (bt_rsp bt' = 0 \<or> unat (bt_rsp bt) + 16 \<le> unat (bt_rsp bt'))"
proof (cases "deref_rbp m bt 0")
  case (Done v)
  have rbp: "unat (bt_rsp bt) \<le> unat (bt_rbp bt)" "unat (bt_rbp bt) + 16 < 2 ^ 64"
    using assms unsigned_less [of "bt_top bt", where 'a = nat] by (auto simp: bt_inv_def bt_ok_def word_le_nat_alt)
  then have "unat (bt_rbp bt + 16) = unat (bt_rbp bt) + 16"
    by (simp add: unat_word_ariths)
  then show ?thesis
    using Done rbp that bt_check_inv [of m "bt\<lparr>bt_rsp := bt_rbp bt + 16, bt_rbp := v\<rparr>"]
    by (auto simp: bt_step_def) (metis (no_types, lifting) add_le_mono1)
qed (use that in \<open>auto simp: bt_step_def\<close>)

lemma backtrace_loop_ends:
  assumes "bt_inv bt"
  shows "\<exists>r. backtrace_loop k tab bt frame m out = Some r \<and> (\<forall>ls m'. r = Done (ls, m') \<longrightarrow>
    length ls \<le> length out + (if bt_ok bt then (unat (bt_top bt) - unat (bt_rsp bt)) div 16 else 0))"
  using assms
proof (induction "if bt_ok bt then Suc (unat (bt_top bt) - unat (bt_rsp bt)) else 0" arbitrary: bt frame m out rule: less_induct)
  case less
  show ?case
  proof (cases "bt_ok bt")
    case False
    then show ?thesis
      by (subst backtrace_loop.simps) simp
  next
    case True
    let ?h = "\<lambda>bt. unat (bt_top bt) - unat (bt_rsp bt)"
    have room: "16 \<le> ?h bt"
      using True less.prems by (auto simp: bt_inv_def bt_ok_def word_le_nat_alt)
    show ?thesis
    proof (cases "deref_rbp m bt 8")
      case (Done rip)
      obtain sy m1 where sy: "lookup_symbol k tab rip m = (sy, m1)"
        by (cases "lookup_symbol k tab rip m")
      define line where "line = (case sy of Some (name, _) \<Rightarrow> [(frame, rip, Some name)]
          | None \<Rightarrow> if rip \<noteq> 0 then [(frame, rip, None)] else [])"
      have line: "length line \<le> 1"
        by (auto simp: line_def split: option.split)
      obtain r where r: "bt_step m1 bt = Some r" "\<And>bt'. r = Done bt' \<Longrightarrow> bt_inv bt' \<and> bt_top bt' = bt_top bt \<and>
          (bt_rsp bt' = 0 \<or> unat (bt_rsp bt) + 16 \<le> unat (bt_rsp bt'))"
        by (rule bt_step_up [OF less.prems True]) blast
      have unfold: "backtrace_loop k tab bt frame m out = (case r of Done bt \<Rightarrow> backtrace_loop k tab bt (frame + 1) m1 (out @ line)
          | Undef \<Rightarrow> Some Undef | _ \<Rightarrow> Some Abort)"
        using True Done r(1) by (subst backtrace_loop.simps) (simp add: sy line_def split: outcome.split)
      show ?thesis
      proof (cases r)
        case d: (Done bt')
        note up = r(2) [OF d]
        have h: "bt_ok bt' \<Longrightarrow> ?h bt' + 16 \<le> ?h bt"
          using up room by (auto simp: bt_inv_def bt_ok_def word_le_nat_alt)
        then have "(if bt_ok bt' then ?h bt' div 16 else 0) + 1 \<le> ?h bt div 16"
          using room by auto
        moreover have "(if bt_ok bt' then Suc (?h bt') else 0) < (if bt_ok bt then Suc (?h bt) else 0)"
          using h True by auto
        ultimately show ?thesis
          using less.hyps [of bt' "frame + 1" m1 "out @ line"] up d unfold line True by fastforce
      qed (use unfold in auto)
    qed (use True in \<open>subst backtrace_loop.simps, simp\<close>)+
  qed
qed

lemma round_up_near:
  assumes "unat x \<le> unat (round_up x (of_nat PAGESIZE))"
  shows "unat (round_up x (of_nat PAGESIZE)) - unat x \<le> 4095"
proof -
  have "round_up x (of_nat PAGESIZE) \<le> x + 4095"
    by (simp add: round_up_def round_down_def word_le_nat_alt unat_sub_if' unat_mod add.commute)
  then have "unat (round_up x (of_nat PAGESIZE)) \<le> unat (x + 4095)"
    by (simp add: word_le_nat_alt)
  also have "\<dots> \<le> unat x + 4095"
    by (simp add: unat_word_ariths)
  finally show ?thesis by simp
qed

text \<open>
  C34. A backtrace ends, whatever the registers, the page table and the memory hold: every frame pointer that is followed
  is higher up the page of the stack pointer than the one before, so that at most 255 lines are printed.
\<close>

theorem log_backtrace_ends:
  "case log_backtrace k tab rg pt m of
     None \<Rightarrow> False
   | Some (Done (warning, ls, m')) \<Rightarrow> length ls \<le> 255
   | Some _ \<Rightarrow> True"
proof -
  obtain r where r: "backtracer_new m rg pt = Some r" "\<And>bt. r = Done bt \<Longrightarrow> bt_inv bt \<and>
      bt_top bt = round_up (reg_rsp rg) (of_nat PAGESIZE) \<and> (bt_rsp bt = 0 \<or> bt_rsp bt = reg_rsp rg)"
    unfolding backtracer_new_def by (rule bt_check_inv) force
  show ?thesis
  proof (cases r)
    case (Done bt)
    note bt = r(2) [OF Done]
    have few: "(if bt_ok bt then (unat (bt_top bt) - unat (bt_rsp bt)) div 16 else 0) \<le> 255"
      using bt round_up_near [of "reg_rsp rg"] by (auto simp: bt_inv_def bt_ok_def word_le_nat_alt)
    obtain r' where r': "backtrace_loop k tab bt 1 m [] = Some r'"
        "\<And>ls m'. r' = Done (ls, m') \<Longrightarrow> length ls \<le> (if bt_ok bt then (unat (bt_top bt) - unat (bt_rsp bt)) div 16 else 0)"
      using backtrace_loop_ends [of bt k tab 1 m "[]"] bt by auto
    show ?thesis
    proof (cases r')
      case d: (Done p)
      then have "length (fst p) \<le> 255"
        using r'(2) [of "fst p" "snd p"] few by simp
      then show ?thesis
        using r' r(1) Done d by (cases p) (simp add: log_backtrace_def Let_def)
    qed (use r' r(1) Done in \<open>simp_all add: log_backtrace_def Let_def\<close>)
  qed (use r in \<open>simp_all add: log_backtrace_def\<close>)
qed

end
