(* ===== verification/Lib_Printf.thy ===== *)
theory Lib_Printf
  imports Lib_Number
begin

text \<open>
  Formatted printing of the Lab 4 library (\<^verbatim>\<open>lab4-TheCarton-main/lib.cc\<close>): \<^verbatim>\<open>print_number\<close>, \<^verbatim>\<open>printer::vprintf\<close> and the
  printer that writes to a buffer (\<^verbatim>\<open>vsnprintf\<close>, \<^verbatim>\<open>snprintf\<close>).  The format is the text before its NUL; the
  variable arguments are a list of typed values, and to take one with another type is undefined.  \<^verbatim>\<open>vprintf\<close>
  never looks at the printer, so that it is modelled by the list of its calls of \<^verbatim>\<open>putc\<close>.
\<close>

unbundle bit_operations_syntax

section \<open>print\_number\<close>

datatype flag = FLAG_ALT | FLAG_ZERO | FLAG_LEFTJUSTIFY | FLAG_SPACEPOSITIVE | FLAG_PLUSPOSITIVE | FLAG_THOUSANDS
  | FLAG_NUMERIC | FLAG_SIGNED | FLAG_NEGATIVE | FLAG_ALT2

definition upper_digits :: string where "upper_digits = ''0123456789ABCDEF''"
definition lower_digits :: string where "lower_digits = ''0123456789abcdef''"

text \<open>
  The loop of \<^verbatim>\<open>print_number\<close>: the space left before \<^verbatim>\<open>buf\<close>, the distance to \<^verbatim>\<open>thousands_pos\<close> (\<open>None\<close> when it is not used),
  the value and the text written so far.  It is entered with space.
\<close>

fun num_loop :: "string \<Rightarrow> nat \<Rightarrow> nat \<Rightarrow> nat option \<Rightarrow> nat \<Rightarrow> string \<Rightarrow> string" where
  "num_loop digits base 0 th val pos = pos"
| "num_loop digits base (Suc n) th val pos =
     (let (th, val, pos) =
        (if th = Some 0
         then (Some (if base = 10 then 3 else 4), val, (if base = 10 then CHR '','' else CHR 0x27) # pos)
         else (map_option (\<lambda>k. k - 1) th, val div base, digits ! (val mod base) # pos))
      in if val \<noteq> 0 \<and> n \<noteq> 0 then num_loop digits base n th val pos else pos)"

definition print_number :: "nat \<Rightarrow> ulong \<Rightarrow> int \<Rightarrow> flag set \<Rightarrow> string" where
  "print_number sz val base flags =
     (let (digits, base) = (if base < 0 then (lower_digits, nat (- base)) else (upper_digits, nat base))
      in num_loop digits base (sz - 1) (if FLAG_THOUSANDS \<in> flags then Some (if base = 10 then 3 else 4) else None) (unat val) [])"

section \<open>Directives\<close>

datatype varg = VInt "32 word" | VLong ulong | VPtr ulong | VStr string

fun va_int :: "varg list \<Rightarrow> (32 word \<times> varg list) outcome" where
  "va_int (VInt x # vs) = Done (x, vs)" | "va_int _ = Undef"

fun va_long :: "varg list \<Rightarrow> (ulong \<times> varg list) outcome" where
  "va_long (VLong x # vs) = Done (x, vs)" | "va_long _ = Undef"

fun va_ptr :: "varg list \<Rightarrow> (ulong \<times> varg list) outcome" where
  "va_ptr (VPtr x # vs) = Done (x, vs)" | "va_ptr _ = Undef"

fun va_str :: "varg list \<Rightarrow> (string \<times> varg list) outcome" where
  "va_str (VStr x # vs) = Done (x, vs)" | "va_str _ = Undef"

text \<open>\<^verbatim>\<open>strchr(flag_chars, c)\<close> and the bit of its position.\<close>

definition flag_of :: "char \<Rightarrow> flag option" where
  "flag_of c = map_of (zip ''#0- +'' [FLAG_ALT, FLAG_ZERO, FLAG_LEFTJUSTIFY, FLAG_SPACEPOSITIVE, FLAG_PLUSPOSITIVE] @
     [(CHR 0x27, FLAG_THOUSANDS)]) c"

fun take_flags :: "string \<Rightarrow> flag set \<Rightarrow> flag set \<times> string" where
  "take_flags [] flags = (flags, [])"
| "take_flags (c # f) flags =
     (case flag_of c of Some x \<Rightarrow> take_flags f (insert x flags) | None \<Rightarrow> (flags, c # f))"

text \<open>\<^verbatim>\<open>width = 10 * width + *format++ - '0'\<close>\<close>

fun dec_field :: "int \<Rightarrow> string \<Rightarrow> (int \<times> string) outcome" where
  "dec_field w [] = Done (w, [])"
| "dec_field w (c # f) =
     (if is_digit c
      then if 10 * w + char_val c < 2 ^ 31 then dec_field (10 * w + char_val c - 48) f else Undef
      else Done (w, c # f))"

fun take_width :: "string \<Rightarrow> varg list \<Rightarrow> (int \<times> string \<times> varg list) outcome" where
  "take_width [] vs = Done (- 1, [], vs)"
| "take_width (c # f) vs =
     (if is_digit c \<and> c \<noteq> CHR ''0'' then obind (dec_field 0 (c # f)) (\<lambda>(w, f). Done (w, f, vs))
      else if c = CHR ''*'' then obind (va_int vs) (\<lambda>(w, vs). Done (sint w, f, vs))
      else Done (- 1, c # f, vs))"

definition take_precision :: "string \<Rightarrow> varg list \<Rightarrow> (int \<times> string \<times> varg list) outcome" where
  "take_precision f vs =
     (if f = [] \<or> hd f \<noteq> CHR ''.'' then Done (- 1, f, vs)
      else let f = tl f in
        obind (if f \<noteq> [] \<and> is_digit (hd f) then obind (dec_field 0 f) (\<lambda>(p, f). Done (p, f, vs))
               else if f \<noteq> [] \<and> hd f = CHR ''*'' then obind (va_int vs) (\<lambda>(p, vs). Done (sint p, tl f, vs))
               else Done (- 1, f, vs))
          (\<lambda>(p, f, vs). Done (if p < 0 then 0 else p, f, vs)))"

fun take_length :: "string \<Rightarrow> bool \<times> string" where
  "take_length [] = (False, [])"
| "take_length (c # f) =
     (if c \<in> {CHR ''l'', CHR ''t'', CHR ''z''} then (True, f) else if c = CHR ''h'' then (False, f) else (False, c # f))"

text \<open>What the conversion character asks for: another colour, or a field with its flags, base, number and text.\<close>

datatype conv = SetColor int | Field "flag set" int ulong string

definition conv_signed :: "flag set \<Rightarrow> bool \<Rightarrow> varg list \<Rightarrow> (conv \<times> varg list) outcome" where
  "conv_signed flags len vs =
     obind (if len then obind (va_long vs) (\<lambda>(x, vs). Done (sint x, vs)) else obind (va_int vs) (\<lambda>(x, vs). Done (sint x, vs))) (\<lambda>(x, vs).
       if x = - (2 ^ 63) then Undef
       else Done (Field (flags \<union> {FLAG_NUMERIC, FLAG_SIGNED} \<union> (if x < 0 then {FLAG_NEGATIVE} else {})) 10 (of_int \<bar>x\<bar>) [], vs))"

definition conv_unsigned :: "flag set \<Rightarrow> bool \<Rightarrow> int \<Rightarrow> varg list \<Rightarrow> (conv \<times> varg list) outcome" where
  "conv_unsigned flags len base vs =
     obind (if len then va_long vs else obind (va_int vs) (\<lambda>(x, vs). Done (ucast x, vs))) (\<lambda>(x, vs).
       Done (Field (insert FLAG_NUMERIC flags) base x [], vs))"

definition conversion :: "flag set \<Rightarrow> bool \<Rightarrow> string \<Rightarrow> varg list \<Rightarrow> (conv \<times> varg list) outcome" where
  "conversion flags len f vs =
     (case f of
        [] \<Rightarrow> Done (Field flags 10 0 ''%'', vs)
      | c # _ \<Rightarrow>
          if c = CHR ''d'' \<or> c = CHR ''i'' then conv_signed flags len vs
          else if c = CHR ''u'' then conv_unsigned flags len 10 vs
          else if c = CHR ''x'' then conv_unsigned flags len (- 16) vs
          else if c = CHR ''X'' then conv_unsigned flags len 16 vs
          else if c = CHR ''p'' then
            obind (va_ptr vs) (\<lambda>(x, vs). Done (Field (flags \<union> {FLAG_ALT, FLAG_ALT2, FLAG_NUMERIC}) (- 16) x [], vs))
          else if c = CHR ''s'' then obind (va_str vs) (\<lambda>(s, vs). Done (Field flags 10 0 s, vs))
          else if c = CHR ''C'' then obind (va_int vs) (\<lambda>(x, vs). Done (SetColor (sint x), vs))
          else if c = CHR ''c'' then
            obind (va_int vs) (\<lambda>(x, vs). Done (Field flags 10 0 (takeWhile (\<lambda>c. c \<noteq> NUL) [to_char (sint x)]), vs))
          else Done (Field flags 10 0 [c], vs))"

section \<open>Fields\<close>

definition field_prefix :: "flag set \<Rightarrow> int \<Rightarrow> ulong \<Rightarrow> string" where
  "field_prefix flags base num =
     (if FLAG_NUMERIC \<in> flags \<and> FLAG_SIGNED \<in> flags then
        if FLAG_NEGATIVE \<in> flags then ''-''
        else if FLAG_PLUSPOSITIVE \<in> flags then ''+''
        else if FLAG_SPACEPOSITIVE \<in> flags then '' ''
        else []
      else if FLAG_NUMERIC \<in> flags \<and> FLAG_ALT \<in> flags \<and> (base = 16 \<or> base = - 16) \<and> (num \<noteq> 0 \<or> FLAG_ALT2 \<in> flags)
      then if base = - 16 then ''0x'' else ''0X''
      else [])"

definition field_zeros :: "flag set \<Rightarrow> int \<Rightarrow> int \<Rightarrow> int \<Rightarrow> int \<Rightarrow> int" where
  "field_zeros flags width precision datalen preflen =
     (if FLAG_NUMERIC \<in> flags \<and> precision \<ge> 0 then if precision > datalen then precision - datalen else 0
      else if FLAG_NUMERIC \<in> flags \<and> FLAG_ZERO \<in> flags \<and> FLAG_LEFTJUSTIFY \<notin> flags \<and> datalen + preflen < width
      then width - datalen - preflen
      else 0)"

text \<open>The characters of a field: padding, prefix, zeros, text, padding.\<close>

definition field :: "flag set \<Rightarrow> int \<Rightarrow> int \<Rightarrow> int \<Rightarrow> ulong \<Rightarrow> string \<Rightarrow> string" where
  "field flags width precision base num data =
     (let data = (if FLAG_NUMERIC \<in> flags then print_number 32 num base flags else data);
          prefix = field_prefix flags base num;
          datalen = (if precision \<ge> 0 \<and> FLAG_NUMERIC \<notin> flags then min (nat precision) (length data) else length data);
          zeros = field_zeros flags width precision (int datalen) (int (length prefix));
          pad = replicate (nat (int32 (width - (int datalen + zeros + int (length prefix))))) (CHR '' '')
      in (if FLAG_LEFTJUSTIFY \<in> flags then [] else pad) @ prefix @ replicate (nat zeros) (CHR ''0'') @ take datalen data @
         (if FLAG_LEFTJUSTIFY \<in> flags then pad else []))"

section \<open>vprintf\<close>

lemma take_flags_le: "length (snd (take_flags f fl)) \<le> length f"
  by (induction f fl rule: take_flags.induct) (auto split: option.splits)

lemma dec_field_le: "dec_field w f = Done (w', f') \<Longrightarrow> length f' \<le> length f"
  by (induction w f rule: dec_field.induct) (auto split: if_splits)

lemma take_width_le: "take_width f vs = Done (w, f', vs') \<Longrightarrow> length f' \<le> length f"
  by (cases f) (auto split: if_splits elim!: obind_DoneE dest: dec_field_le simp del: dec_field.simps)

lemma take_precision_le: "take_precision f vs = Done (p, f', vs') \<Longrightarrow> length f' \<le> length f"
  by (cases f) (auto simp: take_precision_def Let_def split: if_splits elim!: obind_DoneE dest: dec_field_le)

lemma take_length_le: "length (snd (take_length f)) \<le> length f"
  by (cases f) auto

lemma directive_le:
  assumes "(flags, f1) = take_flags f fl" "take_width f1 vs = Done (w, f2, vs2)" "take_precision f2 vs2 = Done (p, f3, vs3)"
    and "(len, f4) = take_length f3"
  shows "length f4 - Suc 0 \<le> length f"
  using assms take_flags_le [of f fl] take_width_le [OF assms(2)] take_precision_le [OF assms(3)] take_length_le [of f3]
  by (metis diff_le_self le_trans snd_conv)

text \<open>The calls of \<^verbatim>\<open>putc\<close>, each a character with its colour.\<close>

function vprintf :: "int \<Rightarrow> string \<Rightarrow> varg list \<Rightarrow> (char \<times> int) list outcome" where
  "vprintf color [] vs = Done []"
| "vprintf color (c # f) vs =
     (if c \<noteq> CHR ''%'' then obind (vprintf color f vs) (\<lambda>out. Done ((c, color) # out))
      else let (flags, f1) = take_flags f {} in
        obind (take_width f1 vs) (\<lambda>(width, f2, vs2).
        obind (take_precision f2 vs2) (\<lambda>(precision, f3, vs3).
        let (len, f4) = take_length f3 in
        obind (conversion flags len f4 vs3) (\<lambda>(r, vs4).
        case r of
          SetColor color' \<Rightarrow> vprintf color' (drop 1 f4) vs4
        | Field flags base num data \<Rightarrow>
            obind (vprintf color (drop 1 f4) vs4) (\<lambda>out.
              Done (map (\<lambda>c. (c, color)) (field flags width precision base num data) @ out))))))"
  by pat_completeness auto
termination
  by (relation "measure (\<lambda>(_, f, _). length f)") (auto simp: less_Suc_eq_le intro: directive_le)

declare vprintf.simps(2) [simp del]


section \<open>Printing into a buffer\<close>

record string_printer =
  sp_mem :: mem
  sp_s :: nat
  sp_end :: nat
  sp_n :: nat

definition sp_putc :: "char \<times> int \<Rightarrow> string_printer \<Rightarrow> string_printer" where
  "sp_putc x sp =
     (let sp = (if sp_s sp < sp_end sp then sp\<lparr>sp_mem := (sp_mem sp)(sp_s sp := fst x), sp_s := sp_s sp + 1\<rparr> else sp)
      in sp\<lparr>sp_n := sp_n sp + 1\<rparr>)"

definition vsnprintf :: "mem \<Rightarrow> nat \<Rightarrow> nat \<Rightarrow> string \<Rightarrow> varg list \<Rightarrow> (nat \<times> mem) outcome" where
  "vsnprintf m s sz format val =
     obind (vprintf 0 format val) (\<lambda>out.
       let sp = fold sp_putc out \<lparr>sp_mem = m, sp_s = s, sp_end = s + sz, sp_n = 0\<rparr>
       in Done (sp_n sp,
            if sz \<noteq> 0 \<and> sp_s sp < sp_end sp then (sp_mem sp)(sp_s sp := NUL)
            else if sz \<noteq> 0 then (sp_mem sp)(sp_end sp - 1 := NUL)
            else sp_mem sp))"

text \<open>\<^verbatim>\<open>int n = vsnprintf(..)\<close>\<close>

definition snprintf :: "mem \<Rightarrow> nat \<Rightarrow> nat \<Rightarrow> string \<Rightarrow> varg list \<Rightarrow> (int \<times> mem) outcome" where
  "snprintf m s sz format val = obind (vsnprintf m s sz format val) (\<lambda>(n, m). Done (int32 (int n), m))"

lemma fold_sp_putc:
  assumes "sp_s sp \<le> sp_end sp"
  shows "fold sp_putc out sp =
    (let k = min (length out) (sp_end sp - sp_s sp)
     in \<lparr>sp_mem = (\<lambda>a. if sp_s sp \<le> a \<and> a < sp_s sp + k then fst (out ! (a - sp_s sp)) else sp_mem sp a),
          sp_s = sp_s sp + k, sp_end = sp_end sp, sp_n = sp_n sp + length out\<rparr>)"
  using assms
proof (induction out arbitrary: sp)
  case Nil
  then show ?case
    by (cases sp) (auto simp: Let_def fun_eq_iff)
next
  case (Cons x out)
  let ?sp = "sp_putc x sp"
  have le: "sp_s ?sp \<le> sp_end ?sp"
    using Cons.prems by (simp add: sp_putc_def Let_def)
  show ?case
  proof (cases "sp_s sp < sp_end sp")
    case True
    then obtain d where d: "sp_end sp - sp_s sp = Suc d"
      by (cases "sp_end sp - sp_s sp") auto
    have sp: "sp_s ?sp = Suc (sp_s sp)" "sp_end ?sp = sp_end sp" "sp_n ?sp = Suc (sp_n sp)"
      "sp_mem ?sp = (sp_mem sp)(sp_s sp := fst x)" "sp_end sp - Suc (sp_s sp) = d"
      using True d by (simp_all add: sp_putc_def)
    have "fold sp_putc (x # out) sp = fold sp_putc out ?sp"
      by simp
    also note Cons.IH [OF le]
    finally show ?thesis
      unfolding sp d Let_def by (auto simp: fun_eq_iff nth_Cons' not_less Suc_diff_le)
  next
    case False
    then have e: "sp_putc x sp = sp\<lparr>sp_n := Suc (sp_n sp)\<rparr>"
      by (simp add: sp_putc_def)
    show ?thesis
      using Cons.IH [OF le] Cons.prems False unfolding fold_simps e by (auto simp: Let_def fun_eq_iff)
  qed
qed

lemma vsnprintf_out:
  assumes "vprintf 0 format val = Done out" "0 < sz"
  shows "\<exists>m'. vsnprintf m s sz format val = Done (length out, m') \<and>
    text_at m' s (take (sz - 1) (map fst out) @ [NUL]) \<and> (\<forall>a. a \<notin> {s..<s + sz} \<longrightarrow> m' a = m a)"
proof -
  let ?k = "min (length out) sz"
  let ?m = "\<lambda>a. if s \<le> a \<and> a < s + ?k then fst (out ! (a - s)) else m a"
  let ?m' = "if length out < sz then ?m(s + length out := NUL) else ?m(s + sz - 1 := NUL)"
  have "fold sp_putc out \<lparr>sp_mem = m, sp_s = s, sp_end = s + sz, sp_n = 0\<rparr> =
      \<lparr>sp_mem = ?m, sp_s = s + ?k, sp_end = s + sz, sp_n = length out\<rparr>"
    by (subst fold_sp_putc) (auto simp: Let_def fun_eq_iff)
  then have "vsnprintf m s sz format val = Done (length out, ?m')"
    using assms by (simp add: vsnprintf_def Let_def)
  moreover have "text_at ?m' s (take (sz - 1) (map fst out) @ [NUL])"
    using assms(2) by (auto simp: text_at_def nth_append less_Suc_eq)
  moreover have "?m' a = m a" if "a \<notin> {s..<s + sz}" for a
    using that assms(2) by auto
  ultimately show ?thesis
    by blast
qed

section \<open>Digits\<close>

text \<open>The text of a number in a base.\<close>

fun base_text :: "string \<Rightarrow> nat \<Rightarrow> nat \<Rightarrow> string" where
  "base_text digits b n = (if n < b \<or> b < 2 then [digits ! (n mod b)] else base_text digits b (n div b) @ [digits ! (n mod b)])"

declare base_text.simps [simp del]

lemma base_text_nonempty [simp]: "base_text digits b n \<noteq> []"
  by (subst base_text.simps) simp

lemma base_text_step:
  "2 \<le> b \<Longrightarrow> base_text digits b n = (if n div b = 0 then [] else base_text digits b (n div b)) @ [digits ! (n mod b)]"
  by (subst base_text.simps) (auto simp: div_eq_0_iff)

lemma length_base_text: "2 \<le> b \<Longrightarrow> 0 < k \<Longrightarrow> n < b ^ k \<Longrightarrow> length (base_text digits b n) \<le> k"
proof (induction k arbitrary: n)
  case (Suc k)
  show ?case
  proof (cases "n div b = 0")
    case True
    then show ?thesis
      using Suc.prems by (subst base_text_step) auto
  next
    case False
    have "n div b < b ^ k"
      using Suc.prems by (simp add: less_mult_imp_div_less mult.commute)
    moreover have "0 < k"
      using False calculation by (cases k) auto
    ultimately have "length (base_text digits b (n div b)) \<le> k"
      using Suc by blast
    then show ?thesis
      using Suc.prems False by (subst base_text_step) auto
  qed
qed simp

text \<open>Without separators the loop writes the digits, when there is space.\<close>

lemma num_loop_plain:
  assumes "2 \<le> b"
  shows "length (base_text digits b val) \<le> n \<Longrightarrow> num_loop digits b n None val pos = base_text digits b val @ pos"
proof (induction n arbitrary: val pos)
  case (Suc n)
  show ?case
  proof (cases "val div b = 0")
    case True
    then show ?thesis
      using assms by (subst base_text_step) auto
  next
    case False
    then have t: "base_text digits b val = base_text digits b (val div b) @ [digits ! (val mod b)]"
      using assms by (subst base_text_step) auto
    then have "length (base_text digits b (val div b)) \<le> n"
      using Suc.prems by simp
    moreover then have "n \<noteq> 0"
      by (cases n) auto
    ultimately show ?thesis
      using Suc.IH [of "val div b"] False t by simp
  qed
qed simp


text \<open>
  With separators: one after each group of \<open>g\<close> digits.  \<open>need g d k\<close> is the space for \<open>d\<close> digits when the next separator
  comes after \<open>k\<close> of them.
\<close>

definition need :: "nat \<Rightarrow> nat \<Rightarrow> nat \<Rightarrow> nat" where
  "need g d k = d + (if k < d then (d - k + (g - 1)) div g else 0)"

lemma need_digit: "need g (Suc d) (Suc k) = Suc (need g d k)"
  by (simp add: need_def)

lemma need_sep: "0 < g \<Longrightarrow> 0 < d \<Longrightarrow> need g d 0 = Suc (need g d g)"
proof -
  assume g: "0 < g" "0 < d"
  show ?thesis
  proof (cases "g < d")
    case True
    have "d + g - Suc 0 = (d - Suc 0) + g"
      using g by simp
    then have "(d + g - Suc 0) div g = Suc ((d - Suc 0) div g)"
      using g by (simp only: div_add_self2)
    then show ?thesis
      using g True by (simp add: need_def)
  next
    case False
    then have "(d + (g - 1)) div g = 1"
      using g by (intro div_nat_eqI) auto
    then show ?thesis
      using g False by (simp add: need_def)
  qed
qed

lemma need_31: "d \<le> 20 \<Longrightarrow> g \<in> {3, 4} \<Longrightarrow> need g d g \<le> 31"
  by (auto simp: need_def)

lemma base_text_set: "2 \<le> b \<Longrightarrow> c \<in> set (base_text digits b n) \<Longrightarrow> \<exists>i<b. c = digits ! i"
proof (induction n rule: less_induct)
  case (less n)
  show ?case
  proof (cases "n div b = 0 \<or> c = digits ! (n mod b)")
    case True
    then have "c = digits ! (n mod b)"
      using less.prems by (subst (asm) base_text_step) auto
    then show ?thesis
      using less.prems by (intro exI [of _ "n mod b"]) simp
  next
    case False
    then have "c \<in> set (base_text digits b (n div b))"
      using less.prems by (subst (asm) base_text_step) auto
    moreover have "n div b < n"
      using False less.prems by (cases "n = 0") (auto intro: div_less_dividend)
    ultimately show ?thesis
      using less by blast
  qed
qed

lemma num_loop_groups:
  assumes "2 \<le> b" and g: "g = (if b = 10 then 3 else 4)" and sep: "sep = (if b = 10 then CHR '','' else CHR 0x27)"
    and digits: "\<forall>i<b. digits ! i \<noteq> sep"
  shows "need g (length (base_text digits b val)) k \<le> n \<Longrightarrow> val \<noteq> 0 \<or> 0 < k \<Longrightarrow> k \<le> g \<Longrightarrow>
    filter (\<lambda>c. c \<noteq> sep) (num_loop digits b n (Some k) val pos) = base_text digits b val @ filter (\<lambda>c. c \<noteq> sep) pos"
proof (induction n arbitrary: val pos k)
  case 0
  then show ?case by (simp add: need_def)
next
  case (Suc n)
  show ?case
  proof (cases k)
    case 0
    have "0 < g" "0 < length (base_text digits b val)"
      using g by simp_all
    from need_sep [OF this] have need: "need g (length (base_text digits b val)) g \<le> n"
      using Suc.prems 0 by simp
    then have "n \<noteq> 0"
      by (cases n) (auto simp: need_def)
    then have "num_loop digits b (Suc n) (Some k) val pos = num_loop digits b n (Some g) val (sep # pos)"
      using 0 Suc.prems(2) g sep by simp
    then show ?thesis
      using Suc.IH [OF need, of "sep # pos"] 0 Suc.prems(2) g by simp
  next
    case (Suc j)
    have ne: "digits ! (val mod b) \<noteq> sep"
      using digits assms(1) by simp
    show ?thesis
    proof (cases "val div b = 0")
      case True
      then show ?thesis
        using Suc assms(1) ne by (subst base_text_step) auto
    next
      case False
      then have t: "base_text digits b val = base_text digits b (val div b) @ [digits ! (val mod b)]"
        using assms(1) by (subst base_text_step) auto
      have need: "need g (length (base_text digits b (val div b))) j \<le> n"
        using Suc.prems(1) Suc t by (simp add: need_digit)
      then have "n \<noteq> 0"
        by (cases n) (auto simp: need_def)
      then show ?thesis
        using Suc.IH [OF need, of "digits ! (val mod b) # pos"] False Suc t ne Suc.prems by simp
    qed
  qed
qed


text \<open>For the bases that \<^verbatim>\<open>vprintf\<close> uses, the 31 characters of \<^verbatim>\<open>numbuf\<close> are enough for every number.\<close>

definition digit_set :: "int \<Rightarrow> string" where
  "digit_set base = (if base < 0 then lower_digits else upper_digits)"

definition sep_of :: "int \<Rightarrow> char" where
  "sep_of base = (if base = 10 then CHR '','' else CHR 0x27)"

lemma digits_no_sep: "base \<in> {10, 16, - 16} \<Longrightarrow> i < nat \<bar>base\<bar> \<Longrightarrow> digit_set base ! i \<noteq> sep_of base"
proof -
  assume b: "base \<in> {10, 16, - 16}" "i < nat \<bar>base\<bar>"
  then have "i < length (digit_set base)"
    by (auto simp: digit_set_def lower_digits_def upper_digits_def)
  then have "digit_set base ! i \<in> set (digit_set base)"
    by simp
  then show ?thesis
    by (auto simp: digit_set_def sep_of_def lower_digits_def upper_digits_def split: if_splits)
qed

lemma print_number_digits:
  assumes base: "base \<in> {10, 16, - 16}"
  shows "FLAG_THOUSANDS \<notin> flags \<Longrightarrow> print_number 32 val base flags = base_text (digit_set base) (nat \<bar>base\<bar>) (unat val)"
    and "filter (\<lambda>c. c \<noteq> sep_of base) (print_number 32 val base flags) = base_text (digit_set base) (nat \<bar>base\<bar>) (unat val)"
proof -
  let ?b = "nat \<bar>base\<bar>" and ?t = "base_text (digit_set base) (nat \<bar>base\<bar>) (unat val)"
  have "unat val < 2 ^ 64"
    using unsigned_less [of val, where 'a = nat] by simp
  moreover have "(2 :: nat) ^ 64 \<le> 10 ^ 20" "(2 :: nat) ^ 64 \<le> 16 ^ 20"
    by simp_all
  ultimately have len: "length ?t \<le> 20"
    using base by (intro length_base_text) auto
  have run: "print_number 32 val base flags =
      num_loop (digit_set base) ?b 31 (if FLAG_THOUSANDS \<in> flags then Some (if ?b = 10 then 3 else 4) else None) (unat val) []"
    using base by (auto simp: print_number_def digit_set_def)
  show plain: "print_number 32 val base flags = ?t" if "FLAG_THOUSANDS \<notin> flags"
    unfolding run using that base len num_loop_plain [of ?b "digit_set base" "unat val" 31 "[]"] by auto
  have sep: "sep_of base = (if ?b = 10 then CHR '','' else CHR 0x27)"
    using base by (auto simp: sep_of_def)
  have all: "\<forall>i<?b. digit_set base ! i \<noteq> sep_of base"
    using digits_no_sep [OF base] by blast
  let ?g = "if ?b = 10 then 3 else 4"
  have "need ?g (length ?t) ?g \<le> 31"
    by (rule need_31 [OF len]) simp
  then have groups: "filter (\<lambda>c. c \<noteq> sep_of base) (num_loop (digit_set base) ?b 31 (Some ?g) (unat val) []) = ?t"
    using num_loop_groups [OF _ refl sep all, of "unat val" ?g 31 "[]"] base by auto
  have nosep: "filter (\<lambda>c. c \<noteq> sep_of base) ?t = ?t"
    unfolding filter_id_conv using base_text_set [of ?b _ "digit_set base" "unat val"] all base by fastforce
  show "filter (\<lambda>c. c \<noteq> sep_of base) (print_number 32 val base flags) = ?t"
    using groups plain nosep run by (cases "FLAG_THOUSANDS \<in> flags") auto
qed


lemma upper_digit: "d < 10 \<Longrightarrow> upper_digits ! d = char_of (48 + d)"
proof -
  assume "d < 10"
  then have "d = 0 \<or> d = 1 \<or> d = 2 \<or> d = 3 \<or> d = 4 \<or> d = 5 \<or> d = 6 \<or> d = 7 \<or> d = 8 \<or> d = 9"
    by arith
  then show ?thesis
    by (elim disjE) (simp_all add: upper_digits_def char_of_def bit_0)
qed

lemma dec_text_base: "base_text upper_digits 10 n = dec_text n"
proof (induction n rule: less_induct)
  case (less n)
  show ?case
  proof (cases "n < 10")
    case True
    then show ?thesis
      by (simp add: base_text.simps [of _ 10 n] dec_text.simps [of n] upper_digit)
  next
    case False
    then show ?thesis
      using less [of "n div 10"] by (simp add: base_text.simps [of _ 10 n] dec_text.simps [of n] upper_digit)
  qed
qed

lemma print_number_10: "FLAG_THOUSANDS \<notin> flags \<Longrightarrow> print_number 32 val 10 flags = dec_text (unat val)"
  by (simp add: print_number_digits digit_set_def dec_text_base)

section \<open>Formats of plain directives\<close>

datatype item = Lit string | Percent | Ch char | Str string | SInt int | SLong int | Unsigned nat | Hex ulong | Ptr ulong

fun item_fmt :: "item \<Rightarrow> string" where
  "item_fmt (Lit w) = w" | "item_fmt Percent = ''%%''" | "item_fmt (Ch c) = ''%c''" | "item_fmt (Str w) = ''%s''"
| "item_fmt (SInt x) = ''%d''" | "item_fmt (SLong x) = ''%ld''" | "item_fmt (Unsigned n) = ''%u''"
| "item_fmt (Hex x) = ''%lx''" | "item_fmt (Ptr x) = ''%p''"

fun item_args :: "item \<Rightarrow> varg list" where
  "item_args (Lit w) = []" | "item_args Percent = []" | "item_args (Ch c) = [VInt (of_int (of_char c))]"
| "item_args (Str w) = [VStr w]" | "item_args (SInt x) = [VInt (of_int x)]" | "item_args (SLong x) = [VLong (of_int x)]"
| "item_args (Unsigned n) = [VInt (of_nat n)]" | "item_args (Hex x) = [VLong x]" | "item_args (Ptr x) = [VPtr x]"

fun item_text :: "item \<Rightarrow> string" where
  "item_text (Lit w) = w" | "item_text Percent = ''%''" | "item_text (Ch c) = [c]" | "item_text (Str w) = w"
| "item_text (SInt x) = int_text x" | "item_text (SLong x) = int_text x" | "item_text (Unsigned n) = dec_text n"
| "item_text (Hex x) = base_text lower_digits 16 (unat x)" | "item_text (Ptr x) = ''0x'' @ base_text lower_digits 16 (unat x)"

fun item_ok :: "item \<Rightarrow> bool" where
  "item_ok (Lit w) \<longleftrightarrow> CHR ''%'' \<notin> set w" | "item_ok (Ch c) \<longleftrightarrow> c \<noteq> NUL"
| "item_ok (Str w) \<longleftrightarrow> length w < 2 ^ 31" | "item_ok (SInt x) \<longleftrightarrow> - (2 ^ 31) \<le> x \<and> x < 2 ^ 31"
| "item_ok (SLong x) \<longleftrightarrow> - (2 ^ 63) < x \<and> x < 2 ^ 63" | "item_ok (Unsigned n) \<longleftrightarrow> n < 2 ^ 32" | "item_ok _ \<longleftrightarrow> True"

lemma vprintf_Lit:
  "CHR ''%'' \<notin> set w \<Longrightarrow>
     vprintf color (w @ f) vs = obind (vprintf color f vs) (\<lambda>out. Done (map (\<lambda>c. (c, color)) w @ out))"
  by (induction w) (auto simp: vprintf.simps(2) obind_assoc)

text \<open>A field without width and precision has no padding.\<close>

lemma field_plain:
  assumes "int (length data) < 2 ^ 31" "FLAG_NUMERIC \<notin> flags"
  shows "field flags (- 1) (- 1) base num data = data"
  using assms by (simp add: field_def field_prefix_def field_zeros_def Let_def)

lemma field_number:
  assumes "FLAG_NUMERIC \<in> flags" "FLAG_ZERO \<notin> flags" "FLAG_LEFTJUSTIFY \<notin> flags" "length (print_number 32 num base flags) < 100"
  shows "field flags (- 1) (- 1) base num data = field_prefix flags base num @ print_number 32 num base flags"
proof -
  have "length (field_prefix flags base num) \<le> 2"
    by (simp add: field_prefix_def)
  then have "int32 (- 1 - (int (length (print_number 32 num base flags)) + 0 + int (length (field_prefix flags base num)))) \<le> 0"
    using assms(4) by (subst int32_id) auto
  then show ?thesis
    using assms by (simp add: field_def field_zeros_def Let_def)
qed


lemma number_short: "base \<in> {10, 16, - 16} \<Longrightarrow> FLAG_THOUSANDS \<notin> flags \<Longrightarrow> length (print_number 32 num base flags) < 100"
proof -
  assume b: "base \<in> {10, 16, - 16}" "FLAG_THOUSANDS \<notin> flags"
  have "unat num < 2 ^ 64"
    using unsigned_less [of num, where 'a = nat] by simp
  moreover have "(2 :: nat) ^ 64 \<le> 10 ^ 20" "(2 :: nat) ^ 64 \<le> 16 ^ 20"
    by simp_all
  ultimately have "length (base_text (digit_set base) (nat \<bar>base\<bar>) (unat num)) \<le> 20"
    using b(1) by (intro length_base_text) auto
  then show ?thesis
    using print_number_digits(1) [OF b] by simp
qed

text \<open>One directive without flags, width and precision.\<close>

lemma vprintf_conv:
  assumes "take_flags cs {} = ({}, cs)" "take_width cs vs = Done (- 1, cs, vs)" "take_precision cs vs = Done (- 1, cs, vs)"
    and "take_length cs = (len, d # f)" "conversion {} len (d # f) vs = Done (Field flags base num data, vs')"
    and "field flags (- 1) (- 1) base num data = t"
  shows "vprintf color (CHR ''%'' # cs) vs = obind (vprintf color f vs') (\<lambda>out. Done (map (\<lambda>c. (c, color)) t @ out))"
  using assms by (simp add: vprintf.simps(2))

lemmas directive_simps = flag_of_def is_digit_def take_precision_def conversion_def conv_signed_def conv_unsigned_def

lemma uint_abs: "\<bar>x\<bar> < 2 ^ 64 \<Longrightarrow> unat (of_int \<bar>x\<bar> :: ulong) = nat \<bar>x\<bar>"
  by (simp add: unat_eq_nat_uint uint_word_of_int)

lemma field_signed:
  assumes "\<bar>x\<bar> < 2 ^ 64" "flags = {FLAG_NUMERIC, FLAG_SIGNED} \<union> (if x < 0 then {FLAG_NEGATIVE} else {})"
  shows "field flags (- 1) (- 1) 10 (of_int \<bar>x\<bar>) data = int_text x"
proof -
  have "FLAG_THOUSANDS \<notin> flags"
    using assms(2) by simp
  then show ?thesis
    using assms uint_abs [OF assms(1)] number_short [of 10 flags "of_int \<bar>x\<bar>"]
    by (subst field_number) (auto simp: field_prefix_def print_number_10 int_text_def)
qed

lemma field_unsigned:
  assumes "base \<in> {10, 16, - 16}" "flags = {FLAG_NUMERIC} \<or> flags = {FLAG_ALT, FLAG_ALT2, FLAG_NUMERIC}"
  shows "field flags (- 1) (- 1) base num data = field_prefix flags base num @ base_text (digit_set base) (nat \<bar>base\<bar>) (unat num)"
  using assms number_short [OF assms(1), of flags num]
  by (subst field_number) (auto simp: print_number_digits(1))

lemma vprintf_item:
  assumes "item_ok it"
  shows "vprintf color (item_fmt it @ f) (item_args it @ vs) =
    obind (vprintf color f vs) (\<lambda>out. Done (map (\<lambda>c. (c, color)) (item_text it) @ out))"
proof (cases it)
  case (Lit w)
  then show ?thesis
    using assms vprintf_Lit by simp
next
  case Percent
  have "vprintf color (CHR ''%'' # CHR ''%'' # f) vs = obind (vprintf color f vs) (\<lambda>out. Done (map (\<lambda>c. (c, color)) ''%'' @ out))"
    by (rule vprintf_conv [where d = "CHR ''%''" and len = False and flags = "{}" and base = 10 and num = 0 and data = "''%''"]) (simp_all add: directive_simps field_plain)
  then show ?thesis
    using Percent by simp
next
  case (Str w)
  have "vprintf color (CHR ''%'' # CHR ''s'' # f) (VStr w # vs) =
      obind (vprintf color f vs) (\<lambda>out. Done (map (\<lambda>c. (c, color)) w @ out))"
    by (rule vprintf_conv [where d = "CHR ''s''" and len = False and flags = "{}" and base = 10 and num = 0 and data = w]) (use assms Str in \<open>simp_all add: directive_simps field_plain\<close>)
  then show ?thesis
    using Str by simp
next
  case (SInt x)
  have s: "sint (of_int x :: 32 word) = x" "\<bar>x\<bar> < 2 ^ 64"
    using assms SInt by (auto simp: signed_of_int signed_take_bit_int_eq_self)
  have "vprintf color (CHR ''%'' # CHR ''d'' # f) (VInt (of_int x) # vs) =
      obind (vprintf color f vs) (\<lambda>out. Done (map (\<lambda>c. (c, color)) (int_text x) @ out))"
    by (rule vprintf_conv [where d = "CHR ''d''" and len = False,OF _ _ _ _ _ field_signed [OF s(2) refl]]) (use s in \<open>auto simp: directive_simps\<close>)
  then show ?thesis
    using SInt by simp
next
  case (SLong x)
  have s: "sint (of_int x :: ulong) = x" "\<bar>x\<bar> < 2 ^ 64" "x \<noteq> - (2 ^ 63)"
    using assms SLong by (auto simp: signed_of_int signed_take_bit_int_eq_self)
  have "vprintf color (CHR ''%'' # CHR ''l'' # CHR ''d'' # f) (VLong (of_int x) # vs) =
      obind (vprintf color f vs) (\<lambda>out. Done (map (\<lambda>c. (c, color)) (int_text x) @ out))"
    by (rule vprintf_conv [where d = "CHR ''d''" and len = True,OF _ _ _ _ _ field_signed [OF s(2) refl]]) (use s in \<open>auto simp: directive_simps\<close>)
  then show ?thesis
    using SLong by simp
next
  case (Unsigned n)
  then have "unat (ucast (of_nat n :: 32 word) :: ulong) = n"
    using assms by (simp add: unsigned_ucast_eq unsigned_of_nat take_bit_nat_eq_self_iff)
  then have n: "field_prefix {FLAG_NUMERIC} 10 (ucast (of_nat n :: 32 word)) @
      base_text (digit_set 10) (nat \<bar>10\<bar>) (unat (ucast (of_nat n :: 32 word) :: ulong)) = dec_text n"
    by (simp add: field_prefix_def digit_set_def dec_text_base)
  have "vprintf color (CHR ''%'' # CHR ''u'' # f) (VInt (of_nat n) # vs) =
      obind (vprintf color f vs) (\<lambda>out. Done (map (\<lambda>c. (c, color)) (dec_text n) @ out))"
    by (rule vprintf_conv [where d = "CHR ''u''" and len = False,OF _ _ _ _ _ trans [OF field_unsigned n]]) (simp_all add: directive_simps)
  then show ?thesis
    using Unsigned by simp
next
  case (Hex x)
  have n: "field_prefix {FLAG_NUMERIC} (- 16) x @ base_text (digit_set (- 16)) (nat \<bar>- 16\<bar>) (unat x) = base_text lower_digits 16 (unat x)"
    by (simp add: field_prefix_def digit_set_def)
  have "vprintf color (CHR ''%'' # CHR ''l'' # CHR ''x'' # f) (VLong x # vs) =
      obind (vprintf color f vs) (\<lambda>out. Done (map (\<lambda>c. (c, color)) (base_text lower_digits 16 (unat x)) @ out))"
    by (rule vprintf_conv [where d = "CHR ''x''" and len = True,OF _ _ _ _ _ trans [OF field_unsigned n]]) (simp_all add: directive_simps)
  then show ?thesis
    using Hex by simp
next
  case (Ptr x)
  have n: "field_prefix {FLAG_ALT, FLAG_ALT2, FLAG_NUMERIC} (- 16) x @ base_text (digit_set (- 16)) (nat \<bar>- 16\<bar>) (unat x) =
      ''0x'' @ base_text lower_digits 16 (unat x)"
    by (simp add: field_prefix_def digit_set_def)
  have "vprintf color (CHR ''%'' # CHR ''p'' # f) (VPtr x # vs) =
      obind (vprintf color f vs) (\<lambda>out. Done (map (\<lambda>c. (c, color)) (''0x'' @ base_text lower_digits 16 (unat x)) @ out))"
    by (rule vprintf_conv [where d = "CHR ''p''" and len = False,OF _ _ _ _ _ trans [OF field_unsigned n]]) (simp_all add: directive_simps)
  then show ?thesis
    using Ptr by simp
next
  case (Ch c)
  have "sint (of_int (of_char c) :: 32 word) = of_char c"
    using char_range [of c] by (simp add: signed_of_int signed_take_bit_int_eq_self)
  then have c: "to_char (sint (of_int (of_char c) :: 32 word)) = c"
    by (simp add: to_char_def)
  have "vprintf color (CHR ''%'' # CHR ''c'' # f) (VInt (of_int (of_char c)) # vs) =
      obind (vprintf color f vs) (\<lambda>out. Done (map (\<lambda>c. (c, color)) [c] @ out))"
    by (rule vprintf_conv [where d = "CHR ''c''" and len = False and flags = "{}" and base = 10 and num = 0 and data = "[c]"]) (use assms Ch c in \<open>auto simp: directive_simps field_plain\<close>)
  then show ?thesis
    using Ch by simp
qed


lemma vprintf_items:
  assumes "list_all item_ok its"
  shows "vprintf color (concat (map item_fmt its)) (concat (map item_args its)) =
    Done (map (\<lambda>c. (c, color)) (concat (map item_text its)))"
  using assms by (induction its) (simp_all add: vprintf_item)

section \<open>Properties\<close>

text \<open>
  C38. A format of literal text and of the directives \<^verbatim>\<open>%%\<close>, \<^verbatim>\<open>%c\<close>, \<^verbatim>\<open>%s\<close>, \<^verbatim>\<open>%d\<close>, \<^verbatim>\<open>%ld\<close>, \<^verbatim>\<open>%u\<close>, \<^verbatim>\<open>%lx\<close> and \<^verbatim>\<open>%p\<close>, with arguments of their
  types, is printed as the concatenation of the texts; \<^verbatim>\<open>vsnprintf\<close> stores what fits in the buffer, always with a
  final NUL, returns the full length, and writes nowhere else.
\<close>

theorem vsnprintf_items:
  assumes "list_all item_ok its" "0 < sz"
  shows "\<exists>m'. vsnprintf m s sz (concat (map item_fmt its)) (concat (map item_args its)) = Done (length (concat (map item_text its)), m') \<and>
    text_at m' s (take (sz - 1) (concat (map item_text its)) @ [NUL]) \<and> (\<forall>a. a \<notin> {s..<s + sz} \<longrightarrow> m' a = m a)"
  using vsnprintf_out [OF vprintf_items [OF assms(1)] assms(2), of m s] by (simp add: comp_def)

text \<open>
  C39. The 32 bytes of \<^verbatim>\<open>numbuf\<close> are enough for every number in the bases 10 and 16, with and without separators:
  \<^verbatim>\<open>print_number\<close> never stops for lack of space, so that its text without the separators is the number.
\<close>

theorem print_number_fits:
  assumes "base \<in> {10, 16, - 16}"
  shows "filter (\<lambda>c. c \<noteq> sep_of base) (print_number 32 val base flags) = base_text (digit_set base) (nat \<bar>base\<bar>) (unat val) \<and>
    (FLAG_THOUSANDS \<notin> flags \<longrightarrow> print_number 32 val base flags = base_text (digit_set base) (nat \<bar>base\<bar>) (unat val))"
  using print_number_digits [OF assms] by blast

text \<open>
  What \<^verbatim>\<open>snprintf\<close> prints with \<^verbatim>\<open>%ld\<close> into a buffer of 21 bytes or more, \<^verbatim>\<open>strtol\<close> reads back, for every \<^verbatim>\<open>long\<close> but the least.
\<close>

lemma snprintf_strtol:
  assumes "- (2 ^ 63) < x" "x < 2 ^ 63" "21 \<le> sz" "0 < s"
  shows "\<exists>n m'. snprintf m s sz ''%ld'' [VLong (of_int x)] = Done (n, m') \<and> strtol m' s 10 = Some (of_int x, s + nat n)"
proof -
  have "length (int_text x) \<le> 20"
  proof -
    have "nat \<bar>x\<bar> < 2 ^ 63"
      using assms(1,2) by (simp add: nat_less_iff)
    also have "(2 :: nat) ^ 63 < 10 ^ 19"
      by simp
    finally have "length (dec_text (nat \<bar>x\<bar>)) \<le> 19"
      using length_dec_text [of "nat \<bar>x\<bar>" 19] by simp
    then show ?thesis
      by (simp add: int_text_def abs_if split: if_splits)
  qed
  then have len: "length (int_text x) \<le> sz - 1"
    using assms(3) by simp
  have "list_all item_ok [SLong x]"
    using assms by simp
  from vsnprintf_out [OF vprintf_items [OF this], of sz m s] obtain m' where
    run: "vsnprintf m s sz ''%ld'' [VLong (of_int x)] = Done (length (int_text x), m')"
    and tx: "text_at m' s (int_text x @ [NUL])"
    using len assms(3) by (auto simp: comp_def)
  have at: "text_at m' s (int_text x)" "m' (s + length (int_text x)) = NUL"
    using tx by (auto simp: text_at_def nth_append less_Suc_eq)
  then have "digit_of 10 (m' (s + length (int_text x))) = None"
    by (simp add: digit_of_def char_val_def)
  then obtain w where w: "strtol m' s 10 = Some (w, s + length (int_text x))" "sint w = x"
    using strtol_value [OF at(1) _ assms(4)] assms(1,2) by auto
  have "w = of_int x"
    using w(2) by (metis of_int_sint scast_id)
  moreover have "int32 (int (length (int_text x))) = int (length (int_text x))"
    using \<open>length (int_text x) \<le> 20\<close> by (intro int32_id) auto
  ultimately show ?thesis
    using run w(1) by (simp add: snprintf_def)
qed

text \<open>A call that is cut: the five bytes at 100 get \<^verbatim>\<open>n=-1\<close>.\<close>

theorem vsnprintf_items_witness:
  "\<exists>m'. vsnprintf (\<lambda>_. NUL) 100 5 ''n=%d.'' [VInt (- 1)] = Done (5, m') \<and> text_at m' 100 (''n=-1'' @ [NUL])"
  using vsnprintf_items [of "[Lit ''n='', SInt (- 1), Lit ''.'']" 5 "\<lambda>_. NUL" 100]
  by (auto simp: int_text_def dec_text.simps char_of_def bit_0)

theorem print_number_fits_witness: "print_number 32 255 (- 16) {} = ''ff''"
  using print_number_fits [of "- 16" 255 "{}"]
  by (simp add: digit_set_def lower_digits_def base_text.simps)

lemma snprintf_strtol_witness:
  "\<exists>n m'. snprintf (\<lambda>_. NUL) 100 32 ''%ld'' [VLong (of_int (- 70))] = Done (n, m') \<and> strtol m' 100 10 = Some (of_int (- 70), 100 + nat n)"
  by (rule snprintf_strtol) simp_all

end
