(* ===== verification/Lib_Console.thy ===== *)
theory Lib_Console
  imports Lib_Printf
begin

text \<open>
  The CGA console of the Lab 4 library (\<^verbatim>\<open>lab4-TheCarton-main/lib.cc\<close>): the array \<^verbatim>\<open>console\<close> of 25 rows of 80 cells, the cursor,
  the printer with its scrolling, \<^verbatim>\<open>console_puts\<close> and \<^verbatim>\<open>console_vprintf\<close>.  The pointer \<^verbatim>\<open>cell_\<close> is its distance from \<^verbatim>\<open>console\<close>;
  an access outside the array is undefined.  The hardware cursor (\<^verbatim>\<open>console_show_cursor\<close>) is left out.
\<close>

unbundle bit_operations_syntax

abbreviation COLUMNS :: nat where "COLUMNS \<equiv> 80"
abbreviation CELLS :: nat where "CELLS \<equiv> 2000"

record console_state =
  console :: "16 word list"
  cursorpos :: int

definition console_clear :: "console_state \<Rightarrow> console_state" where
  "console_clear st = st\<lparr>console := map (\<lambda>_. 0x20 OR 0x0700) [0..<CELLS], cursorpos := 0\<rparr>"

record console_printer =
  cell :: int
  scrolls :: bool

definition console_printer_new :: "console_state \<Rightarrow> int \<Rightarrow> bool \<Rightarrow> console_printer" where
  "console_printer_new st cpos scroll =
     \<lparr>cell = (if cpos < 0 then cursorpos st else if cpos \<le> int CELLS then cpos else 0), scrolls = scroll\<rparr>"

text \<open>\<^verbatim>\<open>*cell_ = v\<close>\<close>

definition put_cell :: "16 word \<Rightarrow> int \<Rightarrow> console_state \<Rightarrow> console_state outcome" where
  "put_cell v i st =
     (if 0 \<le> i \<and> i < int (length (console st)) then Done (st\<lparr>console := (console st)[nat i := v]\<rparr>) else Undef)"

text \<open>The two loops of \<^verbatim>\<open>scroll\<close>, with the number of rounds left.\<close>

fun move_up :: "nat \<Rightarrow> nat \<Rightarrow> 16 word list \<Rightarrow> 16 word list" where
  "move_up 0 i c = c"
| "move_up (Suc n) i c = move_up n (Suc i) (c[i := c ! (i + COLUMNS)])"

fun clear_from :: "nat \<Rightarrow> nat \<Rightarrow> 16 word list \<Rightarrow> 16 word list" where
  "clear_from 0 i c = c"
| "clear_from (Suc n) i c = clear_from n (Suc i) (c[i := 0])"

definition scroll :: "console_printer \<Rightarrow> console_state \<Rightarrow> (console_printer \<times> console_state) outcome" where
  "scroll cp st =
     (if cell cp < int CELLS then Abort
      else if scrolls cp then
        Done (cp\<lparr>cell := cell cp - int COLUMNS\<rparr>,
          st\<lparr>console := clear_from COLUMNS (CELLS - COLUMNS) (move_up (CELLS - COLUMNS) 0 (console st))\<rparr>)
      else Done (cp\<lparr>cell := 0\<rparr>, st))"

function scroll_while :: "console_printer \<Rightarrow> console_state \<Rightarrow> (console_printer \<times> console_state) outcome" where
  "scroll_while cp st =
     (if cell cp \<ge> int CELLS then obind (scroll cp st) (\<lambda>(cp, st). scroll_while cp st) else Done (cp, st))"
  by pat_completeness auto
termination
  by (relation "measure (\<lambda>(cp, _). nat (cell cp))") (auto simp: scroll_def split: if_splits)

declare scroll_while.simps [simp del]

text \<open>The loop that ends a line, from column \<^verbatim>\<open>pos\<close>: the rounds left.\<close>

fun end_line :: "nat \<Rightarrow> int \<Rightarrow> int \<Rightarrow> console_state \<Rightarrow> (int \<times> console_state) outcome" where
  "end_line 0 color i st = Done (i, st)"
| "end_line (Suc n) color i st = obind (put_cell (0x20 OR of_int color) i st) (end_line n color (i + 1))"

definition console_putc :: "char \<times> int \<Rightarrow> console_printer \<times> console_state \<Rightarrow> (console_printer \<times> console_state) outcome" where
  "console_putc x s =
     (let (c, color) = x; (cp, st) = s in
      obind (scroll_while cp st) (\<lambda>(cp, st).
        if c = newline then
          obind (end_line (nat (80 - c_mod (cell cp) 80)) color (cell cp) st) (\<lambda>(i, st). Done (cp\<lparr>cell := i\<rparr>, st))
        else
          obind (put_cell (of_int (of_char c) OR of_int color) (cell cp) st) (\<lambda>st. Done (cp\<lparr>cell := cell cp + 1\<rparr>, st))))"

fun putc_all :: "(char \<times> int) list \<Rightarrow> console_printer \<times> console_state \<Rightarrow> (console_printer \<times> console_state) outcome" where
  "putc_all [] s = Done s"
| "putc_all (x # xs) s = obind (console_putc x s) (putc_all xs)"

definition move_cursor :: "console_printer \<Rightarrow> console_state \<Rightarrow> console_state" where
  "move_cursor cp st = st\<lparr>cursorpos := cell cp\<rparr>"

text \<open>The common end of \<^verbatim>\<open>console_puts\<close> and \<^verbatim>\<open>console_vprintf\<close>.\<close>

definition print_at :: "int \<Rightarrow> (char \<times> int) list \<Rightarrow> console_state \<Rightarrow> (int \<times> console_state) outcome" where
  "print_at cpos out st =
     obind (putc_all out (console_printer_new st cpos (cpos < 0), st)) (\<lambda>(cp, st).
       Done (cell cp, if cpos < 0 then move_cursor cp st else st))"

definition console_puts :: "int \<Rightarrow> int \<Rightarrow> string \<Rightarrow> console_state \<Rightarrow> (int \<times> console_state) outcome" where
  "console_puts cpos color s st = print_at cpos (map (\<lambda>c. (c, color)) s) st"

definition console_vprintf :: "int \<Rightarrow> int \<Rightarrow> string \<Rightarrow> varg list \<Rightarrow> console_state \<Rightarrow> (int \<times> console_state) outcome" where
  "console_vprintf cpos color format val st = obind (vprintf color format val) (\<lambda>out. print_at cpos out st)"

text \<open>The three versions of \<^verbatim>\<open>console_printf\<close>.\<close>

definition console_printf :: "int \<Rightarrow> int \<Rightarrow> string \<Rightarrow> varg list \<Rightarrow> console_state \<Rightarrow> (int \<times> console_state) outcome" where
  "console_printf cpos color format val st = console_vprintf cpos color format val st"

definition console_printf_color :: "int \<Rightarrow> string \<Rightarrow> varg list \<Rightarrow> console_state \<Rightarrow> console_state outcome" where
  "console_printf_color color format val st = obind (console_vprintf (- 1) color format val st) (\<lambda>(_, st). Done st)"

definition console_printf_plain :: "string \<Rightarrow> varg list \<Rightarrow> console_state \<Rightarrow> console_state outcome" where
  "console_printf_plain format val st = obind (console_vprintf (- 1) 0x700 format val st) (\<lambda>(_, st). Done st)"

section \<open>The state stays well formed\<close>

definition console_ok :: "console_state \<Rightarrow> bool" where
  "console_ok st \<longleftrightarrow> length (console st) = CELLS \<and> 0 \<le> cursorpos st \<and> cursorpos st \<le> int CELLS"

lemma length_move_up [simp]: "length (move_up n i c) = length c"
  by (induction n i c rule: move_up.induct) simp_all

lemma length_clear_from [simp]: "length (clear_from n i c) = length c"
  by (induction n i c rule: clear_from.induct) simp_all

lemma console_clear_ok: "console_ok (console_clear st)"
  by (simp add: console_ok_def console_clear_def)

text \<open>What the printing keeps: the size of the array, the cursor, a cell in range.\<close>

definition cp_ok :: "int \<Rightarrow> console_printer \<times> console_state \<Rightarrow> bool" where
  "cp_ok p s \<longleftrightarrow> length (console (snd s)) = CELLS \<and> cursorpos (snd s) = p \<and> 0 \<le> cell (fst s)"

lemma scroll_while_ok:
  "cp_ok p (cp, st) \<Longrightarrow> \<exists>cp' st'. scroll_while cp st = Done (cp', st') \<and> cp_ok p (cp', st') \<and> cell cp' < int CELLS"
proof (induction cp st rule: scroll_while.induct)
  case (1 cp st)
  show ?case
  proof (cases "cell cp \<ge> int CELLS")
    case True
    then obtain cp' st' where s: "scroll cp st = Done (cp', st')" "cp_ok p (cp', st')"
      using "1.prems" by (cases "scrolls cp") (simp_all add: scroll_def cp_ok_def)
    have "scroll_while cp st = scroll_while cp' st'"
      using True s by (subst scroll_while.simps) simp
    then show ?thesis
      using "1.IH" [OF True s(1) refl s(2)] by simp
  next
    case False
    then show ?thesis
      using "1.prems" by (subst scroll_while.simps) simp
  qed
qed

lemma end_line_ok:
  assumes "length (console st) = CELLS" "cursorpos st = p" "0 \<le> i" "i + int n \<le> int CELLS"
  shows "\<exists>st'. end_line n color i st = Done (i + int n, st') \<and> length (console st') = CELLS \<and> cursorpos st' = p"
  using assms
proof (induction n arbitrary: i st)
  case (Suc n)
  let ?st = "st\<lparr>console := (console st)[nat i := 0x20 OR of_int color]\<rparr>"
  have "put_cell (0x20 OR of_int color) i st = Done ?st"
    using Suc.prems by (simp add: put_cell_def)
  then show ?case
    using Suc.IH [of ?st "i + 1"] Suc.prems by (simp add: algebra_simps)
qed simp

lemma console_putc_ok:
  assumes "cp_ok p s"
  shows "\<exists>s'. console_putc x s = Done s' \<and> cp_ok p s' \<and> cell (fst s') \<le> int CELLS"
proof -
  obtain c color where x: "x = (c, color)" by fastforce
  obtain cp st cp' st' where s: "s = (cp, st)" "scroll_while cp st = Done (cp', st')" "cp_ok p (cp', st')" "cell cp' < int CELLS"
    using assms scroll_while_ok by (cases s) blast
  have st': "length (console st') = CELLS" "cursorpos st' = p" "0 \<le> cell cp'"
    using s(3) by (simp_all add: cp_ok_def)
  show ?thesis
  proof (cases "c = newline")
    case True
    let ?n = "nat (80 - c_mod (cell cp') 80)"
    have "cell cp' mod 80 < 80" "0 \<le> cell cp' mod 80"
      by simp_all
    moreover have "cell cp' + (80 - cell cp' mod 80) \<le> int CELLS"
      using s(4) by presburger
    moreover have "int ?n = 80 - cell cp' mod 80"
      using st'(3) calculation(1) by simp
    ultimately have n: "cell cp' + int ?n \<le> int CELLS"
      by simp
    obtain st2 where "end_line ?n color (cell cp') st' = Done (cell cp' + int ?n, st2)" "length (console st2) = CELLS" "cursorpos st2 = p"
      using end_line_ok [OF st' n] by blast
    then show ?thesis
      using x s True n st'(3) by (auto simp: console_putc_def cp_ok_def)
  next
    case False
    then show ?thesis
      using x s st' by (auto simp: console_putc_def cp_ok_def put_cell_def)
  qed
qed

lemma putc_all_ok:
  "cp_ok p s \<Longrightarrow> cell (fst s) \<le> int CELLS \<Longrightarrow> \<exists>s'. putc_all xs s = Done s' \<and> cp_ok p s' \<and> cell (fst s') \<le> int CELLS"
proof (induction xs arbitrary: s)
  case (Cons x xs)
  then obtain s1 where "console_putc x s = Done s1" "cp_ok p s1" "cell (fst s1) \<le> int CELLS"
    using console_putc_ok by blast
  then show ?case
    using Cons.IH by simp
qed auto

lemma print_at_ok:
  assumes "console_ok st"
  shows "\<exists>pos st'. print_at cpos out st = Done (pos, st') \<and> console_ok st' \<and> 0 \<le> pos \<and> pos \<le> int CELLS \<and>
    cursorpos st' = (if cpos < 0 then pos else cursorpos st)"
proof -
  let ?s = "(console_printer_new st cpos (cpos < 0), st)"
  have "cp_ok (cursorpos st) ?s" "cell (fst ?s) \<le> int CELLS"
    using assms by (auto simp: cp_ok_def console_ok_def console_printer_new_def)
  from putc_all_ok [OF this] obtain cp st' where
    "putc_all out ?s = Done (cp, st')" "cp_ok (cursorpos st) (cp, st')" "cell cp \<le> int CELLS"
    by (metis fst_conv surj_pair)
  then show ?thesis
    using assms by (auto simp: print_at_def cp_ok_def console_ok_def move_cursor_def)
qed


section \<open>Scrolling and text\<close>

lemma move_up_nth:
  "i + n + COLUMNS \<le> length c \<Longrightarrow> j < length c \<Longrightarrow>
     move_up n i c ! j = (if i \<le> j \<and> j < i + n then c ! (j + COLUMNS) else c ! j)"
proof (induction n i c rule: move_up.induct)
  case (2 n i c)
  then show ?case
    by (auto simp: nth_list_update)
qed auto

lemma clear_from_nth: "j < length c \<Longrightarrow> clear_from n i c ! j = (if i \<le> j \<and> j < i + n then 0 else c ! j)"
  by (induction n i c rule: clear_from.induct) (auto simp: nth_list_update)

text \<open>Scrolling drops the first row and adds a row of zeros.\<close>

lemma scroll_rows:
  assumes "length c = CELLS"
  shows "clear_from COLUMNS (CELLS - COLUMNS) (move_up (CELLS - COLUMNS) 0 c) = drop COLUMNS c @ replicate COLUMNS 0"
proof (rule nth_equalityI)
  fix j assume "j < length (clear_from COLUMNS (CELLS - COLUMNS) (move_up (CELLS - COLUMNS) 0 c))"
  then have "j < CELLS"
    using assms by simp
  then show "clear_from COLUMNS (CELLS - COLUMNS) (move_up (CELLS - COLUMNS) 0 c) ! j = (drop COLUMNS c @ replicate COLUMNS 0) ! j"
    using assms by (simp add: clear_from_nth move_up_nth nth_append add.commute)
qed (use assms in simp)

definition char_cell :: "char \<Rightarrow> int \<Rightarrow> 16 word" where
  "char_cell c color = of_int (of_char c) OR of_int color"

lemma putc_plain:
  assumes "c \<noteq> newline" "0 \<le> cell cp" "cell cp < int CELLS" "length (console st) = CELLS"
  shows "console_putc (c, color) (cp, st) =
    Done (cp\<lparr>cell := cell cp + 1\<rparr>, st\<lparr>console := (console st)[nat (cell cp) := char_cell c color]\<rparr>)"
  using assms by (simp add: console_putc_def scroll_while.simps put_cell_def char_cell_def)

lemma putc_all_cong: "scroll_while cp st = scroll_while cp' st' \<Longrightarrow> xs \<noteq> [] \<Longrightarrow> putc_all xs (cp, st) = putc_all xs (cp', st')"
  by (cases xs) (auto simp: console_putc_def split: prod.splits)

text \<open>A text without line ends that fits is written cell by cell.\<close>

lemma putc_all_plain:
  assumes "newline \<notin> set s" "length (console st) = CELLS" "cell cp = int p" "p + length s \<le> CELLS"
  shows "putc_all (map (\<lambda>c. (c, color)) s) (cp, st) =
    Done (cp\<lparr>cell := int (p + length s)\<rparr>,
      st\<lparr>console := take p (console st) @ map (\<lambda>c. char_cell c color) s @ drop (p + length s) (console st)\<rparr>)"
  using assms
proof (induction s arbitrary: cp st p)
  case Nil
  then show ?case
    by (cases cp; cases st) simp
next
  case (Cons c s)
  let ?st = "st\<lparr>console := (console st)[p := char_cell c color]\<rparr>" and ?cp = "cp\<lparr>cell := cell cp + 1\<rparr>"
  have "console_putc (c, color) (cp, st) = Done (?cp, ?st)"
    using Cons.prems by (subst putc_plain) auto
  moreover have "take (Suc p) ((console st)[p := char_cell c color]) = take p (console st) @ [char_cell c color]"
    using Cons.prems by (simp add: take_Suc_conv_app_nth)
  moreover have "drop (Suc p + length s) ((console st)[p := char_cell c color]) = drop (p + length (c # s)) (console st)"
    by simp
  ultimately show ?case
    using Cons.IH [of ?st ?cp "Suc p"] Cons.prems by simp
qed

section \<open>Properties\<close>

text \<open>
  C40. Every print on the console, with any text, colour, format and position, stays within the array: starting from a
  console of 2000 cells with its cursor in range, \<^verbatim>\<open>console_puts\<close> and \<^verbatim>\<open>console_vprintf\<close> return a position in range
  and leave such a console; the loop that scrolls ends and its assertion holds; the cursor moves only when the
  position is negative.
\<close>

theorem console_stays_ok:
  assumes "console_ok st"
  shows "(\<exists>pos st'. console_puts cpos color s st = Done (pos, st') \<and> console_ok st' \<and> 0 \<le> pos \<and> pos \<le> int CELLS \<and>
      cursorpos st' = (if cpos < 0 then pos else cursorpos st)) \<and>
    (vprintf color format val = Done out \<longrightarrow>
      (\<exists>pos st'. console_vprintf cpos color format val st = Done (pos, st') \<and> console_ok st' \<and> 0 \<le> pos \<and> pos \<le> int CELLS \<and>
        cursorpos st' = (if cpos < 0 then pos else cursorpos st)))"
  using print_at_ok [OF assms] by (simp add: console_puts_def console_vprintf_def)

text \<open>
  A text without line ends that fits is written at its position with its colour, other cells are kept, and the
  position after it is returned; printed at the end of the screen with the cursor, one more character first
  moves every row up by one.
\<close>

lemma console_puts_writes:
  assumes "console_ok st" "newline \<notin> set s"
  shows "(p + length s \<le> CELLS \<longrightarrow> console_puts (int p) color s st =
      Done (int (p + length s), st\<lparr>console := take p (console st) @ map (\<lambda>c. char_cell c color) s @ drop (p + length s) (console st)\<rparr>)) \<and>
    (cursorpos st = int CELLS \<and> length s \<le> COLUMNS \<and> s \<noteq> [] \<longrightarrow> console_puts (- 1) color s st =
      Done (int (CELLS - COLUMNS + length s),
        \<lparr>console = drop COLUMNS (console st) @ map (\<lambda>c. char_cell c color) s @ replicate (COLUMNS - length s) 0,
          cursorpos = int (CELLS - COLUMNS + length s)\<rparr>))"
proof (intro conjI impI)
  assume p: "p + length s \<le> CELLS"
  show "console_puts (int p) color s st = Done (int (p + length s),
      st\<lparr>console := take p (console st) @ map (\<lambda>c. char_cell c color) s @ drop (p + length s) (console st)\<rparr>)"
    using putc_all_plain [OF assms(2), of st "console_printer_new st (int p) False" p color] assms(1) p
    by (simp add: console_puts_def print_at_def console_ok_def console_printer_new_def)
next
  assume s: "cursorpos st = int CELLS \<and> length s \<le> COLUMNS \<and> s \<noteq> []"
  let ?cp = "\<lparr>cell = int CELLS, scrolls = True\<rparr>" and ?cp1 = "\<lparr>cell = int (CELLS - COLUMNS), scrolls = True\<rparr>"
  let ?st1 = "st\<lparr>console := drop COLUMNS (console st) @ replicate COLUMNS 0\<rparr>"
  have len: "length (console st) = CELLS"
    using assms(1) by (simp add: console_ok_def)
  have "scroll_while ?cp st = scroll_while ?cp1 ?st1"
    by (subst scroll_while.simps) (simp add: scroll_def scroll_rows [OF len, simplified])
  then have "putc_all (map (\<lambda>c. (c, color)) s) (?cp, st) = putc_all (map (\<lambda>c. (c, color)) s) (?cp1, ?st1)"
    using s by (intro putc_all_cong) auto
  also have "\<dots> = Done (?cp1\<lparr>cell := int (CELLS - COLUMNS + length s)\<rparr>,
      ?st1\<lparr>console := take (CELLS - COLUMNS) (console ?st1) @ map (\<lambda>c. char_cell c color) s @
        drop (CELLS - COLUMNS + length s) (console ?st1)\<rparr>)"
    using s len by (intro putc_all_plain [OF assms(2)]) auto
  finally show "console_puts (- 1) color s st = Done (int (CELLS - COLUMNS + length s),
      \<lparr>console = drop COLUMNS (console st) @ map (\<lambda>c. char_cell c color) s @ replicate (COLUMNS - length s) 0,
        cursorpos = int (CELLS - COLUMNS + length s)\<rparr>)"
    using s len by (simp add: console_puts_def print_at_def console_printer_new_def move_cursor_def)
qed

definition blank_console :: console_state where
  "blank_console = console_clear \<lparr>console = [], cursorpos = 0\<rparr>"

lemma blank_ok: "console_ok blank_console"
  by (simp add: blank_console_def console_clear_ok)

theorem console_stays_ok_witness:
  "\<exists>pos st'. console_puts (- 1) 0x0700 ''hi'' blank_console = Done (pos, st') \<and> console_ok st'"
  using console_stays_ok [OF blank_ok, of "- 1" "0x0700" "''hi''" "[]" "[]" "[]"] by auto

lemma console_puts_writes_witness:
  "\<exists>st'. console_puts (int 0) 0x0700 ''hi'' blank_console = Done (int (0 + length ''hi''), st')"
  using console_puts_writes [OF blank_ok, of "''hi''" 0 "0x0700"] by auto

end
