(* ===== verification/Lib_Bits.thy ===== *)
theory Lib_Bits
  imports Lib_Number
begin

text \<open>
  The bit functions of \<^verbatim>\<open>lib.hh\<close> in Lab 4: \<^verbatim>\<open>msb\<close>, \<^verbatim>\<open>lsb\<close> and the rounding to powers of two, for words of any width: the
  overloads and templates are used at 32 and 64 bits, where C's integer promotion changes nothing.  The compiler's \<^verbatim>\<open>__builtin_clz\<close> and \<^verbatim>\<open>__builtin_ffs\<close> are given by the bits.
\<close>

unbundle bit_operations_syntax

section \<open>Definitions\<close>

definition clz :: "'a::len word \<Rightarrow> nat" where
  "clz x = length (takeWhile (\<lambda>i. \<not> bit x i) (rev [0..<LENGTH('a)]))"

definition msb_plus :: "'a::len word \<Rightarrow> nat" where
  "msb_plus x = (if x = 0 then 0 else LENGTH('a) - clz x)"

definition lsb :: "'a::len word \<Rightarrow> nat" where
  "lsb x = (case find (bit x) [0..<LENGTH('a)] of None \<Rightarrow> 0 | Some i \<Rightarrow> Suc i)"

text \<open>A shift by the width of the type or more is undefined.\<close>

definition shift_one :: "nat \<Rightarrow> 'a::len word outcome" where
  "shift_one n = (if n < LENGTH('a) then Done (push_bit n 1) else Undef)"

definition round_down_pow2 :: "'a::len word \<Rightarrow> 'a word outcome" where
  "round_down_pow2 x = (if x = 0 then Done 0 else shift_one (msb_plus x - 1))"

definition round_up_pow2 :: "'a::len word \<Rightarrow> 'a word outcome" where
  "round_up_pow2 x = (if x = 0 then Done 0 else shift_one (msb_plus (x - 1)))"

section \<open>The highest and the lowest bit\<close>

text \<open>\<^verbatim>\<open>msb(x)\<close> is the length of \<open>x\<close> as a binary number.\<close>

lemma length_takeWhile_rev:
  assumes "k < n" "P k" "\<forall>i. k < i \<and> i < n \<longrightarrow> \<not> P i"
  shows "length (takeWhile (\<lambda>i. \<not> P i) (rev [0..<n])) = n - Suc k"
  using assms
proof (induction n)
  case (Suc n)
  show ?case
  proof (cases "n = k")
    case False
    then have "\<not> P n" "k < n"
      using Suc.prems by auto
    then show ?thesis
      using Suc by (simp add: Suc_diff_Suc)
  qed (use Suc.prems in simp)
qed simp

lemma msb_plus_eq:
  fixes x :: "'a::len word"
  assumes "bit x k" "\<forall>i>k. \<not> bit x i"
  shows "msb_plus x = Suc k"
proof -
  have k: "k < LENGTH('a)"
    using assms(1) by (rule bit_imp_le_length)
  then have "clz x = LENGTH('a) - Suc k"
    unfolding clz_def by (rule length_takeWhile_rev) (use assms in auto)
  moreover have "x \<noteq> 0"
    using assms(1) by auto
  ultimately show ?thesis
    using k by (simp add: msb_plus_def)
qed

lemma msb_plus_bounds:
  fixes x :: "'a::len word"
  shows "unat x < 2 ^ msb_plus x" "x \<noteq> 0 \<Longrightarrow> 2 ^ (msb_plus x - 1) \<le> unat x" "msb_plus x \<le> LENGTH('a)"
proof -
  have "unat x < 2 ^ msb_plus x \<and> (x \<noteq> 0 \<longrightarrow> 2 ^ (msb_plus x - 1) \<le> unat x) \<and> msb_plus x \<le> LENGTH('a)"
  proof (cases "x = 0")
    case False
    then obtain j where "bit x j"
      by (auto simp: bit_eq_iff)
    define k where "k = (GREATEST i. bit x i)"
    have bound: "\<forall>i. bit x i \<longrightarrow> i \<le> LENGTH('a)"
      using bit_imp_le_length less_imp_le by blast
    have k: "bit x k" "\<forall>i>k. \<not> bit x i"
      unfolding k_def using GreatestI_nat [of "bit x" j "LENGTH('a)"] Greatest_le_nat [of "bit x" _ "LENGTH('a)"] \<open>bit x j\<close> bound
      by (auto simp: not_le [symmetric])
    have "take_bit (Suc k) (unat x) = unat x"
      by (rule bit_eqI) (use k(2) not_less_eq in \<open>auto simp: bit_take_bit_iff bit_unsigned_iff\<close>)
    then have "unat x < 2 ^ Suc k"
      by (metis take_bit_nat_less_exp)
    moreover have "2 ^ k \<le> unat x"
    proof (rule ccontr)
      assume "\<not> 2 ^ k \<le> unat x"
      then have "\<not> bit (unat x) k"
        by (simp add: bit_iff_odd)
      then show False
        using k(1) by (simp add: bit_unsigned_iff)
    qed
    ultimately show ?thesis
      using msb_plus_eq [OF k] bit_imp_le_length [OF k(1)] by simp
  qed (simp add: msb_plus_def)
  then show "unat x < 2 ^ msb_plus x" "x \<noteq> 0 \<Longrightarrow> 2 ^ (msb_plus x - 1) \<le> unat x" "msb_plus x \<le> LENGTH('a)"
    by blast+
qed

lemma lsb_Some: "lsb x = Suc i \<longleftrightarrow> bit x i \<and> (\<forall>j<i. \<not> bit x j)"
proof
  assume "lsb x = Suc i"
  then have "find (bit x) [0..<LENGTH('a)] = Some i"
    by (simp add: lsb_def split: option.splits)
  then show "bit x i \<and> (\<forall>j<i. \<not> bit x j)"
    by (auto simp: find_Some_iff)
next
  assume "bit x i \<and> (\<forall>j<i. \<not> bit x j)"
  then have "find (bit x) [0..<LENGTH('a)] = Some i"
    using bit_imp_le_length [of x i] by (auto simp: find_Some_iff intro!: exI [of _ i])
  then show "lsb x = Suc i"
    by (simp add: lsb_def)
qed

section \<open>Rounding\<close>

text \<open>
  \<^verbatim>\<open>round_down_pow2\<close> is the largest power of two up to \<open>x\<close>, \<^verbatim>\<open>round_up_pow2\<close> the smallest from \<open>x\<close> on; where that does not fit
  the type, the shift is undefined, although the comment has no such case.
\<close>

lemma round_down_pow2_spec:
  fixes x :: "'a::len word"
  assumes "x \<noteq> 0"
  obtains k where "round_down_pow2 x = Done (push_bit k 1)" "k < LENGTH('a)" "2 ^ k \<le> unat x" "unat x < 2 ^ Suc k"
proof -
  have "msb_plus x \<noteq> 0"
    using msb_plus_bounds(1) [of x] assms by (intro notI) (simp add: unat_eq_zero)
  then show ?thesis
    using that [of "msb_plus x - 1"] msb_plus_bounds [of x] assms by (simp add: round_down_pow2_def shift_one_def)
qed

lemma round_up_pow2_spec:
  fixes x :: "'a::len word"
  assumes "x \<noteq> 0"
  shows "unat x \<le> 2 ^ (LENGTH('a) - 1) \<Longrightarrow>
      \<exists>k<LENGTH('a). round_up_pow2 x = Done (push_bit k 1) \<and> unat x \<le> 2 ^ k \<and> (\<forall>j<k. 2 ^ j < unat x)"
    "2 ^ (LENGTH('a) - 1) < unat x \<Longrightarrow> round_up_pow2 x = Undef"
proof -
  let ?k = "msb_plus (x - 1)"
  have u: "unat (x - 1) = unat x - 1" "0 < unat x"
    using assms by (simp_all add: unat_minus_one unat_gt_0)
  have hi: "unat x \<le> 2 ^ ?k"
    using msb_plus_bounds(1) [of "x - 1"] u by simp
  have lo: "2 ^ j < unat x" if "j < ?k" for j
  proof -
    have "x - 1 \<noteq> 0"
      using that by (auto simp: msb_plus_def)
    then have "2 ^ (?k - 1) \<le> unat x - 1"
      using msb_plus_bounds(2) [of "x - 1"] u by simp
    moreover have "(2::nat) ^ j \<le> 2 ^ (?k - 1)"
      using that by (intro power_increasing) auto
    ultimately show ?thesis
      using u(2) by linarith
  qed
  show "\<exists>k<LENGTH('a). round_up_pow2 x = Done (push_bit k 1) \<and> unat x \<le> 2 ^ k \<and> (\<forall>j<k. 2 ^ j < unat x)"
    if "unat x \<le> 2 ^ (LENGTH('a) - 1)"
  proof -
    have "?k < LENGTH('a)"
    proof (rule ccontr)
      assume "\<not> ?k < LENGTH('a)"
      then have "LENGTH('a) - 1 < ?k"
        using len_gt_0 [where ?'a = 'a] by linarith
      then show False
        using lo [of "LENGTH('a) - 1"] that by simp
    qed
    then show ?thesis
      using assms hi lo by (auto simp: round_up_pow2_def shift_one_def)
  qed
  show "round_up_pow2 x = Undef" if "2 ^ (LENGTH('a) - 1) < unat x"
  proof -
    have "\<not> ?k < LENGTH('a)"
    proof
      assume "?k < LENGTH('a)"
      then have "(2::nat) ^ ?k \<le> 2 ^ (LENGTH('a) - 1)"
        by (intro power_increasing) auto
      then show False
        using hi that by linarith
    qed
    then show ?thesis
      using assms by (simp add: round_up_pow2_def shift_one_def)
  qed
qed

end
