(* ===== verification/Memviewer.thy ===== *)
theory Memviewer
  imports Kernel_Debug Lib_Console Lib_Bits
begin

text \<open>
  The memory viewer of the Lab 4 kernel (\<^verbatim>\<open>k-memviewer.cc\<close>) and the iterator \<^verbatim>\<open>ptiter\<close> of \<^verbatim>\<open>k-vmiter.cc\<close> that it uses.
  \<open>refresh\<close> walks the page tables and marks every page with who uses it; the marks are an array of 1024 words, which the
  code keeps in the page \<^verbatim>\<open>v_\<close>.  \<open>symbol_at\<close> turns the marks of a page into a cell of the console and reports the
  pages that should not be mapped; \<open>draw\<close> is the picture.  The output of \<^verbatim>\<open>log_printf\<close> is left out.
\<close>

section \<open>ptiter\<close>

record ptiter =
  pi_pt :: nat
  pi_pep :: nat
  pi_level :: nat
  pi_va :: ulong

definition VA_NONCANONMAX :: ulong where
  "VA_NONCANONMAX = 0x0000FFFFFFFFFFFF"

partial_function (option) pi_down :: "mem \<Rightarrow> nat \<Rightarrow> bool \<Rightarrow> ptiter \<Rightarrow> ptiter option" where
  "pi_down m stop_level skip it =
     (let e = read64 m (pi_pep it)
      in if e AND (PTE_P OR PTE_PS) = PTE_P \<and> \<not> skip
         then if pi_level it = stop_level then Some it
              else let level = pi_level it - 1
                   in pi_down m stop_level skip
                        (it\<lparr>pi_level := level, pi_pep := unat (e AND PTE_PAMASK) + 8 * pageindex (pi_va it) level\<rparr>)
         else let va = (pi_va it OR pageoffmask (pi_level it)) + 1
              in if (va XOR pi_va it) AND NOT (pageoffmask (pi_level it + 1)) \<noteq> 0
                 then if pi_level it = 3 then Some (it\<lparr>pi_va := VA_NONCANONMAX + 1\<rparr>)
                      else pi_down m (pi_level it + 1) False
                             (it\<lparr>pi_level := 3, pi_pep := pi_pt it + 8 * pageindex (pi_va it) 3\<rparr>)
                 else pi_down m stop_level False (it\<lparr>pi_pep := pi_pep it + 8, pi_va := va\<rparr>))"

definition ptiter_new :: "mem \<Rightarrow> nat \<Rightarrow> ptiter option" where
  "ptiter_new m pt = pi_down m 1 False \<lparr>pi_pt = pt, pi_pep = pt, pi_level = 3, pi_va = 0\<rparr>"

definition pi_next :: "mem \<Rightarrow> ptiter \<Rightarrow> ptiter option" where
  "pi_next m it = pi_down m 1 True it"

definition pi_start :: "ptiter \<Rightarrow> ulong" where
  "pi_start it = pi_va it AND NOT (pageoffmask (pi_level it))"

definition pi_done :: "ptiter \<Rightarrow> bool" where
  "pi_done it \<longleftrightarrow> pi_va it > VA_NONCANONMAX"

definition pi_pa :: "mem \<Rightarrow> ptiter \<Rightarrow> ulong" where
  "pi_pa m it = read64 m (pi_pep it) AND PTE_PAMASK"

section \<open>Marks\<close>

type_synonym marks = "32 word list"

abbreviation maxpa :: nat where "maxpa \<equiv> 1024 * PAGESIZE"
abbreviation f_kernel :: "32 word" where "f_kernel \<equiv> 1"
abbreviation f_user :: "32 word" where "f_user \<equiv> 2"
abbreviation f_nonidentity :: "32 word" where "f_nonidentity \<equiv> 4"

definition f_process :: "nat \<Rightarrow> 32 word" where
  "f_process n = (if n \<ge> 29 then push_bit 31 4 else if n \<ge> 1 then push_bit n 4 else 0)"

definition mu_mark :: "ulong \<Rightarrow> 32 word \<Rightarrow> marks \<Rightarrow> marks" where
  "mu_mark pa flags v =
     (if unat pa < maxpa then v[unat pa div PAGESIZE := v ! (unat pa div PAGESIZE) OR flags] else v)"

definition marked_pid :: "32 word \<Rightarrow> nat" where
  "marked_pid v = lsb (drop_bit 3 v)"

definition vm_user :: "mem \<Rightarrow> vmiter \<Rightarrow> bool" where
  "vm_user m it \<longleftrightarrow> vm_perms m it AND (PTE_P OR PTE_U) = PTE_P OR PTE_U"

section \<open>memusage::refresh\<close>

text \<open>The pages of a page table; \<open>go\<close> is the condition of the loop.\<close>

partial_function (option) mark_tables :: "mem \<Rightarrow> (ptiter \<Rightarrow> bool) \<Rightarrow> 32 word \<Rightarrow> ptiter \<Rightarrow> marks \<Rightarrow> marks option" where
  "mark_tables m go flags it v =
     (if go it
      then case pi_next m it of
             None \<Rightarrow> None
           | Some it' \<Rightarrow> mark_tables m go flags it' (mu_mark (pi_pa m it) flags v)
      else Some v)"

text \<open>The pages that a process can access.\<close>

partial_function (option) mark_user :: "mem \<Rightarrow> 32 word \<Rightarrow> vmiter \<Rightarrow> marks \<Rightarrow> marks outcome option" where
  "mark_user m pidflag it v =
     (if vm_va it < VA_LOWEND
      then if vm_user m it
           then let v = mu_mark (vm_pa m it) (if vm_va it = vm_pa m it then f_user OR pidflag
                          else f_user OR f_nonidentity OR pidflag) v
                in (case vm_next m it of Done it \<Rightarrow> mark_user m pidflag it v | _ \<Rightarrow> Some Abort)
           else (case next_range m it of Done it \<Rightarrow> mark_user m pidflag it v | _ \<Rightarrow> Some Abort)
      else Some (Done v))"

text \<open>Without page tables of their own, the owner of a page follows from its address.\<close>

partial_function (option) mark_physical :: "kconf \<Rightarrow> kmem \<Rightarrow> vmiter \<Rightarrow> marks \<Rightarrow> marks outcome option" where
  "mark_physical k s it v =
     (if vm_va it < VA_LOWEND
      then if vm_user (km s) it \<and> unat (vm_pa (km s) it) < MEMSIZE_PHYSICAL k \<and>
              refcount s (unat (vm_pa (km s) it) div PAGESIZE) \<noteq> 0
           then let owner = ucast ((vm_pa (km s) it - of_nat (PROC_START_ADDR k)) div 0x40000) :: 32 word;
                    v = mu_mark (vm_pa (km s) it) (f_user OR f_process (nat (sint (owner + 1)))) v
                in (case vm_next (km s) it of Done it \<Rightarrow> mark_physical k s it v | _ \<Rightarrow> Some Abort)
           else (case next_range (km s) it of Done it \<Rightarrow> mark_physical k s it v | _ \<Rightarrow> Some Abort)
      else Some (Done v))"

definition mark_process :: "kconf \<Rightarrow> kmem \<Rightarrow> nat \<Rightarrow> proc \<Rightarrow> marks \<Rightarrow> marks outcome option" where
  "mark_process k s n p v =
     (let m = km s; pidflag = f_process n
      in case ptiter_new m (pagetable p) of
           None \<Rightarrow> None
         | Some it \<Rightarrow>
             (case mark_tables m (\<lambda>it. pi_start it < VA_LOWEND) (f_kernel OR pidflag) it v of
                None \<Rightarrow> None
              | Some v \<Rightarrow>
                  let v = mu_mark (of_nat (pagetable p)) (f_kernel OR pidflag) v
                  in (case vmiter_new m (pagetable p) 0 of Done it \<Rightarrow> mark_user m pidflag it v | _ \<Rightarrow> Some Abort)))"

fun mark_processes :: "kconf \<Rightarrow> kmem \<Rightarrow> proc list \<Rightarrow> nat \<Rightarrow> nat \<Rightarrow> bool \<Rightarrow> marks \<Rightarrow> (bool \<times> marks) outcome option" where
  "mark_processes k s pt 0 n separate v = Some (Done (separate, v))"
| "mark_processes k s pt (Suc c) n separate v =
     (if pstate (pt ! n) \<noteq> P_FREE \<and> pagetable (pt ! n) \<noteq> 0 \<and> pagetable (pt ! n) \<noteq> kernel_pagetable k
      then case mark_process k s n (pt ! n) v of
             Some (Done v) \<Rightarrow> mark_processes k s pt c (Suc n) True v
           | Some _ \<Rightarrow> Some Abort
           | None \<Rightarrow> None
      else mark_processes k s pt c (Suc n) separate v)"

text \<open>\<open>v_page\<close> is the page of the marks; the result has \<^verbatim>\<open>separate_tables_\<close>.\<close>

definition refresh :: "kconf \<Rightarrow> kmem \<Rightarrow> proc list \<Rightarrow> nat \<Rightarrow> (bool \<times> marks) outcome option" where
  "refresh k s pt v_page =
     (case ptiter_new (km s) (kernel_pagetable k) of
        None \<Rightarrow> None
      | Some it \<Rightarrow>
          (case mark_tables (km s) (\<lambda>it. \<not> pi_done it) f_kernel it (replicate 1024 0) of
             None \<Rightarrow> None
           | Some v \<Rightarrow>
               let v = mu_mark (of_nat v_page) f_kernel (mu_mark (of_nat (kernel_pagetable k)) f_kernel v)
               in (case mark_processes k s pt (NPROC k - 1) 1 False v of
                     Some (Done (separate, v)) \<Rightarrow>
                       if separate then Some (Done (True, v))
                       else (case vmiter_new (km s) (kernel_pagetable k) 0 of
                               Done it \<Rightarrow> map_option (\<lambda>r. obind r (\<lambda>v. Done (False, v))) (mark_physical k s it v)
                             | _ \<Rightarrow> Some Abort)
                   | r \<Rightarrow> r)))"

section \<open>memusage::symbol\_at\<close>

text \<open>A call of \<^verbatim>\<open>page_error\<close>: the address, the description and the process.\<close>

type_synonym page_error = "ulong \<times> string \<times> nat"

definition cell_of :: "char \<Rightarrow> 16 word \<Rightarrow> 16 word" where
  "cell_of c color = of_char c OR color"

definition names :: string where
  "names = ''K123456789ABCDEFGHIJKLMNOPQRST??''"

text \<open>The last branch: a page of process \<open>n\<close>.\<close>

definition process_symbol :: "kmem \<Rightarrow> ulong \<Rightarrow> 32 word \<Rightarrow> nat \<Rightarrow> 16 word \<times> page_error list" where
  "process_symbol s pa v n =
     (let ch = push_bit 8 ([0xF, 0xC, 0xA, 0x9, 0xE] ! (n mod 5));
          ch = (if v AND f_kernel \<noteq> 0 then 0x4000 OR (if ch = 0x0C00 then 0x0F00 else ch) else ch);
          dangling = (refcount s (unat pa div PAGESIZE) = 0 \<and> v AND f_nonidentity \<noteq> 0);
          errs = (if dangling then [(pa, ''freed page mapped for user'', n)] else []);
          ch = (if dangling then ch OR 0xF000 else ch)
      in (if v > (f_process n OR f_kernel OR f_user OR f_nonidentity) then 0x0F00 OR of_char (CHR ''S'')
          else ch OR of_char (names ! n), errs))"

definition symbol_at :: "kconf \<Rightarrow> kmem \<Rightarrow> bool \<Rightarrow> marks \<Rightarrow> ulong \<Rightarrow> 16 word \<times> page_error list" where
  "symbol_at k s separate vs pa =
     (let is_reserved = reserved_physical_address (unat pa);
          is_kernel = (\<not> is_reserved \<and> \<not> allocatable_physical_address k (unat pa))
      in if unat pa \<ge> maxpa
         then (if is_kernel then cell_of (CHR ''K'') 0x4000
               else if is_reserved then cell_of (CHR ''?'') 0x4000 else cell_of (CHR ''?'') 0xF000, [])
         else let v = vs ! (unat pa div PAGESIZE); n = marked_pid v
              in if CONSOLE_ADDR \<le> unat pa \<and> unat pa < CONSOLE_ADDR + PAGESIZE then (cell_of (CHR ''C'') 0x0700, [])
                 else if is_reserved \<and> n \<noteq> 0
                 then (cell_of (CHR ''R'') 0x0C00, [(pa, ''reserved page mapped for user'', n)])
                 else if is_reserved then (cell_of (CHR ''R'') 0x0700, [])
                 else if is_kernel \<and> n \<noteq> 0 \<and> separate
                 then (cell_of (CHR ''K'') 0xCD00, [(pa, ''kernel data page mapped for user'', n)])
                 else if is_kernel then (cell_of (CHR ''K'') 0x0D00, [])
                 else if unat pa \<ge> MEMSIZE_PHYSICAL k then (cell_of (CHR '' '') 0x0700, [])
                 else let vx = v AND NOT f_nonidentity
                      in if vx = 0
                         then (if refcount s (unat pa div PAGESIZE) \<noteq> 0 then cell_of (CHR ''L'') 0x0300
                               else cell_of (CHR ''.'') 0x0700, [])
                         else if vx = f_kernel then (cell_of (CHR ''K'') 0x0D00, [])
                         else if vx = f_user then (cell_of (CHR ''.'') 0x0700, [])
                         else if v AND f_kernel \<noteq> 0 \<and> v AND f_user \<noteq> 0 \<and> separate
                         then (cell_of (CHR ''*'') 0xF400, [(pa, ''kernel allocated page mapped for user'', n)])
                         else process_symbol s pa v n)"

section \<open>console\_memviewer\<close>

abbreviation CPOS :: "nat \<Rightarrow> nat \<Rightarrow> nat" where "CPOS row col \<equiv> row * 80 + col"

text \<open>\<^verbatim>\<open>page_error\<close> prints to the console.\<close>

definition page_error :: "page_error \<Rightarrow> console_state \<Rightarrow> console_state outcome" where
  "page_error e st =
     (let (pa, desc, n) = e
      in obind (console_printf (int (CPOS 22 0)) 0xC000 ''PAGE TABLE ERROR: %lx: %s (pid %d)\<newline>''
                  [VLong pa, VStr desc, VInt (of_nat n)] st) (\<lambda>(_, st). Done st))"

fun page_errors :: "page_error list \<Rightarrow> console_state \<Rightarrow> console_state outcome" where
  "page_errors [] st = Done st"
| "page_errors (e # es) st = obind (page_error e st) (page_errors es)"

text \<open>One cell of a table of 64 columns whose first row is \<open>row\<close>; a line starts with its address.\<close>

definition draw_cell :: "nat \<Rightarrow> nat \<Rightarrow> ulong \<Rightarrow> 16 word \<times> page_error list \<Rightarrow> console_state \<Rightarrow> console_state outcome" where
  "draw_cell row pn addr c st =
     obind (if pn mod 64 = 0
            then obind (console_printf (int (CPOS (row + pn div 64) 3)) 0x0F00 ''0x%06X '' [VInt (ucast addr)] st)
                   (\<lambda>(_, st). Done st)
            else Done st) (\<lambda>st.
     obind (page_errors (snd c) st) (\<lambda>st.
     put_cell (fst c) (int (CPOS (row + pn div 64) (12 + pn mod 64))) st))"

fun draw_physical :: "kconf \<Rightarrow> kmem \<Rightarrow> bool \<Rightarrow> marks \<Rightarrow> nat \<Rightarrow> nat \<Rightarrow> console_state \<Rightarrow> console_state outcome" where
  "draw_physical k s separate v 0 pn st = Done st"
| "draw_physical k s separate v (Suc c) pn st =
     obind (draw_cell 1 pn (of_nat (pn * PAGESIZE)) (symbol_at k s separate v (of_nat (pn * PAGESIZE))) st)
       (draw_physical k s separate v c (Suc pn))"

text \<open>The cell of a virtual page; what the process can access has foreground and background swapped.\<close>

definition virtual_cell :: "kconf \<Rightarrow> kmem \<Rightarrow> bool \<Rightarrow> marks \<Rightarrow> vmiter \<Rightarrow> 16 word \<times> page_error list" where
  "virtual_cell k s separate v it =
     (if vm_perms (km s) it AND PTE_P \<noteq> PTE_P then (of_char (CHR '' ''), [])
      else let (ch, errs) = symbol_at k s separate v (vm_pa (km s) it)
           in (if vm_user (km s) it
               then if ch = 0x0F00 OR of_char (CHR ''S'') then ch XOR 0xFE00
                    else let z = (ch AND 0x0F00) XOR drop_bit 4 (ch AND 0xF000) in ch XOR (z OR push_bit 4 z)
               else ch, errs))"

fun draw_virtual :: "kconf \<Rightarrow> kmem \<Rightarrow> bool \<Rightarrow> marks \<Rightarrow> nat \<Rightarrow> vmiter \<Rightarrow> console_state \<Rightarrow> console_state outcome" where
  "draw_virtual k s separate v 0 it st = Done st"
| "draw_virtual k s separate v (Suc c) it st =
     obind (draw_cell 11 (unat (vm_va it) div PAGESIZE) (vm_va it) (virtual_cell k s separate v it) st) (\<lambda>st.
     obind (vm_find (km s) it (vm_va it + of_nat PAGESIZE)) (\<lambda>it.
     draw_virtual k s separate v c it st))"

text \<open>\<^verbatim>\<open>console_memviewer(vmp)\<close> once the page \<open>v_page\<close> of the marks is there.\<close>

definition draw :: "kconf \<Rightarrow> kmem \<Rightarrow> proc list \<Rightarrow> nat \<Rightarrow> nat option \<Rightarrow> console_state \<Rightarrow> console_state outcome option" where
  "draw k s pt v_page vmp st =
     map_option (\<lambda>r. obind r (\<lambda>(separate, v).
       obind (console_printf (int (CPOS 0 32)) 0x0F00 ''PHYSICAL MEMORY\<newline>'' [] st) (\<lambda>(_, st).
       obind (draw_physical k s separate v 512 0 st) (\<lambda>st.
         case vmp of
           None \<Rightarrow> Done st
         | Some n \<Rightarrow>
             if pagetable (pt ! n) = 0 then Abort
             else obind (console_printf (int (CPOS 10 26)) 0x0F00 ''VIRTUAL ADDRESS SPACE FOR %d%C%s\<newline>''
                    [VInt (of_nat (pid (pt ! n))), VInt 0x0700,
                     VStr (if pstate (pt ! n) = P_FAULTED then '' (faulted)'' else [])] st) (\<lambda>(_, st).
                  obind (vmiter_new (km s) (pagetable (pt ! n)) 0) (\<lambda>it. draw_virtual k s separate v 768 it st))))))
       (refresh k s pt v_page)"

section \<open>The marks of a process are the pages it can access\<close>

lemma length_mu_mark [simp]: "length (mu_mark pa f v) = length v"
  by (simp add: mu_mark_def)

lemma bit_mu_mark:
  assumes "length v = 1024" "n < 1024"
  shows "bit (mu_mark pa f v ! n) b \<longleftrightarrow> bit (v ! n) b \<or> unat pa div PAGESIZE = n \<and> bit f b"
proof -
  have "unat pa < maxpa \<longleftrightarrow> unat pa div PAGESIZE < 1024"
    by auto
  then show ?thesis
    using assms by (auto simp: mu_mark_def bit_or_iff nth_list_update)
qed

text \<open>An address within the region of an iterator has its entry.\<close>

lemma positioned_region:
  assumes "pt_inv k (vm_pt it) s" "positioned (km s) it p i q t"
    "(vm_va it XOR va) AND NOT (pageoffmask (vm_level it)) = 0"
  shows "\<exists>q'. positioned (km s) (it\<lparr>vm_va := va\<rparr>) p i q' t"
proof -
  have it: "vpath (vm_va it) = p @ i # q" "vm_level it = length q"
    using assms(2) by (simp_all add: positioned_def)
  have same: "pageindex va j = pageindex (vm_va it) j" if "length q \<le> j" for j
    using same_region [of "vm_va it" va "length q" j] assms(3) it(2) that by simp
  then obtain q' where q': "vpath va = p @ pageindex va (length q) # q'" "length q' = length q"
    using vpath_split [OF it(1), of va] by auto
  have "pageindex (vm_va it) (length q) = i"
    using vpath_split [OF it(1), of "vm_va it"] it(1) by auto
  then have "vpath va = p @ i # q'"
    using q'(1) same [of "length q"] by simp
  then show ?thesis
    using assms(2) q'(2) by (intro exI [of _ q']) (auto simp: positioned_def)
qed

lemma lookup_positioned:
  assumes "pt_inv k (vm_pt it) s" "positioned (km s) it p i q t" "va_is_canonical (vm_va it)"
  shows "lookup_va (km s) (vm_pt it) (vm_va it) = Done (vm_pa (km s) it, vm_perms (km s) it)"
proof -
  obtain it' p' i' q' t' where it': "vmiter_new (km s) (vm_pt it) (vm_va it) = Done it'" "vm_pt it' = vm_pt it"
      "vm_va it' = vm_va it" "positioned (km s) it' p' i' q' t'"
    using vmiter_new_positioned [OF assms(1,3)] by blast
  then show ?thesis
    using positioned_unique [OF assms(1,2) it'(4) it'(2,3)] by (simp add: lookup_va_def)
qed

text \<open>The end of the region of \<open>2 ^ n\<close> bytes around an address.\<close>

definition region_end :: "nat \<Rightarrow> ulong \<Rightarrow> nat" where
  "region_end n va = unat va div 2 ^ n * 2 ^ n + 2 ^ n"

lemma unat_and_not_mask: "unat (va AND NOT (mask n) :: ulong) = unat va div 2 ^ n * 2 ^ n"
proof -
  have "(va AND NOT (mask n)) + take_bit n va = va"
    by (subst disjunctive_add_eq_or) (auto simp: bit_eq_iff bit_simps)
  then have "va AND NOT (mask n) = va - take_bit n va"
    by (simp add: eq_diff_eq)
  moreover have "unat (take_bit n va) = unat va mod 2 ^ n"
    using unsigned_take_bit_eq [of n va, where 'a = nat] take_bit_eq_mod [of n "unat va"] by simp
  moreover from this have "take_bit n va \<le> va"
    by (simp add: word_le_nat_alt)
  ultimately show ?thesis
    by (simp add: unat_sub minus_mod_eq_div_mult)
qed

lemma or_mask_end:
  fixes va :: ulong
  assumes "region_end n va < 2 ^ 64" "n < 64"
  shows "unat ((va OR mask n) + 1) = region_end n va"
proof -
  have "va OR mask n = (va AND NOT (mask n)) OR mask n"
    by (rule bit_word_eqI) (auto simp: bit_or_iff bit_and_iff bit_not_iff)
  also have "\<dots> = (va AND NOT (mask n)) + mask n"
    by (rule disjunctive_add_eq_or [symmetric]) (simp add: bit_eq_iff bit_simps)
  finally have "(va OR mask n) + 1 = (va AND NOT (mask n)) + (mask n + 1)"
    by simp
  also have "mask n + 1 = (2 ^ n :: ulong)"
    by (simp add: mask_eq_exp_minus_1)
  finally have "(va OR mask n) + 1 = (va AND NOT (mask n)) + 2 ^ n" .
  moreover have "unat (2 ^ n :: ulong) = 2 ^ n"
  proof -
    have "unat (of_nat (2 ^ n) :: ulong) = 2 ^ n mod 2 ^ 64"
      by (simp only: unat_of_nat) simp
    then show ?thesis
      using power_strict_increasing [OF assms(2), of "2 :: nat"] by simp
  qed
  ultimately show ?thesis
    using assms(1) by (simp add: region_end_def unat_word_ariths unat_and_not_mask)
qed

lemma region_same:
  assumes "unat va \<le> unat va'" "unat va' < region_end n va"
  shows "(va XOR va') AND NOT (mask n) = (0 :: ulong)"
proof -
  have "unat va' div 2 ^ n = unat va div 2 ^ n"
  proof (rule antisym)
    show "unat va div 2 ^ n \<le> unat va' div 2 ^ n"
      using assms(1) by (rule div_le_mono)
    have "unat va' < (unat va div 2 ^ n + 1) * 2 ^ n"
      using assms(2) by (simp add: region_end_def)
    then have "unat va' div 2 ^ n < unat va div 2 ^ n + 1"
      by (rule less_mult_imp_div_less)
    then show "unat va' div 2 ^ n \<le> unat va div 2 ^ n"
      by simp
  qed
  then have "va AND NOT (mask n) = va' AND NOT (mask n)"
    by (simp add: word_unat_eq_iff unat_and_not_mask)
  then show ?thesis
    by (simp add: bit_eq_iff bit_simps) blast
qed

text \<open>A region of a page table entry below \<^verbatim>\<open>VA_LOWEND\<close> ends at or before it, at a multiple of the page size.\<close>

lemma region_end_bounds:
  assumes "l \<le> 3" "unat va < 2 ^ 47"
  shows "region_end (12 + l * 9) va \<le> 2 ^ 47" "PAGESIZE dvd region_end (12 + l * 9) va" "unat va < region_end (12 + l * 9) va"
proof -
  let ?n = "12 + l * 9"
  have pow: "(2 :: nat) ^ 47 = 2 ^ (47 - ?n) * 2 ^ ?n" "(2 :: nat) ^ ?n = 2 ^ (l * 9) * PAGESIZE"
    using assms(1) by (simp_all add: power_add [symmetric]) (simp add: power_add)
  have "unat va div 2 ^ ?n < 2 ^ (47 - ?n)"
    using assms(2) unfolding pow(1) by (rule less_mult_imp_div_less)
  then have "(unat va div 2 ^ ?n + 1) * 2 ^ ?n \<le> 2 ^ (47 - ?n) * 2 ^ ?n"
    by (intro mult_le_mono1) simp
  then show "region_end ?n va \<le> 2 ^ 47"
    unfolding pow(1) by (simp add: region_end_def)
  show "PAGESIZE dvd region_end ?n va"
    unfolding region_end_def pow(2) by (intro dvd_add dvd_mult) simp_all
  show "unat va < region_end ?n va"
    using dividend_less_div_times [of "2 ^ ?n" "unat va"] by (simp add: region_end_def add.commute)
qed

lemma VA_LOWEND_less: "va < VA_LOWEND \<longleftrightarrow> unat va < 2 ^ 47"
  by (simp add: VA_LOWEND_def word_less_nat_alt)

lemma positioned_level:
  assumes "positioned m it p i q t"
  shows "vm_level it \<le> 3"
proof -
  have "vpath (vm_va it) = p @ i # q" "vm_level it = length q"
    using assms by (simp_all add: positioned_def)
  then show ?thesis
    using vpath_nth(3) [of "vm_va it" p i q] by simp
qed

text \<open>Moving up: to an address below \<^verbatim>\<open>VA_LOWEND\<close>, or to \<^verbatim>\<open>VA_LOWEND\<close> itself, which is not canonical.\<close>

lemma real_find_up:
  assumes "pt_inv k (vm_pt it) s" "positioned (km s) it p i q t" "unat (vm_va it) < 2 ^ 47" "unat va \<le> 2 ^ 47"
  obtains it' where "real_find (km s) it va = Done it'" "vm_va it' = va"
    "unat va < 2 ^ 47 \<Longrightarrow> vm_pt it' = vm_pt it \<and> (\<exists>p i q t. positioned (km s) it' p i q t)"
proof (cases "unat va < 2 ^ 47")
  case True
  then show ?thesis
    using real_find_positioned [OF assms(1,2) low_canonical [OF True]] that by blast
next
  case False
  then have va: "va = 0x800000000000"
    using assms(4) by (simp add: word_unat_eq_iff)
  note level = positioned_level [OF assms(2)]
  have "vm_level it = 3 \<or> (vm_va it XOR va) AND NOT (pageoffmask (vm_level it + 1)) \<noteq> 0"
  proof (cases "vm_level it = 3")
    case False
    have "\<not> bit (unat (vm_va it)) 47" "bit (unat va) 47"
      using assms(3) by (simp_all add: va bit_iff_odd)
    then have "bit va 47" "\<not> bit (vm_va it) 47"
      by (simp_all add: bit_unsigned_iff)
    then have "bit ((vm_va it XOR va) AND NOT (pageoffmask (vm_level it + 1))) 47"
      using False level by (simp add: pageoffmask_mask bit_simps)
    then show ?thesis by auto
  qed simp
  moreover have "\<not> va_is_canonical va"
    by (simp add: va va_is_canonical_def)
  ultimately have "real_find (km s) it va = Done (it\<lparr>vm_level := 3, vm_perm := 0, vm_pep := None, vm_va := va\<rparr>)"
    by (auto simp: real_find_def down_def pe_def numeral_3_eq_3)
  then show ?thesis
    using that False by simp
qed

text \<open>Bit \<open>b\<close> of the mark that a process with page table \<open>pt\<close> leaves on page \<open>n\<close> by its address \<open>a\<close>.\<close>

definition sees :: "mem \<Rightarrow> nat \<Rightarrow> 32 word \<Rightarrow> nat \<Rightarrow> nat \<Rightarrow> nat \<Rightarrow> bool" where
  "sees m pt pidflag n b a \<longleftrightarrow>
     a < 2 ^ 47 \<and> PAGESIZE dvd a \<and>
     (\<exists>pa perm. lookup_va m pt (of_nat a) = Done (pa, perm) \<and> perm AND (PTE_P OR PTE_U) = PTE_P OR PTE_U \<and>
        unat pa div PAGESIZE = n \<and>
        bit (if of_nat a = pa then f_user OR pidflag else f_user OR f_nonidentity OR pidflag) b)"

text \<open>What an iteration skips: the page itself when it is marked, the whole region of the entry when it is not accessible.\<close>

lemma sees_here:
  assumes "pt_inv k (vm_pt it) s" "positioned (km s) it p i q t" "unat (vm_va it) < 2 ^ 47" "PAGESIZE dvd unat (vm_va it)"
  shows "sees (km s) (vm_pt it) f n b (unat (vm_va it)) \<longleftrightarrow> vm_user (km s) it \<and>
    unat (vm_pa (km s) it) div PAGESIZE = n \<and>
    bit (if vm_va it = vm_pa (km s) it then f_user OR f else f_user OR f_nonidentity OR f) b"
  using lookup_positioned [OF assms(1,2) low_canonical [OF assms(3)]] assms(3,4)
  by (simp add: sees_def vm_user_def)

lemma unseen_region:
  assumes "pt_inv k (vm_pt it) s" "positioned (km s) it p i q t" "unat (vm_va it) < 2 ^ 47" "\<not> vm_user (km s) it"
    "unat (vm_va it) \<le> a" "a < region_end (12 + vm_level it * 9) (vm_va it)"
  shows "\<not> sees (km s) (vm_pt it) f n b a"
proof -
  have a: "a < 2 ^ 47"
    using assms(6) region_end_bounds(1) [OF positioned_level [OF assms(2)] assms(3)] by simp
  then have u: "unat (of_nat a :: ulong) = a"
    using unat_page(1) by simp
  have "(vm_va it XOR of_nat a) AND NOT (pageoffmask (vm_level it)) = 0"
    unfolding pageoffmask_mask by (rule region_same) (use u assms(5,6) in simp_all)
  then obtain q' where "positioned (km s) (it\<lparr>vm_va := of_nat a\<rparr>) p i q' t"
    using positioned_region [OF assms(1,2)] by blast
  then have "lookup_va (km s) (vm_pt it) (of_nat a) =
      Done (vm_pa (km s) (it\<lparr>vm_va := of_nat a\<rparr>), vm_perms (km s) it)"
    using lookup_positioned [of k "it\<lparr>vm_va := of_nat a\<rparr>" s p i q' t] assms(1) low_canonical [of "of_nat a"] u a
    by (simp add: vm_perms_def)
  then show ?thesis
    using assms(4) by (auto simp: sees_def vm_user_def)
qed

lemma ex_from_split:
  fixes x y :: nat
  assumes "\<And>a. x \<le> a \<Longrightarrow> P a \<Longrightarrow> a = x \<or> y \<le> a" "x \<le> y"
  shows "(\<exists>a\<ge>x. P a) \<longleftrightarrow> P x \<or> (\<exists>a\<ge>y. P a)"
proof
  assume "\<exists>a\<ge>x. P a"
  then show "P x \<or> (\<exists>a\<ge>y. P a)"
    using assms(1) by blast
next
  assume "P x \<or> (\<exists>a\<ge>y. P a)"
  then show "\<exists>a\<ge>x. P a"
    using assms(2) order_trans by blast
qed

lemma marks_step:
  assumes "pt_inv k (vm_pt it) s" "positioned (km s) it p i q t" "unat (vm_va it) < 2 ^ 47" "PAGESIZE dvd unat (vm_va it)"
    "length v = 1024" "n < 1024"
  shows "bit ((if vm_user (km s) it then mu_mark (vm_pa (km s) it)
        (if vm_va it = vm_pa (km s) it then f_user OR f else f_user OR f_nonidentity OR f) v else v) ! n) b \<or>
      (\<exists>a\<ge>region_end (12 + (if vm_user (km s) it then 0 else vm_level it) * 9) (vm_va it). sees (km s) (vm_pt it) f n b a) \<longleftrightarrow>
    bit (v ! n) b \<or> (\<exists>a\<ge>unat (vm_va it). sees (km s) (vm_pt it) f n b a)"
proof (cases "vm_user (km s) it")
  case True
  have "region_end 12 (vm_va it) = unat (vm_va it) + PAGESIZE"
    using assms(4) by (auto simp: region_end_def)
  moreover have "a = unat (vm_va it) \<or> a \<ge> unat (vm_va it) + PAGESIZE"
    if "a \<ge> unat (vm_va it)" "sees (km s) (vm_pt it) f n b a" for a
    using that assms(4) by (auto simp: sees_def elim!: dvdE)
  ultimately have "(\<exists>a\<ge>unat (vm_va it). sees (km s) (vm_pt it) f n b a) \<longleftrightarrow>
      sees (km s) (vm_pt it) f n b (unat (vm_va it)) \<or> (\<exists>a\<ge>region_end 12 (vm_va it). sees (km s) (vm_pt it) f n b a)"
    by (intro ex_from_split) simp_all
  then show ?thesis
    using True sees_here [OF assms(1-4)] bit_mu_mark [OF assms(5,6)] by auto
next
  case False
  have "unat (vm_va it) < region_end (12 + vm_level it * 9) (vm_va it)"
    by (rule region_end_bounds(3) [OF positioned_level [OF assms(2)] assms(3)])
  moreover have "region_end (12 + vm_level it * 9) (vm_va it) \<le> a"
    if "unat (vm_va it) \<le> a" "sees (km s) (vm_pt it) f n b a" for a
    using unseen_region [OF assms(1-3) False that(1), of f n b] that(2) by (meson not_le)
  ultimately have "(\<exists>a\<ge>region_end (12 + vm_level it * 9) (vm_va it). sees (km s) (vm_pt it) f n b a) \<longleftrightarrow>
      (\<exists>a\<ge>unat (vm_va it). sees (km s) (vm_pt it) f n b a)"
    by (meson le_trans less_imp_le)
  then show ?thesis
    using False by simp
qed

lemma mark_user_marks:
  assumes "unat (vm_va it) < 2 ^ 47 \<Longrightarrow> pt_inv k (vm_pt it) s \<and> vm_pt it = pt \<and> (\<exists>p i q t. positioned (km s) it p i q t)"
    "PAGESIZE dvd unat (vm_va it)" "length v = 1024"
  shows "\<exists>v'. mark_user (km s) f it v = Some (Done v') \<and> length v' = 1024 \<and>
    (\<forall>n<1024. \<forall>b. bit (v' ! n) b \<longleftrightarrow> bit (v ! n) b \<or> (\<exists>a\<ge>unat (vm_va it). sees (km s) pt f n b a))"
  using assms
proof (induction "2 ^ 47 - unat (vm_va it)" arbitrary: it v rule: less_induct)
  case less
  show ?case
  proof (cases "unat (vm_va it) < 2 ^ 47")
    case False
    then have "\<not> sees (km s) pt f n b a" if "a \<ge> unat (vm_va it)" for a n b
      using that by (auto simp: sees_def)
    then show ?thesis
      using False less.prems(3) by (subst mark_user.simps) (auto simp: VA_LOWEND_less)
  next
    case True
    obtain p i q t where inv: "pt_inv k (vm_pt it) s" and pt: "vm_pt it = pt" and pos: "positioned (km s) it p i q t"
      using less.prems(1) [OF True] by blast
    let ?fl = "if vm_va it = vm_pa (km s) it then f_user OR f else f_user OR f_nonidentity OR f"
    define l where "l = (if vm_user (km s) it then 0 else vm_level it)"
    define v1 where "v1 = (if vm_user (km s) it then mu_mark (vm_pa (km s) it) ?fl v else v)"
    define e where "e = region_end (12 + l * 9) (vm_va it)"
    have l: "l \<le> 3"
      using positioned_level [OF pos] by (simp add: l_def)
    note re = region_end_bounds [OF l True, folded e_def]
    have last: "unat ((vm_va it OR pageoffmask l) + 1) = e"
      unfolding pageoffmask_mask e_def by (rule or_mask_end) (use re l in \<open>simp_all add: e_def\<close>)
    obtain it' where it': "real_find (km s) it ((vm_va it OR pageoffmask l) + 1) = Done it'" "unat (vm_va it') = e"
        "e < 2 ^ 47 \<Longrightarrow> vm_pt it' = vm_pt it \<and> (\<exists>p i q t. positioned (km s) it' p i q t)"
      by (rule real_find_up [OF inv pos True, of "(vm_va it OR pageoffmask l) + 1"]) (use last re(1) in auto)
    have step: "mark_user (km s) f it v = mark_user (km s) f it' v1"
    proof (cases "vm_user (km s) it")
      case u: True
      then have "vm_perms (km s) it \<noteq> 0"
        by (auto simp: vm_user_def)
      then have "vm_next (km s) it = Done it'"
        using it'(1) u by (simp add: vm_next_def l_def)
      then show ?thesis
        using u True by (subst mark_user.simps) (simp add: VA_LOWEND_less v1_def Let_def)
    next
      case u: False
      then have "next_range (km s) it = Done it'"
        using it'(1) by (simp add: next_range_def last_va_def l_def)
      then show ?thesis
        using u True by (subst mark_user.simps) (simp add: VA_LOWEND_less v1_def)
    qed
    have "\<exists>v'. mark_user (km s) f it' v1 = Some (Done v') \<and> length v' = 1024 \<and>
        (\<forall>n<1024. \<forall>b. bit (v' ! n) b \<longleftrightarrow> bit (v1 ! n) b \<or> (\<exists>a\<ge>unat (vm_va it'). sees (km s) pt f n b a))"
      using less.prems(3) it'(2,3) re True inv pt by (intro less.hyps) (auto simp: v1_def)
    moreover have "bit (v1 ! n) b \<or> (\<exists>a\<ge>e. sees (km s) pt f n b a) \<longleftrightarrow>
        bit (v ! n) b \<or> (\<exists>a\<ge>unat (vm_va it). sees (km s) pt f n b a)" if "n < 1024" for n b
      using marks_step [OF inv pos True less.prems(2,3) that] by (simp add: v1_def e_def l_def pt)
    ultimately show ?thesis
      using step it'(2) by auto
  qed
qed

lemma mark_user_exact:
  assumes "pt_inv k pt s" "length v = 1024"
  obtains it v' where "vmiter_new (km s) pt 0 = Done it" "mark_user (km s) f it v = Some (Done v')" "length v' = 1024"
    "\<And>n b. n < 1024 \<Longrightarrow> bit (v' ! n) b \<longleftrightarrow> bit (v ! n) b \<or> (\<exists>a. sees (km s) pt f n b a)"
proof -
  obtain it p i q t where it: "vmiter_new (km s) pt 0 = Done it" "vm_pt it = pt" "vm_va it = 0" "positioned (km s) it p i q t"
    using vmiter_new_positioned [OF assms(1), of 0] by (auto simp: va_is_canonical_def)
  then have "\<exists>v'. mark_user (km s) f it v = Some (Done v') \<and> length v' = 1024 \<and>
      (\<forall>n<1024. \<forall>b. bit (v' ! n) b \<longleftrightarrow> bit (v ! n) b \<or> (\<exists>a\<ge>unat (vm_va it). sees (km s) pt f n b a))"
    using assms by (intro mark_user_marks) auto
  then show ?thesis
    using that [OF it(1)] it(3) by auto
qed

section \<open>The viewer reports the kernel pages that a process can access\<close>

lemma marked_pid_0: "marked_pid v = 0 \<longleftrightarrow> (\<forall>b\<ge>3. \<not> bit v b)"
proof -
  have "marked_pid v = 0 \<longleftrightarrow> find (bit (drop_bit 3 v)) [0..<32] = None"
    by (simp add: marked_pid_def lsb_def split: option.split)
  also have "\<dots> \<longleftrightarrow> (\<forall>b<32. \<not> bit v (3 + b))"
    by (auto simp: find_None_iff bit_drop_bit_eq)
  also have "\<dots> \<longleftrightarrow> (\<forall>b\<ge>3. \<not> bit v b)"
  proof safe
    fix b :: nat
    assume all: "\<forall>b<32. \<not> bit v (3 + b)" and b: "3 \<le> b" "bit v b"
    then have "b - 3 < 32"
      using bit_imp_le_length [of v b] by simp
    then show False
      using all b by (auto dest: spec [of _ "b - 3"])
  qed auto
  finally show ?thesis .
qed

lemma bit_f_process:
  assumes "1 \<le> n" "n \<le> 28"
  shows "bit (f_process n) b \<longleftrightarrow> b = n + 2"
proof -
  have "f_process n = push_bit n (push_bit 2 1)"
    using assms by (simp add: f_process_def)
  then have "bit (f_process n) b \<longleftrightarrow> n \<le> b \<and> b < 32 \<and> bit (push_bit 2 1 :: 32 word) (b - n)"
    by (simp only: bit_push_bit_iff) auto
  then show ?thesis
    using assms by (simp only: bit_push_bit_iff bit_1_iff) auto
qed

text \<open>The mark of a process is left by exactly the addresses through which it can access the page.\<close>

definition can_access :: "mem \<Rightarrow> nat \<Rightarrow> nat \<Rightarrow> bool" where
  "can_access m pt n \<longleftrightarrow> (\<exists>a pa perm. a < 2 ^ 47 \<and> PAGESIZE dvd a \<and> lookup_va m pt (of_nat a) = Done (pa, perm) \<and>
     perm AND (PTE_P OR PTE_U) = PTE_P OR PTE_U \<and> unat pa div PAGESIZE = n)"

lemma sees_process:
  assumes "1 \<le> i" "i \<le> 28"
  shows "(\<exists>b\<ge>3. \<exists>a. sees m pt (f_process i) n b a) \<longleftrightarrow> can_access m pt n"
proof -
  have "bit (if c then f_user OR f_process i else f_user OR f_nonidentity OR f_process i) b \<longleftrightarrow> b = i + 2" if "3 \<le> b" for b c
  proof -
    have "\<not> bit (2 :: 32 word) b" "\<not> bit (4 :: 32 word) b"
      using that bit_push_bit_iff [of 1 "1 :: 32 word" b] bit_push_bit_iff [of 2 "1 :: 32 word" b] by (auto simp: bit_1_iff)
    then show ?thesis
      by (auto simp: bit_or_iff bit_f_process [OF assms])
  qed
  then have "sees m pt (f_process i) n b a \<longleftrightarrow> b = i + 2 \<and> a < 2 ^ 47 \<and> PAGESIZE dvd a \<and>
      (\<exists>pa perm. lookup_va m pt (of_nat a) = Done (pa, perm) \<and> perm AND (PTE_P OR PTE_U) = PTE_P OR PTE_U \<and>
        unat pa div PAGESIZE = n)" if "3 \<le> b" for a b
    using that by (auto simp: sees_def)
  then have "(\<exists>b\<ge>3. \<exists>a. sees m pt (f_process i) n b a) \<longleftrightarrow> (\<exists>b\<ge>3. b = i + 2) \<and> can_access m pt n"
    unfolding can_access_def by blast
  then show ?thesis
    using assms(1) by simp
qed

text \<open>
  C30. The part of \<^verbatim>\<open>refresh\<close> that marks the addresses of one process (\<^verbatim>\<open>mark_user\<close>, the loop over a \<^verbatim>\<open>vmiter\<close>), started with any
  marks on a page table that satisfies the invariant, walks the whole lower half of the address space and returns; and
  \<^verbatim>\<open>symbol_at\<close> with the marks it leaves reports an error for a page that is neither reserved nor
  allocatable nor the console exactly if the page had the mark of a
  process before the loop or some address of this process leads to it with user permission.  The marks of the page tables
  themselves, which \<^verbatim>\<open>refresh\<close> makes with \<^verbatim>\<open>ptiter\<close> before this loop, and the picture are not part of the statement.
\<close>

theorem viewer_reports_kernel_pages:
  assumes "pt_inv k pt s" "length v = 1024" "1 \<le> i" "i \<le> 28" "n < 1024"
    "\<not> reserved_physical_address (n * PAGESIZE)" "\<not> allocatable_physical_address k (n * PAGESIZE)" "n * PAGESIZE \<noteq> CONSOLE_ADDR"
  shows "\<exists>it v'. vmiter_new (km s) pt 0 = Done it \<and> mark_user (km s) (f_process i) it v = Some (Done v') \<and>
    (snd (symbol_at k s True v' (of_nat (n * PAGESIZE))) \<noteq> [] \<longleftrightarrow> marked_pid (v ! n) \<noteq> 0 \<or> can_access (km s) pt n)"
proof -
  obtain it v' where run: "vmiter_new (km s) pt 0 = Done it" "mark_user (km s) (f_process i) it v = Some (Done v')"
    and bits: "\<And>n b. n < 1024 \<Longrightarrow> bit (v' ! n) b \<longleftrightarrow> bit (v ! n) b \<or> (\<exists>a. sees (km s) pt (f_process i) n b a)"
    by (rule mark_user_exact [OF assms(1,2), of "f_process i"]) blast
  have u: "unat (of_nat (n * PAGESIZE) :: ulong) = n * PAGESIZE"
    using unat_page(1) [of "n * PAGESIZE"] assms(5) by simp
  have "n * PAGESIZE < 0xB8000 + PAGESIZE \<Longrightarrow> \<not> 0xB8000 \<le> n * PAGESIZE"
    using assms(8) by auto
  then have "snd (symbol_at k s True v' (of_nat (n * PAGESIZE))) \<noteq> [] \<longleftrightarrow> marked_pid (v' ! n) \<noteq> 0"
    using assms(5-7) u by (auto simp: symbol_at_def Let_def)
  also have "\<dots> \<longleftrightarrow> marked_pid (v ! n) \<noteq> 0 \<or> can_access (km s) pt n"
    unfolding marked_pid_0 using bits [OF assms(5)] sees_process [OF assms(3,4), of "km s" pt n] by blast
  finally show ?thesis
    using run by blast
qed

text \<open>The static tables of the kernel after the user address \<^verbatim>\<open>0x100000\<close> has been mapped, by mistake, to the kernel page \<^verbatim>\<open>0x40000\<close>.\<close>

lemma exposed_kernel_page:
  obtains it s' where "vmiter_new (km (ks sample_user)) 0x50000 0x100000 = Done it"
    "try_map sample_conf it 0x40000 PTE_PWU (ks sample_user) = Some (Done (0, it, s'))"
    "pt_inv sample_conf 0x50000 s'" "can_access (km s') 0x50000 0x40"
proof -
  have kp: "kernel_pagetable sample_conf = 0x50000"
    by (simp add: sample_conf_def)
  have m: "km (ks sample_user) = init_kernel_tables sample_conf (\<lambda>_. NUL)"
    by (simp add: sample_user_def)
  have va: "va_is_canonical 0x100000"
    by (simp add: va_is_canonical_def)
  obtain it p i q t where it: "vmiter_new (km (ks sample_user)) 0x50000 0x100000 = Done it" "vm_pt it = 0x50000" "vm_va it = 0x100000"
    and pos: "positioned (km (ks sample_user)) it p i q t"
    using vmiter_new_positioned [OF sample_user_inv(1) va] by blast
  have "covered (km (ks sample_user)) (vm_pt it) (vm_va it)"
    using covered_init [OF sample_conf_ok, of "0x100000"] by (simp add: it m kp)
  from covered_level(1) [OF this pos] have q: "q = []" .
  obtain s' where s': "try_map sample_conf it 0x40000 PTE_PWU (ks sample_user) = Some (Done (0, it, s'))"
      "pt_inv sample_conf 0x50000 s'" "mapping (km s') 0x50000 (vpath 0x100000) = Some (0x40000, PTE_PWU, 0)"
    using try_map_covered [of sample_conf it "ks sample_user" p i t PTE_PWU "0x40000"] sample_user_inv(1) pos
    by (auto simp: it(2,3) q idxs_vpath page_mapping_def)
  have "lookup_va (km s') 0x50000 (of_nat 0x100000) = Done (0x40000, PTE_PWU)"
    using lookup_translate [OF s'(2) va] s'(3) by (simp add: translate_def pageoffmask_def)
  then have "can_access (km s') 0x50000 0x40"
    unfolding can_access_def by (intro exI [of _ "0x100000 :: nat"] exI [of _ "0x40000"] exI [of _ PTE_PWU]) simp
  with it(1) s'(1,2) show thesis
    by (rule that)
qed

text \<open>Witness: the kernel page \<^verbatim>\<open>0x40000\<close> is not reported for an empty page table, and it is once a user address leads to it.\<close>

theorem viewer_reports_kernel_pages_witness:
  "(\<exists>it v'. vmiter_new (km sample_kmem) 0x1000 0 = Done it \<and>
     mark_user (km sample_kmem) (f_process 2) it (replicate 1024 0) = Some (Done v') \<and>
     snd (symbol_at sample_conf sample_kmem True v' (of_nat (0x40 * PAGESIZE))) = []) \<and>
   (\<exists>it0 s' it v'. vmiter_new (km (ks sample_user)) 0x50000 0x100000 = Done it0 \<and>
     try_map sample_conf it0 0x40000 PTE_PWU (ks sample_user) = Some (Done (0, it0, s')) \<and>
     vmiter_new (km s') 0x50000 0 = Done it \<and>
     mark_user (km s') (f_process 2) it (replicate 1024 0) = Some (Done v') \<and>
     snd (symbol_at sample_conf s' True v' (of_nat (0x40 * PAGESIZE))) \<noteq> [])"
proof -
  have "\<not> can_access (km sample_kmem) 0x1000 0x40"
  proof
    assume "can_access (km sample_kmem) 0x1000 0x40"
    then obtain a pa perm where a: "a < 2 ^ 47" "lookup_va (km sample_kmem) 0x1000 (of_nat a) = Done (pa, perm)" "perm AND 5 = 5"
      by (auto simp: can_access_def)
    then show False
      using lookup_translate [OF sample_kmem_inv unat_page(2) [OF a(1)]] by (auto simp: sample_unmapped translate_def)
  qed
  moreover have "marked_pid 0 = 0"
    by (simp add: marked_pid_0)
  moreover obtain it0 s' where s': "vmiter_new (km (ks sample_user)) 0x50000 0x100000 = Done it0"
      "try_map sample_conf it0 0x40000 PTE_PWU (ks sample_user) = Some (Done (0, it0, s'))"
      "pt_inv sample_conf 0x50000 s'" "can_access (km s') 0x50000 0x40"
    by (rule exposed_kernel_page)
  moreover have page: "\<not> reserved_physical_address (0x40 * PAGESIZE)" "\<not> allocatable_physical_address sample_conf (0x40 * PAGESIZE)"
      "0x40 * PAGESIZE \<noteq> CONSOLE_ADDR"
    by (simp_all add: sample_conf_def reserved_physical_address_def allocatable_physical_address_def)
  ultimately show ?thesis
    using viewer_reports_kernel_pages [OF sample_kmem_inv _ _ _ _ page, where v = "replicate 1024 0" and i = 2]
      viewer_reports_kernel_pages [OF s'(3) _ _ _ _ page, where v = "replicate 1024 0" and i = 2]
    by simp
qed

end
