(* ===== verification/Elf_Image.thy ===== *)
theory Elf_Image
  imports Kernel_Debug Fs_Layout
begin

text \<open>
  The tool \<^verbatim>\<open>build/mkchickadeesymtab.cc\<close> of Lab 4, which prepares the symbol table that \<^verbatim>\<open>lookup_symbol\<close> searches: the image
  that it reads, the validation of the image, and the search for sections and symbols.  The structures of \<^verbatim>\<open>elf.h\<close>, which is
  not part of the repository, are the parameter \<open>elf_abi\<close>: the size of each structure, how its fields are read from
  its bytes and written into them, and the constants.  The locale \<open>elf_layout\<close> says what the tool relies on; it is
  interpreted for the layout of ELF-64.  A read or write of the image past its size is undefined.
\<close>

section \<open>The structures of elf.h\<close>

type_synonym bytes = "char list"

record elf_ehdr =
  e_magic :: "32 word"
  e_phoff :: ulong
  e_shoff :: ulong
  e_phentsize :: "16 word"
  e_phnum :: "16 word"
  e_shentsize :: "16 word"
  e_shnum :: "16 word"
  e_shstrndx :: "16 word"

record elf_phdr =
  p_type :: "32 word"
  p_flags :: "32 word"
  p_offset :: ulong
  p_va :: ulong
  p_pa :: ulong
  p_filesz :: ulong
  p_memsz :: ulong
  p_align :: ulong

record elf_section =
  sh_name :: "32 word"
  sh_type :: "32 word"
  sh_flags :: ulong
  sh_addr :: ulong
  sh_offset :: ulong
  sh_size :: ulong
  sh_link :: "32 word"
  sh_addralign :: ulong

text \<open>The symbols of \<^verbatim>\<open>Kernel_Debug\<close>, with the two fields that only the tool uses.\<close>

record elf_sym = elf_symbol +
  st_info :: "8 word"
  st_shndx :: "16 word"

text \<open>A structure type: its size, its fields from its bytes, and its bytes with new fields.\<close>

record 'r struct =
  size_of :: nat
  fields_of :: "bytes \<Rightarrow> 'r"
  with_fields :: "'r \<Rightarrow> bytes \<Rightarrow> bytes"

record elf_abi =
  header :: "elf_ehdr struct"
  program :: "elf_phdr struct"
  sec :: "elf_section struct"
  symbol :: "elf_sym struct"
  symtabref_size :: nat
  symtabref_bytes :: "ulong \<Rightarrow> 32 word \<Rightarrow> ulong \<Rightarrow> ulong \<Rightarrow> bytes"
  ELF_MAGIC :: "32 word"
  SHT_NULL :: "32 word"
  SHT_PROGBITS :: "32 word"
  SHT_SYMTAB :: "32 word"
  SHT_STRTAB :: "32 word"
  SHT_NOBITS :: "32 word"
  SHF_ALLOC :: ulong
  STT_MASK :: "8 word"
  STT_OBJECT :: "8 word"
  STT_FUNC :: "8 word"
  PTYPE_LOAD :: "32 word"
  PFLAG_READ :: "32 word"

definition wf_struct :: "'r struct \<Rightarrow> bool" where
  "wf_struct s \<longleftrightarrow> 0 < size_of s \<and>
     (\<forall>r b. length b = size_of s \<longrightarrow>
        length (with_fields s r b) = size_of s \<and> fields_of s (with_fields s r b) = r \<and> with_fields s (fields_of s b) b = b)"

locale elf_layout =
  fixes abi :: elf_abi
  assumes wf_header: "wf_struct (header abi)"
    and wf_program: "wf_struct (program abi)"
    and wf_section: "wf_struct (sec abi)"
    and wf_symbol: "wf_struct (symbol abi)"
    and symtabref_length: "length (symtabref_bytes abi a n s z) = symtabref_size abi"
    and section_types: "distinct [SHT_NULL abi, SHT_PROGBITS abi, SHT_SYMTAB abi, SHT_STRTAB abi, SHT_NOBITS abi]"

section \<open>elf_info\<close>

text \<open>\<^verbatim>\<open>data_\<close> has \<^verbatim>\<open>size_\<close> bytes; the pointers into it are offsets, a null pointer \<^verbatim>\<open>symtab_\<close> is \<open>None\<close>.\<close>

record elf_info =
  ei_data :: bytes
  ei_capacity :: nat
  ei_changed :: bool
  ei_ok :: bool
  ei_pht :: nat
  ei_sht :: nat
  ei_symtab :: "nat option"
  ei_nsymtab :: nat
  ei_symstrtab :: nat

definition elf_info_new :: "bytes \<Rightarrow> nat \<Rightarrow> elf_info" where
  "elf_info_new d cap =
     \<lparr>ei_data = d, ei_capacity = cap, ei_changed = False, ei_ok = False, ei_pht = 0, ei_sht = 0,
      ei_symtab = None, ei_nsymtab = 0, ei_symstrtab = 0\<rparr>"

definition bytes_at :: "bytes \<Rightarrow> nat \<Rightarrow> nat \<Rightarrow> bytes outcome" where
  "bytes_at d off n = (if off + n \<le> length d then Done (take n (drop off d)) else Undef)"

definition byte_at :: "bytes \<Rightarrow> nat \<Rightarrow> char outcome" where
  "byte_at d off = (if off < length d then Done (d ! off) else Undef)"

text \<open>Element \<open>i\<close> of the array of structures at \<open>off\<close>.\<close>

definition rd :: "'r struct \<Rightarrow> bytes \<Rightarrow> nat \<Rightarrow> nat \<Rightarrow> 'r outcome" where
  "rd s d off i = obind (bytes_at d (off + i * size_of s) (size_of s)) (\<lambda>b. Done (fields_of s b))"

definition wr :: "'r struct \<Rightarrow> bytes \<Rightarrow> nat \<Rightarrow> nat \<Rightarrow> 'r \<Rightarrow> bytes outcome" where
  "wr s d off i r =
     obind (bytes_at d (off + i * size_of s) (size_of s)) (\<lambda>b. mem_write (off + i * size_of s) (with_fields s r b) d)"

definition grow :: "elf_abi \<Rightarrow> nat \<Rightarrow> elf_info \<Rightarrow> elf_info outcome" where
  "grow abi capacity ei =
     (if ei_capacity ei < capacity
      then let ei = ei\<lparr>ei_capacity := max capacity (ei_capacity ei + 32768)\<rparr>
           in if ei_ok ei
              then obind (rd (header abi) (ei_data ei) 0 0) (\<lambda>eh.
                     Done (ei\<lparr>ei_pht := unat (e_phoff eh), ei_sht := unat (e_shoff eh), ei_symtab := None, ei_nsymtab := 0\<rparr>))
              else Done ei
      else Done ei)"

section \<open>validate\<close>

text \<open>The names of \<open>n\<close> symbols from number \<open>j\<close> on.\<close>

fun check_symbols :: "elf_abi \<Rightarrow> bytes \<Rightarrow> nat \<Rightarrow> nat \<Rightarrow> nat \<Rightarrow> nat \<Rightarrow> bool outcome" where
  "check_symbols abi d off strsize 0 j = Done True"
| "check_symbols abi d off strsize (Suc n) j =
     obind (rd (symbol abi) d off j) (\<lambda>s.
       if strsize \<le> unat (st_name s) then Done False else check_symbols abi d off strsize n (Suc j))"

definition check_symtab :: "elf_abi \<Rightarrow> bytes \<Rightarrow> nat \<Rightarrow> nat \<Rightarrow> elf_section \<Rightarrow> bool outcome" where
  "check_symtab abi d sht shnum sh =
     (if shnum \<le> unat (sh_link sh) then Done False
      else obind (rd (sec abi) d sht (unat (sh_link sh))) (\<lambda>str.
        if sh_type str \<noteq> SHT_STRTAB abi then Done False
        else check_symbols abi d (unat (sh_offset sh)) (unat (sh_size str)) (unat (sh_size sh) div size_of (symbol abi)) 0))"

definition check_strtab :: "bytes \<Rightarrow> elf_section \<Rightarrow> bool outcome" where
  "check_strtab d sh =
     (if sh_size sh = 0 then Done False
      else obind (byte_at d (unat (sh_offset sh))) (\<lambda>c.
        if c \<noteq> NUL then Done False
        else obind (byte_at d (unat (sh_offset sh) + unat (sh_size sh) - 1)) (\<lambda>c. Done (c = NUL))))"

definition check_section :: "elf_abi \<Rightarrow> bytes \<Rightarrow> nat \<Rightarrow> nat \<Rightarrow> elf_section \<Rightarrow> nat \<Rightarrow> bool outcome" where
  "check_section abi d sht shnum str i =
     obind (rd (sec abi) d sht i) (\<lambda>sh.
       if i = 0 \<and> sh_type sh \<noteq> SHT_NULL abi then Done False
       else if unat (sh_size str) \<le> unat (sh_name sh) then Done False
       else obind (byte_at d (unat (sh_offset str) + unat (sh_name sh))) (\<lambda>_.
         if sh_type sh \<noteq> SHT_NULL abi \<and> sh_type sh \<noteq> SHT_NOBITS abi \<and>
            (length d \<le> unat (sh_offset sh) \<or> length d - unat (sh_offset sh) < unat (sh_size sh)) then Done False
         else if sh_type sh = SHT_SYMTAB abi then check_symtab abi d sht shnum sh
         else if sh_type sh = SHT_STRTAB abi then check_strtab d sh
         else Done True))"

fun check_sections :: "elf_abi \<Rightarrow> bytes \<Rightarrow> nat \<Rightarrow> nat \<Rightarrow> elf_section \<Rightarrow> nat \<Rightarrow> nat \<Rightarrow> bool outcome" where
  "check_sections abi d sht shnum str 0 i = Done True"
| "check_sections abi d sht shnum str (Suc n) i =
     obind (check_section abi d sht shnum str i) (\<lambda>ok.
       if ok then check_sections abi d sht shnum str n (Suc i) else Done False)"

text \<open>The basics of the header: the sizes of the tables and that they are in the image.\<close>

definition check_header :: "elf_abi \<Rightarrow> nat \<Rightarrow> elf_ehdr \<Rightarrow> bool" where
  "check_header abi sz eh \<longleftrightarrow>
     e_magic eh = ELF_MAGIC abi \<and>
     unat (e_phentsize eh) = size_of (program abi) \<and> unat (e_shentsize eh) = size_of (sec abi) \<and>
     e_phnum eh \<noteq> 0 \<and> e_shnum eh \<noteq> 0 \<and>
     unat (e_phoff eh) < sz \<and> unat (e_phnum eh) \<le> (sz - unat (e_phoff eh)) div size_of (program abi) \<and>
     unat (e_shoff eh) < sz \<and> unat (e_shnum eh) \<le> (sz - unat (e_shoff eh)) div size_of (sec abi) \<and>
     e_shstrndx eh \<noteq> 0 \<and> e_shstrndx eh < e_shnum eh"

definition validate :: "elf_abi \<Rightarrow> elf_info \<Rightarrow> elf_info option outcome" where
  "validate abi ei =
     (if ei_ok ei then Done (Some ei)
      else let d = ei_data ei
           in if length d < size_of (header abi) then Done None
              else obind (rd (header abi) d 0 0) (\<lambda>eh.
                if \<not> check_header abi (length d) eh then Done None
                else let sht = unat (e_shoff eh)
                     in obind (rd (sec abi) d sht (unat (e_shstrndx eh))) (\<lambda>str.
                       if sh_type str \<noteq> SHT_STRTAB abi then Done None
                       else obind (check_strtab d str) (\<lambda>ok.
                         if \<not> ok then Done None
                         else obind (check_sections abi d sht (unat (e_shnum eh)) str (unat (e_shnum eh)) 0) (\<lambda>ok.
                           Done (if ok then Some (ei\<lparr>ei_ok := True, ei_pht := unat (e_phoff eh), ei_sht := sht\<rparr>)
                                 else None))))))"

section \<open>Sections and symbols by name\<close>

text \<open>The first of \<open>n\<close> entries from number \<open>i\<close> on whose name, at \<open>nm i\<close>, compares equal.\<close>

fun find_name :: "(nat \<Rightarrow> bytes outcome) \<Rightarrow> string \<Rightarrow> nat \<Rightarrow> nat \<Rightarrow> nat option outcome" where
  "find_name nm name 0 i = Done None"
| "find_name nm name (Suc n) i =
     obind (nm i) (\<lambda>b. obind (strcmp_eq b (name @ [NUL])) (\<lambda>eq.
       if eq then Done (Some i) else find_name nm name n (Suc i)))"

definition shstrtab :: "elf_abi \<Rightarrow> elf_info \<Rightarrow> nat outcome" where
  "shstrtab abi ei =
     obind (rd (header abi) (ei_data ei) 0 0) (\<lambda>eh.
       obind (rd (sec abi) (ei_data ei) (ei_sht ei) (unat (e_shstrndx eh))) (\<lambda>str. Done (unat (sh_offset str))))"

definition section_name :: "elf_abi \<Rightarrow> elf_info \<Rightarrow> nat \<Rightarrow> nat \<Rightarrow> bytes outcome" where
  "section_name abi ei str i =
     obind (rd (sec abi) (ei_data ei) (ei_sht ei) i) (\<lambda>sh. Done (drop (str + unat (sh_name sh)) (ei_data ei)))"

definition find_section :: "elf_abi \<Rightarrow> elf_info \<Rightarrow> string \<Rightarrow> nat outcome" where
  "find_section abi ei name =
     (if \<not> ei_ok ei then Abort
      else obind (shstrtab abi ei) (\<lambda>str.
        obind (rd (header abi) (ei_data ei) 0 0) (\<lambda>eh.
          obind (find_name (section_name abi ei str) name (unat (e_shnum eh)) 0) (\<lambda>r.
            Done (case r of None \<Rightarrow> 0 | Some i \<Rightarrow> i)))))"

text \<open>\<^verbatim>\<open>nsymtab_\<close> is an \<^verbatim>\<open>unsigned\<close>.\<close>

definition symtab :: "elf_abi \<Rightarrow> elf_info \<Rightarrow> elf_info outcome" where
  "symtab abi ei =
     (if ei_symtab ei \<noteq> None then Done ei
      else obind (find_section abi ei ''.symtab'') (\<lambda>i.
        if i = 0 then Done ei
        else obind (rd (sec abi) (ei_data ei) (ei_sht ei) i) (\<lambda>sh.
          if sh_type sh \<noteq> SHT_SYMTAB abi then Done ei
          else obind (rd (sec abi) (ei_data ei) (ei_sht ei) (unat (sh_link sh))) (\<lambda>str.
            Done (ei\<lparr>ei_symtab := Some (unat (sh_offset sh)),
                     ei_nsymtab := unat (sh_size sh) div size_of (symbol abi) mod 2 ^ 32,
                     ei_symstrtab := unat (sh_offset str)\<rparr>)))))"

definition symbol_name :: "elf_abi \<Rightarrow> elf_info \<Rightarrow> nat \<Rightarrow> bytes outcome" where
  "symbol_name abi ei i =
     (case ei_symtab ei of
        None \<Rightarrow> Undef
      | Some st \<Rightarrow> obind (rd (symbol abi) (ei_data ei) st i) (\<lambda>s. Done (drop (ei_symstrtab ei + unat (st_name s)) (ei_data ei))))"

definition find_symbol :: "elf_abi \<Rightarrow> elf_info \<Rightarrow> string \<Rightarrow> nat option \<Rightarrow> (nat option \<times> elf_info) outcome" where
  "find_symbol abi ei name after =
     (let i = (case after of None \<Rightarrow> 0 | Some j \<Rightarrow> Suc j)
      in obind (symtab abi ei) (\<lambda>ei.
        obind (find_name (symbol_name abi ei) name (ei_nsymtab ei - i) i) (\<lambda>r. Done (r, ei))))"

section \<open>What validation establishes\<close>

lemma rd_Done_iff: "rd s d off i = Done r \<longleftrightarrow>
    off + Suc i * size_of s \<le> length d \<and> r = fields_of s (take (size_of s) (drop (off + i * size_of s) d))"
  by (auto simp: rd_def bytes_at_def add_ac)

lemma byte_at_Done_iff: "byte_at d off = Done c \<longleftrightarrow> off < length d \<and> c = d ! off"
  by (auto simp: byte_at_def)

text \<open>A string table ends with a NUL, so that a string that starts in it ends in it.\<close>

definition strtab_ok :: "bytes \<Rightarrow> elf_section \<Rightarrow> bool" where
  "strtab_ok d sh \<longleftrightarrow>
     0 < unat (sh_size sh) \<and> unat (sh_offset sh) + unat (sh_size sh) \<le> length d \<and>
     d ! (unat (sh_offset sh) + unat (sh_size sh) - 1) = NUL"

lemma c_str_before_NUL:
  assumes "a \<le> e" "e < length d" "d ! e = NUL"
  shows "\<exists>s. c_str (drop a d) = Done s"
proof -
  have "drop a d = (drop a d)[e - a := NUL]"
    using assms by (intro nth_equalityI) (auto simp: nth_list_update)
  then show ?thesis
    using c_str_terminates [of "e - a" "drop a d"] assms by auto
qed

lemma strtab_string:
  assumes "strtab_ok d sh" "k < unat (sh_size sh)"
  shows "\<exists>s. c_str (drop (unat (sh_offset sh) + k) d) = Done s"
  using assms by (intro c_str_before_NUL [of _ "unat (sh_offset sh) + unat (sh_size sh) - 1"]) (auto simp: strtab_ok_def)

lemma check_strtab_True: "check_strtab d sh = Done True \<Longrightarrow> strtab_ok d sh"
  by (auto simp: check_strtab_def strtab_ok_def obind_Done_iff byte_at_Done_iff unat_gt_0 split: if_splits)

definition symbols_ok :: "elf_abi \<Rightarrow> bytes \<Rightarrow> nat \<Rightarrow> nat \<Rightarrow> nat \<Rightarrow> bool" where
  "symbols_ok abi d off n strsize \<longleftrightarrow> (\<forall>j<n. \<exists>s. rd (symbol abi) d off j = Done s \<and> unat (st_name s) < strsize)"

lemma check_symbols_True:
  "check_symbols abi d off strsize n j = Done True \<Longrightarrow>
   \<forall>i. j \<le> i \<and> i < j + n \<longrightarrow> (\<exists>s. rd (symbol abi) d off i = Done s \<and> unat (st_name s) < strsize)"
proof (induction n arbitrary: j)
  case (Suc n)
  then obtain s where s: "rd (symbol abi) d off j = Done s" "unat (st_name s) < strsize"
    and rest: "check_symbols abi d off strsize n (Suc j) = Done True"
    by (auto simp: obind_Done_iff not_le split: if_splits)
  show ?case
    using Suc.IH [OF rest] s by (metis Suc_leI add_Suc_shift le_neq_implies_less)
qed auto

definition symtab_ok :: "elf_abi \<Rightarrow> bytes \<Rightarrow> nat \<Rightarrow> nat \<Rightarrow> elf_section \<Rightarrow> bool" where
  "symtab_ok abi d sht shnum sh \<longleftrightarrow> unat (sh_link sh) < shnum \<and>
     (\<exists>str. rd (sec abi) d sht (unat (sh_link sh)) = Done str \<and> sh_type str = SHT_STRTAB abi \<and>
        symbols_ok abi d (unat (sh_offset sh)) (unat (sh_size sh) div size_of (symbol abi)) (unat (sh_size str)))"

lemma check_symtab_True: "check_symtab abi d sht shnum sh = Done True \<Longrightarrow> symtab_ok abi d sht shnum sh"
  by (auto simp: check_symtab_def symtab_ok_def symbols_ok_def obind_Done_iff not_le split: if_splits
      dest!: check_symbols_True)

definition section_ok :: "elf_abi \<Rightarrow> bytes \<Rightarrow> nat \<Rightarrow> nat \<Rightarrow> nat \<Rightarrow> elf_section \<Rightarrow> bool" where
  "section_ok abi d sht shnum strsize sh \<longleftrightarrow>
     unat (sh_name sh) < strsize \<and>
     (sh_type sh \<noteq> SHT_NULL abi \<and> sh_type sh \<noteq> SHT_NOBITS abi \<longrightarrow> unat (sh_offset sh) + unat (sh_size sh) \<le> length d) \<and>
     (sh_type sh = SHT_SYMTAB abi \<longrightarrow> symtab_ok abi d sht shnum sh) \<and>
     (sh_type sh = SHT_STRTAB abi \<longrightarrow> strtab_ok d sh)"

lemma check_section_True:
  assumes "check_section abi d sht shnum str i = Done True" "SHT_SYMTAB abi \<noteq> SHT_STRTAB abi"
  shows "\<exists>sh. rd (sec abi) d sht i = Done sh \<and> section_ok abi d sht shnum (unat (sh_size str)) sh"
  using assms unfolding check_section_def section_ok_def
  by (auto simp: obind_Done_iff not_le split: if_splits dest: check_symtab_True check_strtab_True)

lemma check_sections_True:
  assumes "check_sections abi d sht shnum str n i = Done True" "SHT_SYMTAB abi \<noteq> SHT_STRTAB abi" "i \<le> j" "j < i + n"
  shows "\<exists>sh. rd (sec abi) d sht j = Done sh \<and> section_ok abi d sht shnum (unat (sh_size str)) sh"
  using assms
proof (induction n arbitrary: i)
  case (Suc n)
  then have "check_section abi d sht shnum str i = Done True" "check_sections abi d sht shnum str n (Suc i) = Done True"
    by (auto simp: obind_Done_iff split: if_splits)
  then show ?case
    using check_section_True [of abi d sht shnum str i] Suc by (cases "i = j") auto
qed simp

text \<open>The image after \<^verbatim>\<open>validate\<close>.\<close>

definition elf_valid :: "elf_abi \<Rightarrow> elf_info \<Rightarrow> bool" where
  "elf_valid abi ei \<longleftrightarrow> ei_ok ei \<and>
     (\<exists>eh str. rd (header abi) (ei_data ei) 0 0 = Done eh \<and> check_header abi (length (ei_data ei)) eh \<and>
        ei_pht ei = unat (e_phoff eh) \<and> ei_sht ei = unat (e_shoff eh) \<and>
        rd (sec abi) (ei_data ei) (ei_sht ei) (unat (e_shstrndx eh)) = Done str \<and> strtab_ok (ei_data ei) str \<and>
        (\<forall>i<unat (e_shnum eh). \<exists>sh. rd (sec abi) (ei_data ei) (ei_sht ei) i = Done sh \<and>
           section_ok abi (ei_data ei) (ei_sht ei) (unat (e_shnum eh)) (unat (sh_size str)) sh))"

lemma validate_valid:
  assumes "validate abi ei = Done (Some ei')" "\<not> ei_ok ei" "SHT_SYMTAB abi \<noteq> SHT_STRTAB abi"
  shows "elf_valid abi ei' \<and> ei_data ei' = ei_data ei \<and> ei_symtab ei' = ei_symtab ei \<and> ei_nsymtab ei' = ei_nsymtab ei"
  using assms(1,2) check_sections_True [OF _ assms(3)] unfolding validate_def elf_valid_def
  by (auto simp: Let_def obind_Done_iff check_strtab_True split: if_splits)

section \<open>Names are found\<close>

text \<open>\<open>find_name\<close> on names that end: the first number with that name.\<close>

lemma find_name_find:
  assumes "NUL \<notin> set name" "\<And>j. i \<le> j \<Longrightarrow> j < i + n \<Longrightarrow> \<exists>b. nm j = Done b \<and> c_str b = Done (s j)"
  shows "find_name nm name n i = Done (find (\<lambda>j. s j = name) [i..<i + n])"
  using assms(2)
proof (induction n arbitrary: i)
  case (Suc n)
  obtain b where b: "nm i = Done b" "c_str b = Done (s i)"
    using Suc.prems [of i] by auto
  have eq: "strcmp_eq b (name @ [NUL]) = Done (s i = name)"
    using strcmp_eq_c_str [OF b(2), of "name @ [NUL]" name] c_str_append [OF assms(1)] by simp
  have "find_name nm name n (Suc i) = Done (find (\<lambda>j. s j = name) [Suc i..<Suc i + n])"
    using Suc.prems by (intro Suc.IH) auto
  moreover have "[i..<i + Suc n] = i # [Suc i..<Suc i + n]"
    by (simp add: upt_conv_Cons)
  ultimately show ?case
    using b(1) eq by (simp del: upt_Suc)
qed simp

lemma find_name_choice:
  assumes "NUL \<notin> set name" "\<forall>j<n. \<exists>b s. nm j = Done b \<and> c_str b = Done s"
  obtains s where "\<forall>j<n. obind (nm j) c_str = Done (s j)"
    "\<And>i. find_name nm name (n - i) i = Done (find (\<lambda>j. s j = name) [i..<n])"
proof -
  obtain s where s: "\<forall>j<n. \<exists>b. nm j = Done b \<and> c_str b = Done (s j)"
    using assms(2) by metis
  show ?thesis
  proof
    show "\<forall>j<n. obind (nm j) c_str = Done (s j)"
      using s by (auto simp: obind_Done_iff)
    show "find_name nm name (n - i) i = Done (find (\<lambda>j. s j = name) [i..<n])" for i
      using find_name_find [OF assms(1), of i "n - i" nm s] s by (cases "i \<le> n") auto
  qed
qed

definition section_string :: "elf_abi \<Rightarrow> elf_info \<Rightarrow> nat \<Rightarrow> string outcome" where
  "section_string abi ei i = obind (shstrtab abi ei) (\<lambda>str. obind (section_name abi ei str i) c_str)"

definition symbol_string :: "elf_abi \<Rightarrow> elf_info \<Rightarrow> nat \<Rightarrow> string outcome" where
  "symbol_string abi ei i = obind (symbol_name abi ei i) c_str"

lemma valid_header:
  assumes "elf_valid abi ei"
  obtains eh str where "rd (header abi) (ei_data ei) 0 0 = Done eh" "shstrtab abi ei = Done (unat (sh_offset str))"
    "strtab_ok (ei_data ei) str" "\<And>i. i < unat (e_shnum eh) \<Longrightarrow>
       \<exists>sh. rd (sec abi) (ei_data ei) (ei_sht ei) i = Done sh \<and>
         section_ok abi (ei_data ei) (ei_sht ei) (unat (e_shnum eh)) (unat (sh_size str)) sh"
  using assms that unfolding elf_valid_def shstrtab_def by auto

lemma find_section_valid:
  assumes "elf_valid abi ei" "NUL \<notin> set name"
  obtains eh s where "rd (header abi) (ei_data ei) 0 0 = Done eh" "\<forall>i<unat (e_shnum eh). section_string abi ei i = Done (s i)"
    "find_section abi ei name = Done (case find (\<lambda>i. s i = name) [0..<unat (e_shnum eh)] of None \<Rightarrow> 0 | Some i \<Rightarrow> i)"
proof -
  obtain eh str where h: "rd (header abi) (ei_data ei) 0 0 = Done eh" "shstrtab abi ei = Done (unat (sh_offset str))"
    "strtab_ok (ei_data ei) str" and secs: "\<And>i. i < unat (e_shnum eh) \<Longrightarrow>
       \<exists>sh. rd (sec abi) (ei_data ei) (ei_sht ei) i = Done sh \<and>
         section_ok abi (ei_data ei) (ei_sht ei) (unat (e_shnum eh)) (unat (sh_size str)) sh"
    using valid_header [OF assms(1)] by blast
  let ?nm = "section_name abi ei (unat (sh_offset str))"
  have "\<exists>b s. ?nm j = Done b \<and> c_str b = Done s" if "j < unat (e_shnum eh)" for j
    using secs [OF that] strtab_string [OF h(3)] by (fastforce simp: section_name_def section_ok_def)
  then obtain s where s: "\<forall>j<unat (e_shnum eh). obind (?nm j) c_str = Done (s j)"
    "\<And>i. find_name ?nm name (unat (e_shnum eh) - i) i = Done (find (\<lambda>j. s j = name) [i..<unat (e_shnum eh)])"
    using find_name_choice [OF assms(2), of "unat (e_shnum eh)" ?nm] by blast
  have "ei_ok ei"
    using assms(1) by (simp add: elf_valid_def)
  then show ?thesis
    using h s(1) s(2) [of 0] by (intro that [OF h(1), of s]) (auto simp: section_string_def find_section_def)
qed

text \<open>\<open>symtab\<close> on a valid image: there is no table, or every symbol of it has a name that ends.\<close>

definition table_ok :: "elf_abi \<Rightarrow> elf_info \<Rightarrow> bool" where
  "table_ok abi ei \<longleftrightarrow> (\<forall>i<ei_nsymtab ei. \<exists>b s. symbol_name abi ei i = Done b \<and> c_str b = Done s)"

lemma find_in_range: "find P [a..<b] = Some i \<Longrightarrow> a \<le> i \<and> i < b"
  by (auto simp: find_Some_iff)

lemma find_section_less:
  assumes "elf_valid abi ei" "NUL \<notin> set name" "rd (header abi) (ei_data ei) 0 0 = Done eh"
  obtains i where "find_section abi ei name = Done i" "i = 0 \<or> i < unat (e_shnum eh)"
proof -
  obtain eh' s where *: "rd (header abi) (ei_data ei) 0 0 = Done eh'"
    "find_section abi ei name = Done (case find (\<lambda>i. s i = name) [0..<unat (e_shnum eh')] of None \<Rightarrow> 0 | Some i \<Rightarrow> i)"
    using find_section_valid [OF assms(1,2)] by metis
  then show ?thesis
    using assms(3) that by (auto split: option.splits dest!: find_in_range)
qed

lemma symtab_valid:
  assumes "elf_valid abi ei" "ei_symtab ei = None" "ei_nsymtab ei = 0"
  obtains ei' where "symtab abi ei = Done ei'" "table_ok abi ei'" "ei_data ei' = ei_data ei"
proof -
  obtain eh str where h: "rd (header abi) (ei_data ei) 0 0 = Done eh" "shstrtab abi ei = Done (unat (sh_offset str))"
    "strtab_ok (ei_data ei) str" and secs: "\<And>i. i < unat (e_shnum eh) \<Longrightarrow>
       \<exists>sh. rd (sec abi) (ei_data ei) (ei_sht ei) i = Done sh \<and>
         section_ok abi (ei_data ei) (ei_sht ei) (unat (e_shnum eh)) (unat (sh_size str)) sh"
    using valid_header [OF assms(1)] by blast
  obtain i where i: "find_section abi ei ''.symtab'' = Done i" "i = 0 \<or> i < unat (e_shnum eh)"
    by (rule find_section_less [OF assms(1) _ h(1), of "''.symtab''"]) simp_all
  have none: "table_ok abi ei"
    using assms(3) by (simp add: table_ok_def)
  show ?thesis
  proof (cases "i = 0")
    case True
    then show ?thesis
      using i(1) assms(2) none by (intro that [of ei]) (simp_all add: symtab_def)
  next
    case False
    then obtain sh where sh: "rd (sec abi) (ei_data ei) (ei_sht ei) i = Done sh"
      "section_ok abi (ei_data ei) (ei_sht ei) (unat (e_shnum eh)) (unat (sh_size str)) sh"
      using secs i(2) by blast
    show ?thesis
    proof (cases "sh_type sh = SHT_SYMTAB abi")
      case True
      then obtain st where st: "unat (sh_link sh) < unat (e_shnum eh)"
        "rd (sec abi) (ei_data ei) (ei_sht ei) (unat (sh_link sh)) = Done st" "sh_type st = SHT_STRTAB abi"
        "symbols_ok abi (ei_data ei) (unat (sh_offset sh)) (unat (sh_size sh) div size_of (symbol abi)) (unat (sh_size st))"
        using sh(2) by (auto simp: section_ok_def symtab_ok_def)
      let ?ei = "ei\<lparr>ei_symtab := Some (unat (sh_offset sh)),
        ei_nsymtab := unat (sh_size sh) div size_of (symbol abi) mod 2 ^ 32, ei_symstrtab := unat (sh_offset st)\<rparr>"
      have "strtab_ok (ei_data ei) st"
        using secs [OF st(1)] st(2,3) by (auto simp: section_ok_def)
      moreover have "j < unat (sh_size sh) div size_of (symbol abi)"
        if "j < unat (sh_size sh) div size_of (symbol abi) mod 2 ^ 32" for j
        using that mod_less_eq_dividend order_less_le_trans by blast
      ultimately have "table_ok abi ?ei"
        using st(4) by (fastforce simp: table_ok_def symbol_name_def symbols_ok_def dest: strtab_string)
      then show ?thesis
        using True \<open>i \<noteq> 0\<close> i(1) sh(1) st(2) assms(2) by (intro that [of ?ei]) (simp_all add: symtab_def)
    next
      case False
      then show ?thesis
        using \<open>i \<noteq> 0\<close> i(1) sh(1) assms(2) none by (intro that [of ei]) (simp_all add: symtab_def)
    qed
  qed
qed

lemma find_symbol_valid:
  assumes "elf_valid abi ei" "ei_symtab ei = None" "ei_nsymtab ei = 0" "NUL \<notin> set name"
  obtains ei' s where "symtab abi ei = Done ei'" "\<forall>i<ei_nsymtab ei'. symbol_string abi ei' i = Done (s i)"
    "find_symbol abi ei name None = Done (find (\<lambda>i. s i = name) [0..<ei_nsymtab ei'], ei')"
proof -
  obtain ei' where ei': "symtab abi ei = Done ei'" "table_ok abi ei'"
    using symtab_valid [OF assms(1-3)] by metis
  obtain s where "\<forall>j<ei_nsymtab ei'. obind (symbol_name abi ei' j) c_str = Done (s j)"
    "\<And>i. find_name (symbol_name abi ei') name (ei_nsymtab ei' - i) i = Done (find (\<lambda>j. s j = name) [i..<ei_nsymtab ei'])"
    using find_name_choice [OF assms(4)] ei'(2) unfolding table_ok_def by metis
  from this(1) this(2) [of 0] show ?thesis
    using ei'(1) by (intro that [OF ei'(1), of s]) (simp_all add: symbol_string_def find_symbol_def)
qed

text \<open>
  C31. An image that \<^verbatim>\<open>validate\<close> accepts can be searched safely, whatever is in it: every section and every symbol has a name
  that ends within the image, \<^verbatim>\<open>find_section\<close> and \<^verbatim>\<open>find_symbol\<close> read nothing outside of the image, and they return the
  first section, or 0, and the first symbol, or none, of the given name.
\<close>

theorem validated_names_found:
  assumes "elf_layout abi" "validate abi (elf_info_new d cap) = Done (Some ei)" "NUL \<notin> set name"
  shows "\<exists>eh s ei' t. rd (header abi) d 0 0 = Done eh \<and>
    (\<forall>i<unat (e_shnum eh). section_string abi ei i = Done (s i)) \<and>
    find_section abi ei name = Done (case find (\<lambda>i. s i = name) [0..<unat (e_shnum eh)] of None \<Rightarrow> 0 | Some i \<Rightarrow> i) \<and>
    symtab abi ei = Done ei' \<and> (\<forall>i<ei_nsymtab ei'. symbol_string abi ei' i = Done (t i)) \<and>
    find_symbol abi ei name None = Done (find (\<lambda>i. t i = name) [0..<ei_nsymtab ei'], ei')"
proof -
  have "SHT_SYMTAB abi \<noteq> SHT_STRTAB abi"
    using elf_layout.section_types [OF assms(1)] by auto
  then have v: "elf_valid abi ei" "ei_data ei = d" "ei_symtab ei = None" "ei_nsymtab ei = 0"
    using validate_valid [OF assms(2)] by (simp_all add: elf_info_new_def)
  show ?thesis
    using find_section_valid [OF v(1) assms(3)] find_symbol_valid [OF v(1,3,4) assms(3)] unfolding v(2) by metis
qed

section \<open>The layout of ELF-64\<close>

definition elf64 :: elf_abi where
  "elf64 =
     \<lparr>header = \<lparr>size_of = 64,
        fields_of = (\<lambda>b. \<lparr>e_magic = word_dec (take 4 b), e_phoff = word_dec (take 8 (drop 32 b)),
          e_shoff = word_dec (take 8 (drop 40 b)), e_phentsize = word_dec (take 2 (drop 54 b)),
          e_phnum = word_dec (take 2 (drop 56 b)), e_shentsize = word_dec (take 2 (drop 58 b)),
          e_shnum = word_dec (take 2 (drop 60 b)), e_shstrndx = word_dec (take 2 (drop 62 b))\<rparr>),
        with_fields = (\<lambda>r b. word_enc 4 (e_magic r) @ take 28 (drop 4 b) @ word_enc 8 (e_phoff r) @ word_enc 8 (e_shoff r) @
          take 6 (drop 48 b) @ word_enc 2 (e_phentsize r) @ word_enc 2 (e_phnum r) @ word_enc 2 (e_shentsize r) @
          word_enc 2 (e_shnum r) @ word_enc 2 (e_shstrndx r))\<rparr>,
      program = \<lparr>size_of = 56,
        fields_of = (\<lambda>b. \<lparr>p_type = word_dec (take 4 b), p_flags = word_dec (take 4 (drop 4 b)),
          p_offset = word_dec (take 8 (drop 8 b)), p_va = word_dec (take 8 (drop 16 b)), p_pa = word_dec (take 8 (drop 24 b)),
          p_filesz = word_dec (take 8 (drop 32 b)), p_memsz = word_dec (take 8 (drop 40 b)), p_align = word_dec (take 8 (drop 48 b))\<rparr>),
        with_fields = (\<lambda>r b. word_enc 4 (p_type r) @ word_enc 4 (p_flags r) @ word_enc 8 (p_offset r) @ word_enc 8 (p_va r) @
          word_enc 8 (p_pa r) @ word_enc 8 (p_filesz r) @ word_enc 8 (p_memsz r) @ word_enc 8 (p_align r))\<rparr>,
      sec = \<lparr>size_of = 64,
        fields_of = (\<lambda>b. \<lparr>sh_name = word_dec (take 4 b), sh_type = word_dec (take 4 (drop 4 b)),
          sh_flags = word_dec (take 8 (drop 8 b)), sh_addr = word_dec (take 8 (drop 16 b)),
          sh_offset = word_dec (take 8 (drop 24 b)), sh_size = word_dec (take 8 (drop 32 b)),
          sh_link = word_dec (take 4 (drop 40 b)), sh_addralign = word_dec (take 8 (drop 48 b))\<rparr>),
        with_fields = (\<lambda>r b. word_enc 4 (sh_name r) @ word_enc 4 (sh_type r) @ word_enc 8 (sh_flags r) @ word_enc 8 (sh_addr r) @
          word_enc 8 (sh_offset r) @ word_enc 8 (sh_size r) @ word_enc 4 (sh_link r) @ take 4 (drop 44 b) @
          word_enc 8 (sh_addralign r) @ take 8 (drop 56 b))\<rparr>,
      symbol = \<lparr>size_of = 24,
        fields_of = (\<lambda>b. \<lparr>st_name = word_dec (take 4 b), st_value = word_dec (take 8 (drop 8 b)),
          st_size = word_dec (take 8 (drop 16 b)), st_info = word_dec (take 1 (drop 4 b)), st_shndx = word_dec (take 2 (drop 6 b))\<rparr>),
        with_fields = (\<lambda>r b. word_enc 4 (st_name r) @ word_enc 1 (st_info r) @ take 1 (drop 5 b) @ word_enc 2 (st_shndx r) @
          word_enc 8 (st_value r) @ word_enc 8 (st_size r))\<rparr>,
      symtabref_size = 32,
      symtabref_bytes = (\<lambda>a n s z. word_enc 8 a @ le_bytes 8 (unat n) @ word_enc 8 s @ word_enc 8 z),
      ELF_MAGIC = 0x464C457F, SHT_NULL = 0, SHT_PROGBITS = 1, SHT_SYMTAB = 2, SHT_STRTAB = 3, SHT_NOBITS = 8, SHF_ALLOC = 2,
      STT_MASK = 15, STT_OBJECT = 1, STT_FUNC = 2, PTYPE_LOAD = 1, PFLAG_READ = 4\<rparr>"

interpretation u8: codec "word_enc 1 :: 8 word \<Rightarrow> char list" word_dec 1 "\<lambda>_. True"
  by (rule word_codec) simp

interpretation u64: codec "word_enc 8 :: 64 word \<Rightarrow> char list" word_dec 8 "\<lambda>_. True"
  by (rule word_codec) simp

lemmas word_codecs = u8.dec_enc [simplified] u8.enc_dec [simplified] u16.dec_enc u32.dec_enc u64.dec_enc u16.enc_dec u32.enc_dec u64.enc_dec

fun split_at :: "nat list \<Rightarrow> 'a list \<Rightarrow> 'a list list" where
  "split_at [] b = [b]"
| "split_at (n # ns) b = take n b # split_at ns (drop n b)"

lemma concat_split_at: "concat (split_at ns b) = b"
  by (induction ns arbitrary: b) auto

lemma wf_structI:
  assumes "0 < size_of s" "\<And>r b. length b = size_of s \<Longrightarrow> length (with_fields s r b) = size_of s"
    "\<And>r b. length b = size_of s \<Longrightarrow> fields_of s (with_fields s r b) = r"
    "\<And>b. length b = size_of s \<Longrightarrow> with_fields s (fields_of s b) b = b"
  shows "wf_struct s"
  using assms by (simp add: wf_struct_def)

interpretation elf64: elf_layout elf64
proof
  show "wf_struct (header elf64)"
    by (rule wf_structI) (simp_all add: elf64_def word_codecs concat_split_at [of "[4, 28, 8, 8, 6, 2, 2, 2, 2]", simplified])
  show "wf_struct (program elf64)"
    by (rule wf_structI) (simp_all add: elf64_def word_codecs concat_split_at [of "[4, 4, 8, 8, 8, 8, 8]", simplified])
  show "wf_struct (sec elf64)"
    by (rule wf_structI) (simp_all add: elf64_def word_codecs concat_split_at [of "[4, 4, 8, 8, 8, 8, 4, 4, 8]", simplified])
  show "wf_struct (symbol elf64)"
    by (rule wf_structI) (simp_all add: elf64_def word_codecs concat_split_at [of "[4, 1, 1, 2, 8]", simplified])
qed (simp_all add: elf64_def)

text \<open>A small image: a program header, the null section, two string tables and a symbol table that is not in order.\<close>

definition sample_section :: "32 word \<Rightarrow> 32 word \<Rightarrow> ulong \<Rightarrow> ulong \<Rightarrow> 32 word \<Rightarrow> elf_section" where
  "sample_section name ty off sz link =
     \<lparr>sh_name = name, sh_type = ty, sh_flags = 0, sh_addr = 0, sh_offset = off, sh_size = sz, sh_link = link, sh_addralign = 1\<rparr>"

definition sample_header :: elf_ehdr where
  "sample_header = \<lparr>e_magic = 0x464C457F, e_phoff = 64, e_shoff = 248, e_phentsize = 56, e_phnum = 1, e_shentsize = 64,
     e_shnum = 4, e_shstrndx = 1\<rparr>"

definition sample_symbols :: "elf_sym list" where
  "sample_symbols = [\<lparr>st_name = 0, st_value = 0, st_size = 0, st_info = 0, st_shndx = 0\<rparr>,
     \<lparr>st_name = 3, st_value = 0x40040, st_size = 16, st_info = 2, st_shndx = 1\<rparr>,
     \<lparr>st_name = 1, st_value = 0, st_size = 0, st_info = 4, st_shndx = 0\<rparr>,
     \<lparr>st_name = 1, st_value = 0x40000, st_size = 16, st_info = 2, st_shndx = 1\<rparr>]"

definition sample_sections :: "elf_section list" where
  "sample_sections = [sample_section 0 0 0 0 0, sample_section 1 3 120 27 0, sample_section 11 2 152 96 3, sample_section 19 3 147 5 0]"

abbreviation new_struct :: "'r struct \<Rightarrow> 'r \<Rightarrow> bytes" where
  "new_struct s r \<equiv> with_fields s r (replicate (size_of s) NUL)"

definition sample_strings :: bytes where
  "sample_strings = NUL # ''.shstrtab'' @ NUL # ''.symtab'' @ NUL # ''.strtab'' @ [NUL, NUL, CHR ''f'', NUL, CHR ''g'', NUL]"

definition sample_elf :: bytes where
  "sample_elf = new_struct (header elf64) sample_header @ replicate 56 NUL @ sample_strings @
     concat (map (new_struct (symbol elf64)) sample_symbols) @ concat (map (new_struct (sec elf64)) sample_sections)"

lemma elf64_sizes [simp]: "size_of (header elf64) = 64" "size_of (program elf64) = 56" "size_of (sec elf64) = 64" "size_of (symbol elf64) = 24"
  by (simp_all add: elf64_def)

lemma elf64_consts [simp]: "ELF_MAGIC elf64 = 0x464C457F" "SHT_NULL elf64 = 0" "SHT_SYMTAB elf64 = 2" "SHT_STRTAB elf64 = 3"
  "SHT_NOBITS elf64 = 8" "SHT_PROGBITS elf64 = 1"
  by (simp_all add: elf64_def)

lemma elf64_lens [simp]:
  "length (with_fields (header elf64) r (replicate 64 NUL)) = 64" "length (with_fields (sec elf64) r' (replicate 64 NUL)) = 64"
  "length (with_fields (symbol elf64) r'' (replicate 24 NUL)) = 24"
  "fields_of (header elf64) (with_fields (header elf64) r (replicate 64 NUL)) = r"
  "fields_of (sec elf64) (with_fields (sec elf64) r' (replicate 64 NUL)) = r'"
  "fields_of (symbol elf64) (with_fields (symbol elf64) r'' (replicate 24 NUL)) = r''"
  using elf64.wf_header elf64.wf_section elf64.wf_symbol unfolding wf_struct_def elf64_sizes by (simp_all only: length_replicate)

lemma length_sample_strings [simp]: "length sample_strings = 32"
  by (simp add: sample_strings_def)

lemma sample_elf_reads:
  "length sample_elf = 504"
  "rd (header elf64) sample_elf 0 0 = Done sample_header"
  "i < 4 \<Longrightarrow> rd (sec elf64) sample_elf 248 i = Done (sample_sections ! i)"
  "i < 4 \<Longrightarrow> rd (symbol elf64) sample_elf 152 i = Done (sample_symbols ! i)"
  "i < 32 \<Longrightarrow> sample_elf ! (120 + i) = sample_strings ! i"
proof -
  note defs = sample_elf_def sample_sections_def sample_symbols_def
  show "length sample_elf = 504" "rd (header elf64) sample_elf 0 0 = Done sample_header"
    by (simp_all add: defs rd_Done_iff)
  show "rd (sec elf64) sample_elf 248 i = Done (sample_sections ! i)" if "i < 4"
  proof -
    have "i = 0 \<or> i = 1 \<or> i = 2 \<or> i = 3"
      using that by linarith
    then show ?thesis
      by (elim disjE) (simp_all add: defs rd_Done_iff)
  qed
  show "rd (symbol elf64) sample_elf 152 i = Done (sample_symbols ! i)" if "i < 4"
  proof -
    have "i = 0 \<or> i = 1 \<or> i = 2 \<or> i = 3"
      using that by linarith
    then show ?thesis
      by (elim disjE) (simp_all add: defs rd_Done_iff)
  qed
  show "sample_elf ! (120 + i) = sample_strings ! i" if "i < 32"
    using that by (simp add: sample_elf_def nth_append)
qed

lemma sample_elf_valid:
  "validate elf64 (elf_info_new sample_elf 504) =
     Done (Some ((elf_info_new sample_elf 504)\<lparr>ei_ok := True, ei_pht := 64, ei_sht := 248\<rparr>))"
proof -
  note reads = sample_elf_reads(1-4) sample_header_def sample_sections_def sample_section_def sample_symbols_def
  have str: "check_strtab sample_elf (sample_section 1 3 120 27 0) = Done True"
    "check_strtab sample_elf (sample_section 19 3 147 5 0) = Done True"
    using sample_elf_reads(5) [of 0] sample_elf_reads(5) [of 26] sample_elf_reads(5) [of 27] sample_elf_reads(5) [of 31]
    by (simp_all add: check_strtab_def sample_section_def byte_at_def reads sample_strings_def)
  have sym: "check_symtab elf64 sample_elf 248 4 (sample_section 11 2 152 96 3) = Done True"
  proof -
    have "check_symbols elf64 sample_elf 152 5 (Suc (Suc (Suc (Suc 0)))) 0 = Done True"
      using sample_elf_reads(4) [of 0] sample_elf_reads(4) [of "Suc 0"] sample_elf_reads(4) [of "Suc (Suc 0)"]
        sample_elf_reads(4) [of "Suc (Suc (Suc 0))"] by (simp add: sample_symbols_def)
    then have "check_symbols elf64 sample_elf 152 5 4 0 = Done True"
      by (simp add: eval_nat_numeral)
    then show ?thesis
      by (simp add: check_symtab_def reads)
  qed
  have secs: "check_section elf64 sample_elf 248 4 (sample_section 1 3 120 27 0) i = Done True" if "i < 4" for i
  proof -
    have "i = 0 \<or> i = 1 \<or> i = 2 \<or> i = 3"
      using that by linarith
    then show ?thesis
      by (elim disjE) (simp_all add: check_section_def sample_elf_reads(1,3) sample_sections_def str sym, simp_all add: sample_section_def byte_at_def sample_elf_reads(1))
  qed
  have "check_sections elf64 sample_elf 248 4 (sample_section 1 3 120 27 0) (Suc (Suc (Suc (Suc 0)))) 0 = Done True"
    using secs [of 0] secs [of "Suc 0"] secs [of "Suc (Suc 0)"] secs [of "Suc (Suc (Suc 0))"] by simp
  then have "check_sections elf64 sample_elf 248 4 (sample_section 1 3 120 27 0) 4 0 = Done True"
    by (simp add: eval_nat_numeral)
  then show ?thesis
    using str(1) by (simp add: validate_def elf_info_new_def check_header_def sample_elf_reads(1-3) sample_header_def sample_sections_def, simp add: sample_section_def)
qed

theorem validated_names_found_witness:
  "\<exists>ei. validate elf64 (elf_info_new sample_elf 504) = Done (Some ei) \<and> ei_sht ei = 248 \<and>
     (\<exists>i. find_section elf64 ei ''.symtab'' = Done i) \<and> (\<exists>r. find_symbol elf64 ei ''f'' None = Done r)"
proof -
  let ?ei = "(elf_info_new sample_elf 504)\<lparr>ei_ok := True, ei_pht := 64, ei_sht := 248\<rparr>"
  have "\<exists>i. find_section elf64 ?ei ''.symtab'' = Done i" "\<exists>r. find_symbol elf64 ?ei ''f'' None = Done r"
    using validated_names_found [OF elf64.elf_layout_axioms sample_elf_valid, of "''.symtab''"]
      validated_names_found [OF elf64.elf_layout_axioms sample_elf_valid, of "''f''"] by auto
  then show ?thesis
    using sample_elf_valid by (intro exI [of _ ?ei]) simp
qed

end
