(* ===== verification/Elf_Symtab.thy ===== *)
theory Elf_Symtab
  imports Elf_Image "HOL-Library.Multiset"
begin

text \<open>
  The sorting of the symbol table in \<^verbatim>\<open>build/mkchickadeesymtab.cc\<close> of Lab 4, and that the kernel's \<^verbatim>\<open>lookup_symbol\<close> finds a
  symbol in the sorted table.
\<close>

unbundle bit_operations_syntax

section \<open>Definitions\<close>

definition special :: "elf_abi \<Rightarrow> elf_sym \<Rightarrow> bool" where
  "special abi s \<longleftrightarrow> STT_FUNC abi < st_info s AND STT_MASK abi"

definition symbol_less :: "elf_abi \<Rightarrow> elf_sym \<Rightarrow> elf_sym \<Rightarrow> bool" where
  "symbol_less abi a b =
     (let asp = special abi a; bsp = special abi b
      in if asp \<or> bsp then asp \<and> \<not> bsp
         else st_value a < st_value b \<or> st_value a = st_value b \<and> st_size a < st_size b)"

text \<open>\<^verbatim>\<open>std::stable_sort\<close>, and the loop that looks for an element that is less than the one before it.\<close>

fun insert_by :: "('a \<Rightarrow> 'a \<Rightarrow> bool) \<Rightarrow> 'a \<Rightarrow> 'a list \<Rightarrow> 'a list" where
  "insert_by lt x [] = [x]"
| "insert_by lt x (y # ys) = (if lt y x then y # insert_by lt x ys else x # y # ys)"

definition stable_sort :: "('a \<Rightarrow> 'a \<Rightarrow> bool) \<Rightarrow> 'a list \<Rightarrow> 'a list" where
  "stable_sort lt xs = foldr (insert_by lt) xs []"

fun in_order :: "('a \<Rightarrow> 'a \<Rightarrow> bool) \<Rightarrow> 'a list \<Rightarrow> bool" where
  "in_order lt (x # y # ys) \<longleftrightarrow> \<not> lt y x \<and> in_order lt (y # ys)"
| "in_order lt _ \<longleftrightarrow> True"

text \<open>The first symbol stays where it is; the others are sorted as the bytes that they are.\<close>

definition sort_symtab :: "elf_abi \<Rightarrow> elf_info \<Rightarrow> elf_info outcome" where
  "sort_symtab abi ei =
     obind (symtab abi ei) (\<lambda>ei.
       case ei_symtab ei of
         None \<Rightarrow> Done ei
       | Some st \<Rightarrow>
           if ei_nsymtab ei \<le> 2 then Done ei
           else let w = size_of (symbol abi); n = ei_nsymtab ei - 1;
                    lt = (\<lambda>a b. symbol_less abi (fields_of (symbol abi) a) (fields_of (symbol abi) b))
                in obind (bytes_at (ei_data ei) (st + w) (n * w)) (\<lambda>b.
                     let cs = unpack w (\<lambda>c. c) n b
                     in if in_order lt cs then Done ei
                        else obind (mem_write (st + w) (concat (stable_sort lt cs)) (ei_data ei)) (\<lambda>d.
                          Done (ei\<lparr>ei_data := d, ei_changed := True\<rparr>))))"

text \<open>The symbols of the table that \<^verbatim>\<open>symtab()\<close> found, and the kernel's view of them.\<close>

definition symbols :: "elf_abi \<Rightarrow> elf_info \<Rightarrow> elf_sym list" where
  "symbols abi ei = (case ei_symtab ei of None \<Rightarrow> []
     | Some st \<Rightarrow> unpack (size_of (symbol abi)) (fields_of (symbol abi)) (ei_nsymtab ei) (drop st (ei_data ei)))"

definition kernel_view :: "elf_sym list \<Rightarrow> nat \<Rightarrow> elf_symtabref" where
  "kernel_view ss str = \<lparr>sym = map elf_symbol.truncate ss, strtab = str\<rparr>"

section \<open>Sorting\<close>

definition sym_key :: "elf_abi \<Rightarrow> elf_sym \<Rightarrow> nat" where
  "sym_key abi s = (if special abi s then 0 else Suc (unat (st_value s) * 2 ^ 64 + unat (st_size s)))"

lemma lex_less:
  fixes a b c d m :: nat
  assumes "c < m" "d < m"
  shows "a * m + c < b * m + d \<longleftrightarrow> a < b \<or> a = b \<and> c < d"
proof (cases a b rule: linorder_cases)
  case less
  then have "Suc a * m \<le> b * m"
    by (intro mult_right_mono) auto
  then show ?thesis
    using less assms by simp
next
  case greater
  then have "Suc b * m \<le> a * m"
    by (intro mult_right_mono) auto
  then show ?thesis
    using greater assms by simp
qed simp

text \<open>\<^verbatim>\<open>symbol_less\<close> is a strict weak order, as \<^verbatim>\<open>std::stable_sort\<close> needs it.\<close>

lemma symbol_less_key: "symbol_less abi a b \<longleftrightarrow> sym_key abi a < sym_key abi b"
  using lex_less [of "unat (st_size a)" "2 ^ 64" "unat (st_size b)" "unat (st_value a)" "unat (st_value b)"]
    unsigned_less [of "st_size a", where ?'a = nat] unsigned_less [of "st_size b", where ?'a = nat]
  by (auto simp: symbol_less_def sym_key_def Let_def word_less_nat_alt word_unat_eq_iff)

lemma stable_sort_key:
  assumes "\<And>a b. lt a b \<longleftrightarrow> key a < (key b :: nat)"
  shows "stable_sort lt xs = sort_key key xs"
proof -
  have "insert_by lt x ys = insort_key key x ys" for x ys
    by (induction ys) (auto simp: assms not_less)
  then have "insert_by lt = insort_key key"
    by blast
  then show ?thesis
    by (simp add: stable_sort_def sort_key_def)
qed

lemma in_order_key:
  assumes "\<And>a b. lt a b \<longleftrightarrow> key a < (key b :: nat)"
  shows "in_order lt xs \<longleftrightarrow> sorted (map key xs)"
  by (induction xs rule: induct_list012) (use assms order_trans in \<open>fastforce simp: not_less\<close>)+

lemma unpack_map: "unpack w f n bs = map f (unpack w (\<lambda>c. c) n bs)"
  by (induction n arbitrary: bs) auto

lemma unpack_chunks: "n * w \<le> length bs \<Longrightarrow> list_all (\<lambda>c. length c = w) (unpack w (\<lambda>c. c) n bs)"
proof (induction n arbitrary: bs)
  case (Suc n)
  have "n * w \<le> length (drop w bs)"
    using Suc.prems by simp
  then have "list_all (\<lambda>c. length c = w) (unpack w (\<lambda>c. c) n (drop w bs))"
    by (rule Suc.IH)
  moreover have "length (take w bs) = w"
    using Suc.prems by simp
  ultimately show ?case
    by simp
qed simp

lemma unpack_concat: "list_all (\<lambda>c. length c = w) cs \<Longrightarrow> unpack w (\<lambda>c. c) (length cs) (concat cs @ rest) = cs"
  by (induction cs) auto

lemma unpack_take: "n * w \<le> m \<Longrightarrow> unpack w f n (take m bs) = unpack w f n bs"
  by (induction n arbitrary: bs m) (auto simp: min_def drop_take)

lemma map_sort_key: "map f (sort_key (\<lambda>x. key (f x)) xs) = sort_key key (map f xs)"
proof -
  have "map f (insort_key (\<lambda>x. key (f x)) x ys) = insort_key key (f x) (map f ys)" for x ys
    by (induction ys) auto
  then show ?thesis
    by (induction xs) simp_all
qed

text \<open>The table after \<open>sort_symtab\<close>: the first symbol, then the others in order, those that compare equal as they were.\<close>

lemma sort_symtab_sorts:
  assumes "wf_struct (symbol abi)" "ei_symtab ei = Some st" "st + ei_nsymtab ei * size_of (symbol abi) \<le> length (ei_data ei)"
  obtains ei' where "sort_symtab abi ei = Done ei'" "length (ei_data ei') = length (ei_data ei)"
    "symbols abi ei' = take 1 (symbols abi ei) @ sort_key (sym_key abi) (drop 1 (symbols abi ei))"
proof (cases "ei_nsymtab ei \<le> 2")
  case True
  have "sort_key (sym_key abi) (drop 1 (symbols abi ei)) = drop 1 (symbols abi ei)"
    using True assms(2) by (intro sort_key_id_if_sorted sorted01) (simp add: symbols_def)
  then show ?thesis
    using True assms(2) by (intro that [of ei]) (simp_all add: sort_symtab_def symtab_def)
next
  case False
  then obtain n where n: "ei_nsymtab ei = Suc n"
    by (cases "ei_nsymtab ei") auto
  let ?w = "size_of (symbol abi)" and ?f = "fields_of (symbol abi)" and ?d = "ei_data ei"
  let ?key = "\<lambda>b. sym_key abi (?f b)"
  define cs where "cs = unpack ?w (\<lambda>c. c) n (drop (st + ?w) ?d)"
  have range: "st + ?w + n * ?w \<le> length ?d"
    using assms(3) n by simp
  have len: "length cs = n" "list_all (\<lambda>c. length c = ?w) cs" "length (concat (sort_key ?key cs)) = n * ?w"
  proof -
    show "length cs = n" and chunks: "list_all (\<lambda>c. length c = ?w) cs"
      unfolding cs_def using range by (simp, intro unpack_chunks, simp)
    have "length (concat xs) = length xs * ?w" if "list_all (\<lambda>c. length c = ?w) xs" for xs :: "bytes list"
      using that by (induction xs) auto
    then show "length (concat (sort_key ?key cs)) = n * ?w"
      using chunks \<open>length cs = n\<close> by (simp add: list_all_iff)
  qed
  have syms: "symbols abi ei = ?f (take ?w (drop st ?d)) # map ?f cs"
    using assms(2) n unpack_map [of ?w ?f n] by (simp add: symbols_def cs_def add.commute)
  have key: "symbol_less abi (?f a) (?f b) \<longleftrightarrow> ?key a < ?key b" for a b
    by (rule symbol_less_key)
  have step: "sort_symtab abi ei = (if sorted (map ?key cs) then Done ei
      else Done (ei\<lparr>ei_data := take (st + ?w) ?d @ concat (sort_key ?key cs) @ drop (st + ?w + n * ?w) ?d, ei_changed := True\<rparr>))"
    using False assms(2) n range len(3) unpack_take [of n ?w "n * ?w" "\<lambda>c. c" "drop (st + ?w) ?d"]
    by (simp add: sort_symtab_def symtab_def Let_def bytes_at_def cs_def [symmetric] stable_sort_key [OF key] in_order_key [OF key]
        mem_write_def)
  show ?thesis
  proof (cases "sorted (map ?key cs)")
    case True
    then have "sort_key (sym_key abi) (map ?f cs) = map ?f cs"
      by (intro sort_key_id_if_sorted) (simp add: comp_def)
    then show ?thesis
      using True step syms by (intro that [of ei]) simp_all
  next
    case False
    let ?ei = "ei\<lparr>ei_data := take (st + ?w) ?d @ concat (sort_key ?key cs) @ drop (st + ?w + n * ?w) ?d, ei_changed := True\<rparr>"
    have "unpack ?w (\<lambda>c. c) n (concat (sort_key ?key cs) @ drop (st + ?w + n * ?w) ?d) = sort_key ?key cs"
      using unpack_concat [of ?w "sort_key ?key cs"] len(1,2) by (simp add: list_all_iff)
    then have "symbols abi ?ei = ?f (take ?w (drop st ?d)) # sort_key (sym_key abi) (map ?f cs)"
      using assms(2) n range unpack_map [of ?w ?f n] map_sort_key [of ?f "sym_key abi" cs]
      by (simp add: symbols_def drop_take)
    then show ?thesis
      using False step syms len(3) range by (intro that [of ?ei]) simp_all
  qed
qed

section \<open>The kernel finds a symbol of the sorted table\<close>

text \<open>The binary search finds a symbol that covers the address if the symbols before it are below the address and those after it above.\<close>

lemma lookup_loop_split:
  assumes "sym_covers ss addr i" "\<forall>j<i. st_value (ss ! j) < addr" "\<forall>j. i < j \<and> j < length ss \<longrightarrow> addr < st_value (ss ! j)"
    "l \<le> i" "i < r" "r \<le> length ss"
  shows "lookup_loop ss addr l r = Some i"
  using assms
proof (induction ss addr l r rule: lookup_loop.induct)
  case (1 ss addr l r)
  let ?m = "l + (r - l) div 2"
  have m: "l < r" "?m < r" "l \<le> ?m"
    using 1(6,7) by auto
  have vi: "st_value (ss ! i) \<le> addr"
    using 1(3) by (simp add: sym_covers_def)
  show ?case
  proof (cases ?m i rule: linorder_cases)
    case less
    then have "st_value (ss ! Suc ?m) \<le> addr"
      using 1(4) vi by (cases "Suc ?m = i") (auto intro: less_imp_le)
    then have "\<not> sym_covers ss addr ?m"
      using less 1(7,8) by (auto simp: sym_covers_def)
    then show ?thesis
      using less m 1 by (subst lookup_loop.simps) (simp add: Let_def)
  next
    case equal
    then show ?thesis
      using 1(3) m by (subst lookup_loop.simps) (simp add: Let_def)
  next
    case greater
    then have "addr < st_value (ss ! ?m)"
      using 1(5,8) m by auto
    then have "\<not> sym_covers ss addr ?m" "\<not> st_value (ss ! ?m) < addr"
      by (auto simp: sym_covers_def)
    then show ?thesis
      using greater m 1 by (subst lookup_loop.simps) (simp add: Let_def)
  qed
qed

lemma truncate_sel [simp]:
  "st_value (elf_symbol.truncate s) = st_value s" "st_size (elf_symbol.truncate s) = st_size s"
  "st_name (elf_symbol.truncate s) = st_name s"
  by (simp_all add: elf_symbol.truncate_def)

lemma lookup_symbol_split:
  assumes "\<forall>t\<in>set as. st_value t < addr" "\<forall>t\<in>set bs. addr < st_value t" "st_value s \<noteq> 0" "st_value s \<le> addr"
    "bs = [] \<longrightarrow> addr < st_value s + 0x1000" "st_size s = 0 \<or> addr \<le> st_value s + st_size s"
  shows "fst (lookup_symbol k (kernel_view (as @ s # bs) str) addr m) = Some (str + unat (st_name s), st_value s)"
proof -
  let ?ss = "map elf_symbol.truncate (as @ s # bs)"
  have nth: "?ss ! length as = elf_symbol.truncate s"
    by (simp add: nth_append)
  have above: "\<forall>j. length as < j \<and> j < length ?ss \<longrightarrow> addr < st_value (?ss ! j)"
    using assms(2) by (auto simp: nth_append nth_Cons split: nat.split)
  moreover have "\<forall>j<length as. st_value (?ss ! j) < addr"
    using assms(1) by (simp add: nth_append)
  moreover have "sym_covers ?ss addr (length as)"
    using assms(4-6) above nth by (auto simp: sym_covers_def)
  ultimately have "lookup_loop ?ss addr 0 (length ?ss) = Some (length as)"
    by (intro lookup_loop_split) simp_all
  then show ?thesis
    using nth assms(3) by (simp add: fst_lookup_symbol kernel_view_def)
qed

lemma sort_key_split:
  obtains as bs where "sort_key key (xs @ s # ys) = as @ s # bs" "set (as @ bs) = set (xs @ ys)"
    "\<forall>t\<in>set as. key t \<le> key s" "\<forall>t\<in>set bs. key s \<le> key t"
proof -
  have "s \<in> set (sort_key key (xs @ s # ys))"
    by simp
  then obtain as bs where *: "sort_key key (xs @ s # ys) = as @ s # bs"
    by (metis split_list)
  have "mset (as @ s # bs) = mset (xs @ s # ys)"
    unfolding * [symmetric] by (rule mset_sort)
  then have "set (as @ bs) = set (xs @ ys)"
    by (intro mset_eq_setD) simp
  moreover have "sorted (map key (as @ s # bs))"
    unfolding * [symmetric] by (rule sorted_sort_key)
  ultimately show ?thesis
    using * by (intro that [of as bs]) (auto simp: sorted_append)
qed

lemma symtab_range:
  assumes "validate abi (elf_info_new d cap) = Done (Some ei0)" "SHT_SYMTAB abi \<noteq> SHT_STRTAB abi"
    "symtab abi ei0 = Done ei" "symbols abi ei \<noteq> []"
  obtains st where "ei_symtab ei = Some st" "st + ei_nsymtab ei * size_of (symbol abi) \<le> length (ei_data ei)"
proof -
  have v: "elf_valid abi ei0" "ei_symtab ei0 = None" "ei_nsymtab ei0 = 0"
    using validate_valid [OF assms(1) _ assms(2)] by (simp_all add: elf_info_new_def)
  have ok: "table_ok abi ei"
    using symtab_valid [OF v] assms(3) by (metis outcome.inject)
  obtain st n where st: "ei_symtab ei = Some st" "ei_nsymtab ei = Suc n"
    using assms(4) by (cases "ei_symtab ei"; cases "ei_nsymtab ei") (auto simp: symbols_def)
  then obtain r where "rd (symbol abi) (ei_data ei) st n = Done r"
    using ok unfolding table_ok_def symbol_name_def by (fastforce simp: obind_Done_iff)
  then show ?thesis
    using st by (intro that [of st]) (simp_all add: rd_Done_iff)
qed

text \<open>
  C32. The symbol table that the tool leaves is one in which the kernel finds a symbol: take any image that is accepted, and in its
  symbol table a function or object \<open>s\<close> such that every other symbol is below \<open>s\<close> or above the address, special symbols (files
  and sections) are below \<open>s\<close>, and \<open>s\<close> reaches the address.  Then \<^verbatim>\<open>sort_symtab\<close> succeeds, and \<^verbatim>\<open>lookup_symbol\<close> on the sorted
  table answers with \<open>s\<close>.  The condition on the other symbols leaves out tables with a section symbol above \<open>s\<close>
  (\<open>lookup_misses_behind_section\<close> below) and with a second symbol between \<open>s\<close> and the address, its own address included.
\<close>

theorem sorted_symbol_found:
  assumes "elf_layout abi" "validate abi (elf_info_new d cap) = Done (Some ei0)" "symtab abi ei0 = Done ei"
    "symbols abi ei = z # xs @ s # ys" "st_value z = 0" "st_value s \<noteq> 0" "\<not> special abi s"
    "\<forall>t\<in>set (xs @ ys). st_value t < st_value s \<or> \<not> special abi t \<and> addr < st_value t"
    "st_value s \<le> addr" "st_size s = 0 \<or> addr \<le> st_value s + st_size s"
    "(\<exists>t\<in>set (xs @ ys). addr < st_value t) \<or> addr < st_value s + 0x1000"
  shows "\<exists>ei'. sort_symtab abi ei = Done ei' \<and>
    fst (lookup_symbol k (kernel_view (symbols abi ei') str) addr m) = Some (str + unat (st_name s), st_value s)"
proof -
  have "SHT_SYMTAB abi \<noteq> SHT_STRTAB abi"
    using elf_layout.section_types [OF assms(1)] by auto
  then obtain st where "ei_symtab ei = Some st" "st + ei_nsymtab ei * size_of (symbol abi) \<le> length (ei_data ei)"
    using symtab_range [OF assms(2) _ assms(3)] assms(4) by auto
  then obtain ei' where ei': "sort_symtab abi ei = Done ei'" "symbols abi ei' = z # sort_key (sym_key abi) (xs @ s # ys)"
    by (rule sort_symtab_sorts [OF elf_layout.wf_symbol [OF assms(1)]]) (use assms(4) in simp)
  obtain as bs where sorted: "sort_key (sym_key abi) (xs @ s # ys) = as @ s # bs" "set (as @ bs) = set (xs @ ys)"
    "\<forall>t\<in>set as. sym_key abi t \<le> sym_key abi s" "\<forall>t\<in>set bs. sym_key abi s \<le> sym_key abi t"
    by (rule sort_key_split)
  have before: "st_value t < st_value s" if "t \<in> set as" for t
  proof -
    have "\<not> symbol_less abi s t"
      using sorted(3) that by (simp add: symbol_less_key not_less)
    moreover have "st_value t < st_value s \<or> \<not> special abi t \<and> addr < st_value t"
      using assms(8) sorted(2) that by auto
    ultimately show ?thesis
      using assms(7,9) by (auto simp: symbol_less_def Let_def)
  qed
  have after: "addr < st_value t" if "t \<in> set bs" for t
  proof -
    have "\<not> symbol_less abi t s"
      using sorted(4) that by (simp add: symbol_less_key not_less)
    moreover have "st_value t < st_value s \<or> \<not> special abi t \<and> addr < st_value t"
      using assms(8) sorted(2) that by auto
    ultimately show ?thesis
      using assms(7) by (auto simp: symbol_less_def Let_def split: if_splits)
  qed
  have "bs = [] \<longrightarrow> addr < st_value s + 0x1000"
  proof
    assume "bs = []"
    then have "\<forall>t\<in>set (xs @ ys). st_value t < addr"
      using before sorted(2) assms(9) by (auto intro: order.strict_trans2)
    then show "addr < st_value s + 0x1000"
      using assms(11) by (meson order.asym)
  qed
  moreover have "\<forall>t\<in>set (z # as). st_value t < addr"
    using before assms(5,6,9) by (auto intro: order.strict_trans2 simp: word_neq_0_conv)
  ultimately have "fst (lookup_symbol k (kernel_view ((z # as) @ s # bs) str) addr m) = Some (str + unat (st_name s), st_value s)"
    using after assms(6,9,10) by (intro lookup_symbol_split) auto
  then show ?thesis
    using ei' sorted(1) by (intro exI [of _ ei']) simp
qed

lemma sample_elf_drop: "k \<le> 32 \<Longrightarrow> drop (120 + k) sample_elf = drop k sample_strings @ drop 152 sample_elf"
  by (simp add: sample_elf_def)

abbreviation sample_ei :: elf_info where
  "sample_ei \<equiv> (elf_info_new sample_elf 504)\<lparr>ei_ok := True, ei_pht := 64, ei_sht := 248\<rparr>"

lemma sample_symtab: "symtab elf64 sample_ei = Done (sample_ei\<lparr>ei_symtab := Some 152, ei_nsymtab := 4, ei_symstrtab := 147\<rparr>)"
proof -
  have h: "e_shnum sample_header = 4" "e_shstrndx sample_header = 1"
    by (simp_all add: sample_header_def)
  have secs: "rd (sec elf64) sample_elf 248 0 = Done (sample_section 0 0 0 0 0)"
    "rd (sec elf64) sample_elf 248 1 = Done (sample_section 1 3 120 27 0)"
    "rd (sec elf64) sample_elf 248 2 = Done (sample_section 11 2 152 96 3)"
    "rd (sec elf64) sample_elf 248 3 = Done (sample_section 19 3 147 5 0)"
    by (simp_all add: sample_elf_reads(3) sample_sections_def)
  have names: "section_name elf64 sample_ei 120 0 = Done (drop 120 sample_elf)"
    "section_name elf64 sample_ei 120 (Suc 0) = Done (drop 121 sample_elf)"
    "section_name elf64 sample_ei 120 (Suc (Suc 0)) = Done (drop 131 sample_elf)"
    using secs by (simp_all add: section_name_def elf_info_new_def sample_section_def numeral_2_eq_2 [symmetric])
  have strs: "strcmp_eq (drop 120 sample_elf) (''.symtab'' @ [NUL]) = Done False"
    "strcmp_eq (drop 121 sample_elf) (''.symtab'' @ [NUL]) = Done False"
    "strcmp_eq (drop 131 sample_elf) (''.symtab'' @ [NUL]) = Done True"
    using sample_elf_drop [of 0] sample_elf_drop [of 1] sample_elf_drop [of 11] by (simp_all add: sample_strings_def)
  have "find_name (section_name elf64 sample_ei 120) ''.symtab'' (Suc (Suc (Suc (Suc 0)))) 0 = Done (Some 2)"
    using names strs by simp
  then have name: "find_name (section_name elf64 sample_ei 120) ''.symtab'' 4 0 = Done (Some 2)"
    by (simp add: eval_nat_numeral)
  have "shstrtab elf64 sample_ei = Done 120"
    using secs(2) by (simp add: shstrtab_def elf_info_new_def sample_elf_reads(2) h sample_section_def)
  then have "find_section elf64 sample_ei ''.symtab'' = Done 2"
    using name h by (simp add: find_section_def sample_elf_reads(2) elf_info_new_def)
  then show ?thesis
    using secs(3,4) by (simp add: symtab_def elf_info_new_def sample_section_def)
qed

lemma sample_table:
  "symbols elf64 (sample_ei\<lparr>ei_symtab := Some 152, ei_nsymtab := 4, ei_symstrtab := 147\<rparr>) = sample_symbols"
proof -
  have rds: "fields_of (symbol elf64) (take 24 (drop (152 + i * 24) sample_elf)) = sample_symbols ! i" if "i < 4" for i
    using sample_elf_reads(4) [OF that] by (simp add: rd_Done_iff)
  have "unpack 24 (fields_of (symbol elf64)) (Suc (Suc (Suc (Suc 0)))) (drop 152 sample_elf) = sample_symbols"
    using rds [of 0] rds [of 1] rds [of 2] rds [of 3] by (simp add: sample_symbols_def)
  then show ?thesis
    by (simp add: symbols_def elf_info_new_def eval_nat_numeral)
qed

theorem sorted_symbol_found_witness:
  "\<exists>ei'. sort_symtab elf64 (sample_ei\<lparr>ei_symtab := Some 152, ei_nsymtab := 4, ei_symstrtab := 147\<rparr>) = Done ei' \<and>
     (\<forall>k m. fst (lookup_symbol k (kernel_view (symbols elf64 ei') 0x1001000) 0x40010 m) = Some (0x1001001, 0x40000))"
proof -
  have special: "\<not> special elf64 (sample_symbols ! 3)" "\<not> special elf64 (sample_symbols ! 1)"
    by (simp_all add: special_def sample_symbols_def elf64_def)
  have "sample_symbols = sample_symbols ! 0 # [sample_symbols ! 1, sample_symbols ! 2] @ sample_symbols ! 3 # []"
    by (simp add: sample_symbols_def)
  then have tab: "symbols elf64 (sample_ei\<lparr>ei_symtab := Some 152, ei_nsymtab := 4, ei_symstrtab := 147\<rparr>) =
      sample_symbols ! 0 # [sample_symbols ! 1, sample_symbols ! 2] @ sample_symbols ! 3 # []"
    using sample_table by simp
  have found: "\<exists>ei'. sort_symtab elf64 (sample_ei\<lparr>ei_symtab := Some 152, ei_nsymtab := 4, ei_symstrtab := 147\<rparr>) = Done ei' \<and>
     fst (lookup_symbol k (kernel_view (symbols elf64 ei') 0x1001000) 0x40010 m) = Some (0x1001001, 0x40000)" for k m
    using sorted_symbol_found [OF elf64.elf_layout_axioms sample_elf_valid sample_symtab tab,
        where addr = "0x40010" and str = "0x1001000" and k = k and m = m] special
    by (simp add: sample_symbols_def)
  then obtain ei' where ei': "sort_symtab elf64 (sample_ei\<lparr>ei_symtab := Some 152, ei_nsymtab := 4, ei_symstrtab := 147\<rparr>) = Done ei'"
    by blast
  show ?thesis
    using found unfolding ei' by auto
qed

text \<open>
  Section symbols, which linkers keep in an executable, have the addresses of their sections and are sorted in front of all functions:
  the binary search meets one that is above the address, turns left, and misses the function.
\<close>

lemma lookup_misses_behind_section:
  defines "sec_sym \<equiv> \<lparr>st_name = 0, st_value = 0x50000, st_size = 0, st_info = 3, st_shndx = 2\<rparr>"
    and "f_sym \<equiv> \<lparr>st_name = 1, st_value = 0x40000, st_size = 0x30, st_info = 2, st_shndx = 1\<rparr>"
  shows "in_order (symbol_less elf64) [sec_sym, f_sym]"
    "fst (lookup_symbol k (kernel_view [sample_symbols ! 0, sec_sym, f_sym] str) 0x40010 m) = None"
    "fst (lookup_symbol k (kernel_view [sample_symbols ! 0, f_sym] str) 0x40010 m) = Some (Suc str, 0x40000)"
proof -
  show "in_order (symbol_less elf64) [sec_sym, f_sym]"
    by (simp add: symbol_less_def special_def elf64_def sec_sym_def f_sym_def Let_def)
  show "fst (lookup_symbol k (kernel_view [sample_symbols ! 0, sec_sym, f_sym] str) 0x40010 m) = None"
    by (simp add: fst_lookup_symbol kernel_view_def lookup_loop.simps sym_covers_def Let_def sample_symbols_def sec_sym_def f_sym_def)
  show "fst (lookup_symbol k (kernel_view [sample_symbols ! 0, f_sym] str) 0x40010 m) = Some (Suc str, 0x40000)"
    using lookup_symbol_split [where as = "[sample_symbols ! 0]" and addr = "0x40010" and bs = "[]" and s = f_sym] by (simp add: sample_symbols_def f_sym_def)
qed

end
