(* ===== verification/Elf_Tool.thy ===== *)
theory Elf_Tool
  imports Elf_Symtab
begin

text \<open>
  The rest of \<^verbatim>\<open>build/mkchickadeesymtab.cc\<close> of Lab 4: moving the sections to align the symbol table, filling in the kernel's
  reference to the table, marking the table as allocated, adding a program header for it, and \<^verbatim>\<open>main\<close> between reading the
  arguments and the image and writing the result.  The messages are left out.  The counts of the header are read once per
  loop: the tables that a loop changes do not overlap the header.  The property is that moving the sections keeps the contents of
  each of them.
\<close>

unbundle bit_operations_syntax

section \<open>shift_sections\<close>

text \<open>The section has bytes in the file.\<close>

definition occupies :: "elf_abi \<Rightarrow> elf_section \<Rightarrow> bool" where
  "occupies abi sh \<longleftrightarrow> sh_type sh \<noteq> SHT_NULL abi \<and> sh_type sh \<noteq> SHT_NOBITS abi"

definition moved_program :: "ulong \<Rightarrow> ulong \<Rightarrow> elf_phdr \<Rightarrow> elf_phdr option" where
  "moved_program offset diff ph =
     (if offset \<le> p_offset ph then Some (ph\<lparr>p_offset := p_offset ph + diff\<rparr>)
      else if offset < p_offset ph + p_filesz ph then None else Some ph)"

definition moved_section :: "elf_abi \<Rightarrow> ulong \<Rightarrow> ulong \<Rightarrow> elf_section \<Rightarrow> elf_section option" where
  "moved_section abi offset diff sh =
     (if offset \<le> sh_offset sh then Some (sh\<lparr>sh_offset := sh_offset sh + diff\<rparr>)
      else if occupies abi sh \<and> offset < sh_offset sh + sh_size sh then None else Some sh)"

text \<open>
  The two loops: entry \<open>i\<close> of the table at \<open>t\<close> is replaced by \<open>f\<close> of it, and \<open>None\<close> is \<^verbatim>\<open>exit(1)\<close>.  Where the code leaves the entry as it
  is, it is written back unchanged.
\<close>

fun update_entries :: "'r struct \<Rightarrow> ('r \<Rightarrow> 'r option) \<Rightarrow> nat \<Rightarrow> nat \<Rightarrow> nat \<Rightarrow> bytes \<Rightarrow> bytes outcome" where
  "update_entries s f t 0 i d = Done d"
| "update_entries s f t (Suc n) i d =
     obind (rd s d t i) (\<lambda>r.
       case f r of
         None \<Rightarrow> Exit 1
       | Some r' \<Rightarrow> obind (wr s d t i r') (\<lambda>d. update_entries s f t n (Suc i) d))"

definition insert_zeros :: "bytes \<Rightarrow> nat \<Rightarrow> nat \<Rightarrow> bytes" where
  "insert_zeros d off n = take off d @ replicate n NUL @ drop off d"

definition shift_sections :: "elf_abi \<Rightarrow> elf_info \<Rightarrow> ulong \<Rightarrow> ulong \<Rightarrow> elf_info outcome" where
  "shift_sections abi ei offset diff =
     (if \<not> (unat offset < length (ei_data ei) \<and> 0 < sint diff) then Abort
      else obind (rd (header abi) (ei_data ei) 0 0) (\<lambda>eh.
        if offset \<le> e_phoff eh + of_nat (unat (e_phnum eh) * size_of (program abi)) then Exit 1
        else obind (update_entries (program abi) (moved_program offset diff) (ei_pht ei) (unat (e_phnum eh)) 0 (ei_data ei)) (\<lambda>d.
          obind (update_entries (sec abi) (moved_section abi offset diff) (ei_sht ei) (unat (e_shnum eh)) 0 d) (\<lambda>d.
            obind (grow abi (length d + unat diff) (ei\<lparr>ei_data := d\<rparr>)) (\<lambda>ei.
              let d = insert_zeros d (unat offset) (unat diff);
                  ei = ei\<lparr>ei_data := d, ei_changed := True\<rparr>
              in obind (rd (header abi) d 0 0) (\<lambda>eh.
                   if offset \<le> e_shoff eh
                   then obind (wr (header abi) d 0 0 (eh\<lparr>e_shoff := e_shoff eh + diff\<rparr>)) (\<lambda>d.
                     Done (ei\<lparr>ei_data := d, ei_sht := unat (e_shoff eh + diff)\<rparr>))
                   else Done ei))))))"

section \<open>rewrite_symtabref\<close>

text \<open>One symbol of the name: the load address, the image, and 1 if the symbol is a reference.\<close>

definition rewrite_one ::
  "elf_abi \<Rightarrow> ulong \<Rightarrow> ulong \<Rightarrow> elf_info \<Rightarrow> ulong \<Rightarrow> nat \<Rightarrow> (ulong \<times> elf_info \<times> nat) outcome" where
  "rewrite_one abi strtab_off sz ei loadaddr i =
     (case ei_symtab ei of
        None \<Rightarrow> Undef
      | Some st \<Rightarrow>
          obind (rd (symbol abi) (ei_data ei) st i) (\<lambda>s.
          obind (rd (header abi) (ei_data ei) 0 0) (\<lambda>eh.
            if st_info s AND STT_MASK abi = STT_OBJECT abi \<and> st_shndx s < e_shnum eh
            then if unat (st_size s) \<noteq> symtabref_size abi then Exit 1
                 else obind (rd (sec abi) (ei_data ei) (ei_sht ei) (unat (st_shndx s))) (\<lambda>sh.
                   if sh_type sh \<noteq> SHT_PROGBITS abi \<or> st_value s < sh_addr sh \<or>
                      sh_addr sh + sh_size sh - of_nat (symtabref_size abi) \<le> st_value s then Exit 1
                   else let stref_off = unat (sh_offset sh + (st_value s - sh_addr sh))
                        in obind (if loadaddr = 0 then obind (bytes_at (ei_data ei) stref_off 8) (\<lambda>b. Done (word_dec b)) else Done loadaddr)
                           (\<lambda>loadaddr.
                             obind (bytes_at (ei_data ei) stref_off (symtabref_size abi)) (\<lambda>b.
                               let x = symtabref_bytes abi loadaddr (of_nat (ei_nsymtab ei)) (loadaddr + strtab_off) sz
                               in if b = x then Done (loadaddr, ei, 1)
                                  else obind (mem_write stref_off x (ei_data ei)) (\<lambda>d.
                                    Done (loadaddr, ei\<lparr>ei_data := d, ei_changed := True\<rparr>, 1)))))
            else Done (loadaddr, ei, 0))))"

lemma rewrite_one_keeps:
  "rewrite_one abi so sz ei la i = Done (la', ei', k) \<Longrightarrow>
   ei_symtab ei' = ei_symtab ei \<and> ei_symtab ei \<noteq> None \<and> ei_nsymtab ei' = ei_nsymtab ei"
  by (auto simp: rewrite_one_def Let_def obind_Done_iff split: option.splits if_splits)

lemma find_name_range: "find_name nm name n i = Done (Some j) \<Longrightarrow> i \<le> j \<and> j < i + n"
  by (induction n arbitrary: i) (fastforce simp: obind_Done_iff split: if_splits)+

lemma find_symbol_after:
  assumes "find_symbol abi ei name (Some i) = Done (Some j, ei')" "ei_symtab ei \<noteq> None"
  shows "ei' = ei \<and> i < j \<and> j < ei_nsymtab ei"
  using assms by (auto simp: find_symbol_def symtab_def obind_Done_iff dest!: find_name_range)

function rewrite_loop ::
  "elf_abi \<Rightarrow> string \<Rightarrow> ulong \<Rightarrow> ulong \<Rightarrow> nat option \<Rightarrow> elf_info \<Rightarrow> ulong \<Rightarrow> nat \<Rightarrow> (nat \<times> ulong \<times> elf_info) outcome" where
  "rewrite_loop abi name strtab_off sz None ei loadaddr nfound = Done (nfound, loadaddr, ei)"
| "rewrite_loop abi name strtab_off sz (Some i) ei loadaddr nfound =
     obind (rewrite_one abi strtab_off sz ei loadaddr i) (\<lambda>(loadaddr, ei, k).
       obind (find_symbol abi ei name (Some i)) (\<lambda>(r, ei).
         rewrite_loop abi name strtab_off sz r ei loadaddr (nfound + k)))"
  by pat_completeness auto
termination
  by (relation "measure (\<lambda>(abi, name, so, sz, r, ei, la, n). case r of None \<Rightarrow> 0 | Some i \<Rightarrow> Suc (ei_nsymtab ei - i))")
    (auto split: option.split dest!: rewrite_one_keeps dest: find_symbol_after)

definition rewrite_symtabref ::
  "elf_abi \<Rightarrow> elf_info \<Rightarrow> string \<Rightarrow> ulong \<Rightarrow> ulong \<Rightarrow> ulong \<Rightarrow> (nat \<times> ulong \<times> elf_info) outcome" where
  "rewrite_symtabref abi ei name loadaddr strtab_off sz =
     obind (find_symbol abi ei name None) (\<lambda>(r, ei). rewrite_loop abi name strtab_off sz r ei loadaddr 0)"

section \<open>main\<close>

fun first_offset_from :: "elf_abi \<Rightarrow> bytes \<Rightarrow> nat \<Rightarrow> nat \<Rightarrow> nat \<Rightarrow> ulong \<Rightarrow> ulong outcome" where
  "first_offset_from abi d sht 0 i off = Done off"
| "first_offset_from abi d sht (Suc n) i off =
     obind (rd (sec abi) d sht i) (\<lambda>sh. first_offset_from abi d sht n (Suc i) (if occupies abi sh then min off (sh_offset sh) else off))"

definition first_offset :: "elf_abi \<Rightarrow> elf_info \<Rightarrow> ulong outcome" where
  "first_offset abi ei =
     obind (rd (header abi) (ei_data ei) 0 0) (\<lambda>eh.
       first_offset_from abi (ei_data ei) (ei_sht ei) (unat (e_shnum eh)) 0 (- 1))"

text \<open>The checks on the links of the symbol table, and its alignment.\<close>

definition align_symtab :: "elf_abi \<Rightarrow> elf_info \<Rightarrow> nat \<Rightarrow> elf_info outcome" where
  "align_symtab abi ei ndx =
     obind (rd (header abi) (ei_data ei) 0 0) (\<lambda>eh.
     obind (rd (sec abi) (ei_data ei) (ei_sht ei) ndx) (\<lambda>sh.
       if unat (e_shnum eh) \<le> unat (sh_link sh) \<or> unat (sh_link sh) \<noteq> ndx + 1 then Exit 1
       else obind (rd (sec abi) (ei_data ei) (ei_sht ei) (unat (sh_link sh))) (\<lambda>str.
         if sh_type str \<noteq> SHT_STRTAB abi then Exit 1
         else if sh_offset sh AND 0xFFF = 0 then Done ei
         else if \<not> sh_addralign sh < 0x1000 then Abort
         else obind (wr (sec abi) (ei_data ei) (ei_sht ei) ndx (sh\<lparr>sh_addralign := 0x1000\<rparr>)) (\<lambda>d.
           shift_sections abi (ei\<lparr>ei_data := d, ei_changed := True\<rparr>) (sh_offset sh) (0x1000 - (sh_offset sh AND 0xFFF))))))"

definition mark_allocated :: "elf_abi \<Rightarrow> ulong \<Rightarrow> ulong \<Rightarrow> nat \<Rightarrow> elf_info \<Rightarrow> elf_info outcome" where
  "mark_allocated abi loadaddr addr i ei =
     (if loadaddr = 0 then Done ei
      else obind (rd (sec abi) (ei_data ei) (ei_sht ei) i) (\<lambda>sh.
        if sh_flags sh AND SHF_ALLOC abi \<noteq> 0 then Done ei
        else obind (wr (sec abi) (ei_data ei) (ei_sht ei) i (sh\<lparr>sh_flags := sh_flags sh OR SHF_ALLOC abi, sh_addr := addr\<rparr>)) (\<lambda>d.
          Done (ei\<lparr>ei_data := d, ei_changed := True\<rparr>))))"

text \<open>The first of \<open>n\<close> program headers from number \<open>i\<close> on that does not end below the address, or the number after the last.\<close>

fun find_program :: "elf_abi \<Rightarrow> bytes \<Rightarrow> nat \<Rightarrow> ulong \<Rightarrow> nat \<Rightarrow> nat \<Rightarrow> nat outcome" where
  "find_program abi d pht loadaddr 0 i = Done i"
| "find_program abi d pht loadaddr (Suc n) i =
     obind (rd (program abi) d pht i) (\<lambda>ph.
       if p_va ph + p_filesz ph < loadaddr then find_program abi d pht loadaddr n (Suc i) else Done i)"

definition add_program :: "elf_abi \<Rightarrow> ulong \<Rightarrow> ulong \<Rightarrow> ulong \<Rightarrow> elf_info \<Rightarrow> elf_info outcome" where
  "add_program abi loadaddr first_off last_off ei =
     (if loadaddr = 0 then Done ei
      else obind (rd (header abi) (ei_data ei) 0 0) (\<lambda>eh.
        let pht = ei_pht ei; w = size_of (program abi); n = unat (e_phnum eh)
        in obind (find_program abi (ei_data ei) pht loadaddr n 0) (\<lambda>i.
           obind (if i = n then Done False
                  else obind (rd (program abi) (ei_data ei) pht i) (\<lambda>ph.
                    Done (p_va ph = loadaddr \<and> p_offset ph = first_off \<and> last_off - first_off \<le> p_filesz ph))) (\<lambda>found.
             if found then Done ei
             else obind (first_offset abi ei) (\<lambda>offset0.
               if offset0 < e_phoff eh + of_nat ((n + 1) * w) \<or> e_shoff eh \<le> offset0 then Exit 1
               else obind (bytes_at (ei_data ei) (pht + i * w) ((n - i) * w)) (\<lambda>b.
                    obind (mem_write (pht + (i + 1) * w) b (ei_data ei)) (\<lambda>d.
                    obind (wr (header abi) d 0 0 (eh\<lparr>e_phnum := e_phnum eh + 1\<rparr>)) (\<lambda>d.
                    obind (wr (program abi) d pht i
                             \<lparr>p_type = PTYPE_LOAD abi, p_flags = PFLAG_READ abi, p_offset = first_off, p_va = loadaddr, p_pa = loadaddr,
                              p_filesz = last_off - first_off, p_memsz = last_off - first_off, p_align = 0x1000\<rparr>) (\<lambda>d.
                      Done (ei\<lparr>ei_data := d, ei_changed := True\<rparr>))))))))))"

text \<open>
  \<^verbatim>\<open>main\<close> on an image that was read into a buffer of the given capacity, with the arguments of \<^verbatim>\<open>-a\<close> and \<^verbatim>\<open>-s\<close>.  \<open>ei_data\<close> of the result is
  what is written, unless nothing changed and the output would be the input file.
\<close>

definition mksymtab :: "elf_abi \<Rightarrow> ulong \<Rightarrow> string option \<Rightarrow> bytes \<Rightarrow> nat \<Rightarrow> elf_info outcome" where
  "mksymtab abi loadaddr lsymtab d cap =
     obind (validate abi (elf_info_new d cap)) (\<lambda>r.
       case r of
         None \<Rightarrow> Exit 1
       | Some ei \<Rightarrow>
           obind (find_section abi ei ''.symtab'') (\<lambda>ndx.
           obind (if ndx = 0 then Exit 1
                  else obind (rd (sec abi) (ei_data ei) (ei_sht ei) ndx) (\<lambda>sh.
                    if sh_type sh \<noteq> SHT_SYMTAB abi then Exit 1 else align_symtab abi ei ndx)) (\<lambda>ei.
           obind (rd (sec abi) (ei_data ei) (ei_sht ei) ndx) (\<lambda>sh.
           obind (rd (sec abi) (ei_data ei) (ei_sht ei) (ndx + 1)) (\<lambda>str.
             let first_off = sh_offset sh; strtab_offset = sh_offset str; last_off = sh_offset str + sh_size str;
                 name = (case lsymtab of None \<Rightarrow> ''symtab'' | Some name \<Rightarrow> name)
             in obind (rewrite_symtabref abi ei name loadaddr (strtab_offset - first_off) (last_off - first_off)) (\<lambda>(nfound, loadaddr, ei).
                  if nfound = 0 \<and> lsymtab \<noteq> None then Exit 1
                  else obind (sort_symtab abi ei) (\<lambda>ei.
                       obind (mark_allocated abi loadaddr loadaddr ndx ei) (\<lambda>ei.
                       obind (mark_allocated abi loadaddr (loadaddr + strtab_offset - first_off) (ndx + 1) ei) (\<lambda>ei.
                         add_program abi loadaddr first_off last_off ei)))))))))"

section \<open>Writing structures\<close>

definition apart :: "nat \<Rightarrow> nat \<Rightarrow> nat \<Rightarrow> nat \<Rightarrow> bool" where
  "apart a n b m \<longleftrightarrow> a + n \<le> b \<or> b + m \<le> a"

text \<open>\<open>d'\<close> has the bytes of \<open>d\<close> outside of the \<open>m\<close> bytes at \<open>b\<close>.\<close>

definition same_but :: "bytes \<Rightarrow> bytes \<Rightarrow> nat \<Rightarrow> nat \<Rightarrow> bool" where
  "same_but d d' b m \<longleftrightarrow> length d' = length d \<and> (\<forall>a n. apart a n b m \<longrightarrow> bytes_at d' a n = bytes_at d a n)"

lemma same_but_rd: "same_but d d' b m \<Longrightarrow> apart (off + i * size_of s) (size_of s) b m \<Longrightarrow> rd s d' off i = rd s d off i"
  by (simp add: same_but_def rd_def)

lemma same_but_refl: "same_but d d b m"
  by (simp add: same_but_def)

lemma same_but_trans:
  assumes "same_but d d' b m" "same_but d' d'' b' m'" "\<And>a n. apart a n c k \<Longrightarrow> apart a n b m \<and> apart a n b' m'"
  shows "same_but d d'' c k"
  using assms unfolding same_but_def by simp

lemma bytes_at_prefix:
  assumes "a + n \<le> b" "b \<le> length d"
  shows "bytes_at (take b d @ y) a n = bytes_at d a n"
proof -
  have "take n (drop a (take b d @ y)) = take n (drop a d)"
    using assms by (intro nth_equalityI) (auto simp: nth_append)
  then show ?thesis
    using assms by (simp add: bytes_at_def)
qed

lemma bytes_at_splice:
  assumes "b + length x \<le> length d" "apart a n b (length x)"
  shows "bytes_at (take b d @ x @ drop (b + length x) d) a n = bytes_at d a n"
proof -
  consider "a + n \<le> b" | "b + length x \<le> a"
    using assms(2) by (auto simp: apart_def)
  then show ?thesis
  proof cases
    case 1
    then show ?thesis
      using assms(1) by (intro bytes_at_prefix) auto
  next
    case 2
    then show ?thesis
      using assms(1) by (simp add: bytes_at_def)
  qed
qed

lemma wr_wf:
  assumes "wf_struct s" "off + Suc i * size_of s \<le> length d"
  obtains d' where "wr s d off i r = Done d'" "rd s d' off i = Done r" "same_but d d' (off + i * size_of s) (size_of s)"
proof -
  let ?b = "off + i * size_of s" and ?w = "size_of s"
  let ?x = "with_fields s r (take ?w (drop ?b d))"
  have x: "length ?x = ?w" "fields_of s ?x = r"
    using assms unfolding wf_struct_def by auto
  have range: "?b + ?w \<le> length d"
    using assms(2) by simp
  let ?d = "take ?b d @ ?x @ drop (?b + ?w) d"
  have "wr s d off i r = Done ?d"
    using range x(1) by (simp add: wr_def bytes_at_def mem_write_def)
  moreover have "rd s ?d off i = Done r"
    using range x by (simp add: rd_Done_iff)
  moreover have "same_but d ?d ?b ?w"
    using bytes_at_splice [of ?b ?x d] range x(1) by (simp add: same_but_def)
  ultimately show ?thesis
    using that by blast
qed

lemma update_entries_wf:
  assumes "wf_struct s" "t + (i + n) * size_of s \<le> length d"
    "\<And>j. i \<le> j \<Longrightarrow> j < i + n \<Longrightarrow> \<exists>r r'. rd s d t j = Done r \<and> f r = Some r'"
  obtains d' where "update_entries s f t n i d = Done d'" "same_but d d' (t + i * size_of s) (n * size_of s)"
    "\<And>j r. i \<le> j \<Longrightarrow> j < i + n \<Longrightarrow> rd s d t j = Done r \<Longrightarrow> rd s d' t j = Done (the (f r))"
  using assms(2,3)
proof (induction n arbitrary: i d thesis)
  case 0
  then show ?case
    using same_but_refl by fastforce
next
  case (Suc n)
  let ?w = "size_of s"
  obtain r r' where r: "rd s d t i = Done r" "f r = Some r'"
    using Suc.prems(3) [of i] by auto
  have "t + Suc i * ?w \<le> t + (i + Suc n) * ?w"
    by simp
  then have "t + Suc i * ?w \<le> length d"
    using Suc.prems(2) by linarith
  then obtain d1 where d1: "wr s d t i r' = Done d1" "rd s d1 t i = Done r'" "same_but d d1 (t + i * ?w) ?w"
    by (rule wr_wf [OF assms(1)])
  have later: "rd s d1 t j = rd s d t j" if "Suc i \<le> j" for j
  proof -
    have "Suc i * ?w \<le> j * ?w"
      using that by (rule mult_le_mono1)
    then show ?thesis
      by (intro same_but_rd [OF d1(3)]) (simp add: apart_def)
  qed
  have len: "t + (Suc i + n) * ?w \<le> length d1"
    using Suc.prems(2) d1(3) by (simp add: same_but_def)
  have ex: "\<exists>r r'. rd s d1 t j = Done r \<and> f r = Some r'" if "Suc i \<le> j" "j < Suc i + n" for j
    using Suc.prems(3) [of j] later that by simp
  obtain d2 where d2: "update_entries s f t n (Suc i) d1 = Done d2" "same_but d1 d2 (t + Suc i * ?w) (n * ?w)"
    "\<And>j r. Suc i \<le> j \<Longrightarrow> j < Suc i + n \<Longrightarrow> rd s d1 t j = Done r \<Longrightarrow> rd s d2 t j = Done (the (f r))"
    by (rule Suc.IH [OF _ len ex]) blast+
  show ?case
  proof (rule Suc.prems(1))
    show "update_entries s f t (Suc n) i d = Done d2"
      using r d1(1) d2(1) by simp
    show "same_but d d2 (t + i * ?w) (Suc n * ?w)"
      by (rule same_but_trans [OF d1(3) d2(2)]) (auto simp: apart_def)
    show "rd s d2 t j = Done (the (f q))" if "i \<le> j" "j < i + Suc n" "rd s d t j = Done q" for j q
    proof (cases "j = i")
      case True
      have "rd s d2 t i = rd s d1 t i"
        by (rule same_but_rd [OF d2(2)]) (simp add: apart_def)
      then show ?thesis
        using True that r d1(2) by simp
    next
      case False
      then show ?thesis
        using d2(3) [of j q] later that by simp
    qed
  qed
qed

lemma insert_zeros_before:
  "a + k \<le> off \<Longrightarrow> off \<le> length d \<Longrightarrow> bytes_at (insert_zeros d off n) a k = bytes_at d a k"
  by (simp add: insert_zeros_def bytes_at_prefix)

lemma insert_zeros_after:
  "off \<le> a \<Longrightarrow> off \<le> length d \<Longrightarrow> bytes_at (insert_zeros d off n) (a + n) k = bytes_at d a k"
  by (simp add: insert_zeros_def bytes_at_def)

lemma length_insert_zeros [simp]: "off \<le> length d \<Longrightarrow> length (insert_zeros d off n) = length d + n"
  by (simp add: insert_zeros_def)

section \<open>Moving keeps the contents of the sections\<close>

text \<open>
  An image that can be moved apart at \<open>offset\<close>: the header, the tables and the sections do not overlap, the header and the program
  headers are below \<open>offset\<close>, and nothing spans it.
\<close>

definition shiftable :: "elf_abi \<Rightarrow> elf_info \<Rightarrow> elf_ehdr \<Rightarrow> ulong \<Rightarrow> ulong \<Rightarrow> bool" where
  "shiftable abi ei eh offset diff \<longleftrightarrow>
     (let d = ei_data ei; h = size_of (header abi); p = ei_pht ei; pn = unat (e_phnum eh) * size_of (program abi);
          s = ei_sht ei; sn = unat (e_shnum eh) * size_of (sec abi); off = unat offset
      in h \<le> p \<and> p + pn < off \<and> apart 0 h s sn \<and> apart p pn s sn \<and> (s + sn \<le> off \<or> off \<le> s) \<and>
         off < length d \<and> 0 < sint diff \<and> length d + unat diff < 2 ^ 64 \<and>
         (\<forall>i<unat (e_phnum eh). \<exists>ph. rd (program abi) d p i = Done ph \<and> moved_program offset diff ph \<noteq> None) \<and>
         (\<forall>i<unat (e_shnum eh). \<exists>sh. rd (sec abi) d s i = Done sh \<and> moved_section abi offset diff sh \<noteq> None \<and>
            (occupies abi sh \<longrightarrow> unat (sh_offset sh) + unat (sh_size sh) \<le> length d \<and>
               apart (unat (sh_offset sh)) (unat (sh_size sh)) 0 h \<and> apart (unat (sh_offset sh)) (unat (sh_size sh)) p pn \<and>
               apart (unat (sh_offset sh)) (unat (sh_size sh)) s sn)))"

lemma unat_plus_fits: "unat a + unat b < 2 ^ 64 \<Longrightarrow> unat (a + b :: ulong) = unat a + unat b"
  by (simp add: unat_word_ariths)

lemma grow_keeps:
  assumes "rd (header abi) (ei_data ei) 0 0 = Done eh" "ei_pht ei = unat (e_phoff eh)" "ei_sht ei = unat (e_shoff eh)"
  obtains ei' where "grow abi n ei = Done ei'" "ei_sht ei' = ei_sht ei" "ei_pht ei' = ei_pht ei"
  using assms by (cases "ei_capacity ei < n"; cases "ei_ok ei") (simp_all add: grow_def)

lemma moved_section_place:
  assumes "moved_section abi offset diff sh = Some sh'" "occupies abi sh"
    "unat (sh_offset sh) + unat (sh_size sh) + unat diff < 2 ^ 64"
  shows "unat offset \<le> unat (sh_offset sh) \<and> unat (sh_offset sh') = unat (sh_offset sh) + unat diff \<or>
    unat (sh_offset sh) + unat (sh_size sh) \<le> unat offset \<and> sh_offset sh' = sh_offset sh"
  using assms unat_plus_fits [of "sh_offset sh" "sh_size sh"] unat_plus_fits [of "sh_offset sh" diff]
  by (auto simp: moved_section_def word_le_nat_alt word_less_nat_alt split: if_splits)

text \<open>The two tables are updated in place.\<close>

lemma shift_updates:
  assumes "elf_layout abi" "shiftable abi ei eh offset diff" "rd (header abi) (ei_data ei) 0 0 = Done eh"
    "ei_pht ei + unat (e_phnum eh) * size_of (program abi) \<le> length (ei_data ei)"
    "ei_sht ei + unat (e_shnum eh) * size_of (sec abi) \<le> length (ei_data ei)"
  obtains d1 d2 where
    "update_entries (program abi) (moved_program offset diff) (ei_pht ei) (unat (e_phnum eh)) 0 (ei_data ei) = Done d1"
    "update_entries (sec abi) (moved_section abi offset diff) (ei_sht ei) (unat (e_shnum eh)) 0 d1 = Done d2"
    "rd (header abi) d2 0 0 = Done eh" "length d2 = length (ei_data ei)"
    "\<And>i sh. i < unat (e_shnum eh) \<Longrightarrow> rd (sec abi) (ei_data ei) (ei_sht ei) i = Done sh \<Longrightarrow>
       rd (sec abi) d2 (ei_sht ei) i = Done (the (moved_section abi offset diff sh))"
    "\<And>a n. apart a n (ei_pht ei) (unat (e_phnum eh) * size_of (program abi)) \<Longrightarrow>
       apart a n (ei_sht ei) (unat (e_shnum eh) * size_of (sec abi)) \<Longrightarrow> bytes_at d2 a n = bytes_at (ei_data ei) a n"
proof -
  let ?d = "ei_data ei" and ?p = "ei_pht ei" and ?s = "ei_sht ei"
  let ?pn = "unat (e_phnum eh)" and ?sn = "unat (e_shnum eh)" and ?pw = "size_of (program abi)" and ?sw = "size_of (sec abi)"
  note sh = assms(2) [unfolded shiftable_def Let_def]
  obtain d1 where d1: "update_entries (program abi) (moved_program offset diff) ?p ?pn 0 ?d = Done d1"
    "same_but ?d d1 (?p + 0 * ?pw) (?pn * ?pw)"
  proof (rule update_entries_wf [OF elf_layout.wf_program [OF assms(1)]])
    show "?p + (0 + ?pn) * ?pw \<le> length ?d"
      using assms(4) by simp
    show "\<exists>r r'. rd (program abi) ?d ?p j = Done r \<and> moved_program offset diff r = Some r'" if "0 \<le> j" "j < 0 + ?pn" for j
      using sh that by fastforce
  qed blast
  have entry: "?s + i * ?sw + ?sw \<le> ?s + ?sn * ?sw" if "i < ?sn" for i
  proof -
    have "Suc i * ?sw \<le> ?sn * ?sw"
      using that by (intro mult_le_mono1) simp
    then show ?thesis
      by simp
  qed
  have sec1: "rd (sec abi) d1 ?s i = rd (sec abi) ?d ?s i" if "i < ?sn" for i
    using entry [OF that] sh by (intro same_but_rd [OF d1(2)]) (auto simp: apart_def)
  have len1: "length d1 = length ?d"
    using d1(2) by (simp add: same_but_def)
  obtain d2 where d2: "update_entries (sec abi) (moved_section abi offset diff) ?s ?sn 0 d1 = Done d2"
    "same_but d1 d2 (?s + 0 * ?sw) (?sn * ?sw)"
    "\<And>j r. 0 \<le> j \<Longrightarrow> j < 0 + ?sn \<Longrightarrow> rd (sec abi) d1 ?s j = Done r \<Longrightarrow>
       rd (sec abi) d2 ?s j = Done (the (moved_section abi offset diff r))"
  proof (rule update_entries_wf [OF elf_layout.wf_section [OF assms(1)]])
    show "?s + (0 + ?sn) * ?sw \<le> length d1"
      using assms(5) len1 by simp
    show "\<exists>r r'. rd (sec abi) d1 ?s j = Done r \<and> moved_section abi offset diff r = Some r'" if "0 \<le> j" "j < 0 + ?sn" for j
      using sh that sec1 by fastforce
  qed blast
  have frame: "bytes_at d2 a n = bytes_at ?d a n" if "apart a n ?p (?pn * ?pw)" "apart a n ?s (?sn * ?sw)" for a n
    using that d1(2) d2(2) by (simp add: same_but_def)
  have "rd (header abi) d2 0 0 = rd (header abi) ?d 0 0"
    using frame [of 0 "size_of (header abi)"] sh by (simp add: rd_def apart_def)
  then show ?thesis
    using that [OF d1(1) d2(1)] assms(3) d2(2,3) sec1 len1 frame by (simp add: same_but_def)
qed

text \<open>The image is moved apart, and the header follows the section table.\<close>

lemma shift_moves:
  assumes "elf_layout abi" "shiftable abi ei eh offset diff" "rd (header abi) (ei_data ei) 0 0 = Done eh"
    "ei_pht ei = unat (e_phoff eh)" "ei_sht ei = unat (e_shoff eh)"
    "ei_pht ei + unat (e_phnum eh) * size_of (program abi) \<le> length (ei_data ei)"
    "ei_sht ei + unat (e_shnum eh) * size_of (sec abi) \<le> length (ei_data ei)"
  obtains d2 ei' where "shift_sections abi ei offset diff = Done ei'" "length (ei_data ei') = length (ei_data ei) + unat diff"
    "\<And>i sh. i < unat (e_shnum eh) \<Longrightarrow> rd (sec abi) (ei_data ei) (ei_sht ei) i = Done sh \<Longrightarrow>
       rd (sec abi) d2 (ei_sht ei) i = Done (the (moved_section abi offset diff sh))"
    "\<And>a n. apart a n (ei_pht ei) (unat (e_phnum eh) * size_of (program abi)) \<Longrightarrow>
       apart a n (ei_sht ei) (unat (e_shnum eh) * size_of (sec abi)) \<Longrightarrow> bytes_at d2 a n = bytes_at (ei_data ei) a n"
    "ei_sht ei' = (if unat offset \<le> ei_sht ei then ei_sht ei + unat diff else ei_sht ei)"
    "\<And>a n. a + n \<le> unat offset \<Longrightarrow> apart a n 0 (size_of (header abi)) \<Longrightarrow> bytes_at (ei_data ei') a n = bytes_at d2 a n"
    "\<And>a n. unat offset \<le> a \<Longrightarrow> bytes_at (ei_data ei') (a + unat diff) n = bytes_at d2 a n"
proof -
  let ?off = "unat offset" and ?df = "unat diff" and ?h = "size_of (header abi)"
  note sh = assms(2) [unfolded shiftable_def Let_def]
  obtain d1 d2 where
    d1: "update_entries (program abi) (moved_program offset diff) (ei_pht ei) (unat (e_phnum eh)) 0 (ei_data ei) = Done d1" and
    d2: "update_entries (sec abi) (moved_section abi offset diff) (ei_sht ei) (unat (e_shnum eh)) 0 d1 = Done d2"
    "rd (header abi) d2 0 0 = Done eh" "length d2 = length (ei_data ei)"
    "\<And>i sh. i < unat (e_shnum eh) \<Longrightarrow> rd (sec abi) (ei_data ei) (ei_sht ei) i = Done sh \<Longrightarrow>
       rd (sec abi) d2 (ei_sht ei) i = Done (the (moved_section abi offset diff sh))"
    "\<And>a n. apart a n (ei_pht ei) (unat (e_phnum eh) * size_of (program abi)) \<Longrightarrow>
       apart a n (ei_sht ei) (unat (e_shnum eh) * size_of (sec abi)) \<Longrightarrow> bytes_at d2 a n = bytes_at (ei_data ei) a n"
    using shift_updates [OF assms(1-3,6,7)] by blast
  obtain ei2 where grow: "grow abi (length d2 + ?df) (ei\<lparr>ei_data := d2\<rparr>) = Done ei2" "ei_sht ei2 = ei_sht ei"
    using grow_keeps [of abi "ei\<lparr>ei_data := d2\<rparr>" eh "length d2 + ?df"] d2(2) assms(4,5) by auto
  have "unat (e_phoff eh + of_nat (unat (e_phnum eh) * size_of (program abi))) < ?off"
  proof -
    let ?n = "unat (e_phnum eh) * size_of (program abi)"
    have "?n < 2 ^ 64"
      using sh by linarith
    then have n: "unat (of_nat ?n :: ulong) = ?n"
      unfolding unat_of_nat by simp
    then have "unat (e_phoff eh + of_nat ?n) = unat (e_phoff eh) + ?n"
      using sh assms(4) by (subst unat_plus_fits) (simp_all only: n, linarith)
    then show ?thesis
      using sh assms(4) by simp
  qed
  then have guard: "\<not> offset \<le> e_phoff eh + of_nat (unat (e_phnum eh) * size_of (program abi))"
    by (simp add: word_le_nat_alt)
  define d3 where "d3 = insert_zeros d2 ?off ?df"
  have off: "?off \<le> length d2" "?h \<le> ?off"
    using sh d2(3) by auto
  have hd3: "rd (header abi) d3 0 0 = Done eh"
    using insert_zeros_before [OF _ off(1), of 0 ?h ?df] off(2) d2(2) by (simp add: rd_def d3_def)
  have run: "shift_sections abi ei offset diff =
      (if offset \<le> e_shoff eh
       then obind (wr (header abi) d3 0 0 (eh\<lparr>e_shoff := e_shoff eh + diff\<rparr>)) (\<lambda>d.
              Done (ei2\<lparr>ei_changed := True, ei_data := d, ei_sht := unat (e_shoff eh + diff)\<rparr>))
       else Done (ei2\<lparr>ei_data := d3, ei_changed := True\<rparr>))"
    using sh guard assms(3) d1 d2(1) grow(1) hd3 by (simp add: shift_sections_def Let_def d3_def)
  have len3: "length d3 = length (ei_data ei) + ?df"
    using off d2(3) by (simp add: d3_def)
  have before: "bytes_at d3 a n = bytes_at d2 a n" if "a + n \<le> ?off" for a n
    using insert_zeros_before [OF that off(1)] by (simp add: d3_def)
  have after: "bytes_at d3 (a + ?df) n = bytes_at d2 a n" if "?off \<le> a" for a n
    using insert_zeros_after [OF that off(1)] by (simp add: d3_def)
  show ?thesis
  proof (cases "offset \<le> e_shoff eh")
    case True
    have "0 + Suc 0 * ?h \<le> length d3"
      using hd3 by (simp add: rd_Done_iff)
    then obtain d4 where d4: "wr (header abi) d3 0 0 (eh\<lparr>e_shoff := e_shoff eh + diff\<rparr>) = Done d4" "same_but d3 d4 (0 + 0 * ?h) ?h"
      by (rule wr_wf [OF elf_layout.wf_header [OF assms(1)]])
    have frame: "bytes_at d4 a n = bytes_at d3 a n" if "apart a n 0 ?h" for a n
      using d4(2) that by (simp add: same_but_def)
    have "unat (e_shoff eh + diff) = ei_sht ei + ?df"
      using sh assms(5,7) by (subst unat_plus_fits) auto
    then show ?thesis
      using True run d4 d2(4,5) len3 before after frame off(2) assms(5)
      by (intro that [of "ei2\<lparr>ei_changed := True, ei_data := d4, ei_sht := unat (e_shoff eh + diff)\<rparr>" d2])
        (simp_all add: same_but_def word_le_nat_alt apart_def)
  next
    case False
    then show ?thesis
      using run d2(4,5) len3 before after grow(2) assms(5)
      by (intro that [of "ei2\<lparr>ei_data := d3, ei_changed := True\<rparr>" d2]) (simp_all add: word_le_nat_alt)
  qed
qed

lemma valid_tables:
  assumes "elf_valid abi ei" "rd (header abi) (ei_data ei) 0 0 = Done eh"
  shows "ei_pht ei = unat (e_phoff eh)" "ei_sht ei = unat (e_shoff eh)"
    "ei_pht ei + unat (e_phnum eh) * size_of (program abi) \<le> length (ei_data ei)"
    "ei_sht ei + unat (e_shnum eh) * size_of (sec abi) \<le> length (ei_data ei)"
proof -
  let ?L = "length (ei_data ei)"
  have hdr: "check_header abi ?L eh" and eqs: "ei_pht ei = unat (e_phoff eh)" "ei_sht ei = unat (e_shoff eh)"
    using assms by (auto simp: elf_valid_def)
  have fits: "off + n * w \<le> ?L" if "off < ?L" "n \<le> (?L - off) div w" for off n w
  proof -
    have "n * w \<le> (?L - off) div w * w"
      using that(2) by (rule mult_le_mono1)
    then show ?thesis
      using that(1) div_times_less_eq_dividend [of "?L - off" w] by linarith
  qed
  show "ei_pht ei = unat (e_phoff eh)" "ei_sht ei = unat (e_shoff eh)"
    "ei_pht ei + unat (e_phnum eh) * size_of (program abi) \<le> ?L" "ei_sht ei + unat (e_shnum eh) * size_of (sec abi) \<le> ?L"
    using hdr eqs fits by (auto simp: check_header_def)
qed

text \<open>
  C33. \<^verbatim>\<open>shift_sections\<close> keeps what the image holds: on an accepted image in which nothing spans \<open>offset\<close> it returns, the image is \<open>diff\<close> bytes
  longer, and every section header says where its section is now; the bytes of every section there are those that it had before.
\<close>

theorem shift_sections_keeps_contents:
  assumes "elf_layout abi" "validate abi (elf_info_new d cap) = Done (Some ei)" "rd (header abi) d 0 0 = Done eh"
    "shiftable abi ei eh offset diff"
  shows "\<exists>ei'. shift_sections abi ei offset diff = Done ei' \<and> length (ei_data ei') = length d + unat diff \<and>
    (\<forall>i<unat (e_shnum eh). \<exists>sh sh'. rd (sec abi) d (ei_sht ei) i = Done sh \<and> rd (sec abi) (ei_data ei') (ei_sht ei') i = Done sh' \<and>
       sh' = sh\<lparr>sh_offset := if offset \<le> sh_offset sh then sh_offset sh + diff else sh_offset sh\<rparr> \<and>
       (occupies abi sh \<longrightarrow> bytes_at (ei_data ei') (unat (sh_offset sh')) (unat (sh_size sh)) =
          bytes_at d (unat (sh_offset sh)) (unat (sh_size sh))))"
proof -
  have "SHT_SYMTAB abi \<noteq> SHT_STRTAB abi"
    using elf_layout.section_types [OF assms(1)] by auto
  then have valid: "elf_valid abi ei" "ei_data ei = d"
    using validate_valid [OF assms(2)] by (simp_all add: elf_info_new_def)
  have hd: "rd (header abi) (ei_data ei) 0 0 = Done eh"
    using assms(3) valid(2) by simp
  note tables = valid_tables [OF valid(1) hd]
  note sh = assms(4) [unfolded shiftable_def Let_def valid(2)]
  obtain d2 ei' where run: "shift_sections abi ei offset diff = Done ei'" "length (ei_data ei') = length d + unat diff" and
    secs: "\<And>i sh. i < unat (e_shnum eh) \<Longrightarrow> rd (sec abi) d (ei_sht ei) i = Done sh \<Longrightarrow>
       rd (sec abi) d2 (ei_sht ei) i = Done (the (moved_section abi offset diff sh))" and
    frame: "\<And>a n. apart a n (ei_pht ei) (unat (e_phnum eh) * size_of (program abi)) \<Longrightarrow>
       apart a n (ei_sht ei) (unat (e_shnum eh) * size_of (sec abi)) \<Longrightarrow> bytes_at d2 a n = bytes_at d a n" and
    sht: "ei_sht ei' = (if unat offset \<le> ei_sht ei then ei_sht ei + unat diff else ei_sht ei)" and
    before: "\<And>a n. a + n \<le> unat offset \<Longrightarrow> apart a n 0 (size_of (header abi)) \<Longrightarrow> bytes_at (ei_data ei') a n = bytes_at d2 a n" and
    after: "\<And>a n. unat offset \<le> a \<Longrightarrow> bytes_at (ei_data ei') (a + unat diff) n = bytes_at d2 a n"
    by (rule shift_moves [OF assms(1,4) hd tables, unfolded valid(2)]) (rule that, assumption+)
  have "\<exists>sh sh'. rd (sec abi) d (ei_sht ei) i = Done sh \<and> rd (sec abi) (ei_data ei') (ei_sht ei') i = Done sh' \<and>
       sh' = sh\<lparr>sh_offset := if offset \<le> sh_offset sh then sh_offset sh + diff else sh_offset sh\<rparr> \<and>
       (occupies abi sh \<longrightarrow> bytes_at (ei_data ei') (unat (sh_offset sh')) (unat (sh_size sh)) =
          bytes_at d (unat (sh_offset sh)) (unat (sh_size sh)))" if i: "i < unat (e_shnum eh)" for i
  proof -
    obtain s s' where s: "rd (sec abi) d (ei_sht ei) i = Done s" "moved_section abi offset diff s = Some s'" and
      apart: "occupies abi s \<Longrightarrow> unat (sh_offset s) + unat (sh_size s) \<le> length d"
        "occupies abi s \<Longrightarrow> apart (unat (sh_offset s)) (unat (sh_size s)) 0 (size_of (header abi))"
        "occupies abi s \<Longrightarrow> apart (unat (sh_offset s)) (unat (sh_size s)) (ei_pht ei) (unat (e_phnum eh) * size_of (program abi))"
        "occupies abi s \<Longrightarrow> apart (unat (sh_offset s)) (unat (sh_size s)) (ei_sht ei) (unat (e_shnum eh) * size_of (sec abi))"
      using sh i by blast
    let ?w = "size_of (sec abi)"
    have "Suc i * ?w \<le> unat (e_shnum eh) * ?w"
      using i by (intro mult_le_mono1) simp
    then have entry: "i * ?w + ?w \<le> unat (e_shnum eh) * ?w"
      by simp
    have "bytes_at (ei_data ei') (ei_sht ei' + i * ?w) ?w = bytes_at d2 (ei_sht ei + i * ?w) ?w"
    proof (cases "unat offset \<le> ei_sht ei")
      case True
      then show ?thesis
        using after [of "ei_sht ei + i * ?w" ?w] sht by (simp add: add_ac)
    next
      case False
      then show ?thesis
        using before [of "ei_sht ei + i * ?w" ?w] sht sh entry by (auto simp: apart_def)
    qed
    then have "rd (sec abi) (ei_data ei') (ei_sht ei') i = Done s'"
      using secs [OF i s(1)] s(2) by (simp add: rd_def)
    moreover have "s' = s\<lparr>sh_offset := if offset \<le> sh_offset s then sh_offset s + diff else sh_offset s\<rparr>"
      using s(2) by (auto simp: moved_section_def split: if_splits)
    moreover have "bytes_at (ei_data ei') (unat (sh_offset s')) (unat (sh_size s)) = bytes_at d (unat (sh_offset s)) (unat (sh_size s))"
      if occ: "occupies abi s"
    proof -
      have "unat (sh_offset s) + unat (sh_size s) + unat diff < 2 ^ 64"
        using apart(1) [OF occ] sh by linarith
      then show ?thesis
        using moved_section_place [OF s(2) occ] before after frame [OF apart(3,4) [OF occ]] apart(2) [OF occ] by auto
    qed
    ultimately show ?thesis
      using s(1) by blast
  qed
  then show ?thesis
    using run by blast
qed

lemma word_dec_zeros: "word_dec (replicate n NUL) = 0"
proof -
  have "le_nat (replicate n NUL) = 0"
    by (induction n) auto
  then show ?thesis
    by (simp add: word_dec_def)
qed

lemma sample_shiftable: "shiftable elf64 sample_ei sample_header 152 3944"
proof -
  have prog: "rd (program elf64) sample_elf 64 0 =
      Done \<lparr>p_type = 0, p_flags = 0, p_offset = 0, p_va = 0, p_pa = 0, p_filesz = 0, p_memsz = 0, p_align = 0\<rparr>"
  proof -
    have "take 56 (drop 64 sample_elf) = replicate 56 NUL"
      by (simp add: sample_elf_def)
    then show ?thesis
      by (simp add: rd_Done_iff sample_elf_reads(1) elf64_def word_dec_zeros min_def)
  qed
  have secs: "\<exists>sh. rd (sec elf64) sample_elf 248 i = Done sh \<and> moved_section elf64 152 3944 sh \<noteq> None \<and>
      (occupies elf64 sh \<longrightarrow> unat (sh_offset sh) + unat (sh_size sh) \<le> 504 \<and>
         apart (unat (sh_offset sh)) (unat (sh_size sh)) 0 64 \<and> apart (unat (sh_offset sh)) (unat (sh_size sh)) 64 56 \<and>
         apart (unat (sh_offset sh)) (unat (sh_size sh)) 248 256)" if "i < 4" for i
  proof -
    have "i = 0 \<or> i = 1 \<or> i = 2 \<or> i = 3"
      using that by linarith
    then show ?thesis
      unfolding sample_elf_reads(3) [OF that]
      by (elim disjE) (simp_all add: sample_sections_def sample_section_def moved_section_def occupies_def apart_def)
  qed
  show ?thesis
    using prog secs by (simp add: shiftable_def Let_def elf_info_new_def sample_header_def sample_elf_reads(1) apart_def moved_program_def)
qed

theorem shift_sections_keeps_contents_witness:
  "\<exists>ei'. shift_sections elf64 sample_ei 152 3944 = Done ei' \<and> length (ei_data ei') = 4448 \<and>
     bytes_at (ei_data ei') 4096 96 = bytes_at sample_elf 152 96"
proof -
  have n: "2 < unat (e_shnum sample_header)"
    by (simp add: sample_header_def)
  have sh: "rd (sec elf64) sample_elf (ei_sht sample_ei) 2 = Done (sample_section 11 2 152 96 3)" "occupies elf64 (sample_section 11 2 152 96 3)"
    using sample_elf_reads(3) [of 2] by (simp_all add: sample_sections_def occupies_def sample_section_def)
  show ?thesis
    using shift_sections_keeps_contents [OF elf64.elf_layout_axioms sample_elf_valid sample_elf_reads(2) sample_shiftable] n sh
    by (fastforce simp: sample_section_def sample_elf_reads(1))
qed

section \<open>The program header of the table\<close>

lemma wr_Done:
  assumes "wf_struct s" "wr s d off i r = Done d'"
  shows "rd s d' off i = Done r" "same_but d d' (off + i * size_of s) (size_of s)"
proof -
  have "off + Suc i * size_of s \<le> length d"
    using assms(2) by (auto simp: wr_def bytes_at_def obind_Done_iff split: if_splits)
  then show "rd s d' off i = Done r" "same_but d d' (off + i * size_of s) (size_of s)"
    using wr_wf [OF assms(1)] assms(2) by (metis outcome.inject)+
qed

lemma find_program_range: "find_program abi d pht la n i = Done j \<Longrightarrow> i \<le> j \<and> j \<le> i + n"
  by (induction n arbitrary: i) (fastforce simp: obind_Done_iff split: if_splits)+

lemma mem_write_frame:
  assumes "mem_write b x d = Done d'"
  shows "same_but d d' b (length x)" "bytes_at d' b (length x) = Done x"
proof -
  have d': "b + length x \<le> length d" "d' = take b d @ x @ drop (b + length x) d"
    using assms by (auto simp: mem_write_def split: if_splits)
  show "same_but d d' b (length x)"
    unfolding same_but_def using bytes_at_splice [OF d'(1)] d' by auto
  show "bytes_at d' b (length x) = Done x"
    using d' by (simp add: bytes_at_def)
qed

lemma bytes_at_sub:
  assumes "bytes_at d a n = Done b" "k + m \<le> n"
  shows "bytes_at d (a + k) m = Done (take m (drop k b))"
  using assms by (auto simp: bytes_at_def min_def drop_take add.commute split: if_splits)

text \<open>The headers from \<open>i\<close> on are moved up by one, the count is increased, and \<open>i\<close> is written: no header is lost.\<close>

lemma insert_program_keeps:
  assumes "elf_layout abi" "size_of (header abi) \<le> p" "j < n"
    "bytes_at d (p + i * size_of (program abi)) ((n - i) * size_of (program abi)) = Done b"
    "mem_write (p + (i + 1) * size_of (program abi)) b d = Done d1"
    "wr (header abi) d1 0 0 eh = Done d2" "wr (program abi) d2 p i ph = Done d3"
  shows "\<exists>j'. rd (program abi) d3 p j' = rd (program abi) d p j"
proof -
  let ?w = "size_of (program abi)" and ?h = "size_of (header abi)"
  note hd = wr_Done(2) [OF elf_layout.wf_header [OF assms(1)] assms(6)]
  note pr = wr_Done(2) [OF elf_layout.wf_program [OF assms(1)] assms(7)]
  note mv = mem_write_frame [OF assms(5)]
  show ?thesis
  proof (cases "j < i")
    case True
    then have "Suc j * ?w \<le> i * ?w"
      by (intro mult_le_mono1) simp
    then have le: "p + j * ?w + ?w \<le> p + i * ?w" "?h \<le> p + j * ?w"
      using assms(2) by simp_all
    then have "rd (program abi) d3 p j = rd (program abi) d2 p j" "rd (program abi) d2 p j = rd (program abi) d1 p j"
      "rd (program abi) d1 p j = rd (program abi) d p j"
      using True same_but_rd [OF pr, of p j "program abi"] same_but_rd [OF hd, of p j "program abi"]
        same_but_rd [OF mv(1), of p j "program abi"] by (simp_all add: apart_def)
    then show ?thesis
      by auto
  next
    case False
    define k where "k = j - i"
    have k: "j = i + k" "Suc k \<le> n - i"
      using False assms(3) by (simp_all add: k_def)
    then have kw: "k * ?w + ?w \<le> (n - i) * ?w"
      using mult_le_mono1 [OF k(2), of ?w] by simp
    have lenb: "length b = (n - i) * ?w"
      using assms(4) by (auto simp: bytes_at_def split: if_splits)
    have "bytes_at d3 (p + (j + 1) * ?w) ?w = bytes_at d2 (p + (j + 1) * ?w) ?w"
      using pr k(1) by (auto simp: same_but_def apart_def algebra_simps)
    also have "\<dots> = bytes_at d1 (p + (j + 1) * ?w) ?w"
      using hd assms(2) by (auto simp: same_but_def apart_def)
    also have "\<dots> = Done (take ?w (drop (k * ?w) b))"
      using bytes_at_sub [OF mv(2), of "k * ?w" ?w] kw lenb k(1) by (simp add: algebra_simps)
    also have "\<dots> = bytes_at d (p + j * ?w) ?w"
      using bytes_at_sub [OF assms(4) kw] k(1) by (simp add: algebra_simps)
    finally show ?thesis
      by (intro exI [of _ "j + 1"]) (simp add: rd_def)
  qed
qed

text \<open>
  After \<open>add_program\<close> there is a program header that loads the table at the load address, and every header that was there before
  is still there.
\<close>

lemma add_program_loads:
  assumes "elf_layout abi" "rd (header abi) (ei_data ei) 0 0 = Done eh" "size_of (header abi) \<le> ei_pht ei"
    "Suc (unat (e_phnum eh)) < 2 ^ 16" "loadaddr \<noteq> 0" "add_program abi loadaddr first_off last_off ei = Done ei'"
  shows "(\<exists>eh' i ph. rd (header abi) (ei_data ei') 0 0 = Done eh' \<and> i < unat (e_phnum eh') \<and>
      rd (program abi) (ei_data ei') (ei_pht ei) i = Done ph \<and> p_va ph = loadaddr \<and> p_offset ph = first_off \<and>
      last_off - first_off \<le> p_filesz ph) \<and>
    (\<forall>j<unat (e_phnum eh). \<exists>j'. rd (program abi) (ei_data ei') (ei_pht ei) j' = rd (program abi) (ei_data ei) (ei_pht ei) j)"
proof -
  let ?w = "size_of (program abi)" and ?n = "unat (e_phnum eh)" and ?p = "ei_pht ei"
  let ?new = "\<lparr>p_type = PTYPE_LOAD abi, p_flags = PFLAG_READ abi, p_offset = first_off, p_va = loadaddr, p_pa = loadaddr,
    p_filesz = last_off - first_off, p_memsz = last_off - first_off, p_align = 0x1000\<rparr>"
  obtain i where i: "find_program abi (ei_data ei) ?p loadaddr ?n 0 = Done i" "i \<le> ?n"
    using assms(2,5,6) find_program_range [of abi "ei_data ei" ?p loadaddr ?n 0]
    by (auto simp: add_program_def Let_def obind_Done_iff)
  have "(\<exists>ph. i < ?n \<and> ei' = ei \<and> rd (program abi) (ei_data ei) ?p i = Done ph \<and> p_va ph = loadaddr \<and> p_offset ph = first_off \<and>
        last_off - first_off \<le> p_filesz ph) \<or>
      (\<exists>b d1 d2. bytes_at (ei_data ei) (?p + i * ?w) ((?n - i) * ?w) = Done b \<and> mem_write (?p + (i + 1) * ?w) b (ei_data ei) = Done d1 \<and>
        wr (header abi) d1 0 0 (eh\<lparr>e_phnum := e_phnum eh + 1\<rparr>) = Done d2 \<and> wr (program abi) d2 ?p i ?new = Done (ei_data ei'))"
    using assms(2,5,6) i by (auto simp: add_program_def Let_def obind_Done_iff split: if_splits)
  then consider (found) ph where "i < ?n" "ei' = ei" "rd (program abi) (ei_data ei) ?p i = Done ph" "p_va ph = loadaddr"
      "p_offset ph = first_off" "last_off - first_off \<le> p_filesz ph"
    | (new) b d1 d2 where "bytes_at (ei_data ei) (?p + i * ?w) ((?n - i) * ?w) = Done b" "mem_write (?p + (i + 1) * ?w) b (ei_data ei) = Done d1"
        "wr (header abi) d1 0 0 (eh\<lparr>e_phnum := e_phnum eh + 1\<rparr>) = Done d2" "wr (program abi) d2 ?p i ?new = Done (ei_data ei')"
    by blast
  then show ?thesis
  proof cases
    case found
    then show ?thesis
      using assms(2) by blast
  next
    case new
    note pr = wr_Done [OF elf_layout.wf_program [OF assms(1)] new(4)]
    have "rd (header abi) (ei_data ei') 0 0 = Done (eh\<lparr>e_phnum := e_phnum eh + 1\<rparr>)"
      using wr_Done(1) [OF elf_layout.wf_header [OF assms(1)] new(3)] same_but_rd [OF pr(2), of 0 0 "header abi"] assms(3)
      by (simp add: apart_def)
    moreover have "i < unat (e_phnum eh + 1)"
      using i(2) assms(4) by (simp add: unat_word_ariths)
    ultimately show ?thesis
      using pr(1) insert_program_keeps [OF assms(1,3) _ new] by fastforce
  qed
qed

text \<open>A reference that ends exactly with its section is refused, although it lies in it.\<close>

lemma rewrite_refuses_last:
  assumes "ei_symtab ei = Some st" "rd (symbol abi) (ei_data ei) st i = Done s" "rd (header abi) (ei_data ei) 0 0 = Done eh"
    "st_info s AND STT_MASK abi = STT_OBJECT abi" "st_shndx s < e_shnum eh" "unat (st_size s) = symtabref_size abi"
    "rd (sec abi) (ei_data ei) (ei_sht ei) (unat (st_shndx s)) = Done sh"
    "st_value s + of_nat (symtabref_size abi) = sh_addr sh + sh_size sh"
  shows "rewrite_one abi strtab_off sz ei loadaddr i = Exit 1"
  using assms by (simp add: rewrite_one_def assms(8) [symmetric])

end
