(* ===== verification/Spec2Isabelle.thy ===== *)
theory Spec2Isabelle
  imports Fs_Rename Queue_Shell Server_Threads Db_Client Cmd_Run Memviewer Elf_Tool
begin

text \<open>
  A verification library for the five systems labs of the repository.  The labs are separate programs; each is a
  group of theories over one prelude.

  \<^bold>\<open>Prelude.\<close>  \<open>C_Prelude\<close> has what all labs use of C: the outcome of a call (\<open>Done\<close>, \<open>Abort\<close> for a failed
  assertion, \<open>Exit\<close>, \<open>Undef\<close> for undefined behaviour), NUL-terminated strings in byte arrays, \<^verbatim>\<open>strtok\<close>, \<^verbatim>\<open>atoi\<close>,
  decimal text, \<^verbatim>\<open>int\<close> wrap-around, little-endian bytes.  \<open>Interfaces\<close> has the contracts that components share, as
  locales: an indexed store, a dictionary, a first-in first-out queue, an address space.  They are interpreted on the disk
  image and the bitmap of Lab 5, the key-value store of Lab 3, the queues of Labs 1 and 3 and the page tables of Lab 4.

  \<^bold>\<open>Lab 1\<close> (\<^verbatim>\<open>lab1-TheCarton-main\<close>).  \<open>Caesar\<close>: \<^verbatim>\<open>caesar.c\<close>; decoding inverts encoding, the shift is the rotation of
  its alphabet.  \<open>Heap_Queue\<close>, \<open>Str_Queue\<close>: the linked queue of \<^verbatim>\<open>queue.c\<close> on an explicit heap.  \<open>Queue_Shell\<close>: the
  programs \<^verbatim>\<open>queue_main.c\<close>, \<^verbatim>\<open>ciphered_queue_main.c\<close>, \<^verbatim>\<open>caesar_main.c\<close> and the exercise \<^verbatim>\<open>debug.c\<close>; a file of commands is
  run as on an abstract list of strings, with all memory freed at the end.

  \<^bold>\<open>Lab 2\<close> (\<^verbatim>\<open>lab2-TheCarton-main\<close>), a shell.  \<open>Cmd_Parse\<close>: the tokenizer, parser and printer of \<^verbatim>\<open>cmdparse.c\<close>; the
  parser returns on every line of legal tokens and reads back what is written down.  It can loop for ever on other
  lines, so that its loops have fuel; twice the length of the line is enough.  \<open>Cmd_Run\<close>: \<^verbatim>\<open>cmdrun.c\<close> and \<^verbatim>\<open>main.c\<close>; a run is
  the tree of the processes it forks, each with what it executes and its three streams; the operating system
  (\<^verbatim>\<open>chdir\<close>, which programs can be executed, their exit status) is a parameter.  For a pipeline of programs, with any redirections, the three streams of
  each process are stated (an input redirection leaves the pipe behind it unconnected), and \<^verbatim>\<open>&&\<close> and \<^verbatim>\<open>||\<close>
  agree with their usual left to right reading, stated on its own, on lines where no operator is chained.

  \<^bold>\<open>Lab 3\<close> (\<^verbatim>\<open>lab3-TheCarton-main\<close>), a key-value server.  \<open>Kvstore\<close>: \<^verbatim>\<open>kvstore.c\<close> on its arrays and the heap of values; it
  implements a map, except that the key in slot 0 cannot be overwritten.  \<open>Task_Queue\<close>, \<open>Server_Threads\<close>: the monitor
  of \<^verbatim>\<open>queue.c\<close> with the listener, the workers and the control thread of \<^verbatim>\<open>dbserver.c\<close> and \<^verbatim>\<open>worker.c\<close> as a step relation, one
  step per statement under the lock, spurious wake-ups included; mutual exclusion, order, absence of faults on the tasks and
  the queue, and that every task is served.  \<open>Db_Server\<close>, \<open>Db_Client\<close>: statistics, handlers, administrator commands and the
  client, on streams that deliver in pieces; a value that is set and arrives unsplit is returned by a later get, when the store has
  room for its key.

  \<^bold>\<open>Lab 4\<close> (\<^verbatim>\<open>lab4-TheCarton-main\<close>), a small kernel.  The library \<^verbatim>\<open>lib.cc\<close> that kernel and programs share: \<open>Lib_Mem\<close>
  (memory and string functions on a memory where arguments may overlap), \<open>Lib_Number\<close> (parsing of numbers, the
  random generator, rounding, on 64-bit words), \<open>Lib_Bits\<close> (highest and lowest bits, powers of two), \<open>Lib_Printf\<close> (formatted printing, into a buffer), \<open>Lib_Console\<close> (the
  console with its scrolling).  The kernel: \<open>Vm_Map\<close>, \<open>Vm_Tree\<close>, \<open>Vm_Walk\<close> have the page allocator \<^verbatim>\<open>kalloc\<close> and the page-table
  iterator \<^verbatim>\<open>vmiter\<close> on the bytes of physical memory; the page tables are seen as trees of paths, with an invariant (tables are
  aligned, in use, each reached once), \<^verbatim>\<open>try_map\<close> changes the translation of one page only, and a moved iterator is a new one.
  \<open>Keyboard\<close>: scan codes and the keys that stop the kernel.  \<open>Kernel\<close>: \<^verbatim>\<open>kernel_start\<close>, \<^verbatim>\<open>process_setup\<close>, program images, the
  exception and system call handlers and the scheduler; the state is a record of memory, process table and the statics, and
  a handler ends in a \<open>kexit\<close>.  \<open>Kernel_Sched\<close>: round robin, no starvation, who is resumed.  \<open>Kernel_Maps\<close>, \<open>Kernel_Procs\<close>: the
  page tables that \<^verbatim>\<open>kernel_start\<close>, \<^verbatim>\<open>process_setup\<close> and \<^verbatim>\<open>sys_page_alloc\<close> make, and that they keep the kernel's memory from the
  processes.  \<open>Kernel_Debug\<close>: the symbol table, the permissions of a range of addresses and backtraces; the binary search
  finds the symbol, and a backtrace ends on any memory.  \<open>Memviewer\<close>: the memory viewer \<^verbatim>\<open>k-memviewer.cc\<close>; its loop over the
  addresses of a process marks the kernel pages that the process can access.  \<open>Elf_Image\<close>, \<open>Elf_Symtab\<close>, \<open>Elf_Tool\<close>: the host tool
  \<^verbatim>\<open>mkchickadeesymtab.cc\<close>; what its validation of an image guarantees, when the kernel finds a symbol in the table that the tool
  sorts, and that moving the sections of an image keeps their contents.  The loops \<open>map_loop\<close>, \<open>setup_kernel_pages\<close> and \<open>schedule_loop\<close> are partial functions; the first two are proved to
  return, the last when some process is runnable.

  \<^bold>\<open>Lab 5\<close> (\<^verbatim>\<open>lab5-TheCarton-main\<close>), a file system.  \<open>Fs_Layout\<close>: the structures on disk and their bytes.
  \<open>Fs_Block\<close>: blocks and the bitmap.  \<open>Fs_Path\<close>, \<open>Fs_Resolve\<close>: path translation on the bytes of the image and of
  the local arrays, and its refinement of a walk over directories as maps.  \<open>Fs_Ops\<close>: the FUSE handlers.  \<open>Fs_Inv\<close>,
  \<open>Fs_Attr\<close>, \<open>Fs_Data\<close>, \<open>Fs_Tree\<close>, \<open>Fs_Names\<close>, \<open>Fs_Remove\<close>: the invariant of an image, its frame rules, and the
  effect of each handler on attributes, contents and names.  \<open>Fs_Write\<close>: \<^verbatim>\<open>fs_write\<close> splices the buffer into the contents,
  block by block, when the bitmap has the blocks it needs.  \<open>Fs_Rename\<close>: a node has one path, and \<^verbatim>\<open>fs_rename\<close> changes the
  paths through the one entry, in a directory where no unused slot keeps the old name.  \<open>Fs_Sample\<close>, \<open>Fs_Props\<close>: the properties, and a
  concrete image on which they are instantiated.

  \<^bold>\<open>Conventions.\<close>  A struct is a record, an enumeration a datatype, a handler one definition with all its branches.
  A loop that may not end is a \<open>partial_function (option)\<close> or has fuel; then it is proved to return.
  Uninitialised local arrays hold bytes that the environment of a call chooses.

  \<^bold>\<open>Not modelled.\<close>  Sockets, threads and FUSE as such (only what the code does with them); the test programs
  \<^verbatim>\<open>test1.c\<close>, \<^verbatim>\<open>test2.c\<close> and the concurrency tests of \<^verbatim>\<open>dbclient.c\<close>; failure of \<^verbatim>\<open>malloc\<close>; of Lab 4 the access to devices
  (the rest of \<^verbatim>\<open>k-hardware.cc\<close>, \<^verbatim>\<open>k-apic.hh\<close>, \<^verbatim>\<open>k-pci.hh\<close>, \<^verbatim>\<open>boot.cc\<close>), the user programs and
  the other build tools.  The headers \<^verbatim>\<open>kernel.hh\<close> and \<^verbatim>\<open>elf.h\<close> are not part of the repository: their constants and layouts are the fields of the
  records \<open>kconf\<close> and \<open>elf_abi\<close>, and pointers of the kernel are physical addresses.
\<close>

end
